(* ===== verification/Prelude.thy ===== *)
theory Prelude
  imports Main "HOL-Library.Word" "HOL-Library.Monad_Syntax"
begin

text \<open>
  The shared vocabulary of the development: the fixed-width integer types of the C sources, the
  conversions C performs between them, byte-addressed blocks with little-endian loads and stores,
  the build constants of \<^verbatim>\<open>src/config.h\<close>, and the lemma collections the
  component theories draw on.

  A fallible or possibly non-returning operation is an \<open>option\<close>: \<open>None\<close> stands for undefined
  behaviour (a null or dangling pointer, an access outside an object, signed overflow, use of an
  uninitialised local, locking a mutex the caller already holds) and for a loop that never ends.
  Error codes the C functions return are ordinary values.
\<close>

unbundle bit_operations_syntax

section \<open>Machine integers\<close>

type_synonym u8 = "8 word"
type_synonym u16 = "16 word"
type_synonym u32 = "32 word"
type_synonym u64 = "64 word"

named_theorems layout \<open>offsets and sizes of the on-disk structures\<close>
named_theorems block_types \<open>the block type tags\<close>
named_theorems frame \<open>what an operation leaves unchanged\<close>

text \<open>Assigning a \<^verbatim>\<open>uint64_t\<close> to an \<^verbatim>\<open>int\<close> keeps the low 32 bits, read as two's complement.\<close>

definition int_of_u64 :: "u64 \<Rightarrow> int" where
  "int_of_u64 x = sint (ucast x :: 32 word)"

definition int_max :: int where [simp]: "int_max = 2 ^ 31 - 1"
definition int_min :: int where [simp]: "int_min = - (2 ^ 31)"

text \<open>A signed 32-bit result: \<open>None\<close> on overflow.\<close>

definition c_int :: "int \<Rightarrow> int option" where
  "c_int x = (if int_min \<le> x \<and> x \<le> int_max then Some x else None)"

lemma c_int_nonneg: "0 \<le> x \<Longrightarrow> x \<le> int_max \<Longrightarrow> c_int x = Some x"
  by (simp add: c_int_def)

lemma c_int_nat: "n < 2 ^ 31 \<Longrightarrow> c_int (int n) = Some (int n)"
  by (rule c_int_nonneg) simp_all

text \<open>Integer division truncates towards zero.\<close>

definition c_div :: "int \<Rightarrow> int \<Rightarrow> int" where
  "c_div a b = sgn a * sgn b * (\<bar>a\<bar> div \<bar>b\<bar>)"

lemma c_div_nat [simp]: "c_div (int m) (int k) = int (m div k)"
  by (cases "m = 0"; cases "k = 0") (simp_all add: c_div_def zdiv_int)

text \<open>A result of type \<^verbatim>\<open>off_t\<close>, signed with 64 bits: \<open>None\<close> on overflow.\<close>

definition c_off :: "int \<Rightarrow> u64 option" where
  "c_off x = (if - (2 ^ 63) \<le> x \<and> x < 2 ^ 63 then Some (word_of_int x) else None)"

lemma c_off_nat: "n < 2 ^ 63 \<Longrightarrow> c_off (int n) = Some (of_nat n)"
  by (simp add: c_off_def)

lemma int_of_u64_small:
  assumes "unat x < 2 ^ 31"
  shows "int_of_u64 x = int (unat x)"
proof -
  have u: "uint x < 2 ^ 31"
    using assms by (metis of_nat_less_iff of_nat_numeral of_nat_power uint_nat)
  have "uint (ucast x :: 32 word) = take_bit 32 (uint x)"
    by (simp add: unsigned_ucast_eq unsigned_take_bit_eq)
  also have "\<dots> = uint x"
    using u by (intro take_bit_int_eq_self) simp_all
  finally have "uint (ucast x :: 32 word) = uint x" .
  moreover have "signed_take_bit 31 (uint x) = uint x"
    using u uint_ge_0 [of x] by (intro signed_take_bit_int_eq_self) linarith+
  ultimately show ?thesis
    by (simp add: int_of_u64_def sint_uint)
qed

lemma int_of_u64_of_nat [simp]: "n < 2 ^ 31 \<Longrightarrow> int_of_u64 (of_nat n) = int n"
  using int_of_u64_small [of "of_nat n"] by (simp add: unat_of_nat take_bit_nat_eq_self)

text \<open>Rounding a quotient up, the way the sources write it.\<close>

lemma ceil_div:
  assumes "0 < (k :: nat)"
  shows "(if m mod k \<noteq> 0 then m div k + 1 else m div k) = (m + (k - 1)) div k"
proof -
  have "m + (k - 1) = m mod k + (k - 1) + k * (m div k)" by simp
  then have e: "(m + (k - 1)) div k = m div k + (m mod k + (k - 1)) div k"
    using assms by (metis div_mult_self2 gr_implies_not0)
  show ?thesis
  proof (cases "m mod k = 0")
    case True
    then show ?thesis using assms unfolding e by simp
  next
    case False
    then obtain r where r: "m mod k = Suc r" using not0_implies_Suc by blast
    then have "Suc r < k" using assms mod_less_divisor [of k m] by simp
    then have "(k + r) div k = 1" by (intro div_nat_eqI) simp_all
    then have "(m mod k + (k - 1)) div k = 1" using assms by (simp add: r add.commute)
    with False show ?thesis unfolding e by simp
  qed
qed

lemma unat_of_nat_small: "n < 2 ^ 64 \<Longrightarrow> unat (of_nat n :: u64) = n"
  by (simp add: unat_of_nat take_bit_nat_eq_self)

lemma of_nat_u64_inj:
  assumes "m < 2 ^ 64" and "n < 2 ^ 64" and "(of_nat m :: u64) = of_nat n"
  shows "m = n"
  using arg_cong [OF assms(3), of unat] assms(1,2) by (simp only: unat_of_nat_small)

lemma sint_of_nat_small:
  assumes "n < 2 ^ 63"
  shows "sint (of_nat n :: u64) = int n"
proof -
  have "unat (of_nat n :: u64) = n" using assms by (intro unat_of_nat_small) simp
  then have u: "uint (of_nat n :: u64) = int n" by (simp only: uint_nat)
  have "signed_take_bit 63 (int n) = int n"
    using assms by (intro signed_take_bit_int_eq_self) simp_all
  then show ?thesis by (simp only: sint_uint u) simp
qed

lemma c_off_add: "m + n < 2 ^ 63 \<Longrightarrow> c_off (sint (of_nat m :: u64) + int n) = Some (of_nat (m + n))"
  using c_off_nat [of "m + n"] by (simp add: sint_of_nat_small)

section \<open>Build constants (config.h)\<close>

definition BLOCK_SIZE :: nat where [layout]: "BLOCK_SIZE = 4096"
definition USABLE_BLOCK_SIZE :: nat where [layout]: "USABLE_BLOCK_SIZE = 4092"
definition MAX_KEYS :: nat where [layout]: "MAX_KEYS = 250"
definition MIN_KEYS :: nat where [layout]: "MIN_KEYS = MAX_KEYS div 2"
definition HASHMAP_SIZE :: nat where [layout]: "HASHMAP_SIZE = 32"

definition BLOCK_TYPE_DATA :: u32 where [block_types]: "BLOCK_TYPE_DATA = 0x41544144"
definition BLOCK_TYPE_BTREE_NODE :: u32 where [block_types]: "BLOCK_TYPE_BTREE_NODE = 0x444e5442"
definition BLOCK_TYPE_BITMAP :: u32 where [block_types]: "BLOCK_TYPE_BITMAP = 0x504d5442"
definition BLOCK_TYPE_INODE :: u32 where [block_types]: "BLOCK_TYPE_INODE = 0x444f4e49"
definition BLOCK_TYPE_SUPER :: u32 where [block_types]: "BLOCK_TYPE_SUPER = 0x52505553"
definition BLOCK_TYPE_JOURNAL :: u32 where [block_types]: "BLOCK_TYPE_JOURNAL = 0x4c4e524a"

section \<open>Hash buckets and association chains\<close>

text \<open>Both hash maps of the cache index their \<open>HASHMAP_SIZE\<close> buckets by the key modulo the size.\<close>

definition hash_bucket :: "u64 \<Rightarrow> nat" where
  "hash_bucket b = unat (b mod of_nat HASHMAP_SIZE)"

lemma hash_bucket_less [simp]: "hash_bucket b < HASHMAP_SIZE"
proof -
  have "b mod 32 < (32 :: u64)" by (rule word_mod_less_divisor) simp
  then show ?thesis by (simp add: hash_bucket_def layout word_less_nat_alt)
qed

lemma find_None_map: "find (\<lambda>n. f n = b) xs = None \<longleftrightarrow> b \<notin> f ` set xs"
  by (auto simp: find_None_iff)

lemma find_filter_ne:
  "find (\<lambda>n. f n = x) (filter (\<lambda>n. f n \<noteq> b) c) = (if x = b then None else find (\<lambda>n. f n = x) c)"
  by (induction c) auto

lemma distinct_map_filter_id:
  assumes "distinct (map f (n # c))"
  shows "filter (\<lambda>m. f m \<noteq> f n) c = c"
  using assms by (intro filter_True) (auto simp: image_iff)

section \<open>Blocks as byte arrays\<close>

text \<open>
  A block is its bytes by offset. The structures the sources overlay on a block are read and
  written with \<open>load_le\<close> and \<open>store_le\<close>, so two structures placed on the same bytes alias as they
  do in C. Offsets at or past \<open>BLOCK_SIZE\<close> are never accessed: the operations check them.
\<close>

type_synonym block = "nat \<Rightarrow> u8"

primrec load_le :: "nat \<Rightarrow> block \<Rightarrow> nat \<Rightarrow> 'a::len word" where
  "load_le 0 b off = 0"
| "load_le (Suc k) b off = load_le k b off OR push_bit (8 * k) (ucast (b (off + k)))"

definition store_le :: "nat \<Rightarrow> 'a::len word \<Rightarrow> block \<Rightarrow> nat \<Rightarrow> block" where
  "store_le k v b off =
     (\<lambda>i. if off \<le> i \<and> i < off + k then ucast (drop_bit (8 * (i - off)) v) else b i)"

lemma bit_load_le:
  "bit (load_le k b off :: 'a::len word) n \<longleftrightarrow>
     n < LENGTH('a) \<and> n < 8 * k \<and> bit (b (off + n div 8)) (n mod 8)"
proof (induction k)
  case 0
  then show ?case by simp
next
  case (Suc k)
  show ?case
  proof (cases "n < 8 * k")
    case True
    then show ?thesis by (auto simp: Suc bit_simps)
  next
    case False
    show ?thesis
    proof (cases "n < 8 * Suc k")
      case True
      with False have "n div 8 = k" by simp
      moreover from this have "n mod 8 = n - 8 * k"
        by (metis minus_mult_div_eq_mod)
      ultimately have "n div 8 = k" and "n mod 8 = n - 8 * k" by simp_all
      with False True show ?thesis
        by (auto simp: Suc bit_simps)
    next
      case F2: False
      then have "\<not> bit (b (off + k)) (n - 8 * k)"
        using bit_imp_le_length [of "b (off + k)" "n - 8 * k"] by auto
      with False F2 show ?thesis by (auto simp: Suc bit_simps)
    qed
  qed
qed

lemma load_store_same [simp]:
  assumes "LENGTH('a) = 8 * k"
  shows "load_le k (store_le k (v :: 'a::len word) b off) off = v"
proof (rule bit_word_eqI)
  fix n assume n: "n < LENGTH('a)"
  then have "n div 8 < k" using assms by (simp add: less_mult_imp_div_less mult.commute)
  then have "store_le k v b off (off + n div 8) = ucast (drop_bit (8 * (n div 8)) v)"
    by (simp add: store_le_def)
  then show "bit (load_le k (store_le k v b off) off :: 'a word) n = bit v n"
    using n assms by (simp add: bit_load_le bit_simps)
qed

lemma load_store_other [simp]:
  assumes "off + k \<le> off' \<or> off' + k' \<le> off"
  shows "load_le k (store_le k' v b off') off = load_le k b off"
proof -
  have "\<And>j. j < k \<Longrightarrow> store_le k' v b off' (off + j) = b (off + j)"
    using assms by (auto simp: store_le_def)
  then show ?thesis by (induction k) (auto simp: assms)
qed

lemma store_le_outside [simp]: "i < off \<or> off + k \<le> i \<Longrightarrow> store_le k v b off i = b i"
  by (auto simp: store_le_def)

abbreviation load16 :: "block \<Rightarrow> nat \<Rightarrow> u16" where "load16 \<equiv> load_le 2"
abbreviation load32 :: "block \<Rightarrow> nat \<Rightarrow> u32" where "load32 \<equiv> load_le 4"
abbreviation load64 :: "block \<Rightarrow> nat \<Rightarrow> u64" where "load64 \<equiv> load_le 8"
abbreviation store16 :: "u16 \<Rightarrow> block \<Rightarrow> nat \<Rightarrow> block" where "store16 \<equiv> store_le 2"
abbreviation store32 :: "u32 \<Rightarrow> block \<Rightarrow> nat \<Rightarrow> block" where "store32 \<equiv> store_le 4"
abbreviation store64 :: "u64 \<Rightarrow> block \<Rightarrow> nat \<Rightarrow> block" where "store64 \<equiv> store_le 8"

text \<open>Byte arrays inside a block.\<close>

definition load_bytes :: "nat \<Rightarrow> block \<Rightarrow> nat \<Rightarrow> u8 list" where
  "load_bytes n b off = map (\<lambda>i. b (off + i)) [0..<n]"

definition store_bytes :: "u8 list \<Rightarrow> block \<Rightarrow> nat \<Rightarrow> block" where
  "store_bytes xs b off = (\<lambda>i. if off \<le> i \<and> i < off + length xs then xs ! (i - off) else b i)"

lemma length_load_bytes [simp]: "length (load_bytes n b off) = n"
  by (simp add: load_bytes_def)

lemma load_store_bytes [simp]: "length xs = n \<Longrightarrow> load_bytes n (store_bytes xs b off) off = xs"
  by (rule nth_equalityI) (simp_all add: load_bytes_def store_bytes_def)

lemma load_bytes_store_le [simp]:
  "off + n \<le> off' \<or> off' + k \<le> off \<Longrightarrow> load_bytes n (store_le k v b off') off = load_bytes n b off"
  by (auto simp: load_bytes_def)

lemma load_le_store_bytes [simp]:
  assumes "off + k \<le> off' \<or> off' + length xs \<le> off"
  shows "load_le k (store_bytes xs b off') off = load_le k b off"
proof -
  have "\<And>j. j < k \<Longrightarrow> store_bytes xs b off' (off + j) = b (off + j)"
    using assms by (auto simp: store_bytes_def)
  then show ?thesis by (induction k) (auto simp: assms)
qed

text \<open>Arrays of 64-bit words inside a block.\<close>

definition load_words :: "nat \<Rightarrow> block \<Rightarrow> nat \<Rightarrow> u64 list" where
  "load_words n b off = map (\<lambda>i. load64 b (off + 8 * i)) [0..<n]"

definition store_words :: "u64 list \<Rightarrow> block \<Rightarrow> nat \<Rightarrow> block" where
  "store_words xs b off =
     (\<lambda>j. if off \<le> j \<and> j < off + 8 * length xs
          then ucast (drop_bit (8 * ((j - off) mod 8)) (xs ! ((j - off) div 8))) else b j)"

lemma load_le_cong: "(\<And>j. j < k \<Longrightarrow> b (off + j) = b' (off' + j)) \<Longrightarrow> load_le k b off = load_le k b' off'"
  by (induction k) auto

lemma length_load_words [simp]: "length (load_words n b off) = n"
  by (simp add: load_words_def)

lemma nth_load_words [simp]: "i < n \<Longrightarrow> load_words n b off ! i = load64 b (off + 8 * i)"
  by (simp add: load_words_def)

lemma load_store_word:
  assumes "i < length xs"
  shows "load64 (store_words xs b off) (off + 8 * i) = xs ! i"
proof -
  have "load64 (store_words xs b off) (off + 8 * i) = load64 (store64 (xs ! i) b (off + 8 * i)) (off + 8 * i)"
  proof (rule load_le_cong)
    fix j :: nat assume j: "j < 8"
    have "8 * i + j < 8 * length xs" using assms j by linarith
    then show "store_words xs b off (off + 8 * i + j) = store64 (xs ! i) b (off + 8 * i) (off + 8 * i + j)"
      using j by (simp add: store_words_def store_le_def)
  qed
  then show ?thesis by simp
qed

lemma load_store_words [simp]: "length xs = n \<Longrightarrow> load_words n (store_words xs b off) off = xs"
  by (rule nth_equalityI) (simp_all add: load_store_word)

lemma load_le_store_words [simp]:
  assumes "off + k \<le> off' \<or> off' + 8 * length xs \<le> off"
  shows "load_le k (store_words xs b off') off = load_le k b off"
  using assms by (intro load_le_cong) (auto simp: store_words_def)

lemma load_words_store_le [simp]:
  "off + 8 * n \<le> off' \<or> off' + k \<le> off \<Longrightarrow> load_words n (store_le k v b off') off = load_words n b off"
  by (auto simp: load_words_def)

lemma load_words_store_words [simp]:
  "off + 8 * n \<le> off' \<or> off' + 8 * length xs \<le> off \<Longrightarrow>
   load_words n (store_words xs b off') off = load_words n b off"
  by (auto simp: load_words_def)

lemma store_words_outside [simp]: "i < off \<or> off + 8 * length xs \<le> i \<Longrightarrow> store_words xs b off i = b i"
  by (auto simp: store_words_def)

text \<open>A block of zeros, as on a new image.\<close>

definition zero_block :: "nat \<Rightarrow> u8" where
  "zero_block = (\<lambda>_. 0)"

lemma load_zero: "load_le k zero_block off = 0"
  by (induction k) (simp_all add: zero_block_def)

text \<open>The first four bytes of every block are its type tag; the structure starts after them.\<close>

abbreviation btype :: "block \<Rightarrow> u32" where "btype b \<equiv> load32 b 0"
abbreviation set_btype :: "u32 \<Rightarrow> block \<Rightarrow> block" where "set_btype t b \<equiv> store32 t b 0"

text \<open>Removing the element with a key of its own from the list of keys.\<close>

lemma remove1_map_key:
  assumes "\<And>x. x \<in> set xs \<Longrightarrow> x \<noteq> a \<Longrightarrow> f x \<noteq> f a"
  shows "map f (remove1 a xs) = remove1 (f a) (map f xs)"
  using assms
proof (induction xs)
  case (Cons y xs)
  then have "y \<noteq> a \<Longrightarrow> f a \<noteq> f y" using Cons.prems [of y] by fastforce
  with Cons show ?case by (cases "y = a") simp_all
qed simp

section \<open>Counted loops\<close>

text \<open>\<open>for_range n i f x\<close> is \<^verbatim>\<open>for (j = i; j < i + n; j++) x = f(j, x)\<close> with a body that may fail.\<close>

fun for_range :: "nat \<Rightarrow> nat \<Rightarrow> (nat \<Rightarrow> 'a \<Rightarrow> 'a option) \<Rightarrow> 'a \<Rightarrow> 'a option" where
  "for_range 0 i f x = Some x"
| "for_range (Suc n) i f x = do { x \<leftarrow> f i x; for_range n (Suc i) f x }"

text \<open>Array accesses: outside the array they are undefined.\<close>

definition aget :: "'a list \<Rightarrow> nat \<Rightarrow> 'a option" where
  "aget xs i = (if i < length xs then Some (xs ! i) else None)"

definition aset :: "'a list \<Rightarrow> nat \<Rightarrow> 'a \<Rightarrow> 'a list option" where
  "aset xs i v = (if i < length xs then Some (xs[i := v]) else None)"

section \<open>C strings\<close>

text \<open>
  A C string outside of a block is its characters before the NUL. In a block it is a byte array;
  copying past the end of the array and reading an array without a NUL are undefined.
\<close>

definition bytes_of :: "string \<Rightarrow> u8 list" where
  "bytes_of str = map (\<lambda>c. of_nat (of_char c)) str"

definition strcpy :: "nat \<Rightarrow> string \<Rightarrow> block \<Rightarrow> nat \<Rightarrow> block option" where
  "strcpy n str b off = (if length str < n then Some (store_bytes (bytes_of str @ [0]) b off) else None)"

definition strncpy :: "nat \<Rightarrow> string \<Rightarrow> block \<Rightarrow> nat \<Rightarrow> block" where
  "strncpy n str b off = store_bytes (take n (bytes_of str @ replicate n 0)) b off"

definition str_of_bytes :: "u8 list \<Rightarrow> string option" where
  "str_of_bytes xs = (if 0 \<in> set xs then Some (map (\<lambda>x. char_of (unat x)) (takeWhile (\<lambda>x. x \<noteq> 0) xs)) else None)"

definition read_str :: "nat \<Rightarrow> block \<Rightarrow> nat \<Rightarrow> string option" where
  "read_str n b off = str_of_bytes (load_bytes n b off)"

text \<open>Whether \<^verbatim>\<open>strcmp\<close> of a byte array and a string is 0.\<close>

fun strcmp_eq :: "u8 list \<Rightarrow> string \<Rightarrow> bool option" where
  "strcmp_eq [] str = None"
| "strcmp_eq (x # xs) [] = Some (x = 0)"
| "strcmp_eq (x # xs) (c # str) = (if x \<noteq> of_nat (of_char c) then Some False else strcmp_eq xs str)"

lemma length_bytes_of [simp]: "length (bytes_of str) = length str"
  by (simp add: bytes_of_def)

lemma bytes_of_nonzero: "CHR 0x00 \<notin> set str \<Longrightarrow> 0 \<notin> set (bytes_of str)"
proof -
  assume a: "CHR 0x00 \<notin> set str"
  have "(of_nat (of_char c) :: u8) \<noteq> 0" if "c \<in> set str" for c
  proof
    assume "(of_nat (of_char c) :: u8) = 0"
    then have "(of_char c :: nat) mod 256 = 0" by (simp add: word_of_nat_eq_0_iff dvd_eq_mod_eq_0)
    then have "(of_char c :: nat) = of_char (CHR 0x00)" by simp
    then have "c = CHR 0x00" by (simp only: of_char_eq_iff)
    with that a show False by blast
  qed
  then show ?thesis by (auto simp: bytes_of_def)
qed

lemma str_of_bytes_of:
  assumes "CHR 0x00 \<notin> set str"
  shows "str_of_bytes (bytes_of str @ 0 # xs) = Some str"
proof -
  have "takeWhile (\<lambda>x. x \<noteq> 0) (bytes_of str @ 0 # xs) = bytes_of str"
    using bytes_of_nonzero [OF assms] by (subst takeWhile_append2) auto
  moreover have "char_of (unat (of_nat (of_char c) :: u8)) = c" for c
  proof -
    have "unat (of_nat (of_char c) :: u8) = of_char c" by (simp add: unsigned_of_nat take_bit_eq_mod)
    then show ?thesis by simp
  qed
  ultimately show ?thesis by (simp add: str_of_bytes_def bytes_of_def comp_def)
qed

lemma load_bytes_store_prefix:
  assumes "length xs \<le> n"
  shows "load_bytes n (store_bytes xs b off) off = xs @ load_bytes (n - length xs) b (off + length xs)"
  using assms by (intro nth_equalityI) (auto simp: load_bytes_def store_bytes_def nth_append)

lemma read_str_strcpy:
  assumes "strcpy n str b off = Some b'" and "CHR 0x00 \<notin> set str"
  shows "read_str n b' off = Some str"
proof -
  have "length str < n" "b' = store_bytes (bytes_of str @ [0]) b off" using assms(1) by (auto simp: strcpy_def split: if_splits)
  then show ?thesis using str_of_bytes_of [OF assms(2)] by (simp add: read_str_def load_bytes_store_prefix)
qed

section \<open>Monotonicity of recursive calls\<close>

text \<open>What the recursive definitions with a recursive call below a pattern or a counted loop rest on.\<close>

lemma case_prod_mono [partial_function_mono]:
  "(\<And>a b. mono_option (\<lambda>f. g a b f)) \<Longrightarrow> mono_option (\<lambda>f. case p of (a, b) \<Rightarrow> g a b f)"
  by (cases p) simp

lemma case_option_mono [partial_function_mono]:
  "mono_option (\<lambda>f. g f) \<Longrightarrow> (\<And>a. mono_option (\<lambda>f. h a f)) \<Longrightarrow> mono_option (\<lambda>f. case p of None \<Rightarrow> g f | Some a \<Rightarrow> h a f)"
  by (cases p) simp_all

lemma for_range_mono [partial_function_mono]:
  assumes "\<And>i x. mono_option (\<lambda>f. B f i x)"
  shows "mono_option (\<lambda>f. for_range n i (B f) x)"
  by (induction n arbitrary: i x) (simp_all add: option.const_mono bind_mono assms)

end
