(* ===== verification/Paths.thy ===== *)
theory Paths
  imports Prelude
begin

text \<open>
  Path strings (\<^verbatim>\<open>src/string.c\<close>) and the path hash (\<^verbatim>\<open>path_hash\<close> in \<^verbatim>\<open>src/hash.c\<close>). A C
  string is its characters before the terminating NUL. A returned \<^verbatim>\<open>NULL\<close> is the inner \<open>None\<close> of
  \<open>split\<close>; writing past the \<^verbatim>\<open>PATH_MAX\<close> buffer of \<open>parent_path\<close> is undefined.
\<close>

section \<open>The operations\<close>

definition PATH_MAX :: nat where "PATH_MAX = 2030"

abbreviation slash :: char where "slash \<equiv> CHR ''/''"

definition count_l :: "string \<Rightarrow> nat" where
  "count_l path = (if length path = 1 then 0 else length (filter (\<lambda>c. c = slash) path))"

text \<open>\<open>find_slash path n\<close>: the loop that moves \<^verbatim>\<open>end\<close> down from offset \<open>n\<close> to the first slash or to 0.\<close>

fun find_slash :: "string \<Rightarrow> nat \<Rightarrow> nat" where
  "find_slash path 0 = 0"
| "find_slash path (Suc n) = (if path ! Suc n \<noteq> slash then find_slash path n else Suc n)"

definition parent_path :: "string \<Rightarrow> nat \<Rightarrow> string option" where
  "parent_path path l =
     (if l \<le> 1 then Some ''/''
      else let end = find_slash path (length path - 1)
           in if end = 0 then Some ''/''
              else if PATH_MAX \<le> end then None
              else Some (take end path))"

definition get_name :: "string \<Rightarrow> string" where
  "get_name path =
     (if slash \<in> set path then rev (takeWhile (\<lambda>c. c \<noteq> slash) (rev path)) else path)"

text \<open>The loop of \<open>split\<close>, with \<open>k = n - segment\<close> segments still to pass.\<close>

fun split_loop :: "string \<Rightarrow> nat \<Rightarrow> string option" where
  "split_loop start 0 = None"
| "split_loop start (Suc k) =
     (if start = [] then None
      else let start = dropWhile (\<lambda>c. c = slash) start
           in if start = [] then None
              else if k = 0 then Some (takeWhile (\<lambda>c. c \<noteq> slash) start)
              else split_loop (dropWhile (\<lambda>c. c \<noteq> slash) start) k)"

definition split :: "string \<Rightarrow> int \<Rightarrow> string option" where
  "split path n = (if n \<le> 0 then None else split_loop path (nat n))"

fun hash_loop :: "u64 \<Rightarrow> string \<Rightarrow> u64" where
  "hash_loop hash [] = hash"
| "hash_loop hash (c # path) = hash_loop ((hash XOR of_nat (of_char c)) * 0x100000001b3) path"

definition path_hash :: "string \<Rightarrow> u64" where
  "path_hash path = hash_loop 0xcbf29ce484222325 path"

section \<open>Canonical absolute paths\<close>

text \<open>A component is non-empty and has no slash; \<open>join\<close> writes the absolute path of its components.\<close>

definition component :: "string \<Rightarrow> bool" where
  "component c \<longleftrightarrow> c \<noteq> [] \<and> slash \<notin> set c"

fun join :: "string list \<Rightarrow> string" where
  "join [] = []"
| "join (c # cs) = slash # c @ join cs"

lemma join_append [simp]: "join (as @ bs) = join as @ join bs"
  by (induction as) auto

lemma filter_slash_component: "component c \<Longrightarrow> filter (\<lambda>x. x = slash) c = []"
  by (auto simp: component_def filter_empty_conv)

lemma slashes_join: "list_all component cs \<Longrightarrow> length (filter (\<lambda>c. c = slash) (join cs)) = length cs"
  by (induction cs) (auto simp: filter_slash_component)

lemma length_join: "list_all component cs \<Longrightarrow> 2 * length cs \<le> length (join cs)"
proof (induction cs)
  case (Cons c cs)
  then have "1 \<le> length c" by (simp add: component_def Suc_le_eq)
  with Cons show ?case by simp
qed simp

lemma count_l_join:
  assumes "list_all component cs"
  shows "count_l (join cs) = length cs"
  using length_join [OF assms] slashes_join [OF assms] by (cases cs) (auto simp: count_l_def)

lemma dropWhile_component: "component c \<Longrightarrow> dropWhile (\<lambda>x. x = slash) (c @ r) = c @ r"
  by (cases c) (auto simp: component_def)

lemma takeWhile_component:
  "component c \<Longrightarrow> r = [] \<or> hd r = slash \<Longrightarrow> takeWhile (\<lambda>x. x \<noteq> slash) (c @ r) = c"
  by (cases r) (auto simp: component_def takeWhile_append intro!: takeWhile_eq_all_conv [THEN iffD2])

lemma dropWhile_component_end:
  "component c \<Longrightarrow> r = [] \<or> hd r = slash \<Longrightarrow> dropWhile (\<lambda>x. x \<noteq> slash) (c @ r) = r"
  by (cases r) (auto simp: component_def dropWhile_append intro!: dropWhile_eq_Nil_conv [THEN iffD2])

lemma join_hd: "join cs = [] \<or> hd (join cs) = slash"
  by (cases cs) auto

lemma split_loop_join:
  "list_all component cs \<Longrightarrow> split_loop (join cs) (Suc k) = (if k < length cs then Some (cs ! k) else None)"
proof (induction cs arbitrary: k)
  case Nil
  then show ?case by simp
next
  case (Cons c cs)
  then have c: "component c" and cs: "list_all component cs" by auto
  then have ne: "c \<noteq> []" by (simp add: component_def)
  have IH: "split_loop (join cs) k = (if k < Suc (length cs) then Some ((c # cs) ! k) else None)" if "k \<noteq> 0"
    using Cons.IH [OF cs, of "k - 1"] that by (cases k) auto
  show ?case
    using c ne IH
    by (simp add: Let_def dropWhile_component takeWhile_component dropWhile_component_end join_hd)
qed

lemma get_name_join:
  assumes "component c"
  shows "get_name (join cs @ slash # c) = c"
proof -
  have "takeWhile (\<lambda>c. c \<noteq> slash) (rev c @ slash # rev (join cs)) = rev c"
    using assms by (auto simp: component_def takeWhile_append intro!: takeWhile_eq_all_conv [THEN iffD2])
  then show ?thesis by (simp add: get_name_def)
qed

lemma find_slash_suffix:
  assumes "slash \<notin> set c" and "n \<le> length c" and "p \<noteq> []"
  shows "find_slash (p @ slash # c) (length p + n) = length p"
  using assms
proof (induction n)
  case 0
  then show ?case by (cases p) (auto simp: nth_append)
next
  case (Suc n)
  then have "(p @ slash # c) ! (length p + Suc n) = c ! n" by (simp add: nth_append)
  moreover have "c ! n \<noteq> slash" using Suc.prems by (auto simp: in_set_conv_nth)
  ultimately show ?case using Suc by simp
qed

section \<open>Properties\<close>

text \<open>
  \<open>split\<close> recovers the components of a canonical path one by one: segment \<open>n\<close> of
  \<^verbatim>\<open>/c1/c2/...\<close> is \<open>c\<^sub>n\<close>, and there is no segment 0, no negative one and none past the last.
\<close>

theorem split_join:
  assumes "list_all component cs"
  shows "split (join cs) n = (if 1 \<le> n \<and> n \<le> int (length cs) then Some (cs ! nat (n - 1)) else None)"
proof (cases "n \<le> 0")
  case True
  then show ?thesis by (simp add: split_def)
next
  case False
  then have "nat n = Suc (nat (n - 1))" and "n = int (nat (n - 1)) + 1" by auto
  then obtain k where k: "nat n = Suc k" and n: "n = int k + 1" by blast
  then show ?thesis
    using split_loop_join [OF assms, of k] by (auto simp: split_def)
qed

theorem split_join_witness:
  "split (join [''usr'', ''lib'']) 2 = Some ''lib''"
  using split_join [of "[''usr'', ''lib'']" 2] by (simp add: component_def)

text \<open>
  Taking a canonical path apart and putting it together: the parent of \<^verbatim>\<open>/c1/.../cn/c\<close> is
  \<^verbatim>\<open>/c1/.../cn\<close> (the root when there is nothing above), its name is \<open>c\<close>, and its depth is \<open>n + 1\<close>,
  for a parent that fits the \<^verbatim>\<open>PATH_MAX\<close> buffer.
\<close>

theorem parent_and_name:
  assumes "list_all component cs" and "component c" and "length (join cs) < PATH_MAX"
  shows "parent_path (join (cs @ [c])) (count_l (join (cs @ [c]))) =
           Some (if cs = [] then ''/'' else join cs) \<and>
         get_name (join (cs @ [c])) = c \<and>
         count_l (join (cs @ [c])) = length cs + 1"
proof -
  have l: "count_l (join (cs @ [c])) = length cs + 1"
    using assms(1,2) by (subst count_l_join) auto
  have "parent_path (join (cs @ [c])) (length cs + 1) = Some (join cs)" if "cs \<noteq> []"
  proof -
    from that have p: "join cs \<noteq> []" by (cases cs) auto
    have "find_slash (join cs @ slash # c) (length (join cs) + length c) = length (join cs)"
      using find_slash_suffix [of c "length c" "join cs"] assms(2) p by (simp add: component_def)
    with that p assms(3) show ?thesis by (simp add: parent_path_def Let_def)
  qed
  with l show ?thesis
    using get_name_join [OF assms(2), of cs] by (auto simp: parent_path_def)
qed

theorem parent_and_name_witness:
  "parent_path (join [''usr'', ''lib'']) (count_l (join [''usr'', ''lib''])) = Some ''/usr'' \<and>
   get_name (join [''usr'', ''lib'']) = ''lib''"
  using parent_and_name [of "[''usr'']" "''lib''"] by (auto simp: component_def PATH_MAX_def)

end
