(* ===== verification/Ring.thy ===== *)
theory Ring
  imports Prelude
begin

text \<open>
  Circular doubly-linked lists on a heap of nodes: the representation \<^verbatim>\<open>src/lru.c\<close> and
  \<^verbatim>\<open>src/gdl.c\<close> share (the structures \<^verbatim>\<open>LRU_List\<close> and \<^verbatim>\<open>GDL\<close> have the same three fields).
  \<open>ring h xs\<close> says that the nodes at addresses \<open>xs\<close>, in order, form one closed ring.
\<close>

section \<open>Nodes, links and rings\<close>

record dnode =
  index :: int
  nxt :: nat
  prv :: nat

type_synonym dheap = "nat \<rightharpoonup> dnode"

definition nxt_of :: "dheap \<Rightarrow> nat \<Rightarrow> nat option" where "nxt_of h a = map_option nxt (h a)"
definition prv_of :: "dheap \<Rightarrow> nat \<Rightarrow> nat option" where "prv_of h a = map_option prv (h a)"
definition idx_of :: "dheap \<Rightarrow> nat \<Rightarrow> int option" where "idx_of h a = map_option index (h a)"

definition edge :: "dheap \<Rightarrow> nat \<Rightarrow> nat \<Rightarrow> bool" where
  "edge h x y \<longleftrightarrow> nxt_of h x = Some y \<and> prv_of h y = Some x"

fun chain :: "dheap \<Rightarrow> nat list \<Rightarrow> bool" where
  "chain h (x # y # r) = (edge h x y \<and> chain h (y # r))"
| "chain h _ = True"

definition ring :: "dheap \<Rightarrow> nat list \<Rightarrow> bool" where
  "ring h xs \<longleftrightarrow> distinct xs \<and> (xs \<noteq> [] \<longrightarrow> chain h (xs @ [hd xs]))"

text \<open>
  The four assignments of a push in front of the node \<open>list\<close>, for a new node at address \<open>node\<close>:
  its \<^verbatim>\<open>next\<close> and \<^verbatim>\<open>prev\<close>, then \<^verbatim>\<open>list->prev\<close>, then \<^verbatim>\<open>node->prev->next\<close>.
\<close>

definition ring_insert :: "dheap \<Rightarrow> nat \<Rightarrow> int \<Rightarrow> nat \<Rightarrow> dheap option" where
  "ring_insert h node idx list = do {
     l \<leftarrow> h list;
     let h = h(node \<mapsto> \<lparr>index = idx, nxt = list, prv = prv l\<rparr>);
     l \<leftarrow> h list;
     let h = h(list \<mapsto> l\<lparr>prv := node\<rparr>);
     n \<leftarrow> h node;
     p \<leftarrow> h (prv n);
     Some (h(prv n \<mapsto> p\<lparr>nxt := node\<rparr>))
   }"

text \<open>
  The two assignments of a pop: \<^verbatim>\<open>node->prev->next = node->next\<close> and
  \<^verbatim>\<open>node->next->prev = node->prev\<close>.
\<close>

definition ring_unlink :: "dheap \<Rightarrow> nat \<Rightarrow> dheap option" where
  "ring_unlink h node = do {
     n \<leftarrow> h node;
     p \<leftarrow> h (prv n);
     let h = h(prv n \<mapsto> p\<lparr>nxt := nxt n\<rparr>);
     n \<leftarrow> h node;
     m \<leftarrow> h (nxt n);
     Some (h(nxt n \<mapsto> m\<lparr>prv := prv n\<rparr>))
   }"

section \<open>Chains\<close>

lemma chain_append: "chain h (xs @ y # ys) \<longleftrightarrow> chain h (xs @ [y]) \<and> chain h (y # ys)"
proof (induction xs rule: induct_list012)
  case (3 x1 x2 xs)
  then show ?case by simp
qed (cases ys; simp)+

lemma chain_Cons: "ys \<noteq> [] \<Longrightarrow> chain h (x # ys) \<longleftrightarrow> edge h x (hd ys) \<and> chain h ys"
  by (cases ys) auto

lemma chain_snoc: "xs \<noteq> [] \<Longrightarrow> chain h (xs @ [y]) \<longleftrightarrow> chain h xs \<and> edge h (last xs) y"
  using chain_append [of h "butlast xs" "last xs" "[y]"] by (cases xs rule: rev_cases) auto

lemma distinct_last: "distinct xs \<Longrightarrow> x \<in> set (butlast xs) \<Longrightarrow> x \<noteq> last xs"
  by (cases xs rule: rev_cases) auto

lemma chain_frame:
  assumes "chain h xs"
    and "\<And>x. x \<in> set (butlast xs) \<Longrightarrow> nxt_of h' x = nxt_of h x"
    and "\<And>y. y \<in> set (tl xs) \<Longrightarrow> prv_of h' y = prv_of h y"
  shows "chain h' xs"
  using assms
proof (induction xs rule: induct_list012)
  case (3 x y zs)
  then have "edge h' x y" by (simp add: edge_def)
  moreover have "chain h' (y # zs)" using 3 by (intro "3.IH"(2)) auto
  ultimately show ?case by simp
qed auto

section \<open>Rings\<close>

lemma ring_rotate:
  assumes "ring h (us @ vs)"
  shows "ring h (vs @ us)"
proof (cases "us = [] \<or> vs = []")
  case True
  with assms show ?thesis by auto
next
  case False
  then obtain u us' v vs' where uv: "us = u # us'" "vs = v # vs'" by (auto simp: neq_Nil_conv)
  from assms have "chain h ((u # us') @ v # (vs' @ [u]))" by (simp add: ring_def uv)
  then have "chain h ((u # us') @ [v])" and "chain h (v # vs' @ [u])"
    using chain_append [of h "u # us'" v "vs' @ [u]"] by blast+
  then have "chain h ((v # vs') @ u # (us' @ [v]))"
    using chain_append [of h "v # vs'" u "us' @ [v]"] by simp
  with assms show ?thesis by (auto simp: ring_def uv)
qed

lemma ring_Cons:
  assumes "ys \<noteq> []"
  shows "ring h (a # ys) \<longleftrightarrow>
    distinct (a # ys) \<and> edge h a (hd ys) \<and> chain h ys \<and> edge h (last ys) a"
  using assms by (simp add: ring_def chain_Cons chain_snoc)

lemma ring_heap:
  assumes "ring h xs" and "a \<in> set xs"
  obtains n where "h a = Some n"
proof -
  from assms(2) obtain us vs where "xs = us @ a # vs" by (auto simp: in_set_conv_decomp)
  with assms(1) have "ring h (a # (vs @ us))" using ring_rotate [of h us "a # vs"] by simp
  then have "chain h (a # (vs @ us @ [a]))" by (simp add: ring_def)
  then have "nxt_of h a \<noteq> None" by (cases "vs @ us @ [a]") (auto simp: edge_def)
  with that show thesis by (auto simp: nxt_of_def)
qed

lemma ring_prev_head:
  assumes "ring h xs" and "xs \<noteq> []"
  shows "prv_of h (hd xs) = Some (last xs)"
  using assms chain_snoc [of xs h "hd xs"] by (simp add: ring_def edge_def)

lemma ring_frame:
  assumes "ring h xs" and "\<And>x. x \<in> set xs \<Longrightarrow> nxt_of h' x = nxt_of h x \<and> prv_of h' x = prv_of h x"
  shows "ring h' xs"
proof (cases "xs = []")
  case False
  have "chain h' (xs @ [hd xs])"
  proof (rule chain_frame [of h])
    show "chain h (xs @ [hd xs])" using assms(1) False by (simp add: ring_def)
    show "nxt_of h' x = nxt_of h x" if "x \<in> set (butlast (xs @ [hd xs]))" for x
      using that assms(2) unfolding butlast_snoc by blast
    show "prv_of h' y = prv_of h y" if "y \<in> set (tl (xs @ [hd xs]))" for y
    proof -
      from that False have "y \<in> set xs" by (cases xs) auto
      then show ?thesis using assms(2) by blast
    qed
  qed
  with assms(1) show ?thesis by (simp add: ring_def)
qed (simp add: ring_def)

lemma ring_single: "h a = Some \<lparr>index = i, nxt = a, prv = a\<rparr> \<Longrightarrow> ring h [a]"
  by (simp add: ring_def edge_def nxt_of_def prv_of_def)

lemma ring_insert_ok:
  assumes ring: "ring h (l # r)" and fresh: "h node = None"
  obtains h' where "ring_insert h node idx l = Some h'"
    and "ring h' (node # l # r)"
    and "\<And>a. idx_of h' a = (if a = node then Some idx else idx_of h a)"
    and "dom h' = insert node (dom h)"
proof -
  let ?z = "last (l # r)"
  obtain ln where l: "h l = Some ln" using ring_heap [OF ring] by auto
  obtain zn where z: "h ?z = Some zn" using ring_heap [OF ring, of ?z] last_in_set [of "l # r"] by blast
  have pl: "prv ln = ?z" using ring_prev_head [OF ring] l by (simp add: prv_of_def)
  have nl: "l \<noteq> node" and nz: "?z \<noteq> node" using l z fresh by auto
  have nr: "node \<notin> set (l # r)" using ring_heap [OF ring, of node] fresh by auto
  define h2 where "h2 = h(node \<mapsto> \<lparr>index = idx, nxt = l, prv = ?z\<rparr>, l \<mapsto> ln\<lparr>prv := node\<rparr>)"
  define h' where "h' = h2(?z \<mapsto> (the (h2 ?z))\<lparr>nxt := node\<rparr>)"
  have 1: "ring_insert h node idx l = Some h'"
    using l nl nz pl z by (auto simp: ring_insert_def Let_def h2_def h'_def)
  have nx: "nxt_of h' a = (if a = ?z then Some node else if a = node then Some l else nxt_of h a)" for a
    using l nl nz z by (auto simp: h'_def h2_def nxt_of_def)
  have pr: "prv_of h' a = (if a = l then Some node else if a = node then Some ?z else prv_of h a)" for a
    using l nl nz z by (auto simp: h'_def h2_def prv_of_def)
  have d: "distinct (l # r)" and c: "chain h (l # r)"
    using ring chain_snoc [of "l # r" h l] by (auto simp: ring_def)
  have "chain h' (l # r)"
  proof (rule chain_frame [OF c])
    fix x assume x: "x \<in> set (butlast (l # r))"
    then have "x \<noteq> ?z" by (rule distinct_last [OF d])
    moreover have "x \<in> set (l # r)" using x by (rule in_set_butlastD)
    then have "x \<noteq> node" using nr by blast
    ultimately show "nxt_of h' x = nxt_of h x" by (simp add: nx)
  next
    fix y assume "y \<in> set (tl (l # r))"
    then show "prv_of h' y = prv_of h y" using d nr by (auto simp: pr)
  qed
  then have 2: "ring h' (node # l # r)"
    using d nr nl nz by (subst ring_Cons) (auto simp: edge_def nx pr)
  have 3: "idx_of h' a = (if a = node then Some idx else idx_of h a)" for a
    using l nl nz z by (auto simp: h'_def h2_def idx_of_def)
  have 4: "dom h' = insert node (dom h)"
    using l z by (auto simp: h'_def h2_def split: if_splits)
  from 1 2 3 4 show thesis by (rule that)
qed

lemma ring_unlink_ok:
  assumes ring: "ring h xs" and a: "a \<in> set xs" and len: "2 \<le> length xs"
  obtains h' where "ring_unlink h a = Some h'"
    and "ring (h'(a := None)) (remove1 a xs)"
    and "\<And>x. idx_of h' x = idx_of h x"
    and "dom h' = dom h"
    and "\<And>us vs. xs = us @ a # vs \<Longrightarrow> nxt_of h a = Some (hd (vs @ us))"
proof -
  from a obtain us vs where xs: "xs = us @ a # vs" and u: "a \<notin> set us"
    by (metis split_list_first)
  define ys where "ys = vs @ us"
  have ne: "ys \<noteq> []" using len by (auto simp: xs ys_def)
  have rot: "ring h (a # ys)" using ring ring_rotate [of h us "a # vs"] by (simp add: xs ys_def)
  then have d: "distinct (a # ys)" and e1: "edge h a (hd ys)" and c: "chain h ys" and e2: "edge h (last ys) a"
    using ne by (auto simp: ring_Cons)
  obtain n where n: "h a = Some n" "nxt n = hd ys" "prv n = last ys"
    using e1 e2 by (auto simp: edge_def nxt_of_def prv_of_def)
  obtain p where p: "h (last ys) = Some p" using e2 by (auto simp: edge_def nxt_of_def)
  obtain m where m: "h (hd ys) = Some m" using e1 by (auto simp: edge_def prv_of_def)
  have na: "last ys \<noteq> a" "hd ys \<noteq> a" using d ne by auto
  define h1 where "h1 = h(last ys \<mapsto> p\<lparr>nxt := hd ys\<rparr>)"
  define h' where "h' = h1(hd ys \<mapsto> (the (h1 (hd ys)))\<lparr>prv := last ys\<rparr>)"
  have 1: "ring_unlink h a = Some h'"
    using n p m na by (auto simp: ring_unlink_def Let_def h1_def h'_def)
  have nx: "nxt_of h' x = (if x = last ys then Some (hd ys) else nxt_of h x)" for x
    using p m by (auto simp: h'_def h1_def nxt_of_def)
  have pr: "prv_of h' x = (if x = hd ys then Some (last ys) else prv_of h x)" for x
    using p m by (auto simp: h'_def h1_def prv_of_def)
  have dys: "distinct ys" using d by simp
  have "chain h' ys"
  proof (rule chain_frame [OF c])
    fix x assume "x \<in> set (butlast ys)"
    then show "nxt_of h' x = nxt_of h x"
      using distinct_last [OF dys] by (auto simp: nx)
  next
    fix y assume "y \<in> set (tl ys)"
    then show "prv_of h' y = prv_of h y" using dys ne by (cases ys) (auto simp: pr)
  qed
  then have "ring h' ys" using dys ne by (simp add: ring_def chain_snoc edge_def nx pr)
  then have "ring (h'(a := None)) ys"
    using d by (elim ring_frame) (auto simp: nxt_of_def prv_of_def)
  then have "ring (h'(a := None)) (us @ vs)" unfolding ys_def by (rule ring_rotate)
  then have 2: "ring (h'(a := None)) (remove1 a xs)" using u by (simp add: xs remove1_append)
  have 3: "idx_of h' x = idx_of h x" for x using p m by (auto simp: h'_def h1_def idx_of_def)
  have 4: "dom h' = dom h" using p m by (auto simp: h'_def h1_def split: if_splits)
  have 5: "nxt_of h a = Some (hd (vs' @ us'))" if "xs = us' @ a # vs'" for us' vs'
  proof -
    have "distinct xs" using ring by (simp add: ring_def)
    then have "us' = us \<and> vs' = vs"
      using that append_Cons_eq_iff [of a us vs us' vs'] by (simp add: xs)
    with e1 show ?thesis by (simp add: edge_def ys_def)
  qed
  from 1 2 3 4 5 show thesis by (rule that)
qed

section \<open>Lists headed by a pointer\<close>

text \<open>
  Both lists keep a head pointer and a size. \<open>ring_list h head sz L\<close>: the live nodes are exactly \<open>L\<close>,
  they form one ring starting at the head, and the size counts them. \<open>ring_push\<close> is the heap a push
  leaves: the new node goes in front of the head, or is alone.
\<close>

definition ring_list :: "dheap \<Rightarrow> nat option \<Rightarrow> int \<Rightarrow> nat list \<Rightarrow> bool" where
  "ring_list h head sz L \<longleftrightarrow> ring h L \<and> dom h = set L \<and> sz = int (length L) \<and>
     head = (if L = [] then None else Some (hd L))"

definition ring_push :: "dheap \<Rightarrow> nat option \<Rightarrow> int \<Rightarrow> nat \<Rightarrow> int \<Rightarrow> dheap option" where
  "ring_push h head sz node idx =
     (case head of
        Some list \<Rightarrow>
          if sz > 0 then ring_insert h node idx list
          else Some (h(node \<mapsto> \<lparr>index = idx, nxt = node, prv = node\<rparr>))
      | None \<Rightarrow> Some (h(node \<mapsto> \<lparr>index = idx, nxt = node, prv = node\<rparr>)))"

lemma ring_push_ok:
  assumes "ring_list h head sz L" and "node \<notin> set L"
  obtains h' where "ring_push h head sz node idx = Some h'"
    and "ring_list h' (Some node) (sz + 1) (node # L)"
    and "\<And>a. idx_of h' a = (if a = node then Some idx else idx_of h a)"
proof (cases L)
  case Nil
  let ?h = "h(node \<mapsto> \<lparr>index = idx, nxt = node, prv = node\<rparr>)"
  show thesis
  proof (rule that [of ?h])
    show "ring_list ?h (Some node) (sz + 1) (node # L)"
      using assms Nil by (auto simp: ring_list_def intro!: ring_single)
  qed (use assms Nil in \<open>auto simp: ring_push_def ring_list_def idx_of_def\<close>)
next
  case (Cons l r)
  have "h node = None" and "ring h (l # r)" using assms Cons by (auto simp: ring_list_def)
  then obtain h' where h': "ring_insert h node idx l = Some h'" "ring h' (node # l # r)"
      "\<And>a. idx_of h' a = (if a = node then Some idx else idx_of h a)" "dom h' = insert node (dom h)"
    using ring_insert_ok [of h l r node idx] by blast
  show thesis
  proof (rule that [of h'])
    show "ring_push h head sz node idx = Some h'"
      using assms Cons h'(1) by (simp add: ring_push_def ring_list_def)
    show "ring_list h' (Some node) (sz + 1) (node # L)"
      using assms Cons h'(2,4) by (auto simp: ring_list_def)
  qed (rule h'(3))
qed

lemma ring_list_mem:
  assumes "ring_list h head sz L" and "a \<in> set L"
  obtains n where "h a = Some n" and "idx_of h a = Some (index n)"
  using ring_heap [of h L a] assms by (auto simp: ring_list_def idx_of_def)

lemma ring_pop_single:
  assumes "ring_list h head sz L" and "a \<in> set L" and "sz = 1"
  shows "L = [a] \<and> ring_list (h(a := None)) None 0 []"
  using assms by (cases L) (auto simp: ring_list_def ring_def)

lemma ring_pop_many:
  assumes "ring_list h head sz L" and "a \<in> set L" and "sz \<noteq> 1" and "h a = Some n"
  obtains h' where "ring_unlink h a = Some h'"
    and "ring_list (h'(a := None)) (if head = Some a then Some (nxt n) else head) (sz - 1) (remove1 a L)"
    and "\<And>x. idx_of h' x = idx_of h x"
proof -
  have r: "ring h L" and d: "distinct L" using assms by (auto simp: ring_list_def ring_def)
  have "length L \<noteq> 0" and "length L \<noteq> 1" using assms(1-3) by (auto simp: ring_list_def)
  then have len: "2 \<le> length L" by linarith
  obtain h' where h': "ring_unlink h a = Some h'" "ring (h'(a := None)) (remove1 a L)"
      "\<And>x. idx_of h' x = idx_of h x" "dom h' = dom h"
      "\<And>us vs. L = us @ a # vs \<Longrightarrow> nxt_of h a = Some (hd (vs @ us))"
    using ring_unlink_ok [OF r assms(2) len] by blast
  obtain l r' where L: "L = l # r'" "r' \<noteq> []" using len by (cases L; cases "tl L") auto
  have "nxt n = hd r'" if "a = l"
    using h'(5) [of "[]" r'] that L assms(4) by (simp add: nxt_of_def)
  then have "ring_list (h'(a := None)) (if head = Some a then Some (nxt n) else head) (sz - 1) (remove1 a L)"
    using assms(1,2) h'(2,4) L d by (auto simp: ring_list_def length_remove1)
  with h'(1,3) show thesis by (intro that [of h'])
qed

end
