(* ===== verification/Index.thy ===== *)
theory Index
  imports Prelude
begin

text \<open>
  The primary cache index (\<^verbatim>\<open>src/pci.c\<close>), a hash map from block numbers to cache slots with one
  chain per bucket, and the free list of cache slots (\<^verbatim>\<open>src/fl.c\<close>). A chain is owned by its bucket
  and only reached through it, so it is a HOL list, head first.
\<close>

section \<open>Free list\<close>

type_synonym FL_LL = "int list"

definition fl_push :: "FL_LL \<Rightarrow> int \<Rightarrow> FL_LL" where
  "fl_push list idx = idx # list"

text \<open>\<^verbatim>\<open>fl_pop(NULL)\<close> dereferences a null pointer.\<close>

fun fl_pop :: "FL_LL \<Rightarrow> FL_LL option" where
  "fl_pop [] = None"
| "fl_pop (_ # r) = Some r"

section \<open>Primary cache index\<close>

record PCI_LL =
  pl_block_number :: u64
  pl_index :: u64

type_synonym PCI_HM = "PCI_LL list list"

fun pci_walk :: "PCI_LL list \<Rightarrow> u64 \<Rightarrow> int" where
  "pci_walk [] b = -1"
| "pci_walk (n # r) b = (if pl_block_number n = b then int_of_u64 (pl_index n) else pci_walk r b)"

definition pci_lookup :: "PCI_HM \<Rightarrow> u64 \<Rightarrow> int" where
  "pci_lookup hm b = pci_walk (hm ! hash_bucket b) b"

definition pci_insert :: "PCI_HM \<Rightarrow> u64 \<Rightarrow> u64 \<Rightarrow> PCI_HM" where
  "pci_insert hm b idx =
     hm[hash_bucket b := \<lparr>pl_block_number = b, pl_index = idx\<rparr> # hm ! hash_bucket b]"

text \<open>
  \<open>pci_unchain\<close> is the search of \<open>pci_delete\<close> once \<^verbatim>\<open>prev\<close> has been assigned; running off the chain
  dereferences the null \<^verbatim>\<open>curr\<close>. When the first node matches, or the chain is empty, \<^verbatim>\<open>prev\<close> is
  read without ever having been assigned, which is undefined.
\<close>

fun pci_unchain :: "PCI_LL list \<Rightarrow> u64 \<Rightarrow> PCI_LL list option" where
  "pci_unchain [] b = None"
| "pci_unchain (n # r) b =
     (if pl_block_number n = b then Some r else map_option ((#) n) (pci_unchain r b))"

definition pci_delete :: "PCI_HM \<Rightarrow> u64 \<Rightarrow> PCI_HM option" where
  "pci_delete hm b =
     (case hm ! hash_bucket b of
        [] \<Rightarrow> None
      | n # r \<Rightarrow>
          if pl_block_number n = b then None
          else do { r \<leftarrow> pci_unchain r b; Some (hm[hash_bucket b := n # r]) })"

section \<open>Meaning\<close>

text \<open>
  \<open>pci_map hm\<close> is the finite map the chains stand for; in a well-formed index every key sits in its
  own bucket, at most once, and carries an index that fits a C \<^verbatim>\<open>int\<close>.
\<close>

definition pci_map :: "PCI_HM \<Rightarrow> u64 \<rightharpoonup> nat" where
  "pci_map hm b =
     map_option (\<lambda>n. unat (pl_index n)) (find (\<lambda>n. pl_block_number n = b) (hm ! hash_bucket b))"

definition pci_wf :: "PCI_HM \<Rightarrow> bool" where
  "pci_wf hm \<longleftrightarrow> length hm = HASHMAP_SIZE \<and>
     (\<forall>k < HASHMAP_SIZE. distinct (map pl_block_number (hm ! k)) \<and>
        (\<forall>n \<in> set (hm ! k). hash_bucket (pl_block_number n) = k \<and> unat (pl_index n) < 2 ^ 31))"

lemma pci_wf_bucket: "pci_wf hm \<Longrightarrow> hash_bucket b < length hm"
  by (simp add: pci_wf_def)

lemma pci_walk_find:
  "\<forall>n \<in> set c. unat (pl_index n) < 2 ^ 31 \<Longrightarrow>
   pci_walk c b = (case find (\<lambda>n. pl_block_number n = b) c of None \<Rightarrow> -1 | Some n \<Rightarrow> int (unat (pl_index n)))"
  by (induction c) (auto simp: int_of_u64_small)

lemma pci_lookup_map:
  assumes "pci_wf hm"
  shows "pci_lookup hm b = (case pci_map hm b of None \<Rightarrow> -1 | Some i \<Rightarrow> int i)"
proof -
  have "\<forall>n \<in> set (hm ! hash_bucket b). unat (pl_index n) < 2 ^ 31"
    using assms hash_bucket_less [of b] by (simp only: pci_wf_def) blast
  from pci_walk_find [OF this, of b] show ?thesis
    by (simp add: pci_lookup_def pci_map_def split: option.splits)
qed

lemma pci_map_insert:
  "pci_wf hm \<Longrightarrow> pci_map (pci_insert hm b i) = (pci_map hm)(b \<mapsto> unat i)"
  using pci_wf_bucket [of hm]
  by (auto simp: pci_map_def pci_insert_def fun_eq_iff nth_list_update)

lemma pci_insert_wf:
  assumes "pci_wf hm" and "pci_map hm b = None" and "unat i < 2 ^ 31"
  shows "pci_wf (pci_insert hm b i)"
  using assms
  by (auto simp: pci_wf_def pci_insert_def nth_list_update pci_map_def find_None_map)

lemma pci_unchain_filter:
  "distinct (map pl_block_number c) \<Longrightarrow> b \<in> pl_block_number ` set c \<Longrightarrow>
   pci_unchain c b = Some (filter (\<lambda>n. pl_block_number n \<noteq> b) c)"
proof (induction c)
  case (Cons n c)
  then have "pl_block_number n = b \<Longrightarrow> filter (\<lambda>n. pl_block_number n \<noteq> b) c = c"
    by (intro filter_True) (auto simp: image_iff)
  with Cons show ?case by auto
qed simp

text \<open>Deleting a key that is in its chain but not first removes it and nothing else.\<close>

lemma pci_delete_ok:
  assumes wf: "pci_wf hm" and mem: "pci_map hm b \<noteq> None"
    and nothd: "pl_block_number (hd (hm ! hash_bucket b)) \<noteq> b"
  obtains hm' where "pci_delete hm b = Some hm'" and "pci_wf hm'" and "pci_map hm' = (pci_map hm)(b := None)"
proof -
  let ?k = "hash_bucket b"
  let ?f = "filter (\<lambda>n. pl_block_number n \<noteq> b)"
  define hm' where "hm' = hm[?k := ?f (hm ! ?k)]"
  have d: "distinct (map pl_block_number (hm ! ?k))" and len: "length hm = HASHMAP_SIZE"
    using wf by (auto simp: pci_wf_def)
  have m: "b \<in> pl_block_number ` set (hm ! ?k)"
    using mem find_None_map [of pl_block_number b "hm ! ?k"] by (auto simp: pci_map_def)
  then obtain n r where nr: "hm ! ?k = n # r" by (cases "hm ! ?k") auto
  then have "pl_block_number n \<noteq> b" using nothd by simp
  moreover have "pci_unchain r b = Some (?f r)"
    using d m nr calculation by (intro pci_unchain_filter) auto
  ultimately have 1: "pci_delete hm b = Some hm'"
    by (simp add: pci_delete_def nr hm'_def)
  have 2: "pci_wf hm'"
    using wf by (auto simp: pci_wf_def hm'_def nth_list_update distinct_map_filter)
  have 3: "pci_map hm' = (pci_map hm)(b := None)"
    using len by (auto simp: pci_map_def hm'_def fun_eq_iff nth_list_update find_filter_ne)
  from 1 2 3 show thesis by (rule that)
qed

text \<open>The empty index built by \<^verbatim>\<open>alloc_cache\<close>.\<close>

lemma pci_wf_empty: "pci_wf (replicate HASHMAP_SIZE [])"
  by (simp add: pci_wf_def)

lemma pci_map_empty [simp]: "pci_map (replicate HASHMAP_SIZE []) = Map.empty"
  by (simp add: pci_map_def fun_eq_iff)

section \<open>The contract of an index\<close>

text \<open>What the cache relies on: lookups see inserts, and an absent key reads as \<open>-1\<close>.\<close>

locale block_index =
  fixes lookup :: "'m \<Rightarrow> u64 \<Rightarrow> int"
    and insert :: "'m \<Rightarrow> u64 \<Rightarrow> u64 \<Rightarrow> 'm"
    and delete :: "'m \<Rightarrow> u64 \<Rightarrow> 'm option"
    and inv :: "'m \<Rightarrow> bool"
    and assoc :: "'m \<Rightarrow> u64 \<rightharpoonup> nat"
  assumes lookup_assoc: "inv m \<Longrightarrow> lookup m b = (case assoc m b of None \<Rightarrow> -1 | Some i \<Rightarrow> int i)"
    and insert_assoc: "inv m \<Longrightarrow> assoc (insert m b i) = (assoc m)(b \<mapsto> unat i)"
    and insert_inv: "inv m \<Longrightarrow> assoc m b = None \<Longrightarrow> unat i < 2 ^ 31 \<Longrightarrow> inv (insert m b i)"
    and delete_assoc: "inv m \<Longrightarrow> delete m b = Some m' \<Longrightarrow> assoc m' = (assoc m)(b := None) \<and> inv m'"
begin

lemma lookup_insert:
  assumes "inv m" and "assoc m b = None" and "unat i < 2 ^ 31"
  shows "lookup (insert m b i) b' = (if b' = b then int (unat i) else lookup m b')"
  using assms insert_inv [OF assms] by (simp add: lookup_assoc insert_assoc)

lemma lookup_delete:
  assumes "inv m" and "delete m b = Some m'"
  shows "lookup m' b' = (if b' = b then -1 else lookup m b')"
  using assms delete_assoc [OF assms] by (simp add: lookup_assoc)

lemma insert_delete_roundtrip:
  assumes "inv m" and "assoc m b = None" and "unat i < 2 ^ 31" and "delete (insert m b i) b = Some m'"
  shows "lookup m' = lookup m"
  using assms insert_inv [OF assms(1-3)] delete_assoc [OF insert_inv [OF assms(1-3)] assms(4)]
  by (simp add: fun_eq_iff lookup_assoc insert_assoc)

end

lemma pci_unchain_present: "pci_unchain c b = Some c' \<Longrightarrow> b \<in> pl_block_number ` set c"
  by (induction c arbitrary: c') (auto split: if_splits)

text \<open>A deletion is defined only for a block that is present and not first in its chain.\<close>

lemma pci_delete_defined:
  assumes "pci_wf hm" and "pci_delete hm b = Some hm'"
  shows "pci_map hm b \<noteq> None" and "pl_block_number (hd (hm ! hash_bucket b)) \<noteq> b"
proof -
  obtain n r r' where nr: "hm ! hash_bucket b = n # r" "pl_block_number n \<noteq> b" and un: "pci_unchain r b = Some r'"
    using assms(2) by (auto simp: pci_delete_def bind_eq_Some_conv split: list.splits if_splits)
  then show "pl_block_number (hd (hm ! hash_bucket b)) \<noteq> b" by simp
  have "b \<in> pl_block_number ` set r" by (rule pci_unchain_present [OF un])
  then show "pci_map hm b \<noteq> None" using nr find_None_map [of pl_block_number b "hm ! hash_bucket b"] by (auto simp: pci_map_def)
qed

lemma pci_delete_Some:
  assumes "pci_wf hm" and "pci_delete hm b = Some hm'"
  shows "pci_map hm' = (pci_map hm)(b := None) \<and> pci_wf hm'"
  using pci_delete_ok [OF assms(1) pci_delete_defined [OF assms]] assms(2) by (metis option.inject)

interpretation pci: block_index pci_lookup pci_insert pci_delete pci_wf pci_map
  by unfold_locales (simp_all add: pci_lookup_map pci_map_insert pci_insert_wf pci_delete_Some)

end
