(* ===== verification/Dirty.thy ===== *)
theory Dirty
  imports Prelude
begin

text \<open>
  The per-inode dirty lists (\<^verbatim>\<open>src/dl.c\<close>): a hash map from inode numbers to the list of their dirty
  blocks, newest first. Every list node carries its height \<^verbatim>\<open>dl_index\<close>, which \<open>dl_pop\<close> uses
  to recognise the last node.
\<close>

section \<open>The operations\<close>

record DL_LL =
  dl_index :: u64
  dl_block_number :: u64

record DL_HM_LL =
  dl_inode_number :: u64
  dl_list :: "DL_LL list"

type_synonym DL_HM = "DL_HM_LL list list"

fun dl_push :: "DL_LL list \<Rightarrow> u64 \<Rightarrow> DL_LL list" where
  "dl_push [] b = [\<lparr>dl_index = 1, dl_block_number = b\<rparr>]"
| "dl_push (n # r) b = \<lparr>dl_index = dl_index n + 1, dl_block_number = b\<rparr> # n # r"

fun dl_pop :: "DL_LL list \<Rightarrow> DL_LL list" where
  "dl_pop [] = []"
| "dl_pop (n # r) = (if dl_index n > 1 then r else [])"

definition dl_lookup :: "DL_HM \<Rightarrow> u64 \<Rightarrow> DL_HM_LL option" where
  "dl_lookup hm ino = find (\<lambda>n. dl_inode_number n = ino) (hm ! hash_bucket ino)"

definition dl_find_block :: "DL_LL list \<Rightarrow> u64 \<Rightarrow> DL_LL option" where
  "dl_find_block list b = find (\<lambda>n. dl_block_number n = b) list"

text \<open>The assignment \<^verbatim>\<open>node->list = l\<close> to the node \<open>dl_lookup\<close> found.\<close>

fun dl_assign :: "DL_HM_LL list \<Rightarrow> u64 \<Rightarrow> DL_LL list \<Rightarrow> DL_HM_LL list" where
  "dl_assign [] ino l = []"
| "dl_assign (n # r) ino l =
     (if dl_inode_number n = ino then n\<lparr>dl_list := l\<rparr> # r else n # dl_assign r ino l)"

definition dl_set_list :: "DL_HM \<Rightarrow> u64 \<Rightarrow> DL_LL list \<Rightarrow> DL_HM" where
  "dl_set_list hm ino l = hm[hash_bucket ino := dl_assign (hm ! hash_bucket ino) ino l]"

definition dl_insert :: "DL_HM \<Rightarrow> u64 \<Rightarrow> u64 \<Rightarrow> DL_HM" where
  "dl_insert hm ino b =
     (case dl_lookup hm ino of
        None \<Rightarrow>
          hm[hash_bucket ino :=
               \<lparr>dl_inode_number = ino, dl_list = dl_push [] b\<rparr> # hm ! hash_bucket ino]
      | Some node \<Rightarrow>
          (case dl_find_block (dl_list node) b of
             None \<Rightarrow> dl_set_list hm ino (dl_push (dl_list node) b)
           | Some _ \<Rightarrow> hm))"

fun dl_unchain :: "DL_HM_LL list \<Rightarrow> u64 \<Rightarrow> DL_HM_LL list" where
  "dl_unchain [] ino = []"
| "dl_unchain (n # r) ino = (if dl_inode_number n = ino then r else n # dl_unchain r ino)"

definition dl_delete :: "DL_HM \<Rightarrow> u64 \<Rightarrow> DL_HM" where
  "dl_delete hm ino = hm[hash_bucket ino := dl_unchain (hm ! hash_bucket ino) ino]"

fun dl_drop_block :: "DL_LL list \<Rightarrow> u64 \<Rightarrow> DL_LL list" where
  "dl_drop_block [] b = []"
| "dl_drop_block (n # r) b = (if dl_block_number n = b then r else n # dl_drop_block r b)"

definition dl_remove_block :: "DL_HM \<Rightarrow> u64 \<Rightarrow> u64 \<Rightarrow> DL_HM" where
  "dl_remove_block hm ino b =
     (case dl_lookup hm ino of
        None \<Rightarrow> hm
      | Some node \<Rightarrow>
          (case dl_find_block (dl_list node) b of
             None \<Rightarrow> hm
           | Some _ \<Rightarrow>
               let l = dl_drop_block (dl_list node) b; hm = dl_set_list hm ino l
               in if l = [] then dl_delete hm ino else hm))"

section \<open>Meaning\<close>

text \<open>
  \<open>dl_blocks hm ino\<close> are the dirty blocks recorded for an inode. A list is well-formed when its
  heights strictly decrease to at least 1 (so height 1 is the last node) and its blocks are
  distinct; a map is well-formed when every inode sits once, in its bucket, with a non-empty list.
\<close>

definition dl_blocks :: "DL_HM \<Rightarrow> u64 \<Rightarrow> u64 list" where
  "dl_blocks hm ino = (case dl_lookup hm ino of None \<Rightarrow> [] | Some n \<Rightarrow> map dl_block_number (dl_list n))"

definition dl_list_wf :: "DL_LL list \<Rightarrow> bool" where
  "dl_list_wf l \<longleftrightarrow> sorted_wrt (\<lambda>m n. unat (dl_index n) < unat (dl_index m)) l \<and>
     (\<forall>n \<in> set l. 1 \<le> unat (dl_index n)) \<and> distinct (map dl_block_number l)"

definition dl_wf :: "DL_HM \<Rightarrow> bool" where
  "dl_wf hm \<longleftrightarrow> length hm = HASHMAP_SIZE \<and>
     (\<forall>k < HASHMAP_SIZE. distinct (map dl_inode_number (hm ! k)) \<and>
        (\<forall>n \<in> set (hm ! k). hash_bucket (dl_inode_number n) = k \<and> dl_list n \<noteq> [] \<and> dl_list_wf (dl_list n)))"

text \<open>Height left before the 64-bit height counter of an inode's list wraps.\<close>

definition dl_room :: "DL_HM \<Rightarrow> u64 \<Rightarrow> bool" where
  "dl_room hm ino \<longleftrightarrow>
     (case dl_lookup hm ino of None \<Rightarrow> True
      | Some n \<Rightarrow> dl_list n \<noteq> [] \<longrightarrow> unat (dl_index (hd (dl_list n))) + 1 < 2 ^ 64)"

subsection \<open>Lists\<close>

lemma dl_pop_tl: "dl_list_wf l \<Longrightarrow> dl_pop l = tl l"
proof (cases l)
  case (Cons n r)
  assume wf: "dl_list_wf l"
  show ?thesis
  proof (cases "dl_index n > 1")
    case False
    then have "unat (dl_index n) \<le> 1" by (simp add: word_less_nat_alt)
    then have "r = []" using wf Cons by (cases r) (auto simp: dl_list_wf_def)
    with Cons False show ?thesis by simp
  qed (simp add: Cons)
qed simp

lemma dl_list_wf_push:
  assumes "dl_list_wf l" and "l \<noteq> [] \<Longrightarrow> unat (dl_index (hd l)) + 1 < 2 ^ 64"
    and "b \<notin> dl_block_number ` set l"
  shows "dl_list_wf (dl_push l b)"
proof (cases l)
  case (Cons n r)
  then have "unat (dl_index n + 1) = unat (dl_index n) + 1"
    using assms(2) by (simp add: unat_word_ariths)
  with assms Cons show ?thesis by (auto simp: dl_list_wf_def)
qed (simp add: dl_list_wf_def)

lemma dl_list_wf_tl: "dl_list_wf (n # r) \<Longrightarrow> dl_list_wf r"
  by (auto simp: dl_list_wf_def)

lemma dl_drop_block_filter:
  "distinct (map dl_block_number l) \<Longrightarrow> dl_drop_block l b = filter (\<lambda>n. dl_block_number n \<noteq> b) l"
proof (induction l)
  case (Cons n l)
  then show ?case using distinct_map_filter_id [of dl_block_number n l] by auto
qed simp

lemma dl_list_wf_drop: "dl_list_wf l \<Longrightarrow> dl_list_wf (dl_drop_block l b)"
  by (auto simp: dl_list_wf_def dl_drop_block_filter sorted_wrt_filter distinct_map_filter)

lemma dl_push_blocks [simp]: "map dl_block_number (dl_push l b) = b # map dl_block_number l"
  by (cases l) auto

lemma dl_push_ne [simp]: "dl_push l b \<noteq> []"
  by (cases l) auto

subsection \<open>The hash map\<close>

lemma dl_wf_len: "dl_wf hm \<Longrightarrow> hash_bucket ino < length hm"
  by (simp add: dl_wf_def)

lemma dl_wf_mem:
  assumes "dl_wf hm" and "n \<in> set (hm ! hash_bucket ino)"
  shows "hash_bucket (dl_inode_number n) = hash_bucket ino \<and> dl_list n \<noteq> [] \<and> dl_list_wf (dl_list n)"
  using assms hash_bucket_less [of ino] unfolding dl_wf_def by blast

lemma dl_wf_update:
  assumes "dl_wf hm" and "distinct (map dl_inode_number c)"
    and "\<And>n. n \<in> set c \<Longrightarrow> hash_bucket (dl_inode_number n) = hash_bucket ino \<and> dl_list n \<noteq> [] \<and> dl_list_wf (dl_list n)"
  shows "dl_wf (hm[hash_bucket ino := c])"
  using assms unfolding dl_wf_def by (auto simp: nth_list_update)

lemma dl_wf_node:
  assumes "dl_wf hm" and "dl_lookup hm ino = Some n"
  shows "dl_list n \<noteq> [] \<and> dl_list_wf (dl_list n) \<and> dl_inode_number n = ino"
proof -
  from assms(2) have "n \<in> set (hm ! hash_bucket ino)" and "dl_inode_number n = ino"
    by (auto simp: dl_lookup_def find_Some_iff)
  with dl_wf_mem [OF assms(1)] show ?thesis by blast
qed

lemma find_dl_assign:
  "find (\<lambda>n. dl_inode_number n = ino') (dl_assign c ino l) =
     (if ino' = ino then map_option (\<lambda>n. n\<lparr>dl_list := l\<rparr>) (find (\<lambda>n. dl_inode_number n = ino) c)
      else find (\<lambda>n. dl_inode_number n = ino') c)"
  by (induction c) auto

lemma dl_assign_keys: "map dl_inode_number (dl_assign c ino l) = map dl_inode_number c"
  by (induction c) auto

lemma dl_assign_mem:
  "n \<in> set (dl_assign c ino l) \<Longrightarrow> n \<in> set c \<or> (dl_list n = l \<and> dl_inode_number n = ino \<and> ino \<in> dl_inode_number ` set c)"
  by (induction c) (auto split: if_splits)

lemma dl_lookup_set_list:
  "dl_wf hm \<Longrightarrow> dl_lookup (dl_set_list hm ino l) ino' =
     (if ino' = ino then map_option (\<lambda>n. n\<lparr>dl_list := l\<rparr>) (dl_lookup hm ino) else dl_lookup hm ino')"
  using dl_wf_len [of hm ino]
  by (auto simp: dl_lookup_def dl_set_list_def nth_list_update find_dl_assign)

lemma dl_set_list_wf:
  assumes "dl_wf hm" and "l \<noteq> []" and "dl_list_wf l"
  shows "dl_wf (dl_set_list hm ino l)"
  unfolding dl_set_list_def
proof (rule dl_wf_update [OF assms(1)])
  show "distinct (map dl_inode_number (dl_assign (hm ! hash_bucket ino) ino l))"
    using assms(1) by (simp add: dl_assign_keys dl_wf_def)
  fix n assume "n \<in> set (dl_assign (hm ! hash_bucket ino) ino l)"
  with assms dl_wf_mem [OF assms(1)]
  show "hash_bucket (dl_inode_number n) = hash_bucket ino \<and> dl_list n \<noteq> [] \<and> dl_list_wf (dl_list n)"
    by (blast dest: dl_assign_mem)
qed

lemma dl_unchain_filter:
  "distinct (map dl_inode_number c) \<Longrightarrow> dl_unchain c ino = filter (\<lambda>n. dl_inode_number n \<noteq> ino) c"
proof (induction c)
  case (Cons n c)
  then show ?case using distinct_map_filter_id [of dl_inode_number n c] by auto
qed simp

lemma dl_bucket_distinct: "dl_wf hm \<Longrightarrow> distinct (map dl_inode_number (hm ! hash_bucket ino))"
  by (simp add: dl_wf_def)

lemma dl_delete_wf: "dl_wf hm \<Longrightarrow> dl_wf (dl_delete hm ino)"
  using dl_wf_mem [of hm] dl_bucket_distinct [of hm ino]
  by (auto simp: dl_delete_def dl_unchain_filter distinct_map_filter intro!: dl_wf_update)

lemma dl_lookup_delete:
  assumes "dl_wf hm"
  shows "dl_lookup (dl_delete hm ino) ino' = (if ino' = ino then None else dl_lookup hm ino')"
  using dl_wf_len [OF assms, of ino] dl_bucket_distinct [OF assms, of ino]
  by (auto simp: dl_lookup_def dl_delete_def nth_list_update dl_unchain_filter find_filter_ne)

text \<open>
  The in-place update of \<open>dl_remove_block\<close> may leave an inode with an empty list for the moment
  before \<open>dl_delete\<close> removes it; deleting ignores what the list was.
\<close>

lemma dl_unchain_assign: "dl_unchain (dl_assign c ino l) ino = dl_unchain c ino"
  by (induction c) auto

lemma dl_delete_set_list: "dl_wf hm \<Longrightarrow> dl_delete (dl_set_list hm ino l) ino = dl_delete hm ino"
  using dl_wf_len [of hm ino] by (simp add: dl_delete_def dl_set_list_def dl_unchain_assign)

lemma dl_find_block_None: "dl_find_block l b = None \<longleftrightarrow> b \<notin> dl_block_number ` set l"
  by (simp add: dl_find_block_def find_None_map)

lemma dl_blocks_insert:
  assumes "dl_wf hm"
  shows "dl_blocks (dl_insert hm ino b) ino' =
    (if ino' = ino \<and> b \<notin> set (dl_blocks hm ino) then b # dl_blocks hm ino else dl_blocks hm ino')"
proof (cases "dl_lookup hm ino")
  case None
  then show ?thesis
    using dl_wf_len [OF assms, of ino]
    by (auto simp: dl_blocks_def dl_insert_def dl_lookup_def nth_list_update)
next
  case (Some n)
  then show ?thesis
    using dl_find_block_None [of "dl_list n" b]
    by (auto simp: dl_blocks_def dl_insert_def dl_lookup_set_list [OF assms] split: option.splits)
qed

lemma dl_insert_wf:
  assumes "dl_wf hm" and "dl_room hm ino"
  shows "dl_wf (dl_insert hm ino b)"
proof (cases "dl_lookup hm ino")
  case None
  then have "ino \<notin> dl_inode_number ` set (hm ! hash_bucket ino)"
    by (simp add: dl_lookup_def find_None_map)
  moreover have "dl_list_wf (dl_push [] b)" by (simp add: dl_list_wf_def)
  ultimately have "dl_wf (hm[hash_bucket ino :=
      \<lparr>dl_inode_number = ino, dl_list = dl_push [] b\<rparr> # hm ! hash_bucket ino])"
    using dl_wf_mem [OF assms(1)] dl_bucket_distinct [OF assms(1), of ino]
    by (intro dl_wf_update [OF assms(1)]) auto
  with None show ?thesis by (simp add: dl_insert_def)
next
  case (Some n)
  have "dl_list_wf (dl_push (dl_list n) b)" if "dl_find_block (dl_list n) b = None"
    using that dl_wf_node [OF assms(1) Some] assms(2) Some
    by (intro dl_list_wf_push) (auto simp: dl_room_def dl_find_block_None)
  with Some assms(1) show ?thesis by (auto simp: dl_insert_def intro: dl_set_list_wf split: option.split)
qed

lemma dl_remove_block_ok:
  assumes "dl_wf hm"
  shows "dl_wf (dl_remove_block hm ino b) \<and>
    dl_blocks (dl_remove_block hm ino b) ino' = (if ino' = ino then remove1 b (dl_blocks hm ino) else dl_blocks hm ino')"
proof (cases "dl_lookup hm ino")
  case None
  with assms show ?thesis by (simp add: dl_remove_block_def dl_blocks_def)
next
  case (Some n)
  note n = dl_wf_node [OF assms Some]
  have d: "distinct (map dl_block_number (dl_list n))" using n by (simp add: dl_list_wf_def)
  let ?l = "dl_drop_block (dl_list n) b"
  have bl: "map dl_block_number ?l = remove1 b (map dl_block_number (dl_list n))"
    using d by (simp add: dl_drop_block_filter distinct_remove1_removeAll removeAll_filter_not_eq filter_map o_def eq_commute)
  show ?thesis
  proof (cases "dl_find_block (dl_list n) b")
    case None
    then have "dl_remove_block hm ino b = hm" and "b \<notin> set (map dl_block_number (dl_list n))"
      using Some dl_find_block_None [of "dl_list n" b] by (auto simp: dl_remove_block_def)
    with assms Some show ?thesis by (simp add: dl_blocks_def remove1_idem)
  next
    case f: (Some m)
    show ?thesis
    proof (cases "?l = []")
      case True
      then have "dl_remove_block hm ino b = dl_delete hm ino"
        using Some f assms by (simp add: dl_remove_block_def Let_def dl_delete_set_list)
      then show ?thesis
        using assms True bl Some by (auto simp: dl_delete_wf dl_blocks_def dl_lookup_delete)
    next
      case False
      then have "dl_remove_block hm ino b = dl_set_list hm ino ?l"
        using Some f by (simp add: dl_remove_block_def Let_def)
      then show ?thesis
        using assms n False Some bl
        by (auto simp: dl_set_list_wf dl_list_wf_drop dl_blocks_def dl_lookup_set_list)
    qed
  qed
qed

lemma dl_blocks_delete:
  "dl_wf hm \<Longrightarrow> dl_blocks (dl_delete hm ino) ino' = (if ino' = ino then [] else dl_blocks hm ino')"
  by (simp add: dl_blocks_def dl_lookup_delete)

lemma dl_wf_empty: "dl_wf (replicate HASHMAP_SIZE [])"
  by (simp add: dl_wf_def)

lemma dl_blocks_empty [simp]: "dl_blocks (replicate HASHMAP_SIZE []) ino = []"
  by (simp add: dl_blocks_def dl_lookup_def)

lemma dl_blocks_distinct: "dl_wf hm \<Longrightarrow> distinct (dl_blocks hm ino)"
  using dl_wf_node [of hm ino] by (auto simp: dl_blocks_def dl_list_wf_def split: option.split)

lemma dl_insert_present: "b \<in> set (dl_blocks hm ino) \<Longrightarrow> dl_insert hm ino b = hm"
  by (auto simp: dl_blocks_def dl_insert_def dl_find_block_None split: option.splits)

subsection \<open>Exact heights\<close>

text \<open>
  As long as no single block was removed, the heights of a list of \<open>k\<close> blocks are \<open>k\<close> down to 1; then the
  counter cannot wrap, since the blocks are distinct.
\<close>

definition dl_exact :: "DL_HM \<Rightarrow> bool" where
  "dl_exact hm \<longleftrightarrow> dl_wf hm \<and>
     (\<forall>ino n. dl_lookup hm ino = Some n \<longrightarrow> map (\<lambda>m. unat (dl_index m)) (dl_list n) = rev [1..<Suc (length (dl_list n))])"

lemma dl_exact_wf: "dl_exact hm \<Longrightarrow> dl_wf hm"
  by (simp add: dl_exact_def)

lemma dl_exact_empty: "dl_exact (replicate HASHMAP_SIZE [])"
  by (simp add: dl_exact_def dl_wf_empty dl_lookup_def)

lemma dl_exact_delete: "dl_exact hm \<Longrightarrow> dl_exact (dl_delete hm ino)"
  by (simp add: dl_exact_def dl_delete_wf dl_lookup_delete)

lemma dl_push_exact:
  assumes "map (\<lambda>m. unat (dl_index m)) l = rev [1..<Suc (length l)]" and "Suc (length l) < 2 ^ 64"
  shows "map (\<lambda>m. unat (dl_index m)) (dl_push l b) = rev [1..<Suc (length (dl_push l b))]"
proof (cases l)
  case (Cons n r)
  then have h: "unat (dl_index n) = length l" using assms(1) by simp
  then have "unat (dl_index n + 1) = Suc (length l)" using assms(2) by (simp add: unat_word_ariths)
  then show ?thesis using assms(1) Cons by simp
qed simp

lemma dl_exact_insert:
  assumes e: "dl_exact hm" and len: "Suc (length (dl_blocks hm ino)) < 2 ^ 64"
  shows "dl_exact (dl_insert hm ino b)"
proof -
  note wf = dl_exact_wf [OF e]
  have ex: "map (\<lambda>m. unat (dl_index m)) (dl_list n) = rev [1..<Suc (length (dl_list n))]" if "dl_lookup hm i = Some n" for i n
    using e that by (auto simp: dl_exact_def)
  show ?thesis
  proof (cases "dl_lookup hm ino")
    case None
    then have "dl_room hm ino" by (simp add: dl_room_def)
    then have "dl_wf (dl_insert hm ino b)" by (rule dl_insert_wf [OF wf])
    moreover have "dl_lookup (dl_insert hm ino b) i =
        (if i = ino then Some \<lparr>dl_inode_number = ino, dl_list = dl_push [] b\<rparr> else dl_lookup hm i)" for i
      using None dl_wf_len [OF wf, of ino] by (auto simp: dl_insert_def dl_lookup_def nth_list_update)
    ultimately show ?thesis using ex by (auto simp: dl_exact_def)
  next
    case (Some n)
    have ne: "dl_list n \<noteq> []" using dl_wf_node [OF wf Some] by simp
    then obtain m r where l: "dl_list n = m # r" by (cases "dl_list n") auto
    then have "unat (dl_index m) = length (dl_list n)" using ex [OF Some] by simp
    then have "dl_room hm ino" using Some len l by (simp add: dl_room_def dl_blocks_def)
    then have w: "dl_wf (dl_insert hm ino b)" by (rule dl_insert_wf [OF wf])
    have px: "map (\<lambda>m. unat (dl_index m)) (dl_push (dl_list n) b) = rev [1..<Suc (length (dl_push (dl_list n) b))]"
      by (rule dl_push_exact [OF ex [OF Some]]) (use len Some in \<open>simp add: dl_blocks_def\<close>)
    show ?thesis
    proof (cases "dl_find_block (dl_list n) b")
      case None
      then have "dl_insert hm ino b = dl_set_list hm ino (dl_push (dl_list n) b)" using Some by (simp add: dl_insert_def)
      then show ?thesis using w px ex Some by (auto simp: dl_exact_def dl_lookup_set_list [OF wf] simp del: upt_Suc)
    next
      case (Some x)
      then show ?thesis using e \<open>dl_lookup hm ino = Some n\<close> by (simp add: dl_insert_def)
    qed
  qed
qed

text \<open>Inserting a second time changes nothing.\<close>

lemma dl_insert_idem: "dl_wf hm \<Longrightarrow> dl_insert (dl_insert hm ino b) ino b = dl_insert hm ino b"
  by (rule dl_insert_present) (simp add: dl_blocks_insert)

section \<open>The contract of a dirty index\<close>

text \<open>
  What the cache relies on: an index of sets of blocks per inode, in which inserting, removing and
  deleting touch only the inode they name.
\<close>

locale dirty_index =
  fixes insert :: "'m \<Rightarrow> u64 \<Rightarrow> u64 \<Rightarrow> 'm"
    and remove :: "'m \<Rightarrow> u64 \<Rightarrow> u64 \<Rightarrow> 'm"
    and delete :: "'m \<Rightarrow> u64 \<Rightarrow> 'm"
    and inv :: "'m \<Rightarrow> bool"
    and room :: "'m \<Rightarrow> u64 \<Rightarrow> bool"
    and blocks :: "'m \<Rightarrow> u64 \<Rightarrow> u64 list"
  assumes insert_inv: "inv m \<Longrightarrow> room m i \<Longrightarrow> inv (insert m i b)"
    and insert_blocks: "inv m \<Longrightarrow> set (blocks (insert m i b) j) = (if j = i then {b} \<union> set (blocks m i) else set (blocks m j))"
    and remove_inv: "inv m \<Longrightarrow> inv (remove m i b)"
    and remove_blocks: "inv m \<Longrightarrow> set (blocks (remove m i b) j) = (if j = i then set (blocks m i) - {b} else set (blocks m j))"
    and delete_inv: "inv m \<Longrightarrow> inv (delete m i)"
    and delete_blocks: "inv m \<Longrightarrow> set (blocks (delete m i) j) = (if j = i then {} else set (blocks m j))"
begin

lemma insert_twice:
  assumes "inv m" and "room m i"
  shows "set (blocks (insert (insert m i b) i b) j) = set (blocks (insert m i b) j)"
  using assms by (simp add: insert_inv insert_blocks)

lemma insert_remove:
  assumes "inv m" and "room m i" and "b \<notin> set (blocks m i)"
  shows "set (blocks (remove (insert m i b) i b) j) = set (blocks m j)"
  using assms by (auto simp: insert_inv insert_blocks remove_blocks)

end

interpretation dl: dirty_index dl_insert dl_remove_block dl_delete dl_wf dl_room dl_blocks
  by unfold_locales
    (auto simp: dl_insert_wf dl_blocks_insert dl_remove_block_ok dl_delete_wf dl_blocks_delete
      set_remove1_eq dl_blocks_distinct split: if_splits)

end
