(* ===== verification/State.thy ===== *)
theory State
  imports Ring Index Dirty
begin

text \<open>
  The program state (\<^verbatim>\<open>src/types.h\<close>), pointers to block data, the global mutex
  (\<^verbatim>\<open>src/lock.c\<close>) and raw disk access (\<open>disk_get_block\<close>, \<open>disk_read_block\<close>, \<open>disk_write_block\<close> in
  \<^verbatim>\<open>src/disk.c\<close>).

  The heap objects of the cache are part of its record: the list nodes by address, and the
  \<^verbatim>\<open>malloc\<close>ed pages by address. \<open>brk\<close> is the next fresh address; an address is never reused, and
  \<^verbatim>\<open>malloc\<close> does not fail. The counters \<open>lru_size\<close>, \<open>gdl_size\<close> and \<open>pin_count\<close> are C \<^verbatim>\<open>int\<close>s that would
  need more than \<open>2 ^ 31\<close> operations to overflow; they are unbounded here. The field
  \<open>cache_disabled\<close> is the build switch \<^verbatim>\<open>CACHE_DISABLED\<close> (\<^verbatim>\<open>mkfs\<close> is built with it), under which blocks
  are accessed in the mapped image directly. The per-entry mutexes guard only against other
  threads and are left out: one thread runs at a time. The global mutex is kept as a flag, since a
  thread that locks it twice never returns.
\<close>

section \<open>Structures\<close>

record cache_entry_t =
  dirty_bit :: bool
  pin_count :: int
  ce_block_number :: u64
  ce_inode_number :: u64
  page_data :: "nat option"
  lru_pos :: "nat option"
  gdl_pos :: "nat option"

record cache =
  cache_size :: nat
  lru_size :: int
  gdl_size :: int
  entries :: "cache_entry_t list"
  pci :: PCI_HM
  lru :: "nat option"
  free_list :: FL_LL
  dirty_list :: DL_HM
  gdl :: "nat option"
  lru_heap :: dheap
  gdl_heap :: dheap
  pages :: "nat \<rightharpoonup> block"
  brk :: nat

record DiskInterface =
  disk_base :: "nat \<Rightarrow> block"
  total_blocks :: u64

record fs =
  cache_disabled :: bool
  disk :: DiskInterface
  cache_s :: cache
  lock_held :: bool

text \<open>A \<^verbatim>\<open>void *\<close> to the start of a block: in the mapped image, or of a cached page.\<close>

datatype ptr = DiskPtr nat | PagePtr nat

definition nblocks :: "fs \<Rightarrow> nat" where
  "nblocks s = unat (total_blocks (disk s))"

section \<open>Reading and writing through pointers\<close>

fun deref :: "fs \<Rightarrow> ptr \<Rightarrow> block option" where
  "deref s (DiskPtr i) = (if i < nblocks s then Some (disk_base (disk s) i) else None)"
| "deref s (PagePtr a) = pages (cache_s s) a"

fun assign :: "fs \<Rightarrow> ptr \<Rightarrow> block \<Rightarrow> fs option" where
  "assign s (DiskPtr i) b =
     (if i < nblocks s then Some (s\<lparr>disk := (disk s)\<lparr>disk_base := (disk_base (disk s))(i := b)\<rparr>\<rparr>) else None)"
| "assign s (PagePtr a) b =
     (if pages (cache_s s) a = None then None
      else Some (s\<lparr>cache_s := (cache_s s)\<lparr>pages := (pages (cache_s s))(a \<mapsto> b)\<rparr>\<rparr>))"

text \<open>The global mutex is not recursive: a second lock by its holder never returns.\<close>

definition mutex_lock :: "fs \<Rightarrow> fs option" where
  "mutex_lock s = (if lock_held s then None else Some (s\<lparr>lock_held := True\<rparr>))"

definition mutex_unlock :: "fs \<Rightarrow> fs" where
  "mutex_unlock s = s\<lparr>lock_held := False\<rparr>"

section \<open>Disk access\<close>

text \<open>
  The byte offset \<^verbatim>\<open>BLOCK_SIZE * pnum\<close> is an \<^verbatim>\<open>int\<close> product, undefined when it overflows, and the
  address must lie in the mapping.
\<close>

definition disk_get_block :: "fs \<Rightarrow> int \<Rightarrow> ptr option" where
  "disk_get_block s pnum = do {
     off \<leftarrow> c_int (int BLOCK_SIZE * pnum);
     if 0 \<le> off \<and> nat pnum < nblocks s then Some (DiskPtr (nat pnum)) else None
   }"

definition disk_read_block :: "fs \<Rightarrow> u64 \<Rightarrow> ptr \<Rightarrow> (int \<times> fs) option" where
  "disk_read_block s block_num buffer = do {
     block \<leftarrow> disk_get_block s (int_of_u64 block_num);
     x \<leftarrow> deref s block;
     s \<leftarrow> assign s buffer x;
     Some (0, s)
   }"

definition disk_write_block :: "fs \<Rightarrow> u64 \<Rightarrow> ptr \<Rightarrow> (int \<times> fs) option" where
  "disk_write_block s block_num buffer = do {
     block \<leftarrow> disk_get_block s (int_of_u64 block_num);
     x \<leftarrow> deref s buffer;
     s \<leftarrow> assign s block x;
     Some (0, s)
   }"

text \<open>The write under the global mutex that the sources repeat wherever they write through.\<close>

definition locked_write :: "fs \<Rightarrow> u64 \<Rightarrow> ptr \<Rightarrow> fs option" where
  "locked_write s block_num buffer = do {
     s \<leftarrow> mutex_lock s;
     (_, s) \<leftarrow> disk_write_block s block_num buffer;
     Some (mutex_unlock s)
   }"

text \<open>
  A disk is addressable when every block number survives the conversion to \<^verbatim>\<open>int\<close> and the byte
  offset fits: at most \<open>2 ^ 19\<close> blocks, a 2 GiB image.
\<close>

definition addressable :: "fs \<Rightarrow> bool" where
  "addressable s \<longleftrightarrow> nblocks s \<le> 2 ^ 19"

lemma disk_get_block_ok:
  assumes "addressable s" and "unat b < nblocks s"
  shows "disk_get_block s (int_of_u64 b) = Some (DiskPtr (unat b))"
proof -
  from assms have "unat b < 2 ^ 19" by (simp add: addressable_def)
  then have i: "int_of_u64 b = int (unat b)" and "BLOCK_SIZE * unat b \<le> 2 ^ 31 - 1"
    by (simp_all add: int_of_u64_small layout)
  then have "int (BLOCK_SIZE * unat b) \<le> int (2 ^ 31 - 1)" by (simp only: of_nat_le_iff)
  then have "c_int (int BLOCK_SIZE * int (unat b)) = Some (int BLOCK_SIZE * int (unat b))"
    by (intro c_int_nonneg) simp_all
  with i assms(2) show ?thesis by (simp add: disk_get_block_def)
qed

lemma disk_write_block_ok:
  assumes "addressable s" and "unat b < nblocks s" and "deref s p = Some x"
  shows "disk_write_block s b p =
    Some (0, s\<lparr>disk := (disk s)\<lparr>disk_base := (disk_base (disk s))(unat b := x)\<rparr>\<rparr>)"
  using assms by (simp add: disk_write_block_def disk_get_block_ok)

lemma locked_write_ok:
  assumes "addressable s" and "unat b < nblocks s" and "deref s p = Some x" and "\<not> lock_held s"
  shows "locked_write s b p = Some (s\<lparr>disk := (disk s)\<lparr>disk_base := (disk_base (disk s))(unat b := x)\<rparr>\<rparr>)"
proof -
  have "deref (s\<lparr>lock_held := True\<rparr>) p = Some x"
    using assms(3) by (cases p) (auto simp: nblocks_def split: if_splits)
  moreover have "addressable (s\<lparr>lock_held := True\<rparr>)" and "unat b < nblocks (s\<lparr>lock_held := True\<rparr>)"
    using assms(1,2) by (simp_all add: addressable_def nblocks_def)
  ultimately show ?thesis
    using assms(4) by (cases s) (simp add: locked_write_def mutex_lock_def mutex_unlock_def disk_write_block_ok)
qed

end
