(* ===== verification/Lists.thy ===== *)
theory Lists
  imports State
begin

text \<open>
  The recency list (\<^verbatim>\<open>src/lru.c\<close>) and the global dirty list (\<^verbatim>\<open>src/gdl.c\<close>) of the cache, as
  operations on the node heaps of the cache record. Both \<^verbatim>\<open>pop\<close> functions take the address of a
  pointer variable, which they also assign; the variable may be the list head itself, so it is
  passed as a location.
\<close>

section \<open>Recency list\<close>

datatype lru_loc = LruLocal "nat option" | LruHead | LruEntry nat

fun lru_load :: "cache \<Rightarrow> lru_loc \<Rightarrow> nat option option" where
  "lru_load c (LruLocal p) = Some p"
| "lru_load c LruHead = Some (lru c)"
| "lru_load c (LruEntry i) = (if i < length (entries c) then Some (lru_pos (entries c ! i)) else None)"

text \<open>An assignment to a local is visible to its owner only, who does not read it again.\<close>

fun lru_store :: "nat option \<Rightarrow> lru_loc \<Rightarrow> cache \<Rightarrow> cache" where
  "lru_store v (LruLocal p) c = c"
| "lru_store v LruHead c = c\<lparr>lru := v\<rparr>"
| "lru_store v (LruEntry i) c = c\<lparr>entries := (entries c)[i := (entries c ! i)\<lparr>lru_pos := v\<rparr>]\<rparr>"

definition lru_push :: "cache \<Rightarrow> int \<Rightarrow> (nat \<times> cache) option" where
  "lru_push c idx = do {
     let node = brk c;
     h \<leftarrow> ring_push (lru_heap c) (lru c) (lru_size c) node idx;
     Some (node, c\<lparr>lru_heap := h, lru_size := lru_size c + 1, brk := node + 1\<rparr>)
   }"

definition lru_pop :: "cache \<Rightarrow> lru_loc \<Rightarrow> (int \<times> cache) option" where
  "lru_pop c list = do {
     p \<leftarrow> lru_load c list;
     case p of
       None \<Rightarrow> Some (-1, c)
     | Some node \<Rightarrow> do {
         n \<leftarrow> lru_heap c node;
         c \<leftarrow> (if lru_size c = 1 then Some (lru_store None list (c\<lparr>lru := None\<rparr>))
              else do {
                h \<leftarrow> ring_unlink (lru_heap c) node;
                let c = lru_store (Some (nxt n)) list (c\<lparr>lru_heap := h\<rparr>);
                Some (if lru c = Some node then c\<lparr>lru := Some (nxt n)\<rparr> else c)
              });
         Some (index n, c\<lparr>lru_heap := (lru_heap c)(node := None), lru_size := lru_size c - 1\<rparr>)
       }
   }"

section \<open>Global dirty list\<close>

datatype gdl_loc = GdlLocal "nat option" | GdlHead | GdlEntry nat

fun gdl_load :: "cache \<Rightarrow> gdl_loc \<Rightarrow> nat option option" where
  "gdl_load c (GdlLocal p) = Some p"
| "gdl_load c GdlHead = Some (gdl c)"
| "gdl_load c (GdlEntry i) = (if i < length (entries c) then Some (gdl_pos (entries c ! i)) else None)"

fun gdl_store :: "nat option \<Rightarrow> gdl_loc \<Rightarrow> cache \<Rightarrow> cache" where
  "gdl_store v (GdlLocal p) c = c"
| "gdl_store v GdlHead c = c\<lparr>gdl := v\<rparr>"
| "gdl_store v (GdlEntry i) c = c\<lparr>entries := (entries c)[i := (entries c ! i)\<lparr>gdl_pos := v\<rparr>]\<rparr>"

definition gdl_push :: "cache \<Rightarrow> int \<Rightarrow> (nat \<times> cache) option" where
  "gdl_push c idx = do {
     let node = brk c;
     h \<leftarrow> ring_push (gdl_heap c) (gdl c) (gdl_size c) node idx;
     Some (node, c\<lparr>gdl_heap := h, gdl_size := gdl_size c + 1, brk := node + 1\<rparr>)
   }"

definition gdl_pop :: "cache \<Rightarrow> gdl_loc \<Rightarrow> (int \<times> cache) option" where
  "gdl_pop c list = do {
     p \<leftarrow> gdl_load c list;
     case p of
       None \<Rightarrow> Some (-1, c)
     | Some node \<Rightarrow> do {
         n \<leftarrow> gdl_heap c node;
         c \<leftarrow> (if gdl_size c = 1 then Some (gdl_store None list (c\<lparr>gdl := None\<rparr>))
              else do {
                h \<leftarrow> ring_unlink (gdl_heap c) node;
                let c = c\<lparr>gdl_heap := h\<rparr>;
                let c = (if gdl c = Some node then c\<lparr>gdl := Some (nxt n)\<rparr> else c);
                Some (gdl_store None list c)
              });
         Some (index n, c\<lparr>gdl_heap := (gdl_heap c)(node := None), gdl_size := gdl_size c - 1\<rparr>)
       }
   }"

section \<open>Well-formed lists\<close>

text \<open>
  \<open>lru_ring c L\<close>: the live recency nodes are exactly \<open>L\<close>, they form one ring headed by \<open>lru c\<close>, the
  size counts them, and fresh addresses stay fresh. \<open>gdl_ring\<close> is the same for the dirty list.
\<close>

definition lru_ring :: "cache \<Rightarrow> nat list \<Rightarrow> bool" where
  "lru_ring c L \<longleftrightarrow> ring_list (lru_heap c) (lru c) (lru_size c) L \<and> (\<forall>a \<in> set L. a < brk c)"

definition gdl_ring :: "cache \<Rightarrow> nat list \<Rightarrow> bool" where
  "gdl_ring c L \<longleftrightarrow> ring_list (gdl_heap c) (gdl c) (gdl_size c) L \<and> (\<forall>a \<in> set L. a < brk c)"

lemma lru_push_ok:
  assumes "lru_ring c L"
  obtains h where "lru_push c i = Some (brk c, c\<lparr>lru_heap := h, lru_size := lru_size c + 1, brk := brk c + 1\<rparr>)"
    and "lru_ring (c\<lparr>lru_heap := h, lru_size := lru_size c + 1, brk := brk c + 1, lru := Some (brk c)\<rparr>) (brk c # L)"
    and "\<And>a. idx_of h a = (if a = brk c then Some i else idx_of (lru_heap c) a)"
    and "brk c \<notin> set L"
proof -
  have fresh: "brk c \<notin> set L" using assms by (auto simp: lru_ring_def)
  obtain h where h: "ring_push (lru_heap c) (lru c) (lru_size c) (brk c) i = Some h"
      "ring_list h (Some (brk c)) (lru_size c + 1) (brk c # L)"
      "\<And>a. idx_of h a = (if a = brk c then Some i else idx_of (lru_heap c) a)"
    using ring_push_ok [of "lru_heap c" "lru c" "lru_size c" L "brk c" i] fresh assms
    by (auto simp: lru_ring_def)
  show thesis
    by (rule that [of h]) (use h fresh assms in \<open>auto simp: lru_push_def lru_ring_def Let_def\<close>)
qed

text \<open>
  A pop through a location that holds the node \<open>a\<close> removes exactly \<open>a\<close>, frees it, and hands back its
  slot. The location other than the head is left with the next node, which the callers overwrite.
\<close>

lemma lru_pop_ok:
  assumes r: "lru_ring c L" and a: "a \<in> set L" and l: "lru_load c loc = Some (Some a)"
  obtains i h v hd' where "idx_of (lru_heap c) a = Some i"
    and "lru_pop c loc = Some (i, lru_store v loc (c\<lparr>lru_heap := h, lru := hd', lru_size := lru_size c - 1\<rparr>))"
    and "lru_ring (c\<lparr>lru_heap := h, lru := hd', lru_size := lru_size c - 1\<rparr>) (remove1 a L)"
    and "\<And>x. x \<noteq> a \<Longrightarrow> idx_of h x = idx_of (lru_heap c) x"
    and "loc = LruHead \<Longrightarrow> v = hd'"
proof -
  have rl: "ring_list (lru_heap c) (lru c) (lru_size c) L" and bk: "\<forall>a \<in> set L. a < brk c"
    using r by (auto simp: lru_ring_def)
  obtain n where n: "lru_heap c a = Some n" "idx_of (lru_heap c) a = Some (index n)"
    using ring_list_mem [OF rl a] .
  show thesis
  proof (cases "lru_size c = 1")
    case True
    note sg = ring_pop_single [OF rl a True]
    show thesis
    proof (rule that [where i = "index n" and v = None and h = "(lru_heap c)(a := None)" and hd' = None])
      show "lru_pop c loc = Some (index n, lru_store None loc
          (c\<lparr>lru_heap := (lru_heap c)(a := None), lru := None, lru_size := lru_size c - 1\<rparr>))"
        using l n True by (cases loc) (auto simp: lru_pop_def split: if_splits)
    qed (use sg n True in \<open>auto simp: lru_ring_def idx_of_def\<close>)
  next
    case False
    obtain h where h: "ring_unlink (lru_heap c) a = Some h"
        "ring_list (h(a := None)) (if lru c = Some a then Some (nxt n) else lru c) (lru_size c - 1) (remove1 a L)"
        "\<And>x. idx_of h x = idx_of (lru_heap c) x"
      using ring_pop_many [OF rl a False n(1)] by blast
    show thesis
    proof (rule that [where i = "index n" and v = "Some (nxt n)" and h = "h(a := None)"
            and hd' = "if lru c = Some a then Some (nxt n) else lru c"])
      show "lru_pop c loc = Some (index n, lru_store (Some (nxt n)) loc
          (c\<lparr>lru_heap := h(a := None), lru := if lru c = Some a then Some (nxt n) else lru c,
             lru_size := lru_size c - 1\<rparr>))"
        using l n False h(1) by (cases loc) (auto simp: lru_pop_def Let_def split: if_splits)
      show "idx_of (h(a := None)) x = idx_of (lru_heap c) x" if "x \<noteq> a" for x
        using h(3) [of x] that by (simp add: idx_of_def)
    qed (use h(2) n bk l in \<open>auto simp: lru_ring_def dest: in_set_remove1 [THEN iffD1] notin_set_remove1\<close>)
  qed
qed

lemma gdl_push_ok:
  assumes "gdl_ring c L"
  obtains h where "gdl_push c i = Some (brk c, c\<lparr>gdl_heap := h, gdl_size := gdl_size c + 1, brk := brk c + 1\<rparr>)"
    and "gdl_ring (c\<lparr>gdl_heap := h, gdl_size := gdl_size c + 1, brk := brk c + 1, gdl := Some (brk c)\<rparr>) (brk c # L)"
    and "\<And>a. idx_of h a = (if a = brk c then Some i else idx_of (gdl_heap c) a)"
    and "brk c \<notin> set L"
proof -
  have fresh: "brk c \<notin> set L" using assms by (auto simp: gdl_ring_def)
  obtain h where h: "ring_push (gdl_heap c) (gdl c) (gdl_size c) (brk c) i = Some h"
      "ring_list h (Some (brk c)) (gdl_size c + 1) (brk c # L)"
      "\<And>a. idx_of h a = (if a = brk c then Some i else idx_of (gdl_heap c) a)"
    using ring_push_ok [of "gdl_heap c" "gdl c" "gdl_size c" L "brk c" i] fresh assms
    by (auto simp: gdl_ring_def)
  show thesis
    by (rule that [of h]) (use h fresh assms in \<open>auto simp: gdl_push_def gdl_ring_def Let_def\<close>)
qed

lemma gdl_pop_ok:
  assumes r: "gdl_ring c L" and a: "a \<in> set L" and l: "gdl_load c loc = Some (Some a)" and nh: "loc \<noteq> GdlHead"
  obtains i h hd' where "idx_of (gdl_heap c) a = Some i"
    and "gdl_pop c loc = Some (i, gdl_store None loc (c\<lparr>gdl_heap := h, gdl := hd', gdl_size := gdl_size c - 1\<rparr>))"
    and "gdl_ring (c\<lparr>gdl_heap := h, gdl := hd', gdl_size := gdl_size c - 1\<rparr>) (remove1 a L)"
    and "\<And>x. x \<noteq> a \<Longrightarrow> idx_of h x = idx_of (gdl_heap c) x"
proof -
  have rl: "ring_list (gdl_heap c) (gdl c) (gdl_size c) L" and bk: "\<forall>a \<in> set L. a < brk c"
    using r by (auto simp: gdl_ring_def)
  obtain n where n: "gdl_heap c a = Some n" "idx_of (gdl_heap c) a = Some (index n)"
    using ring_list_mem [OF rl a] .
  show thesis
  proof (cases "gdl_size c = 1")
    case True
    note sg = ring_pop_single [OF rl a True]
    show thesis
    proof (rule that [where i = "index n" and h = "(gdl_heap c)(a := None)" and hd' = None])
      show "gdl_pop c loc = Some (index n, gdl_store None loc
          (c\<lparr>gdl_heap := (gdl_heap c)(a := None), gdl := None, gdl_size := gdl_size c - 1\<rparr>))"
        using l n True nh by (cases loc) (auto simp: gdl_pop_def split: if_splits)
    qed (use sg n True in \<open>auto simp: gdl_ring_def idx_of_def\<close>)
  next
    case False
    obtain h where h: "ring_unlink (gdl_heap c) a = Some h"
        "ring_list (h(a := None)) (if gdl c = Some a then Some (nxt n) else gdl c) (gdl_size c - 1) (remove1 a L)"
        "\<And>x. idx_of h x = idx_of (gdl_heap c) x"
      using ring_pop_many [OF rl a False n(1)] by blast
    show thesis
    proof (rule that [where i = "index n" and h = "h(a := None)"
            and hd' = "if gdl c = Some a then Some (nxt n) else gdl c"])
      show "gdl_pop c loc = Some (index n, gdl_store None loc
          (c\<lparr>gdl_heap := h(a := None), gdl := if gdl c = Some a then Some (nxt n) else gdl c,
             gdl_size := gdl_size c - 1\<rparr>))"
        using l n False nh h(1) by (cases loc) (auto simp: gdl_pop_def Let_def split: if_splits)
      show "idx_of (h(a := None)) x = idx_of (gdl_heap c) x" if "x \<noteq> a" for x
        using h(3) [of x] that by (simp add: idx_of_def)
    qed (use h(2) n bk l in \<open>auto simp: gdl_ring_def dest: in_set_remove1 [THEN iffD1] notin_set_remove1\<close>)
  qed
qed

lemma lru_ring_store [simp]: "loc \<noteq> LruHead \<Longrightarrow> lru_ring (lru_store v loc c) L = lru_ring c L"
  by (cases loc) (auto simp: lru_ring_def)

lemma gdl_ring_store [simp]: "loc \<noteq> GdlHead \<Longrightarrow> gdl_ring (gdl_store v loc c) L = gdl_ring c L"
  by (cases loc) (auto simp: gdl_ring_def)

lemma lru_store_heap [simp]: "lru_heap (lru_store v loc c) = lru_heap c"
  by (cases loc) auto

lemma gdl_store_heap [simp]: "gdl_heap (gdl_store v loc c) = gdl_heap c"
  by (cases loc) auto

section \<open>The contract of a list of slots\<close>

text \<open>
  What the cache relies on of either list: a push puts a slot in front (once its caller has stored
  the head), a pop through a pointer removes the node the pointer holds and nothing else. \<open>plain\<close>
  excludes the pointer variables a list does not support popping through.
\<close>

locale slot_list =
  fixes push :: "'c \<Rightarrow> int \<Rightarrow> (nat \<times> 'c) option"
    and set_head :: "nat \<Rightarrow> 'c \<Rightarrow> 'c"
    and pop :: "'c \<Rightarrow> 'l \<Rightarrow> (int \<times> 'c) option"
    and load :: "'c \<Rightarrow> 'l \<Rightarrow> nat option option"
    and shape :: "'c \<Rightarrow> nat list \<Rightarrow> bool"
    and slot :: "'c \<Rightarrow> nat \<Rightarrow> int option"
    and plain :: "'l \<Rightarrow> bool"
  assumes push_front: "shape c L \<Longrightarrow>
      \<exists>n c'. push c i = Some (n, c') \<and> n \<notin> set L \<and> shape (set_head n c') (n # L) \<and>
        (\<forall>a. slot (set_head n c') a = (if a = n then Some i else slot c a))"
    and pop_removes: "shape c L \<Longrightarrow> a \<in> set L \<Longrightarrow> plain l \<Longrightarrow> load c l = Some (Some a) \<Longrightarrow>
      \<exists>i c'. pop c l = Some (i, c') \<and> slot c a = Some i \<and> shape c' (remove1 a L) \<and>
        (\<forall>x. x \<noteq> a \<longrightarrow> slot c' x = slot c x)"
    and shape_distinct: "shape c L \<Longrightarrow> distinct L"
begin

definition order :: "'c \<Rightarrow> nat list \<Rightarrow> int list" where
  "order c L = map (\<lambda>a. the (slot c a)) L"

lemma order_push:
  assumes "shape c L" and "push c i = Some (n, c')"
  shows "shape (set_head n c') (n # L) \<and> order (set_head n c') (n # L) = i # order c L"
  using push_front [OF assms(1), of i] assms(2) by (auto simp: order_def)

lemma order_pop:
  assumes "shape c L" and "a \<in> set L" and "plain l" and "load c l = Some (Some a)"
  shows "\<exists>i c'. pop c l = Some (i, c') \<and> slot c a = Some i \<and> shape c' (remove1 a L) \<and>
    order c' (remove1 a L) = order c (remove1 a L)"
proof -
  have "a \<notin> set (remove1 a L)" using shape_distinct [OF assms(1)] by simp
  then have "\<And>x. x \<in> set (remove1 a L) \<Longrightarrow> x \<noteq> a" by blast
  then show ?thesis
    using pop_removes [OF assms] unfolding order_def by (metis (no_types, lifting) map_cong)
qed

text \<open>Popping a node and pushing its slot again moves the slot to the front, the rest keeping its order.\<close>

lemma move_to_front:
  assumes "shape c L" and "a \<in> set L" and "plain l" and "load c l = Some (Some a)"
  shows "\<exists>i c' n c''. pop c l = Some (i, c') \<and> push c' i = Some (n, c'') \<and> slot c a = Some i \<and>
    shape (set_head n c'') (n # remove1 a L) \<and>
    order (set_head n c'') (n # remove1 a L) = i # order c (remove1 a L)"
proof -
  obtain i c' where p: "pop c l = Some (i, c')" "slot c a = Some i" "shape c' (remove1 a L)"
      "order c' (remove1 a L) = order c (remove1 a L)"
    using order_pop [OF assms] by blast
  obtain n c'' where q: "push c' i = Some (n, c'')" using push_front [OF p(3), of i] by blast
  from order_push [OF p(3) q] p q show ?thesis by auto
qed

end

interpretation lru: slot_list lru_push "\<lambda>n c. c\<lparr>lru := Some n\<rparr>" lru_pop lru_load lru_ring
  "\<lambda>c. idx_of (lru_heap c)" "\<lambda>l. l \<noteq> LruHead"
proof unfold_locales
  fix c L i assume r: "lru_ring c L"
  show "\<exists>n c'. lru_push c i = Some (n, c') \<and> n \<notin> set L \<and> lru_ring (c'\<lparr>lru := Some n\<rparr>) (n # L) \<and>
      (\<forall>a. idx_of (lru_heap (c'\<lparr>lru := Some n\<rparr>)) a = (if a = n then Some i else idx_of (lru_heap c) a))"
    by (rule lru_push_ok [OF r, of i]) auto
  show "distinct L" using r by (simp add: lru_ring_def ring_list_def ring_def)
  fix a l assume "a \<in> set L" and "l \<noteq> LruHead" and "lru_load c l = Some (Some a)"
  then show "\<exists>i c'. lru_pop c l = Some (i, c') \<and> idx_of (lru_heap c) a = Some i \<and> lru_ring c' (remove1 a L) \<and>
      (\<forall>x. x \<noteq> a \<longrightarrow> idx_of (lru_heap c') x = idx_of (lru_heap c) x)"
    by (elim lru_pop_ok [OF r]) auto
qed

interpretation gdl: slot_list gdl_push "\<lambda>n c. c\<lparr>gdl := Some n\<rparr>" gdl_pop gdl_load gdl_ring
  "\<lambda>c. idx_of (gdl_heap c)" "\<lambda>l. l \<noteq> GdlHead"
proof unfold_locales
  fix c L i assume r: "gdl_ring c L"
  show "\<exists>n c'. gdl_push c i = Some (n, c') \<and> n \<notin> set L \<and> gdl_ring (c'\<lparr>gdl := Some n\<rparr>) (n # L) \<and>
      (\<forall>a. idx_of (gdl_heap (c'\<lparr>gdl := Some n\<rparr>)) a = (if a = n then Some i else idx_of (gdl_heap c) a))"
    by (rule gdl_push_ok [OF r, of i]) auto
  show "distinct L" using r by (simp add: gdl_ring_def ring_list_def ring_def)
  fix a l assume "a \<in> set L" and "l \<noteq> GdlHead" and "gdl_load c l = Some (Some a)"
  then show "\<exists>i c'. gdl_pop c l = Some (i, c') \<and> idx_of (gdl_heap c) a = Some i \<and> gdl_ring c' (remove1 a L) \<and>
      (\<forall>x. x \<noteq> a \<longrightarrow> idx_of (gdl_heap c') x = idx_of (gdl_heap c) x)"
    by (elim gdl_pop_ok [OF r]) auto
qed

end
