(* ===== verification/Cache.thy ===== *)
theory Cache
  imports Lists
begin

text \<open>
  The write-back block cache (\<^verbatim>\<open>src/cache.c\<close>): lookup and loading of blocks, LRU eviction, dirty
  tracking, pinning, the two synchronisation calls, allocation and release of the cache.
\<close>

section \<open>Entries\<close>

text \<open>\<^verbatim>\<open>cache->cache[i]\<close>: outside the array it is undefined.\<close>

definition entry_at :: "cache \<Rightarrow> int \<Rightarrow> cache_entry_t option" where
  "entry_at c i = (if 0 \<le> i \<and> nat i < length (entries c) then Some (entries c ! nat i) else None)"

definition set_entry :: "cache \<Rightarrow> nat \<Rightarrow> cache_entry_t \<Rightarrow> cache" where
  "set_entry c i e = c\<lparr>entries := (entries c)[i := e]\<rparr>"

definition upd_entry :: "cache \<Rightarrow> nat \<Rightarrow> (cache_entry_t \<Rightarrow> cache_entry_t) \<Rightarrow> cache" where
  "upd_entry c i f = set_entry c i (f (entries c ! i))"

section \<open>Fetching blocks\<close>

text \<open>
  The victim search walks from the tail towards the head past pinned entries; when every entry is
  pinned it goes round for ever.
\<close>

partial_function (option) lru_victim :: "cache \<Rightarrow> nat \<Rightarrow> nat option" where
  "lru_victim c cur = do {
     n \<leftarrow> lru_heap c cur;
     e \<leftarrow> entry_at c (index n);
     if pin_count e \<noteq> 0 then lru_victim c (prv n) else Some cur
   }"

text \<open>
  Eviction. For a dirty victim the page is written back and freed, and only then is its type tag
  read through the pointer kept to it; \<open>deref\<close> of a freed page is undefined.
\<close>

definition write_back_victim :: "fs \<Rightarrow> nat \<Rightarrow> fs option" where
  "write_back_victim s ci = do {
     let e = entries (cache_s s) ! ci;
     a \<leftarrow> page_data e;
     s \<leftarrow> locked_write s (ce_block_number e) (PagePtr a);
     let s = s\<lparr>cache_s := (cache_s s)\<lparr>pages := (pages (cache_s s))(a := None)\<rparr>\<rparr>;
     b \<leftarrow> deref s (PagePtr a);
     let c = cache_s s;
     let c = (if btype b = BLOCK_TYPE_DATA
              then c\<lparr>dirty_list := dl_remove_block (dirty_list c) (ce_inode_number e) (ce_block_number e)\<rparr>
              else c);
     (_, c) \<leftarrow> gdl_pop c (GdlEntry ci);
     Some (s\<lparr>cache_s := c\<rparr>)
   }"

definition evict_slot :: "fs \<Rightarrow> int \<Rightarrow> fs option" where
  "evict_slot s ci = do {
     e \<leftarrow> entry_at (cache_s s) ci;
     s \<leftarrow> (if dirty_bit e then write_back_victim s (nat ci) else Some s);
     let c = cache_s s;
     m \<leftarrow> pci_delete (pci c) (ce_block_number (entries c ! nat ci));
     Some (s\<lparr>cache_s := c\<lparr>pci := m, free_list := fl_push (free_list c) ci\<rparr>\<rparr>)
   }"

definition evict :: "fs \<Rightarrow> fs option" where
  "evict s = do {
     let c = cache_s s;
     head \<leftarrow> lru c;
     n \<leftarrow> lru_heap c head;
     cur \<leftarrow> lru_victim c (prv n);
     (ci, c) \<leftarrow> lru_pop c (LruLocal (Some cur));
     evict_slot (s\<lparr>cache_s := c\<rparr>) ci
   }"

text \<open>
  Loading a block into the slot at the head of the free list. The fresh page has no defined
  contents before \<open>disk_read_block\<close> fills it; the zero bytes it starts from are never seen.
\<close>

definition load_block :: "fs \<Rightarrow> u64 \<Rightarrow> u64 \<Rightarrow> (ptr \<times> fs) option" where
  "load_block s inum pnum = do {
     let c = cache_s s;
     fl \<leftarrow> fl_pop (free_list c);
     let idx = hd (free_list c);
     e \<leftarrow> entry_at c idx;
     let a = brk c;
     let e = e\<lparr>dirty_bit := False, pin_count := 0, ce_block_number := pnum, ce_inode_number := inum,
               page_data := Some a\<rparr>;
     let c = set_entry (c\<lparr>free_list := fl, pages := (pages c)(a \<mapsto> (\<lambda>_. 0)), brk := a + 1\<rparr>) (nat idx) e;
     (_, s) \<leftarrow> disk_read_block (s\<lparr>cache_s := c\<rparr>) pnum (PagePtr a);
     (node, c) \<leftarrow> lru_push (cache_s s) idx;
     let c = (upd_entry c (nat idx) (\<lambda>e. e\<lparr>lru_pos := Some node\<rparr>))\<lparr>lru := Some node\<rparr>;
     let c = c\<lparr>pci := pci_insert (pci c) pnum (word_of_int idx)\<rparr>;
     Some (PagePtr a, s\<lparr>cache_s := c\<rparr>)
   }"

text \<open>A hit moves the entry to the front of the recency list.\<close>

definition touch_block :: "fs \<Rightarrow> int \<Rightarrow> (ptr \<times> fs) option" where
  "touch_block s rv = do {
     let c = cache_s s;
     e \<leftarrow> entry_at c rv;
     (ci, c) \<leftarrow> lru_pop c (LruEntry (nat rv));
     (node, c) \<leftarrow> lru_push c ci;
     let c = (upd_entry c (nat rv) (\<lambda>e. e\<lparr>lru_pos := Some node\<rparr>))\<lparr>lru := Some node\<rparr>;
     a \<leftarrow> page_data (entries c ! nat rv);
     Some (PagePtr a, s\<lparr>cache_s := c\<rparr>)
   }"

definition get_block :: "fs \<Rightarrow> u64 \<Rightarrow> u64 \<Rightarrow> (ptr \<times> fs) option" where
  "get_block s inum pnum =
     (if cache_disabled s then do {
        p \<leftarrow> disk_get_block s (int_of_u64 pnum);
        Some (p, s)
      }
      else let rv = pci_lookup (pci (cache_s s)) pnum
           in if rv = -1 then do {
                s \<leftarrow> (if free_list (cache_s s) = [] then evict s else Some s);
                load_block s inum pnum
              }
              else touch_block s rv)"

text \<open>The slot of a block, loading the block first when it is not cached.\<close>

definition cached_slot :: "fs \<Rightarrow> u64 \<Rightarrow> u64 \<Rightarrow> (int \<times> fs) option" where
  "cached_slot s inum pnum =
     (let idx = pci_lookup (pci (cache_s s)) pnum
      in if idx = -1 then do {
           (_, s) \<leftarrow> get_block s inum pnum;
           Some (pci_lookup (pci (cache_s s)) pnum, s)
         }
         else Some (idx, s))"

section \<open>Writing and pinning\<close>

text \<open>
  Recording slot \<open>i\<close> as dirty: in the list of its inode when the page holds file data, and in the
  global list. \<open>write_block\<close> does this twice when the entry was clean and once otherwise.
\<close>

definition track_dirty :: "cache \<Rightarrow> nat \<Rightarrow> nat \<Rightarrow> u64 \<Rightarrow> u64 \<Rightarrow> cache option" where
  "track_dirty c i a inum pnum = do {
     b \<leftarrow> pages c a;
     let c = (if btype b = BLOCK_TYPE_DATA then c\<lparr>dirty_list := dl_insert (dirty_list c) inum pnum\<rparr> else c);
     (node, c) \<leftarrow> gdl_push c (int i);
     Some (upd_entry (c\<lparr>gdl := Some node\<rparr>) i (\<lambda>e. e\<lparr>gdl_pos := Some node\<rparr>))
   }"

definition write_block :: "fs \<Rightarrow> ptr \<Rightarrow> u64 \<Rightarrow> u64 \<Rightarrow> fs option" where
  "write_block s buf inum pnum =
     (if cache_disabled s then Some s
      else do {
        (idx, s) \<leftarrow> cached_slot s inum pnum;
        e \<leftarrow> entry_at (cache_s s) idx;
        a \<leftarrow> page_data e;
        x \<leftarrow> deref s buf;
        s \<leftarrow> assign s (PagePtr a) x;
        let c = cache_s s;
        c \<leftarrow> (if \<not> dirty_bit e
              then track_dirty (upd_entry c (nat idx) (\<lambda>e. e\<lparr>dirty_bit := True\<rparr>)) (nat idx) a inum pnum
              else Some c);
        c \<leftarrow> track_dirty c (nat idx) a inum pnum;
        Some (s\<lparr>cache_s := c\<rparr>)
      })"

definition increase_pin_count :: "fs \<Rightarrow> u64 \<Rightarrow> u64 \<Rightarrow> fs option" where
  "increase_pin_count s inum pnum =
     (if cache_disabled s then Some s
      else do {
        (idx, s) \<leftarrow> cached_slot s inum pnum;
        e \<leftarrow> entry_at (cache_s s) idx;
        Some (s\<lparr>cache_s := upd_entry (cache_s s) (nat idx) (\<lambda>e. e\<lparr>pin_count := pin_count e + 1\<rparr>)\<rparr>)
      })"

definition decrease_pin_count :: "fs \<Rightarrow> u64 \<Rightarrow> u64 \<Rightarrow> fs option" where
  "decrease_pin_count s inum pnum =
     (if cache_disabled s then Some s
      else do {
        (idx, s) \<leftarrow> cached_slot s inum pnum;
        e \<leftarrow> entry_at (cache_s s) idx;
        Some (if pin_count e > 0
              then s\<lparr>cache_s := upd_entry (cache_s s) (nat idx) (\<lambda>e. e\<lparr>pin_count := pin_count e - 1\<rparr>)\<rparr>
              else s)
      })"

section \<open>Synchronisation\<close>

lemma dl_pop_length [termination_simp]: "length (dl_pop (n # r)) < Suc (length r)"
  by simp

text \<open>One block of \<open>cache_fsync\<close>: \<^verbatim>\<open>pci_lookup\<close> is used as an array index without a check.\<close>

definition fsync_block :: "fs \<Rightarrow> u64 \<Rightarrow> fs option" where
  "fsync_block s b = do {
     let idx = pci_lookup (pci (cache_s s)) b;
     e \<leftarrow> entry_at (cache_s s) idx;
     a \<leftarrow> page_data e;
     s \<leftarrow> locked_write s (ce_block_number e) (PagePtr a);
     let c = upd_entry (cache_s s) (nat idx) (\<lambda>e. e\<lparr>dirty_bit := False\<rparr>);
     (_, c) \<leftarrow> gdl_pop c (GdlEntry (nat idx));
     Some (s\<lparr>cache_s := upd_entry c (nat idx) (\<lambda>e. e\<lparr>gdl_pos := None\<rparr>)\<rparr>)
   }"

fun fsync_loop :: "fs \<Rightarrow> DL_LL list \<Rightarrow> fs option" where
  "fsync_loop s [] = Some s"
| "fsync_loop s (n # r) = do {
     s \<leftarrow> fsync_block s (dl_block_number n);
     fsync_loop s (dl_pop (n # r))
   }"

definition cache_fsync :: "fs \<Rightarrow> u64 \<Rightarrow> fs option" where
  "cache_fsync s inum =
     (if cache_disabled s then Some s
      else case dl_lookup (dirty_list (cache_s s)) inum of
             None \<Rightarrow> Some s
           | Some hmlist \<Rightarrow> do {
               s \<leftarrow> fsync_loop s (dl_list hmlist);
               Some (s\<lparr>cache_s := (cache_s s)\<lparr>dirty_list := dl_delete (dirty_list (cache_s s)) inum\<rparr>\<rparr>)
             })"

text \<open>One round of \<open>cache_sync\<close> on the slot it popped from the tail of the global dirty list.\<close>

definition sync_slot :: "fs \<Rightarrow> int \<Rightarrow> fs option" where
  "sync_slot s idx = do {
     e \<leftarrow> entry_at (cache_s s) idx;
     a \<leftarrow> page_data e;
     s \<leftarrow> locked_write s (ce_block_number e) (PagePtr a);
     let c = upd_entry (cache_s s) (nat idx) (\<lambda>e. e\<lparr>dirty_bit := False, gdl_pos := None\<rparr>);
     b \<leftarrow> pages c a;
     let c = (if btype b = BLOCK_TYPE_DATA
              then c\<lparr>dirty_list := dl_remove_block (dirty_list c) (ce_inode_number e) (ce_block_number e)\<rparr>
              else c);
     Some (s\<lparr>cache_s := c\<rparr>)
   }"

partial_function (option) sync_loop :: "fs \<Rightarrow> fs option" where
  "sync_loop s =
     (case gdl (cache_s s) of
        None \<Rightarrow> Some s
      | Some head \<Rightarrow>
          if gdl_size (cache_s s) > 0 then do {
            n \<leftarrow> gdl_heap (cache_s s) head;
            (idx, c) \<leftarrow> gdl_pop (cache_s s) (GdlLocal (Some (prv n)));
            let s = s\<lparr>cache_s := c\<rparr>;
            if idx < 0 \<or> idx \<ge> int (cache_size c) then Some s
            else do {
              s \<leftarrow> sync_slot s idx;
              sync_loop s
            }
          }
          else Some s)"

definition cache_sync :: "fs \<Rightarrow> fs option" where
  "cache_sync s = (if cache_disabled s then Some s else sync_loop s)"

section \<open>Allocation and release\<close>

text \<open>
  The cache size for a machine with \<open>totalram\<close> bytes of RAM, in entries: 16384 below 2 GiB,
  an eighth of the memory from 3 to 16 GiB, otherwise an eighth capped at \<open>2 * 1024 * 1024\<close>.
  \<^verbatim>\<open>totalram\<close> is unsigned, its copy \<^verbatim>\<open>physical_memory\<close> is signed.
\<close>

definition alloc_cache_size :: "u64 \<Rightarrow> u64" where
  "alloc_cache_size totalram =
     (let gb_ram = int_of_u64 (totalram div (1024 * 1024 * 1024));
          physical_memory = sint totalram
      in if gb_ram < 2 then (64 * 1024 * 1024) div 4096
         else if gb_ram > 2 \<and> gb_ram \<le> 16 then word_of_int (c_div physical_memory (8 * 4096))
         else word_of_int (min (2 * 1024 * 1024) (c_div physical_memory (8 * 4096))))"

text \<open>
  A new entry: the fields \<^verbatim>\<open>alloc_cache\<close> leaves uninitialised hold arbitrary values here, since
  \<open>get_block\<close> and \<open>write_block\<close> assign each of them before it is read.
\<close>

definition new_entry :: cache_entry_t where
  "new_entry = \<lparr>dirty_bit = False, pin_count = 0, ce_block_number = 0, ce_inode_number = 0,
                page_data = None, lru_pos = None, gdl_pos = None\<rparr>"

definition new_cache :: "nat \<Rightarrow> cache" where
  "new_cache n =
     \<lparr>cache_size = n, lru_size = 0, gdl_size = 0, entries = replicate n new_entry,
      pci = replicate HASHMAP_SIZE [], lru = None,
      free_list = fold (\<lambda>i fl. fl_push fl (int i)) [0..<n] [],
      dirty_list = replicate HASHMAP_SIZE [], gdl = None,
      lru_heap = Map.empty, gdl_heap = Map.empty, pages = Map.empty, brk = 0\<rparr>"

definition alloc_cache :: "u64 \<Rightarrow> cache" where
  "alloc_cache physical_memory = new_cache (unat (alloc_cache_size physical_memory))"

text \<open>\<open>free_cache\<close>: the two counted loops, then the lists, the maps and the pages.\<close>

fun free_gdl :: "nat \<Rightarrow> cache \<Rightarrow> cache option" where
  "free_gdl 0 c = Some c"
| "free_gdl (Suc i) c = do { (_, c) \<leftarrow> gdl_pop c GdlHead; free_gdl i c }"

fun free_lru :: "nat \<Rightarrow> cache \<Rightarrow> cache option" where
  "free_lru 0 c = Some c"
| "free_lru (Suc i) c = do { (_, c) \<leftarrow> lru_pop c LruHead; free_lru i c }"

text \<open>\<open>free\<close> of each page an entry points to; freeing an address twice is undefined.\<close>

fun free_pages :: "cache_entry_t list \<Rightarrow> (nat \<rightharpoonup> block) \<Rightarrow> (nat \<rightharpoonup> block) option" where
  "free_pages [] pg = Some pg"
| "free_pages (e # es) pg =
     (case page_data e of
        None \<Rightarrow> free_pages es pg
      | Some a \<Rightarrow> if pg a = None then None else free_pages es (pg(a := None)))"

definition free_cache :: "cache \<Rightarrow> cache option" where
  "free_cache c = do {
     c \<leftarrow> free_gdl (nat (gdl_size c)) c;
     c \<leftarrow> free_lru (nat (lru_size c)) c;
     pg \<leftarrow> free_pages (entries c) (pages c);
     Some (c\<lparr>free_list := [], dirty_list := [], pci := [], pages := pg, entries := []\<rparr>)
   }"

end
