(* ===== verification/Cache_Inv.thy ===== *)
theory Cache_Inv
  imports Cache
begin

text \<open>
  The invariant of the cache and its preservation by the operations on entries: moving to the
  front, loading into a free slot, dirty tracking, pinning.
\<close>

section \<open>The invariant\<close>

definition in_use :: "cache \<Rightarrow> nat \<Rightarrow> bool" where
  "in_use c i \<longleftrightarrow> i < cache_size c \<and> int i \<notin> set (free_list c)"

text \<open>
  A slot in use sits in the recency list, owns a live page, is what the index maps its block to,
  and is in the global dirty list when it is dirty.
\<close>

definition slot_ok :: "cache \<Rightarrow> nat list \<Rightarrow> nat list \<Rightarrow> nat \<Rightarrow> bool" where
  "slot_ok c L G i \<longleftrightarrow>
     (\<exists>a \<in> set L. lru_pos (entries c ! i) = Some a \<and> idx_of (lru_heap c) a = Some (int i)) \<and>
     (\<exists>p. page_data (entries c ! i) = Some p \<and> pages c p \<noteq> None) \<and>
     pci_map (pci c) (ce_block_number (entries c ! i)) = Some i \<and>
     (dirty_bit (entries c ! i) \<longrightarrow>
        (\<exists>g \<in> set G. gdl_pos (entries c ! i) = Some g \<and> idx_of (gdl_heap c) g = Some (int i)))"

definition cinv :: "cache \<Rightarrow> nat list \<Rightarrow> nat list \<Rightarrow> bool" where
  "cinv c L G \<longleftrightarrow>
     length (entries c) = cache_size c \<and> cache_size c < 2 ^ 31 \<and>
     lru_ring c L \<and> gdl_ring c G \<and> pci_wf (pci c) \<and>
     distinct (free_list c) \<and> (\<forall>i \<in> set (free_list c). 0 \<le> i \<and> nat i < cache_size c) \<and>
     (\<forall>i. in_use c i \<longrightarrow> slot_ok c L G i) \<and>
     (\<forall>a \<in> set L. \<exists>i. in_use c i \<and> lru_pos (entries c ! i) = Some a) \<and>
     (\<forall>b i. pci_map (pci c) b = Some i \<longrightarrow> in_use c i \<and> ce_block_number (entries c ! i) = b) \<and>
     (\<forall>g \<in> set G. \<exists>i. in_use c i \<and> idx_of (gdl_heap c) g = Some (int i)) \<and>
     (\<forall>i j. in_use c i \<longrightarrow> in_use c j \<longrightarrow> page_data (entries c ! i) = page_data (entries c ! j) \<longrightarrow> i = j) \<and>
     (\<forall>a. pages c a \<noteq> None \<longrightarrow> a < brk c)"

definition cache_inv :: "cache \<Rightarrow> bool" where
  "cache_inv c \<longleftrightarrow> (\<exists>L G. cinv c L G)"

lemma cinvD:
  assumes "cinv c L G"
  shows "length (entries c) = cache_size c" and "cache_size c < 2 ^ 31" and "lru_ring c L" and "gdl_ring c G"
    and "pci_wf (pci c)" and "distinct (free_list c)"
    and "\<And>i. i \<in> set (free_list c) \<Longrightarrow> 0 \<le> i \<and> nat i < cache_size c"
    and "\<And>i. in_use c i \<Longrightarrow> slot_ok c L G i"
    and "\<And>a. a \<in> set L \<Longrightarrow> \<exists>i. in_use c i \<and> lru_pos (entries c ! i) = Some a"
    and "\<And>b i. pci_map (pci c) b = Some i \<Longrightarrow> in_use c i \<and> ce_block_number (entries c ! i) = b"
    and "\<And>g. g \<in> set G \<Longrightarrow> \<exists>i. in_use c i \<and> idx_of (gdl_heap c) g = Some (int i)"
    and "\<And>i j. in_use c i \<Longrightarrow> in_use c j \<Longrightarrow> page_data (entries c ! i) = page_data (entries c ! j) \<Longrightarrow> i = j"
    and "\<And>a. pages c a \<noteq> None \<Longrightarrow> a < brk c"
  using assms unfolding cinv_def by blast+

lemma in_use_less: "cinv c L G \<Longrightarrow> in_use c i \<Longrightarrow> i < length (entries c)"
  by (simp add: cinv_def in_use_def)

lemma entry_at_nat [simp]: "entry_at c (int i) = (if i < length (entries c) then Some (entries c ! i) else None)"
  by (simp add: entry_at_def)

lemma upd_entry_sel [simp]:
  "cache_size (upd_entry c i f) = cache_size c" "lru_size (upd_entry c i f) = lru_size c"
  "gdl_size (upd_entry c i f) = gdl_size c" "pci (upd_entry c i f) = pci c" "lru (upd_entry c i f) = lru c"
  "free_list (upd_entry c i f) = free_list c" "dirty_list (upd_entry c i f) = dirty_list c"
  "gdl (upd_entry c i f) = gdl c" "lru_heap (upd_entry c i f) = lru_heap c" "gdl_heap (upd_entry c i f) = gdl_heap c"
  "pages (upd_entry c i f) = pages c" "brk (upd_entry c i f) = brk c"
  "entries (upd_entry c i f) = (entries c)[i := f (entries c ! i)]"
  by (simp_all add: upd_entry_def set_entry_def)

lemma set_entry_sel [simp]:
  "cache_size (set_entry c i e) = cache_size c" "lru_size (set_entry c i e) = lru_size c"
  "gdl_size (set_entry c i e) = gdl_size c" "pci (set_entry c i e) = pci c" "lru (set_entry c i e) = lru c"
  "free_list (set_entry c i e) = free_list c" "dirty_list (set_entry c i e) = dirty_list c"
  "gdl (set_entry c i e) = gdl c" "lru_heap (set_entry c i e) = lru_heap c" "gdl_heap (set_entry c i e) = gdl_heap c"
  "pages (set_entry c i e) = pages c" "brk (set_entry c i e) = brk c"
  "entries (set_entry c i e) = (entries c)[i := e]"
  by (simp_all add: set_entry_def)

lemma lru_ring_mono:
  "lru_ring c L \<Longrightarrow> lru_heap c' = lru_heap c \<Longrightarrow> lru c' = lru c \<Longrightarrow> lru_size c' = lru_size c \<Longrightarrow>
   brk c \<le> brk c' \<Longrightarrow> lru_ring c' L"
  by (auto simp: lru_ring_def)

lemma gdl_ring_mono:
  "gdl_ring c L \<Longrightarrow> gdl_heap c' = gdl_heap c \<Longrightarrow> gdl c' = gdl c \<Longrightarrow> gdl_size c' = gdl_size c \<Longrightarrow>
   brk c \<le> brk c' \<Longrightarrow> gdl_ring c' L"
  by (auto simp: gdl_ring_def)

section \<open>Hits\<close>

text \<open>
  Moving the slot \<open>i\<close>, held by node \<open>a\<close>, to a new node \<open>n\<close> at the front of the recency list keeps
  the invariant: this is all a hit changes.
\<close>

lemma cinv_move_to_front:
  assumes inv: "cinv c L G" and i: "in_use c i" and a: "lru_pos (entries c ! i) = Some a"
    and sel: "cache_size c' = cache_size c" "free_list c' = free_list c" "pci c' = pci c" "pages c' = pages c"
      "gdl_heap c' = gdl_heap c" "gdl c' = gdl c" "gdl_size c' = gdl_size c"
    and es: "entries c' = (entries c)[i := (entries c ! i)\<lparr>lru_pos := Some n\<rparr>]"
    and ring: "lru_ring c' (n # remove1 a L)" and b': "brk c \<le> brk c'"
    and idn: "idx_of (lru_heap c') n = Some (int i)"
    and id: "\<And>x. x \<in> set (remove1 a L) \<Longrightarrow> idx_of (lru_heap c') x = idx_of (lru_heap c) x"
  shows "cinv c' (n # remove1 a L) G"
proof -
  note I = cinvD [OF inv]
  have il: "i < length (entries c)" using in_use_less [OF inv i] .
  have u: "in_use c' j = in_use c j" for j by (simp add: in_use_def sel)
  have dist: "distinct L" using I(3) by (simp add: lru_ring_def ring_list_def ring_def)
  have e: "entries c' ! j = (if j = i then (entries c ! i)\<lparr>lru_pos := Some n\<rparr> else entries c ! j)" for j
    using il by (simp add: es nth_list_update)
  have ok: "slot_ok c' (n # remove1 a L) G j" if j: "in_use c' j" for j
  proof -
    have s: "slot_ok c L G j" using I(8) j u by blast
    have "\<exists>x \<in> set (n # remove1 a L). lru_pos (entries c' ! j) = Some x \<and> idx_of (lru_heap c') x = Some (int j)"
    proof (cases "j = i")
      case True
      then show ?thesis using idn by (simp add: e)
    next
      case False
      from s obtain x where x: "x \<in> set L" "lru_pos (entries c ! j) = Some x" "idx_of (lru_heap c) x = Some (int j)"
        by (auto simp: slot_ok_def)
      have "idx_of (lru_heap c) a = Some (int i)" using I(8) [OF i] a by (auto simp: slot_ok_def)
      with x False have "x \<noteq> a" by auto
      with x have "x \<in> set (remove1 a L)" by simp
      with x False id show ?thesis by (auto simp: e)
    qed
    with s show ?thesis by (auto simp: slot_ok_def e sel)
  qed
  have bck: "\<exists>j. in_use c' j \<and> lru_pos (entries c' ! j) = Some x" if x: "x \<in> set (n # remove1 a L)" for x
  proof (cases "x = n")
    case True
    then show ?thesis using i u by (auto simp: e)
  next
    case False
    with x have xl: "x \<in> set L" "x \<noteq> a" using dist by (auto dest: notin_set_remove1)
    then obtain j where "in_use c j" "lru_pos (entries c ! j) = Some x" using I(9) by blast
    with xl a u show ?thesis by (intro exI [of _ j]) (auto simp: e)
  qed
  have pg: "j = k" if "in_use c' j" "in_use c' k" "page_data (entries c' ! j) = page_data (entries c' ! k)" for j k
    using I(12) [of j k] that by (auto simp: e u split: if_splits)
  have g: "gdl_ring c' G" using gdl_ring_mono [OF I(4)] b' by (simp add: sel)
  show ?thesis
    unfolding cinv_def
  proof (intro conjI)
    show "\<forall>b j. pci_map (pci c') b = Some j \<longrightarrow> in_use c' j \<and> ce_block_number (entries c' ! j) = b"
      using I(10) by (auto simp: e u sel)
    show "\<forall>g \<in> set G. \<exists>j. in_use c' j \<and> idx_of (gdl_heap c') g = Some (int j)"
      using I(11) by (auto simp: u sel)
    show "\<forall>x. pages c' x \<noteq> None \<longrightarrow> x < brk c'"
      using I(13) b' by (fastforce simp: sel)
  qed (use I ok bck pg g ring in \<open>auto simp: sel es\<close>)
qed

section \<open>Loading into a free slot\<close>

lemma cinv_load:
  assumes inv: "cinv c L G" and fl: "free_list c = int i # fl" and new: "pci_map (pci c) pnum = None"
    and sel: "cache_size c' = cache_size c" "free_list c' = fl" "pci c' = pci_insert (pci c) pnum (of_nat i)"
      "pages c' = (pages c)(p \<mapsto> x)" "gdl_heap c' = gdl_heap c" "gdl c' = gdl c" "gdl_size c' = gdl_size c"
    and es: "entries c' = (entries c)[i := e]"
    and e: "\<not> dirty_bit e" "ce_block_number e = pnum" "page_data e = Some p" "lru_pos e = Some n"
    and ring: "lru_ring c' (n # L)" and brk: "brk c \<le> p" "p < brk c'"
    and idn: "idx_of (lru_heap c') n = Some (int i)"
    and id: "\<And>a. a \<in> set L \<Longrightarrow> idx_of (lru_heap c') a = idx_of (lru_heap c) a"
  shows "cinv c' (n # L) G"
proof -
  note I = cinvD [OF inv]
  have i: "i < cache_size c" using I(7) [of "int i"] fl by simp
  have il: "i < length (entries c)" using i I(1) by simp
  have u: "in_use c' j \<longleftrightarrow> j = i \<or> in_use c j" for j
    using I(6) i by (auto simp: in_use_def sel fl)
  have ni: "\<not> in_use c i" by (simp add: in_use_def fl)
  have ee: "entries c' ! j = (if j = i then e else entries c ! j)" for j
    using il by (simp add: es nth_list_update)
  have ui: "unat (of_nat i :: u64) = i" using i I(2) by (simp add: unat_of_nat take_bit_nat_eq_self)
  have pm: "pci_map (pci c') = (pci_map (pci c))(pnum \<mapsto> i)"
    using pci.insert_assoc [OF I(5), of pnum "of_nat i"] by (simp only: sel ui)
  have wf: "pci_wf (pci c')"
    using pci.insert_inv [OF I(5) new, of "of_nat i"] i I(2) by (simp add: sel ui)
  have fresh: "pages c q \<noteq> None \<Longrightarrow> q \<noteq> p" for q using I(13) [of q] brk(1) by auto
  have ok: "slot_ok c' (n # L) G j" if j: "in_use c' j" for j
  proof (cases "j = i")
    case True
    then show ?thesis using e idn by (simp add: slot_ok_def ee pm sel(4))
  next
    case False
    then have s: "slot_ok c L G j" using I(8) j u by blast
    then have "ce_block_number (entries c ! j) \<noteq> pnum" using new by (auto simp: slot_ok_def)
    with s False id show ?thesis by (auto simp: slot_ok_def ee pm sel(4,5))
  qed
  have lp: "\<exists>j. in_use c' j \<and> lru_pos (entries c' ! j) = Some a" if a: "a \<in> set (n # L)" for a
  proof (cases "a = n")
    case True
    then show ?thesis using e u by (auto simp: ee)
  next
    case False
    with a I(9) obtain j where "in_use c j" "lru_pos (entries c ! j) = Some a" by auto
    with ni u show ?thesis by (intro exI [of _ j]) (auto simp: ee)
  qed
  have live: "\<exists>q. page_data (entries c ! j) = Some q \<and> q \<noteq> p" if "in_use c j" for j
    using I(8) [OF that] fresh by (auto simp: slot_ok_def)
  have pg: "j = k" if jk: "in_use c' j" "in_use c' k" "page_data (entries c' ! j) = page_data (entries c' ! k)" for j k
  proof -
    have "j = i \<longleftrightarrow> k = i"
      using jk live [of j] live [of k] e(3) unfolding ee u by (auto split: if_splits)
    then show ?thesis using jk I(12) [of j k] unfolding ee u by (auto split: if_splits)
  qed
  have g: "gdl_ring c' G" using gdl_ring_mono [OF I(4)] brk by (simp add: sel)
  show ?thesis
    unfolding cinv_def
  proof (intro conjI)
    show "\<forall>b j. pci_map (pci c') b = Some j \<longrightarrow> in_use c' j \<and> ce_block_number (entries c' ! j) = b"
      using I(10) ni e(2) by (auto simp: ee u pm split: if_splits)
    show "\<forall>g \<in> set G. \<exists>j. in_use c' j \<and> idx_of (gdl_heap c') g = Some (int j)"
      using I(11) by (auto simp: u sel)
    show "\<forall>q. pages c' q \<noteq> None \<longrightarrow> q < brk c'"
      using I(13) brk by (fastforce simp: sel)
    show "distinct (free_list c')" "\<forall>j \<in> set (free_list c'). 0 \<le> j \<and> nat j < cache_size c'"
      using I(6,7) fl by (auto simp: sel)
  qed (use I ok lp pg g ring wf in \<open>auto simp: sel(1) es\<close>)
qed

section \<open>Dirty tracking, pins and page contents\<close>

text \<open>Changing the contents of a live page, the dirty list of an inode or a pin count keeps the invariant.\<close>

lemma cinv_pages:
  assumes "cinv c L G" and "pages c p \<noteq> None"
  shows "cinv (c\<lparr>pages := (pages c)(p \<mapsto> x)\<rparr>) L G"
proof -
  note I = cinvD [OF assms(1)]
  let ?c = "c\<lparr>pages := (pages c)(p \<mapsto> x)\<rparr>"
  have u: "in_use ?c j = in_use c j" for j by (simp add: in_use_def)
  have "slot_ok ?c L G j" if "in_use c j" for j
    using I(8) [OF that] by (fastforce simp: slot_ok_def)
  moreover have "lru_ring ?c L" "gdl_ring ?c G"
    using lru_ring_mono [OF I(3)] gdl_ring_mono [OF I(4)] by simp_all
  moreover have "\<forall>a. pages ?c a \<noteq> None \<longrightarrow> a < brk ?c" using I(13) assms(2) by simp
  ultimately show ?thesis using I unfolding cinv_def u by simp
qed

lemma cinv_dirty_list [simp]: "cinv (c\<lparr>dirty_list := d\<rparr>) L G = cinv c L G"
  by (simp add: cinv_def slot_ok_def in_use_def lru_ring_def gdl_ring_def)

lemma cinv_entry:
  assumes inv: "cinv c L G" and i: "i < length (entries c)"
    and f: "ce_block_number (f (entries c ! i)) = ce_block_number (entries c ! i)"
      "page_data (f (entries c ! i)) = page_data (entries c ! i)" "lru_pos (f (entries c ! i)) = lru_pos (entries c ! i)"
    and g: "in_use c i \<Longrightarrow> dirty_bit (f (entries c ! i)) \<Longrightarrow>
      \<exists>g \<in> set G. gdl_pos (f (entries c ! i)) = Some g \<and> idx_of (gdl_heap c) g = Some (int i)"
  shows "cinv (upd_entry c i f) L G"
proof -
  note I = cinvD [OF inv]
  let ?c = "upd_entry c i f"
  have e: "entries ?c ! j = (if j = i then f (entries c ! i) else entries c ! j)" for j
    using i by (simp add: nth_list_update)
  have u: "in_use ?c j = in_use c j" for j by (simp add: in_use_def)
  have ok: "slot_ok ?c L G j" if "in_use c j" for j
    using I(8) [OF that] f g that unfolding slot_ok_def e by (cases "j = i") auto
  have pg: "j = k" if "in_use c j" "in_use c k" "page_data (entries ?c ! j) = page_data (entries ?c ! k)" for j k
    using I(12) [of j k] that f(2) unfolding e by (auto split: if_splits)
  show ?thesis
    unfolding cinv_def u
  proof (intro conjI)
    show "\<forall>a \<in> set L. \<exists>j. in_use c j \<and> lru_pos (entries ?c ! j) = Some a"
      using I(9) f(3) unfolding e by (metis (full_types))
    show "\<forall>b j. pci_map (pci ?c) b = Some j \<longrightarrow> in_use c j \<and> ce_block_number (entries ?c ! j) = b"
      using I(10) f(1) unfolding e by auto
    show "lru_ring ?c L" "gdl_ring ?c G"
      using lru_ring_mono [OF I(3)] gdl_ring_mono [OF I(4)] by simp_all
  qed (use I ok pg in auto)
qed

text \<open>Pushing slot \<open>i\<close> on the global dirty list and pointing the entry at the new node.\<close>

lemma cinv_gdl_push:
  assumes inv: "cinv c L G" and i: "in_use c i"
  obtains n c' where "gdl_push c (int i) = Some (n, c')"
    and "cinv (upd_entry (c'\<lparr>gdl := Some n\<rparr>) i (\<lambda>e. e\<lparr>gdl_pos := Some n\<rparr>)) L (n # G)"
    and "entries c' = entries c" "pages c' = pages c" "pci c' = pci c" "free_list c' = free_list c"
      "cache_size c' = cache_size c" "dirty_list c' = dirty_list c"
    and "idx_of (gdl_heap c') n = Some (int i)"
    and "\<And>g. g \<in> set G \<Longrightarrow> idx_of (gdl_heap c') g = idx_of (gdl_heap c) g"
proof -
  note I = cinvD [OF inv]
  obtain h where h: "gdl_push c (int i) = Some (brk c, c\<lparr>gdl_heap := h, gdl_size := gdl_size c + 1, brk := brk c + 1\<rparr>)"
      "gdl_ring (c\<lparr>gdl_heap := h, gdl_size := gdl_size c + 1, brk := brk c + 1, gdl := Some (brk c)\<rparr>) (brk c # G)"
      "\<And>a. idx_of h a = (if a = brk c then Some (int i) else idx_of (gdl_heap c) a)" "brk c \<notin> set G"
    using gdl_push_ok [OF I(4), of "int i"] by blast
  let ?c = "c\<lparr>gdl_heap := h, gdl_size := gdl_size c + 1, brk := brk c + 1\<rparr>"
  let ?d = "?c\<lparr>gdl := Some (brk c)\<rparr>"
  have ix: "g \<in> set G \<Longrightarrow> idx_of h g = idx_of (gdl_heap c) g" for g using h(3,4) by auto
  have u: "in_use ?d j = in_use c j" for j by (simp add: in_use_def)
  have "slot_ok ?d L (brk c # G) j" if "in_use c j" for j
    using I(8) [OF that] ix by (fastforce simp: slot_ok_def)
  moreover have "\<forall>g \<in> set (brk c # G). \<exists>j. in_use c j \<and> idx_of (gdl_heap ?d) g = Some (int j)"
    using I(11) i h(3) ix by auto
  moreover have "lru_ring ?d L" using lru_ring_mono [OF I(3)] by simp
  moreover have "\<forall>a. pages ?d a \<noteq> None \<longrightarrow> a < brk ?d" using I(13) by fastforce
  ultimately have "cinv ?d L (brk c # G)"
    using I h(2) unfolding cinv_def u by simp
  then have "cinv (upd_entry ?d i (\<lambda>e. e\<lparr>gdl_pos := Some (brk c)\<rparr>)) L (brk c # G)"
    using in_use_less [OF inv i] h(3) by (intro cinv_entry) auto
  with h(1,3) ix show thesis by (intro that [of "brk c" ?c]) auto
qed

end
