(* ===== verification/Cache_View.thy ===== *)
theory Cache_View
  imports Cache_Inv
begin

text \<open>
  What the cache means to its clients: the contents of every block, cached or not, as one map
  \<open>view\<close>, and the pointers that designate a block. The operations either leave the view alone or
  change it at one block; the locale \<open>block_store\<close> states this contract and proves the access
  patterns of the layers above once, and its interpretation discharges it for the cache.
\<close>

section \<open>Hits and loads\<close>

definition page_of :: "cache \<Rightarrow> nat \<Rightarrow> nat" where
  "page_of c i = the (page_data (entries c ! i))"

text \<open>The fields a change of recency leaves alone.\<close>

definition same_but_lru :: "cache \<Rightarrow> cache \<Rightarrow> bool" where
  "same_but_lru c c' \<longleftrightarrow> cache_size c' = cache_size c \<and> pci c' = pci c \<and> free_list c' = free_list c \<and>
     dirty_list c' = dirty_list c \<and> pages c' = pages c \<and> gdl c' = gdl c \<and> gdl_size c' = gdl_size c \<and>
     gdl_heap c' = gdl_heap c \<and>
     (\<forall>j. entries c' ! j = (entries c ! j)\<lparr>lru_pos := lru_pos (entries c' ! j)\<rparr>)"

lemma touch_block_ok:
  assumes inv: "cinv (cache_s s) L G" and i: "in_use (cache_s s) i"
  obtains c' a n where "touch_block s (int i) = Some (PagePtr (page_of (cache_s s) i), s\<lparr>cache_s := c'\<rparr>)"
    and "cinv c' (n # remove1 a L) G" and "lru_pos (entries (cache_s s) ! i) = Some a" and "a \<in> set L"
    and "same_but_lru (cache_s s) c'"
    and "lru.order c' (n # remove1 a L) = int i # lru.order (cache_s s) (remove1 a L)"
proof -
  let ?c = "cache_s s"
  note I = cinvD [OF inv]
  have il: "i < length (entries ?c)" by (rule in_use_less [OF inv i])
  obtain a p where a: "a \<in> set L" "lru_pos (entries ?c ! i) = Some a" "idx_of (lru_heap ?c) a = Some (int i)"
      and p: "page_data (entries ?c ! i) = Some p"
    using I(8) [OF i] by (auto simp: slot_ok_def)
  have ld: "lru_load ?c (LruEntry i) = Some (Some a)" using a il by simp
  obtain k h v hd' where pop: "idx_of (lru_heap ?c) a = Some k"
      "lru_pop ?c (LruEntry i) = Some (k, lru_store v (LruEntry i)
         (?c\<lparr>lru_heap := h, lru := hd', lru_size := lru_size ?c - 1\<rparr>))"
      "lru_ring (?c\<lparr>lru_heap := h, lru := hd', lru_size := lru_size ?c - 1\<rparr>) (remove1 a L)"
      "\<And>x. x \<noteq> a \<Longrightarrow> idx_of h x = idx_of (lru_heap ?c) x"
    by (rule lru_pop_ok [OF I(3) a(1) ld]) (rule that)
  have k: "k = int i" using pop(1) a(3) by simp
  define c1 where "c1 = lru_store v (LruEntry i) (?c\<lparr>lru_heap := h, lru := hd', lru_size := lru_size ?c - 1\<rparr>)"
  have r1: "lru_ring c1 (remove1 a L)" using pop(3) by (simp add: c1_def del: lru_store.simps)
  obtain h2 where push: "lru_push c1 (int i) = Some (brk c1, c1\<lparr>lru_heap := h2, lru_size := lru_size c1 + 1, brk := brk c1 + 1\<rparr>)"
      "lru_ring (c1\<lparr>lru_heap := h2, lru_size := lru_size c1 + 1, brk := brk c1 + 1, lru := Some (brk c1)\<rparr>) (brk c1 # remove1 a L)"
      "\<And>x. idx_of h2 x = (if x = brk c1 then Some (int i) else idx_of (lru_heap c1) x)"
      "brk c1 \<notin> set (remove1 a L)"
    using lru_push_ok [OF r1, of "int i"] by blast
  let ?n = "brk c1"
  define c' where "c' = (upd_entry (c1\<lparr>lru_heap := h2, lru_size := lru_size c1 + 1, brk := ?n + 1\<rparr>) i
      (\<lambda>e. e\<lparr>lru_pos := Some ?n\<rparr>))\<lparr>lru := Some ?n\<rparr>"
  have es: "entries c' = (entries ?c)[i := (entries ?c ! i)\<lparr>lru_pos := Some ?n\<rparr>]"
    using il by (simp add: c'_def c1_def)
  have t: "touch_block s (int i) = Some (PagePtr (page_of ?c i), s\<lparr>cache_s := c'\<rparr>)"
  proof -
    have "i < length (entries c1)" and "page_data (entries c1 ! i) = Some p" using il p by (simp_all add: c1_def)
    then show ?thesis
      using il pop(2) [folded c1_def] push(1) p k by (simp add: touch_block_def Let_def c'_def page_of_def)
  qed
  have dist: "distinct L" using I(3) by (simp add: lru_ring_def ring_list_def ring_def)
  have idx: "idx_of (lru_heap c') x = idx_of (lru_heap ?c) x" if "x \<in> set (remove1 a L)" for x
  proof -
    have "x \<noteq> a" using that dist by auto
    moreover have "x \<noteq> ?n" using that push(4) by auto
    ultimately show ?thesis using push(3) pop(4) by (simp add: c'_def c1_def)
  qed
  have idn: "idx_of (lru_heap c') ?n = Some (int i)" using push(3) by (simp add: c'_def)
  have rc: "lru_ring c' (?n # remove1 a L)"
    using lru_ring_mono [OF push(2), of c'] by (simp add: c'_def)
  have ci: "cinv c' (?n # remove1 a L) G"
    by (rule cinv_move_to_front [OF inv i a(2)]) (use es rc idx idn in \<open>auto simp: c'_def c1_def\<close>)
  have sm: "same_but_lru ?c c'"
    using il by (auto simp: same_but_lru_def es nth_list_update) (simp_all add: c'_def c1_def)
  have "lru.order c' (?n # remove1 a L) = int i # lru.order ?c (remove1 a L)"
    using idx idn by (auto simp: lru.order_def)
  with t ci a sm show thesis by (intro that)
qed

text \<open>In the recency order, removing a slot is removing its node.\<close>

lemma lru_order_remove:
  assumes inv: "cinv c L G" and i: "in_use c i" and a: "lru_pos (entries c ! i) = Some a"
  shows "lru.order c (remove1 a L) = remove1 (int i) (lru.order c L)"
proof -
  have ai: "a \<in> set L" "idx_of (lru_heap c) a = Some (int i)" using cinvD(8) [OF inv i] a by (auto simp: slot_ok_def)
  have "the (idx_of (lru_heap c) x) \<noteq> int i" if x: "x \<in> set L" "x \<noteq> a" for x
  proof -
    obtain j where j: "in_use c j" "lru_pos (entries c ! j) = Some x" using cinvD(9) [OF inv x(1)] by blast
    then have "idx_of (lru_heap c) x = Some (int j)" using cinvD(8) [OF inv j(1)] by (auto simp: slot_ok_def)
    with j(2) a x(2) show ?thesis by auto
  qed
  then show ?thesis
    unfolding lru.order_def using remove1_map_key [of L a "\<lambda>x. the (idx_of (lru_heap c) x)"] ai by simp
qed

lemma load_block_ok:
  assumes inv: "cinv (cache_s s) L G" and fl: "free_list (cache_s s) = idx # fl"
    and new: "pci_map (pci (cache_s s)) pnum = None"
    and adr: "addressable s" "unat pnum < nblocks s"
  obtains c' n i where "idx = int i" and "i < cache_size (cache_s s)"
    and "load_block s inum pnum = Some (PagePtr (brk (cache_s s)), s\<lparr>cache_s := c'\<rparr>)"
    and "cinv c' (n # L) G"
    and "pci_map (pci c') = (pci_map (pci (cache_s s)))(pnum \<mapsto> i)"
    and "pages c' = (pages (cache_s s))(brk (cache_s s) \<mapsto> disk_base (disk s) (unat pnum))"
    and "entries c' = (entries (cache_s s))[i := (entries (cache_s s) ! i)\<lparr>dirty_bit := False, pin_count := 0,
           ce_block_number := pnum, ce_inode_number := inum, page_data := Some (brk (cache_s s)), lru_pos := Some n\<rparr>]"
    and "cache_size c' = cache_size (cache_s s)" and "free_list c' = fl" and "dirty_list c' = dirty_list (cache_s s)"
    and "lru.order c' (n # L) = int i # lru.order (cache_s s) L" and "pci c' = pci_insert (pci (cache_s s)) pnum (of_nat i)"
proof -
  let ?c = "cache_s s"
  let ?a = "brk ?c"
  let ?x = "disk_base (disk s) (unat pnum)"
  note I = cinvD [OF inv]
  obtain i where i: "idx = int i" "i < cache_size ?c"
    using I(7) [of idx] fl by (metis list.set_intros(1) nat_0_le)
  have il: "i < length (entries ?c)" using i I(1) by simp
  let ?e = "(entries ?c ! i)\<lparr>dirty_bit := False, pin_count := 0, ce_block_number := pnum, ce_inode_number := inum,
               page_data := Some ?a\<rparr>"
  define c1 where "c1 = (set_entry (?c\<lparr>free_list := fl, pages := (pages ?c)(?a \<mapsto> (\<lambda>_. 0)), brk := ?a + 1\<rparr>) i ?e)
      \<lparr>pages := (pages ?c)(?a \<mapsto> ?x)\<rparr>"
  have rd: "disk_read_block (s\<lparr>cache_s := set_entry (?c\<lparr>free_list := fl, pages := (pages ?c)(?a \<mapsto> (\<lambda>_. 0)), brk := ?a + 1\<rparr>) i ?e\<rparr>)
      pnum (PagePtr ?a) = Some (0, s\<lparr>cache_s := c1\<rparr>)"
  proof -
    let ?t = "s\<lparr>cache_s := set_entry (?c\<lparr>free_list := fl, pages := (pages ?c)(?a \<mapsto> (\<lambda>_. 0)), brk := ?a + 1\<rparr>) i ?e\<rparr>"
    have "addressable ?t" "unat pnum < nblocks ?t" using adr by (simp_all add: addressable_def nblocks_def)
    from disk_get_block_ok [OF this] this show ?thesis
      by (simp add: disk_read_block_def c1_def)
  qed
  have r1: "lru_ring c1 L" using lru_ring_mono [OF I(3), of c1] by (simp add: c1_def)
  obtain h where push: "lru_push c1 (int i) = Some (brk c1, c1\<lparr>lru_heap := h, lru_size := lru_size c1 + 1, brk := brk c1 + 1\<rparr>)"
      "lru_ring (c1\<lparr>lru_heap := h, lru_size := lru_size c1 + 1, brk := brk c1 + 1, lru := Some (brk c1)\<rparr>) (brk c1 # L)"
      "\<And>x. idx_of h x = (if x = brk c1 then Some (int i) else idx_of (lru_heap c1) x)" "brk c1 \<notin> set L"
    using lru_push_ok [OF r1, of "int i"] by blast
  let ?n = "brk c1"
  define c2 where "c2 = (upd_entry (c1\<lparr>lru_heap := h, lru_size := lru_size c1 + 1, brk := ?n + 1\<rparr>) i
      (\<lambda>e. e\<lparr>lru_pos := Some ?n\<rparr>))\<lparr>lru := Some ?n\<rparr>"
  define c' where "c' = c2\<lparr>pci := pci_insert (pci c2) pnum (of_nat i)\<rparr>"
  have es: "entries c' = (entries ?c)[i := ?e\<lparr>lru_pos := Some ?n\<rparr>]"
    using il by (simp add: c'_def c2_def c1_def)
  have lb: "load_block s inum pnum = Some (PagePtr ?a, s\<lparr>cache_s := c'\<rparr>)"
    using fl i il rd push(1)
    by (simp add: load_block_def Let_def c2_def c'_def)
  have idx': "idx_of (lru_heap c') x = idx_of (lru_heap ?c) x" if "x \<in> set L" for x
    using that push(3,4) by (auto simp: c'_def c2_def c1_def)
  have idn: "idx_of (lru_heap c') ?n = Some (int i)" using push(3) by (simp add: c'_def c2_def)
  have rc: "lru_ring c' (?n # L)"
    using lru_ring_mono [OF push(2), of c'] by (simp add: c'_def c2_def)
  have ci: "cinv c' (?n # L) G"
    by (rule cinv_load [OF inv fl [unfolded i(1)] new, where p = ?a and x = ?x and e = "?e\<lparr>lru_pos := Some ?n\<rparr>"])
      (use es rc idx' idn in \<open>auto simp: c'_def c2_def c1_def\<close>)
  have ui: "unat (of_nat i :: u64) = i" using i I(2) by (simp add: unat_of_nat take_bit_nat_eq_self)
  have pm: "pci_map (pci c') = (pci_map (pci ?c))(pnum \<mapsto> i)"
    using pci.insert_assoc [OF I(5), of pnum "of_nat i"] ui by (simp add: c'_def c2_def c1_def)
  have "lru.order c' (?n # L) = int i # lru.order ?c L"
    using idx' idn by (auto simp: lru.order_def)
  with i lb ci pm es show thesis
    by (intro that [of i c' ?n]) (simp_all add: c'_def c2_def c1_def)
qed

end
