(* ===== verification/Store.thy ===== *)
theory Store
  imports Cache_View
begin

text \<open>
  The block store as the layers above the cache see it. \<open>view s b\<close> is the current contents of block
  \<open>b\<close>, \<open>disk_image s\<close> what the disk holds, \<open>points s p b\<close> says that the pointer \<open>p\<close> designates block \<open>b\<close>.

  The contract holds on disks that fit the cache (\<open>store_ok\<close>): then no call of \<open>get_block\<close> evicts.
  The smallest cache \<^verbatim>\<open>alloc_cache\<close> builds has 16384 entries, so this covers every image of up to
  64 MiB, and every addressable image when the cache is compiled out. Eviction is treated
  separately, in the theory of evictions.
\<close>

section \<open>Contents and pointers\<close>

definition disk_image :: "fs \<Rightarrow> nat \<Rightarrow> block" where
  "disk_image s = disk_base (disk s)"

definition view :: "fs \<Rightarrow> u64 \<Rightarrow> block" where
  "view s b =
     (if cache_disabled s then disk_image s (unat b)
      else case pci_map (pci (cache_s s)) b of
             None \<Rightarrow> disk_image s (unat b)
           | Some i \<Rightarrow> the (pages (cache_s s) (page_of (cache_s s) i)))"

definition points :: "fs \<Rightarrow> ptr \<Rightarrow> u64 \<Rightarrow> bool" where
  "points s p b \<longleftrightarrow>
     (if cache_disabled s then p = DiskPtr (unat b) \<and> unat b < nblocks s
      else \<exists>i. pci_map (pci (cache_s s)) b = Some i \<and> p = PagePtr (page_of (cache_s s) i))"

text \<open>A free slot has no page; evicted slots keep a stale pointer, but they are reused at once.\<close>

definition tidy :: "cache \<Rightarrow> bool" where
  "tidy c \<longleftrightarrow> (\<forall>x \<in> set (free_list c). page_data (entries c ! nat x) = None)"

definition store_ok :: "fs \<Rightarrow> bool" where
  "store_ok s \<longleftrightarrow> \<not> lock_held s \<and> addressable s \<and>
     (cache_disabled s \<or>
      cache_inv (cache_s s) \<and> tidy (cache_s s) \<and> nblocks s \<le> cache_size (cache_s s) \<and>
      (\<forall>b. pci_map (pci (cache_s s)) b \<noteq> None \<longrightarrow> unat b < nblocks s))"

section \<open>The contract\<close>

locale block_view =
  fixes ok :: "'s \<Rightarrow> bool"
    and view :: "'s \<Rightarrow> u64 \<Rightarrow> block"
    and image :: "'s \<Rightarrow> nat \<Rightarrow> block"
    and points :: "'s \<Rightarrow> 'p \<Rightarrow> u64 \<Rightarrow> bool"
    and limit :: "'s \<Rightarrow> nat"
    and direct :: "'s \<Rightarrow> bool"
    and dirty :: "'s \<Rightarrow> u64 \<Rightarrow> bool"
    and listed :: "'s \<Rightarrow> bool"
    and queued :: "'s \<Rightarrow> u64 \<Rightarrow> u64 \<Rightarrow> bool"
  assumes direct_view: "ok s \<Longrightarrow> direct s \<Longrightarrow> view s b = image s (unat b)"
    and points_limit: "ok s \<Longrightarrow> points s p b \<Longrightarrow> unat b < limit s"
begin

text \<open>
  A step keeps every pointer valid, every dirty block dirty and, while the lists of blocks to write for
  each inode are in order, every block in its list; a silent step changes no contents either.
\<close>

definition keeps :: "'s \<Rightarrow> 's \<Rightarrow> bool" where
  "keeps s s' \<longleftrightarrow> ok s' \<and> limit s' = limit s \<and> direct s' = direct s \<and> (\<forall>p b. points s p b \<longrightarrow> points s' p b) \<and>
     (\<forall>b. dirty s b \<longrightarrow> dirty s' b) \<and> (listed s \<longrightarrow> listed s' \<and> (\<forall>i b. queued s i b \<longrightarrow> queued s' i b))"

definition silent :: "'s \<Rightarrow> 's \<Rightarrow> bool" where
  "silent s s' \<longleftrightarrow> keeps s s' \<and> view s' = view s \<and> image s' = image s"

text \<open>\<open>changes s s' b x\<close>: exactly block \<open>b\<close> was given the contents \<open>x\<close>, in the image only if it is accessed directly.\<close>

definition changes :: "'s \<Rightarrow> 's \<Rightarrow> u64 \<Rightarrow> block \<Rightarrow> bool" where
  "changes s s' b x \<longleftrightarrow> keeps s s' \<and> view s' = (view s)(b := x) \<and>
     image s' = (if direct s then (image s)(unat b := x) else image s)"

text \<open>\<open>flushes s s' b\<close>: the image of block \<open>b\<close> was brought up to date.\<close>

definition flushes :: "'s \<Rightarrow> 's \<Rightarrow> u64 \<Rightarrow> bool" where
  "flushes s s' b \<longleftrightarrow> keeps s s' \<and> view s' = view s \<and> image s' = (image s)(unat b := view s b)"

text \<open>\<open>updates s s' b x\<close>: block \<open>b\<close> was given the contents \<open>x\<close>, in the image too.\<close>

definition updates :: "'s \<Rightarrow> 's \<Rightarrow> u64 \<Rightarrow> block \<Rightarrow> bool" where
  "updates s s' b x \<longleftrightarrow> keeps s s' \<and> view s' = (view s)(b := x) \<and> image s' = (image s)(unat b := x)"

lemma keeps_trans: "keeps s t \<Longrightarrow> keeps t u \<Longrightarrow> keeps s u"
  by (auto simp: keeps_def)

lemma keepsD:
  assumes "keeps s s'"
  shows "ok s'" and "limit s' = limit s" and "direct s' = direct s" and "points s p b \<Longrightarrow> points s' p b"
    and "dirty s b \<Longrightarrow> dirty s' b" and "listed s \<Longrightarrow> listed s'" and "listed s \<Longrightarrow> queued s i b \<Longrightarrow> queued s' i b"
  using assms by (auto simp: keeps_def)

lemma silent_refl: "ok s \<Longrightarrow> silent s s"
  by (simp add: silent_def keeps_def)

lemma silent_trans: "silent s t \<Longrightarrow> silent t u \<Longrightarrow> silent s u"
  by (auto simp: silent_def intro: keeps_trans)

lemma silent_changes: "silent s t \<Longrightarrow> changes t u b x \<Longrightarrow> changes s u b x"
  by (auto simp: silent_def changes_def intro: keeps_trans dest: keepsD(3))

lemma changes_silent: "changes s t b x \<Longrightarrow> silent t u \<Longrightarrow> changes s u b x"
  by (auto simp: silent_def changes_def intro: keeps_trans)

lemma changes_changes: "changes s t b x \<Longrightarrow> changes t u b y \<Longrightarrow> changes s u b y"
  by (auto simp: changes_def intro: keeps_trans dest: keepsD(3))

lemma silent_updates: "silent s t \<Longrightarrow> updates t u b x \<Longrightarrow> updates s u b x"
  by (auto simp: silent_def updates_def intro: keeps_trans)

lemma updates_silent: "updates s t b x \<Longrightarrow> silent t u \<Longrightarrow> updates s u b x"
  by (auto simp: silent_def updates_def intro: keeps_trans)

text \<open>A change followed by a flush of the same block is durable.\<close>

lemma changes_flushes: "changes s t b x \<Longrightarrow> flushes t u b \<Longrightarrow> updates s u b x"
  by (auto simp: changes_def flushes_def updates_def intro: keeps_trans)

lemmas silentD = silent_def [THEN iffD1, THEN conjunct1]
  silent_def [THEN iffD1, THEN conjunct2, THEN conjunct1]
  silent_def [THEN iffD1, THEN conjunct2, THEN conjunct2]

lemmas changesD = changes_def [THEN iffD1, THEN conjunct1]
  changes_def [THEN iffD1, THEN conjunct2, THEN conjunct1]
  changes_def [THEN iffD1, THEN conjunct2, THEN conjunct2]

lemmas updatesD = updates_def [THEN iffD1, THEN conjunct1]
  updates_def [THEN iffD1, THEN conjunct2, THEN conjunct1]
  updates_def [THEN iffD1, THEN conjunct2, THEN conjunct2]

lemmas flushesD = flushes_def [THEN iffD1, THEN conjunct1]
  flushes_def [THEN iffD1, THEN conjunct2, THEN conjunct1]
  flushes_def [THEN iffD1, THEN conjunct2, THEN conjunct2]

text \<open>
  A block is stale when its image is out of date and nothing will bring it up to date. A change may
  make its block stale; no other step makes any.
\<close>

definition stale :: "'s \<Rightarrow> u64 \<Rightarrow> bool" where
  "stale s b \<longleftrightarrow> view s b \<noteq> image s (unat b) \<and> \<not> dirty s b"

lemma stale_silent: "silent s s' \<Longrightarrow> stale s' b \<Longrightarrow> stale s b"
  by (auto simp: stale_def silent_def keeps_def)

lemma stale_updates: "updates s s' d x \<Longrightarrow> stale s' b \<Longrightarrow> stale s b \<and> b \<noteq> d"
  by (cases "b = d") (auto simp: stale_def updates_def keeps_def word_unat_eq_iff)

lemma stale_flushes: "flushes s s' d \<Longrightarrow> stale s' b \<Longrightarrow> stale s b \<and> b \<noteq> d"
  by (cases "b = d") (auto simp: stale_def flushes_def keeps_def word_unat_eq_iff)

lemma stale_changes: "changes s s' d x \<Longrightarrow> stale s' b \<Longrightarrow> stale s b \<or> b = d"
  by (cases "b = d") (auto simp: stale_def changes_def keeps_def word_unat_eq_iff split: if_splits)

text \<open>The image of a block is up to date.\<close>

definition durable :: "'s \<Rightarrow> u64 \<Rightarrow> bool" where
  "durable s b \<longleftrightarrow> image s (unat b) = view s b"

lemma durable_silent: "silent s s' \<Longrightarrow> durable s' b \<longleftrightarrow> durable s b"
  by (simp add: durable_def silent_def)

lemma durable_updates: "updates s s' d x \<Longrightarrow> durable s' b \<longleftrightarrow> durable s b \<or> b = d"
  by (cases "b = d") (simp_all add: durable_def updates_def word_unat_eq_iff)

end

locale block_store = block_view ok view image points limit direct dirty listed queued
  for ok :: "'s \<Rightarrow> bool" and view image and points :: "'s \<Rightarrow> 'p \<Rightarrow> u64 \<Rightarrow> bool" and limit direct dirty listed queued +
  fixes get :: "'s \<Rightarrow> u64 \<Rightarrow> u64 \<Rightarrow> ('p \<times> 's) option"
    and load :: "'s \<Rightarrow> 'p \<Rightarrow> block option"
    and store :: "'s \<Rightarrow> 'p \<Rightarrow> block \<Rightarrow> 's option"
    and put :: "'s \<Rightarrow> 'p \<Rightarrow> u64 \<Rightarrow> u64 \<Rightarrow> 's option"
    and through :: "'s \<Rightarrow> u64 \<Rightarrow> 'p \<Rightarrow> 's option"
    and pin :: "'s \<Rightarrow> u64 \<Rightarrow> u64 \<Rightarrow> 's option"
    and unpin :: "'s \<Rightarrow> u64 \<Rightarrow> u64 \<Rightarrow> 's option"
  assumes get_silent: "ok s \<Longrightarrow> unat b < limit s \<Longrightarrow> \<exists>p s'. get s i b = Some (p, s') \<and> silent s s' \<and> points s' p b"
    and load_view: "ok s \<Longrightarrow> points s p b \<Longrightarrow> load s p = Some (view s b)"
    and store_changes: "ok s \<Longrightarrow> points s p b \<Longrightarrow> \<exists>s'. store s p x = Some s' \<and> changes s s' b x"
    and put_marks: "ok s \<Longrightarrow> points s p b \<Longrightarrow> \<exists>s'. put s p i b = Some s' \<and> silent s s' \<and> (direct s \<or>
        dirty s' b \<and> (listed s \<longrightarrow> btype (view s b) = BLOCK_TYPE_DATA \<longrightarrow> queued s' i b))"
    and through_flushes: "ok s \<Longrightarrow> points s p b \<Longrightarrow> \<exists>s'. through s b p = Some s' \<and> flushes s s' b"
    and pin_silent: "ok s \<Longrightarrow> unat b < limit s \<Longrightarrow> \<exists>s'. pin s i b = Some s' \<and> silent s s'"
    and unpin_silent: "ok s \<Longrightarrow> unat b < limit s \<Longrightarrow> \<exists>s'. unpin s i b = Some s' \<and> silent s s'"
begin

lemma get_load:
  assumes "ok s" and "unat b < limit s"
  obtains p s' where "get s i b = Some (p, s')" and "load s' p = Some (view s b)" and "silent s s'" and "points s' p b"
proof -
  obtain p s' where "get s i b = Some (p, s')" "silent s s'" "points s' p b" using get_silent [OF assms] by blast
  moreover from this have "load s' p = Some (view s b)" using load_view by (simp add: silent_def keeps_def)
  ultimately show thesis by (intro that)
qed

lemma put_silent: "ok s \<Longrightarrow> points s p b \<Longrightarrow> \<exists>s'. put s p i b = Some s' \<and> silent s s'"
  using put_marks by blast

text \<open>A store through a pointer, written back with \<open>put\<close> and \<open>pin\<close>, changes one block in the view.\<close>

lemma store_put_pin:
  assumes "ok s" and "points s p b"
  obtains s1 s2 s3 where "store s p x = Some s1" and "put s1 p i b = Some s2" and "pin s2 j b = Some s3"
    and "changes s s1 b x" and "changes s s2 b x" and "changes s s3 b x" and "direct s \<or> dirty s3 b"
    and "\<not> direct s \<Longrightarrow> listed s \<Longrightarrow> btype x = BLOCK_TYPE_DATA \<Longrightarrow> queued s2 i b \<and> queued s3 i b"
proof -
  obtain s1 where s1: "store s p x = Some s1" "changes s s1 b x" using store_changes [OF assms] by blast
  note k1 = keepsD [OF changesD(1) [OF s1(2)]]
  have x: "view s1 b = x" using s1(2) by (simp add: changes_def)
  obtain s2 where s2: "put s1 p i b = Some s2" "silent s1 s2" "direct s \<or> dirty s2 b"
      "\<not> direct s \<Longrightarrow> listed s \<Longrightarrow> btype x = BLOCK_TYPE_DATA \<Longrightarrow> queued s2 i b"
    using put_marks [OF k1(1) k1(4) [OF assms(2)], of i] k1(3,6) x by auto
  note k2 = keepsD [OF silentD(1) [OF s2(2)]]
  have "unat b < limit s2" using points_limit [OF assms] k1(2) k2(2) by simp
  then obtain s3 where s3: "pin s2 j b = Some s3" "silent s2 s3" using pin_silent [OF k2(1)] by blast
  note k3 = keepsD [OF silentD(1) [OF s3(2)]]
  have "direct s \<or> dirty s3 b" using s2(3) k3(5) by blast
  moreover have "queued s2 i b \<and> queued s3 i b" if "\<not> direct s" "listed s" "btype x = BLOCK_TYPE_DATA"
    using s2(4) [OF that] k3(7) [OF k2(6) [OF k1(6) [OF that(2)]]] by blast
  ultimately show thesis
    using s1(1) s2(1) s3(1) s1(2) changes_silent [OF s1(2) s2(2)] changes_silent [OF changes_silent [OF s1(2) s2(2)] s3(2)]
    by (intro that) blast+
qed

text \<open>A store written through with \<open>through\<close> and \<open>unpin\<close> is durable.\<close>

lemma store_through_unpin:
  assumes "ok s" and "points s p b"
  obtains s1 s2 s3 where "store s p x = Some s1" and "through s1 b p = Some s2" and "unpin s2 j b = Some s3"
    and "changes s s1 b x" and "updates s s2 b x" and "updates s s3 b x"
proof -
  obtain s1 where s1: "store s p x = Some s1" "changes s s1 b x" using store_changes [OF assms] by blast
  note k1 = keepsD [OF changesD(1) [OF s1(2)]]
  obtain s2 where s2: "through s1 b p = Some s2" "flushes s1 s2 b"
    using through_flushes [OF k1(1) k1(4) [OF assms(2)]] by blast
  note k2 = keepsD [OF flushesD(1) [OF s2(2)]]
  have "unat b < limit s2" using points_limit [OF assms] k1(2) k2(2) by simp
  then obtain s3 where "unpin s2 j b = Some s3" "silent s2 s3" using unpin_silent [OF k2(1)] by blast
  with s1 s2 show thesis by (meson that changes_flushes updates_silent)
qed

text \<open>Writing back and through, in the order the allocators use.\<close>

lemma put_through:
  assumes "ok s" and "points s p b"
  obtains s1 s2 where "put s p i b = Some s1" and "through s1 b p = Some s2" and "flushes s s2 b"
proof -
  obtain s1 where s1: "put s p i b = Some s1" "silent s s1" using put_silent [OF assms] by blast
  note k1 = keepsD [OF silentD(1) [OF s1(2)]]
  obtain s2 where s2: "through s1 b p = Some s2" "flushes s1 s2 b"
    using through_flushes [OF k1(1) k1(4) [OF assms(2)]] by blast
  have "flushes s s2 b"
    using s1(2) s2(2) by (auto simp: silent_def flushes_def intro: keeps_trans)
  with s1 s2 show thesis by (intro that)
qed

end

section \<open>The cache implements the contract\<close>

lemma cached_live:
  assumes "cinv (cache_s s) L G" and "\<not> cache_disabled s" and "pci_map (pci (cache_s s)) b = Some i"
  shows "in_use (cache_s s) i" and "page_data (entries (cache_s s) ! i) = Some (page_of (cache_s s) i)"
    and "pages (cache_s s) (page_of (cache_s s) i) = Some (view s b)"
    and "ce_block_number (entries (cache_s s) ! i) = b"
proof -
  note I = cinvD [OF assms(1)]
  show u: "in_use (cache_s s) i" and "ce_block_number (entries (cache_s s) ! i) = b" using I(10) [OF assms(3)] by simp_all
  from I(8) [OF u] show "page_data (entries (cache_s s) ! i) = Some (page_of (cache_s s) i)"
      and "pages (cache_s s) (page_of (cache_s s) i) = Some (view s b)"
    using assms(2,3) by (auto simp: slot_ok_def page_of_def view_def)
qed

lemma store_ok_cached:
  assumes "store_ok s" and "\<not> cache_disabled s"
  obtains L G where "cinv (cache_s s) L G"
  using assms by (auto simp: store_ok_def cache_inv_def)

definition dirty_block :: "fs \<Rightarrow> u64 \<Rightarrow> bool" where
  "dirty_block s b \<longleftrightarrow> \<not> cache_disabled s \<and> (\<exists>i. pci_map (pci (cache_s s)) b = Some i \<and> dirty_bit (entries (cache_s s) ! i))"

text \<open>
  The blocks in the dirty list of an inode. The lists are in order when their heights are exact and every
  block in one is cached, and either dirty or without a node in the global list.
\<close>

definition queued :: "fs \<Rightarrow> u64 \<Rightarrow> u64 \<Rightarrow> bool" where
  "queued s inum b \<longleftrightarrow> \<not> cache_disabled s \<and> b \<in> set (dl_blocks (dirty_list (cache_s s)) inum)"

definition slot_listed :: "cache \<Rightarrow> u64 \<Rightarrow> bool" where
  "slot_listed c b \<longleftrightarrow> (\<exists>i. pci_map (pci c) b = Some i \<and> (dirty_bit (entries c ! i) \<or> gdl_pos (entries c ! i) = None))"

definition lists_ok :: "fs \<Rightarrow> bool" where
  "lists_ok s \<longleftrightarrow> cache_disabled s \<or>
     dl_exact (dirty_list (cache_s s)) \<and> (\<forall>inum. \<forall>b \<in> set (dl_blocks (dirty_list (cache_s s)) inum). slot_listed (cache_s s) b)"

text \<open>A step that keeps the lists and the state of the slots in them, or inserts a dirty block.\<close>

definition lists_step :: "cache \<Rightarrow> cache \<Rightarrow> bool" where
  "lists_step c c' \<longleftrightarrow> (\<forall>b. slot_listed c b \<longrightarrow> slot_listed c' b) \<and>
     (dl_wf (dirty_list c) \<longrightarrow> dirty_list c' = dirty_list c \<or>
      (\<exists>inum b i. dirty_list c' = dl_insert (dirty_list c) inum b \<and> pci_map (pci c') b = Some i \<and> dirty_bit (entries c' ! i)))"

lemma lists_blocks_small:
  assumes ok: "store_ok s" "\<not> cache_disabled s" and l: "lists_ok s"
  shows "Suc (length (dl_blocks (dirty_list (cache_s s)) inum)) < 2 ^ 64"
proof -
  let ?bs = "dl_blocks (dirty_list (cache_s s)) inum"
  have d: "distinct ?bs" using l ok(2) dl_blocks_distinct dl_exact_wf by (auto simp: lists_ok_def)
  have lt: "unat b < nblocks s" if "b \<in> set ?bs" for b
    using that l ok by (fastforce simp: lists_ok_def slot_listed_def store_ok_def)
  have "inj_on unat (set ?bs)" by (rule inj_onI) (simp add: word_unat_eq_iff)
  then have "length ?bs = card (unat ` set ?bs)" using d by (simp add: card_image distinct_card)
  also have "\<dots> \<le> card {..<nblocks s}" by (rule card_mono) (use lt in auto)
  finally have "length ?bs \<le> nblocks s" by simp
  moreover have "nblocks s \<le> 2 ^ 19" using ok(1) by (simp add: store_ok_def addressable_def)
  ultimately show ?thesis by simp
qed

lemma lists_step_keeps:
  assumes ok: "store_ok s" "\<not> cache_disabled s" and st: "lists_step (cache_s s) c'" and l: "lists_ok s"
  shows "lists_ok (s\<lparr>cache_s := c'\<rparr>)" and "queued s i b \<Longrightarrow> queued (s\<lparr>cache_s := c'\<rparr>) i b"
proof -
  let ?d = "dirty_list (cache_s s)"
  have e: "dl_exact ?d" and m: "\<And>inum b. b \<in> set (dl_blocks ?d inum) \<Longrightarrow> slot_listed (cache_s s) b"
    using l ok(2) by (auto simp: lists_ok_def)
  have k: "slot_listed (cache_s s) b \<Longrightarrow> slot_listed c' b" for b using st by (simp add: lists_step_def)
  have "lists_ok (s\<lparr>cache_s := c'\<rparr>) \<and> (queued s i b \<longrightarrow> queued (s\<lparr>cache_s := c'\<rparr>) i b)"
  proof (cases "dirty_list c' = ?d")
    case True
    then show ?thesis using e m k ok(2) by (auto simp: lists_ok_def queued_def)
  next
    case False
    then obtain j x n where c': "dirty_list c' = dl_insert ?d j x" "pci_map (pci c') x = Some n" "dirty_bit (entries c' ! n)"
      using st dl_exact_wf [OF e] by (auto simp: lists_step_def)
    have "slot_listed c' x" using c'(2,3) by (simp add: slot_listed_def)
    then show ?thesis
      using dl_exact_insert [OF e lists_blocks_small [OF ok l]] m k ok(2) dl_blocks_insert [OF dl_exact_wf [OF e], of j x]
      by (auto simp: lists_ok_def queued_def c'(1) split: if_splits)
  qed
  then show "lists_ok (s\<lparr>cache_s := c'\<rparr>)" and "queued s i b \<Longrightarrow> queued (s\<lparr>cache_s := c'\<rparr>) i b" by simp_all
qed

interpretation st: block_view store_ok view disk_image points nblocks cache_disabled dirty_block lists_ok queued
proof unfold_locales
  fix s p b assume ok: "store_ok s" and p: "points s p b"
  show "unat b < nblocks s"
    using ok p by (cases "cache_disabled s") (auto simp: store_ok_def points_def)
qed (simp add: view_def)

text \<open>
  A change of the cache that keeps the cached pages, and fills the pages of newly cached blocks
  from the disk, is silent.
\<close>

lemma cache_step_silent:
  assumes ok: "store_ok s" "\<not> cache_disabled s" and inv: "cinv c' L G" and sz: "cache_size c' = cache_size (cache_s s)"
    and old: "\<And>b i. pci_map (pci (cache_s s)) b = Some i \<Longrightarrow>
        pci_map (pci c') b = Some i \<and> page_of c' i = page_of (cache_s s) i \<and>
        pages c' (page_of c' i) = pages (cache_s s) (page_of (cache_s s) i) \<and>
        (dirty_bit (entries (cache_s s) ! i) \<longrightarrow> dirty_bit (entries c' ! i))"
    and new: "\<And>b i. pci_map (pci (cache_s s)) b = None \<Longrightarrow> pci_map (pci c') b = Some i \<Longrightarrow>
        unat b < nblocks s \<and> pages c' (page_of c' i) = Some (disk_image s (unat b))"
    and free: "\<And>x. x \<in> set (free_list c') \<Longrightarrow> x \<in> set (free_list (cache_s s)) \<and>
        page_data (entries c' ! nat x) = page_data (entries (cache_s s) ! nat x)"
    and lists: "lists_step (cache_s s) c'"
  shows "st.silent s (s\<lparr>cache_s := c'\<rparr>)"
proof -
  let ?s = "s\<lparr>cache_s := c'\<rparr>"
  have nb: "nblocks ?s = nblocks s" by (simp add: nblocks_def)
  have bd: "unat b < nblocks s" if "pci_map (pci c') b = Some i" for b i
    using that old new [of b i] ok by (cases "pci_map (pci (cache_s s)) b") (auto simp: store_ok_def)
  have "tidy c'" using ok free by (auto simp: store_ok_def tidy_def)
  then have "store_ok ?s"
    using ok inv sz bd by (auto simp: store_ok_def cache_inv_def addressable_def nb)
  moreover have "view ?s b = view s b" for b
  proof (cases "pci_map (pci (cache_s s)) b")
    case None
    then show ?thesis
      using new [OF None] ok(2) by (cases "pci_map (pci c') b") (auto simp: view_def disk_image_def)
  next
    case (Some i)
    then show ?thesis using old [OF Some] ok(2) by (auto simp: view_def)
  qed
  moreover have "points s p b \<Longrightarrow> points ?s p b" for p b
    using old ok(2) by (fastforce simp: points_def)
  moreover have "dirty_block s b \<Longrightarrow> dirty_block ?s b" for b
    using old ok(2) by (fastforce simp: dirty_block_def)
  moreover note lists_step_keeps [OF ok lists]
  ultimately show ?thesis
    by (simp add: st.silent_def st.keeps_def fun_eq_iff nb disk_image_def)
qed

text \<open>Slots that keep their block, their dirty bit and their node in the global list.\<close>

lemma lists_step_same:
  assumes "dirty_list c' = dirty_list c"
    and "\<And>b i. pci_map (pci c) b = Some i \<Longrightarrow> pci_map (pci c') b = Some i \<and> dirty_bit (entries c' ! i) = dirty_bit (entries c ! i) \<and>
      gdl_pos (entries c' ! i) = gdl_pos (entries c ! i)"
  shows "lists_step c c'"
  using assms unfolding lists_step_def slot_listed_def by (metis option.inject)

text \<open>A disk that fits the cache leaves a free slot for every block that is not cached.\<close>

lemma free_slot:
  assumes ok: "store_ok s" "\<not> cache_disabled s" and b: "unat b < nblocks s" and nc: "pci_map (pci (cache_s s)) b = None"
  shows "free_list (cache_s s) \<noteq> []"
proof
  let ?c = "cache_s s"
  let ?f = "\<lambda>i. unat (ce_block_number (entries ?c ! i))"
  assume fl: "free_list ?c = []"
  obtain L G where inv: "cinv ?c L G" using store_ok_cached [OF ok] .
  have used: "pci_map (pci ?c) (ce_block_number (entries ?c ! i)) = Some i" if "i < cache_size ?c" for i
    using cinvD(8) [OF inv, of i] that fl by (simp add: in_use_def slot_ok_def)
  have "inj_on ?f {..<cache_size ?c}"
  proof (rule inj_onI)
    fix i j assume "i \<in> {..<cache_size ?c}" "j \<in> {..<cache_size ?c}" "?f i = ?f j"
    then have "ce_block_number (entries ?c ! i) = ce_block_number (entries ?c ! j)" by (intro word_unat_eq_iff [THEN iffD2])
    with \<open>i \<in> _\<close> \<open>j \<in> _\<close> show "i = j" using used by (metis lessThan_iff option.inject)
  qed
  moreover have "?f ` {..<cache_size ?c} \<subseteq> {..<nblocks s} - {unat b}"
  proof (rule image_subsetI)
    fix i assume "i \<in> {..<cache_size ?c}"
    then have m: "pci_map (pci ?c) (ce_block_number (entries ?c ! i)) = Some i" using used by simp
    moreover from this have "?f i < nblocks s" using ok by (simp add: store_ok_def)
    moreover have "ce_block_number (entries ?c ! i) \<noteq> b" using m nc by auto
    ultimately show "?f i \<in> {..<nblocks s} - {unat b}" by (simp add: word_unat_eq_iff)
  qed
  ultimately have "cache_size ?c \<le> card ({..<nblocks s} - {unat b})"
    using card_inj_on_le [of ?f "{..<cache_size ?c}"] by simp
  moreover have "nblocks s \<le> cache_size ?c" using ok by (simp add: store_ok_def)
  ultimately show False using b by simp
qed

lemma get_block_hit:
  assumes ok: "store_ok s" "\<not> cache_disabled s" and hit: "pci_map (pci (cache_s s)) b = Some i"
  obtains s' where "get_block s inum b = Some (PagePtr (page_of (cache_s s) i), s')" and "st.silent s s'"
    and "\<not> cache_disabled s'" and "pci_map (pci (cache_s s')) b = Some i" and "page_of (cache_s s') i = page_of (cache_s s) i"
proof -
  let ?c = "cache_s s"
  obtain L G where inv: "cinv ?c L G" using store_ok_cached [OF ok] .
  obtain c' a n where t: "touch_block s (int i) = Some (PagePtr (page_of ?c i), s\<lparr>cache_s := c'\<rparr>)"
      and c': "cinv c' (n # remove1 a L) G" and sm: "same_but_lru ?c c'"
    by (rule touch_block_ok [OF inv cached_live(1) [OF inv ok(2) hit]]) (rule that)
  have "pci_lookup (pci ?c) b = int i" using pci.lookup_assoc [OF cinvD(5) [OF inv], of b] hit by simp
  then have g: "get_block s inum b = Some (PagePtr (page_of ?c i), s\<lparr>cache_s := c'\<rparr>)"
    using ok t by (simp add: get_block_def)
  have pg: "page_of c' j = page_of ?c j" and db: "dirty_bit (entries c' ! j) = dirty_bit (entries ?c ! j)"
    and pd: "page_data (entries c' ! j) = page_data (entries ?c ! j)" and gp: "gdl_pos (entries c' ! j) = gdl_pos (entries ?c ! j)" for j
  proof -
    have "entries c' ! j = (entries ?c ! j)\<lparr>lru_pos := lru_pos (entries c' ! j)\<rparr>" using sm by (simp add: same_but_lru_def)
    then have "page_data (entries c' ! j) = page_data (entries ?c ! j)" "dirty_bit (entries c' ! j) = dirty_bit (entries ?c ! j)"
      "gdl_pos (entries c' ! j) = gdl_pos (entries ?c ! j)"
      by (cases "entries ?c ! j"; metis cache_entry_t.simps)+
    then show "page_of c' j = page_of ?c j" "dirty_bit (entries c' ! j) = dirty_bit (entries ?c ! j)"
      "page_data (entries c' ! j) = page_data (entries ?c ! j)" "gdl_pos (entries c' ! j) = gdl_pos (entries ?c ! j)" by (simp_all add: page_of_def)
  qed
  have ls: "lists_step ?c c'" by (rule lists_step_same) (use sm in \<open>simp_all add: same_but_lru_def db gp\<close>)
  have "st.silent s (s\<lparr>cache_s := c'\<rparr>)"
    by (rule cache_step_silent [OF ok c']) (use sm ls in \<open>auto simp: same_but_lru_def pg db pd\<close>)
  with g ok hit sm pg show thesis by (intro that [of "s\<lparr>cache_s := c'\<rparr>"]) (simp_all add: same_but_lru_def)
qed

lemma get_block_miss:
  assumes ok: "store_ok s" "\<not> cache_disabled s" and b: "unat b < nblocks s" and miss: "pci_map (pci (cache_s s)) b = None"
  obtains p s' i where "get_block s inum b = Some (PagePtr p, s')" and "st.silent s s'"
    and "\<not> cache_disabled s'" and "pci_map (pci (cache_s s')) b = Some i" and "page_of (cache_s s') i = p"
proof -
  let ?c = "cache_s s"
  obtain L G where inv: "cinv ?c L G" using store_ok_cached [OF ok] .
  obtain idx fl where fl: "free_list ?c = idx # fl" using free_slot [OF ok b miss] by (cases "free_list ?c") auto
  have adr: "addressable s" using ok by (simp add: store_ok_def)
  obtain c' n i where l: "idx = int i" "i < cache_size ?c" "load_block s inum b = Some (PagePtr (brk ?c), s\<lparr>cache_s := c'\<rparr>)"
      and c': "cinv c' (n # L) G" and pm: "pci_map (pci c') = (pci_map (pci ?c))(b \<mapsto> i)"
      and pg: "pages c' = (pages ?c)(brk ?c \<mapsto> disk_base (disk s) (unat b))"
      and es: "entries c' = (entries ?c)[i := (entries ?c ! i)\<lparr>dirty_bit := False, pin_count := 0,
           ce_block_number := b, ce_inode_number := inum, page_data := Some (brk ?c), lru_pos := Some n\<rparr>]"
      and sz: "cache_size c' = cache_size ?c" and fr: "free_list c' = fl" and dl: "dirty_list c' = dirty_list ?c"
    by (rule load_block_ok [OF inv fl miss adr b, of inum]) (rule that)
  have "pci_lookup (pci ?c) b = -1" using pci.lookup_assoc [OF cinvD(5) [OF inv], of b] miss by simp
  then have g: "get_block s inum b = Some (PagePtr (brk ?c), s\<lparr>cache_s := c'\<rparr>)"
    using ok l fl by (simp add: get_block_def)
  have pi: "page_of c' i = brk ?c" using l(2) cinvD(1) [OF inv] by (simp add: page_of_def es)
  have po: "page_of c' j = page_of ?c j" if "j \<noteq> i" for j using that by (simp add: page_of_def es)
  have ni: "j \<noteq> i" if "pci_map (pci ?c) x = Some j" for x j
    using cinvD(10) [OF inv that] fl l(1) by (auto simp: in_use_def)
  have br: "page_of ?c j \<noteq> brk ?c" if "pci_map (pci ?c) x = Some j" for x j
    using cached_live(3) [OF inv ok(2) that] cinvD(13) [OF inv, of "page_of ?c j"] by auto
  have "st.silent s (s\<lparr>cache_s := c'\<rparr>)"
  proof (rule cache_step_silent [OF ok c' sz])
    fix x j assume x: "pci_map (pci ?c) x = Some j"
    then show "pci_map (pci c') x = Some j \<and> page_of c' j = page_of ?c j \<and> pages c' (page_of c' j) = pages ?c (page_of ?c j) \<and>
        (dirty_bit (entries ?c ! j) \<longrightarrow> dirty_bit (entries c' ! j))"
      using miss po [OF ni [OF x]] br [OF x] ni [OF x] by (auto simp: pm pg es)
  next
    fix x j assume "pci_map (pci ?c) x = None" and "pci_map (pci c') x = Some j"
    then show "unat x < nblocks s \<and> pages c' (page_of c' j) = Some (disk_image s (unat x))"
      using b pi by (auto simp: pm pg disk_image_def split: if_splits)
  next
    show "lists_step ?c c'"
    proof (rule lists_step_same [OF dl])
      fix x j assume x: "pci_map (pci ?c) x = Some j"
      then show "pci_map (pci c') x = Some j \<and> dirty_bit (entries c' ! j) = dirty_bit (entries ?c ! j) \<and>
          gdl_pos (entries c' ! j) = gdl_pos (entries ?c ! j)"
        using miss ni [OF x] by (auto simp: pm es)
    qed
  next
    fix x assume x: "x \<in> set (free_list c')"
    then have "x \<in> set fl" "x \<noteq> int i" using cinvD(6) [OF inv] by (auto simp: fr fl l(1))
    moreover from this have "0 \<le> x" using cinvD(7) [OF inv, of x] fl by simp
    ultimately show "x \<in> set (free_list ?c) \<and> page_data (entries c' ! nat x) = page_data (entries ?c ! nat x)"
      using fl by (auto simp: es)
  qed
  with g pm pi ok(2) show thesis by (intro that [of "brk ?c" "s\<lparr>cache_s := c'\<rparr>" i]) simp_all
qed

lemma get_block_ok:
  assumes ok: "store_ok s" and b: "unat b < nblocks s"
  shows "\<exists>p s'. get_block s inum b = Some (p, s') \<and> st.silent s s' \<and> points s' p b"
proof (cases "cache_disabled s")
  case True
  then show ?thesis
    using ok b by (simp add: get_block_def disk_get_block_ok store_ok_def points_def st.silent_refl)
next
  case False
  show ?thesis
  proof (cases "pci_map (pci (cache_s s)) b")
    case None
    then show ?thesis by (rule get_block_miss [OF ok False b, of inum]) (auto simp: points_def)
  next
    case (Some i)
    then show ?thesis by (rule get_block_hit [OF ok False, of b i inum]) (auto simp: points_def)
  qed
qed

lemma cached_slot_ok:
  assumes ok: "store_ok s" "\<not> cache_disabled s" and b: "unat b < nblocks s"
  obtains i s' where "cached_slot s inum b = Some (int i, s')" and "st.silent s s'" and "\<not> cache_disabled s'"
    and "pci_map (pci (cache_s s')) b = Some i"
proof -
  obtain L G where inv: "cinv (cache_s s) L G" using store_ok_cached [OF ok] .
  note lk = pci.lookup_assoc [OF cinvD(5) [OF inv], of b]
  show thesis
  proof (cases "pci_map (pci (cache_s s)) b")
    case None
    obtain p s' i where g: "get_block s inum b = Some (PagePtr p, s')" "st.silent s s'" "\<not> cache_disabled s'"
        "pci_map (pci (cache_s s')) b = Some i"
      by (rule get_block_miss [OF ok b None]) (rule that)
    have "store_ok s'" using st.keepsD(1) [OF st.silentD(1) [OF g(2)]] .
    from store_ok_cached [OF this g(3)] obtain L' G' where "cinv (cache_s s') L' G'" .
    then have "pci_lookup (pci (cache_s s')) b = int i" using pci.lookup_assoc [OF cinvD(5), of _ L' G' b] g(4) by simp
    with g lk None show thesis by (intro that [of i s']) (simp_all add: cached_slot_def)
  next
    case (Some i)
    with lk ok show thesis by (intro that [of i s]) (simp_all add: cached_slot_def st.silent_refl)
  qed
qed

section \<open>Dirty tracking\<close>

definition tracked :: "cache \<Rightarrow> cache \<Rightarrow> bool" where
  "tracked c c' \<longleftrightarrow> cache_size c' = cache_size c \<and> pci c' = pci c \<and> free_list c' = free_list c \<and> pages c' = pages c \<and>
     (\<forall>j. page_data (entries c' ! j) = page_data (entries c ! j) \<and>
          ce_block_number (entries c' ! j) = ce_block_number (entries c ! j) \<and>
          ce_inode_number (entries c' ! j) = ce_inode_number (entries c ! j) \<and>
          pin_count (entries c' ! j) = pin_count (entries c ! j))"

lemma tracked_trans: "tracked c d \<Longrightarrow> tracked d e \<Longrightarrow> tracked c e"
  by (simp add: tracked_def)

text \<open>Tracking puts slot \<open>i\<close> in front of the global dirty list and changes nothing else the cache relies on.\<close>

lemma track_dirty_ok:
  assumes inv: "cinv c L G" and i: "in_use c i" and a: "pages c a \<noteq> None"
  obtains c' n where "track_dirty c i a inum pnum = Some c'" and "cinv c' L (n # G)" and "tracked c c'"
    and "gdl_pos (entries c' ! i) = Some n" and "idx_of (gdl_heap c') n = Some (int i)"
    and "\<And>g. g \<in> set G \<Longrightarrow> idx_of (gdl_heap c') g = idx_of (gdl_heap c) g"
    and "\<And>j. dirty_bit (entries c' ! j) = dirty_bit (entries c ! j)"
    and "\<And>j. j \<noteq> i \<Longrightarrow> gdl_pos (entries c' ! j) = gdl_pos (entries c ! j)"
    and "dirty_list c' = (if btype (the (pages c a)) = BLOCK_TYPE_DATA then dl_insert (dirty_list c) inum pnum else dirty_list c)"
proof -
  obtain b where b: "pages c a = Some b" using a by blast
  define c1 where "c1 = (if btype b = BLOCK_TYPE_DATA then c\<lparr>dirty_list := dl_insert (dirty_list c) inum pnum\<rparr> else c)"
  have inv1: "cinv c1 L G" and u1: "in_use c1 i" and e1: "entries c1 = entries c" "pages c1 = pages c" "pci c1 = pci c"
      "free_list c1 = free_list c" "cache_size c1 = cache_size c" "gdl_heap c1 = gdl_heap c"
    using inv i by (simp_all add: c1_def in_use_def)
  obtain n c2 where p: "gdl_push c1 (int i) = Some (n, c2)"
      "cinv (upd_entry (c2\<lparr>gdl := Some n\<rparr>) i (\<lambda>e. e\<lparr>gdl_pos := Some n\<rparr>)) L (n # G)"
      "entries c2 = entries c1" "pages c2 = pages c1" "pci c2 = pci c1" "free_list c2 = free_list c1"
      "cache_size c2 = cache_size c1" "idx_of (gdl_heap c2) n = Some (int i)"
      "\<And>g. g \<in> set G \<Longrightarrow> idx_of (gdl_heap c2) g = idx_of (gdl_heap c1) g" "dirty_list c2 = dirty_list c1"
    by (rule cinv_gdl_push [OF inv1 u1]) (rule that)
  have il: "i < length (entries c)" by (rule in_use_less [OF inv i])
  let ?c = "upd_entry (c2\<lparr>gdl := Some n\<rparr>) i (\<lambda>e. e\<lparr>gdl_pos := Some n\<rparr>)"
  have "track_dirty c i a inum pnum = Some ?c"
    using b p(1) by (simp add: track_dirty_def Let_def c1_def [symmetric])
  moreover have "tracked c ?c" using p e1 il by (auto simp: tracked_def nth_list_update)
  moreover have "dirty_list ?c = (if btype (the (pages c a)) = BLOCK_TYPE_DATA then dl_insert (dirty_list c) inum pnum else dirty_list c)"
    using p(10) b by (simp add: c1_def)
  ultimately show thesis
    using p e1 il by (intro that [of ?c n]) (auto simp: nth_list_update)
qed

lemma track_dirty_marked:
  assumes "i < length (entries c)"
  shows "track_dirty (upd_entry c i (\<lambda>e. e\<lparr>dirty_bit := True\<rparr>)) i a inum pnum =
    map_option (\<lambda>c. upd_entry c i (\<lambda>e. e\<lparr>dirty_bit := True\<rparr>)) (track_dirty c i a inum pnum)"
proof (cases "ring_push (gdl_heap c) (gdl c) (gdl_size c) (brk c) (int i)")
  case None
  then show ?thesis
    using assms by (cases "pages c a") (simp_all add: track_dirty_def gdl_push_def Let_def)
next
  case (Some h)
  then show ?thesis
    using assms by (cases "pages c a"; cases "entries c ! i")
      (simp_all add: track_dirty_def gdl_push_def Let_def upd_entry_def set_entry_def)
qed

text \<open>
  What \<open>write_block\<close> does to the lists: the slot is dirty, in the global dirty list, and the entry
  points at its newest node.
\<close>

lemma mark_dirty_ok:
  assumes inv: "cinv c L G" and i: "in_use c i" and a: "pages c a \<noteq> None"
  obtains c' G' where "do {
      c \<leftarrow> (if \<not> dirty_bit (entries c ! i)
            then track_dirty (upd_entry c i (\<lambda>e. e\<lparr>dirty_bit := True\<rparr>)) i a inum pnum else Some c);
      track_dirty c i a inum pnum } = Some c'"
    and "cinv c' L G'" and "tracked c c'" and "dirty_bit (entries c' ! i)"
    and "\<And>j. j \<noteq> i \<Longrightarrow> dirty_bit (entries c' ! j) = dirty_bit (entries c ! j) \<and> gdl_pos (entries c' ! j) = gdl_pos (entries c ! j)"
    and "dl_wf (dirty_list c) \<Longrightarrow>
      dirty_list c' = (if btype (the (pages c a)) = BLOCK_TYPE_DATA then dl_insert (dirty_list c) inum pnum else dirty_list c)"
proof (cases "dirty_bit (entries c ! i)")
  case True
  obtain c' n where "track_dirty c i a inum pnum = Some c'" "cinv c' L (n # G)" "tracked c c'"
      "\<And>j. dirty_bit (entries c' ! j) = dirty_bit (entries c ! j)" "\<And>j. j \<noteq> i \<Longrightarrow> gdl_pos (entries c' ! j) = gdl_pos (entries c ! j)"
      "dirty_list c' = (if btype (the (pages c a)) = BLOCK_TYPE_DATA then dl_insert (dirty_list c) inum pnum else dirty_list c)"
    by (rule track_dirty_ok [OF inv i a, of inum pnum]) (rule that)
  with True show thesis by (intro that [of c' "n # G"]) simp_all
next
  case False
  have il: "i < length (entries c)" by (rule in_use_less [OF inv i])
  obtain c1 n where t1: "track_dirty c i a inum pnum = Some c1" "cinv c1 L (n # G)" "tracked c c1"
      "gdl_pos (entries c1 ! i) = Some n" "idx_of (gdl_heap c1) n = Some (int i)"
      "\<And>j. dirty_bit (entries c1 ! j) = dirty_bit (entries c ! j)" "\<And>j. j \<noteq> i \<Longrightarrow> gdl_pos (entries c1 ! j) = gdl_pos (entries c ! j)"
      "dirty_list c1 = (if btype (the (pages c a)) = BLOCK_TYPE_DATA then dl_insert (dirty_list c) inum pnum else dirty_list c)"
    by (rule track_dirty_ok [OF inv i a, of inum pnum]) (rule that)
  let ?c2 = "upd_entry c1 i (\<lambda>e. e\<lparr>dirty_bit := True\<rparr>)"
  have i1: "in_use c1 i" using i t1(3) by (simp add: in_use_def tracked_def)
  have il1: "i < length (entries c1)" by (rule in_use_less [OF t1(2) i1])
  have c2: "cinv ?c2 L (n # G)" by (rule cinv_entry [OF t1(2) il1]) (use t1 in auto)
  have tr: "tracked c ?c2" using t1(3) il1 by (auto simp: tracked_def nth_list_update)
  have u2: "in_use ?c2 i" using i1 by (simp add: in_use_def)
  have a2: "pages ?c2 a \<noteq> None" and pa: "pages ?c2 a = pages c a" using a t1(3) by (simp_all add: tracked_def)
  obtain c' m where t2: "track_dirty ?c2 i a inum pnum = Some c'" "cinv c' L (m # n # G)" "tracked ?c2 c'"
      "\<And>j. dirty_bit (entries c' ! j) = dirty_bit (entries ?c2 ! j)" "\<And>j. j \<noteq> i \<Longrightarrow> gdl_pos (entries c' ! j) = gdl_pos (entries ?c2 ! j)"
      "dirty_list c' = (if btype (the (pages ?c2 a)) = BLOCK_TYPE_DATA then dl_insert (dirty_list ?c2) inum pnum else dirty_list ?c2)"
    by (rule track_dirty_ok [OF c2 u2 a2, of inum pnum]) (rule that)
  show thesis
  proof (rule that [of c' "m # n # G"])
    show "tracked c c'" by (rule tracked_trans [OF tr t2(3)])
    show "dirty_list c' = (if btype (the (pages c a)) = BLOCK_TYPE_DATA then dl_insert (dirty_list c) inum pnum else dirty_list c)"
      if "dl_wf (dirty_list c)"
      using that pa by (simp add: t2(6) t1(8) dl_insert_idem)
  qed (use False t1 t2 il il1 in \<open>auto simp: track_dirty_marked nth_list_update\<close>)
qed

section \<open>The laws\<close>

lemma deref_view:
  assumes "store_ok s" and "points s p b"
  shows "deref s p = Some (view s b)"
proof (cases "cache_disabled s")
  case True
  then show ?thesis using assms by (simp add: points_def view_def disk_image_def)
next
  case False
  obtain L G where inv: "cinv (cache_s s) L G" using store_ok_cached [OF assms(1) False] .
  from assms(2) False obtain i where "pci_map (pci (cache_s s)) b = Some i" "p = PagePtr (page_of (cache_s s) i)"
    by (auto simp: points_def)
  then show ?thesis using cached_live(3) [OF inv False] by simp
qed

lemma assign_changes:
  assumes ok: "store_ok s" and p: "points s p b"
  shows "\<exists>s'. assign s p x = Some s' \<and> st.changes s s' b x"
proof (cases "cache_disabled s")
  case True
  let ?s = "s\<lparr>disk := (disk s)\<lparr>disk_base := (disk_base (disk s))(unat b := x)\<rparr>\<rparr>"
  have "assign s p x = Some ?s" using p True by (simp add: points_def)
  moreover have "store_ok ?s" using ok True by (simp add: store_ok_def addressable_def nblocks_def)
  then have "st.changes s ?s b x"
    using True by (auto simp: st.changes_def st.keeps_def points_def nblocks_def view_def disk_image_def dirty_block_def lists_ok_def queued_def word_unat_eq_iff)
  ultimately show ?thesis by blast
next
  case False
  let ?c = "cache_s s"
  obtain L G where inv: "cinv ?c L G" using store_ok_cached [OF ok False] .
  from p False obtain i where i: "pci_map (pci ?c) b = Some i" "p = PagePtr (page_of ?c i)"
    by (auto simp: points_def)
  let ?a = "page_of ?c i"
  let ?s = "s\<lparr>cache_s := ?c\<lparr>pages := (pages ?c)(?a \<mapsto> x)\<rparr>\<rparr>"
  have live: "pages ?c ?a \<noteq> None" using cached_live(3) [OF inv False i(1)] by simp
  then have "assign s p x = Some ?s" using i by simp
  moreover have "store_ok ?s"
    using ok cinv_pages [OF inv live] by (auto simp: store_ok_def addressable_def nblocks_def cache_inv_def tidy_def)
  moreover have "view ?s d = ((view s)(b := x)) d" for d
  proof (cases "pci_map (pci ?c) d")
    case (Some j)
    have "page_of ?c j = ?a \<longleftrightarrow> d = b"
    proof
      assume "page_of ?c j = ?a"
      then have "j = i"
        using cinvD(12) [OF inv] cached_live(1,2) [OF inv False Some] cached_live(1,2) [OF inv False i(1)] by simp
      then show "d = b" using cached_live(4) [OF inv False Some] cached_live(4) [OF inv False i(1)] by simp
    qed (use Some i in simp)
    with Some False show ?thesis by (simp add: view_def page_of_def)
  qed (use False i in \<open>auto simp: view_def disk_image_def\<close>)
  moreover have "points s q d \<Longrightarrow> points ?s q d" for q d
    by (auto simp: points_def nblocks_def page_of_def split: if_splits)
  ultimately show ?thesis
    using False by (auto simp: st.changes_def st.keeps_def fun_eq_iff nblocks_def disk_image_def dirty_block_def
        lists_ok_def queued_def slot_listed_def)
qed

text \<open>Writing a block back from its own page is silent: it only makes the block dirty.\<close>

lemma write_block_silent:
  assumes ok: "store_ok s" and p: "points s p b"
  shows "\<exists>s'. write_block s p inum b = Some s' \<and> st.silent s s' \<and> (cache_disabled s \<or>
    dirty_block s' b \<and> (lists_ok s \<longrightarrow> btype (view s b) = BLOCK_TYPE_DATA \<longrightarrow> queued s' inum b))"
proof (cases "cache_disabled s")
  case True
  then show ?thesis using ok by (simp add: write_block_def st.silent_refl)
next
  case False
  let ?c = "cache_s s"
  obtain L G where inv: "cinv ?c L G" using store_ok_cached [OF ok False] .
  from p False obtain i where i: "pci_map (pci ?c) b = Some i" "p = PagePtr (page_of ?c i)"
    by (auto simp: points_def)
  note live = cached_live [OF inv False i(1)]
  have il: "i < length (entries ?c)" by (rule in_use_less [OF inv live(1)])
  have "pci_lookup (pci ?c) b = int i" using pci.lookup_assoc [OF cinvD(5) [OF inv], of b] i by simp
  then have cs: "cached_slot s inum b = Some (int i, s)" by (simp add: cached_slot_def)
  have id: "?c\<lparr>pages := (pages ?c)(page_of ?c i \<mapsto> view s b)\<rparr> = ?c"
    using live(3) by (simp add: fun_upd_idem)
  have as: "assign s (PagePtr (page_of ?c i)) (view s b) = Some s" using live(3) by (simp add: id)
  have lp: "pages ?c (page_of ?c i) \<noteq> None" using live(3) by simp
  obtain c' G' where m: "do {
      c \<leftarrow> (if \<not> dirty_bit (entries ?c ! i)
            then track_dirty (upd_entry ?c i (\<lambda>e. e\<lparr>dirty_bit := True\<rparr>)) i (page_of ?c i) inum b else Some ?c);
      track_dirty c i (page_of ?c i) inum b } = Some c'"
      and c': "cinv c' L G'" and tr: "tracked ?c c'" and db: "dirty_bit (entries c' ! i)"
        "\<And>j. j \<noteq> i \<Longrightarrow> dirty_bit (entries c' ! j) = dirty_bit (entries ?c ! j) \<and> gdl_pos (entries c' ! j) = gdl_pos (entries ?c ! j)"
      and dl: "dl_wf (dirty_list ?c) \<Longrightarrow>
        dirty_list c' = (if btype (the (pages ?c (page_of ?c i))) = BLOCK_TYPE_DATA then dl_insert (dirty_list ?c) inum b else dirty_list ?c)"
    by (rule mark_dirty_ok [OF inv live(1) lp, of inum b]) (rule that)
  have "write_block s p inum b = Some (s\<lparr>cache_s := c'\<rparr>)"
    using False cs il live(2) i(2) as m deref_view [OF ok p]
    by (auto simp: write_block_def Let_def bind_eq_Some_conv simp del: assign.simps split: if_splits)
  moreover have "st.silent s (s\<lparr>cache_s := c'\<rparr>)"
  proof (rule cache_step_silent [OF ok False c'])
    have pc: "pci_map (pci c') = pci_map (pci ?c)" using tr by (simp add: tracked_def)
    have "slot_listed c' x" if "slot_listed ?c x" for x
      using that db unfolding slot_listed_def pc by metis
    moreover have "pci_map (pci c') b = Some i" using pc i(1) by simp
    ultimately show "lists_step ?c c'" using dl db(1) by (auto simp: lists_step_def)
  qed (use tr db in \<open>(fastforce simp: tracked_def page_of_def)+\<close>)
  moreover have "queued (s\<lparr>cache_s := c'\<rparr>) inum b" if "lists_ok s" "btype (view s b) = BLOCK_TYPE_DATA"
  proof -
    have "dl_wf (dirty_list ?c)" using that(1) False dl_exact_wf by (auto simp: lists_ok_def)
    then show ?thesis using dl that(2) live(3) False dl_blocks_insert [of "dirty_list ?c" inum b inum] by (auto simp: queued_def)
  qed
  moreover have "dirty_block (s\<lparr>cache_s := c'\<rparr>) b" using False i(1) tr db(1) by (simp add: dirty_block_def tracked_def)
  ultimately show ?thesis by blast
qed

lemma locked_write_flushes:
  assumes ok: "store_ok s" and p: "points s p b"
  shows "\<exists>s'. locked_write s b p = Some s' \<and> st.flushes s s' b"
proof -
  let ?s = "s\<lparr>disk := (disk s)\<lparr>disk_base := (disk_base (disk s))(unat b := view s b)\<rparr>\<rparr>"
  have "locked_write s b p = Some ?s"
    using ok st.points_limit [OF ok p] by (intro locked_write_ok deref_view p) (simp_all add: store_ok_def)
  moreover have "store_ok ?s" using ok by (simp add: store_ok_def addressable_def nblocks_def)
  moreover have "view ?s d = view s d" for d
  proof (cases "d = b")
    case True
    then show ?thesis using p by (auto simp: view_def points_def disk_image_def split: option.splits)
  next
    case False
    then have "unat d \<noteq> unat b" by (simp add: word_unat_eq_iff)
    then show ?thesis by (simp add: view_def disk_image_def split: option.splits)
  qed
  ultimately show ?thesis
    by (auto simp: st.flushes_def st.keeps_def fun_eq_iff nblocks_def points_def disk_image_def dirty_block_def
        lists_ok_def queued_def slot_listed_def)
qed

text \<open>Changing a pin count is silent.\<close>

lemma pin_entry_silent:
  assumes ok: "store_ok s" "\<not> cache_disabled s" and b: "pci_map (pci (cache_s s)) b = Some i"
  shows "st.silent s (s\<lparr>cache_s := upd_entry (cache_s s) i (\<lambda>e. e\<lparr>pin_count := f e\<rparr>)\<rparr>)"
proof -
  let ?c = "cache_s s"
  obtain L G where inv: "cinv ?c L G" using store_ok_cached [OF ok] .
  note u = cached_live(1) [OF inv ok(2) b]
  have il: "i < length (entries ?c)" by (rule in_use_less [OF inv u])
  have inv': "cinv (upd_entry ?c i (\<lambda>e. e\<lparr>pin_count := f e\<rparr>)) L G"
    by (rule cinv_entry [OF inv il]) (use cinvD(8) [OF inv u] in \<open>auto simp: slot_ok_def\<close>)
  have pg: "page_of (upd_entry ?c i (\<lambda>e. e\<lparr>pin_count := f e\<rparr>)) j = page_of ?c j" for j
    using il by (simp add: page_of_def nth_list_update)
  have "lists_step ?c (upd_entry ?c i (\<lambda>e. e\<lparr>pin_count := f e\<rparr>))" by (rule lists_step_same) (use il in \<open>auto simp: nth_list_update\<close>)
  then show ?thesis by (intro cache_step_silent [OF ok inv']) (use il in \<open>auto simp: pg nth_list_update\<close>)
qed

lemma pin_silent:
  assumes ok: "store_ok s" and b: "unat b < nblocks s"
  shows "\<exists>s'. increase_pin_count s inum b = Some s' \<and> st.silent s s'"
    and "\<exists>s'. decrease_pin_count s inum b = Some s' \<and> st.silent s s'"
proof -
  have "(\<exists>s'. increase_pin_count s inum b = Some s' \<and> st.silent s s') \<and>
    (\<exists>s'. decrease_pin_count s inum b = Some s' \<and> st.silent s s')"
  proof (cases "cache_disabled s")
    case True
    then show ?thesis using ok by (simp add: increase_pin_count_def decrease_pin_count_def st.silent_refl)
  next
    case False
    obtain i s1 where s1: "cached_slot s inum b = Some (int i, s1)" "st.silent s s1" "\<not> cache_disabled s1"
        "pci_map (pci (cache_s s1)) b = Some i"
      by (rule cached_slot_ok [OF ok False b, of inum])
    have ok1: "store_ok s1" using st.keepsD(1) [OF st.silentD(1) [OF s1(2)]] .
    obtain L G where inv: "cinv (cache_s s1) L G" using store_ok_cached [OF ok1 s1(3)] .
    have il: "i < length (entries (cache_s s1))" by (rule in_use_less [OF inv cached_live(1) [OF inv s1(3,4)]])
    note pins = st.silent_trans [OF s1(2) pin_entry_silent [OF ok1 s1(3,4)]]
    show ?thesis
      using False s1 il pins by (simp add: increase_pin_count_def decrease_pin_count_def)
  qed
  then show "\<exists>s'. increase_pin_count s inum b = Some s' \<and> st.silent s s'"
    and "\<exists>s'. decrease_pin_count s inum b = Some s' \<and> st.silent s s'" by simp_all
qed

interpretation st: block_store store_ok view disk_image points nblocks cache_disabled dirty_block lists_ok queued
  get_block deref assign write_block locked_write increase_pin_count decrease_pin_count
  by unfold_locales (simp_all only: get_block_ok deref_view assign_changes write_block_silent
      locked_write_flushes pin_silent simp_thms)

end
