(* ===== verification/Superblocks.thy ===== *)
theory Superblocks
  imports Store
begin

text \<open>
  The superblock (\<^verbatim>\<open>src/superblock.c\<close>, \<^verbatim>\<open>src/superblock.h\<close>): the structure, its layout on block 0,
  reading, writing and initialising it, and the region sizes computed from it.
\<close>

section \<open>The structure\<close>

record Superblock =
  magic_number :: u64
  block_size :: u64
  sb_total_blocks :: u64
  free_blocks :: u64
  inode_bitmap :: u64
  root_inode :: u64
  btree_root :: u64
  journal_start :: u64
  journal_head :: u64
  volume_name :: "u8 list"
  creation_time :: u64
  last_mount_time :: u64

text \<open>
  \<^verbatim>\<open>sizeof(Superblock)\<close> is 120 bytes without padding, at offset 4 of the block: nine words, the
  32 bytes of the name, two words. Reading copies the structure out, writing copies it in.
\<close>

definition NAME_SIZE :: nat where [layout]: "NAME_SIZE = 32"

definition sb_load :: "block \<Rightarrow> Superblock" where
  "sb_load b =
     \<lparr>magic_number = load64 b 4, block_size = load64 b 12, sb_total_blocks = load64 b 20, free_blocks = load64 b 28,
      inode_bitmap = load64 b 36, root_inode = load64 b 44, btree_root = load64 b 52, journal_start = load64 b 60,
      journal_head = load64 b 68, volume_name = load_bytes NAME_SIZE b 76,
      creation_time = load64 b 108, last_mount_time = load64 b 116\<rparr>"

definition sb_store :: "Superblock \<Rightarrow> block \<Rightarrow> block" where
  "sb_store sb b =
     (let b = store64 (magic_number sb) b 4; b = store64 (block_size sb) b 12;
          b = store64 (sb_total_blocks sb) b 20; b = store64 (free_blocks sb) b 28;
          b = store64 (inode_bitmap sb) b 36; b = store64 (root_inode sb) b 44;
          b = store64 (btree_root sb) b 52; b = store64 (journal_start sb) b 60;
          b = store64 (journal_head sb) b 68; b = store_bytes (volume_name sb) b 76;
          b = store64 (creation_time sb) b 108
      in store64 (last_mount_time sb) b 116)"

section \<open>The operations\<close>

text \<open>
  \<open>superblock_read\<close> returns -1 and leaves its result alone when block 0 is not a superblock: the
  result is then \<open>None\<close>.
\<close>

definition superblock_read :: "fs \<Rightarrow> (Superblock option \<times> fs) option" where
  "superblock_read s = do {
     (p, s) \<leftarrow> get_block s 0 0;
     b \<leftarrow> deref s p;
     Some (if btype b \<noteq> BLOCK_TYPE_SUPER then (None, s) else (Some (sb_load b), s))
   }"

definition superblock_write :: "fs \<Rightarrow> Superblock \<Rightarrow> bool \<Rightarrow> (int \<times> fs) option" where
  "superblock_write s sb write_through = do {
     (p, s) \<leftarrow> get_block s 0 0;
     b \<leftarrow> deref s p;
     if btype b \<noteq> BLOCK_TYPE_SUPER then Some (-1, s)
     else do {
       s \<leftarrow> assign s p (sb_store sb b);
       s \<leftarrow> (if write_through then do {
               s \<leftarrow> locked_write s 0 p;
               decrease_pin_count s 0 0
             }
             else do {
               s \<leftarrow> write_block s p 0 0;
               increase_pin_count s 0 0
             });
       Some (0, s)
     }
   }"

text \<open>
  The region sizes. Each returns an \<^verbatim>\<open>int\<close> computed from a \<^verbatim>\<open>uint64_t\<close>; the quotients fit because
  the divisors are large enough only for \<open>total_blocks < 2 ^ 37\<close>, so the conversion is kept.
\<close>

definition calculate_inode_bitmap_size :: "Superblock \<Rightarrow> int" where
  "calculate_inode_bitmap_size sb =
     (let d = of_nat (4 * USABLE_BLOCK_SIZE); n = sb_total_blocks sb
      in int_of_u64 (if n mod d \<noteq> 0 then n div d + 1 else n div d))"

definition INODE_SIZE :: nat where [layout]: "INODE_SIZE = 184"

definition calculate_inode_table_size :: "Superblock \<Rightarrow> int" where
  "calculate_inode_table_size sb =
     int_of_u64 (sb_total_blocks sb div 4 div of_nat (USABLE_BLOCK_SIZE div INODE_SIZE))"

definition calculate_journal_size :: "Superblock \<Rightarrow> int" where
  "calculate_journal_size sb = int_of_u64 (sb_total_blocks sb div 100)"

text \<open>
  \<open>superblock_initialize\<close> fills block 0 in place. \<open>now\<close> is the value of \<^verbatim>\<open>time(NULL)\<close>; \<open>volume_name\<close> holds
  the characters of the C string without its terminator.
\<close>

definition block_bitmap_space :: "u64 \<Rightarrow> u32" where
  "block_bitmap_space n =
     (let d = of_nat USABLE_BLOCK_SIZE in ucast (if n mod d \<noteq> 0 then n div d + 1 else n div d))"

definition superblock_initialize :: "fs \<Rightarrow> u8 list \<Rightarrow> u64 \<Rightarrow> (int \<times> fs) option" where
  "superblock_initialize s name now =
     (if length name > 31 then Some (-1, s)
      else do {
        (p, s) \<leftarrow> get_block s 0 0;
        b \<leftarrow> deref s p;
        let n = total_blocks (disk s);
        let b = set_btype BLOCK_TYPE_SUPER b;
        let b = store64 0x53465452424e b 4;
        let b = store64 (of_nat BLOCK_SIZE) b 12;
        let b = store64 n b 20;
        let b = store64 n b 28;
        let b = store64 (ucast (1 + block_bitmap_space n)) b 36;
        let b = store_bytes (name @ [0]) b 76;
        let b = store64 now b 108;
        s \<leftarrow> assign s p b;
        Some (0, s)
      })"

section \<open>The layout\<close>

lemma sb_load_store:
  assumes "length (volume_name sb) = NAME_SIZE"
  shows "sb_load (sb_store sb b) = sb"
  using assms by (simp add: sb_load_def sb_store_def Let_def layout)

lemma btype_sb_store [simp]: "btype (sb_store sb b) = btype b"
  by (simp add: sb_store_def Let_def)

lemma sb_load_name [simp]: "length (volume_name (sb_load b)) = NAME_SIZE"
  by (simp add: sb_load_def)

lemma sb_store_outside: "i < 4 \<or> 124 \<le> i \<Longrightarrow> length (volume_name sb) = NAME_SIZE \<Longrightarrow> sb_store sb b i = b i"
  by (auto simp: sb_store_def Let_def store_bytes_def layout)

section \<open>Reading and writing\<close>

definition sb_of :: "fs \<Rightarrow> Superblock" where
  "sb_of s = sb_load (view s 0)"

lemma superblock_read_ok:
  assumes "store_ok s" and "0 < nblocks s"
  obtains s' where "superblock_read s =
      Some (if btype (view s 0) \<noteq> BLOCK_TYPE_SUPER then (None, s') else (Some (sb_of s), s'))"
    and "st.silent s s'"
proof -
  obtain p s' where g: "get_block s 0 0 = Some (p, s')" "deref s' p = Some (view s 0)" "st.silent s s'" "points s' p 0"
    by (rule st.get_load [OF assms(1), of 0 0]) (use assms in auto)
  then show thesis by (intro that [of s']) (simp_all add: superblock_read_def sb_of_def)
qed

lemma superblock_read_valid:
  assumes "store_ok s" and "0 < nblocks s" and "btype (view s 0) = BLOCK_TYPE_SUPER"
  obtains s' where "superblock_read s = Some (Some (sb_of s), s')" and "st.silent s s'"
  by (rule superblock_read_ok [OF assms(1,2)]) (use assms(3) that in simp)

text \<open>A write changes block 0 and nothing else, and is durable exactly when it is written through.\<close>

lemma superblock_write_ok:
  assumes ok: "store_ok s" and n: "0 < nblocks s" and t: "btype (view s 0) = BLOCK_TYPE_SUPER"
  obtains s' where "superblock_write s sb wt = Some (0, s')"
    and "if wt then st.updates s s' 0 (sb_store sb (view s 0)) else st.changes s s' 0 (sb_store sb (view s 0))"
proof -
  obtain p s1 where g: "get_block s 0 0 = Some (p, s1)" "deref s1 p = Some (view s 0)" "st.silent s s1" "points s1 p 0"
    by (rule st.get_load [OF ok, of 0 0]) (use n in auto)
  have ok1: "store_ok s1" using st.keepsD(1) [OF st.silentD(1) [OF g(3)]] .
  let ?x = "sb_store sb (view s 0)"
  show thesis
  proof (cases wt)
    case True
    obtain a b c where w: "assign s1 p ?x = Some a" "locked_write a 0 p = Some b" "decrease_pin_count b 0 0 = Some c"
        "st.updates s1 c 0 ?x"
      by (rule st.store_through_unpin [OF ok1 g(4), of ?x 0]) (rule that)
    show thesis
      by (rule that [of c]) (use True g t w in \<open>simp_all add: superblock_write_def st.silent_updates [OF g(3) w(4)]\<close>)
  next
    case False
    obtain a b c where w: "assign s1 p ?x = Some a" "write_block a p 0 0 = Some b" "increase_pin_count b 0 0 = Some c"
        "st.changes s1 c 0 ?x"
      by (rule st.store_put_pin [OF ok1 g(4), of ?x 0 0]) (rule that)
    show thesis
      by (rule that [of c]) (use False g t w in \<open>simp_all add: superblock_write_def st.silent_changes [OF g(3) w(4)]\<close>)
  qed
qed

lemma superblock_write_invalid:
  assumes ok: "store_ok s" and n: "0 < nblocks s" and t: "btype (view s 0) \<noteq> BLOCK_TYPE_SUPER"
  obtains s' where "superblock_write s sb wt = Some (-1, s')" and "st.silent s s'"
proof -
  obtain p s1 where g: "get_block s 0 0 = Some (p, s1)" "deref s1 p = Some (view s 0)" "st.silent s s1" "points s1 p 0"
    by (rule st.get_load [OF ok, of 0 0]) (use n in auto)
  with t show thesis by (intro that [of s1]) (simp_all add: superblock_write_def)
qed

text \<open>Initialisation fills block 0; with the cache on it only changes the cached page.\<close>

definition sb_initial :: "u8 list \<Rightarrow> u64 \<Rightarrow> u64 \<Rightarrow> Superblock \<Rightarrow> Superblock" where
  "sb_initial name n now sb =
     sb\<lparr>magic_number := 0x53465452424e, block_size := of_nat BLOCK_SIZE, sb_total_blocks := n, free_blocks := n,
        inode_bitmap := ucast (1 + block_bitmap_space n),
        volume_name := name @ 0 # drop (length name + 1) (volume_name sb), creation_time := now\<rparr>"

lemma load_bytes_prefix:
  assumes "length xs \<le> n"
  shows "load_bytes n (store_bytes xs b off) off = xs @ drop (length xs) (load_bytes n b off)"
  using assms by (intro nth_equalityI) (auto simp: load_bytes_def store_bytes_def nth_append)

lemma superblock_initialize_ok:
  assumes ok: "store_ok s" and n: "0 < nblocks s" and len: "length name \<le> 31"
  obtains s' x where "superblock_initialize s name now = Some (0, s')" and "st.changes s s' 0 x"
    and "btype x = BLOCK_TYPE_SUPER" and "sb_load x = sb_initial name (total_blocks (disk s)) now (sb_of s)"
proof -
  obtain p s1 where g: "get_block s 0 0 = Some (p, s1)" "deref s1 p = Some (view s 0)" "st.silent s s1" "points s1 p 0"
    by (rule st.get_load [OF ok, of 0 0]) (use n in auto)
  have ok1: "store_ok s1" using st.keepsD(1) [OF st.silentD(1) [OF g(3)]] .
  have d: "total_blocks (disk s1) = total_blocks (disk s)"
    using st.keepsD(2) [OF st.silentD(1) [OF g(3)]] by (simp add: nblocks_def word_unat_eq_iff)
  let ?n = "total_blocks (disk s)"
  let ?b = "store64 (ucast (1 + block_bitmap_space ?n)) (store64 ?n (store64 ?n (store64 (of_nat BLOCK_SIZE)
    (store64 0x53465452424e (set_btype BLOCK_TYPE_SUPER (view s 0)) 4) 12) 20) 28) 36"
  define x where "x = store64 now (store_bytes (name @ [0]) ?b 76) 108"
  obtain s' where s': "assign s1 p x = Some s'" "st.changes s1 s' 0 x" using st.store_changes [OF ok1 g(4)] by blast
  have 1: "superblock_initialize s name now = Some (0, s')"
    using len g s'(1) by (simp add: superblock_initialize_def Let_def d x_def)
  have 2: "btype x = BLOCK_TYPE_SUPER" using len by (simp add: x_def)
  have 3: "sb_load x = sb_initial name ?n now (sb_of s)"
    using len by (simp add: x_def sb_load_def sb_initial_def sb_of_def load_bytes_prefix layout)
  from 1 st.silent_changes [OF g(3) s'(2)] 2 3 show thesis by (rule that)
qed

section \<open>Geometry\<close>

text \<open>The bitmap blocks before \<open>inode_bitmap\<close> hold a bit for every block of an addressable disk, and no block to spare.\<close>

lemma block_bitmap_space_nat:
  assumes "unat n \<le> 2 ^ 19"
  shows "unat (block_bitmap_space n) = (unat n + 4091) div 4092"
proof -
  define q where "q = (if n mod 4092 \<noteq> 0 then n div 4092 + 1 else n div 4092)"
  have z: "n mod 4092 \<noteq> 0 \<longleftrightarrow> unat n mod 4092 \<noteq> 0" by (simp add: word_unat_eq_iff unat_mod)
  have d: "unat (n div 4092) = unat n div 4092" by (simp add: unat_div)
  have le: "unat n div 4092 \<le> 128" using assms by simp
  then have "unat q = (if unat n mod 4092 \<noteq> 0 then unat n div 4092 + 1 else unat n div 4092)"
    unfolding q_def z using le by (simp add: d unat_word_ariths(1))
  also have "\<dots> = (unat n + 4091) div 4092" using ceil_div [of 4092 "unat n"] by simp
  finally have u: "unat q = (unat n + 4091) div 4092" .
  moreover have "unat q < 2 ^ 32" using assms by (simp add: u)
  then have "unat (ucast q :: u32) = unat q" by (simp add: unsigned_ucast_eq take_bit_nat_eq_self)
  ultimately show ?thesis by (simp add: block_bitmap_space_def Let_def layout q_def)
qed

end
