(* ===== verification/Bitmap.thy ===== *)
theory Bitmap
  imports Prelude
begin

text \<open>
  Allocation bitmaps (\<^verbatim>\<open>src/bitmap.c\<close>): a block tagged \<open>BLOCK_TYPE_BITMAP\<close> whose payload is an
  array of 64-bit words. \<open>bitmap_get\<close> and \<open>bitmap_put\<close> are the C functions; \<open>bitmap_bit\<close> is the
  abstract reading of the bitmap as a set of indices, and the locale \<open>bit_map\<close> is the contract the
  block and inode allocators rely on.
\<close>

section \<open>The operations\<close>

text \<open>
  The word that holds bit \<open>ii\<close> starts at byte \<open>4 + 8 * (ii div 64)\<close>. A negative index shifts by a
  negative amount or leaves the block, and an index past the block leaves it: both are undefined.
\<close>

definition bitmap_in_block :: "int \<Rightarrow> bool" where
  "bitmap_in_block ii \<longleftrightarrow> 0 \<le> ii \<and> 4 + 8 * (nat ii div 64) + 8 \<le> BLOCK_SIZE"

definition bitmap_get :: "block \<Rightarrow> int \<Rightarrow> int option" where
  "bitmap_get bm ii =
     (if btype bm \<noteq> BLOCK_TYPE_BITMAP then Some (-1)
      else if \<not> bitmap_in_block ii then None
      else let w = load64 bm (4 + 8 * (nat ii div 64)); k = nat ii mod 64
           in Some (int_of_u64 (drop_bit k (w AND push_bit k 1))))"

definition bitmap_put :: "block \<Rightarrow> int \<Rightarrow> int \<Rightarrow> (int \<times> block) option" where
  "bitmap_put bm ii vv =
     (if btype bm \<noteq> BLOCK_TYPE_BITMAP then Some (-1, bm)
      else if \<not> bitmap_in_block ii then None
      else let off = 4 + 8 * (nat ii div 64); w = load64 bm off; k = nat ii mod 64
           in Some (0, store64 (if vv = 0 then w AND NOT (push_bit k 1) else w OR push_bit k 1) bm off))"

section \<open>Their meaning\<close>

definition bitmap_bit :: "block \<Rightarrow> nat \<Rightarrow> bool" where
  "bitmap_bit bm i = bit (load64 bm (4 + 8 * (i div 64))) (i mod 64)"

text \<open>Every index the allocators use (fewer than \<open>USABLE_BLOCK_SIZE\<close> bits per block) is in the block.\<close>

lemma bitmap_in_block_iff: "bitmap_in_block (int i) \<longleftrightarrow> i < 32704"
proof -
  have "i div 64 < 511 \<longleftrightarrow> i < 32704" by (simp add: div_less_iff_less_mult)
  then show ?thesis by (simp only: bitmap_in_block_def layout nat_int) auto
qed

lemma one_bit_word:
  assumes "k < 64"
  shows "int_of_u64 (drop_bit k (w AND push_bit k 1)) = of_bool (bit w k)"
proof -
  have "drop_bit k (w AND push_bit k 1) = of_bool (bit w k)"
    using assms by (intro bit_word_eqI) (auto simp: bit_simps)
  then show ?thesis
    by (cases "bit w k") (simp_all add: int_of_u64_small)
qed

lemma bitmap_get_bit:
  assumes "btype bm = BLOCK_TYPE_BITMAP" and "i < 32704"
  shows "bitmap_get bm (int i) = Some (of_bool (bitmap_bit bm i))"
  using assms one_bit_word [of "i mod 64" "load64 bm (4 + 8 * (i div 64))"]
  by (simp add: bitmap_get_def bitmap_in_block_iff bitmap_bit_def Let_def)

lemma bitmap_put_ok:
  assumes "btype bm = BLOCK_TYPE_BITMAP" and "i < 32704"
  obtains bm' where "bitmap_put bm (int i) vv = Some (0, bm')"
    and "btype bm' = BLOCK_TYPE_BITMAP"
    and "\<And>j. bitmap_bit bm' j = (if j = i then vv \<noteq> 0 else bitmap_bit bm j)"
    and "\<And>off. off < 4 \<or> 4092 \<le> off \<Longrightarrow> bm' off = bm off"
proof -
  define off where "off = 4 + 8 * (i div 64)"
  define k where "k = i mod 64"
  define w where "w = load64 bm off"
  define w' where "w' = (if vv = 0 then w AND NOT (push_bit k 1) else w OR push_bit k 1)"
  define bm' where "bm' = store64 w' bm off"
  have k: "k < 64" by (simp add: k_def)
  have w': "n < 64 \<Longrightarrow> bit w' n = (if n = k then vv \<noteq> 0 else bit w n)" for n
    using k by (auto simp: w'_def bit_simps)
  have 1: "bitmap_put bm (int i) vv = Some (0, bm')"
    using assms by (simp add: bitmap_put_def bitmap_in_block_iff Let_def bm'_def w'_def w_def off_def k_def)
  have 2: "btype bm' = BLOCK_TYPE_BITMAP"
    using assms(1) by (simp add: bm'_def off_def)
  have 3: "bitmap_bit bm' j = (if j = i then vv \<noteq> 0 else bitmap_bit bm j)" for j
  proof (cases "j div 64 = i div 64")
    case True
    then have "load64 bm' (4 + 8 * (j div 64)) = w'" by (simp add: bm'_def off_def)
    moreover from True have "j = i \<longleftrightarrow> j mod 64 = k"
      unfolding k_def by (metis div_mult_mod_eq)
    ultimately show ?thesis
      using True by (simp add: bitmap_bit_def w' w_def off_def)
  next
    case False
    then have "load64 bm' (4 + 8 * (j div 64)) = load64 bm (4 + 8 * (j div 64))"
      unfolding bm'_def off_def by (intro load_store_other) linarith
    with False show ?thesis by (auto simp: bitmap_bit_def)
  qed
  have 4: "bm' x = bm x" if "x < 4 \<or> 4092 \<le> x" for x
  proof -
    from assms(2) have "off + 8 \<le> 4092" by (simp add: off_def)
    with that show ?thesis by (auto simp: bm'_def off_def)
  qed
  from 1 2 3 4 show thesis by (rule that)
qed

section \<open>The contract of a bitmap\<close>

text \<open>
  What an allocator needs of a bitmap: reading bit \<open>i\<close> returns 0 or 1, setting it changes that bit
  and no other, and a well-formed bitmap stays well-formed. \<open>cap\<close> is the number of bits.
\<close>

locale bit_map =
  fixes get :: "'m \<Rightarrow> int \<Rightarrow> int option"
    and put :: "'m \<Rightarrow> int \<Rightarrow> int \<Rightarrow> (int \<times> 'm) option"
    and wf :: "'m \<Rightarrow> bool"
    and test :: "'m \<Rightarrow> nat \<Rightarrow> bool"
    and cap :: nat
  assumes get_test: "wf m \<Longrightarrow> i < cap \<Longrightarrow> get m (int i) = Some (of_bool (test m i))"
    and put_total: "wf m \<Longrightarrow> i < cap \<Longrightarrow> \<exists>m'. put m (int i) v = Some (0, m')"
    and put_wf: "wf m \<Longrightarrow> i < cap \<Longrightarrow> put m (int i) v = Some (r, m') \<Longrightarrow> wf m'"
    and put_test: "wf m \<Longrightarrow> i < cap \<Longrightarrow> put m (int i) v = Some (r, m') \<Longrightarrow>
          test m' j = (if j = i then v \<noteq> 0 else test m j)"
begin

definition allocated :: "'m \<Rightarrow> nat set" where
  "allocated m = {i. i < cap \<and> test m i}"

lemma allocated_set:
  assumes "wf m" and "i < cap" and "put m (int i) v = Some (r, m')" and "v \<noteq> 0"
  shows "allocated m' = insert i (allocated m)"
  using put_test [OF assms(1-3)] assms by (auto simp: allocated_def)

lemma allocated_clear:
  assumes "wf m" and "i < cap" and "put m (int i) 0 = Some (r, m')"
  shows "allocated m' = allocated m - {i}"
  using put_test [OF assms] assms by (auto simp: allocated_def split: if_splits)

lemma get_put_same:
  assumes "wf m" and "i < cap" and "put m (int i) v = Some (r, m')"
  shows "get m' (int i) = Some (of_bool (v \<noteq> 0))"
  using assms put_wf [OF assms] put_test [OF assms] by (simp add: get_test)

lemma get_put_other:
  assumes "wf m" and "i < cap" and "put m (int i) v = Some (r, m')" and "j < cap" and "j \<noteq> i"
  shows "get m' (int j) = get m (int j)"
  using assms put_wf [OF assms(1-3)] put_test [OF assms(1-3)] by (simp add: get_test)

text \<open>Setting a free bit and clearing it again restores the set of allocated indices.\<close>

lemma alloc_free_restores:
  assumes "wf m" and "i < cap" and "\<not> test m i"
    and "put m (int i) 1 = Some (r, m')" and "put m' (int i) 0 = Some (r', m'')"
  shows "allocated m'' = allocated m"
proof -
  have "wf m'" using put_wf [OF assms(1,2,4)] .
  then have "allocated m'' = allocated m' - {i}"
    using allocated_clear assms(2,5) by blast
  also have "\<dots> = insert i (allocated m) - {i}"
    using allocated_set [OF assms(1,2,4)] by simp
  finally show ?thesis using assms(2,3) by (auto simp: allocated_def)
qed

end

definition is_bitmap :: "block \<Rightarrow> bool" where
  "is_bitmap bm \<longleftrightarrow> btype bm = BLOCK_TYPE_BITMAP"

interpretation bm: bit_map bitmap_get bitmap_put is_bitmap bitmap_bit 32704
proof unfold_locales
  fix m i and v :: int
  assume wf: "is_bitmap m" and i: "i < (32704 :: nat)"
  show "bitmap_get m (int i) = Some (of_bool (bitmap_bit m i))"
    using wf i by (simp add: bitmap_get_bit is_bitmap_def)
  obtain b' where b': "bitmap_put m (int i) v = Some (0, b')" "is_bitmap b'"
      "\<And>j. bitmap_bit b' j = (if j = i then v \<noteq> 0 else bitmap_bit m j)"
    by (rule bitmap_put_ok [of m i v]) (use wf i in \<open>auto simp: is_bitmap_def\<close>)
  then show "\<exists>m'. bitmap_put m (int i) v = Some (0, m')" by blast
  fix r m' assume put: "bitmap_put m (int i) v = Some (r, m')"
  then show "is_bitmap m'" using b' by simp
  show "bitmap_bit m' j = (if j = i then v \<noteq> 0 else bitmap_bit m j)" for j
    using put b' by simp
qed

end
