(* ===== verification/Alloc.thy ===== *)
theory Alloc
  imports Superblocks Bitmap
begin

text \<open>
  Block allocation (\<open>alloc_page\<close> and \<open>free_page\<close> of \<^verbatim>\<open>src/disk.c\<close>) over the block bitmap, which starts
  at block 1 and keeps one bit per block, \<open>USABLE_BLOCK_SIZE\<close> bits to a bitmap block. The
  allocator is shown to be first fit on the set of used blocks.
\<close>

section \<open>The operations\<close>

text \<open>The body of the search once block \<open>ii\<close> was found free; \<open>off\<close> is its bit in the bitmap block \<open>bm\<close>.\<close>

definition alloc_found :: "fs \<Rightarrow> Superblock option \<Rightarrow> ptr \<Rightarrow> int \<Rightarrow> int \<Rightarrow> block \<Rightarrow> int \<Rightarrow> (u64 \<times> fs) option" where
  "alloc_found s sb pbm pbmn ii bm off = do {
     (rc, bm) \<leftarrow> bitmap_put bm off 1;
     if rc \<noteq> 0 then Some (0, s)
     else do {
       s \<leftarrow> assign s pbm bm;
       sb \<leftarrow> sb;
       (_, s) \<leftarrow> superblock_write s (sb\<lparr>free_blocks := free_blocks sb - 1\<rparr>) False;
       s \<leftarrow> write_block s pbm 0 (word_of_int pbmn);
       s \<leftarrow> locked_write s (word_of_int pbmn) pbm;
       Some (word_of_int ii, s)
     }
   }"

text \<open>The search loop, with the number of blocks still to look at as its first argument.\<close>

fun alloc_scan :: "nat \<Rightarrow> fs \<Rightarrow> Superblock option \<Rightarrow> ptr \<Rightarrow> int \<Rightarrow> int \<Rightarrow> (u64 \<times> fs) option" where
  "alloc_scan 0 s sb pbm pbmn ii = Some (0, s)"
| "alloc_scan (Suc k) s sb pbm pbmn ii = do {
     (pbmn, pbm, s) \<leftarrow>
       (if ii mod int USABLE_BLOCK_SIZE = 0 \<and> ii \<noteq> 0 then do {
          pbmn \<leftarrow> c_int (pbmn + 1);
          (pbm, s) \<leftarrow> get_block s 0 (word_of_int pbmn);
          Some (pbmn, pbm, s)
        }
        else Some (pbmn, pbm, s));
     bm \<leftarrow> deref s pbm;
     let off = ii - (pbmn - 1) * int USABLE_BLOCK_SIZE;
     v \<leftarrow> bitmap_get bm off;
     if v = 0 then alloc_found s sb pbm pbmn ii bm off
     else do {
       ii \<leftarrow> c_int (ii + 1);
       alloc_scan k s sb pbm pbmn ii
     }
   }"

definition alloc_page :: "fs \<Rightarrow> (u64 \<times> fs) option" where
  "alloc_page s = do {
     (pbm, s) \<leftarrow> get_block s 0 1;
     (sb, s) \<leftarrow> superblock_read s;
     alloc_scan (nblocks s) s sb pbm 1 0
   }"

text \<open>\<open>free_page\<close> goes on after a failed \<open>bitmap_put\<close>, and counts the free blocks down like \<open>alloc_page\<close>.\<close>

definition free_page :: "fs \<Rightarrow> int \<Rightarrow> fs option" where
  "free_page s pnum = do {
     let pbmn = 1 + c_div pnum (int USABLE_BLOCK_SIZE);
     (pbm, s) \<leftarrow> get_block s 0 (word_of_int pbmn);
     (sb, s) \<leftarrow> superblock_read s;
     bm \<leftarrow> deref s pbm;
     (_, bm) \<leftarrow> bitmap_put bm (pnum - (pbmn - 1) * int USABLE_BLOCK_SIZE) 0;
     s \<leftarrow> assign s pbm bm;
     sb \<leftarrow> sb;
     (_, s) \<leftarrow> superblock_write s (sb\<lparr>free_blocks := free_blocks sb - 1\<rparr>) False;
     s \<leftarrow> write_block s pbm 0 (word_of_int pbmn);
     locked_write s (word_of_int pbmn) pbm
   }"

section \<open>The set of used blocks\<close>

definition bitmap_block :: "nat \<Rightarrow> u64" where
  "bitmap_block i = of_nat (1 + i div USABLE_BLOCK_SIZE)"

definition block_used :: "fs \<Rightarrow> nat \<Rightarrow> bool" where
  "block_used s i = bitmap_bit (view s (bitmap_block i)) (i mod USABLE_BLOCK_SIZE)"

text \<open>The reference allocator: the first block that is not in use.\<close>

definition first_free :: "fs \<Rightarrow> nat option" where
  "first_free s = find (\<lambda>i. \<not> block_used s i) [0..<nblocks s]"

text \<open>A formatted volume: a superblock in block 0 and a bitmap that covers the disk.\<close>

definition volume_ok :: "fs \<Rightarrow> bool" where
  "volume_ok s \<longleftrightarrow> store_ok s \<and> 1 < nblocks s \<and> btype (view s 0) = BLOCK_TYPE_SUPER \<and>
     (\<forall>i < nblocks s. 1 + i div USABLE_BLOCK_SIZE < nblocks s \<and> btype (view s (bitmap_block i)) = BLOCK_TYPE_BITMAP)"

text \<open>
  The effect both operations share: bit \<open>i\<close> is set to \<open>v\<close>, on disk too, the count of free blocks is
  decremented, and no block but the superblock and one bitmap block changes.
\<close>

definition marked :: "fs \<Rightarrow> fs \<Rightarrow> nat \<Rightarrow> bool \<Rightarrow> bool" where
  "marked s s' i v \<longleftrightarrow> st.keeps s s' \<and> volume_ok s' \<and>
     (\<forall>j < nblocks s. block_used s' j = (if j = i then v else block_used s j)) \<and>
     sb_of s' = (sb_of s)\<lparr>free_blocks := free_blocks (sb_of s) - 1\<rparr> \<and>
     (\<forall>b. b \<noteq> 0 \<longrightarrow> b \<noteq> bitmap_block i \<longrightarrow> view s' b = view s b) \<and>
     disk_image s' (unat (bitmap_block i)) = view s' (bitmap_block i)"

lemma unat_bitmap_block:
  assumes "volume_ok s" and "i < nblocks s"
  shows "unat (bitmap_block i) = 1 + i div USABLE_BLOCK_SIZE" and "unat (bitmap_block i) < nblocks s"
    and "bitmap_block i \<noteq> 0"
proof -
  have "1 + i div USABLE_BLOCK_SIZE < nblocks s" "nblocks s \<le> 2 ^ 19"
    using assms by (auto simp: volume_ok_def store_ok_def addressable_def)
  then show u: "unat (bitmap_block i) = 1 + i div USABLE_BLOCK_SIZE"
    unfolding bitmap_block_def by (intro unat_of_nat_small) simp
  with \<open>1 + _ < _\<close> show "unat (bitmap_block i) < nblocks s" by simp
  from u show "bitmap_block i \<noteq> 0" by (metis add_eq_0_iff_both_eq_0 one_neq_zero unat_0)
qed

lemma bitmap_block_eq:
  assumes "volume_ok s" and "i < nblocks s" and "j < nblocks s"
  shows "bitmap_block j = bitmap_block i \<longleftrightarrow> j div USABLE_BLOCK_SIZE = i div USABLE_BLOCK_SIZE"
  using unat_bitmap_block(1) [OF assms(1,2)] unat_bitmap_block(1) [OF assms(1,3)]
  by (metis add_left_cancel bitmap_block_def)

lemma volume_silent:
  assumes "volume_ok s" and "st.silent s s'"
  shows "volume_ok s'" and "block_used s' = block_used s" and "sb_of s' = sb_of s" and "nblocks s' = nblocks s"
    and "disk_image s' = disk_image s" and "view s' = view s" and "store_ok s'"
proof -
  note k = st.keepsD [OF st.silentD(1) [OF assms(2)]] and v = st.silentD(2,3) [OF assms(2)]
  show "volume_ok s'" using assms(1) k by (simp add: volume_ok_def v)
  show "block_used s' = block_used s" by (simp add: block_used_def v fun_eq_iff)
  show "sb_of s' = sb_of s" by (simp add: sb_of_def v)
qed (use st.keepsD [OF st.silentD(1) [OF assms(2)]] st.silentD(2,3) [OF assms(2)] in simp_all)

lemma silent_marked:
  assumes "volume_ok s" and "st.silent s t" and "marked t u i v"
  shows "marked s u i v"
  using assms(3) volume_silent [OF assms(1,2)] st.keeps_trans [OF st.silentD(1) [OF assms(2)]]
  by (simp add: marked_def)

section \<open>Setting and clearing a bit\<close>

lemma bit_offset_less: "i mod USABLE_BLOCK_SIZE < 32704"
  using mod_less_divisor [of USABLE_BLOCK_SIZE i] by (simp add: layout)

text \<open>The sequence both operations run once the bitmap block is at hand.\<close>

lemma mark_ok:
  assumes vol: "volume_ok s" and i: "i < nblocks s" and p: "points s pbm (bitmap_block i)"
    and put: "bitmap_put (view s (bitmap_block i)) (int (i mod USABLE_BLOCK_SIZE)) v = Some (0, bm)"
  obtains s1 s2 s3 s4 where "assign s pbm bm = Some s1"
    and "superblock_write s1 ((sb_of s)\<lparr>free_blocks := free_blocks (sb_of s) - 1\<rparr>) False = Some (0, s2)"
    and "write_block s2 pbm 0 (bitmap_block i) = Some s3" and "locked_write s3 (bitmap_block i) pbm = Some s4"
    and "marked s s4 i (v \<noteq> 0)"
proof -
  let ?b = "bitmap_block i"
  let ?sb = "(sb_of s)\<lparr>free_blocks := free_blocks (sb_of s) - 1\<rparr>"
  have ok: "store_ok s" and n: "0 < nblocks s" and ty: "btype (view s ?b) = BLOCK_TYPE_BITMAP" and
      t0: "btype (view s 0) = BLOCK_TYPE_SUPER" using vol i by (auto simp: volume_ok_def)
  note bb = unat_bitmap_block [OF vol i]
  obtain s1 where s1: "assign s pbm bm = Some s1" "st.changes s s1 ?b bm" using st.store_changes [OF ok p] by blast
  note k1 = st.keepsD [OF st.changesD(1) [OF s1(2)]] and v1 = st.changesD(2) [OF s1(2)]
  have v10: "view s1 0 = view s 0" using bb(3) by (simp add: v1)
  obtain s2 where s2: "superblock_write s1 ?sb False = Some (0, s2)" "st.changes s1 s2 0 (sb_store ?sb (view s 0))"
    by (rule superblock_write_ok [OF k1(1), of ?sb False]) (use n k1(2) t0 v10 in auto)
  note k2 = st.keepsD [OF st.changesD(1) [OF s2(2)]] and v2 = st.changesD(2) [OF s2(2)]
  obtain s3 s4 where s4: "write_block s2 pbm 0 ?b = Some s3" "locked_write s3 ?b pbm = Some s4" "st.flushes s2 s4 ?b"
    by (rule st.put_through [OF k2(1) k2(4) [OF k1(4) [OF p]], of 0]) (rule that)
  note v4 = st.flushesD(2,3) [OF s4(3)]
  have keeps: "st.keeps s s4"
    using st.changesD(1) [OF s1(2)] st.changesD(1) [OF s2(2)] st.flushesD(1) [OF s4(3)] st.keeps_trans by meson
  have view4: "view s4 = (view s)(?b := bm, 0 := sb_store ?sb (view s 0))" by (simp add: v4 v2 v1)
  obtain bm' where bm: "bitmap_put (view s ?b) (int (i mod USABLE_BLOCK_SIZE)) v = Some (0, bm')" "btype bm' = BLOCK_TYPE_BITMAP"
      "\<And>j. bitmap_bit bm' j = (if j = i mod USABLE_BLOCK_SIZE then v \<noteq> 0 else bitmap_bit (view s ?b) j)"
    by (rule bitmap_put_ok [OF ty bit_offset_less, of i v]) (rule that)
  have bm': "bm' = bm" using bm(1) put by simp
  have used: "block_used s4 j = (if j = i then v \<noteq> 0 else block_used s j)" if j: "j < nblocks s" for j
  proof (cases "j div USABLE_BLOCK_SIZE = i div USABLE_BLOCK_SIZE")
    case True
    then have "j mod USABLE_BLOCK_SIZE = i mod USABLE_BLOCK_SIZE \<longleftrightarrow> j = i" by (metis div_mult_mod_eq)
    moreover from True have "bitmap_block j = ?b" by (simp add: bitmap_block_def)
    ultimately show ?thesis using bb(3) by (simp add: block_used_def view4 bm(3) [unfolded bm'])
  next
    case False
    then have "bitmap_block j \<noteq> ?b" "bitmap_block j \<noteq> 0"
      using bitmap_block_eq [OF vol i j] unat_bitmap_block(3) [OF vol j] by simp_all
    with False show ?thesis by (auto simp: block_used_def view4)
  qed
  have "volume_ok s4"
    unfolding volume_ok_def
  proof (intro conjI allI impI)
    fix j assume j: "j < nblocks s4"
    then have js: "j < nblocks s" using st.keepsD(2) [OF keeps] by simp
    then show "1 + j div USABLE_BLOCK_SIZE < nblocks s4"
      using vol st.keepsD(2) [OF keeps] by (simp add: volume_ok_def)
    show "btype (view s4 (bitmap_block j)) = BLOCK_TYPE_BITMAP"
      using vol js bm(2) bm' unat_bitmap_block(3) [OF vol js] by (simp add: view4 volume_ok_def)
  qed (use st.keepsD [OF keeps] vol t0 in \<open>simp_all add: view4 volume_ok_def\<close>)
  moreover have "sb_of s4 = ?sb" by (simp add: sb_of_def view4 sb_load_store)
  moreover have "disk_image s4 (unat ?b) = view s4 ?b" by (simp add: v4)
  ultimately have "marked s s4 i (v \<noteq> 0)" using keeps used by (simp add: marked_def view4)
  with s1 s2 s4 show thesis by (intro that)
qed

section \<open>Allocation is first fit\<close>

lemma div_pred:
  assumes "0 < (k :: nat)" and "0 < n"
  shows "n div k = (if n mod k = 0 then (n - 1) div k + 1 else (n - 1) div k)"
  using assms div_Suc [of "n - 1" k] by (auto split: if_splits)

lemma alloc_scan_ok:
  assumes "volume_ok s" and "n = nblocks s" and "ii + k = n" and "points s pbm (bitmap_block (ii - 1))"
  shows "\<exists>s'. case find (\<lambda>i. \<not> block_used s i) [ii..<n] of
      None \<Rightarrow> alloc_scan k s (Some (sb_of s)) pbm (int (1 + (ii - 1) div USABLE_BLOCK_SIZE)) (int ii) = Some (0, s') \<and> st.silent s s'
    | Some i \<Rightarrow> alloc_scan k s (Some (sb_of s)) pbm (int (1 + (ii - 1) div USABLE_BLOCK_SIZE)) (int ii) = Some (of_nat i, s') \<and>
        marked s s' i True"
  using assms
proof (induction k arbitrary: s pbm ii)
  case 0
  then show ?case by (auto simp: volume_ok_def intro: st.silent_refl)
next
  case (Suc k)
  have vol: "volume_ok s" and i: "ii < nblocks s" using Suc.prems by auto
  note U = layout
  have small: "nblocks s \<le> 2 ^ 19" using vol by (simp add: volume_ok_def store_ok_def addressable_def)
  let ?pn = "int (1 + (ii - 1) div USABLE_BLOCK_SIZE)"
  let ?pn' = "int (1 + ii div USABLE_BLOCK_SIZE)"
  have wi: "word_of_int ?pn' = bitmap_block ii" by (simp add: bitmap_block_def)
  \<comment> \<open>the bitmap block of \<open>ii\<close> is at hand after the first statement of the body\<close>
  obtain p s1 where step: "(if int ii mod int USABLE_BLOCK_SIZE = 0 \<and> int ii \<noteq> 0 then do {
          pbmn \<leftarrow> c_int (?pn + 1);
          (pbm, s) \<leftarrow> get_block s 0 (word_of_int pbmn);
          Some (pbmn, pbm, s)
        } else Some (?pn, pbm, s)) = Some (?pn', p, s1)" and sil: "st.silent s s1" and pt: "points s1 p (bitmap_block ii)"
  proof (cases "ii mod USABLE_BLOCK_SIZE = 0 \<and> ii \<noteq> 0")
    case True
    have d: "?pn + 1 = ?pn'" using True div_pred [of USABLE_BLOCK_SIZE ii] by (simp add: layout)
    have "ii div USABLE_BLOCK_SIZE < 2 ^ 19" using i small div_le_dividend [of ii USABLE_BLOCK_SIZE] by linarith
    then have "?pn' \<le> int_max" by simp
    then have c: "c_int ?pn' = Some ?pn'" by (intro c_int_nonneg) simp_all
    obtain q t where "get_block s 0 (bitmap_block ii) = Some (q, t)" "st.silent s t" "points t q (bitmap_block ii)"
      using st.get_silent [of s "bitmap_block ii" 0] vol unat_bitmap_block(2) [OF vol i] by (auto simp: volume_ok_def)
    moreover have "int ii mod int USABLE_BLOCK_SIZE = 0 \<and> int ii \<noteq> 0" using True by (simp flip: of_nat_mod)
    ultimately show thesis by (intro that [of q t]) (simp_all only: d c wi simp_thms if_True bind.simps option.case prod.case)
  next
    case False
    then have "(ii - 1) div USABLE_BLOCK_SIZE = ii div USABLE_BLOCK_SIZE"
      using div_pred [of USABLE_BLOCK_SIZE ii] by (cases "ii = 0") (auto simp: layout)
    moreover have "\<not> (int ii mod int USABLE_BLOCK_SIZE = 0 \<and> int ii \<noteq> 0)" using False by (simp flip: of_nat_mod)
    ultimately show thesis
      using Suc.prems vol by (intro that [of pbm s]) (auto simp: bitmap_block_def volume_ok_def intro: st.silent_refl)
  qed
  note vs = volume_silent [OF vol sil]
  have off: "int ii - (?pn' - 1) * int USABLE_BLOCK_SIZE = int (ii mod USABLE_BLOCK_SIZE)"
    by (simp add: of_nat_mod minus_mult_div_eq_mod [symmetric] mult.commute of_nat_div)
  have i1: "ii < nblocks s1" using i vs(4) by simp
  have dr: "deref s1 p = Some (view s1 (bitmap_block ii))" by (rule st.load_view [OF vs(7) pt])
  have ty: "btype (view s1 (bitmap_block ii)) = BLOCK_TYPE_BITMAP" using vs(1) i1 by (simp add: volume_ok_def)
  have gt: "bitmap_get (view s1 (bitmap_block ii)) (int (ii mod USABLE_BLOCK_SIZE)) = Some (of_bool (block_used s1 ii))"
    using bitmap_get_bit [OF ty bit_offset_less] by (simp add: block_used_def)
  have upt: "[ii..<n] = ii # [Suc ii..<n]" using i Suc.prems by (simp add: upt_conv_Cons)
  have scan: "alloc_scan (Suc k) s (Some (sb_of s)) pbm ?pn (int ii) =
     (if block_used s ii then alloc_scan k s1 (Some (sb_of s)) p ?pn' (int (Suc ii))
      else alloc_found s1 (Some (sb_of s)) p ?pn' (int ii) (view s1 (bitmap_block ii)) (int (ii mod USABLE_BLOCK_SIZE)))"
  proof -
    have "c_int (int ii + 1) = Some (int (Suc ii))" using i small by (subst c_int_nonneg) simp_all
    then show ?thesis
      by (simp only: alloc_scan.simps step bind.simps prod.case Let_def off dr gt vs(2)) (simp split: if_splits)
  qed
  show ?case
  proof (cases "block_used s ii")
    case True
    have "points s1 p (bitmap_block (Suc ii - 1))" using pt by simp
    moreover have "n = nblocks s1" "Suc ii + k = n" using Suc.prems(2,3) vs(4) by simp_all
    ultimately obtain s' where s': "case find (\<lambda>i. \<not> block_used s i) [Suc ii..<n] of
        None \<Rightarrow> alloc_scan k s1 (Some (sb_of s)) p ?pn' (int (Suc ii)) = Some (0, s') \<and> st.silent s1 s'
      | Some i \<Rightarrow> alloc_scan k s1 (Some (sb_of s)) p ?pn' (int (Suc ii)) = Some (of_nat i, s') \<and> marked s1 s' i True"
      using Suc.IH [OF vs(1), of "Suc ii" p] unfolding vs(2,3) diff_Suc_1 by blast
    have fn: "find (\<lambda>i. \<not> block_used s i) [ii..<n] = find (\<lambda>i. \<not> block_used s i) [Suc ii..<n]"
      using True by (simp add: upt)
    have sn: "alloc_scan (Suc k) s (Some (sb_of s)) pbm ?pn (int ii) = alloc_scan k s1 (Some (sb_of s)) p ?pn' (int (Suc ii))"
      using True scan by (simp only: if_True)
    show ?thesis
      unfolding fn sn using s' st.silent_trans [OF sil] silent_marked [OF vol sil]
      by (cases "find (\<lambda>i. \<not> block_used s i) [Suc ii..<n]") auto
  next
    case False
    obtain bm where put: "bitmap_put (view s1 (bitmap_block ii)) (int (ii mod USABLE_BLOCK_SIZE)) 1 = Some (0, bm)"
      by (rule bitmap_put_ok [OF ty bit_offset_less, of ii 1]) (rule that)
    obtain a b c d where m: "assign s1 p bm = Some a"
        "superblock_write a ((sb_of s1)\<lparr>free_blocks := free_blocks (sb_of s1) - 1\<rparr>) False = Some (0, b)"
        "write_block b p 0 (bitmap_block ii) = Some c" "locked_write c (bitmap_block ii) p = Some d" "marked s1 d ii (1 \<noteq> (0::int))"
      by (rule mark_ok [OF vs(1) i1 pt put]) (rule that)
    have "alloc_found s1 (Some (sb_of s)) p ?pn' (int ii) (view s1 (bitmap_block ii)) (int (ii mod USABLE_BLOCK_SIZE)) = Some (of_nat ii, d)"
      using put m vs(3) by (simp only: alloc_found_def wi) simp
    then have sn: "alloc_scan (Suc k) s (Some (sb_of s)) pbm ?pn (int ii) = Some (of_nat ii, d)"
      using False scan by (simp only: if_False)
    have fn: "find (\<lambda>i. \<not> block_used s i) [ii..<n] = Some ii" using False by (simp add: upt)
    show ?thesis unfolding fn sn using silent_marked [OF vol sil] m(5) by simp
  qed
qed

text \<open>
  \<open>alloc_page\<close> returns the first free block and marks it, or returns 0 and changes nothing when every
  block is in use.
\<close>

lemma alloc_page_ok:
  assumes vol: "volume_ok s"
  shows "\<exists>s'. case first_free s of
      None \<Rightarrow> alloc_page s = Some (0, s') \<and> st.silent s s'
    | Some i \<Rightarrow> alloc_page s = Some (of_nat i, s') \<and> marked s s' i True"
proof -
  have ok: "store_ok s" and n: "1 < nblocks s" using vol by (simp_all add: volume_ok_def)
  obtain p s1 where g: "get_block s 0 1 = Some (p, s1)" "st.silent s s1" "points s1 p 1"
    using st.get_silent [OF ok, of 1 0] n by auto
  note v1 = volume_silent [OF vol g(2)]
  have "0 < nblocks s1" using n v1(4) by simp
  then obtain s2 where r: "superblock_read s1 = Some (Some (sb_of s1), s2)" "st.silent s1 s2"
    using v1(1) by (elim superblock_read_ok [OF v1(7)]) (auto simp: volume_ok_def)
  note v2 = volume_silent [OF v1(1) r(2)]
  have sil: "st.silent s s2" by (rule st.silent_trans [OF g(2) r(2)])
  have pt: "points s2 p (bitmap_block (0 - 1))"
    using st.keepsD(4) [OF st.silentD(1) [OF r(2)] g(3)] by (simp add: bitmap_block_def)
  have sc: "alloc_page s = alloc_scan (nblocks s2) s2 (Some (sb_of s2)) p (int (1 + (0 - 1) div USABLE_BLOCK_SIZE)) (int 0)"
    using g r v2 by (simp add: alloc_page_def)
  have ff: "find (\<lambda>i. \<not> block_used s2 i) [0..<nblocks s2] = first_free s"
    by (simp add: first_free_def v1 v2)
  have nn: "0 + nblocks s2 = nblocks s2" by simp
  from alloc_scan_ok [OF v2(1) refl nn pt] show ?thesis
    unfolding ff sc by (auto split: option.splits intro: st.silent_trans [OF sil] silent_marked [OF vol sil])
qed

text \<open>\<open>free_page\<close> clears the bit of a block on the disk.\<close>

lemma free_page_ok:
  assumes vol: "volume_ok s" and i: "i < nblocks s"
  obtains s' where "free_page s (int i) = Some s'" and "marked s s' i False"
proof -
  have ok: "store_ok s" and n: "1 < nblocks s" using vol by (simp_all add: volume_ok_def)
  let ?b = "bitmap_block i"
  obtain p s1 where g: "get_block s 0 ?b = Some (p, s1)" "st.silent s s1" "points s1 p ?b"
    using st.get_silent [OF ok unat_bitmap_block(2) [OF vol i], of 0] by auto
  note v1 = volume_silent [OF vol g(2)]
  have "0 < nblocks s1" using n v1(4) by simp
  then obtain s2 where r: "superblock_read s1 = Some (Some (sb_of s1), s2)" "st.silent s1 s2"
    using v1(1) by (elim superblock_read_ok [OF v1(7)]) (auto simp: volume_ok_def)
  note v2 = volume_silent [OF v1(1) r(2)]
  have sil: "st.silent s s2" by (rule st.silent_trans [OF g(2) r(2)])
  have pt: "points s2 p ?b" by (rule st.keepsD(4) [OF st.silentD(1) [OF r(2)] g(3)])
  have i2: "i < nblocks s2" using i v1(4) v2(4) by simp
  have ty: "btype (view s2 ?b) = BLOCK_TYPE_BITMAP" using v2(1) i2 by (simp add: volume_ok_def)
  obtain bm where put: "bitmap_put (view s2 ?b) (int (i mod USABLE_BLOCK_SIZE)) 0 = Some (0, bm)"
    by (rule bitmap_put_ok [OF ty bit_offset_less, of i 0]) (rule that)
  obtain a b c d where m: "assign s2 p bm = Some a"
      "superblock_write a ((sb_of s2)\<lparr>free_blocks := free_blocks (sb_of s2) - 1\<rparr>) False = Some (0, b)"
      "write_block b p 0 ?b = Some c" "locked_write c ?b p = Some d" "marked s2 d i ((0::int) \<noteq> 0)"
    by (rule mark_ok [OF v2(1) i2 pt put]) (rule that)
  have wi: "word_of_int (1 + c_div (int i) (int USABLE_BLOCK_SIZE)) = ?b" by (simp add: bitmap_block_def)
  have off: "int i - (1 + c_div (int i) (int USABLE_BLOCK_SIZE) - 1) * int USABLE_BLOCK_SIZE = int (i mod USABLE_BLOCK_SIZE)"
    by (simp add: of_nat_mod minus_mult_div_eq_mod [symmetric] mult.commute of_nat_div)
  have "free_page s (int i) = Some d"
    using g r put m v2(3) st.load_view [OF v2(7) pt] unfolding free_page_def Let_def wi off by simp
  moreover have "marked s d i False" using silent_marked [OF vol sil] m(5) by simp
  ultimately show thesis by (rule that)
qed

end
