(* ===== verification/Btree.thy ===== *)
theory Btree
  imports Alloc
begin

text \<open>
  B+tree nodes (\<^verbatim>\<open>src/btr.c\<close>, \<^verbatim>\<open>src/btr.h\<close>): the structure and its layout on a block, creating,
  reading, writing and freeing a node, and the read-only walks: search, depth, height, minimum and
  maximum.
\<close>

section \<open>The structure\<close>

text \<open>
  \<^verbatim>\<open>sizeof(BTreeNode)\<close> is 4072. Three bytes of padding follow \<^verbatim>\<open>is_leaf\<close> and six follow \<^verbatim>\<open>num_keys\<close>; the
  structure copies of the sources carry them along. \<open>leaf_byte\<close> is the byte of the \<^verbatim>\<open>bool\<close>.
\<close>

record BTreeNode =
  block_number :: u64
  leaf_byte :: u8
  leaf_pad :: "u8 list"
  file_type :: u32
  key :: u64
  n_value :: u64
  num_keys :: u16
  keys_pad :: "u8 list"
  keys :: "u64 list"
  children :: "u64 list"
  parent :: u64
  left_sibling :: u64
  right_sibling :: u64

definition is_leaf :: "BTreeNode \<Rightarrow> bool" where
  "is_leaf n \<longleftrightarrow> leaf_byte n \<noteq> 0"

definition node_load :: "block \<Rightarrow> BTreeNode" where
  "node_load b =
     \<lparr>block_number = load64 b 4, leaf_byte = b 12, leaf_pad = load_bytes 3 b 13, file_type = load32 b 16,
      key = load64 b 20, n_value = load64 b 28, num_keys = load16 b 36, keys_pad = load_bytes 6 b 38,
      keys = load_words MAX_KEYS b 44, children = load_words (MAX_KEYS + 1) b 2044,
      parent = load64 b 4052, left_sibling = load64 b 4060, right_sibling = load64 b 4068\<rparr>"

definition node_store :: "BTreeNode \<Rightarrow> block \<Rightarrow> block" where
  "node_store n b =
     (let b = store64 (block_number n) b 4; b = store_bytes [leaf_byte n] b 12; b = store_bytes (leaf_pad n) b 13;
          b = store32 (file_type n) b 16; b = store64 (key n) b 20; b = store64 (n_value n) b 28;
          b = store16 (num_keys n) b 36; b = store_bytes (keys_pad n) b 38; b = store_words (keys n) b 44;
          b = store_words (children n) b 2044; b = store64 (parent n) b 4052; b = store64 (left_sibling n) b 4060
      in store64 (right_sibling n) b 4068)"

text \<open>A node as the structure declares it: the arrays have their sizes.\<close>

definition node_shape :: "BTreeNode \<Rightarrow> bool" where
  "node_shape n \<longleftrightarrow> length (leaf_pad n) = 3 \<and> length (keys_pad n) = 6 \<and>
     length (keys n) = MAX_KEYS \<and> length (children n) = MAX_KEYS + 1"

section \<open>Nodes on disk\<close>

text \<open>
  \<open>btree_node_create\<close> initialises every field but \<^verbatim>\<open>type\<close>, in place; it returns \<^verbatim>\<open>NULL\<close> (here \<open>None\<close>)
  when there is no free block, and otherwise the block and the pointer to it.
\<close>

definition init_node :: "bool \<Rightarrow> u64 \<Rightarrow> BTreeNode \<Rightarrow> BTreeNode" where
  "init_node leaf page n =
     n\<lparr>block_number := page, leaf_byte := of_bool leaf, key := 0, num_keys := 0, n_value := 0, parent := 0,
       left_sibling := 0, right_sibling := 0, keys := replicate MAX_KEYS 0, children := replicate (MAX_KEYS + 1) 0\<rparr>"

definition btree_node_create :: "fs \<Rightarrow> bool \<Rightarrow> ((u64 \<times> ptr) option \<times> fs) option" where
  "btree_node_create s leaf = do {
     (page, s) \<leftarrow> alloc_page s;
     if page = 0 then Some (None, s)
     else do {
       (p, s) \<leftarrow> get_block s 0 page;
       b \<leftarrow> deref s p;
       let b = set_btype BLOCK_TYPE_BTREE_NODE b;
       s \<leftarrow> assign s p (node_store (init_node leaf page (node_load b)) b);
       s \<leftarrow> write_block s p 0 page;
       Some (Some (page, p), s)
     }
   }"

definition btree_node_free :: "fs \<Rightarrow> u64 \<Rightarrow> fs option" where
  "btree_node_free s block = free_page s (int_of_u64 block)"

text \<open>Reading fails with -1 (\<open>None\<close>) when the block is not tagged as a node.\<close>

definition btree_node_read :: "fs \<Rightarrow> u64 \<Rightarrow> (BTreeNode option \<times> fs) option" where
  "btree_node_read s block_num = do {
     (p, s) \<leftarrow> get_block s 0 block_num;
     b \<leftarrow> deref s p;
     Some (if btype b \<noteq> BLOCK_TYPE_BTREE_NODE then None else Some (node_load b), s)
   }"

definition btree_node_write :: "fs \<Rightarrow> BTreeNode \<Rightarrow> (int \<times> fs) option" where
  "btree_node_write s node = do {
     (p, s) \<leftarrow> get_block s 0 (block_number node);
     b \<leftarrow> deref s p;
     if btype b \<noteq> BLOCK_TYPE_BTREE_NODE then Some (-1, s)
     else do {
       s \<leftarrow> assign s p (node_store node b);
       s \<leftarrow> write_block s p 0 (block_number node);
       Some (0, s)
     }
   }"

section \<open>Walks\<close>

text \<open>The loop that chooses a child, with \<open>r\<close> keys left to look at.\<close>

fun child_index :: "nat \<Rightarrow> u64 list \<Rightarrow> u64 \<Rightarrow> nat \<Rightarrow> nat option" where
  "child_index 0 ks k i = Some i"
| "child_index (Suc r) ks k i = do {
     x \<leftarrow> aget ks i;
     if k \<le> x then Some i else child_index r ks k (Suc i)
   }"

partial_function (option) btree_search :: "fs \<Rightarrow> u64 \<Rightarrow> u64 \<Rightarrow> (u64 \<times> fs) option" where
  "btree_search s node_block k = do {
     (node, s) \<leftarrow> btree_node_read s node_block;
     (case node of
        None \<Rightarrow> Some (0, s)
      | Some node \<Rightarrow>
          if is_leaf node then Some (if key node = k then block_number node else 0, s)
          else do {
            i \<leftarrow> child_index (unat (num_keys node)) (keys node) k 0;
            c \<leftarrow> aget (children node) i;
            if c \<noteq> 0 then btree_search s c k else Some (0, s)
          })
   }"

text \<open>
  A failed read leaves the local node as it was: uninitialised before the first read, the previous
  node after it.
\<close>

definition reread :: "BTreeNode \<Rightarrow> BTreeNode option \<Rightarrow> BTreeNode" where
  "reread old r = (case r of None \<Rightarrow> old | Some n \<Rightarrow> n)"

partial_function (option) depth_loop :: "fs \<Rightarrow> BTreeNode \<Rightarrow> int \<Rightarrow> (int \<times> fs) option" where
  "depth_loop s node depth =
     (if is_leaf node then Some (depth, s)
      else do {
        c \<leftarrow> aget (children node) 0;
        if c \<noteq> 0 then do {
          (r, s) \<leftarrow> btree_node_read s c;
          depth \<leftarrow> c_int (depth + 1);
          depth_loop s (reread node r) depth
        }
        else Some (depth, s)
      })"

definition btree_find_depth :: "fs \<Rightarrow> u64 \<Rightarrow> (int \<times> fs) option" where
  "btree_find_depth s node_block = do {
     (node, s) \<leftarrow> btree_node_read s node_block;
     node \<leftarrow> node;
     depth_loop s node 0
   }"

partial_function (option) height_loop :: "fs \<Rightarrow> BTreeNode \<Rightarrow> int \<Rightarrow> (int \<times> fs) option" where
  "height_loop s node height =
     (if is_leaf node then Some (height, s)
      else do {
        c \<leftarrow> aget (children node) 0;
        (r, s) \<leftarrow> btree_node_read s c;
        height \<leftarrow> c_int (height + 1);
        height_loop s (reread node r) height
      })"

definition btree_find_height :: "fs \<Rightarrow> u64 \<Rightarrow> (int \<times> fs) option" where
  "btree_find_height s node_block = do {
     (node, s) \<leftarrow> btree_node_read s node_block;
     node \<leftarrow> node;
     c \<leftarrow> aget (children node) 0;
     if parent node = 0 \<and> c = 0 then Some (0, s) else height_loop s node 0
   }"

text \<open>The minimum is returned as an \<^verbatim>\<open>int\<close>, the maximum as a \<^verbatim>\<open>uint64_t\<close>.\<close>

partial_function (option) btree_find_minimum :: "fs \<Rightarrow> u64 \<Rightarrow> (int \<times> fs) option" where
  "btree_find_minimum s root_block = do {
     (root, s) \<leftarrow> btree_node_read s root_block;
     root \<leftarrow> root;
     c \<leftarrow> aget (children root) 0;
     (first_child, s) \<leftarrow> btree_node_read s c;
     first_child \<leftarrow> first_child;
     if is_leaf first_child then Some (int_of_u64 (key first_child), s)
     else btree_find_minimum s (block_number first_child)
   }"

text \<open>The search from slot \<open>num_keys\<close> down for a child: the last slot among the first \<open>r\<close> that is not 0.\<close>

fun last_child :: "nat \<Rightarrow> u64 list \<Rightarrow> u64 option option" where
  "last_child 0 cs = Some None"
| "last_child (Suc r) cs = do {
     c \<leftarrow> aget cs r;
     if c \<noteq> 0 then Some (Some c) else last_child r cs
   }"

partial_function (option) btree_find_maximum :: "fs \<Rightarrow> u64 \<Rightarrow> (u64 \<times> fs) option" where
  "btree_find_maximum s root_block = do {
     (root, s) \<leftarrow> btree_node_read s root_block;
     root \<leftarrow> root;
     if is_leaf root then Some (key root, s)
     else do {
       c \<leftarrow> last_child (unat (num_keys root) + 1) (children root);
       (case c of
          None \<Rightarrow> Some (0, s)
        | Some c \<Rightarrow> btree_find_maximum s c)
     }
   }"

section \<open>The layout of a node\<close>

lemma load_bytes_cong: "(\<And>j. j < n \<Longrightarrow> b (off + j) = b' (off + j)) \<Longrightarrow> load_bytes n b off = load_bytes n b' off"
  by (simp add: load_bytes_def)

lemma load_bytes_store_bytes [simp]:
  "off + n \<le> off' \<or> off' + length xs \<le> off \<Longrightarrow> load_bytes n (store_bytes xs b off') off = load_bytes n b off"
  by (rule load_bytes_cong) (auto simp: store_bytes_def)

lemma load_bytes_store_words [simp]:
  "off + n \<le> off' \<or> off' + 8 * length xs \<le> off \<Longrightarrow> load_bytes n (store_words xs b off') off = load_bytes n b off"
  by (rule load_bytes_cong) (auto simp: store_words_def)

lemma load_words_store_bytes [simp]:
  "off + 8 * n \<le> off' \<or> off' + length xs \<le> off \<Longrightarrow> load_words n (store_bytes xs b off') off = load_words n b off"
  by (auto simp: load_words_def)

lemma store_bytes_byte [simp]: "off \<le> i \<Longrightarrow> i < off + length xs \<Longrightarrow> store_bytes xs b off i = xs ! (i - off)"
  "i < off \<or> off + length xs \<le> i \<Longrightarrow> store_bytes xs b off i = b i"
  by (auto simp: store_bytes_def)

lemma node_load_store:
  assumes "node_shape n"
  shows "node_load (node_store n b) = n"
  using assms by (simp add: node_load_def node_store_def Let_def node_shape_def layout)

lemma btype_node_store: "node_shape n \<Longrightarrow> btype (node_store n b) = btype b"
  by (simp add: node_store_def Let_def node_shape_def layout)

lemma node_load_shape [simp]: "node_shape (node_load b)"
  by (simp add: node_shape_def node_load_def)

section \<open>Reading and writing nodes\<close>

definition node_at :: "fs \<Rightarrow> u64 \<Rightarrow> BTreeNode" where
  "node_at s b = node_load (view s b)"

definition is_node :: "fs \<Rightarrow> u64 \<Rightarrow> bool" where
  "is_node s b \<longleftrightarrow> unat b < nblocks s \<and> btype (view s b) = BLOCK_TYPE_BTREE_NODE"

lemma btree_node_read_ok:
  assumes "store_ok s" and "unat b < nblocks s"
  obtains s' where "btree_node_read s b = Some (if is_node s b then Some (node_at s b) else None, s')" and "st.silent s s'"
proof -
  obtain p s' where "get_block s 0 b = Some (p, s')" "deref s' p = Some (view s b)" "st.silent s s'"
    by (rule st.get_load [OF assms, of 0])
  then show thesis using assms(2) by (intro that [of s']) (simp_all add: btree_node_read_def is_node_def node_at_def)
qed

lemma btree_node_write_ok:
  assumes ok: "store_ok s" and b: "is_node s (block_number n)" and sh: "node_shape n"
  obtains s' where "btree_node_write s n = Some (0, s')"
    and "st.changes s s' (block_number n) (node_store n (view s (block_number n)))"
proof -
  let ?b = "block_number n"
  let ?x = "node_store n (view s ?b)"
  have lb: "unat ?b < nblocks s" using b by (simp add: is_node_def)
  obtain p s1 where g: "get_block s 0 ?b = Some (p, s1)" "deref s1 p = Some (view s ?b)" "st.silent s s1" "points s1 p ?b"
    by (rule st.get_load [OF ok lb])
  have ok1: "store_ok s1" using st.keepsD(1) [OF st.silentD(1) [OF g(3)]] .
  obtain s2 s3 s4 where w: "assign s1 p ?x = Some s2" "write_block s2 p 0 ?b = Some s3" "st.changes s1 s3 ?b ?x"
    by (rule st.store_put_pin [OF ok1 g(4), of ?x 0 0]) (rule that)
  show thesis
    by (rule that [of s3])
      (use g w b st.silent_changes [OF g(3) w(3)] in \<open>simp_all add: btree_node_write_def is_node_def\<close>)
qed

lemma node_write_effect:
  assumes "st.changes s s' (block_number n) (node_store n (view s (block_number n)))" and "node_shape n"
  shows "is_node s' c = is_node s c" and "node_at s' c = (if c = block_number n then n else node_at s c)"
proof -
  note k = st.keepsD [OF st.changesD(1) [OF assms(1)]] and v = st.changesD(2) [OF assms(1)]
  show "is_node s' c = is_node s c" using k(2) btype_node_store [OF assms(2)] by (simp add: is_node_def v)
  show "node_at s' c = (if c = block_number n then n else node_at s c)"
    using node_load_store [OF assms(2)] by (simp add: node_at_def v)
qed

lemma init_node_shape: "node_shape n \<Longrightarrow> node_shape (init_node leaf page n)"
  by (simp add: node_shape_def init_node_def)

section \<open>Trees\<close>

text \<open>
  The tree a root block stands for: leaves carry a key and a value, inner nodes one key per child,
  the largest of the child, and possibly one more child to the right.
\<close>

datatype tree = TLeaf u64 u64 u64 | TNode u64 "u64 list" "tree list"

fun root_block :: "tree \<Rightarrow> u64" where
  "root_block (TLeaf b k v) = b"
| "root_block (TNode b ks ts) = b"

fun leaves :: "tree \<Rightarrow> (u64 \<times> u64) list" where
  "leaves (TLeaf b k v) = [(k, b)]"
| "leaves (TNode b ks ts) = concat (map leaves ts)"

definition tree_keys :: "tree \<Rightarrow> u64 set" where
  "tree_keys t = fst ` set (leaves t)"

text \<open>\<open>tree_at s t\<close>: the blocks of \<open>s\<close> hold the tree \<open>t\<close>.\<close>

fun tree_at :: "fs \<Rightarrow> tree \<Rightarrow> bool" where
  "tree_at s (TLeaf b k v) \<longleftrightarrow> b \<noteq> 0 \<and> is_node s b \<and> block_number (node_at s b) = b \<and> is_leaf (node_at s b) \<and>
     key (node_at s b) = k \<and> n_value (node_at s b) = v"
| "tree_at s (TNode b ks ts) \<longleftrightarrow> b \<noteq> 0 \<and> is_node s b \<and> block_number (node_at s b) = b \<and> \<not> is_leaf (node_at s b) \<and>
     unat (num_keys (node_at s b)) = length ks \<and> length ks \<le> MAX_KEYS \<and> take (length ks) (keys (node_at s b)) = ks \<and>
     (length ts = length ks + 1 \<or> length ts = length ks \<and> children (node_at s b) ! length ks = 0) \<and>
     take (length ts) (children (node_at s b)) = map root_block ts \<and> list_all (tree_at s) ts"

text \<open>The search tree order: the keys of child \<open>i\<close> lie above key \<open>i - 1\<close> and up to key \<open>i\<close>.\<close>

fun ordered :: "tree \<Rightarrow> bool" where
  "ordered (TLeaf b k v) = True"
| "ordered (TNode b ks ts) \<longleftrightarrow> sorted_wrt (<) ks \<and> ts \<noteq> [] \<and> list_all ordered ts \<and>
     (length ts = length ks + 1 \<or> length ts = length ks) \<and>
     (\<forall>i < length ts. \<forall>k \<in> tree_keys (ts ! i). (i < length ks \<longrightarrow> k \<le> ks ! i) \<and> (0 < i \<longrightarrow> ks ! (i - 1) < k))"

lemma tree_keys_node [simp]: "tree_keys (TNode b ks ts) = (\<Union>t \<in> set ts. tree_keys t)"
  by (auto simp: tree_keys_def)

lemma tree_keys_leaf [simp]: "tree_keys (TLeaf b k v) = {k}"
  by (simp add: tree_keys_def)

lemma tree_at_root: "tree_at s t \<Longrightarrow> root_block t \<noteq> 0 \<and> is_node s (root_block t) \<and> block_number (node_at s (root_block t)) = root_block t"
  by (cases t) auto

lemma tree_at_silent:
  assumes "st.silent s s'"
  shows "tree_at s' t = tree_at s t"
proof -
  have n: "is_node s' = is_node s" "node_at s' = node_at s"
    unfolding is_node_def node_at_def st.silentD(2) [OF assms] st.keepsD(2) [OF st.silentD(1) [OF assms]] by (rule refl)+
  show ?thesis
    by (induction t) (auto simp: n list_all_iff)
qed

text \<open>The block \<open>btree_search\<close> should return: the leaf with the key, or 0.\<close>

definition find_leaf :: "tree \<Rightarrow> u64 \<Rightarrow> u64" where
  "find_leaf t k = (case map_of (leaves t) k of None \<Rightarrow> 0 | Some b \<Rightarrow> b)"

lemma leaves_at:
  "tree_at s t \<Longrightarrow> (k, b) \<in> set (leaves t) \<Longrightarrow> b \<noteq> 0 \<and> is_leaf (node_at s b) \<and> key (node_at s b) = k"
  by (induction t) (auto simp: list_all_iff)

lemma map_of_None_keys: "map_of (leaves t) k = None \<longleftrightarrow> k \<notin> tree_keys t"
  by (simp add: tree_keys_def map_of_eq_None_iff)

text \<open>The child the loop chooses: the first whose key is not below \<open>k\<close>, or the one after the last key.\<close>

text \<open>What the search looks for: the leaf with the key, if there is one.\<close>

lemma find_leaf_spec:
  assumes "tree_at s t"
  shows "if k \<in> tree_keys t
    then find_leaf t k \<noteq> 0 \<and> (k, find_leaf t k) \<in> set (leaves t) \<and> is_leaf (node_at s (find_leaf t k)) \<and>
      key (node_at s (find_leaf t k)) = k
    else find_leaf t k = 0"
proof (cases "map_of (leaves t) k")
  case (Some b)
  then have "(k, b) \<in> set (leaves t)" by (rule map_of_SomeD)
  with Some leaves_at [OF assms this] map_of_None_keys [of t k] show ?thesis by (simp add: find_leaf_def)
qed (use map_of_None_keys [of t k] in \<open>simp add: find_leaf_def\<close>)

lemma child_index_ok:
  assumes "i + r \<le> length ks" and "\<forall>j < i. ks ! j < k"
  shows "\<exists>j. child_index r ks k i = Some j \<and> i \<le> j \<and> j \<le> i + r \<and> (\<forall>m < j. ks ! m < k) \<and> (j < i + r \<longrightarrow> k \<le> ks ! j)"
  using assms
proof (induction r arbitrary: i)
  case (Suc r)
  show ?case
  proof (cases "k \<le> ks ! i")
    case True
    then show ?thesis using Suc.prems by (auto simp: aget_def)
  next
    case False
    then have "\<forall>j < Suc i. ks ! j < k" using Suc.prems by (auto simp: less_Suc_eq)
    then obtain j where "child_index r ks k (Suc i) = Some j" "Suc i \<le> j" "j \<le> Suc i + r" "\<forall>m < j. ks ! m < k" "j < Suc i + r \<longrightarrow> k \<le> ks ! j"
      using Suc.IH [of "Suc i"] Suc.prems by auto
    then show ?thesis using False Suc.prems by (intro exI [of _ j]) (auto simp: aget_def)
  qed
qed auto

text \<open>In an ordered tree the key can only be in the chosen child.\<close>

lemma concat_unique:
  assumes "i < length ts" and "\<And>j. j < length ts \<Longrightarrow> j \<noteq> i \<Longrightarrow> k \<notin> tree_keys (ts ! j)"
  shows "map_of (concat (map leaves ts)) k = map_of (leaves (ts ! i)) k"
  using assms
proof (induction ts arbitrary: i)
  case (Cons t ts)
  have rest: "map_of (concat (map leaves us)) k = None" if "\<forall>u \<in> set us. k \<notin> tree_keys u" for us
    using that by (induction us) (auto simp: map_add_None map_of_None_keys)
  show ?case
  proof (cases i)
    case 0
    have "k \<notin> tree_keys u" if "u \<in> set ts" for u
      using that Cons.prems(2) [of "Suc _"] 0 by (metis Suc_less_eq in_set_conv_nth length_Cons nat.distinct(1) nth_Cons_Suc)
    then have "map_of (concat (map leaves ts)) k = None" by (intro rest) blast
    with 0 show ?thesis by (cases "map_of (leaves t) k") (auto simp: map_add_def)
  next
    case (Suc j)
    then have "map_of (leaves t) k = None" using Cons.prems(2) [of 0] by (simp add: map_of_None_keys)
    moreover have "map_of (concat (map leaves ts)) k = map_of (leaves (ts ! j)) k"
      using Cons.prems Suc by (intro Cons.IH) fastforce+
    ultimately show ?thesis using Suc by (simp add: map_add_def split: option.splits)
  qed
qed simp

lemma find_leaf_child:
  assumes ord: "ordered (TNode b ks ts)" and len: "length ts = length ks + 1 \<or> length ts = length ks"
    and lo: "\<forall>m < j. ks ! m < k" and hi: "j < length ks \<longrightarrow> k \<le> ks ! j" and j: "j \<le> length ks"
  shows "find_leaf (TNode b ks ts) k = (if j < length ts then find_leaf (ts ! j) k else 0)"
proof -
  have out: "k \<notin> tree_keys (ts ! i)" if i: "i < length ts" "i \<noteq> j" for i
  proof
    assume "k \<in> tree_keys (ts ! i)"
    then have up: "i < length ks \<longrightarrow> k \<le> ks ! i" and dn: "0 < i \<longrightarrow> ks ! (i - 1) < k" using ord i by auto
    show False
    proof (cases "i < j")
      case True
      then show False using lo up len i j by auto
    next
      case False
      with i have "j < i" "j < length ks" using len by auto
      have "ks ! j \<le> ks ! (i - 1)"
      proof (cases "j = i - 1")
        case False
        then have "j < i - 1" "i - 1 < length ks" using \<open>j < i\<close> i len by auto
        then show ?thesis using ord by (simp add: sorted_wrt_iff_nth_less less_imp_le)
      qed simp
      moreover have "k \<le> ks ! j" using hi \<open>j < length ks\<close> by simp
      ultimately have "k \<le> ks ! (i - 1)" by simp
      with dn \<open>j < i\<close> show False by auto
    qed
  qed
  show ?thesis
  proof (cases "j < length ts")
    case True
    then have "map_of (leaves (TNode b ks ts)) k = map_of (leaves (ts ! j)) k"
      using concat_unique [of j ts k] out by simp
    with True show ?thesis by (simp add: find_leaf_def)
  next
    case False
    then have "k \<notin> tree_keys (TNode b ks ts)" using out by (fastforce simp: in_set_conv_nth)
    then have "map_of (leaves (TNode b ks ts)) k = None" by (rule map_of_None_keys [THEN iffD2])
    with False show ?thesis by (simp add: find_leaf_def)
  qed
qed

section \<open>Searching\<close>

text \<open>What an inner node looks like to the walks.\<close>

lemma tree_node:
  assumes "tree_at s (TNode b ks ts)"
  shows "unat (num_keys (node_at s b)) = length ks" and "length ks \<le> 250" and "length (keys (node_at s b)) = 250"
    and "length (children (node_at s b)) = 251"
    and "\<And>m. m < length ks \<Longrightarrow> keys (node_at s b) ! m = ks ! m"
    and "\<And>m. m < length ts \<Longrightarrow> children (node_at s b) ! m = root_block (ts ! m)"
    and "length ts = length ks + 1 \<or> length ts = length ks"
    and "length ts = length ks \<Longrightarrow> children (node_at s b) ! length ks = 0"
    and "\<And>m. m < length ts \<Longrightarrow> tree_at s (ts ! m)"
proof -
  have t: "take (length ks) (keys (node_at s b)) = ks" "take (length ts) (children (node_at s b)) = map root_block ts"
    using assms by simp_all
  show "keys (node_at s b) ! m = ks ! m" if "m < length ks" for m
    using arg_cong [OF t(1), of "\<lambda>xs. xs ! m"] that by simp
  show "children (node_at s b) ! m = root_block (ts ! m)" if "m < length ts" for m
    using arg_cong [OF t(2), of "\<lambda>xs. xs ! m"] that by simp
  show "length (keys (node_at s b)) = 250" "length (children (node_at s b)) = 251"
    by (simp_all add: node_at_def node_load_def layout)
  show "tree_at s (ts ! m)" if "m < length ts" for m using assms that by (simp add: list_all_length)
qed (use assms in \<open>auto simp: layout\<close>)

text \<open>Reading the root of a tree.\<close>

lemma tree_read:
  assumes "store_ok s" and "tree_at s t"
  obtains s' where "btree_node_read s (root_block t) = Some (Some (node_at s (root_block t)), s')" and "st.silent s s'"
    and "store_ok s'"
proof -
  have n: "is_node s (root_block t)" using tree_at_root [OF assms(2)] by simp
  then have "unat (root_block t) < nblocks s" by (simp add: is_node_def)
  from btree_node_read_ok [OF assms(1) this] n obtain s' where
      "btree_node_read s (root_block t) = Some (Some (node_at s (root_block t)), s')" "st.silent s s'" by auto
  then show thesis using st.keepsD(1) [OF st.silentD(1)] by (intro that)
qed

lemma btree_search_ok:
  assumes "store_ok s" and "tree_at s t" and "ordered t"
  shows "\<exists>s'. btree_search s (root_block t) k = Some (find_leaf t k, s') \<and> st.silent s s'"
  using assms
proof (induction t arbitrary: s)
  case (TLeaf b x v)
  obtain s' where r: "btree_node_read s b = Some (Some (node_at s b), s')" "st.silent s s'"
    using tree_read [OF TLeaf(1,2)] by auto
  have "btree_search s b k = Some (find_leaf (TLeaf b x v) k, s')"
    by (subst btree_search.simps) (use r(1) TLeaf(2) in \<open>simp add: find_leaf_def\<close>)
  with r(2) show ?case by auto
next
  case (TNode b ks ts)
  note T = tree_node [OF TNode.prems(2)]
  obtain s1 where r: "btree_node_read s b = Some (Some (node_at s b), s1)" "st.silent s s1" "store_ok s1"
    using tree_read [OF TNode.prems(1,2)] by auto
  obtain j where j: "child_index (length ks) (keys (node_at s b)) k 0 = Some j" "j \<le> length ks"
      "\<forall>m < j. keys (node_at s b) ! m < k" "j < length ks \<longrightarrow> k \<le> keys (node_at s b) ! j"
    using child_index_ok [of 0 "length ks" "keys (node_at s b)" k] T(2,3) by auto
  have f: "find_leaf (TNode b ks ts) k = (if j < length ts then find_leaf (ts ! j) k else 0)"
    by (rule find_leaf_child [OF TNode.prems(3) T(7)]) (use j T(5) in auto)
  have nl: "\<not> is_leaf (node_at s b)" using TNode.prems(2) by simp
  have ag: "aget (children (node_at s b)) j = Some (children (node_at s b) ! j)" using j(2) T(2,4) by (simp add: aget_def)
  have step: "btree_search s b k =
      (if children (node_at s b) ! j \<noteq> 0 then btree_search s1 (children (node_at s b) ! j) k else Some (0, s1))"
    by (subst btree_search.simps) (simp add: r(1) nl T(1) j(1) ag)
  show ?case
  proof (cases "j < length ts")
    case True
    have c: "children (node_at s b) ! j = root_block (ts ! j)" "root_block (ts ! j) \<noteq> 0"
      using T(6) [OF True] tree_at_root [OF T(9) [OF True]] by simp_all
    have "tree_at s1 (ts ! j)" using T(9) [OF True] tree_at_silent [OF r(2)] by simp
    moreover have "ordered (ts ! j)" using TNode.prems(3) True by (simp add: list_all_length)
    ultimately obtain s' where "btree_search s1 (root_block (ts ! j)) k = Some (find_leaf (ts ! j) k, s')" "st.silent s1 s'"
      using TNode.IH [of "ts ! j" s1] True r(3) by auto
    with step c f True st.silent_trans [OF r(2)] show ?thesis by auto
  next
    case False
    then have "length ts = length ks" "j = length ks" using T(7) j(2) by auto
    then have "children (node_at s b) ! j = 0" using T(8) by simp
    with step f False r(2) show ?thesis by simp
  qed
qed

section \<open>Depth and extremes\<close>

text \<open>The length of the leftmost path, and the extreme leaves.\<close>

fun left_depth :: "tree \<Rightarrow> nat" where
  "left_depth (TLeaf b k v) = 0"
| "left_depth (TNode b ks ts) = (case ts of [] \<Rightarrow> 0 | t # r \<Rightarrow> Suc (left_depth t))"

fun max_leaf :: "tree \<Rightarrow> u64" where
  "max_leaf (TLeaf b k v) = k"
| "max_leaf (TNode b ks ts) = (if ts = [] then 0 else last (map max_leaf ts))"

lemma depth_loop_ok:
  assumes "store_ok s" and "tree_at s t" and "ordered t" and "d + left_depth t < 2 ^ 31"
  shows "\<exists>s'. depth_loop s (node_at s (root_block t)) (int d) = Some (int (d + left_depth t), s') \<and> st.silent s s'"
  using assms
proof (induction t arbitrary: s d)
  case (TLeaf b x v)
  then show ?case by (subst depth_loop.simps) (auto intro: st.silent_refl)
next
  case (TNode b ks ts)
  note T = tree_node [OF TNode.prems(2)]
  have ne: "0 < length ts" using TNode.prems(3) by simp
  then obtain t r where ts: "ts = t # r" by (cases ts) auto
  have c: "children (node_at s b) ! 0 = root_block t" "tree_at s t" "ordered t"
    using T(6) [OF ne] T(9) [OF ne] TNode.prems(3) by (simp_all add: ts)
  have nl: "\<not> is_leaf (node_at s b)" using TNode.prems(2) by simp
  obtain s1 where r: "btree_node_read s (root_block t) = Some (Some (node_at s (root_block t)), s1)" "st.silent s s1" "store_ok s1"
    using tree_read [OF TNode.prems(1) c(2)] .
  have n1: "node_at s1 = node_at s" by (simp add: node_at_def st.silentD(2) [OF r(2)] fun_eq_iff)
  have "d + 1 < 2 ^ 31" using TNode.prems(4) by (simp add: ts)
  then have ci: "c_int (int d + 1) = Some (int (Suc d))" using c_int_nat [of "Suc d"] by (simp add: add.commute)
  have "tree_at s1 t" using c(2) tree_at_silent [OF r(2)] by simp
  then obtain s' where "depth_loop s1 (node_at s1 (root_block t)) (int (Suc d)) = Some (int (Suc d + left_depth t), s')" "st.silent s1 s'"
    using TNode.IH [of t s1 "Suc d"] r(3) c(3) TNode.prems(4) by (auto simp: ts)
  moreover have "depth_loop s (node_at s b) (int d) = depth_loop s1 (node_at s (root_block t)) (int (Suc d))"
    by (subst depth_loop.simps)
      (use nl T(4) c tree_at_root [OF c(2)] r(1) ci in \<open>simp add: aget_def reread_def\<close>)
  ultimately show ?case using st.silent_trans [OF r(2)] by (auto simp: ts n1)
qed

lemma last_child_ok:
  assumes "r \<le> length cs" and "0 < m" and "m \<le> r" and "cs ! (m - 1) \<noteq> 0" and "\<And>i. m \<le> i \<Longrightarrow> i < r \<Longrightarrow> cs ! i = 0"
  shows "last_child r cs = Some (Some (cs ! (m - 1)))"
  using assms
proof (induction r)
  case (Suc r)
  show ?case
  proof (cases "m = Suc r")
    case False
    then have "cs ! r = 0" "m \<le> r" using Suc.prems by auto
    with Suc show ?thesis by (auto simp: aget_def)
  qed (use Suc.prems in \<open>auto simp: aget_def\<close>)
qed simp

lemma btree_find_maximum_ok:
  assumes "store_ok s" and "tree_at s t" and "ordered t"
  shows "\<exists>s'. btree_find_maximum s (root_block t) = Some (max_leaf t, s') \<and> st.silent s s'"
  using assms
proof (induction t arbitrary: s)
  case (TLeaf b x v)
  obtain s' where r: "btree_node_read s b = Some (Some (node_at s b), s')" "st.silent s s'"
    using tree_read [OF TLeaf(1,2)] by auto
  have "btree_find_maximum s b = Some (max_leaf (TLeaf b x v), s')"
    by (subst btree_find_maximum.simps) (use r(1) TLeaf(2) in simp)
  with r(2) show ?case by auto
next
  case (TNode b ks ts)
  note T = tree_node [OF TNode.prems(2)]
  have ne: "0 < length ts" "ts \<noteq> []" using TNode.prems(3) by simp_all
  let ?m = "length ts - 1"
  have m: "?m < length ts" using ne by simp
  obtain s1 where r: "btree_node_read s b = Some (Some (node_at s b), s1)" "st.silent s s1" "store_ok s1"
    using tree_read [OF TNode.prems(1,2)] by auto
  have nl: "\<not> is_leaf (node_at s b)" using TNode.prems(2) by simp
  have c: "children (node_at s b) ! ?m = root_block (last ts)" "root_block (last ts) \<noteq> 0" "tree_at s (last ts)"
    using T(6) [OF m] tree_at_root [OF T(9) [OF m]] T(9) [OF m] ne by (simp_all add: last_conv_nth)
  have lc: "last_child (length ks + 1) (children (node_at s b)) = Some (Some (children (node_at s b) ! ?m))"
  proof (rule last_child_ok)
    show "children (node_at s b) ! i = 0" if "length ts \<le> i" "i < length ks + 1" for i
    proof -
      have "length ts = length ks" "i = length ks" using that T(7) by auto
      then show ?thesis using T(8) by simp
    qed
  qed (use T ne c in auto)
  have "tree_at s1 (last ts)" using c(3) tree_at_silent [OF r(2)] by simp
  moreover have "ordered (last ts)" using TNode.prems(3) ne by (simp add: list_all_iff)
  ultimately obtain s' where "btree_find_maximum s1 (root_block (last ts)) = Some (max_leaf (last ts), s')" "st.silent s1 s'"
    using TNode.IH [of "last ts" s1] ne(2) r(3) by auto
  moreover have "btree_find_maximum s b = btree_find_maximum s1 (root_block (last ts))"
    by (subst btree_find_maximum.simps) (simp add: r(1) nl T(1) lc [simplified] c(1) [simplified])
  ultimately show ?case using st.silent_trans [OF r(2)] ne(2) by (auto simp: last_map)
qed

text \<open>The last leaf of an ordered tree is its largest.\<close>

lemma max_leaf_max:
  assumes "ordered t"
  shows "max_leaf t \<in> tree_keys t \<and> (\<forall>k \<in> tree_keys t. k \<le> max_leaf t)"
  using assms
proof (induction t)
  case (TNode b ks ts)
  have ne: "ts \<noteq> []" and sk: "sorted_wrt (<) ks" and lk: "length ts = length ks + 1 \<or> length ts = length ks"
    and bd: "\<And>i k. i < length ts \<Longrightarrow> k \<in> tree_keys (ts ! i) \<Longrightarrow> (i < length ks \<longrightarrow> k \<le> ks ! i) \<and> (0 < i \<longrightarrow> ks ! (i - 1) < k)"
    using TNode.prems by auto
  define n where "n = length ts - 1"
  have n: "n < length ts" "last ts = ts ! n" using ne by (simp_all add: n_def last_conv_nth)
  have "ordered (last ts)" using TNode.prems ne by (simp add: list_all_iff)
  then have IH: "max_leaf (last ts) \<in> tree_keys (ts ! n)" "\<And>k. k \<in> tree_keys (ts ! n) \<Longrightarrow> k \<le> max_leaf (last ts)"
    using TNode.IH [of "last ts"] nth_mem [OF n(1)] n(2) by auto
  have m: "max_leaf (TNode b ks ts) = max_leaf (last ts)" using ne by (simp add: last_map)
  have "k \<le> max_leaf (last ts)" if i: "i < length ts" "k \<in> tree_keys (ts ! i)" for i k
  proof (cases "i = n")
    case False
    then have lt: "i < n" "n - 1 < length ks" "i < length ks" using i lk by (auto simp: n_def)
    then have "k \<le> ks ! i" using bd [OF i] by simp
    also have "ks ! i \<le> ks ! (n - 1)"
      using lt sk by (cases "i = n - 1") (auto simp: sorted_wrt_iff_nth_less less_imp_le)
    also have "ks ! (n - 1) < max_leaf (last ts)" using bd [OF n(1) IH(1)] lt by simp
    finally show ?thesis by simp
  qed (use IH(2) i in simp)
  then have up: "\<forall>t \<in> set ts. \<forall>k \<in> tree_keys t. k \<le> max_leaf (last ts)"
    by (metis in_set_conv_nth)
  have "max_leaf (last ts) \<in> tree_keys (TNode b ks ts)"
    using IH(1) nth_mem [OF n(1)] by (auto simp del: max_leaf.simps)
  then show ?case unfolding m using up by (simp del: max_leaf.simps)
qed simp

text \<open>Heights agree with depths, since both follow the leftmost path.\<close>

lemma height_loop_ok:
  assumes "store_ok s" and "tree_at s t" and "ordered t" and "d + left_depth t < 2 ^ 31"
  shows "\<exists>s'. height_loop s (node_at s (root_block t)) (int d) = Some (int (d + left_depth t), s') \<and> st.silent s s'"
  using assms
proof (induction t arbitrary: s d)
  case (TLeaf b x v)
  then show ?case by (subst height_loop.simps) (auto intro: st.silent_refl)
next
  case (TNode b ks ts)
  note T = tree_node [OF TNode.prems(2)]
  have ne: "0 < length ts" using TNode.prems(3) by simp
  then obtain t r where ts: "ts = t # r" by (cases ts) auto
  have c: "children (node_at s b) ! 0 = root_block t" "tree_at s t" "ordered t"
    using T(6) [OF ne] T(9) [OF ne] TNode.prems(3) by (simp_all add: ts)
  have nl: "\<not> is_leaf (node_at s b)" using TNode.prems(2) by simp
  obtain s1 where r: "btree_node_read s (root_block t) = Some (Some (node_at s (root_block t)), s1)" "st.silent s s1" "store_ok s1"
    using tree_read [OF TNode.prems(1) c(2)] .
  have n1: "node_at s1 = node_at s" by (simp add: node_at_def st.silentD(2) [OF r(2)] fun_eq_iff)
  have "d + 1 < 2 ^ 31" using TNode.prems(4) by (simp add: ts)
  then have ci: "c_int (int d + 1) = Some (int (Suc d))" using c_int_nat [of "Suc d"] by (simp add: add.commute)
  have "tree_at s1 t" using c(2) tree_at_silent [OF r(2)] by simp
  then obtain s' where "height_loop s1 (node_at s1 (root_block t)) (int (Suc d)) = Some (int (Suc d + left_depth t), s')" "st.silent s1 s'"
    using TNode.IH [of t s1 "Suc d"] r(3) c(3) TNode.prems(4) by (auto simp: ts)
  moreover have "height_loop s (node_at s b) (int d) = height_loop s1 (node_at s (root_block t)) (int (Suc d))"
    by (subst height_loop.simps) (use nl T(4) c r(1) ci in \<open>simp add: aget_def reread_def\<close>)
  ultimately show ?case using st.silent_trans [OF r(2)] by (auto simp: ts n1)
qed

lemma btree_find_depth_ok:
  assumes "store_ok s" and "tree_at s t" and "ordered t" and "left_depth t < 2 ^ 31"
  shows "\<exists>s'. btree_find_depth s (root_block t) = Some (int (left_depth t), s') \<and> st.silent s s'"
proof -
  obtain s1 where r: "btree_node_read s (root_block t) = Some (Some (node_at s (root_block t)), s1)" "st.silent s s1" "store_ok s1"
    using tree_read [OF assms(1,2)] .
  have n1: "node_at s1 = node_at s" by (simp add: node_at_def st.silentD(2) [OF r(2)] fun_eq_iff)
  have "tree_at s1 t" using assms(2) tree_at_silent [OF r(2)] by simp
  from depth_loop_ok [OF r(3) this assms(3), of 0] assms(4) show ?thesis
    using r st.silent_trans [OF r(2)] by (auto simp: btree_find_depth_def n1)
qed

lemma btree_find_height_ok:
  assumes "store_ok s" and "tree_at s t" and "ordered t" and "left_depth t < 2 ^ 31"
  shows "\<exists>s'. btree_find_height s (root_block t) = Some (int (left_depth t), s') \<and> st.silent s s'"
proof -
  obtain s1 where r: "btree_node_read s (root_block t) = Some (Some (node_at s (root_block t)), s1)" "st.silent s s1" "store_ok s1"
    using tree_read [OF assms(1,2)] .
  let ?n = "node_at s (root_block t)"
  have n1: "node_at s1 = node_at s" by (simp add: node_at_def st.silentD(2) [OF r(2)] fun_eq_iff)
  have "tree_at s1 t" using assms(2) tree_at_silent [OF r(2)] by simp
  from height_loop_ok [OF r(3) this assms(3), of 0] assms(4) obtain s' where
      h: "height_loop s1 ?n 0 = Some (int (left_depth t), s')" "st.silent s1 s'" by (auto simp: n1)
  have ag: "aget (children ?n) 0 = Some (children ?n ! 0)" by (simp add: aget_def node_at_def node_load_def layout)
  have "left_depth t = 0" if "children ?n ! 0 = 0"
  proof (cases t)
    case (TNode b ks ts)
    have "0 < length ts" using assms(3) TNode by simp
    from tree_node(6,9) [OF assms(2) [unfolded TNode] this] show ?thesis
      using that tree_at_root TNode by fastforce
  qed simp
  then show ?thesis
    using r h ag st.silent_trans [OF r(2)] by (auto simp: btree_find_height_def)
qed

fun min_leaf :: "tree \<Rightarrow> u64" where
  "min_leaf (TLeaf b k v) = k"
| "min_leaf (TNode b ks ts) = (case ts of [] \<Rightarrow> 0 | t # r \<Rightarrow> min_leaf t)"

lemma min_leaf_min:
  assumes "ordered t"
  shows "min_leaf t \<in> tree_keys t \<and> (\<forall>k \<in> tree_keys t. min_leaf t \<le> k)"
  using assms
proof (induction t)
  case (TNode b ks ts)
  obtain t r where ts: "ts = t # r" using TNode.prems by (cases ts) auto
  have lk: "length ts = length ks + 1 \<or> length ts = length ks" and sk: "sorted_wrt (<) ks"
    and bd: "\<And>i k. i < length ts \<Longrightarrow> k \<in> tree_keys (ts ! i) \<Longrightarrow> (i < length ks \<longrightarrow> k \<le> ks ! i) \<and> (0 < i \<longrightarrow> ks ! (i - 1) < k)"
    using TNode.prems by auto
  have IH: "min_leaf t \<in> tree_keys t" "\<And>k. k \<in> tree_keys t \<Longrightarrow> min_leaf t \<le> k"
    using TNode.IH [of t] TNode.prems by (auto simp: ts)
  have "min_leaf t \<le> k" if i: "i < length ts" "k \<in> tree_keys (ts ! i)" for i k
  proof (cases "i = 0")
    case False
    then have "0 < length ks" "i - 1 < length ks" using i lk by auto
    then have "min_leaf t \<le> ks ! 0" using bd [of 0 "min_leaf t"] IH(1) by (simp add: ts)
    also have "ks ! 0 \<le> ks ! (i - 1)"
      using \<open>i - 1 < length ks\<close> sk False by (cases "i = 1") (auto simp: sorted_wrt_iff_nth_less less_imp_le)
    also have "ks ! (i - 1) < k" using bd [OF i] False by simp
    finally show ?thesis by simp
  qed (use i IH(2) ts in simp)
  moreover have "min_leaf (TNode b ks ts) = min_leaf t" by (simp add: ts)
  ultimately show ?case using IH(1) by (auto simp: in_set_conv_nth) (auto simp: ts)
qed simp

lemma btree_find_minimum_ok:
  assumes "store_ok s" and "tree_at s t" and "ordered t" and "t = TNode b ks ts"
  shows "\<exists>s'. btree_find_minimum s (root_block t) = Some (int_of_u64 (min_leaf t), s') \<and> st.silent s s'"
  using assms
proof (induction t arbitrary: s b ks ts)
  case (TNode b' ks' ts')
  obtain t r where ts: "ts' = t # r" using TNode.prems(3) by (cases ts') auto
  note T = tree_node [OF TNode.prems(2)]
  have c: "children (node_at s b') ! 0 = root_block t" "tree_at s t" "ordered t"
    using T(6) [of 0] T(9) [of 0] TNode.prems(3) by (simp_all add: ts)
  obtain s1 where r1: "btree_node_read s b' = Some (Some (node_at s b'), s1)" "st.silent s s1" "store_ok s1"
    using tree_read [OF TNode.prems(1,2)] by auto
  have n1: "node_at s1 = node_at s" by (simp add: node_at_def st.silentD(2) [OF r1(2)] fun_eq_iff)
  have t1: "tree_at s1 t" using c(2) tree_at_silent [OF r1(2)] by simp
  obtain s2 where r2: "btree_node_read s1 (root_block t) = Some (Some (node_at s (root_block t)), s2)" "st.silent s1 s2" "store_ok s2"
    using tree_read [OF r1(3) t1] by (auto simp: n1)
  note sil = st.silent_trans [OF r1(2) r2(2)]
  have ag: "aget (children (node_at s b')) 0 = Some (root_block t)" using c(1) T(4) by (simp add: aget_def)
  show ?case
  proof (cases t)
    case (TLeaf x k v)
    then have "btree_find_minimum s b' = Some (int_of_u64 (min_leaf (TNode b' ks' ts')), s2)"
      by (subst btree_find_minimum.simps) (use r1(1) r2(1) ag c(2) in \<open>simp add: ts\<close>)
    with sil show ?thesis by auto
  next
    case t: (TNode x xs us)
    have "btree_find_minimum s b' = btree_find_minimum s2 (root_block t)"
      by (subst btree_find_minimum.simps) (use r1(1) r2(1) ag c(2) t in simp)
    moreover have "tree_at s2 t" using t1 tree_at_silent [OF r2(2)] by simp
    ultimately show ?thesis
      using TNode.IH [of t s2 x xs us] r2(3) c(3) t st.silent_trans [OF sil] by (auto simp: ts)
  qed
qed simp

end
