(* ===== verification/Btree_Ops.thy ===== *)
theory Btree_Ops
  imports Btree
begin

text \<open>
  The operations that change a B+tree (\<^verbatim>\<open>src/btr.c\<close>): writing a tree through, insertion with its
  splits, deletion with borrowing and merging.

  A \<^verbatim>\<open>BTreeNode *\<close> of the sources is either the address of a local copy or a pointer into a block.
  A local copy is passed and returned as a value; a pointer into a block is a \<open>ptr\<close>, read and
  written in place (\<open>node_get\<close>, \<open>node_upd\<close>). \<open>btree_node_write\<close> through a pointer into the very block
  it writes copies the node onto itself.
\<close>

section \<open>Nodes in place and local copies\<close>

definition node_get :: "fs \<Rightarrow> ptr \<Rightarrow> BTreeNode option" where
  "node_get s p = do { b \<leftarrow> deref s p; Some (node_load b) }"

definition node_upd :: "fs \<Rightarrow> ptr \<Rightarrow> (BTreeNode \<Rightarrow> BTreeNode option) \<Rightarrow> fs option" where
  "node_upd s p f = do {
     b \<leftarrow> deref s p;
     n \<leftarrow> f (node_load b);
     assign s p (node_store n b)
   }"

definition node_put :: "fs \<Rightarrow> ptr \<Rightarrow> fs option" where
  "node_put s p = do {
     n \<leftarrow> node_get s p;
     (_, s) \<leftarrow> btree_node_write s n;
     Some s
   }"

text \<open>Reading into an uninitialised local without a check of the result.\<close>

definition read_node :: "fs \<Rightarrow> u64 \<Rightarrow> (BTreeNode \<times> fs) option" where
  "read_node s b = do {
     (r, s) \<leftarrow> btree_node_read s b;
     n \<leftarrow> r;
     Some (n, s)
   }"

definition set_key :: "nat \<Rightarrow> u64 \<Rightarrow> BTreeNode \<Rightarrow> BTreeNode option" where
  "set_key i v n = do { ks \<leftarrow> aset (keys n) i v; Some (n\<lparr>keys := ks\<rparr>) }"

definition set_child :: "nat \<Rightarrow> u64 \<Rightarrow> BTreeNode \<Rightarrow> BTreeNode option" where
  "set_child i v n = do { cs \<leftarrow> aset (children n) i v; Some (n\<lparr>children := cs\<rparr>) }"

section \<open>Writing a tree through\<close>

text \<open>
  The loop over the children stops at the first empty slot. The mutex is held while the pin count is
  decreased.
\<close>

fun write_children :: "(fs \<Rightarrow> u64 \<Rightarrow> (int \<times> fs) option) \<Rightarrow> nat \<Rightarrow> fs \<Rightarrow> ptr \<Rightarrow> nat \<Rightarrow> int \<Rightarrow> (int \<times> fs) option" where
  "write_children f 0 s p i rv = Some (rv, s)"
| "write_children f (Suc r) s p i rv = do {
     n \<leftarrow> node_get s p;
     c \<leftarrow> aget (children n) i;
     if c \<noteq> 0 then do {
       (x, s) \<leftarrow> f s c;
       rv \<leftarrow> c_int (rv + x);
       write_children f r s p (Suc i) rv
     }
     else Some (rv, s)
   }"

lemma write_children_mono [partial_function_mono]:
  assumes "\<And>s b. mono_option (\<lambda>f. B f s b)"
  shows "mono_option (\<lambda>f. write_children (B f) r s p i rv)"
proof (induction r arbitrary: s i rv)
  case 0
  then show ?case by (simp add: option.const_mono)
next
  case (Suc r)
  show ?case
    unfolding write_children.simps
    by (intro bind_mono option.const_mono if_mono Suc.IH assms) (simp add: split_def bind_mono option.const_mono Suc.IH)
qed

partial_function (option) btree_write :: "fs \<Rightarrow> u64 \<Rightarrow> (int \<times> fs) option" where
  "btree_write s block_num = do {
     (p, s) \<leftarrow> get_block s 0 block_num;
     b \<leftarrow> deref s p;
     if btype b \<noteq> BLOCK_TYPE_BTREE_NODE then Some (-1, s)
     else do {
       n \<leftarrow> node_get s p;
       s \<leftarrow> mutex_lock s;
       (e, s) \<leftarrow> disk_write_block s (block_number n) p;
       (rv, s) \<leftarrow> (if e = 0 then do {
                     s \<leftarrow> decrease_pin_count s 0 (block_number n);
                     Some (1, s)
                   }
                   else Some (0, s));
       let s = mutex_unlock s;
       write_children btree_write (unat (num_keys n) + 1) s p 0 rv
     }
   }"

section \<open>Insertion\<close>

text \<open>The position for a new child: after the last leaf with a smaller key.\<close>

fun find_pos :: "nat \<Rightarrow> fs \<Rightarrow> BTreeNode \<Rightarrow> ptr \<Rightarrow> nat \<Rightarrow> nat \<Rightarrow> (nat \<times> fs) option" where
  "find_pos 0 s root node j pos = Some (pos, s)"
| "find_pos (Suc r) s root node j pos = do {
     c \<leftarrow> aget (children root) j;
     if c = 0 then Some (pos, s)
     else do {
       (child, s) \<leftarrow> read_node s c;
       n \<leftarrow> node_get s node;
       (pos, s) \<leftarrow>
         (if is_leaf child then Some (if key child < key n then Suc j else pos, s)
          else do {
            (m, s) \<leftarrow> btree_find_maximum s (block_number child);
            Some (if m < key n then Suc j else j, s)
          });
       find_pos r s root node (Suc j) pos
     }
   }"

text \<open>\<open>shift_up r j xs\<close>: \<^verbatim>\<open>xs[j + 1] = xs[j]\<close> for \<open>r\<close> values of \<open>j\<close> downwards.\<close>

fun shift_up :: "nat \<Rightarrow> nat \<Rightarrow> 'a list \<Rightarrow> 'a list option" where
  "shift_up 0 j xs = Some xs"
| "shift_up (Suc r) j xs = do {
     x \<leftarrow> aget xs j;
     xs \<leftarrow> aset xs (Suc j) x;
     shift_up r (j - 1) xs
   }"

definition btree_insert_nonfull :: "fs \<Rightarrow> BTreeNode \<Rightarrow> ptr \<Rightarrow> (int \<times> BTreeNode \<times> fs) option" where
  "btree_insert_nonfull s root node =
     (if is_leaf root then Some (-1, root, s)
      else do {
        let n = unat (num_keys root);
        (pos, s) \<leftarrow> find_pos (n + 1) s root node 0 0;
        let pos = min pos n;
        cs \<leftarrow> shift_up (n + 1 - pos) n (children root);
        ks \<leftarrow> shift_up (n - pos) (n - 1) (keys root);
        nd \<leftarrow> node_get s node;
        (m, s) \<leftarrow> btree_find_maximum s (block_number nd);
        ks \<leftarrow> aset ks pos m;
        cs \<leftarrow> aset cs pos (block_number nd);
        s \<leftarrow> node_upd s node (\<lambda>n. Some (n\<lparr>parent := block_number root\<rparr>));
        s \<leftarrow> node_put s node;
        Some (0, root\<lparr>keys := ks, children := cs, num_keys := num_keys root + 1\<rparr>, s)
      })"

text \<open>The child to descend into, by the maxima of the subtrees: the first that is not below the key.\<close>

fun max_child :: "nat \<Rightarrow> fs \<Rightarrow> BTreeNode \<Rightarrow> u64 \<Rightarrow> nat \<Rightarrow> nat \<Rightarrow> (nat \<times> fs) option" where
  "max_child 0 s node k i idx = Some (idx, s)"
| "max_child (Suc r) s node k i idx = do {
     c \<leftarrow> aget (children node) i;
     if c \<noteq> 0 then do {
       (m, s) \<leftarrow> btree_find_maximum s c;
       if k \<le> m then Some (i, s) else max_child r s node k (Suc i) (Suc i)
     }
     else max_child r s node k (Suc i) idx
   }"

text \<open>The loop bound, the depth of the whole tree less one, is computed again in every round.\<close>

partial_function (option) descend :: "fs \<Rightarrow> u64 \<Rightarrow> u64 \<Rightarrow> BTreeNode \<Rightarrow> int \<Rightarrow> (BTreeNode \<times> fs) option" where
  "descend s root_b k node d = do {
     (depth, s) \<leftarrow> btree_find_depth s root_b;
     limit \<leftarrow> c_int (depth - 1);
     if d < limit then do {
       (ci, s) \<leftarrow> max_child (unat (num_keys node)) s node k 0 0;
       c \<leftarrow> aget (children node) (min ci (unat (num_keys node)));
       c \<leftarrow> (if c \<noteq> 0 then Some (Some c) else last_child (unat (num_keys node) + 1) (children node));
       (case c of
          None \<Rightarrow> Some (node, s)
        | Some c \<Rightarrow> do {
            (r, s) \<leftarrow> btree_node_read s c;
            d \<leftarrow> c_int (d + 1);
            descend s root_b k (reread node r) d
          })
     }
     else Some (node, s)
   }"

text \<open>The block number is returned as an \<^verbatim>\<open>int\<close>.\<close>

definition btree_insertion_search :: "fs \<Rightarrow> u64 \<Rightarrow> u64 \<Rightarrow> (int \<times> fs) option" where
  "btree_insertion_search s root_b k = do {
     (root, s) \<leftarrow> read_node s root_b;
     c \<leftarrow> aget (children root) 0;
     if c = 0 then Some (int_of_u64 (block_number root), s)
     else do {
       (depth, s) \<leftarrow> btree_find_depth s root_b;
       limit \<leftarrow> c_int (depth - 1);
       if limit \<le> 0 then Some (int_of_u64 (block_number root), s)
       else do {
         (node, s) \<leftarrow> descend s root_b k root 0;
         Some (int_of_u64 (block_number node), s)
       }
     }
   }"

text \<open>Setting the first \<open>n\<close> keys of a local copy to the maxima of their children.\<close>

definition refresh_keys :: "nat \<Rightarrow> BTreeNode \<Rightarrow> fs \<Rightarrow> (BTreeNode \<times> fs) option" where
  "refresh_keys n node s =
     for_range n 0 (\<lambda>i (node, s). do {
       c \<leftarrow> aget (children node) i;
       if c \<noteq> 0 then do {
         (m, s) \<leftarrow> btree_find_maximum s c;
         node \<leftarrow> set_key i m node;
         Some (node, s)
       }
       else Some (node, s)
     }) (node, s)"

definition btree_update_parent_keys :: "fs \<Rightarrow> BTreeNode \<Rightarrow> fs option" where
  "btree_update_parent_keys s node =
     (if parent node = 0 then Some s
      else do {
        (p, s) \<leftarrow> read_node s (parent node);
        (p, s) \<leftarrow> refresh_keys (unat (num_keys p)) p s;
        (_, s) \<leftarrow> btree_node_write s p;
        Some s
      })"

section \<open>Splitting\<close>

text \<open>Giving the node in block \<open>c\<close>, if there is one, the node at \<open>p\<close> as its parent.\<close>

definition reparent :: "fs \<Rightarrow> u64 \<Rightarrow> ptr \<Rightarrow> fs option" where
  "reparent s c p =
     (if c = 0 then Some s
      else do {
        (child, s) \<leftarrow> read_node s c;
        n \<leftarrow> node_get s p;
        (_, s) \<leftarrow> btree_node_write s (child\<lparr>parent := block_number n\<rparr>);
        Some s
      })"

text \<open>A new node whose result is used without a check for \<^verbatim>\<open>NULL\<close>.\<close>

definition new_node :: "fs \<Rightarrow> bool \<Rightarrow> (ptr \<times> fs) option" where
  "new_node s leaf = do {
     (r, s) \<leftarrow> btree_node_create s leaf;
     (_, p) \<leftarrow> r;
     Some (p, s)
   }"

text \<open>Setting the keys of the node at \<open>p\<close> to the maxima of its children.\<close>

definition refresh_in_place :: "fs \<Rightarrow> ptr \<Rightarrow> fs option" where
  "refresh_in_place s p = do {
     n \<leftarrow> node_get s p;
     for_range (unat (num_keys n)) 0 (\<lambda>i s. do {
       n \<leftarrow> node_get s p;
       c \<leftarrow> aget (children n) i;
       if c \<noteq> 0 then do {
         (m, s) \<leftarrow> btree_find_maximum s c;
         node_upd s p (set_key i m)
       }
       else Some s
     }) s
   }"

text \<open>Moving child \<open>i\<close> of a local copy to slot \<open>j\<close> of the node at \<open>p\<close>.\<close>

definition move_child :: "BTreeNode \<Rightarrow> nat \<Rightarrow> ptr \<Rightarrow> nat \<Rightarrow> fs \<Rightarrow> fs option" where
  "move_child root i p j s = do {
     c \<leftarrow> aget (children root) i;
     s \<leftarrow> node_upd s p (set_child j c);
     reparent s c p
   }"

definition btree_split_root :: "fs \<Rightarrow> BTreeNode \<Rightarrow> (BTreeNode \<times> fs) option" where
  "btree_split_root s root = do {
     let n = unat (num_keys root);
     (a, s) \<leftarrow> new_node s False;
     (b, s) \<leftarrow> new_node s False;
     nb \<leftarrow> node_get s b;
     s \<leftarrow> node_upd s a (\<lambda>x. Some (x\<lparr>right_sibling := block_number nb\<rparr>));
     na \<leftarrow> node_get s a;
     s \<leftarrow> node_upd s b (\<lambda>x. Some (x\<lparr>left_sibling := block_number na\<rparr>));
     s \<leftarrow> for_range MIN_KEYS 0 (\<lambda>i s. do {
       s \<leftarrow> move_child root i a i s;
       node_upd s a (\<lambda>x. Some (x\<lparr>num_keys := num_keys x + 1\<rparr>))
     }) s;
     s \<leftarrow> move_child root MIN_KEYS a MIN_KEYS s;
     s \<leftarrow> for_range (n - (MIN_KEYS + 1)) (MIN_KEYS + 1) (\<lambda>i s. do {
       k \<leftarrow> aget (keys root) i;
       s \<leftarrow> node_upd s b (set_key (i - MIN_KEYS - 1) k);
       node_upd s b (\<lambda>x. Some (x\<lparr>num_keys := num_keys x + 1\<rparr>))
     }) s;
     s \<leftarrow> for_range (n + 1 - (MIN_KEYS + 1)) (MIN_KEYS + 1) (\<lambda>i s. move_child root i b (i - MIN_KEYS - 1) s) s;
     s \<leftarrow> refresh_in_place s a;
     s \<leftarrow> refresh_in_place s b;
     c \<leftarrow> aget (children root) MAX_KEYS;
     s \<leftarrow> (if c \<noteq> 0 then do {
             nb \<leftarrow> node_get s b;
             move_child root MAX_KEYS b (unat (num_keys nb)) s
           }
           else Some s);
     na \<leftarrow> node_get s a;
     nb \<leftarrow> node_get s b;
     let root = root\<lparr>leaf_byte := 0, num_keys := 2,
           children := [block_number na, block_number nb] @ replicate (MAX_KEYS - 1) 0,
           keys := keys root ! 0 # replicate (MAX_KEYS - 1) 0\<rparr>;
     s \<leftarrow> node_upd s a (\<lambda>x. Some (x\<lparr>parent := block_number root\<rparr>));
     s \<leftarrow> node_upd s b (\<lambda>x. Some (x\<lparr>parent := block_number root\<rparr>));
     (m, s) \<leftarrow> btree_find_maximum s (block_number na);
     root \<leftarrow> set_key 0 m root;
     (m, s) \<leftarrow> btree_find_maximum s (block_number nb);
     root \<leftarrow> set_key 1 m root;
     s \<leftarrow> node_put s a;
     s \<leftarrow> node_put s b;
     (_, s) \<leftarrow> btree_node_write s root;
     Some (root, s)
   }"

text \<open>
  The first half of \<open>btree_split_child\<close>: a new right sibling at \<open>b\<close> takes the upper half of the local
  copy \<open>child\<close>.
\<close>

definition split_off :: "fs \<Rightarrow> BTreeNode \<Rightarrow> BTreeNode \<Rightarrow> (ptr \<times> BTreeNode \<times> fs) option" where
  "split_off s node child = do {
     let n = unat (num_keys child);
     (b, s) \<leftarrow> new_node s False;
     s \<leftarrow> node_upd s b (\<lambda>x. Some (x\<lparr>parent := block_number node\<rparr>));
     nb \<leftarrow> node_get s b;
     let child = child\<lparr>right_sibling := block_number nb\<rparr>;
     s \<leftarrow> node_upd s b (\<lambda>x. Some (x\<lparr>left_sibling := block_number child\<rparr>));
     (child, s) \<leftarrow> for_range (n - (MIN_KEYS + 1)) (MIN_KEYS + 1) (\<lambda>i (child, s). do {
       k \<leftarrow> aget (keys child) i;
       s \<leftarrow> node_upd s b (set_key (i - MIN_KEYS - 1) k);
       child \<leftarrow> set_key i 0 child;
       s \<leftarrow> node_upd s b (\<lambda>x. Some (x\<lparr>num_keys := num_keys x + 1\<rparr>));
       Some (child, s)
     }) (child, s);
     (child, s) \<leftarrow> for_range (n + 1 - (MIN_KEYS + 1)) (MIN_KEYS + 1) (\<lambda>i (child, s). do {
       s \<leftarrow> move_child child i b (i - MIN_KEYS - 1) s;
       child \<leftarrow> set_child i 0 child;
       Some (child, s)
     }) (child, s);
     child \<leftarrow> set_key MIN_KEYS 0 child;
     Some (b, child\<lparr>num_keys := of_nat MIN_KEYS\<rparr>, s)
   }"

text \<open>Entering the new sibling behind position \<open>ix\<close> of a local copy of the parent.\<close>

definition adopt :: "fs \<Rightarrow> BTreeNode \<Rightarrow> nat \<Rightarrow> ptr \<Rightarrow> (BTreeNode \<times> fs) option" where
  "adopt s node ix b = do {
     let n = unat (num_keys node);
     cs \<leftarrow> shift_up (n - ix) n (children node);
     nb \<leftarrow> node_get s b;
     cs \<leftarrow> aset cs (ix + 1) (block_number nb);
     Some (node\<lparr>children := cs\<rparr>, s)
   }"

text \<open>The search for a child by its block number, from slot 0 to slot \<^verbatim>\<open>num_keys\<close>.\<close>

fun slot_search :: "nat \<Rightarrow> u64 list \<Rightarrow> u64 \<Rightarrow> nat \<Rightarrow> nat option" where
  "slot_search 0 cs b i = Some i"
| "slot_search (Suc r) cs b i = do {
     c \<leftarrow> aget cs i;
     if c = b then Some i else slot_search r cs b (Suc i)
   }"

text \<open>
  When the parent has room, neither the child, nor its new sibling, nor the parent is written: the
  parent and the child are local copies of the caller. Otherwise the parent is split first.
\<close>

partial_function (option) btree_split_child ::
  "fs \<Rightarrow> BTreeNode \<Rightarrow> nat \<Rightarrow> BTreeNode \<Rightarrow> (BTreeNode \<times> BTreeNode \<times> fs) option" where
  "btree_split_child s node ix child = do {
     (b, child, s) \<leftarrow> split_off s node child;
     if unat (num_keys node) < MAX_KEYS then do {
       (node, s) \<leftarrow> adopt s node ix b;
       nb \<leftarrow> node_get s b;
       (m, s) \<leftarrow> btree_find_maximum s (block_number nb);
       node \<leftarrow> set_key ix m node;
       s \<leftarrow> node_upd s b (\<lambda>x. Some (x\<lparr>parent := block_number node\<rparr>));
       let node = node\<lparr>num_keys := num_keys node + 1\<rparr>;
       (node, s) \<leftarrow> refresh_keys (unat (num_keys node)) node s;
       Some (node, child, s)
     }
     else do {
       (node, s) \<leftarrow>
         (if parent node \<noteq> 0 then do {
            (gp, s) \<leftarrow> read_node s (parent node);
            gi \<leftarrow> slot_search (unat (num_keys gp) + 1) (children gp) (block_number node) 0;
            (gp, node, s) \<leftarrow> btree_split_child s gp gi node;
            (_, s) \<leftarrow> btree_node_write s gp;
            Some (node, s)
          }
          else btree_split_root s node);
       (cp, s) \<leftarrow> read_node s (parent child);
       ni \<leftarrow> slot_search (unat (num_keys cp) + 1) (children cp) (block_number child) 0;
       (cp, s) \<leftarrow>
         (if unat (num_keys cp) < MAX_KEYS then do {
            (cp, s) \<leftarrow> adopt s cp ni b;
            let cp = cp\<lparr>num_keys := num_keys cp + 1\<rparr>;
            refresh_keys (unat (num_keys cp)) cp s
          }
          else Some (cp, s));
       (_, s) \<leftarrow> btree_node_write s child;
       s \<leftarrow> node_put s b;
       (_, s) \<leftarrow> btree_node_write s cp;
       Some (node, child, s)
     }
   }"

section \<open>The insertion itself\<close>

text \<open>The first key of the parent that is 0 or not below the maximum of the subtree in \<open>b\<close>.\<close>

fun key_index :: "nat \<Rightarrow> fs \<Rightarrow> u64 list \<Rightarrow> u64 \<Rightarrow> nat \<Rightarrow> (nat \<times> fs) option" where
  "key_index 0 s ks b i = Some (i, s)"
| "key_index (Suc r) s ks b i = do {
     x \<leftarrow> aget ks i;
     (m, s) \<leftarrow> btree_find_maximum s b;
     if x < m \<and> x \<noteq> 0 then key_index r s ks b (Suc i) else Some (i, s)
   }"

definition find_target :: "fs \<Rightarrow> u64 \<Rightarrow> u64 \<Rightarrow> (BTreeNode \<times> fs) option" where
  "find_target s root_b k = do {
     (t, s) \<leftarrow> btree_insertion_search s root_b k;
     read_node s (word_of_int t)
   }"

text \<open>After a split the target is searched and read again; a failed read keeps the old copy.\<close>

definition refind_target :: "fs \<Rightarrow> u64 \<Rightarrow> u64 \<Rightarrow> BTreeNode \<Rightarrow> (BTreeNode \<times> fs) option" where
  "refind_target s root_b k target = do {
     (t, s) \<leftarrow> btree_insertion_search s root_b k;
     (r, s) \<leftarrow> btree_node_read s (word_of_int t);
     Some (reread target r, s)
   }"

definition split_target :: "fs \<Rightarrow> BTreeNode \<Rightarrow> (BTreeNode \<times> fs) option" where
  "split_target s target =
     (if parent target \<noteq> 0 then do {
        (p, s) \<leftarrow> read_node s (parent target);
        (i, s) \<leftarrow> key_index MAX_KEYS s (keys p) (block_number target) 0;
        (_, target, s) \<leftarrow> btree_split_child s p i target;
        Some (target, s)
      }
      else btree_split_root s target)"

definition btree_insert_nocreate :: "fs \<Rightarrow> u64 \<Rightarrow> u64 \<Rightarrow> ptr \<Rightarrow> (int \<times> fs) option" where
  "btree_insert_nocreate s root_b k node = do {
     (target, s) \<leftarrow> find_target s root_b k;
     (target, s) \<leftarrow>
       (if unat (num_keys target) = MAX_KEYS
        then if keys target ! (MAX_KEYS - 1) < k \<and> children target ! MAX_KEYS = 0 then do {
               n \<leftarrow> node_get s node;
               target \<leftarrow> set_child MAX_KEYS (block_number n) target;
               s \<leftarrow> node_upd s node (\<lambda>x. Some (x\<lparr>parent := block_number target\<rparr>));
               (_, s) \<leftarrow> btree_node_write s target;
               Some (target, s)
             }
             else do {
               (target, s) \<leftarrow> split_target s target;
               (target, s) \<leftarrow> refind_target s root_b k target;
               (_, target, s) \<leftarrow> btree_insert_nonfull s target node;
               (_, s) \<leftarrow> btree_node_write s target;
               Some (target, s)
             }
        else do {
          (_, target, s) \<leftarrow> btree_insert_nonfull s target node;
          (_, s) \<leftarrow> btree_node_write s target;
          Some (target, s)
        });
     s \<leftarrow> btree_update_parent_keys s target;
     s \<leftarrow> node_put s node;
     Some (0, s)
   }"

definition btree_insert :: "fs \<Rightarrow> u64 \<Rightarrow> u64 \<Rightarrow> u64 \<Rightarrow> u32 \<Rightarrow> (int \<times> fs) option" where
  "btree_insert s root_b k v ty = do {
     (node, s) \<leftarrow> new_node s True;
     s \<leftarrow> node_upd s node (\<lambda>x. Some (x\<lparr>key := k, n_value := v, file_type := ty\<rparr>));
     s \<leftarrow> node_put s node;
     btree_insert_nocreate s root_b k node
   }"

section \<open>Deletion\<close>

text \<open>
  Borrowing returns the block of the borrowed child, or 0. From the left sibling the last child is
  taken, searched from slot \<open>r - 1\<close> down.
\<close>

fun take_last :: "nat \<Rightarrow> BTreeNode \<Rightarrow> (u64 \<times> BTreeNode) option" where
  "take_last 0 n = Some (0, n)"
| "take_last (Suc i) n = do {
     c \<leftarrow> aget (children n) i;
     if c \<noteq> 0 then do {
       n \<leftarrow> (if i < unat (num_keys n) then set_key i 0 n else Some n);
       n \<leftarrow> set_child i 0 n;
       Some (c, n\<lparr>num_keys := num_keys n - 1\<rparr>)
     }
     else take_last i n
   }"

definition btree_borrow_left :: "fs \<Rightarrow> BTreeNode \<Rightarrow> (u64 \<times> fs) option" where
  "btree_borrow_left s node =
     (if left_sibling node = 0 then Some (0, s)
      else do {
        (l, s) \<leftarrow> read_node s (left_sibling node);
        if unat (num_keys l) \<le> MIN_KEYS then Some (0, s)
        else do {
          (rv, l) \<leftarrow> take_last (unat (num_keys l) + 1) l;
          (_, s) \<leftarrow> btree_node_write s l;
          Some (rv, s)
        }
      })"

text \<open>\<open>shift_down n i xs\<close>: \<^verbatim>\<open>xs[j] = xs[j + 1]\<close> for \<open>n\<close> values of \<open>j\<close> from \<open>i\<close>.\<close>

definition shift_down :: "nat \<Rightarrow> nat \<Rightarrow> 'a list \<Rightarrow> 'a list option" where
  "shift_down n i = for_range n i (\<lambda>j xs. do { x \<leftarrow> aget xs (Suc j); aset xs j x })"

definition btree_borrow_right :: "fs \<Rightarrow> BTreeNode \<Rightarrow> (u64 \<times> fs) option" where
  "btree_borrow_right s node =
     (if right_sibling node = 0 then Some (0, s)
      else do {
        (r, s) \<leftarrow> read_node s (right_sibling node);
        if unat (num_keys r) \<le> MIN_KEYS then Some (0, s)
        else do {
          rv \<leftarrow> aget (children r) 0;
          ks \<leftarrow> shift_down MAX_KEYS 0 (keys r);
          cs \<leftarrow> shift_down (MAX_KEYS + 1) 0 (children r);
          ks \<leftarrow> aset ks (MAX_KEYS - 1) 0;
          cs \<leftarrow> aset cs MAX_KEYS 0;
          (_, s) \<leftarrow> btree_node_write s (r\<lparr>keys := ks, children := cs, num_keys := num_keys r - 1\<rparr>);
          Some (rv, s)
        }
      })"

text \<open>
  The only child of the root takes the place of the root. The local \<open>child\<close> is read again for every
  grandchild and filled with random bytes after each, so a failed read leaves it as it was only in
  the first round that reads it.
\<close>

definition btree_promote_root :: "fs \<Rightarrow> BTreeNode \<Rightarrow> (BTreeNode \<times> fs) option" where
  "btree_promote_root s root = do {
     let page = int_of_u64 (block_number root);
     c \<leftarrow> aget (children root) 0;
     (child, s) \<leftarrow> read_node s c;
     let root = child\<lparr>block_number := word_of_int page, parent := 0\<rparr>;
     (_, s) \<leftarrow> btree_node_write s root;
     s \<leftarrow> btree_node_free s (block_number child);
     (_, s) \<leftarrow> for_range (unat (num_keys root) + 1) 0 (\<lambda>i (child, s). do {
       c \<leftarrow> aget (children root) i;
       if c \<noteq> 0 then do {
         (r, s) \<leftarrow> btree_node_read s c;
         child \<leftarrow> (case r of None \<Rightarrow> child | Some n \<Rightarrow> Some n);
         (_, s) \<leftarrow> btree_node_write s (child\<lparr>parent := block_number root\<rparr>);
         Some (None, s)
       }
       else Some (child, s)
     }) (Some child, s);
     Some (root, s)
   }"

text \<open>
  Merging the children at \<open>ix\<close> and \<open>ix + 1\<close> of a local copy. The second loop stores the children of
  the right node into the keys of the left one, up to and including index \<open>MAX_KEYS\<close>.
\<close>

definition merge_into :: "BTreeNode \<Rightarrow> BTreeNode \<Rightarrow> BTreeNode option" where
  "merge_into a b = do {
     let a = a\<lparr>right_sibling := right_sibling b\<rparr>;
     a \<leftarrow> for_range (MAX_KEYS - (MIN_KEYS + 1)) (MIN_KEYS + 1) (\<lambda>i a. do {
       k \<leftarrow> aget (keys b) (i - MIN_KEYS - 1);
       a \<leftarrow> set_key i k a;
       Some (a\<lparr>num_keys := num_keys a + 1\<rparr>)
     }) a;
     for_range (MAX_KEYS + 1 - (MIN_KEYS + 1)) (MIN_KEYS + 1) (\<lambda>i a. do {
       c \<leftarrow> aget (children b) (i - MIN_KEYS - 1);
       set_key i c a
     }) a
   }"

partial_function (option) btree_merge_children :: "fs \<Rightarrow> BTreeNode \<Rightarrow> nat \<Rightarrow> (BTreeNode \<times> fs) option" where
  "btree_merge_children s p ix = do {
     let i = (if ix = MAX_KEYS then ix - 1 else ix);
     ca \<leftarrow> aget (children p) i;
     if ca = 0 then Some (p, s)
     else do {
       cb \<leftarrow> aget (children p) (i + 1);
       if cb = 0 then Some (p, s)
       else do {
         (a, s) \<leftarrow> read_node s ca;
         (b, s) \<leftarrow> read_node s cb;
         a \<leftarrow> merge_into a b;
         (_, s) \<leftarrow> btree_node_write s a;
         ks \<leftarrow> shift_down (MAX_KEYS - 1 - (i + 1)) (i + 1) (keys p);
         ks \<leftarrow> aset ks (MAX_KEYS - 1) 0;
         cs \<leftarrow> shift_down (MAX_KEYS - (i + 1)) (i + 1) (children p);
         s \<leftarrow> btree_node_free s (block_number b);
         let p = p\<lparr>keys := ks, children := cs, num_keys := num_keys p - 1\<rparr>;
         if unat (num_keys p) < MIN_KEYS then
           if parent p = 0 then do {
             c \<leftarrow> aget (children p) 1;
             if c = 0 then btree_promote_root s p else Some (p, s)
           }
           else do {
             (rv, s) \<leftarrow> btree_borrow_left s p;
             if int_of_u64 rv = -1 then do {
               (rv, s) \<leftarrow> btree_borrow_right s p;
               if int_of_u64 rv = -1 then do {
                 (gp, s) \<leftarrow> read_node s (parent p);
                 (j, s) \<leftarrow> key_index MAX_KEYS s (keys gp) (block_number p) 0;
                 (gp, s) \<leftarrow> btree_merge_children s gp j;
                 (_, s) \<leftarrow> btree_node_write s gp;
                 Some (p, s)
               }
               else Some (p, s)
             }
             else Some (p, s)
           }
         else Some (p, s)
       }
     }
   }"

text \<open>The descent of \<open>btree_remove_key\<close> to the lowest inner node, and the child index it uses.\<close>

fun down_index :: "nat \<Rightarrow> u64 list \<Rightarrow> u64 \<Rightarrow> nat option" where
  "down_index 0 ks k = Some 0"
| "down_index (Suc i) ks k = do {
     x \<leftarrow> aget ks (Suc i);
     if k \<le> x then Some (Suc i) else down_index i ks k
   }"

partial_function (option) to_bottom :: "fs \<Rightarrow> BTreeNode \<Rightarrow> u64 \<Rightarrow> (BTreeNode \<times> fs) option" where
  "to_bottom s node k =
     (if is_leaf node then Some (node, s)
      else do {
        c \<leftarrow> aget (children node) 0;
        (first_child, s) \<leftarrow> read_node s c;
        if is_leaf first_child then Some (node, s)
        else do {
          ci \<leftarrow> down_index (unat (num_keys node)) (keys node) k;
          c \<leftarrow> aget (children node) ci;
          (r, s) \<leftarrow> btree_node_read s c;
          to_bottom s (reread node r) k
        }
      })"

fun leaf_slot :: "nat \<Rightarrow> fs \<Rightarrow> BTreeNode \<Rightarrow> u64 \<Rightarrow> nat \<Rightarrow> (nat option \<times> fs) option" where
  "leaf_slot 0 s node k i = Some (None, s)"
| "leaf_slot (Suc r) s node k i = do {
     c \<leftarrow> aget (children node) i;
     if c \<noteq> 0 then do {
       (child, s) \<leftarrow> read_node s c;
       if is_leaf child \<and> key child = k then Some (Some i, s) else leaf_slot r s node k (Suc i)
     }
     else leaf_slot r s node k (Suc i)
   }"

fun key_slot :: "nat \<Rightarrow> u64 list \<Rightarrow> u64 \<Rightarrow> nat \<Rightarrow> nat option" where
  "key_slot 0 ks k i = Some i"
| "key_slot (Suc r) ks k i = do {
     x \<leftarrow> aget ks i;
     if x < k \<and> x \<noteq> 0 then key_slot r ks k (Suc i) else Some i
   }"

definition drop_slot :: "BTreeNode \<Rightarrow> nat \<Rightarrow> BTreeNode option" where
  "drop_slot node i = do {
     let n = unat (num_keys node);
     ks \<leftarrow> shift_down (n - i) i (keys node);
     cs \<leftarrow> shift_down (n + 1 - i) i (children node);
     let node = node\<lparr>keys := ks, children := cs, num_keys := num_keys node - 1\<rparr>;
     node \<leftarrow> (if i = unat (num_keys node) then set_key (unat (num_keys node)) 0 node else Some node);
     set_child (unat (num_keys node) + 1) 0 node
   }"

definition handle_underflow :: "fs \<Rightarrow> BTreeNode \<Rightarrow> u64 \<Rightarrow> fs option" where
  "handle_underflow s node k =
     (if unat (num_keys node) < MIN_KEYS then do {
        (rv, s) \<leftarrow> btree_borrow_left s node;
        if rv = 0 then do {
          (rv, s) \<leftarrow> btree_borrow_right s node;
          if rv = 0 then
            if parent node \<noteq> 0 then do {
              (gp, s) \<leftarrow> read_node s (parent node);
              j \<leftarrow> key_slot MAX_KEYS (keys gp) k 0;
              (gp, s) \<leftarrow> btree_merge_children s gp j;
              (_, s) \<leftarrow> btree_node_write s gp;
              Some s
            }
            else do {
              (depth, s) \<leftarrow> btree_find_depth s (block_number node);
              if depth > 1 then do {
                (node, s) \<leftarrow> btree_merge_children s node 0;
                (_, s) \<leftarrow> btree_node_write s node;
                (_, s) \<leftarrow> btree_promote_root s node;
                Some s
              }
              else Some s
            }
          else Some s
        }
        else Some s
      }
      else Some s)"

text \<open>
  After the descent the parent of the node it ended at is read. For the root this reads block 0,
  which is no node, and the copy stays as it is.
\<close>

definition btree_remove_key :: "fs \<Rightarrow> u64 \<Rightarrow> u64 \<Rightarrow> fs option" where
  "btree_remove_key s root_b k = do {
     (node, s) \<leftarrow> read_node s root_b;
     (node, s) \<leftarrow> to_bottom s node k;
     (r, s) \<leftarrow> btree_node_read s (parent node);
     let node = reread node r;
     (i, s) \<leftarrow> leaf_slot (unat (num_keys node) + 1) s node k 0;
     (case i of
        None \<Rightarrow> Some s
      | Some i \<Rightarrow> do {
          node \<leftarrow> drop_slot node i;
          (_, s) \<leftarrow> btree_node_write s node;
          handle_underflow s node k
        })
   }"

definition btree_delete :: "fs \<Rightarrow> u64 \<Rightarrow> u64 \<Rightarrow> (u64 \<times> fs) option" where
  "btree_delete s root_b k = do {
     (rv, s) \<leftarrow> btree_search s root_b k;
     if rv \<noteq> 0 then do {
       (node, s) \<leftarrow> read_node s rv;
       s \<leftarrow> btree_remove_key s (parent node) k;
       s \<leftarrow> btree_node_free s rv;
       Some (rv, s)
     }
     else Some (rv, s)
   }"

section \<open>Printing\<close>

text \<open>
  \<open>btree_print\<close> is debugging output, but \<^verbatim>\<open>directory.c\<close> calls it in the release build: it reads every
  node of the tree and all keys and children of an inner node. The text it prints is left out.
\<close>

partial_function (option) btree_print :: "fs \<Rightarrow> u64 \<Rightarrow> fs option" where
  "btree_print s b = do {
     (node, s) \<leftarrow> read_node s b;
     if is_leaf node then Some s
     else do {
       let n = unat (num_keys node);
       _ \<leftarrow> for_range n 0 (\<lambda>i _. do { _ \<leftarrow> aget (keys node) i; Some () }) ();
       for_range (n + 1) 0 (\<lambda>i s. do {
         c \<leftarrow> aget (children node) i;
         if c \<noteq> 0 then btree_print s c else Some s
       }) s
     }
   }"

end
