(* ===== verification/Btree_Flat.thy ===== *)
theory Btree_Flat
  imports Btree_Ops
begin

text \<open>
  Insertion into and deletion from a tree of one level, a root whose children are leaves: this is
  the shape of every directory of up to 250 entries. The lemmas follow the operations step by step
  on the map from blocks to nodes.
\<close>

section \<open>Steps on the nodes\<close>

text \<open>
  \<open>nodes_to s s' N\<close>: the nodes are as in \<open>N\<close> afterwards, no block became or stopped being a node, and
  nothing but nodes changed.
\<close>

definition nodes_to :: "fs \<Rightarrow> fs \<Rightarrow> (u64 \<Rightarrow> BTreeNode) \<Rightarrow> bool" where
  "nodes_to s s' N \<longleftrightarrow> st.keeps s s' \<and> is_node s' = is_node s \<and> node_at s' = N \<and>
     (\<forall>c. \<not> is_node s c \<longrightarrow> view s' c = view s c)"

lemma nodes_to_trans: "nodes_to s t N \<Longrightarrow> nodes_to t u M \<Longrightarrow> nodes_to s u M"
  by (auto simp: nodes_to_def intro: st.keeps_trans)

lemma nodes_to_silent:
  assumes "st.silent s s'"
  shows "nodes_to s s' (node_at s)"
  using st.silentD [OF assms] st.keepsD(2) [OF st.silentD(1) [OF assms]]
  by (simp add: nodes_to_def is_node_def [abs_def] node_at_def [abs_def])

lemma nodes_toD:
  assumes "nodes_to s s' N"
  shows "store_ok s'" and "nblocks s' = nblocks s" and "is_node s' = is_node s" and "node_at s' = N"
    and "points s p b \<Longrightarrow> points s' p b" and "\<not> is_node s c \<Longrightarrow> view s' c = view s c"
  using assms st.keepsD unfolding nodes_to_def by blast+

lemma nodes_to_changes:
  assumes "st.changes s s' b (node_store n (view s b))" and "is_node s b" and "node_shape n"
  shows "nodes_to s s' ((node_at s)(b := n))"
proof -
  note k = st.keepsD [OF st.changesD(1) [OF assms(1)]] and v = st.changesD(2) [OF assms(1)]
  have "is_node s' = is_node s" using k(2) btype_node_store [OF assms(3)] by (simp add: is_node_def v fun_eq_iff)
  moreover have "node_at s' = (node_at s)(b := n)"
    using node_load_store [OF assms(3)] by (simp add: node_at_def v fun_eq_iff)
  ultimately show ?thesis using assms(2) st.changesD(1) [OF assms(1)] v by (auto simp: nodes_to_def)
qed

lemma node_at_shape [simp]: "node_shape (node_at s b)"
  by (simp add: node_at_def)

lemma node_get_ok:
  assumes "store_ok s" and "points s p b"
  shows "node_get s p = Some (node_at s b)"
  using st.load_view [OF assms] by (simp add: node_get_def node_at_def)

lemma node_upd_ok:
  assumes "store_ok s" and "points s p b" and "is_node s b" and "f (node_at s b) = Some n" and "node_shape n"
  obtains s' where "node_upd s p f = Some s'" and "nodes_to s s' ((node_at s)(b := n))"
proof -
  obtain s' where "assign s p (node_store n (view s b)) = Some s'" "st.changes s s' b (node_store n (view s b))"
    using st.store_changes [OF assms(1,2)] by blast
  with st.load_view [OF assms(1,2)] assms nodes_to_changes [of s s' b n] show thesis
    by (intro that [of s']) (simp_all add: node_upd_def node_at_def)
qed

lemma node_write_ok:
  assumes "store_ok s" and "is_node s (block_number n)" and "node_shape n"
  obtains s' where "btree_node_write s n = Some (0, s')" and "nodes_to s s' ((node_at s)(block_number n := n))"
proof -
  obtain s' where "btree_node_write s n = Some (0, s')" "st.changes s s' (block_number n) (node_store n (view s (block_number n)))"
    by (rule btree_node_write_ok [OF assms])
  with nodes_to_changes [OF _ assms(2,3)] show thesis by (intro that)
qed

text \<open>Writing a node through the pointer to its own block changes nothing.\<close>

lemma node_put_ok:
  assumes "store_ok s" and "points s p b" and "is_node s b" and "block_number (node_at s b) = b"
  obtains s' where "node_put s p = Some s'" and "nodes_to s s' (node_at s)"
proof -
  obtain s' where "btree_node_write s (node_at s b) = Some (0, s')"
      "nodes_to s s' ((node_at s)(block_number (node_at s b) := node_at s b))"
    by (rule node_write_ok [OF assms(1), of "node_at s b"]) (use assms in auto)
  with node_get_ok [OF assms(1,2)] assms(4) show thesis by (intro that [of s']) (simp_all add: node_put_def)
qed

lemma read_node_ok:
  assumes "store_ok s" and "is_node s b"
  obtains s' where "read_node s b = Some (node_at s b, s')" and "st.silent s s'"
proof -
  obtain s' where "btree_node_read s b = Some (if is_node s b then Some (node_at s b) else None, s')" "st.silent s s'"
    by (rule btree_node_read_ok [OF assms(1), of b]) (use assms(2) in \<open>simp add: is_node_def\<close>, rule that)
  with assms(2) show thesis by (intro that) (simp_all add: read_node_def)
qed

section \<open>A new node\<close>

text \<open>The blocks the allocator works on are themselves in use.\<close>

definition tree_volume :: "fs \<Rightarrow> bool" where
  "tree_volume s \<longleftrightarrow> volume_ok s \<and> block_used s 0 \<and> (\<forall>j < nblocks s. block_used s (unat (bitmap_block j)))"

text \<open>Changing nodes leaves the allocator's blocks alone.\<close>

lemma volume_not_node:
  assumes "volume_ok s"
  shows "\<not> is_node s 0" and "j < nblocks s \<Longrightarrow> \<not> is_node s (bitmap_block j)"
  using assms by (auto simp: volume_ok_def is_node_def block_types)

lemma tree_volume_nodes:
  assumes "nodes_to s s' N" and "volume_ok s"
  shows "volume_ok s'" and "j < nblocks s \<Longrightarrow> block_used s' j = block_used s j"
    and "tree_volume s \<Longrightarrow> tree_volume s'"
proof -
  note D = nodes_toD [OF assms(1)] and nn = volume_not_node [OF assms(2)]
  have v: "view s' 0 = view s 0" "\<And>j. j < nblocks s \<Longrightarrow> view s' (bitmap_block j) = view s (bitmap_block j)"
    using D(6) nn by blast+
  show vo: "volume_ok s'" using assms(2) D(1,2) v by (simp add: volume_ok_def)
  show u: "block_used s' j = block_used s j" if "j < nblocks s" for j using v(2) [OF that] by (simp add: block_used_def)
  show "tree_volume s'" if t: "tree_volume s"
  proof -
    have "unat (bitmap_block j) < nblocks s" if "j < nblocks s" for j using unat_bitmap_block(2) [OF assms(2) that] .
    moreover have "0 < nblocks s" using assms(2) by (simp add: volume_ok_def)
    ultimately show ?thesis using t u vo D(2) by (simp add: tree_volume_def)
  qed
qed

text \<open>
  \<open>created s s' f\<close>: the free block \<open>f\<close> became a node and is in use, every other node is as before and
  every other block has its mark.
\<close>

definition created :: "fs \<Rightarrow> fs \<Rightarrow> u64 \<Rightarrow> bool" where
  "created s s' f \<longleftrightarrow> st.keeps s s' \<and> tree_volume s' \<and> f \<noteq> 0 \<and> is_node s' f \<and> \<not> block_used s (unat f) \<and>
     (\<forall>c. c \<noteq> f \<longrightarrow> is_node s' c = is_node s c \<and> (is_node s c \<longrightarrow> node_at s' c = node_at s c)) \<and>
     (\<forall>j < nblocks s. block_used s' j = (j = unat f \<or> block_used s j))"

lemma node_create_ok:
  assumes vol: "tree_volume s" and ff: "first_free s = Some i"
  obtains p s' where "btree_node_create s leaf = Some (Some (of_nat i, p), s')" and "points s' p (of_nat i)" and "created s s' (of_nat i)"
    and "node_at s' (of_nat i) = init_node leaf (of_nat i) (node_load (set_btype BLOCK_TYPE_BTREE_NODE (view s (of_nat i))))"
    and "sb_of s' = (sb_of s)\<lparr>free_blocks := free_blocks (sb_of s) - 1\<rparr>"
    and "\<And>b. b \<noteq> 0 \<Longrightarrow> b \<noteq> bitmap_block i \<Longrightarrow> b \<noteq> of_nat i \<Longrightarrow> view s' b = view s b"
proof -
  let ?f = "of_nat i :: u64"
  have vo: "volume_ok s" using vol by (simp add: tree_volume_def)
  have i: "i < nblocks s" "\<not> block_used s i" using ff by (auto simp: first_free_def find_Some_iff)
  have "nblocks s \<le> 2 ^ 19" using vo by (simp add: volume_ok_def store_ok_def addressable_def)
  then have u: "unat ?f = i" using i(1) by (intro unat_of_nat_small) simp
  have f0: "?f \<noteq> 0"
  proof
    assume "?f = 0"
    then have "i = 0" using u by simp
    then show False using i(2) vol by (simp add: tree_volume_def)
  qed
  have fb: "bitmap_block j \<noteq> ?f" if "j < nblocks s" for j
  proof
    assume "bitmap_block j = ?f"
    then have "unat (bitmap_block j) = i" using u by simp
    then show False using i(2) vol that by (auto simp: tree_volume_def)
  qed
  obtain s1 where a: "alloc_page s = Some (?f, s1)" "marked s s1 i True"
    using alloc_page_ok [OF vo] ff by auto
  have k1: "st.keeps s s1" and vo1: "volume_ok s1"
      and us1: "\<And>j. j < nblocks s \<Longrightarrow> block_used s1 j = (j = i \<or> block_used s j)"
      and v1: "\<And>b. b \<noteq> 0 \<Longrightarrow> b \<noteq> bitmap_block i \<Longrightarrow> view s1 b = view s b"
    using a(2) by (auto simp: marked_def)
  note K1 = st.keepsD [OF k1]
  have lf: "unat ?f < nblocks s1" using i(1) u K1(2) by simp
  obtain p s2 where g: "get_block s1 0 ?f = Some (p, s2)" "deref s2 p = Some (view s1 ?f)" "st.silent s1 s2" "points s2 p ?f"
    by (rule st.get_load [OF K1(1) lf])
  note K2 = st.keepsD [OF st.silentD(1) [OF g(3)]]
  let ?b = "set_btype BLOCK_TYPE_BTREE_NODE (view s ?f)"
  let ?n = "init_node leaf ?f (node_load ?b)"
  let ?x = "node_store ?n ?b"
  have vf: "view s1 ?f = view s ?f" using v1 f0 fb [OF i(1)] by simp
  obtain s3 s4 s5 where w: "assign s2 p ?x = Some s3" "write_block s3 p 0 ?f = Some s4" "st.changes s2 s4 ?f ?x"
    by (rule st.store_put_pin [OF K2(1) g(4), of ?x 0 0]) (rule that)
  note C = st.silent_changes [OF g(3) w(3)]
  note K4 = st.keepsD [OF st.changesD(1) [OF C]]
  have v4: "view s4 = (view s1)(?f := ?x)" by (rule st.changesD(2) [OF C])
  have sh: "node_shape ?n" by (rule init_node_shape) simp
  have tx: "btype ?x = BLOCK_TYPE_BTREE_NODE" using btype_node_store [OF sh] by simp
  have nw: "btree_node_create s leaf = Some (Some (?f, p), s4)"
    using a(1) f0 g(1,2) w(1,2) vf by (simp add: btree_node_create_def Let_def)
  have p4: "points s4 p ?f" using st.keepsD(4) [OF st.changesD(1) [OF w(3)]] g(4) by blast
  have n4: "nblocks s4 = nblocks s" using K1(2) K4(2) by simp
  have vb: "view s4 0 = view s1 0" "\<And>j. j < nblocks s \<Longrightarrow> view s4 (bitmap_block j) = view s1 (bitmap_block j)"
    using f0 fb by (auto simp: v4)
  have us4: "\<And>j. j < nblocks s \<Longrightarrow> block_used s4 j = (j = i \<or> block_used s j)"
    using us1 vb(2) by (simp add: block_used_def)
  have vo4: "volume_ok s4" using vo1 K4(1,2) K1(2) vb by (simp add: volume_ok_def)
  have tv4: "tree_volume s4"
    using vol vo4 us4 n4 unat_bitmap_block(2) [OF vo] by (auto simp: tree_volume_def volume_ok_def)
  have nn: "is_node s4 c = is_node s c \<and> (is_node s c \<longrightarrow> node_at s4 c = node_at s c)" if c: "c \<noteq> ?f" for c
  proof (cases "c = 0 \<or> c = bitmap_block i")
    case True
    then show ?thesis using volume_not_node [OF vo] volume_not_node [OF vo4] i(1) n4 by auto
  next
    case False
    then have "view s4 c = view s c" using c v1 by (simp add: v4)
    then show ?thesis using n4 by (simp add: is_node_def node_at_def)
  qed
  have "is_node s4 ?f" using lf n4 K1(2) tx by (simp add: is_node_def v4)
  then have "created s s4 ?f"
    using st.keeps_trans [OF k1 st.changesD(1) [OF C]] tv4 f0 i(2) nn us4 u by (simp add: created_def)
  moreover have "node_at s4 ?f = ?n" using node_load_store [OF sh] by (simp add: node_at_def v4)
  moreover have "sb_of s4 = (sb_of s)\<lparr>free_blocks := free_blocks (sb_of s) - 1\<rparr>"
    using a(2) vb(1) by (simp add: marked_def sb_of_def)
  moreover have "view s4 b = view s b" if "b \<noteq> 0" "b \<noteq> bitmap_block i" "b \<noteq> ?f" for b using that v1 by (simp add: v4)
  ultimately show thesis using nw p4 by (intro that)
qed

lemma new_node_ok:
  assumes "tree_volume s" and "first_free s = Some i"
  obtains p s' where "new_node s leaf = Some (p, s')" and "points s' p (of_nat i)" and "created s s' (of_nat i)"
    and "node_at s' (of_nat i) = init_node leaf (of_nat i) (node_load (set_btype BLOCK_TYPE_BTREE_NODE (view s (of_nat i))))"
    and "sb_of s' = (sb_of s)\<lparr>free_blocks := free_blocks (sb_of s) - 1\<rparr>"
    and "\<And>b. b \<noteq> 0 \<Longrightarrow> b \<noteq> bitmap_block i \<Longrightarrow> b \<noteq> of_nat i \<Longrightarrow> view s' b = view s b"
proof -
  obtain p s' where "btree_node_create s leaf = Some (Some (of_nat i, p), s')" "points s' p (of_nat i)" "created s s' (of_nat i)"
      "node_at s' (of_nat i) = init_node leaf (of_nat i) (node_load (set_btype BLOCK_TYPE_BTREE_NODE (view s (of_nat i))))"
      "sb_of s' = (sb_of s)\<lparr>free_blocks := free_blocks (sb_of s) - 1\<rparr>"
      "\<And>b. b \<noteq> 0 \<Longrightarrow> b \<noteq> bitmap_block i \<Longrightarrow> b \<noteq> of_nat i \<Longrightarrow> view s' b = view s b"
    by (rule node_create_ok [OF assms, of leaf]) (rule that)
  then show thesis by (intro that [of p s']) (simp_all add: new_node_def)
qed

section \<open>Arrays\<close>

text \<open>
  Moving the cells \<open>vs\<close> up by one, over the cell \<open>x\<close>, and storing into the first of them: the value is
  inserted before \<open>vs\<close>.
\<close>

lemma shift_up_insert:
  "\<exists>ys. shift_up (length vs) (length us + length vs - 1) (us @ vs @ x # ws) = Some ys \<and>
     aset ys (length us) v = Some (us @ v # vs @ ws)"
proof (induction vs arbitrary: x ws rule: rev_induct)
  case (snoc y vs)
  have "aget (us @ vs @ y # x # ws) (length us + length vs) = Some y"
    by (simp add: aget_def nth_append)
  moreover have "aset (us @ vs @ y # x # ws) (Suc (length us + length vs)) y = Some (us @ vs @ y # y # ws)"
    by (simp add: aset_def list_update_append)
  ultimately show ?case using snoc.IH [of y "y # ws"] by simp
qed (simp add: aset_def)

section \<open>One-level trees\<close>

text \<open>
  \<open>flat_at s b ps\<close>: block \<open>b\<close> is a root without a parent, and its children are the leaves \<open>ps\<close>, pairs of
  a key and a block, in the order of their keys. All the blocks are in use.
\<close>

definition leaf_at :: "fs \<Rightarrow> u64 \<Rightarrow> u64 \<times> u64 \<Rightarrow> bool" where
  "leaf_at s b q \<longleftrightarrow> snd q \<noteq> 0 \<and> is_node s (snd q) \<and> block_used s (unat (snd q)) \<and> block_number (node_at s (snd q)) = snd q \<and>
     is_leaf (node_at s (snd q)) \<and> key (node_at s (snd q)) = fst q \<and> parent (node_at s (snd q)) = b \<and>
     children (node_at s (snd q)) ! 0 = 0"

definition root_at :: "BTreeNode \<Rightarrow> u64 \<Rightarrow> (u64 \<times> u64) list \<Rightarrow> bool" where
  "root_at n b ps \<longleftrightarrow> block_number n = b \<and> \<not> is_leaf n \<and> parent n = 0 \<and> left_sibling n = 0 \<and> right_sibling n = 0 \<and>
     unat (num_keys n) = length ps \<and>
     take (length ps) (keys n) = map fst ps \<and> take (length ps) (children n) = map snd ps \<and> children n ! length ps = 0"

definition flat_at :: "fs \<Rightarrow> u64 \<Rightarrow> (u64 \<times> u64) list \<Rightarrow> bool" where
  "flat_at s b ps \<longleftrightarrow> b \<noteq> 0 \<and> is_node s b \<and> block_used s (unat b) \<and> length ps \<le> MAX_KEYS \<and> root_at (node_at s b) b ps \<and>
     sorted_wrt (<) (map fst ps) \<and> (\<forall>q \<in> set ps. leaf_at s b q)"

definition flat_tree :: "fs \<Rightarrow> u64 \<Rightarrow> (u64 \<times> u64) list \<Rightarrow> tree" where
  "flat_tree s b ps = TNode b (map fst ps) (map (\<lambda>(k, c). TLeaf c k (n_value (node_at s c))) ps)"

lemma flat_tree_at:
  assumes "flat_at s b ps"
  shows "tree_at s (flat_tree s b ps)" and "ps \<noteq> [] \<Longrightarrow> ordered (flat_tree s b ps)"
    and "leaves (flat_tree s b ps) = ps" and "root_block (flat_tree s b ps) = b"
proof -
  have l: "\<And>q. q \<in> set ps \<Longrightarrow> leaf_at s b q" and r: "root_at (node_at s b) b ps" and so: "sorted_wrt (<) (map fst ps)"
    using assms by (auto simp: flat_at_def)
  show "tree_at s (flat_tree s b ps)"
    using assms l r by (auto simp: flat_tree_def flat_at_def root_at_def leaf_at_def list_all_iff comp_def split_def)
  show "ordered (flat_tree s b ps)" if "ps \<noteq> []"
    using that so by (auto simp: flat_tree_def list_all_iff split_def sorted_wrt_iff_nth_less)
  have "concat (map (leaves \<circ> (\<lambda>(k, c). TLeaf c k (n_value (node_at s c)))) qs) = qs" for qs
    by (induction qs) auto
  then show "leaves (flat_tree s b ps) = ps" by (simp add: flat_tree_def)
  show "root_block (flat_tree s b ps) = b" by (simp add: flat_tree_def)
qed


section \<open>Insertion\<close>

text \<open>The search for the position stops behind the keys below the new one.\<close>

lemma leaf_at_silent:
  assumes "st.silent s s'"
  shows "leaf_at s' = leaf_at s" and "node_at s' = node_at s" and "is_node s' = is_node s" and "block_used s' = block_used s"
  using st.silentD [OF assms] st.keepsD(2) [OF st.silentD(1) [OF assms]]
  by (simp_all add: leaf_at_def [abs_def] is_node_def [abs_def] node_at_def [abs_def] block_used_def [abs_def])

lemma root_at_child:
  assumes "root_at n b ps" and "length (children n) = MAX_KEYS + 1" and "length ps \<le> MAX_KEYS"
  shows "j < length ps \<Longrightarrow> aget (children n) j = Some (snd (ps ! j))" and "aget (children n) (length ps) = Some 0"
proof -
  have "children n ! j = snd (ps ! j)" if "j < length ps"
    using assms(1) that nth_take [of j "length ps" "children n"] by (simp add: root_at_def)
  then show "j < length ps \<Longrightarrow> aget (children n) j = Some (snd (ps ! j))" using assms by (simp add: aget_def)
  show "aget (children n) (length ps) = Some 0" using assms by (simp add: aget_def root_at_def)
qed

lemma find_pos_ok:
  assumes "store_ok s" and "points s p f" and "k = key (node_at s f)" and "drop j ps = qs" and "j \<le> length ps"
    and "\<forall>q \<in> set qs. leaf_at s b q" and root: "root_at root b ps" "length (children root) = MAX_KEYS + 1" "length ps \<le> MAX_KEYS"
    and "sorted_wrt (<) (map fst qs)"
  shows "\<exists>s'. find_pos (Suc (length qs)) s root p j pos =
      Some (let t = length (takeWhile (\<lambda>q. fst q < k) qs) in if t = 0 then pos else j + t, s') \<and> st.silent s s'"
  using assms(1-6,10)
proof (induction qs arbitrary: s j pos)
  case Nil
  then have "j = length ps" by simp
  then show ?case using root_at_child(2) [OF root] st.silent_refl [OF Nil.prems(1)] by (auto simp: Let_def)
next
  case (Cons q qs)
  have jl: "j < length ps" using Cons.prems(4) by (cases "j < length ps") simp_all
  then have j: "j < length ps" "ps ! j = q" "drop (Suc j) ps = qs"
    using Cons.prems(4) Cons_nth_drop_Suc [OF jl] by simp_all
  have l: "leaf_at s b q" using Cons.prems(6) by simp
  then have "is_node s (snd q)" by (simp add: leaf_at_def)
  then obtain s1 where r: "read_node s (snd q) = Some (node_at s (snd q), s1)" "st.silent s s1"
    by (rule read_node_ok [OF Cons.prems(1)])
  note S = leaf_at_silent [OF r(2)] and K = st.keepsD [OF st.silentD(1) [OF r(2)]]
  have g: "node_get s1 p = Some (node_at s f)" using node_get_ok [OF K(1) K(4) [OF Cons.prems(2)]] S(2) by simp
  let ?pos = "if fst q < k then Suc j else pos"
  obtain s2 where s2: "find_pos (Suc (length qs)) s1 root p (Suc j) ?pos =
      Some (let t = length (takeWhile (\<lambda>q. fst q < k) qs) in if t = 0 then ?pos else Suc j + t, s2)" "st.silent s1 s2"
    using Cons.IH [of s1 "Suc j" ?pos] K(1) K(4) [OF Cons.prems(2)] Cons.prems(3,6,7) S j by auto
  have z: "takeWhile (\<lambda>q. fst q < k) qs = []" if "\<not> fst q < k"
    using Cons.prems(7) that by (cases qs) auto
  have "find_pos (Suc (length (q # qs))) s root p j pos = find_pos (Suc (length qs)) s1 root p (Suc j) ?pos"
    using root_at_child(1) [OF root j(1)] j(2) l r(1) g Cons.prems(3) by (simp add: leaf_at_def)
  then show ?case using s2 z st.silent_trans [OF r(2) s2(2)] by (auto simp: Let_def)
qed

text \<open>What the array of keys and the array of children become.\<close>

definition inserted :: "BTreeNode \<Rightarrow> (u64 \<times> u64) list \<Rightarrow> (u64 \<times> u64) \<Rightarrow> (u64 \<times> u64) list \<Rightarrow> BTreeNode" where
  "inserted n us q vs = n\<lparr>keys := map fst (us @ q # vs) @ drop (length us + length vs + 1) (keys n),
     children := map snd (us @ q # vs) @ 0 # drop (length us + length vs + 2) (children n), num_keys := num_keys n + 1\<rparr>"

lemma split_array:
  assumes "take (length us + length vs) xs = us @ vs" and "length us + length vs < length xs"
  shows "xs = us @ vs @ xs ! (length us + length vs) # drop (length us + length vs + 1) xs"
  using id_take_nth_drop [OF assms(2)] assms(1) by simp

lemma inserted_arrays:
  assumes r: "root_at n b (us @ vs)" and sh: "node_shape n" and l: "length us + length vs < MAX_KEYS"
  shows "\<exists>cs ks. shift_up (length vs + 1) (length us + length vs) (children n) = Some cs \<and>
      shift_up (length vs) (length us + length vs - 1) (keys n) = Some ks \<and>
      aset ks (length us) k = Some (keys (inserted n us (k, c) vs)) \<and>
      aset cs (length us) c = Some (children (inserted n us (k, c) vs))"
proof -
  let ?l = "length us + length vs"
  have t: "take ?l (keys n) = map fst us @ map fst vs" "take ?l (children n) = map snd us @ map snd vs" "children n ! ?l = 0"
    and len: "length (keys n) = MAX_KEYS" "length (children n) = MAX_KEYS + 1"
    using r sh by (simp_all add: root_at_def node_shape_def)
  have K: "keys n = map fst us @ map fst vs @ keys n ! ?l # drop (?l + 1) (keys n)"
    using split_array [of "map fst us" "map fst vs" "keys n"] t len l by simp
  have C: "children n = map snd us @ (map snd vs @ [0]) @ children n ! (?l + 1) # drop (?l + 2) (children n)"
    using split_array [of "map snd us" "map snd vs @ [0]" "children n"] t len l take_Suc_conv_app_nth [of ?l "children n"] by simp
  obtain ks where "shift_up (length vs) (?l - 1) (keys n) = Some ks"
      "aset ks (length us) k = Some (map fst us @ k # map fst vs @ drop (?l + 1) (keys n))"
    using shift_up_insert [of "map fst vs" "map fst us" "keys n ! ?l" "drop (?l + 1) (keys n)" k] K by auto
  moreover obtain cs where "shift_up (length vs + 1) ?l (children n) = Some cs"
      "aset cs (length us) c = Some (map snd us @ c # (map snd vs @ [0]) @ drop (?l + 2) (children n))"
    using shift_up_insert [of "map snd vs @ [0]" "map snd us" "children n ! (?l + 1)" "drop (?l + 2) (children n)" c] C by auto
  ultimately show ?thesis by (simp add: inserted_def)
qed

lemma inserted_root:
  assumes r: "root_at n b (us @ vs)" and sh: "node_shape n" and l: "length us + length vs < MAX_KEYS"
  shows "node_shape (inserted n us q vs)" and "root_at (inserted n us q vs) b (us @ q # vs)"
proof -
  have u: "unat (num_keys n) = length us + length vs" using r by (simp add: root_at_def)
  then have "unat (num_keys n + 1) = length us + length vs + 1"
    using l by (simp add: unat_word_ariths(1) layout)
  then show "root_at (inserted n us q vs) b (us @ q # vs)"
    using r by (simp add: root_at_def inserted_def is_leaf_def nth_append)
  show "node_shape (inserted n us q vs)" using sh l by (simp add: node_shape_def inserted_def)
qed

text \<open>A node that is not yet linked into the tree.\<close>

definition loose_leaf :: "fs \<Rightarrow> u64 \<Rightarrow> u64 \<Rightarrow> bool" where
  "loose_leaf s f k \<longleftrightarrow> f \<noteq> 0 \<and> is_node s f \<and> block_number (node_at s f) = f \<and> is_leaf (node_at s f) \<and> key (node_at s f) = k \<and>
     children (node_at s f) ! 0 = 0"

lemma max_of_leaf:
  assumes "store_ok s" and "loose_leaf s f k"
  obtains s' where "btree_find_maximum s f = Some (k, s')" and "st.silent s s'"
  using btree_find_maximum_ok [OF assms(1), of "TLeaf f k (n_value (node_at s f))"] assms(2) by (auto simp: loose_leaf_def)

lemma insert_nonfull_flat:
  assumes ok: "store_ok s" and p: "points s p f" and f: "loose_leaf s f k" and fl: "flat_at s b ps" and len: "length ps < MAX_KEYS"
    and us: "us = takeWhile (\<lambda>q. fst q < k) ps" and vs: "vs = dropWhile (\<lambda>q. fst q < k) ps"
  obtains s' where "btree_insert_nonfull s (node_at s b) p = Some (0, inserted (node_at s b) us (k, f) vs, s')"
    and "nodes_to s s' ((node_at s)(f := (node_at s f)\<lparr>parent := b\<rparr>))"
proof -
  let ?r = "node_at s b"
  have ps: "ps = us @ vs" by (simp add: us vs)
  have r: "root_at ?r b ps" and le: "length ps \<le> MAX_KEYS" and so: "sorted_wrt (<) (map fst ps)" and lv: "\<forall>q \<in> set ps. leaf_at s b q"
    using fl by (auto simp: flat_at_def)
  have n: "unat (num_keys ?r) = length us + length vs" and nl: "\<not> is_leaf ?r" and bn: "block_number ?r = b"
    using r by (simp_all add: root_at_def ps)
  have lc: "length (children ?r) = MAX_KEYS + 1" using node_at_shape [of s b] by (simp add: node_shape_def)
  have kf: "k = key (node_at s f)" using f by (simp add: loose_leaf_def)
  have t: "(let t = length (takeWhile (\<lambda>q. fst q < k) ps) in if t = 0 then 0 else 0 + t) = length us"
    by (simp add: us Let_def)
  obtain s1 where fp: "find_pos (Suc (length us + length vs)) s ?r p 0 0 = Some (length us, s1)" "st.silent s s1"
    using find_pos_ok [OF ok p kf, of 0 ps ps b ?r 0] lv r lc le so unfolding t by (auto simp: ps simp del: find_pos.simps)
  note S1 = leaf_at_silent [OF fp(2)] and K1 = st.keepsD [OF st.silentD(1) [OF fp(2)]]
  have p1: "points s1 p f" by (rule K1(4) [OF p])
  have g1: "node_get s1 p = Some (node_at s f)" using node_get_ok [OF K1(1) p1] S1 by simp
  have "loose_leaf s1 f k" using f S1 by (simp add: loose_leaf_def)
  then obtain s2 where m: "btree_find_maximum s1 f = Some (k, s2)" "st.silent s1 s2" by (rule max_of_leaf [OF K1(1)])
  note S2 = leaf_at_silent [OF m(2)] and K2 = st.keepsD [OF st.silentD(1) [OF m(2)]]
  have p2: "points s2 p f" and f2: "is_node s2 f" using K2(4) [OF p1] f S1 S2 by (auto simp: loose_leaf_def)
  let ?n = "(node_at s f)\<lparr>parent := b\<rparr>"
  have shn: "node_shape ?n" using node_at_shape [of s f] by (simp add: node_shape_def)
  obtain s3 where u: "node_upd s2 p (\<lambda>n. Some (n\<lparr>parent := b\<rparr>)) = Some s3" "nodes_to s2 s3 ((node_at s2)(f := ?n))"
    by (rule node_upd_ok [OF K2(1) p2 f2, of _ ?n]) (use S1 S2 shn that in auto)
  note D3 = nodes_toD [OF u(2)]
  have bf: "block_number (node_at s3 f) = f" using f D3(4) by (simp add: loose_leaf_def)
  obtain s4 where w: "node_put s3 p = Some s4" "nodes_to s3 s4 (node_at s3)"
    by (rule node_put_ok [OF D3(1) D3(5) [OF p2] _ bf]) (use f2 D3(3) in auto)
  obtain cs ks where A: "shift_up (length vs + 1) (length us + length vs) (children ?r) = Some cs"
      "shift_up (length vs) (length us + length vs - 1) (keys ?r) = Some ks"
      "aset ks (length us) k = Some (keys (inserted ?r us (k, f) vs))"
      "aset cs (length us) f = Some (children (inserted ?r us (k, f) vs))"
    using inserted_arrays [of ?r b us vs k f] r len by (auto simp: ps)
  have fb: "block_number (node_at s f) = f" using f by (simp add: loose_leaf_def)
  have "btree_insert_nonfull s ?r p = Some (0, inserted ?r us (k, f) vs, s4)"
    using nl fp(1) A g1 m(1) u(1) w(1) fb bn n
    by (simp add: btree_insert_nonfull_def Let_def inserted_def del: find_pos.simps shift_up.simps)
  moreover have "nodes_to s s4 ((node_at s)(f := ?n))"
    using nodes_to_trans [OF nodes_to_trans [OF nodes_to_trans [OF nodes_to_silent [OF fp(2)] nodes_to_silent [OF m(2)]] u(2)] w(2)]
    by (simp add: D3(4) S1 S2)
  ultimately show thesis by (rule that)
qed

text \<open>A step that keeps the nodes of a tree and the marks of their blocks keeps the tree.\<close>

lemma flat_at_cong:
  assumes "flat_at s b ps"
    and "\<And>c. c \<in> insert b (snd ` set ps) \<Longrightarrow> is_node s' c \<and> node_at s' c = node_at s c \<and> block_used s' (unat c)"
  shows "flat_at s' b ps"
  using assms by (auto simp: flat_at_def leaf_at_def)

lemma flat_at_blocks:
  assumes "flat_at s b ps" and "c \<in> insert b (snd ` set ps)"
  shows "is_node s c" and "block_used s (unat c)" and "c \<noteq> 0" and "unat c < nblocks s"
  using assms by (auto simp: flat_at_def leaf_at_def is_node_def)

lemma flat_at_created:
  assumes "flat_at s b ps" and "created s s' f"
  shows "flat_at s' b ps" and "f \<notin> insert b (snd ` set ps)"
proof -
  show nf: "f \<notin> insert b (snd ` set ps)" using flat_at_blocks(2) [OF assms(1), of f] assms(2) by (auto simp: created_def)
  show "flat_at s' b ps"
  proof (rule flat_at_cong [OF assms(1)])
    fix c assume c: "c \<in> insert b (snd ` set ps)"
    then have "c \<noteq> f" using nf by blast
    with flat_at_blocks [OF assms(1) c] assms(2)
    show "is_node s' c \<and> node_at s' c = node_at s c \<and> block_used s' (unat c)" by (simp add: created_def)
  qed
qed

lemma flat_at_nodes:
  assumes "flat_at s b ps" and "nodes_to s s' N" and "volume_ok s" and "\<And>c. c \<in> insert b (snd ` set ps) \<Longrightarrow> N c = node_at s c"
  shows "flat_at s' b ps"
proof (rule flat_at_cong [OF assms(1)])
  fix c assume c: "c \<in> insert b (snd ` set ps)"
  note B = flat_at_blocks [OF assms(1) c]
  show "is_node s' c \<and> node_at s' c = node_at s c \<and> block_used s' (unat c)"
    using nodes_toD(3,4) [OF assms(2)] B assms(4) [OF c] tree_volume_nodes(2) [OF assms(2,3) B(4)] by simp
qed

text \<open>In a one-level tree the target of an insertion is the root.\<close>

lemma find_target_flat:
  assumes ok: "store_ok s" and fl: "flat_at s b ps"
  obtains s' where "find_target s b k = Some (node_at s b, s')" and "st.silent s s'"
proof -
  note R = flat_at_blocks [OF fl, of b, simplified]
  have lt: "unat b < 2 ^ 31" using R(4) ok by (simp add: store_ok_def addressable_def)
  have w: "word_of_int (int_of_u64 b) = b" using int_of_u64_small [OF lt] by simp
  have r: "root_at (node_at s b) b ps" and le: "length ps \<le> MAX_KEYS" using fl by (auto simp: flat_at_def)
  have lc: "length (children (node_at s b)) = MAX_KEYS + 1" using node_at_shape [of s b] by (simp add: node_shape_def)
  have bn: "block_number (node_at s b) = b" using r by (simp add: root_at_def)
  obtain s1 where r1: "read_node s b = Some (node_at s b, s1)" "st.silent s s1" by (rule read_node_ok [OF ok R(1)])
  note S1 = leaf_at_silent [OF r1(2)] and K1 = st.keepsD [OF st.silentD(1) [OF r1(2)]]
  have fl1: "flat_at s1 b ps" using fl S1 by (simp add: flat_at_def)
  have "\<exists>s2. btree_insertion_search s b k = Some (int_of_u64 b, s2) \<and> st.silent s1 s2"
  proof (cases ps)
    case Nil
    then have "aget (children (node_at s b)) 0 = Some 0" using root_at_child(2) [OF r lc le] by simp
    then show ?thesis using r1 bn st.silent_refl [OF K1(1)] by (auto simp: btree_insertion_search_def)
  next
    case (Cons q qs)
    have d: "left_depth (flat_tree s1 b ps) = 1" by (simp add: flat_tree_def Cons split_def)
    obtain s2 where s2: "btree_find_depth s1 b = Some (1, s2)" "st.silent s1 s2"
      using btree_find_depth_ok [OF K1(1) flat_tree_at(1,2) [OF fl1]] Cons d flat_tree_at(4) [OF fl1] by auto
    have "aget (children (node_at s b)) 0 = Some (snd q)" using root_at_child(1) [OF r lc le, of 0] Cons by simp
    moreover have "snd q \<noteq> 0" using flat_at_blocks(3) [OF fl, of "snd q"] Cons by simp
    ultimately show ?thesis using r1(1) s2 bn by (auto simp: btree_insertion_search_def c_int_def)
  qed
  then obtain s2 where s2: "btree_insertion_search s b k = Some (int_of_u64 b, s2)" "st.silent s1 s2" by blast
  note S2 = leaf_at_silent [OF s2(2)] and K2 = st.keepsD [OF st.silentD(1) [OF s2(2)]]
  obtain s3 where "read_node s2 b = Some (node_at s2 b, s3)" "st.silent s2 s3"
    by (rule read_node_ok [OF K2(1)]) (use R(1) S1 S2 in auto)
  then show thesis
    using s2 w S1 S2 st.silent_trans [OF st.silent_trans [OF r1(2) s2(2)]] by (intro that) (auto simp: find_target_def)
qed

text \<open>Linking a loose leaf into the root.\<close>

lemma insert_nocreate_flat:
  assumes vol: "tree_volume s" and p: "points s p f" and f: "loose_leaf s f k" and uf: "block_used s (unat f)"
    and fl: "flat_at s b ps" and nf: "f \<notin> insert b (snd ` set ps)" and len: "length ps < MAX_KEYS" and new: "k \<notin> fst ` set ps"
    and us: "us = takeWhile (\<lambda>q. fst q < k) ps" and vs: "vs = dropWhile (\<lambda>q. fst q < k) ps"
  obtains s' where "btree_insert_nocreate s b k p = Some (0, s')"
    and "nodes_to s s' ((node_at s)(f := (node_at s f)\<lparr>parent := b\<rparr>, b := inserted (node_at s b) us (k, f) vs))"
    and "flat_at s' b (us @ (k, f) # vs)"
proof -
  have vo: "volume_ok s" and ok: "store_ok s" using vol by (simp_all add: tree_volume_def volume_ok_def)
  have ps: "ps = us @ vs" by (simp add: us vs)
  note R = flat_at_blocks [OF fl, of b, simplified]
  obtain s1 where t: "find_target s b k = Some (node_at s b, s1)" "st.silent s s1" by (rule find_target_flat [OF ok fl])
  note S1 = leaf_at_silent [OF t(2)] and K1 = st.keepsD [OF st.silentD(1) [OF t(2)]]
  have fl1: "flat_at s1 b ps" and f1: "loose_leaf s1 f k" using fl f S1 by (simp_all add: flat_at_def loose_leaf_def)
  let ?r = "inserted (node_at s b) us (k, f) vs"
  obtain s2 where i: "btree_insert_nonfull s1 (node_at s b) p = Some (0, ?r, s2)"
      "nodes_to s1 s2 ((node_at s)(f := (node_at s f)\<lparr>parent := b\<rparr>))"
    using insert_nonfull_flat [OF K1(1) K1(4) [OF p] f1 fl1 len us vs] by (auto simp: S1)
  note D2 = nodes_toD [OF i(2)]
  have r: "root_at (node_at s b) b (us @ vs)" using fl by (simp add: flat_at_def ps)
  have sh: "node_shape ?r" and ro: "root_at ?r b (us @ (k, f) # vs)"
    using inserted_root [OF r, of "(k, f)"] len by (simp_all add: ps)
  have bn: "block_number ?r = b" "parent ?r = 0" using ro by (simp_all add: root_at_def)
  obtain s3 where w: "btree_node_write s2 ?r = Some (0, s3)" "nodes_to s2 s3 ((node_at s2)(b := ?r))"
    by (rule node_write_ok [OF D2(1) _ sh]) (use bn R(1) D2(3) S1(3) that in auto)
  note D3 = nodes_toD [OF w(2)]
  let ?N = "(node_at s)(f := (node_at s f)\<lparr>parent := b\<rparr>, b := ?r)"
  have N3: "node_at s3 = ?N" using D3(4) D2(4) by simp
  have "f \<noteq> b" using nf by simp
  then have bf: "block_number (node_at s3 f) = f" using f N3 by (simp add: loose_leaf_def)
  have p3: "points s3 p f" using D3(5) [OF D2(5) [OF K1(4) [OF p]]] .
  have f3: "is_node s3 f" using f D3(3) D2(3) S1(3) by (simp add: loose_leaf_def)
  obtain s4 where u: "node_put s3 p = Some s4" "nodes_to s3 s4 (node_at s3)" by (rule node_put_ok [OF D3(1) p3 f3 bf])
  have full: "unat (num_keys (node_at s b)) \<noteq> MAX_KEYS" using r len by (simp add: root_at_def ps)
  have "btree_insert_nocreate s b k p = Some (0, s4)"
    using t(1) full i(1) w(1) bn(2) u(1) by (simp add: btree_insert_nocreate_def btree_update_parent_keys_def)
  moreover have N: "nodes_to s s4 ?N"
    using nodes_to_trans [OF nodes_to_trans [OF nodes_to_trans [OF nodes_to_silent [OF t(2)] i(2)] w(2)] u(2)] by (simp only: N3)
  moreover have "flat_at s4 b (us @ (k, f) # vs)"
  proof -
    note D = nodes_toD [OF N]
    have us': "block_used s4 (unat c) = block_used s (unat c)" if "unat c < nblocks s" for c :: u64
      by (rule tree_volume_nodes(2) [OF N vo that])
    have lf: "leaf_at s4 b q" if "q \<in> set ps" for q
    proof -
      have q: "snd q \<in> insert b (snd ` set ps)" and lq: "leaf_at s b q" using that fl by (auto simp: flat_at_def)
      have "snd q \<noteq> f" using nf q by blast
      moreover have "snd q \<noteq> b" using lq r by (auto simp: leaf_at_def root_at_def)
      ultimately show ?thesis using lq us' [OF flat_at_blocks(4) [OF fl q]] by (simp add: leaf_at_def D(3,4))
    qed
    have "leaf_at s4 b (k, f)"
      using f uf us' [of f] \<open>f \<noteq> b\<close> by (auto simp: leaf_at_def loose_leaf_def D(3,4) is_node_def is_leaf_def)
    moreover have "sorted_wrt (<) (map fst (us @ (k, f) # vs))"
    proof -
      have so: "sorted_wrt (<) (map fst us @ map fst vs)" using fl by (simp add: flat_at_def ps)
      have "\<forall>q \<in> set us. fst q < k" by (auto simp: us dest: set_takeWhileD)
      moreover have "\<forall>q \<in> set vs. k < fst q"
      proof (cases vs)
        case (Cons v ws)
        have "\<not> fst v < k" using hd_dropWhile [of "\<lambda>q. fst q < k" ps, folded vs] Cons by simp
        moreover have "fst v \<noteq> k" using new by (auto simp: ps Cons)
        ultimately show ?thesis using so Cons by (auto simp: sorted_wrt_append)
      qed simp
      ultimately show ?thesis using so by (auto simp: sorted_wrt_append)
    qed
    moreover have "block_used s4 (unat b)" using us' [OF R(4)] R(2) by simp
    ultimately show ?thesis
      using R ro len lf by (auto simp: flat_at_def D(3,4) ps)
  qed
  ultimately show thesis by (rule that)
qed

text \<open>The whole insertion: the new leaf is in the first free block.\<close>

definition with_leaf :: "(u64 \<times> u64) list \<Rightarrow> u64 \<Rightarrow> u64 \<Rightarrow> (u64 \<times> u64) list" where
  "with_leaf ps k f = takeWhile (\<lambda>q. fst q < k) ps @ (k, f) # dropWhile (\<lambda>q. fst q < k) ps"

lemma with_leaf_set [simp]: "set (with_leaf ps k f) = insert (k, f) (set ps)"
proof -
  have "set (takeWhile (\<lambda>q. fst q < k) ps) \<union> set (dropWhile (\<lambda>q. fst q < k) ps) = set ps"
    by (metis set_append takeWhile_dropWhile_id)
  then show ?thesis unfolding with_leaf_def by auto
qed

lemma with_leaf_length [simp]: "length (with_leaf ps k f) = Suc (length ps)"
proof -
  have "length (takeWhile (\<lambda>q. fst q < k) ps) + length (dropWhile (\<lambda>q. fst q < k) ps) = length ps"
    by (metis length_append takeWhile_dropWhile_id)
  then show ?thesis by (simp add: with_leaf_def)
qed

lemma with_leaf_map: "k \<notin> fst ` set ps \<Longrightarrow> map_of (with_leaf ps k f) = (map_of ps)(k \<mapsto> f)"
proof -
  assume k: "k \<notin> fst ` set ps"
  let ?us = "takeWhile (\<lambda>q. fst q < k) ps" and ?vs = "dropWhile (\<lambda>q. fst q < k) ps"
  have "map_of ?us k = None" using k by (auto simp: map_of_eq_None_iff dest: set_takeWhileD)
  moreover have "map_of ps = map_of ?vs ++ map_of ?us" using map_of_append [of ?us ?vs] by simp
  ultimately show ?thesis by (auto simp: with_leaf_def fun_eq_iff map_add_def split: option.split)
qed

lemma btree_insert_flat:
  assumes vol: "tree_volume s" and ff: "first_free s = Some i" and fl: "flat_at s b ps" and len: "length ps < MAX_KEYS"
    and new: "k \<notin> fst ` set ps"
  obtains s' where "btree_insert s b k v ty = Some (0, s')" and "tree_volume s'" and "flat_at s' b (with_leaf ps k (of_nat i))"
    and "n_value (node_at s' (of_nat i)) = v" and "file_type (node_at s' (of_nat i)) = ty"
    and "\<And>c. c \<noteq> b \<Longrightarrow> c \<noteq> of_nat i \<Longrightarrow> is_node s c \<Longrightarrow> is_node s' c \<and> node_at s' c = node_at s c"
    and "\<And>j. j < nblocks s \<Longrightarrow> block_used s' j = (j = i \<or> block_used s j)" and "nblocks s' = nblocks s"
    and "st.keeps s s'" and "sb_of s' = (sb_of s)\<lparr>free_blocks := free_blocks (sb_of s) - 1\<rparr>" and "is_node s' (of_nat i)"
    and "\<And>c. c \<noteq> 0 \<Longrightarrow> c \<noteq> bitmap_block i \<Longrightarrow> c \<noteq> of_nat i \<Longrightarrow> \<not> is_node s c \<Longrightarrow> view s' c = view s c"
    and "n_value (node_at s' b) = n_value (node_at s b)"
proof -
  let ?f = "of_nat i :: u64"
  obtain p s1 where c: "new_node s True = Some (p, s1)" "points s1 p ?f" "created s s1 ?f"
      "node_at s1 ?f = init_node True ?f (node_load (set_btype BLOCK_TYPE_BTREE_NODE (view s ?f)))"
      "sb_of s1 = (sb_of s)\<lparr>free_blocks := free_blocks (sb_of s) - 1\<rparr>"
      "\<And>b. b \<noteq> 0 \<Longrightarrow> b \<noteq> bitmap_block i \<Longrightarrow> b \<noteq> ?f \<Longrightarrow> view s1 b = view s b"
    by (rule new_node_ok [OF vol ff]) (rule that)
  have v1: "tree_volume s1" and n1: "nblocks s1 = nblocks s" and f0: "?f \<noteq> 0" and nd1: "is_node s1 ?f" and ok1: "store_ok s1"
      and us1: "\<And>j. j < nblocks s \<Longrightarrow> block_used s1 j = (j = unat ?f \<or> block_used s j)"
      and old: "\<And>c. c \<noteq> ?f \<Longrightarrow> is_node s c \<Longrightarrow> is_node s1 c \<and> node_at s1 c = node_at s c"
      and nn1: "\<And>c. c \<noteq> ?f \<Longrightarrow> is_node s1 c = is_node s c"
    using c(3) st.keepsD(1,2) by (auto simp: created_def)
  note vo1 = v1 [unfolded tree_volume_def, THEN conjunct1]
  note fl1 = flat_at_created(1) [OF fl c(3)] and nf = flat_at_created(2) [OF fl c(3)]
  let ?n = "(node_at s1 ?f)\<lparr>key := k, n_value := v, file_type := ty\<rparr>"
  have sh: "node_shape ?n" using node_at_shape [of s1 ?f] by (simp add: node_shape_def)
  obtain s2 where u: "node_upd s1 p (\<lambda>x. Some (x\<lparr>key := k, n_value := v, file_type := ty\<rparr>)) = Some s2"
      "nodes_to s1 s2 ((node_at s1)(?f := ?n))"
    by (rule node_upd_ok [OF ok1 c(2) nd1, of _ ?n]) (use sh that in auto)
  note D2 = nodes_toD [OF u(2)]
  have bf: "block_number (node_at s2 ?f) = ?f" by (simp add: D2(4) c(4) init_node_def)
  obtain s3 where w: "node_put s2 p = Some s3" "nodes_to s2 s3 (node_at s2)"
    by (rule node_put_ok [OF D2(1) D2(5) [OF c(2)] _ bf]) (use nd1 D2(3) in auto)
  have N: "nodes_to s1 s3 ((node_at s1)(?f := ?n))" using nodes_to_trans [OF u(2) w(2)] by (simp add: D2(4))
  note D = nodes_toD [OF N]
  have fl3: "flat_at s3 b ps" by (rule flat_at_nodes [OF fl1 N vo1]) (use nf in auto)
  have v3: "tree_volume s3" by (rule tree_volume_nodes(3) [OF N vo1 v1])
  have l3: "loose_leaf s3 ?f k" using f0 nd1 by (simp add: loose_leaf_def D(3,4) c(4) init_node_def is_leaf_def layout)
  have fn: "unat ?f < nblocks s1" using nd1 by (simp add: is_node_def)
  have u3: "block_used s3 j = (j = unat ?f \<or> block_used s j)" if "j < nblocks s" for j
    using tree_volume_nodes(2) [OF N vo1, of j] us1 [OF that] that n1 by simp
  obtain s4 where i4: "btree_insert_nocreate s3 b k p = Some (0, s4)"
      "nodes_to s3 s4 ((node_at s3)(?f := (node_at s3 ?f)\<lparr>parent := b\<rparr>,
         b := inserted (node_at s3 b) (takeWhile (\<lambda>q. fst q < k) ps) (k, ?f) (dropWhile (\<lambda>q. fst q < k) ps)))"
      "flat_at s4 b (with_leaf ps k ?f)"
    using insert_nocreate_flat [OF v3 D(5) [OF c(2)] l3 _ fl3 nf len new refl refl] u3 [of "unat ?f"] fn n1
    by (auto simp: with_leaf_def)
  note vo3 = v3 [unfolded tree_volume_def, THEN conjunct1] and D4 = nodes_toD [OF i4(2)]
  have "i < nblocks s" using ff by (auto simp: first_free_def find_Some_iff)
  moreover have "nblocks s \<le> 2 ^ 19" using vol by (simp add: tree_volume_def volume_ok_def store_ok_def addressable_def)
  ultimately have uf: "unat ?f = i" by (intro unat_of_nat_small) simp
  have bne: "?f \<noteq> b" using nf by simp
  have k4: "st.keeps s s4" using c(3) N i4(2) st.keeps_trans unfolding created_def nodes_to_def by meson
  have "\<not> is_node s1 0" using volume_not_node(1) [OF vo1] .
  then have "view s4 0 = view s1 0" by (simp add: D4(6) D(3,6))
  then have sb4: "sb_of s4 = (sb_of s)\<lparr>free_blocks := free_blocks (sb_of s) - 1\<rparr>" using c(5) by (simp add: sb_of_def)
  show thesis
  proof (rule that)
    have "b \<noteq> 0" "is_node s b" using flat_at_blocks(1,3) [OF fl, of b] by simp_all
    then show "n_value (node_at s4 b) = n_value (node_at s b)" using bne old [of b] by (simp add: D4(4) D(4) inserted_def)
    show "view s4 c = view s c" if "c \<noteq> 0" "c \<noteq> bitmap_block i" "c \<noteq> ?f" "\<not> is_node s c" for c
      using that c(6) nn1 by (simp add: D4(6) D(3,6))
    show "btree_insert s b k v ty = Some (0, s4)" using c(1) u(1) w(1) i4(1) by (simp add: btree_insert_def)
    show "tree_volume s4" by (rule tree_volume_nodes(3) [OF i4(2) vo3 v3])
    show "block_used s4 j = (j = i \<or> block_used s j)" if "j < nblocks s" for j
      using tree_volume_nodes(2) [OF i4(2) vo3, of j] u3 [OF that] that n1 D(2) uf by simp
    show "is_node s4 c \<and> node_at s4 c = node_at s c" if "c \<noteq> b" "c \<noteq> ?f" "is_node s c" for c
      using old [OF that(2,3)] that by (simp add: D4(3,4) D(3,4))
  qed (use i4(3) bne D4(2) D(2) n1 nd1 k4 sb4 in \<open>simp_all add: D4(3,4) D(3,4)\<close>)
qed

text \<open>Searching a one-level tree.\<close>

lemma btree_search_flat:
  assumes "store_ok s" and "flat_at s b ps" and "ps \<noteq> []"
  obtains s' where "btree_search s b k = Some (case map_of ps k of None \<Rightarrow> 0 | Some c \<Rightarrow> c, s')" and "st.silent s s'"
  using btree_search_ok [OF assms(1) flat_tree_at(1,2) [OF assms(2)], of k] flat_tree_at(3,4) [OF assms(2)] assms(3)
  by (auto simp: find_leaf_def)

section \<open>Deletion\<close>

text \<open>Moving the cells \<open>vs\<close> down by one, over the cell \<open>x\<close>; the last of them stays where it was as well.\<close>

lemma shift_down_remove:
  "shift_down (length vs) (length us) (us @ x # vs @ ws) = Some (us @ vs @ last (x # vs) # ws)"
proof (induction vs arbitrary: us x)
  case (Cons v vs)
  have "aget (us @ x # v # vs @ ws) (Suc (length us)) = Some v" by (simp add: aget_def nth_append)
  moreover have "aset (us @ x # v # vs @ ws) (length us) v = Some (us @ v # v # vs @ ws)" by (simp add: aset_def list_update_append)
  ultimately show ?case using Cons.IH [of "us @ [v]" v] by (simp add: shift_down_def)
qed (simp add: shift_down_def)

lemma drop_slot_ok:
  assumes r: "root_at n b (us @ q # vs)" and sh: "node_shape n" and l: "length us + length vs + 1 < MAX_KEYS"
  obtains n' where "drop_slot n (length us) = Some n'" and "node_shape n'" and "root_at n' b (us @ vs)" and "n_value n' = n_value n"
proof -
  let ?l = "length us + length vs"
  have t: "take (Suc ?l) (keys n) = map fst us @ fst q # map fst vs" "take (Suc ?l) (children n) = map snd us @ snd q # map snd vs"
      "children n ! Suc ?l = 0" and u: "unat (num_keys n) = Suc ?l"
    and len: "length (keys n) = MAX_KEYS" "length (children n) = MAX_KEYS + 1"
    using r sh by (simp_all add: root_at_def node_shape_def)
  define y where "y = keys n ! Suc ?l"
  define z where "z = children n ! Suc (Suc ?l)"
  define ks where "ks = drop (Suc (Suc ?l)) (keys n)"
  define cs where "cs = drop (Suc (Suc (Suc ?l))) (children n)"
  have K: "keys n = map fst us @ fst q # (map fst vs @ [y]) @ ks"
    using split_array [of "map fst us" "fst q # map fst vs" "keys n"] t len l by (simp add: y_def ks_def)
  have C: "children n = map snd us @ snd q # (map snd vs @ [0, z]) @ cs"
    using split_array [of "map snd us" "snd q # map snd vs @ [0]" "children n"] t len l
      take_Suc_conv_app_nth [of "Suc ?l" "children n"] by (simp add: z_def cs_def)
  have k': "shift_down (Suc ?l - length us) (length us) (keys n) = Some (map fst us @ map fst vs @ y # y # ks)"
    using shift_down_remove [of "map fst vs @ [y]" "map fst us" "fst q" ks] by (subst K) simp
  have c': "shift_down (Suc ?l + 1 - length us) (length us) (children n) = Some (map snd us @ map snd vs @ 0 # z # z # cs)"
    using shift_down_remove [of "map snd vs @ [0, z]" "map snd us" "snd q" cs] by (subst C) simp
  have "num_keys n \<noteq> 0" using u by auto
  then have u': "unat (num_keys n - 1) = ?l" using u by (simp add: unat_minus_one)
  define ks' where "ks' = (if vs = [] then map fst us @ 0 # y # ks else map fst us @ map fst vs @ y # y # ks)"
  define n' where "n' = n\<lparr>keys := ks', children := map snd us @ map snd vs @ 0 # 0 # z # cs, num_keys := num_keys n - 1\<rparr>"
  have "drop_slot n (length us) = Some n'"
    using k' c' u u' len l arg_cong [OF K, of length] arg_cong [OF C, of length]
    by (auto simp: drop_slot_def Let_def set_key_def set_child_def aset_def n'_def ks'_def list_update_append)
  moreover have "node_shape n'"
    using sh arg_cong [OF K, of length] arg_cong [OF C, of length] by (auto simp: node_shape_def n'_def ks'_def)
  moreover have "root_at n' b (us @ vs)"
    using r u' by (auto simp: root_at_def n'_def ks'_def is_leaf_def nth_append)
  moreover have "n_value n' = n_value n" by (simp add: n'_def)
  ultimately show thesis by (rule that)
qed

text \<open>The leaf with the key is found at its position.\<close>

lemma leaf_slot_ok:
  assumes "store_ok s" and "drop j ps = qs" and "j \<le> length ps" and "\<forall>q \<in> set qs. leaf_at s b q" and "k \<in> fst ` set qs"
    and root: "root_at root b ps" "length (children root) = MAX_KEYS + 1" "length ps \<le> MAX_KEYS"
  shows "\<exists>s'. leaf_slot (Suc (length qs)) s root k j = Some (Some (j + length (takeWhile (\<lambda>q. fst q \<noteq> k) qs)), s') \<and> st.silent s s'"
  using assms(1-5)
proof (induction qs arbitrary: s j)
  case (Cons q qs)
  have jl: "j < length ps" using Cons.prems(2) by (cases "j < length ps") simp_all
  then have j: "ps ! j = q" "drop (Suc j) ps = qs" using Cons.prems(2) Cons_nth_drop_Suc [OF jl] by simp_all
  have l: "leaf_at s b q" using Cons.prems(4) by simp
  then have "is_node s (snd q)" by (simp add: leaf_at_def)
  then obtain s1 where r: "read_node s (snd q) = Some (node_at s (snd q), s1)" "st.silent s s1"
    by (rule read_node_ok [OF Cons.prems(1)])
  note S = leaf_at_silent [OF r(2)] and K = st.keepsD [OF st.silentD(1) [OF r(2)]]
  have step: "leaf_slot (Suc (length (q # qs))) s root k j =
      (if fst q = k then Some (Some j, s1) else leaf_slot (Suc (length qs)) s1 root k (Suc j))"
    using root_at_child(1) [OF root jl] j(1) l r(1) by (simp add: leaf_at_def)
  show ?case
  proof (cases "fst q = k")
    case False
    then have "k \<in> fst ` set qs" using Cons.prems(5) by auto
    then obtain s2 where "leaf_slot (Suc (length qs)) s1 root k (Suc j) =
        Some (Some (Suc j + length (takeWhile (\<lambda>q. fst q \<noteq> k) qs)), s2)" "st.silent s1 s2"
      using Cons.IH [of s1 "Suc j"] K(1) j(2) jl Cons.prems(4) S(1) by auto
    then show ?thesis using False step st.silent_trans [OF r(2)] by (auto simp del: leaf_slot.simps)
  qed (use step r(2) in \<open>simp del: leaf_slot.simps\<close>)
qed simp

lemma to_bottom_flat:
  assumes ok: "store_ok s" and fl: "flat_at s b ps" and ne: "ps \<noteq> []"
  obtains s' where "to_bottom s (node_at s b) k = Some (node_at s b, s')" and "st.silent s s'"
proof -
  have r: "root_at (node_at s b) b ps" and le: "length ps \<le> MAX_KEYS" using fl by (auto simp: flat_at_def)
  have lc: "length (children (node_at s b)) = MAX_KEYS + 1" using node_at_shape [of s b] by (simp add: node_shape_def)
  have c: "aget (children (node_at s b)) 0 = Some (snd (ps ! 0))" using root_at_child(1) [OF r lc le, of 0] ne by simp
  have l: "leaf_at s b (ps ! 0)" using fl ne by (simp add: flat_at_def)
  then have "is_node s (snd (ps ! 0))" by (simp add: leaf_at_def)
  then obtain s1 where "read_node s (snd (ps ! 0)) = Some (node_at s (snd (ps ! 0)), s1)" "st.silent s s1"
    by (rule read_node_ok [OF ok])
  with c l r show thesis by (intro that [of s1]) (subst to_bottom.simps, simp_all add: leaf_at_def root_at_def)
qed

text \<open>A root has no siblings and no parent, and a one-level tree is not merged.\<close>

lemma underflow_flat:
  assumes ok: "store_ok s" and fl: "flat_at s b ps"
  obtains s' where "handle_underflow s (node_at s b) k = Some s'" and "st.silent s s'"
proof -
  have r: "root_at (node_at s b) b ps" using fl by (simp add: flat_at_def)
  then have b: "left_sibling (node_at s b) = 0" "right_sibling (node_at s b) = 0" "parent (node_at s b) = 0" "block_number (node_at s b) = b"
    by (simp_all add: root_at_def)
  obtain d s1 where d: "btree_find_depth s b = Some (d, s1)" "d \<le> 1" "st.silent s s1"
  proof (cases "ps = []")
    case True
    obtain s1 where s1: "btree_node_read s b = Some (Some (node_at s b), s1)" "st.silent s s1"
      using btree_node_read_ok [OF ok flat_at_blocks(4) [OF fl, of b, simplified]] flat_at_blocks(1) [OF fl, of b] by auto
    have "aget (children (node_at s b)) 0 = Some 0"
      using r True node_at_shape [of s b] by (simp add: aget_def root_at_def node_shape_def)
    then have "depth_loop s1 (node_at s b) 0 = Some (0, s1)"
      using r by (subst depth_loop.simps) (simp add: root_at_def)
    with s1 show ?thesis by (intro that [of 0 s1]) (simp_all add: btree_find_depth_def)
  next
    case False
    have "left_depth (flat_tree s b ps) = 1" using False by (cases ps) (simp_all add: flat_tree_def split_def)
    then show ?thesis
      using btree_find_depth_ok [OF ok flat_tree_at(1,2) [OF fl]] flat_tree_at(4) [OF fl] False that by auto
  qed
  show thesis
  proof (cases "unat (num_keys (node_at s b)) < MIN_KEYS")
    case True
    with d b show ?thesis by (intro that [of s1]) (simp_all add: handle_underflow_def btree_borrow_left_def btree_borrow_right_def)
  next
    case False
    then show ?thesis using that [of s] st.silent_refl [OF ok] by (simp add: handle_underflow_def)
  qed
qed

text \<open>Freeing the block of a node that is in no tree.\<close>

lemma node_free_ok:
  assumes vol: "tree_volume s" and c: "is_node s c"
  obtains s' where "btree_node_free s c = Some s'" and "st.keeps s s'" and "is_node s' = is_node s"
    and "\<And>d. is_node s d \<Longrightarrow> node_at s' d = node_at s d" and "tree_volume s'"
    and "\<And>j. j < nblocks s \<Longrightarrow> block_used s' j = (j \<noteq> unat c \<and> block_used s j)"
    and "\<And>b. b \<noteq> 0 \<Longrightarrow> b \<noteq> bitmap_block (unat c) \<Longrightarrow> view s' b = view s b"
    and "sb_of s' = (sb_of s)\<lparr>free_blocks := free_blocks (sb_of s) - 1\<rparr>"
proof -
  have vo: "volume_ok s" using vol by (simp add: tree_volume_def)
  have cn: "unat c < nblocks s" using c by (simp add: is_node_def)
  then have "unat c < 2 ^ 31" using vo by (simp add: volume_ok_def store_ok_def addressable_def)
  then have i: "int_of_u64 c = int (unat c)" by (rule int_of_u64_small)
  obtain s' where f: "free_page s (int (unat c)) = Some s'" "marked s s' (unat c) False"
    by (rule free_page_ok [OF vo cn])
  have k: "st.keeps s s'" and vo': "volume_ok s'" and us: "\<And>j. j < nblocks s \<Longrightarrow> block_used s' j = (j \<noteq> unat c \<and> block_used s j)"
      and v: "\<And>b. b \<noteq> 0 \<Longrightarrow> b \<noteq> bitmap_block (unat c) \<Longrightarrow> view s' b = view s b"
      and sb: "sb_of s' = (sb_of s)\<lparr>free_blocks := free_blocks (sb_of s) - 1\<rparr>"
    using f(2) by (auto simp: marked_def)
  note n = st.keepsD(2) [OF k]
  have nd: "is_node s' d = is_node s d \<and> (is_node s d \<longrightarrow> node_at s' d = node_at s d)" for d
  proof (cases "d = 0 \<or> d = bitmap_block (unat c)")
    case True
    then show ?thesis using volume_not_node [OF vo] volume_not_node [OF vo'] cn n by auto
  next
    case False
    then show ?thesis using v [of d] n by (simp add: is_node_def node_at_def)
  qed
  have "unat (bitmap_block j) \<noteq> unat c" if "j < nblocks s" for j
    using volume_not_node(2) [OF vo that] c by (metis word_unat_eq_iff)
  moreover have "unat c \<noteq> 0" using volume_not_node(1) [OF vo] c by (metis unat_eq_zero)
  ultimately have "tree_volume s'"
    using vol vo' us n unat_bitmap_block(2) [OF vo] by (auto simp: tree_volume_def volume_ok_def)
  with f(1) i k nd us v sb show thesis by (intro that [of s']) (auto simp: btree_node_free_def)
qed

text \<open>Taking the leaf with key \<open>k\<close> out of the root.\<close>

lemma remove_key_flat:
  assumes vol: "tree_volume s" and fl: "flat_at s b (us @ (k, c) # vs)" and len: "length us + length vs + 1 < MAX_KEYS"
  obtains s' n where "btree_remove_key s b k = Some s'" and "nodes_to s s' ((node_at s)(b := n))" and "flat_at s' b (us @ vs)"
    and "n_value n = n_value (node_at s b)"
proof -
  let ?ps = "us @ (k, c) # vs"
  have vo: "volume_ok s" and ok: "store_ok s" and b0: "0 < nblocks s" using vol by (simp_all add: tree_volume_def volume_ok_def)
  note R = flat_at_blocks [OF fl, of b, simplified]
  have r: "root_at (node_at s b) b ?ps" and le: "length ?ps \<le> MAX_KEYS" and so: "sorted_wrt (<) (map fst ?ps)"
      and lv: "\<And>q. q \<in> set ?ps \<Longrightarrow> leaf_at s b q"
    using fl by (auto simp: flat_at_def)
  have lc: "length (children (node_at s b)) = MAX_KEYS + 1" using node_at_shape [of s b] by (simp add: node_shape_def)
  have P: "parent (node_at s b) = 0" "block_number (node_at s b) = b" and nk: "unat (num_keys (node_at s b)) = length ?ps"
    using r by (simp_all add: root_at_def)
  obtain s1 where r1: "read_node s b = Some (node_at s b, s1)" "st.silent s s1" by (rule read_node_ok [OF ok R(1)])
  note S1 = leaf_at_silent [OF r1(2)] and K1 = st.keepsD [OF st.silentD(1) [OF r1(2)]]
  have "flat_at s1 b ?ps" using fl S1 by (simp add: flat_at_def)
  then obtain s2 where t: "to_bottom s1 (node_at s b) k = Some (node_at s b, s2)" "st.silent s1 s2"
    using to_bottom_flat [OF K1(1), of b ?ps k] S1(2) by auto
  note S2 = leaf_at_silent [OF t(2)] and K2 = st.keepsD [OF st.silentD(1) [OF t(2)]]
  obtain s3 where r3: "btree_node_read s2 0 = Some (None, s3)" "st.silent s2 s3"
    using btree_node_read_ok [OF K2(1), of 0] volume_not_node(1) [OF vo] S1(3) S2(3) b0 K1(2) K2(2) by auto
  note S3 = leaf_at_silent [OF r3(2)] and K3 = st.keepsD [OF st.silentD(1) [OF r3(2)]]
  have ix: "length (takeWhile (\<lambda>q. fst q \<noteq> k) ?ps) = length us"
  proof -
    have "\<forall>q \<in> set us. fst q \<noteq> k" using so by (auto simp: sorted_wrt_append)
    then have "takeWhile (\<lambda>q. fst q \<noteq> k) ?ps = us" by (subst takeWhile_append2) auto
    then show ?thesis by simp
  qed
  obtain s4 where s4: "leaf_slot (Suc (length ?ps)) s3 (node_at s b) k 0 = Some (Some (length us), s4)" "st.silent s3 s4"
    using leaf_slot_ok [OF K3(1), of 0 ?ps ?ps b k "node_at s b"] lv r lc le S1 S2 S3 ix by (auto simp del: leaf_slot.simps)
  note S4 = leaf_at_silent [OF s4(2)] and K4 = st.keepsD [OF st.silentD(1) [OF s4(2)]]
  obtain n where n: "drop_slot (node_at s b) (length us) = Some n" "node_shape n" "root_at n b (us @ vs)" "n_value n = n_value (node_at s b)"
    by (rule drop_slot_ok [OF r]) (use len that in auto)
  have bn: "block_number n = b" using n(3) by (simp add: root_at_def)
  obtain s5 where w: "btree_node_write s4 n = Some (0, s5)" "nodes_to s4 s5 ((node_at s4)(b := n))"
    by (rule node_write_ok [OF K4(1) _ n(2)]) (use bn R(1) S1 S2 S3 S4 that in auto)
  have si: "st.silent s s4" by (rule st.silent_trans [OF st.silent_trans [OF st.silent_trans [OF r1(2) t(2)] r3(2)] s4(2)])
  have N: "nodes_to s s5 ((node_at s)(b := n))"
    using nodes_to_trans [OF nodes_to_silent [OF si] w(2)] leaf_at_silent(2) [OF si] by simp
  note D = nodes_toD [OF N]
  have us': "block_used s5 (unat d) = block_used s (unat d)" if "unat d < nblocks s" for d :: u64
    by (rule tree_volume_nodes(2) [OF N vo that])
  have lf: "leaf_at s5 b q" if "q \<in> set ?ps" for q
  proof -
    have q: "snd q \<in> insert b (snd ` set ?ps)" using that by blast
    have "snd q \<noteq> b" using lv [OF that] r by (auto simp: leaf_at_def root_at_def)
    then show ?thesis using lv [OF that] us' [OF flat_at_blocks(4) [OF fl q]] by (simp add: leaf_at_def D(3,4))
  qed
  have fl5: "flat_at s5 b (us @ vs)"
    using R us' [OF R(4)] n(3) len so lf by (auto simp: flat_at_def D(3,4) sorted_wrt_append)
  obtain s6 where h: "handle_underflow s5 n k = Some s6" "st.silent s5 s6"
    using underflow_flat [OF D(1) fl5, of k] by (auto simp: D(4))
  have ln: "unat (num_keys (node_at s b)) + 1 = Suc (length ?ps)" using nk by simp
  have "btree_remove_key s b k = Some s6"
    unfolding btree_remove_key_def using r1(1) t(1) r3(1) P s4(1) n(1) w(1) h(1) nk
    by (simp add: reread_def ln del: leaf_slot.simps length_append list.size)
  moreover have "nodes_to s s6 ((node_at s)(b := n))"
    using nodes_to_trans [OF N nodes_to_silent [OF h(2)]] by (simp add: D(4))
  moreover have "flat_at s6 b (us @ vs)" using fl5 leaf_at_silent [OF h(2)] by (simp add: flat_at_def)
  ultimately show thesis using n(4) by (rule that)
qed

text \<open>The leaves of a one-level tree are distinct blocks, and none of them is the root.\<close>

lemma flat_at_fresh:
  assumes "flat_at s b (us @ (k, c) # vs)" and "d \<in> insert b (snd ` set (us @ vs))"
  shows "d \<noteq> c"
proof -
  have lv: "\<And>q. q \<in> set (us @ (k, c) # vs) \<Longrightarrow> leaf_at s b q" and r: "root_at (node_at s b) b (us @ (k, c) # vs)"
      and so: "sorted_wrt (<) (map fst (us @ (k, c) # vs))"
    using assms(1) by (auto simp: flat_at_def)
  have "b \<noteq> c" using lv [of "(k, c)"] r by (auto simp: leaf_at_def root_at_def)
  moreover have "snd q \<noteq> c" if q: "q \<in> set (us @ vs)" for q
  proof -
    have "fst q \<noteq> k" using so q by (auto simp: sorted_wrt_append)
    moreover have "leaf_at s b q" "leaf_at s b (k, c)" using lv q by auto
    ultimately show ?thesis by (auto simp: leaf_at_def)
  qed
  ultimately show ?thesis using assms(2) by blast
qed

text \<open>Deleting a key of a one-level tree takes its leaf out of the root and gives the block back.\<close>

lemma btree_delete_flat:
  assumes vol: "tree_volume s" and fl: "flat_at s b (us @ (k, c) # vs)" and len: "length us + length vs + 1 < MAX_KEYS"
  obtains s' where "btree_delete s b k = Some (c, s')" and "tree_volume s'" and "flat_at s' b (us @ vs)"
    and "\<And>j. j < nblocks s \<Longrightarrow> block_used s' j = (j \<noteq> unat c \<and> block_used s j)" and "st.keeps s s'"
    and "\<And>d. d \<noteq> b \<Longrightarrow> is_node s d \<Longrightarrow> is_node s' d \<and> node_at s' d = node_at s d" and "n_value (node_at s' b) = n_value (node_at s b)"
    and "\<And>x. x \<noteq> 0 \<Longrightarrow> x \<noteq> bitmap_block (unat c) \<Longrightarrow> \<not> is_node s x \<Longrightarrow> view s' x = view s x"
    and "sb_of s' = (sb_of s)\<lparr>free_blocks := free_blocks (sb_of s) - 1\<rparr>"
proof -
  let ?ps = "us @ (k, c) # vs"
  have vo: "volume_ok s" and ok: "store_ok s" using vol by (simp_all add: tree_volume_def volume_ok_def)
  have lv: "leaf_at s b (k, c)" and so: "sorted_wrt (<) (map fst ?ps)" using fl by (auto simp: flat_at_def)
  have c0: "c \<noteq> 0" and pc: "parent (node_at s c) = b" and nc: "is_node s c" using lv by (simp_all add: leaf_at_def)
  have "k \<notin> fst ` set us" using so by (auto simp: sorted_wrt_append)
  then have m: "map_of ?ps k = Some c" by (simp add: map_add_def map_of_eq_None_iff [THEN iffD2] split: option.split)
  obtain s1 where r1: "btree_search s b k = Some (c, s1)" "st.silent s s1"
    using btree_search_flat [OF ok fl, of k] m by auto
  note S1 = leaf_at_silent [OF r1(2)] and K1 = st.keepsD [OF st.silentD(1) [OF r1(2)]]
  obtain s2 where r2: "read_node s1 c = Some (node_at s c, s2)" "st.silent s1 s2"
    using read_node_ok [OF K1(1), of c] nc S1 by auto
  note S2 = leaf_at_silent [OF r2(2)]
  have N2: "nodes_to s s2 (node_at s)" by (rule nodes_to_silent [OF st.silent_trans [OF r1(2) r2(2)]])
  have fl2: "flat_at s2 b ?ps" using fl S1 S2 by (simp add: flat_at_def)
  obtain s3 n where r3: "btree_remove_key s2 b k = Some s3" "nodes_to s2 s3 ((node_at s2)(b := n))" "flat_at s3 b (us @ vs)"
      "n_value n = n_value (node_at s2 b)"
    by (rule remove_key_flat [OF tree_volume_nodes(3) [OF N2 vo vol] fl2 len])
  note N3 = nodes_to_trans [OF N2 r3(2)]
  note D = nodes_toD [OF N3] and T3 = tree_volume_nodes [OF N3 vo]
  have nc3: "is_node s3 c" using nc D(3) by simp
  obtain s4 where r4: "btree_node_free s3 c = Some s4" "st.keeps s3 s4" "is_node s4 = is_node s3"
      "\<And>d. is_node s3 d \<Longrightarrow> node_at s4 d = node_at s3 d" "tree_volume s4"
      "\<And>j. j < nblocks s3 \<Longrightarrow> block_used s4 j = (j \<noteq> unat c \<and> block_used s3 j)"
      "\<And>x. x \<noteq> 0 \<Longrightarrow> x \<noteq> bitmap_block (unat c) \<Longrightarrow> view s4 x = view s3 x" "sb_of s4 = (sb_of s3)\<lparr>free_blocks := free_blocks (sb_of s3) - 1\<rparr>"
    by (rule node_free_ok [OF T3(3) [OF vol] nc3]) (rule that)
  have "flat_at s4 b (us @ vs)"
  proof (rule flat_at_cong [OF r3(3)])
    fix d assume d: "d \<in> insert b (snd ` set (us @ vs))"
    have "unat d \<noteq> unat c" using flat_at_fresh [OF fl d] by (simp add: word_unat_eq_iff)
    then show "is_node s4 d \<and> node_at s4 d = node_at s3 d \<and> block_used s4 (unat d)"
      using flat_at_blocks [OF r3(3) d] r4(3,4,6) by simp
  qed
  moreover have "btree_delete s b k = Some (c, s4)" using r1 r2 r3(1) r4(1) c0 pc by (simp add: btree_delete_def)
  moreover have "st.keeps s s4" using N3 r4(2) by (auto simp: nodes_to_def intro: st.keeps_trans)
  moreover have "block_used s4 j = (j \<noteq> unat c \<and> block_used s j)" if "j < nblocks s" for j
    using r4(6) [of j] T3(2) [OF that] that D(2) by simp
  moreover have "is_node s4 d \<and> node_at s4 d = node_at s d" if "d \<noteq> b" "is_node s d" for d
    using that r4(3,4) D(3,4) S1(2) S2(2) by simp
  moreover have "n_value (node_at s4 b) = n_value (node_at s b)"
    using r4(4) [of b] r3(4) D(3,4) S1(2) S2(2) flat_at_blocks(1) [OF fl, of b] by simp
  moreover have "view s4 x = view s x" if "x \<noteq> 0" "x \<noteq> bitmap_block (unat c)" "\<not> is_node s x" for x
    using r4(7) [OF that(1,2)] D(6) [OF that(3)] by simp
  moreover have "sb_of s3 = sb_of s" using D(6) [OF volume_not_node(1) [OF vo]] by (simp add: sb_of_def)
  then have "sb_of s4 = (sb_of s)\<lparr>free_blocks := free_blocks (sb_of s) - 1\<rparr>" using r4(8) by simp
  ultimately show thesis using r4(5) by (intro that [of s4]) simp_all
qed

end
