(* ===== verification/Lookup.thy ===== *)
theory Lookup
  imports Paths Btree_Flat
begin

text \<open>
  The lookup of a path (\<^verbatim>\<open>item_search\<close> in \<^verbatim>\<open>src/hash.c\<close>). Each directory has a B+tree from the hashes
  of its names to leaves. The value of a file's leaf is its inode; the value of a directory's leaf
  is the block of the root of its own tree, whose value is the inode of the directory.
\<close>

section \<open>The lookup\<close>

definition S_IFMT :: u32 where "S_IFMT = 0xF000"
definition S_IFDIR :: u32 where "S_IFDIR = 0x4000"
definition S_IFREG :: u32 where "S_IFREG = 0x8000"

abbreviation FILE_TYPE_DIRECTORY :: u32 where "FILE_TYPE_DIRECTORY \<equiv> S_IFDIR"

record InodeBtreePair =
  ip_inode :: u64
  ip_btree :: u64

definition no_pair :: InodeBtreePair where
  "no_pair = \<lparr>ip_inode = 0, ip_btree = 0\<rparr>"

definition pair_of :: "BTreeNode \<Rightarrow> InodeBtreePair" where
  "pair_of n = \<lparr>ip_inode = n_value n, ip_btree = if file_type n = FILE_TYPE_DIRECTORY then block_number n else 0\<rparr>"

text \<open>
  The loop over the components, from number \<open>i\<close> on with \<open>r\<close> left. A missing component is a \<^verbatim>\<open>NULL\<close>
  token, which is hashed. The path so far is kept in a \<^verbatim>\<open>PATH_MAX\<close> buffer and cut off to fit it.
\<close>

fun search_loop :: "nat \<Rightarrow> fs \<Rightarrow> string \<Rightarrow> nat \<Rightarrow> BTreeNode \<Rightarrow> string \<Rightarrow> (InodeBtreePair \<times> fs) option" where
  "search_loop 0 s path i node curr_path = Some (no_pair, s)"
| "search_loop (Suc r) s path i node curr_path = do {
     token \<leftarrow> split path (int i);
     (node_block, s) \<leftarrow> btree_search s (block_number node) (path_hash token);
     if node_block = 0 then Some (no_pair, s)
     else do {
       let curr_path = take (PATH_MAX - 1) (curr_path @ slash # token);
       (x, s) \<leftarrow> btree_node_read s node_block;
       let node = reread node x;
       (x, s) \<leftarrow> (if file_type node = FILE_TYPE_DIRECTORY then btree_node_read s (n_value node) else Some (Some node, s));
       (case x of
          None \<Rightarrow> Some (no_pair, s)
        | Some node \<Rightarrow>
            if path = curr_path then Some (pair_of node, s)
            else search_loop r s path (Suc i) node curr_path)
     }
   }"

definition item_search :: "fs \<Rightarrow> string \<Rightarrow> (InodeBtreePair \<times> fs) option" where
  "item_search s path = do {
     (sb, s) \<leftarrow> superblock_read s;
     sb \<leftarrow> sb;
     (node, s) \<leftarrow> read_node s (btree_root sb);
     if path = ''/'' then Some (\<lparr>ip_inode = n_value node, ip_btree = block_number node\<rparr>, s)
     else search_loop (count_l path) s path 1 node []
   }"

section \<open>Directories as maps from names\<close>

text \<open>A directory without entries, and what a directory in block \<open>b\<close> has under a name.\<close>

definition empty_dir :: "fs \<Rightarrow> u64 \<Rightarrow> bool" where
  "empty_dir s b \<longleftrightarrow> is_node s b \<and> \<not> is_leaf (node_at s b) \<and> num_keys (node_at s b) = 0 \<and> children (node_at s b) ! 0 = 0"

definition dir_entry :: "fs \<Rightarrow> u64 \<Rightarrow> string \<Rightarrow> u64 option \<Rightarrow> bool" where
  "dir_entry s b c r \<longleftrightarrow>
     (\<exists>t. tree_at s t \<and> ordered t \<and> root_block t = b \<and> r = map_of (leaves t) (path_hash c)) \<or> empty_dir s b \<and> r = None"

text \<open>The node a leaf stands for, and the node a list of components leads to.\<close>

definition target_of :: "fs \<Rightarrow> u64 \<Rightarrow> BTreeNode" where
  "target_of s l = (if file_type (node_at s l) = FILE_TYPE_DIRECTORY then node_at s (n_value (node_at s l)) else node_at s l)"

fun resolves :: "fs \<Rightarrow> BTreeNode \<Rightarrow> string list \<Rightarrow> BTreeNode \<Rightarrow> bool" where
  "resolves s n [] m \<longleftrightarrow> m = n"
| "resolves s n (c # cs) m \<longleftrightarrow>
     (\<exists>l. dir_entry s (block_number n) c (Some l) \<and>
       (file_type (node_at s l) = FILE_TYPE_DIRECTORY \<longrightarrow> is_node s (n_value (node_at s l))) \<and> resolves s (target_of s l) cs m)"

lemma leaves_node: "tree_at s t \<Longrightarrow> (k, b) \<in> set (leaves t) \<Longrightarrow> b \<noteq> 0 \<and> is_node s b"
  by (induction t) (auto simp: list_all_iff)

lemma dir_entry_node: "dir_entry s b c (Some l) \<Longrightarrow> l \<noteq> 0 \<and> is_node s l"
  unfolding dir_entry_def by (metis leaves_node map_of_SomeD option.distinct(1))

lemma dir_silent:
  assumes "st.silent s s'"
  shows "dir_entry s' b c r = dir_entry s b c r" and "resolves s' n cs m = resolves s n cs m"
proof -
  note S = leaf_at_silent(2,3) [OF assms]
  show d: "dir_entry s' b c r = dir_entry s b c r" for b c r
    by (simp add: dir_entry_def empty_dir_def tree_at_silent [OF assms] S)
  show "resolves s' n cs m = resolves s n cs m"
    by (induction cs arbitrary: n) (simp_all add: d S target_of_def)
qed

lemma search_empty:
  assumes "store_ok s" and "empty_dir s b"
  obtains s' where "btree_search s b k = Some (0, s')" and "st.silent s s'"
proof -
  have b: "is_node s b" "unat b < nblocks s" using assms(2) by (simp_all add: empty_dir_def is_node_def)
  obtain s' where r: "btree_node_read s b = Some (Some (node_at s b), s')" "st.silent s s'"
    using btree_node_read_ok [OF assms(1) b(2)] b(1) by auto
  have "length (children (node_at s b)) = MAX_KEYS + 1" using node_at_shape [of s b] by (simp add: node_shape_def)
  then have "aget (children (node_at s b)) 0 = Some 0" using assms(2) by (simp add: aget_def empty_dir_def)
  then have "btree_search s b k = Some (0, s')"
    by (subst btree_search.simps) (use r(1) assms(2) in \<open>simp add: empty_dir_def\<close>)
  with r(2) show thesis by (intro that)
qed

lemma dir_search:
  assumes "store_ok s" and "dir_entry s b c r"
  obtains s' where "btree_search s b (path_hash c) = Some (case r of None \<Rightarrow> 0 | Some l \<Rightarrow> l, s')" and "st.silent s s'"
proof (cases "empty_dir s b \<and> r = None")
  case True
  then show thesis using search_empty [OF assms(1), of b "path_hash c"] that by (metis option.simps(4))
next
  case False
  then obtain t where t: "tree_at s t" "ordered t" "root_block t = b" "r = map_of (leaves t) (path_hash c)"
    using assms(2) by (auto simp: dir_entry_def)
  then show thesis using btree_search_ok [OF assms(1) t(1,2), of "path_hash c"] that by (auto simp: find_leaf_def)
qed

section \<open>Correctness\<close>

text \<open>One round of the loop, on a component the directory has.\<close>

lemma search_step:
  assumes ok: "store_ok s" and d: "dir_entry s (block_number n) c (Some l)"
    and dt: "file_type (node_at s l) = FILE_TYPE_DIRECTORY \<longrightarrow> is_node s (n_value (node_at s l))"
    and sp: "split path (int i) = Some c" and len: "length cp + length c + 1 < PATH_MAX"
  obtains s' where "search_loop (Suc r) s path i n cp =
      (if path = cp @ slash # c then Some (pair_of (target_of s l), s')
       else search_loop r s' path (Suc i) (target_of s l) (cp @ slash # c))" and "st.silent s s'"
proof -
  have l: "l \<noteq> 0" "is_node s l" using dir_entry_node [OF d] by simp_all
  obtain s1 where s1: "btree_search s (block_number n) (path_hash c) = Some (l, s1)" "st.silent s s1"
    using dir_search [OF ok d] by auto
  note S1 = leaf_at_silent(2,3) [OF s1(2)] and K1 = st.keepsD [OF st.silentD(1) [OF s1(2)]]
  obtain s2 where s2: "btree_node_read s1 l = Some (Some (node_at s l), s2)" "st.silent s1 s2"
    using btree_node_read_ok [OF K1(1), of l] l(2) S1 K1(2) by (auto simp: is_node_def)
  note S2 = leaf_at_silent(2,3) [OF s2(2)] and K2 = st.keepsD [OF st.silentD(1) [OF s2(2)]]
  obtain s3 where s3: "(if file_type (node_at s l) = FILE_TYPE_DIRECTORY then btree_node_read s2 (n_value (node_at s l))
        else Some (Some (node_at s l), s2)) = Some (Some (target_of s l), s3)" "st.silent s2 s3"
  proof (cases "file_type (node_at s l) = FILE_TYPE_DIRECTORY")
    case True
    then show ?thesis
      using btree_node_read_ok [OF K2(1), of "n_value (node_at s l)"] dt S1 S2 K1(2) K2(2) that
      by (auto simp: is_node_def target_of_def)
  next
    case False
    then show ?thesis using that [of s2] st.silent_refl [OF K2(1)] by (simp add: target_of_def)
  qed
  have "take (PATH_MAX - 1) (cp @ slash # c) = cp @ slash # c" using len by simp
  then have "search_loop (Suc r) s path i n cp =
      (if path = cp @ slash # c then Some (pair_of (target_of s l), s3)
       else search_loop r s3 path (Suc i) (target_of s l) (cp @ slash # c))"
    using sp s1(1) s2(1) s3(1) l(1) by (simp add: reread_def)
  with st.silent_trans [OF st.silent_trans [OF s1(2) s2(2)] s3(2)] show thesis by (intro that)
qed

lemma search_loop_found:
  assumes "store_ok s" and "resolves s n cs m" and "cs \<noteq> []" and "list_all component (ds @ cs)" and "length (join (ds @ cs)) < PATH_MAX"
  shows "\<exists>s'. search_loop (length cs) s (join (ds @ cs)) (Suc (length ds)) n (join ds) = Some (pair_of m, s') \<and> st.silent s s'"
  using assms
proof (induction cs arbitrary: s n ds)
  case (Cons c cs)
  obtain l where l: "dir_entry s (block_number n) c (Some l)" "resolves s (target_of s l) cs m"
      "file_type (node_at s l) = FILE_TYPE_DIRECTORY \<longrightarrow> is_node s (n_value (node_at s l))"
    using Cons.prems(2) by auto
  have sp: "split (join (ds @ c # cs)) (int (Suc (length ds))) = Some c"
    using split_loop_join [OF Cons.prems(4), of "length ds"] by (simp add: split_def nat_add_distrib)
  have len: "length (join ds) + length c + 1 < PATH_MAX" using Cons.prems(5) by simp
  obtain s1 where s1: "search_loop (Suc (length cs)) s (join (ds @ c # cs)) (Suc (length ds)) n (join ds) =
      (if join (ds @ c # cs) = join ds @ slash # c then Some (pair_of (target_of s l), s1)
       else search_loop (length cs) s1 (join (ds @ c # cs)) (Suc (Suc (length ds))) (target_of s l) (join ds @ slash # c))"
      "st.silent s s1"
    by (rule search_step [OF Cons.prems(1) l(1,3) sp len])
  show ?case
  proof (cases "cs = []")
    case True
    then show ?thesis using s1 l(2) by auto
  next
    case False
    then have "join cs \<noteq> []" by (cases cs) auto
    then have ne: "join (ds @ c # cs) \<noteq> join ds @ slash # c" by simp
    have r1: "resolves s1 (target_of s l) cs m" using l(2) dir_silent(2) [OF s1(2)] by simp
    obtain s2 where s2: "search_loop (length cs) s1 (join ((ds @ [c]) @ cs)) (Suc (length (ds @ [c]))) (target_of s l) (join (ds @ [c])) =
        Some (pair_of m, s2)" "st.silent s1 s2"
      using Cons.IH [OF st.keepsD(1) [OF st.silentD(1) [OF s1(2)]] r1 False, of "ds @ [c]"] Cons.prems(4,5) by auto
    then show ?thesis using s1 ne st.silent_trans [OF s1(2) s2(2)] by auto
  qed
qed simp

text \<open>A component that its directory does not have ends the search without a result.\<close>

lemma search_loop_missing:
  assumes "store_ok s" and "resolves s n cs m" and "dir_entry s (block_number m) c None"
    and "list_all component (ds @ cs @ c # es)" and "length (join (ds @ cs @ c # es)) < PATH_MAX"
  shows "\<exists>s'. search_loop (length (cs @ c # es)) s (join (ds @ cs @ c # es)) (Suc (length ds)) n (join ds) = Some (no_pair, s') \<and> st.silent s s'"
  using assms
proof (induction cs arbitrary: s n ds)
  case Nil
  have sp: "split (join (ds @ c # es)) (int (Suc (length ds))) = Some c"
    using split_loop_join [OF Nil.prems(4), of "length ds"] by (simp add: split_def nat_add_distrib)
  obtain s1 where "btree_search s (block_number n) (path_hash c) = Some (0, s1)" "st.silent s s1"
    using dir_search [OF Nil.prems(1,3)] Nil.prems(2) by auto
  then show ?case using sp by auto
next
  case (Cons a cs)
  let ?p = "join (ds @ a # cs @ c # es)"
  obtain l where l: "dir_entry s (block_number n) a (Some l)" "resolves s (target_of s l) cs m"
      "file_type (node_at s l) = FILE_TYPE_DIRECTORY \<longrightarrow> is_node s (n_value (node_at s l))"
    using Cons.prems(2) by auto
  have sp: "split ?p (int (Suc (length ds))) = Some a"
    using split_loop_join [OF Cons.prems(4), of "length ds"] by (simp add: split_def nat_add_distrib)
  have len: "length (join ds) + length a + 1 < PATH_MAX" using Cons.prems(5) by simp
  obtain s1 where s1: "search_loop (Suc (length (cs @ c # es))) s ?p (Suc (length ds)) n (join ds) =
      (if ?p = join ds @ slash # a then Some (pair_of (target_of s l), s1)
       else search_loop (length (cs @ c # es)) s1 ?p (Suc (Suc (length ds))) (target_of s l) (join ds @ slash # a))"
      "st.silent s s1"
    by (rule search_step [OF Cons.prems(1) l(1,3) sp len])
  have ne: "?p \<noteq> join ds @ slash # a" by simp
  have r1: "resolves s1 (target_of s l) cs m" "dir_entry s1 (block_number m) c None"
    using l(2) Cons.prems(3) dir_silent [OF s1(2)] by simp_all
  obtain s2 where s2: "search_loop (length (cs @ c # es)) s1 (join ((ds @ [a]) @ cs @ c # es)) (Suc (length (ds @ [a]))) (target_of s l)
      (join (ds @ [a])) = Some (no_pair, s2)" "st.silent s1 s2"
    using Cons.IH [OF st.keepsD(1) [OF st.silentD(1) [OF s1(2)]] r1, of "ds @ [a]"] Cons.prems(4,5) by auto
  then show ?case using s1 ne st.silent_trans [OF s1(2) s2(2)] by auto
qed

text \<open>The state a lookup starts from: a superblock whose \<^verbatim>\<open>btree_root\<close> is a node.\<close>

definition rooted :: "fs \<Rightarrow> bool" where
  "rooted s \<longleftrightarrow> store_ok s \<and> 0 < nblocks s \<and> btype (view s 0) = BLOCK_TYPE_SUPER \<and> is_node s (btree_root (sb_of s))"

abbreviation root_node :: "fs \<Rightarrow> BTreeNode" where
  "root_node s \<equiv> node_at s (btree_root (sb_of s))"

lemma item_search_start:
  assumes "rooted s"
  obtains s' where "item_search s path = (if path = ''/'' then Some (\<lparr>ip_inode = n_value (root_node s), ip_btree = block_number (root_node s)\<rparr>, s')
      else search_loop (count_l path) s' path 1 (root_node s) [])" and "st.silent s s'"
proof -
  have R: "store_ok s" "0 < nblocks s" "btype (view s 0) = BLOCK_TYPE_SUPER" "is_node s (btree_root (sb_of s))"
    using assms by (simp_all add: rooted_def)
  obtain s1 where s1: "superblock_read s = Some (Some (sb_of s), s1)" "st.silent s s1"
    using superblock_read_ok [OF R(1,2)] R(3) by auto
  obtain s2 where s2: "read_node s1 (btree_root (sb_of s)) = Some (root_node s, s2)" "st.silent s1 s2"
    using read_node_ok [OF st.keepsD(1) [OF st.silentD(1) [OF s1(2)]], of "btree_root (sb_of s)"] R(4) leaf_at_silent(2,3) [OF s1(2)]
    by auto
  show thesis
    by (rule that [of s2, OF _ st.silent_trans [OF s1(2) s2(2)]]) (use s1(1) s2(1) in \<open>simp add: item_search_def\<close>)
qed

lemma item_search_found:
  assumes "rooted s" and "resolves s (root_node s) cs m" and "cs \<noteq> []" and "list_all component cs" and "length (join cs) < PATH_MAX"
  obtains s' where "item_search s (join cs) = Some (pair_of m, s')" and "st.silent s s'"
proof -
  obtain s1 where s1: "item_search s (join cs) = (if join cs = ''/'' then Some (\<lparr>ip_inode = n_value (root_node s), ip_btree = block_number (root_node s)\<rparr>, s1)
      else search_loop (count_l (join cs)) s1 (join cs) 1 (root_node s) [])" "st.silent s s1"
    by (rule item_search_start [OF assms(1)])
  have "resolves s1 (root_node s) cs m" using assms(2) dir_silent(2) [OF s1(2)] by simp
  then obtain s2 where s2: "search_loop (length cs) s1 (join cs) 1 (root_node s) [] = Some (pair_of m, s2)" "st.silent s1 s2"
    using search_loop_found [OF st.keepsD(1) [OF st.silentD(1) [OF s1(2)]], of "root_node s" cs m "[]"] assms(3-5) by auto
  have "join cs \<noteq> ''/''" using assms(3,4) by (cases cs) (auto simp: component_def)
  with s1(1) s2(1) count_l_join [OF assms(4)] have "item_search s (join cs) = Some (pair_of m, s2)" by simp
  with st.silent_trans [OF s1(2) s2(2)] show thesis by (intro that)
qed

lemma item_search_missing:
  assumes "rooted s" and "resolves s (root_node s) cs m" and "dir_entry s (block_number m) c None"
    and "list_all component (cs @ c # es)" and "length (join (cs @ c # es)) < PATH_MAX"
  obtains s' where "item_search s (join (cs @ c # es)) = Some (no_pair, s')" and "st.silent s s'"
proof -
  let ?p = "join (cs @ c # es)"
  obtain s1 where s1: "item_search s ?p = (if ?p = ''/'' then Some (\<lparr>ip_inode = n_value (root_node s), ip_btree = block_number (root_node s)\<rparr>, s1)
      else search_loop (count_l ?p) s1 ?p 1 (root_node s) [])" "st.silent s s1"
    by (rule item_search_start [OF assms(1)])
  have "resolves s1 (root_node s) cs m" "dir_entry s1 (block_number m) c None" using assms(2,3) dir_silent [OF s1(2)] by simp_all
  then obtain s2 where s2: "search_loop (length (cs @ c # es)) s1 ?p 1 (root_node s) [] = Some (no_pair, s2)" "st.silent s1 s2"
    using search_loop_missing [OF st.keepsD(1) [OF st.silentD(1) [OF s1(2)]], of "root_node s" cs m c "[]" es] assms(4,5) by auto
  have "length ?p \<noteq> 1" using length_join [OF assms(4)] by (auto simp del: join_append)
  then have "?p \<noteq> ''/''" by (metis One_nat_def length_Cons list.size(3))
  with s1(1) s2(1) count_l_join [OF assms(4)] have "item_search s ?p = Some (no_pair, s2)" by simp
  with st.silent_trans [OF s1(2) s2(2)] show thesis by (intro that)
qed

section \<open>Changes that keep the directories\<close>

text \<open>
  A step that keeps the geometry in the superblock and every node keeps every path. The geometry is
  what the lookups and the inode table depend on.
\<close>

definition geometry :: "fs \<Rightarrow> u64 \<times> u64 \<times> u64" where
  "geometry s = (btree_root (sb_of s), inode_bitmap (sb_of s), sb_total_blocks (sb_of s))"

definition nodes_kept :: "fs \<Rightarrow> fs \<Rightarrow> bool" where
  "nodes_kept s s' \<longleftrightarrow> store_ok s' \<and> nblocks s' = nblocks s \<and> btype (view s' 0) = btype (view s 0) \<and> geometry s' = geometry s \<and>
     (\<forall>b. is_node s b \<longrightarrow> view s' b = view s b)"

lemma geometry_cong: "view s' 0 = view s 0 \<Longrightarrow> geometry s' = geometry s"
  by (simp add: geometry_def sb_of_def)

lemma nodes_kept_silent:
  assumes "st.silent s s'"
  shows "nodes_kept s s'"
  using st.keepsD(1,2) [OF st.silentD(1) [OF assms]] st.silentD(2) [OF assms] geometry_cong [of s' s] by (simp add: nodes_kept_def)

lemma nodes_kept_node:
  assumes "nodes_kept s s'" and "is_node s b"
  shows "is_node s' b" and "node_at s' b = node_at s b"
  using assms by (auto simp: nodes_kept_def is_node_def node_at_def)

lemma nodes_kept_trans: "nodes_kept s t \<Longrightarrow> nodes_kept t u \<Longrightarrow> nodes_kept s u"
  using nodes_kept_node(1) [of s t] by (auto simp: nodes_kept_def)

lemma nodes_kept_tree: "nodes_kept s s' \<Longrightarrow> tree_at s t \<Longrightarrow> tree_at s' t"
proof (induction t)
  case (TLeaf b k v)
  then show ?case using nodes_kept_node [of s s' b] by simp
next
  case (TNode b ks ts)
  then have "is_node s b" by simp
  note n = nodes_kept_node [OF TNode.prems(1) this]
  show ?case using TNode n by (auto simp: list_all_iff)
qed

lemma nodes_kept_lookup:
  assumes "nodes_kept s s'"
  shows "dir_entry s b c r \<Longrightarrow> dir_entry s' b c r" and "resolves s n cs m \<Longrightarrow> resolves s' n cs m"
    and "rooted s \<Longrightarrow> rooted s'" and "rooted s \<Longrightarrow> root_node s' = root_node s"
proof -
  have k: "store_ok s'" "nblocks s' = nblocks s" and sb: "btree_root (sb_of s') = btree_root (sb_of s)"
    using assms by (simp_all add: nodes_kept_def geometry_def)
  have e: "empty_dir s b \<Longrightarrow> empty_dir s' b" for b
    using nodes_kept_node [OF assms, of b] by (auto simp: empty_dir_def)
  show d: "dir_entry s b c r \<Longrightarrow> dir_entry s' b c r" for b c r
    using e nodes_kept_tree [OF assms] unfolding dir_entry_def by blast
  show "resolves s n cs m \<Longrightarrow> resolves s' n cs m"
  proof (induction cs arbitrary: n)
    case (Cons c cs)
    then obtain l where l: "dir_entry s (block_number n) c (Some l)" "resolves s (target_of s l) cs m"
        "file_type (node_at s l) = FILE_TYPE_DIRECTORY \<longrightarrow> is_node s (n_value (node_at s l))"
      by auto
    have "is_node s l" using dir_entry_node [OF l(1)] by simp
    note nl = nodes_kept_node [OF assms this]
    have "target_of s' l = target_of s l" using nl l(3) nodes_kept_node(2) [OF assms] by (simp add: target_of_def)
    with d [OF l(1)] Cons.IH [OF l(2)] l(3) nl nodes_kept_node(1) [OF assms] show ?case by auto
  qed simp
  show "rooted s \<Longrightarrow> rooted s'" and "rooted s \<Longrightarrow> root_node s' = root_node s"
    using nodes_kept_node [OF assms] k assms by (auto simp: rooted_def sb nodes_kept_def)
qed

end
