(* ===== verification/Inodes.thy ===== *)
theory Inodes
  imports Alloc
begin

text \<open>
  Inodes (\<^verbatim>\<open>src/inode.c\<close>, \<^verbatim>\<open>src/inode.h\<close>): the structure and its place in the inode table, reading
  and writing it, allocation over the inode bitmap, and the mapping from block indices of a file to
  blocks of the disk.
\<close>

section \<open>The structure\<close>

text \<open>
  \<^verbatim>\<open>sizeof(Inode)\<close> is 184; four bytes of padding follow \<^verbatim>\<open>mode\<close>, and \<^verbatim>\<open>memcpy\<close> copies them, so they are
  a field (\<open>mode_pad\<close>). A table block holds 22 inodes.
\<close>

record Inode =
  inode_number :: u64
  mode :: u32
  mode_pad :: u32
  i_size :: u64
  block_count :: u64
  direct_blocks :: "u64 list"
  indirect_block :: u64
  double_indirect_block :: u64
  i_creation_time :: u64
  modification_time :: u64
  access_time :: u64
  reference_count :: u64
  owner_id :: u32
  group_id :: u32

definition inode_per_page :: nat where [layout]: "inode_per_page = USABLE_BLOCK_SIZE div INODE_SIZE"

definition inode_off :: "nat \<Rightarrow> nat" where
  "inode_off k = 4 + INODE_SIZE * k"

definition inode_load :: "block \<Rightarrow> nat \<Rightarrow> Inode" where
  "inode_load b k = (let o' = inode_off k in
     \<lparr>inode_number = load64 b o', mode = load32 b (o' + 8), mode_pad = load32 b (o' + 12),
      i_size = load64 b (o' + 16), block_count = load64 b (o' + 24),
      direct_blocks = load_words 12 b (o' + 32), indirect_block = load64 b (o' + 128),
      double_indirect_block = load64 b (o' + 136), i_creation_time = load64 b (o' + 144),
      modification_time = load64 b (o' + 152), access_time = load64 b (o' + 160),
      reference_count = load64 b (o' + 168), owner_id = load32 b (o' + 176), group_id = load32 b (o' + 180)\<rparr>)"

definition inode_store :: "Inode \<Rightarrow> block \<Rightarrow> nat \<Rightarrow> block" where
  "inode_store i b k = (let o' = inode_off k;
     b = store64 (inode_number i) b o'; b = store32 (mode i) b (o' + 8); b = store32 (mode_pad i) b (o' + 12);
     b = store64 (i_size i) b (o' + 16); b = store64 (block_count i) b (o' + 24);
     b = store_words (direct_blocks i) b (o' + 32); b = store64 (indirect_block i) b (o' + 128);
     b = store64 (double_indirect_block i) b (o' + 136); b = store64 (i_creation_time i) b (o' + 144);
     b = store64 (modification_time i) b (o' + 152); b = store64 (access_time i) b (o' + 160);
     b = store64 (reference_count i) b (o' + 168); b = store32 (owner_id i) b (o' + 176)
     in store32 (group_id i) b (o' + 180))"

section \<open>Reading and writing\<close>

definition inode_table :: "Superblock \<Rightarrow> u64" where
  "inode_table sb = inode_bitmap sb + word_of_int (calculate_inode_bitmap_size sb)"

text \<open>A failed \<open>superblock_read\<close> leaves \<^verbatim>\<open>sb\<close> uninitialised, and it is read next.\<close>

definition inode_read :: "fs \<Rightarrow> u64 \<Rightarrow> (Inode option \<times> fs) option" where
  "inode_read s ino = do {
     (sb, s) \<leftarrow> superblock_read s;
     sb \<leftarrow> sb;
     let page = ino div of_nat inode_per_page;
     (p, s) \<leftarrow> get_block s 0 (inode_table sb + page);
     b \<leftarrow> deref s p;
     Some (if btype b \<noteq> BLOCK_TYPE_INODE then None else Some (inode_load b (unat (ino mod of_nat inode_per_page))), s)
   }"

text \<open>The write-back both kinds of table blocks use: through to the disk, or into the cache and pinned.\<close>

definition put_block :: "fs \<Rightarrow> ptr \<Rightarrow> u64 \<Rightarrow> bool \<Rightarrow> fs option" where
  "put_block s p b write_through =
     (if write_through then do {
        s \<leftarrow> locked_write s b p;
        decrease_pin_count s 0 b
      }
      else do {
        s \<leftarrow> write_block s p 0 b;
        increase_pin_count s 0 b
      })"

text \<open>
  Here the inode number is the signed field of the structure: a negative one gives a negative
  position in the table block, before its start.
\<close>

definition inode_write :: "fs \<Rightarrow> Inode \<Rightarrow> bool \<Rightarrow> (int \<times> fs) option" where
  "inode_write s inode write_through = do {
     (sb, s) \<leftarrow> superblock_read s;
     sb \<leftarrow> sb;
     let q = c_div (sint (inode_number inode)) (int inode_per_page);
     let r = sint (inode_number inode) - int inode_per_page * q;
     let bno = inode_table sb + word_of_int q;
     (p, s) \<leftarrow> get_block s 0 bno;
     b \<leftarrow> deref s p;
     if btype b \<noteq> BLOCK_TYPE_INODE then Some (-1, s)
     else if r < 0 then None
     else do {
       s \<leftarrow> assign s p (inode_store inode b (nat r));
       s \<leftarrow> put_block s p bno write_through;
       Some (0, s)
     }
   }"

section \<open>Allocation\<close>

text \<open>The part of \<open>inode_allocate\<close> after the first free inode \<open>ii\<close> was found, at bit \<open>off\<close> of \<open>bm\<close>.\<close>

definition inode_found :: "fs \<Rightarrow> u32 \<Rightarrow> u32 \<Rightarrow> u32 \<Rightarrow> bool \<Rightarrow> ptr \<Rightarrow> int \<Rightarrow> u64 \<Rightarrow> block \<Rightarrow> int \<Rightarrow> (int \<times> fs) option" where
  "inode_found s uid gid md write_through ibm ibmn ii bm off = do {
     (rc, bm) \<leftarrow> bitmap_put bm off 1;
     if rc \<noteq> 0 then Some (-1, s)
     else do {
       s \<leftarrow> assign s ibm bm;
       (node, s) \<leftarrow> inode_read s ii;
       case node of
         None \<Rightarrow> Some (-1, s)
       | Some node \<Rightarrow> do {
           let node = node\<lparr>inode_number := ii, mode := md, owner_id := uid, group_id := gid, reference_count := 1\<rparr>;
           (rc, s) \<leftarrow> inode_write s node write_through;
           if rc \<noteq> 0 then Some (-1, s)
           else do {
             s \<leftarrow> put_block s ibm (word_of_int ibmn) write_through;
             Some (sint ii, s)
           }
         }
     }
   }"

text \<open>
  The search goes on while the current block is a bitmap; it has no other bound, so it is a partial
  function. All of \<^verbatim>\<open>ii - ((ibmn - sb.inode_bitmap) * USABLE_BLOCK_SIZE)\<close> is 64-bit arithmetic.
\<close>

partial_function (option) inode_scan ::
  "fs \<Rightarrow> u32 \<Rightarrow> u32 \<Rightarrow> u32 \<Rightarrow> bool \<Rightarrow> u64 \<Rightarrow> ptr \<Rightarrow> int \<Rightarrow> u64 \<Rightarrow> (int \<times> fs) option" where
  "inode_scan s uid gid md write_through start ibm ibmn ii = do {
     b \<leftarrow> deref s ibm;
     if btype b \<noteq> BLOCK_TYPE_BITMAP then Some (-1, s)
     else do {
       (ibmn, ibm, s) \<leftarrow>
         (if ii mod of_nat USABLE_BLOCK_SIZE = 0 \<and> ii \<noteq> 0 then do {
            ibmn \<leftarrow> c_int (ibmn + 1);
            (ibm, s) \<leftarrow> get_block s 0 (word_of_int ibmn);
            Some (ibmn, ibm, s)
          }
          else Some (ibmn, ibm, s));
       bm \<leftarrow> deref s ibm;
       let off = int_of_u64 (ii - (word_of_int ibmn - start) * of_nat USABLE_BLOCK_SIZE);
       v \<leftarrow> bitmap_get bm off;
       if v = 0 then inode_found s uid gid md write_through ibm ibmn ii bm off
       else inode_scan s uid gid md write_through start ibm ibmn (ii + 1)
     }
   }"

definition inode_allocate :: "fs \<Rightarrow> u32 \<Rightarrow> u32 \<Rightarrow> u32 \<Rightarrow> bool \<Rightarrow> (int \<times> fs) option" where
  "inode_allocate s uid gid md write_through = do {
     (sb, s) \<leftarrow> superblock_read s;
     sb \<leftarrow> sb;
     let ibmn = int_of_u64 (inode_bitmap sb);
     (ibm, s) \<leftarrow> get_block s 0 (word_of_int ibmn);
     inode_scan s uid gid md write_through (inode_bitmap sb) ibm ibmn 0
   }"

text \<open>\<open>inode_free\<close> returns 0 on every path.\<close>

definition inode_free :: "fs \<Rightarrow> u64 \<Rightarrow> bool \<Rightarrow> (int \<times> fs) option" where
  "inode_free s ino write_through = do {
     (sb, s) \<leftarrow> superblock_read s;
     sb \<leftarrow> sb;
     let ibmn = inode_bitmap sb + ino div of_nat USABLE_BLOCK_SIZE;
     (ibm, s) \<leftarrow> get_block s 0 ibmn;
     bm \<leftarrow> deref s ibm;
     (rc, bm) \<leftarrow> bitmap_put bm (int (unat (ino mod of_nat USABLE_BLOCK_SIZE))) 0;
     if rc \<noteq> 0 then Some (0, s)
     else do {
       s \<leftarrow> assign s ibm bm;
       let bno = inode_table sb + word_of_int (int_of_u64 (ino div of_nat inode_per_page));
       (p, s) \<leftarrow> get_block s 0 bno;
       b \<leftarrow> deref s p;
       if btype b \<noteq> BLOCK_TYPE_INODE then Some (0, s)
       else do {
         s \<leftarrow> assign s p (store_bytes (replicate INODE_SIZE 0) b (inode_off (unat (ino mod of_nat inode_per_page))));
         s \<leftarrow> put_block s p bno write_through;
         s \<leftarrow> put_block s ibm ibmn write_through;
         Some (0, s)
       }
     }
   }"

section \<open>Block pointers\<close>

text \<open>
  A block used as an array of 64-bit pointers, after its type tag: 511 of them fit. An index outside
  leaves the block.
\<close>

definition PTRS :: nat where [layout]: "PTRS = USABLE_BLOCK_SIZE div 8"

definition get_word :: "block \<Rightarrow> int \<Rightarrow> u64 option" where
  "get_word b k = (if 0 \<le> k \<and> k < int PTRS then Some (load64 b (4 + 8 * nat k)) else None)"

definition set_word :: "block \<Rightarrow> int \<Rightarrow> u64 \<Rightarrow> block option" where
  "set_word b k v = (if 0 \<le> k \<and> k < int PTRS then Some (store64 v b (4 + 8 * nat k)) else None)"

text \<open>
  The position of an index behind the double indirect block. \<^verbatim>\<open>double_block_index\<close> is an \<^verbatim>\<open>int\<close>, but
  the divisor is a \<^verbatim>\<open>size_t\<close>, so the division and the remainder are unsigned.
\<close>

definition double_block_page :: "u64 \<Rightarrow> int" where
  "double_block_page idx = int_of_u64 (word_of_int (int_of_u64 (idx - of_nat (PTRS + 12))) div of_nat PTRS)"

definition page_index :: "u64 \<Rightarrow> int" where
  "page_index idx = int_of_u64 (word_of_int (int_of_u64 (idx - of_nat (PTRS + 12))) mod of_nat PTRS)"

text \<open>The return code, the value stored in \<^verbatim>\<open>*physical_block\<close> if it was assigned, and the state.\<close>

definition inode_get_block :: "fs \<Rightarrow> Inode \<Rightarrow> u64 \<Rightarrow> (int \<times> u64 option \<times> fs) option" where
  "inode_get_block s inode idx =
     (if idx < 12 then
        let d = direct_blocks inode ! unat idx in Some (if d \<noteq> 0 then 0 else -1, Some d, s)
      else if idx < of_nat PTRS then
        if indirect_block inode = 0 then Some (-1, None, s)
        else do {
          (p, s) \<leftarrow> get_block s (inode_number inode) (indirect_block inode);
          b \<leftarrow> deref s p;
          if btype b \<noteq> BLOCK_TYPE_DATA then Some (-1, None, s)
          else do {
            v \<leftarrow> get_word b (int (unat (idx - 12)));
            Some (0, Some v, s)
          }
        }
      else if double_indirect_block inode = 0 then Some (-1, None, s)
      else do {
        (p, s) \<leftarrow> get_block s (inode_number inode) (double_indirect_block inode);
        b \<leftarrow> deref s p;
        d \<leftarrow> get_word b (double_block_page idx);
        (p, s) \<leftarrow> get_block s (inode_number inode) d;
        b \<leftarrow> deref s p;
        v \<leftarrow> get_word b (page_index idx);
        Some (if v = 0 then (-1, None, s) else (0, Some v, s))
      })"

text \<open>
  The statements \<open>inode_set_block\<close> repeats: writing a block back and, unless the cache is compiled
  out, through to block \<open>to\<close>; zeroing a new pointer block; tagging a block as data.
\<close>

definition put_through :: "fs \<Rightarrow> ptr \<Rightarrow> u64 \<Rightarrow> u64 \<Rightarrow> u64 \<Rightarrow> fs option" where
  "put_through s p inum b to = do {
     s \<leftarrow> write_block s p inum b;
     if cache_disabled s then Some s else locked_write s to p
   }"

definition modify :: "fs \<Rightarrow> ptr \<Rightarrow> (block \<Rightarrow> block option) \<Rightarrow> fs option" where
  "modify s p f = do {
     b \<leftarrow> deref s p;
     b \<leftarrow> f b;
     assign s p b
   }"

definition clear_payload :: "block \<Rightarrow> block" where
  "clear_payload b = store_bytes (replicate USABLE_BLOCK_SIZE 0) b 4"

text \<open>
  Writing the inode and reading it back, which leaves the structure as it was when the read fails.
\<close>

definition inode_rewrite :: "fs \<Rightarrow> Inode \<Rightarrow> (Inode \<times> fs) option" where
  "inode_rewrite s inode = do {
     (_, s) \<leftarrow> inode_write s inode True;
     (r, s) \<leftarrow> inode_read s (inode_number inode);
     Some (case r of None \<Rightarrow> inode | Some i \<Rightarrow> i, s)
   }"

definition set_direct :: "fs \<Rightarrow> Inode \<Rightarrow> u64 \<Rightarrow> u64 \<Rightarrow> (int \<times> Inode \<times> fs) option" where
  "set_direct s inode idx pb = do {
     let inode = inode\<lparr>direct_blocks := (direct_blocks inode)[unat idx := pb]\<rparr>;
     (_, s) \<leftarrow> inode_write s inode True;
     Some (0, inode, s)
   }"

definition set_indirect :: "fs \<Rightarrow> Inode \<Rightarrow> u64 \<Rightarrow> u64 \<Rightarrow> (int \<times> Inode \<times> fs) option" where
  "set_indirect s inode idx pb = do {
     s \<leftarrow> (if idx = 12 \<and> pb = 0 \<and> indirect_block inode \<noteq> 0
           then free_page s (int_of_u64 (indirect_block inode)) else Some s);
     (failed, inode, s) \<leftarrow>
       (if indirect_block inode \<noteq> 0 then Some (False, inode, s)
        else do {
          (a, s) \<leftarrow> alloc_page s;
          let inode = inode\<lparr>indirect_block := a\<rparr>;
          if a = 0 then Some (True, inode, s)
          else do {
            (p, s) \<leftarrow> get_block s (inode_number inode) a;
            s \<leftarrow> modify s p (\<lambda>b. Some (set_btype BLOCK_TYPE_DATA b));
            (inode, s) \<leftarrow> inode_rewrite s inode;
            s \<leftarrow> modify s p (\<lambda>b. Some (clear_payload b));
            s \<leftarrow> put_through s p (inode_number inode) (indirect_block inode) (indirect_block inode);
            Some (False, inode, s)
          }
        });
     if failed then Some (-1, inode, s)
     else do {
       (p, s) \<leftarrow> get_block s (inode_number inode) (indirect_block inode);
       s \<leftarrow> modify s p (\<lambda>b. set_word b (int (unat (idx - 12))) pb);
       s \<leftarrow> put_through s p (inode_number inode) (indirect_block inode) (indirect_block inode);
       (p, s) \<leftarrow> get_block s (inode_number inode) pb;
       s \<leftarrow> modify s p (\<lambda>b. Some (set_btype BLOCK_TYPE_DATA b));
       s \<leftarrow> put_through s p (inode_number inode) pb pb;
       Some (0, inode, s)
     }
   }"

text \<open>
  Behind the double indirect block. The new pointer blocks and the final pointer page are written
  through to \<^verbatim>\<open>inode->indirect_block\<close>, and the final \<open>write_block\<close> goes to the block just stored in the
  page, as in the source; the return code stays -1.
\<close>

definition set_double :: "fs \<Rightarrow> Inode \<Rightarrow> u64 \<Rightarrow> u64 \<Rightarrow> (int \<times> Inode \<times> fs) option" where
  "set_double s inode idx pb = do {
     let dp = double_block_page idx;
     let pi = page_index idx;
     s \<leftarrow> (if pi = 0 \<and> pb = 0 then do {
             s \<leftarrow> (if double_indirect_block inode \<noteq> 0 then do {
                     (p, s) \<leftarrow> get_block s (inode_number inode) (double_indirect_block inode);
                     b \<leftarrow> deref s p;
                     d \<leftarrow> get_word b dp;
                     if d \<noteq> 0 then free_page s (int_of_u64 d) else Some s
                   }
                   else Some s);
             if dp = 0 then free_page s (int_of_u64 (double_indirect_block inode)) else Some s
           }
           else Some s);
     (failed, inode, s) \<leftarrow>
       (if double_indirect_block inode \<noteq> 0 then Some (False, inode, s)
        else do {
          (a, s) \<leftarrow> alloc_page s;
          let inode = inode\<lparr>double_indirect_block := a\<rparr>;
          if a = 0 then Some (True, inode, s)
          else do {
            (p, s) \<leftarrow> get_block s (inode_number inode) a;
            s \<leftarrow> modify s p (\<lambda>b. Some (set_btype BLOCK_TYPE_DATA b));
            (inode, s) \<leftarrow> inode_rewrite s inode;
            s \<leftarrow> modify s p (\<lambda>b. Some (clear_payload b));
            s \<leftarrow> put_through s p (inode_number inode) (indirect_block inode) (indirect_block inode);
            Some (False, inode, s)
          }
        });
     if failed then Some (-1, inode, s)
     else do {
       (dind, s) \<leftarrow> get_block s (inode_number inode) (double_indirect_block inode);
       b \<leftarrow> deref s dind;
       d \<leftarrow> get_word b dp;
       (failed, d, s) \<leftarrow>
         (if d \<noteq> 0 then Some (False, d, s)
          else do {
            (a, s) \<leftarrow> alloc_page s;
            s \<leftarrow> modify s dind (\<lambda>b. set_word b dp a);
            if a = 0 then Some (True, a, s)
            else do {
              (p, s) \<leftarrow> get_block s (inode_number inode) a;
              s \<leftarrow> modify s p (\<lambda>b. Some (set_btype BLOCK_TYPE_DATA b));
              s \<leftarrow> put_through s p (inode_number inode) a (indirect_block inode);
              Some (False, a, s)
            }
          });
       if failed then Some (-1, inode, s)
       else do {
         b \<leftarrow> deref s dind;
         d \<leftarrow> get_word b dp;
         (p, s) \<leftarrow> get_block s (inode_number inode) d;
         s \<leftarrow> modify s p (\<lambda>b. set_word b pi pb);
         s \<leftarrow> put_through s p (inode_number inode) pb (indirect_block inode);
         Some (-1, inode, s)
       }
     }
   }"

definition inode_set_block :: "fs \<Rightarrow> Inode \<Rightarrow> u64 \<Rightarrow> u64 \<Rightarrow> (int \<times> Inode \<times> fs) option" where
  "inode_set_block s inode idx pb =
     (if idx < 12 then set_direct s inode idx pb
      else if idx \<le> of_nat (PTRS + 12) then set_indirect s inode idx pb
      else set_double s inode idx pb)"

section \<open>The layout of the inode table\<close>

lemma inode_load_store:
  assumes "length (direct_blocks i) = 12"
  shows "inode_load (inode_store i b k) k = i"
  using assms by (simp add: inode_load_def inode_store_def Let_def)

lemma inode_store_outside:
  assumes "length (direct_blocks i) = 12" and "j < inode_off k \<or> inode_off k + INODE_SIZE \<le> j"
  shows "inode_store i b k j = b j"
  using assms by (auto simp: inode_store_def Let_def layout)

lemma inode_off_disjoint:
  assumes "j \<noteq> k"
  shows "inode_off j + INODE_SIZE \<le> inode_off k \<or> inode_off k + INODE_SIZE \<le> inode_off j"
  using assms by (auto simp: inode_off_def layout)

lemma load_le_inode_other:
  assumes "length (direct_blocks i) = 12" and "j \<noteq> k" and "d + n \<le> 184"
  shows "load_le n (inode_store i b k) (inode_off j + d) = load_le n b (inode_off j + d)"
proof (rule load_le_cong)
  fix x assume "x < n"
  then have "inode_off j + d + x < inode_off k \<or> inode_off k + INODE_SIZE \<le> inode_off j + d + x"
    using inode_off_disjoint [OF assms(2)] assms(3) by (auto simp: INODE_SIZE_def)
  then show "inode_store i b k (inode_off j + d + x) = b (inode_off j + d + x)"
    by (rule inode_store_outside [OF assms(1)])
qed

lemma inode_load_store_other:
  assumes "length (direct_blocks i) = 12" and "j \<noteq> k"
  shows "inode_load (inode_store i b k) j = inode_load b j"
proof -
  note ld = load_le_inode_other [OF assms, of _ _ b]
  have "load_words 12 (inode_store i b k) (inode_off j + 32) = load_words 12 b (inode_off j + 32)"
    by (intro nth_equalityI) (simp_all add: add.assoc ld)
  moreover have "load64 (inode_store i b k) (inode_off j) = load64 b (inode_off j)" using ld [of 0 8] by simp
  ultimately show ?thesis by (simp add: inode_load_def Let_def ld)
qed

lemma btype_inode_store: "length (direct_blocks i) = 12 \<Longrightarrow> btype (inode_store i b k) = btype b"
  by (intro load_le_cong inode_store_outside) (simp_all add: inode_off_def)

lemma inode_load_direct [simp]: "length (direct_blocks (inode_load b k)) = 12"
  by (simp add: inode_load_def Let_def)

section \<open>Reading and writing inodes\<close>

definition inode_home :: "fs \<Rightarrow> nat \<Rightarrow> u64" where
  "inode_home s n = inode_table (sb_of s) + of_nat (n div inode_per_page)"

text \<open>Inode \<open>n\<close> has a place in the inode table of a volume whose superblock is valid.\<close>

definition inode_ok :: "fs \<Rightarrow> nat \<Rightarrow> bool" where
  "inode_ok s n \<longleftrightarrow> store_ok s \<and> 0 < nblocks s \<and> btype (view s 0) = BLOCK_TYPE_SUPER \<and> n < 2 ^ 63 \<and>
     unat (inode_home s n) < nblocks s \<and> btype (view s (inode_home s n)) = BLOCK_TYPE_INODE"

definition inode_of :: "fs \<Rightarrow> nat \<Rightarrow> Inode" where
  "inode_of s n = inode_load (view s (inode_home s n)) (n mod inode_per_page)"

lemma inode_home_not_super: "inode_ok s n \<Longrightarrow> inode_home s n \<noteq> 0"
  by (auto simp: inode_ok_def block_types)

lemma word_div_mod_nat:
  assumes "n < 2 ^ 64" and "0 < d" and "d < 2 ^ 64"
  shows "(of_nat n :: u64) div of_nat d = of_nat (n div d)" and "unat ((of_nat n :: u64) mod of_nat d) = n mod d"
  using assms by (simp_all add: word_unat_eq_iff unat_div unat_mod unat_of_nat_small le_less_trans [OF div_le_dividend])

lemma per_page: "inode_per_page = 22" by (simp add: layout)

lemma inode_read_ok:
  assumes "inode_ok s n"
  obtains s' where "inode_read s (of_nat n) = Some (Some (inode_of s n), s')" and "st.silent s s'"
proof -
  have ok: "store_ok s" and nb: "0 < nblocks s" and t0: "btype (view s 0) = BLOCK_TYPE_SUPER"
      and h: "unat (inode_home s n) < nblocks s" "btype (view s (inode_home s n)) = BLOCK_TYPE_INODE" and n: "n < 2 ^ 64"
    using assms by (auto simp: inode_ok_def)
  obtain s1 where r: "superblock_read s = Some (Some (sb_of s), s1)" "st.silent s s1"
    by (rule superblock_read_valid [OF ok nb t0])
  note k1 = st.keepsD [OF st.silentD(1) [OF r(2)]] and v1 = st.silentD(2) [OF r(2)]
  have b: "inode_table (sb_of s) + of_nat n div of_nat inode_per_page = inode_home s n"
    unfolding inode_home_def by (subst word_div_mod_nat(1) [OF n]) (simp_all add: per_page)
  have m: "unat ((of_nat n :: u64) mod of_nat inode_per_page) = n mod inode_per_page"
    by (rule word_div_mod_nat(2) [OF n]) (simp_all add: per_page)
  obtain p s2 where g: "get_block s1 0 (inode_home s n) = Some (p, s2)" "deref s2 p = Some (view s1 (inode_home s n))" "st.silent s1 s2"
    by (rule st.get_load [OF k1(1), of "inode_home s n" 0]) (use h k1(2) in auto)
  show thesis
    by (rule that [of s2])
      (use r g h b m st.silent_trans [OF r(2) g(3)] in \<open>simp_all add: inode_read_def inode_of_def v1 Let_def\<close>)
qed

lemma inode_write_ok:
  assumes "inode_ok s n" and i: "inode_number i = of_nat n"
  obtains s' where "inode_write s i wt = Some (0, s')"
    and "if wt then st.updates s s' (inode_home s n) (inode_store i (view s (inode_home s n)) (n mod inode_per_page))
         else st.changes s s' (inode_home s n) (inode_store i (view s (inode_home s n)) (n mod inode_per_page))"
proof -
  let ?h = "inode_home s n"
  let ?x = "inode_store i (view s ?h) (n mod inode_per_page)"
  have ok: "store_ok s" and nb: "0 < nblocks s" and t0: "btype (view s 0) = BLOCK_TYPE_SUPER"
      and h: "unat ?h < nblocks s" "btype (view s ?h) = BLOCK_TYPE_INODE" and n: "n < 2 ^ 63"
    using assms by (auto simp: inode_ok_def)
  obtain s1 where r: "superblock_read s = Some (Some (sb_of s), s1)" "st.silent s s1"
    by (rule superblock_read_valid [OF ok nb t0])
  note k1 = st.keepsD [OF st.silentD(1) [OF r(2)]] and v1 = st.silentD(2) [OF r(2)]
  obtain p s2 where g: "get_block s1 0 ?h = Some (p, s2)" "deref s2 p = Some (view s1 ?h)" "st.silent s1 s2" "points s2 p ?h"
    by (rule st.get_load [OF k1(1), of ?h 0]) (use h k1(2) in auto)
  note sil = st.silent_trans [OF r(2) g(3)]
  have ok2: "store_ok s2" using st.keepsD(1) [OF st.silentD(1) [OF sil]] .
  have si: "sint (inode_number i) = int n"
    unfolding i by (rule sint_of_nat_small [OF n])
  have q: "c_div (sint (inode_number i)) (int inode_per_page) = int (n div inode_per_page)"
    unfolding si by (rule c_div_nat)
  have rr: "sint (inode_number i) - int inode_per_page * int (n div inode_per_page) = int (n mod inode_per_page)"
    unfolding si by (simp add: of_nat_mod minus_mult_div_eq_mod of_nat_div)
  have bn: "inode_table (sb_of s) + word_of_int (int (n div inode_per_page)) = ?h" by (simp add: inode_home_def)
  have w: "inode_write s i wt = do {
      s \<leftarrow> assign s2 p ?x; s \<leftarrow> put_block s p ?h wt; Some (0, s) }"
    by (simp only: inode_write_def r(1) bind.simps prod.case Let_def q rr bn g(1,2)) (simp add: v1 h)
  show thesis
  proof (cases wt)
    case True
    obtain a b c where w': "assign s2 p ?x = Some a" "locked_write a ?h p = Some b" "decrease_pin_count b 0 ?h = Some c"
        "st.updates s2 c ?h ?x"
      by (rule st.store_through_unpin [OF ok2 g(4), of ?x 0]) (rule that)
    show thesis
      by (rule that [of c]) (use True w w' in \<open>simp_all add: put_block_def st.silent_updates [OF sil w'(4)]\<close>)
  next
    case False
    obtain a b c where w': "assign s2 p ?x = Some a" "write_block a p 0 ?h = Some b" "increase_pin_count b 0 ?h = Some c"
        "st.changes s2 c ?h ?x"
      by (rule st.store_put_pin [OF ok2 g(4), of ?x 0 0]) (rule that)
    show thesis
      by (rule that [of c]) (use False w w' in \<open>simp_all add: put_block_def st.silent_changes [OF sil w'(4)]\<close>)
  qed
qed

text \<open>Two inodes at the same place of the same table block are one.\<close>

lemma same_home:
  assumes "m < 2 ^ 63" and "n < 2 ^ 63" and "inode_home s m = inode_home s n" and "m mod inode_per_page = n mod inode_per_page"
  shows "m = n"
proof -
  have mn: "m < 2 ^ 64" "n < 2 ^ 64" using assms(1,2) by simp_all
  have "(of_nat (m div inode_per_page) :: u64) = of_nat (n div inode_per_page)" using assms(3) by (simp add: inode_home_def)
  then have "m div inode_per_page = n div inode_per_page"
    by (rule of_nat_u64_inj [rotated 2])
      (use mn div_le_dividend [of m inode_per_page] div_le_dividend [of n inode_per_page] in linarith)+
  with assms(4) show ?thesis by (metis div_mult_mod_eq)
qed

text \<open>What a write leaves: the superblock, the tags of the table blocks, and every other inode.\<close>

lemma inode_write_effect:
  assumes ok: "inode_ok s n" and len: "length (direct_blocks i) = 12" and keeps: "st.keeps s s'"
    and v: "view s' = (view s)(inode_home s n := inode_store i (view s (inode_home s n)) (n mod inode_per_page))"
  shows "sb_of s' = sb_of s" and "inode_home s' m = inode_home s m" and "inode_ok s m \<Longrightarrow> inode_ok s' m"
    and "m < 2 ^ 63 \<Longrightarrow> inode_of s' m = (if m = n then i else inode_of s m)"
proof -
  have v0: "view s' 0 = view s 0" using inode_home_not_super [OF ok] by (simp add: v)
  then show sb: "sb_of s' = sb_of s" by (simp add: sb_of_def)
  then show h: "inode_home s' k = inode_home s k" for k by (simp add: inode_home_def)
  have ty: "btype (view s' b) = btype (view s b)" for b using btype_inode_store [OF len] by (simp add: v)
  show "inode_ok s m \<Longrightarrow> inode_ok s' m"
    using st.keepsD [OF keeps] by (simp add: inode_ok_def h ty)
  assume m: "m < 2 ^ 63"
  have n63: "n < 2 ^ 63" using ok by (simp add: inode_ok_def)
  show "inode_of s' m = (if m = n then i else inode_of s m)"
  proof (cases "inode_home s m = inode_home s n")
    case True
    show ?thesis
    proof (cases "m mod inode_per_page = n mod inode_per_page")
      case mod: True
      then have "m = n" by (rule same_home [OF m(1) n63 True])
      then show ?thesis using inode_load_store [OF len] by (simp add: inode_of_def h v)
    next
      case False
      then show ?thesis using True inode_load_store_other [OF len] by (auto simp: inode_of_def h v)
    qed
  next
    case False
    then show ?thesis by (auto simp: inode_of_def h v)
  qed
qed

section \<open>Allocating an inode\<close>

lemma put_block_ok:
  assumes ok: "store_ok s" and p: "points s p b"
  obtains s' where "put_block s p b wt = Some s'" and "st.keeps s s'" and "view s' = view s"
    and "disk_image s' = (if wt then (disk_image s)(unat b := view s b) else disk_image s)"
proof (cases wt)
  case True
  obtain s1 where s1: "locked_write s b p = Some s1" "st.flushes s s1 b" using st.through_flushes [OF ok p] by blast
  note k1 = st.keepsD [OF st.flushesD(1) [OF s1(2)]]
  have "unat b < nblocks s1" using st.points_limit [OF ok p] k1(2) by simp
  then obtain s2 where s2: "decrease_pin_count s1 0 b = Some s2" "st.silent s1 s2" using st.unpin_silent [OF k1(1)] by blast
  show thesis
    by (rule that [of s2])
      (use True s1 s2 st.flushesD [OF s1(2)] st.silentD [OF s2(2)] in \<open>auto simp: put_block_def intro: st.keeps_trans\<close>)
next
  case False
  obtain s1 where s1: "write_block s p 0 b = Some s1" "st.silent s s1" using st.put_silent [OF ok p] by blast
  note k1 = st.keepsD [OF st.silentD(1) [OF s1(2)]]
  have "unat b < nblocks s1" using st.points_limit [OF ok p] k1(2) by simp
  then obtain s2 where s2: "increase_pin_count s1 0 b = Some s2" "st.silent s1 s2" using st.pin_silent [OF k1(1)] by blast
  show thesis
    by (rule that [of s2])
      (use False s1 s2 st.silentD [OF s1(2)] st.silentD [OF s2(2)] in \<open>auto simp: put_block_def intro: st.keeps_trans\<close>)
qed

definition inode_bit_block :: "fs \<Rightarrow> nat \<Rightarrow> u64" where
  "inode_bit_block s n = inode_bitmap (sb_of s) + of_nat (n div USABLE_BLOCK_SIZE)"

definition inode_used :: "fs \<Rightarrow> nat \<Rightarrow> bool" where
  "inode_used s n = bitmap_bit (view s (inode_bit_block s n)) (n mod USABLE_BLOCK_SIZE)"

text \<open>The inode bitmap is in place up to the block that holds the bit of inode \<open>n\<close>.\<close>

definition inode_map_ok :: "fs \<Rightarrow> nat \<Rightarrow> bool" where
  "inode_map_ok s n \<longleftrightarrow> n < 2 ^ 63 \<and>
     (\<forall>m \<le> n. unat (inode_bitmap (sb_of s)) + m div USABLE_BLOCK_SIZE < nblocks s \<and>
              btype (view s (inode_bit_block s m)) = BLOCK_TYPE_BITMAP)"

text \<open>The inode \<open>inode_allocate\<close> writes: the old contents with five fields set.\<close>

definition fresh_inode :: "u32 \<Rightarrow> u32 \<Rightarrow> u32 \<Rightarrow> nat \<Rightarrow> Inode \<Rightarrow> Inode" where
  "fresh_inode uid gid md n i =
     i\<lparr>inode_number := of_nat n, mode := md, owner_id := uid, group_id := gid, reference_count := 1\<rparr>"

definition inode_claimed :: "fs \<Rightarrow> fs \<Rightarrow> nat \<Rightarrow> Inode \<Rightarrow> bool \<Rightarrow> bool" where
  "inode_claimed s s' n i wt \<longleftrightarrow> st.keeps s s' \<and> inode_ok s' n \<and> inode_map_ok s' n \<and> inode_of s' n = i \<and> sb_of s' = sb_of s \<and>
     (\<forall>m. m \<le> n \<or> m div USABLE_BLOCK_SIZE = n div USABLE_BLOCK_SIZE \<longrightarrow> inode_used s' m = (m = n \<or> inode_used s m)) \<and>
     (\<forall>m. inode_ok s m \<longrightarrow> inode_ok s' m \<and> (m \<noteq> n \<longrightarrow> inode_of s' m = inode_of s m)) \<and>
     (\<forall>b. btype (view s' b) = btype (view s b)) \<and>
     (\<forall>b. b \<noteq> inode_bit_block s n \<longrightarrow> b \<noteq> inode_home s n \<longrightarrow> view s' b = view s b) \<and>
     (wt \<longrightarrow> disk_image s' (unat (inode_home s n)) = view s' (inode_home s n) \<and>
            disk_image s' (unat (inode_bit_block s n)) = view s' (inode_bit_block s n))"

lemma inode_bit_block_unat:
  assumes "store_ok s" and "inode_map_ok s n" and "m \<le> n"
  shows "unat (inode_bit_block s m) = unat (inode_bitmap (sb_of s)) + m div USABLE_BLOCK_SIZE"
    and "unat (inode_bit_block s m) < nblocks s"
proof -
  have l: "unat (inode_bitmap (sb_of s)) + m div USABLE_BLOCK_SIZE < nblocks s" and "nblocks s \<le> 2 ^ 19"
    using assms by (auto simp: inode_map_ok_def store_ok_def addressable_def)
  then have b: "m div USABLE_BLOCK_SIZE < 2 ^ 64" "unat (inode_bitmap (sb_of s)) + m div USABLE_BLOCK_SIZE < 2 ^ 64" by simp_all
  show u: "unat (inode_bit_block s m) = unat (inode_bitmap (sb_of s)) + m div USABLE_BLOCK_SIZE"
    unfolding inode_bit_block_def using b by (simp add: unat_word_ariths(1) unat_of_nat_small)
  show "unat (inode_bit_block s m) < nblocks s" using u l by simp
qed

lemma inode_found_ok:
  assumes ok: "inode_ok s n" and map: "inode_map_ok s n" and p: "points s ibm (inode_bit_block s n)"
    and free: "\<not> inode_used s n"
  obtains s' where "inode_found s uid gid md wt ibm (int (unat (inode_bit_block s n))) (of_nat n)
      (view s (inode_bit_block s n)) (int (n mod USABLE_BLOCK_SIZE)) = Some (int n, s')"
    and "inode_claimed s s' n (fresh_inode uid gid md n (inode_of s n)) wt"
proof -
  let ?b = "inode_bit_block s n"
  let ?h = "inode_home s n"
  have sok: "store_ok s" and n: "n < 2 ^ 63" using ok by (auto simp: inode_ok_def)
  have ty: "btype (view s ?b) = BLOCK_TYPE_BITMAP" using map by (simp add: inode_map_ok_def)
  have t0: "btype (view s 0) = BLOCK_TYPE_SUPER" and th: "btype (view s ?h) = BLOCK_TYPE_INODE" using ok by (auto simp: inode_ok_def)
  have b0: "?b \<noteq> 0" "?b \<noteq> ?h" using ty t0 th by (auto simp: block_types)
  obtain bm where bm: "bitmap_put (view s ?b) (int (n mod USABLE_BLOCK_SIZE)) 1 = Some (0, bm)" "btype bm = BLOCK_TYPE_BITMAP"
      "\<And>j. bitmap_bit bm j = (if j = n mod USABLE_BLOCK_SIZE then (1::int) \<noteq> 0 else bitmap_bit (view s ?b) j)"
    by (rule bitmap_put_ok [OF ty bit_offset_less, of n 1]) (rule that)
  obtain s1 where s1: "assign s ibm bm = Some s1" "st.changes s s1 ?b bm" using st.store_changes [OF sok p] by blast
  note k1 = st.keepsD [OF st.changesD(1) [OF s1(2)]] and v1 = st.changesD(2) [OF s1(2)]
  have sb1: "sb_of s1 = sb_of s" using b0 by (simp add: sb_of_def v1)
  then have h1: "inode_home s1 m = inode_home s m" for m by (simp add: inode_home_def)
  have ok1: "inode_ok s1 n" using ok k1 b0 by (simp add: inode_ok_def h1 v1)
  have i1: "inode_of s1 n = inode_of s n" using b0 by (simp add: inode_of_def h1 v1)
  let ?i = "fresh_inode uid gid md n (inode_of s n)"
  have len: "length (direct_blocks ?i) = 12" by (simp add: fresh_inode_def inode_of_def)
  obtain s2 where r: "inode_read s1 (of_nat n) = Some (Some (inode_of s n), s2)" "st.silent s1 s2"
    by (rule inode_read_ok [OF ok1]) (simp add: i1 that)
  note k2 = st.keepsD [OF st.silentD(1) [OF r(2)]] and v2 = st.silentD(2) [OF r(2)]
  have h2: "inode_home s2 m = inode_home s m" for m using h1 by (simp add: inode_home_def sb_of_def v2)
  have ok2: "inode_ok s2 n" using ok1 k2 by (simp add: inode_ok_def h1 h2 v2)
  let ?x = "inode_store ?i (view s ?h) (n mod inode_per_page)"
  have vh: "view s2 ?h = view s ?h" using b0 by (simp add: v2 v1)
  have inum: "inode_number ?i = of_nat n" by (simp add: fresh_inode_def)
  obtain s3 where w: "inode_write s2 ?i wt = Some (0, s3)"
      "if wt then st.updates s2 s3 ?h ?x else st.changes s2 s3 ?h ?x"
    by (rule inode_write_ok [OF ok2 inum, of wt, unfolded h2 vh]) (rule that)
  have k23: "st.keeps s2 s3" and v3: "view s3 = (view s2)(?h := ?x)" and d3: "wt \<Longrightarrow> disk_image s3 (unat ?h) = ?x"
    using w(2) st.updatesD [of s2 s3] st.changesD [of s2 s3] by (auto split: if_splits)
  have p3: "points s3 ibm ?b" by (intro st.keepsD(4) [OF k23] k2(4) k1(4) p)
  obtain s4 where w4: "put_block s3 ibm ?b wt = Some s4" "st.keeps s3 s4" "view s4 = view s3"
      "disk_image s4 = (if wt then (disk_image s3)(unat ?b := view s3 ?b) else disk_image s3)"
    by (rule put_block_ok [OF st.keepsD(1) [OF k23] p3])
  have bi: "word_of_int (int (unat ?b)) = ?b" by simp
  have fnd: "inode_found s uid gid md wt ibm (int (unat ?b)) (of_nat n) (view s ?b) (int (n mod USABLE_BLOCK_SIZE)) = Some (int n, s4)"
    unfolding inode_found_def bi
    using bm(1) s1(1) r(1) w(1) w4(1) sint_of_nat_small [OF n] by (simp add: fresh_inode_def)
  have keeps: "st.keeps s s4"
    using st.changesD(1) [OF s1(2)] st.silentD(1) [OF r(2)] k23 w4(2) st.keeps_trans by meson
  have v4: "view s4 = (view s)(?b := bm, ?h := ?x)" by (simp add: w4(3) v3 v2 v1)
  have sb4: "sb_of s4 = sb_of s" using b0 inode_home_not_super [OF ok] by (simp add: sb_of_def v4)
  have h4: "inode_home s4 m = inode_home s m" "inode_bit_block s4 m = inode_bit_block s m" for m
    by (simp_all add: inode_home_def inode_bit_block_def sb4)
  have used: "inode_used s4 m = (m = n \<or> inode_used s m)" if m: "m \<le> n \<or> m div USABLE_BLOCK_SIZE = n div USABLE_BLOCK_SIZE" for m
  proof (cases "m div USABLE_BLOCK_SIZE = n div USABLE_BLOCK_SIZE")
    case True
    then have "m mod USABLE_BLOCK_SIZE = n mod USABLE_BLOCK_SIZE \<longleftrightarrow> m = n" by (metis div_mult_mod_eq)
    moreover from True have "inode_bit_block s m = ?b" by (simp add: inode_bit_block_def)
    ultimately show ?thesis using b0 by (simp add: inode_used_def h4 v4 bm(3))
  next
    case False
    then have m: "m \<le> n" using m by simp
    have "inode_bit_block s m \<noteq> ?b"
      using False inode_bit_block_unat(1) [OF sok map m] inode_bit_block_unat(1) [OF sok map order.refl] by auto
    moreover have "btype (view s (inode_bit_block s m)) = BLOCK_TYPE_BITMAP" using map m by (simp add: inode_map_ok_def)
    then have "inode_bit_block s m \<noteq> ?h" using th by (auto simp: block_types)
    ultimately show ?thesis using False by (auto simp: inode_used_def h4 v4)
  qed
  have ty4: "btype (view s4 b) = btype (view s b)" for b using ty bm(2) btype_inode_store [OF len] by (simp add: v4)
  have others: "inode_ok s4 m \<and> (m \<noteq> n \<longrightarrow> inode_of s4 m = inode_of s m)" if m: "inode_ok s m" for m
  proof
    show "inode_ok s4 m" using m st.keepsD(1,2) [OF keeps] by (simp add: inode_ok_def h4 ty4)
    have nb: "inode_home s m \<noteq> ?b" using m ty by (auto simp: inode_ok_def block_types)
    show "m \<noteq> n \<longrightarrow> inode_of s4 m = inode_of s m"
      using nb inode_load_store_other [OF len] same_home [of m n s] m n by (auto simp: inode_of_def h4 v4 inode_ok_def)
  qed
  have ub: "unat ?h \<noteq> unat ?b" using b0(2) by (metis word_unat_eq_iff)
  have "inode_ok s4 n"
    using ok st.keepsD [OF keeps] b0 inode_home_not_super [OF ok] btype_inode_store [OF len]
    by (simp add: inode_ok_def h4 v4)
  moreover have "inode_map_ok s4 n"
    unfolding inode_map_ok_def
  proof (intro conjI allI impI n)
    fix m assume m: "m \<le> n"
    then show "unat (inode_bitmap (sb_of s4)) + m div USABLE_BLOCK_SIZE < nblocks s4"
      using map st.keepsD(2) [OF keeps] by (simp add: inode_map_ok_def sb4)
    have tm: "btype (view s (inode_bit_block s m)) = BLOCK_TYPE_BITMAP" using map m by (simp add: inode_map_ok_def)
    then have "inode_bit_block s m \<noteq> ?h" using th by (auto simp: block_types)
    then show "btype (view s4 (inode_bit_block s4 m)) = BLOCK_TYPE_BITMAP" using tm bm(2) by (simp add: h4 v4)
  qed
  moreover have "inode_of s4 n = ?i" using inode_load_store [OF len] by (simp add: inode_of_def h4 v4)
  moreover have "wt \<Longrightarrow> disk_image s4 (unat ?h) = view s4 ?h \<and> disk_image s4 (unat ?b) = view s4 ?b"
    using ub d3 b0 by (simp add: w4(4) v4 w4(3) v3 v2 v1)
  ultimately have "inode_claimed s s4 n ?i wt"
    using keeps sb4 used others ty4 by (simp add: inode_claimed_def v4)
  with fnd show thesis by (rule that)
qed

lemma inode_silent:
  assumes "st.silent s s'"
  shows "sb_of s' = sb_of s" and "inode_home s' = inode_home s" and "inode_bit_block s' = inode_bit_block s"
    and "inode_used s' = inode_used s" and "inode_of s' = inode_of s"
    and "inode_ok s n \<Longrightarrow> inode_ok s' n" and "inode_map_ok s n \<Longrightarrow> inode_map_ok s' n"
proof -
  note k = st.keepsD [OF st.silentD(1) [OF assms]] and v = st.silentD(2) [OF assms]
  show sb: "sb_of s' = sb_of s" by (simp add: sb_of_def v)
  show h: "inode_home s' = inode_home s" by (simp add: inode_home_def sb fun_eq_iff)
  show b: "inode_bit_block s' = inode_bit_block s" by (simp add: inode_bit_block_def sb fun_eq_iff)
  show "inode_used s' = inode_used s" "inode_of s' = inode_of s" by (simp_all add: inode_used_def inode_of_def h b v fun_eq_iff)
  show "inode_ok s n \<Longrightarrow> inode_ok s' n" "inode_map_ok s n \<Longrightarrow> inode_map_ok s' n"
    using k by (simp_all add: inode_ok_def inode_map_ok_def h b v sb)
qed

lemma silent_claimed:
  assumes "st.silent s t" and "inode_claimed t u n i wt"
  shows "inode_claimed s u n i wt"
  using assms(2) inode_silent [OF assms(1)] st.keeps_trans [OF st.silentD(1) [OF assms(1)]] st.silentD(2) [OF assms(1)]
  by (simp add: inode_claimed_def)

text \<open>One round of the search, at a bit \<open>ii\<close> the bitmap holds.\<close>

lemma inode_scan_step:
  assumes ok: "store_ok s" and map: "inode_map_ok s n" and p: "points s ibm (inode_bit_block s (ii - 1))" and ii: "ii \<le> n"
  obtains q s1 where "st.silent s s1" and "points s1 q (inode_bit_block s ii)"
    and "inode_scan s uid gid md wt (inode_bitmap (sb_of s)) ibm (int (unat (inode_bit_block s (ii - 1)))) (of_nat ii) =
      (if inode_used s ii
       then inode_scan s1 uid gid md wt (inode_bitmap (sb_of s)) q (int (unat (inode_bit_block s ii))) (of_nat (Suc ii))
       else inode_found s1 uid gid md wt q (int (unat (inode_bit_block s ii))) (of_nat ii)
         (view s (inode_bit_block s ii)) (int (ii mod USABLE_BLOCK_SIZE)))"
proof -
  let ?b = "inode_bit_block s ii"
  let ?pn = "int (unat (inode_bit_block s (ii - 1)))"
  let ?start = "inode_bitmap (sb_of s)"
  have n: "ii < 2 ^ 63" using map ii by (simp add: inode_map_ok_def)
  then have n64: "ii < 2 ^ 64" by simp
  note u = inode_bit_block_unat [OF ok map ii] and u' = inode_bit_block_unat(1) [OF ok map, of "ii - 1"]
  have tyb: "btype (view s ?b) = BLOCK_TYPE_BITMAP" and tyb': "btype (view s (inode_bit_block s (ii - 1))) = BLOCK_TYPE_BITMAP"
    using map ii by (simp_all add: inode_map_ok_def)
  have d1: "deref s ibm = Some (view s (inode_bit_block s (ii - 1)))" by (rule st.load_view [OF ok p])
  have c1: "(of_nat ii :: u64) mod of_nat USABLE_BLOCK_SIZE = 0 \<longleftrightarrow> ii mod USABLE_BLOCK_SIZE = 0"
    using word_div_mod_nat(2) [OF n64, of USABLE_BLOCK_SIZE] by (simp add: layout word_unat_eq_iff del: of_nat_numeral)
  have c2: "(of_nat ii :: u64) = 0 \<longleftrightarrow> ii = 0" using of_nat_u64_inj [OF n64, of 0] by auto
  have cond: "(of_nat ii :: u64) mod of_nat USABLE_BLOCK_SIZE = 0 \<and> (of_nat ii :: u64) \<noteq> 0 \<longleftrightarrow>
      ii mod USABLE_BLOCK_SIZE = 0 \<and> ii \<noteq> 0" unfolding c1 c2 by (rule refl)
  obtain q s1 where step: "(if (of_nat ii :: u64) mod of_nat USABLE_BLOCK_SIZE = 0 \<and> (of_nat ii :: u64) \<noteq> 0 then do {
          ibmn \<leftarrow> c_int (?pn + 1);
          (ibm, s) \<leftarrow> get_block s 0 (word_of_int ibmn);
          Some (ibmn, ibm, s)
        } else Some (?pn, ibm, s)) = Some (int (unat ?b), q, s1)" and sil: "st.silent s s1" and pt: "points s1 q ?b"
  proof (cases "ii mod USABLE_BLOCK_SIZE = 0 \<and> ii \<noteq> 0")
    case True
    then have d: "?pn + 1 = int (unat ?b)"
      using div_pred [of USABLE_BLOCK_SIZE ii] u(1) u' ii by (simp add: layout)
    have "nblocks s \<le> 2 ^ 19" using ok by (simp add: store_ok_def addressable_def)
    then have c: "c_int (int (unat ?b)) = Some (int (unat ?b))" using u(2) by (intro c_int_nat) simp
    obtain q t where "get_block s 0 ?b = Some (q, t)" "st.silent s t" "points t q ?b"
      using st.get_silent [OF ok u(2), of 0] by blast
    moreover have "word_of_int (int (unat ?b)) = ?b" by simp
    ultimately show thesis
      using True by (intro that [of q t]) (simp_all only: cond d c simp_thms if_True bind.simps prod.case)
  next
    case False
    then have "(ii - 1) div USABLE_BLOCK_SIZE = ii div USABLE_BLOCK_SIZE"
      using div_pred [of USABLE_BLOCK_SIZE ii] by (cases "ii = 0") (auto simp: layout)
    then have e: "inode_bit_block s (ii - 1) = ?b" by (simp add: inode_bit_block_def)
    show thesis
      by (rule that [of ibm s]) (use False p ok e in \<open>simp_all only: cond if_False st.silent_refl\<close>)
  qed
  have v1: "view s1 = view s" by (rule st.silentD(2) [OF sil])
  have d2: "deref s1 q = Some (view s ?b)"
    using st.load_view [OF st.keepsD(1) [OF st.silentD(1) [OF sil]] pt] by (simp only: v1)
  have off: "int_of_u64 (of_nat ii - (word_of_int (int (unat ?b)) - ?start) * of_nat USABLE_BLOCK_SIZE) = int (ii mod USABLE_BLOCK_SIZE)"
  proof -
    have "word_of_int (int (unat ?b)) - ?start = of_nat (ii div USABLE_BLOCK_SIZE)" by (simp add: inode_bit_block_def)
    moreover have "(of_nat ii :: u64) = of_nat (ii mod USABLE_BLOCK_SIZE) + of_nat (ii div USABLE_BLOCK_SIZE) * of_nat USABLE_BLOCK_SIZE"
      by (metis mod_div_mult_eq of_nat_add of_nat_mult)
    ultimately have "of_nat ii - (word_of_int (int (unat ?b)) - ?start) * of_nat USABLE_BLOCK_SIZE = (of_nat (ii mod USABLE_BLOCK_SIZE) :: u64)"
      by (simp only: add_diff_cancel_right')
    moreover have "ii mod USABLE_BLOCK_SIZE < 2 ^ 31" using bit_offset_less [of ii] by simp
    ultimately show ?thesis by (simp only: int_of_u64_of_nat)
  qed
  have gt: "bitmap_get (view s ?b) (int (ii mod USABLE_BLOCK_SIZE)) = Some (of_bool (inode_used s ii))"
    using bitmap_get_bit [OF tyb bit_offset_less] by (simp add: inode_used_def)
  have suc: "(of_nat ii :: u64) + 1 = of_nat (Suc ii)" by simp
  have "inode_scan s uid gid md wt ?start ibm ?pn (of_nat ii) =
      (if inode_used s ii then inode_scan s1 uid gid md wt ?start q (int (unat ?b)) (of_nat (Suc ii))
       else inode_found s1 uid gid md wt q (int (unat ?b)) (of_nat ii) (view s ?b) (int (ii mod USABLE_BLOCK_SIZE)))"
    by (subst inode_scan.simps)
      (simp only: d1 tyb' step d2 off gt suc bind.simps prod.case Let_def simp_thms if_False, simp split: if_splits)
  with sil pt show thesis by (rule that)
qed

text \<open>The search for the first free inode \<open>n\<close>, from \<open>ii\<close> on.\<close>

lemma inode_scan_ok:
  assumes "inode_ok s n" and "inode_map_ok s n" and "points s ibm (inode_bit_block s (ii - 1))"
    and "ii \<le> n" and "\<not> inode_used s n" and "\<And>m. ii \<le> m \<Longrightarrow> m < n \<Longrightarrow> inode_used s m"
  shows "\<exists>s'. inode_scan s uid gid md wt (inode_bitmap (sb_of s)) ibm (int (unat (inode_bit_block s (ii - 1)))) (of_nat ii) =
      Some (int n, s') \<and> inode_claimed s s' n (fresh_inode uid gid md n (inode_of s n)) wt"
  using assms
proof (induction "n - ii" arbitrary: s ibm ii)
  case 0
  then have e: "ii = n" by simp
  have ok: "store_ok s" using 0 by (simp add: inode_ok_def)
  obtain q s1 where st1: "st.silent s s1" "points s1 q (inode_bit_block s ii)"
      "inode_scan s uid gid md wt (inode_bitmap (sb_of s)) ibm (int (unat (inode_bit_block s (ii - 1)))) (of_nat ii) =
       inode_found s1 uid gid md wt q (int (unat (inode_bit_block s ii))) (of_nat ii)
         (view s (inode_bit_block s ii)) (int (ii mod USABLE_BLOCK_SIZE))"
    using inode_scan_step [OF ok 0(3,4,5), of uid gid md wt] 0(6) e by (metis (no_types, lifting))
  note i1 = inode_silent [OF st1(1)] and v1 = st.silentD(2) [OF st1(1)]
  obtain s' where "inode_found s1 uid gid md wt q (int (unat (inode_bit_block s1 n))) (of_nat n)
      (view s1 (inode_bit_block s1 n)) (int (n mod USABLE_BLOCK_SIZE)) = Some (int n, s')"
      "inode_claimed s1 s' n (fresh_inode uid gid md n (inode_of s1 n)) wt"
    by (rule inode_found_ok [OF i1(6) [OF 0(2)] i1(7) [OF 0(3)], of q uid gid md wt]) (use 0 st1 e i1 in auto)
  with st1 e i1 v1 silent_claimed [OF st1(1)] show ?case by auto
next
  case (Suc k)
  then have lt: "ii < n" by simp
  have ok: "store_ok s" using Suc.prems by (simp add: inode_ok_def)
  obtain q s1 where st1: "st.silent s s1" "points s1 q (inode_bit_block s ii)"
      "inode_scan s uid gid md wt (inode_bitmap (sb_of s)) ibm (int (unat (inode_bit_block s (ii - 1)))) (of_nat ii) =
       inode_scan s1 uid gid md wt (inode_bitmap (sb_of s)) q (int (unat (inode_bit_block s ii))) (of_nat (Suc ii))"
    using inode_scan_step [OF ok Suc.prems(2,3,4), of uid gid md wt] Suc.prems(6) [of ii] lt
    by (metis (no_types, lifting) order.refl)
  note i1 = inode_silent [OF st1(1)]
  have "\<exists>s'. inode_scan s1 uid gid md wt (inode_bitmap (sb_of s1)) q (int (unat (inode_bit_block s1 (Suc ii - 1)))) (of_nat (Suc ii)) =
      Some (int n, s') \<and> inode_claimed s1 s' n (fresh_inode uid gid md n (inode_of s1 n)) wt"
    by (rule Suc.hyps(1)) (use Suc.hyps(2) Suc.prems st1 i1 lt in auto)
  with st1 i1 silent_claimed [OF st1(1)] show ?case by auto
qed

text \<open>\<open>inode_allocate\<close> takes the first free inode.\<close>

lemma inode_allocate_ok:
  assumes ok: "inode_ok s n" and map: "inode_map_ok s n" and free: "\<not> inode_used s n"
    and least: "\<And>m. m < n \<Longrightarrow> inode_used s m"
  obtains s' where "inode_allocate s uid gid md wt = Some (int n, s')"
    and "inode_claimed s s' n (fresh_inode uid gid md n (inode_of s n)) wt"
proof -
  have sok: "store_ok s" and nb: "0 < nblocks s" and t0: "btype (view s 0) = BLOCK_TYPE_SUPER"
    using ok by (auto simp: inode_ok_def)
  obtain s1 where r: "superblock_read s = Some (Some (sb_of s), s1)" "st.silent s s1"
    by (rule superblock_read_valid [OF sok nb t0])
  note i1 = inode_silent [OF r(2)]
  have sok1: "store_ok s1" using i1(6) [OF ok] by (simp add: inode_ok_def)
  let ?b = "inode_bit_block s (0 - 1)"
  have b: "?b = inode_bitmap (sb_of s)" by (simp add: inode_bit_block_def)
  have ub: "unat (inode_bitmap (sb_of s1)) < nblocks s1"
    using i1(7) [OF map] by (auto simp: inode_map_ok_def)
  moreover have "nblocks s1 \<le> 2 ^ 19" using sok1 by (simp add: store_ok_def addressable_def)
  ultimately have iu: "int_of_u64 (inode_bitmap (sb_of s)) = int (unat (inode_bitmap (sb_of s)))"
    by (intro int_of_u64_small) (simp add: i1)
  obtain p s2 where g: "get_block s1 0 (inode_bitmap (sb_of s)) = Some (p, s2)" "st.silent s1 s2" "points s2 p (inode_bitmap (sb_of s))"
    using st.get_silent [OF sok1, of "inode_bitmap (sb_of s)" 0] ub by (auto simp: i1)
  note sil = st.silent_trans [OF r(2) g(2)]
  note i2 = inode_silent [OF sil]
  have "\<exists>s'. inode_scan s2 uid gid md wt (inode_bitmap (sb_of s2)) p (int (unat (inode_bit_block s2 (0 - 1)))) (of_nat 0) =
      Some (int n, s') \<and> inode_claimed s2 s' n (fresh_inode uid gid md n (inode_of s2 n)) wt"
    by (rule inode_scan_ok) (use ok map free least i2 g b in auto)
  then obtain s' where s': "inode_scan s2 uid gid md wt (inode_bitmap (sb_of s)) p (int (unat (inode_bitmap (sb_of s)))) 0 = Some (int n, s')"
      "inode_claimed s2 s' n (fresh_inode uid gid md n (inode_of s n)) wt"
    using i2 b by auto
  have w: "word_of_int (int (unat (inode_bitmap (sb_of s)))) = inode_bitmap (sb_of s)" by simp
  have "inode_allocate s uid gid md wt = Some (int n, s')"
    by (simp only: inode_allocate_def r(1) bind.simps prod.case Let_def iu w g(1) s'(1))
  with silent_claimed [OF sil s'(2)] show thesis by (intro that)
qed

section \<open>Mapping blocks\<close>

lemma get_word_nat: "k < 511 \<Longrightarrow> get_word b (int k) = Some (load64 b (4 + 8 * k))"
  by (simp add: get_word_def layout)

lemma set_word_nat: "k < 511 \<Longrightarrow> set_word b (int k) v = Some (store64 v b (4 + 8 * k))"
  by (simp add: set_word_def layout)

lemma put_through_flushes:
  assumes ok: "store_ok s" and p: "points s p b"
  obtains s' where "put_through s p inum b b = Some s'" and "st.flushes s s' b"
proof -
  obtain s1 where s1: "write_block s p inum b = Some s1" "st.silent s s1" using st.put_silent [OF ok p] by blast
  note k1 = st.keepsD [OF st.silentD(1) [OF s1(2)]]
  show thesis
  proof (cases "cache_disabled s")
    case True
    then have "disk_image s (unat b) = view s b" using st.direct_view [OF ok True] by simp
    then have "st.flushes s s1 b" using st.silentD [OF s1(2)] by (auto simp: st.flushes_def)
    with s1 True k1 show thesis by (intro that [of s1]) (simp_all add: put_through_def)
  next
    case False
    obtain s2 where s2: "locked_write s1 b p = Some s2" "st.flushes s1 s2 b"
      using st.through_flushes [OF k1(1) k1(4) [OF p]] by blast
    have "st.flushes s s2 b"
      using st.silentD [OF s1(2)] st.flushesD [OF s2(2)] by (auto simp: st.flushes_def intro: st.keeps_trans)
    with s1 s2 False k1 show thesis by (intro that [of s2]) (simp_all add: put_through_def)
  qed
qed

text \<open>Fetch a block, change it in place, write it back and through: the block is updated durably.\<close>

lemma update_block:
  assumes ok: "store_ok s" and b: "unat b < nblocks s" and f: "f (view s b) = Some x"
  obtains p s1 s2 s3 where "get_block s inum b = Some (p, s1)" and "modify s1 p f = Some s2"
    and "put_through s2 p inum' b b = Some s3" and "st.updates s s3 b x"
proof -
  obtain p s1 where g: "get_block s inum b = Some (p, s1)" "deref s1 p = Some (view s b)" "st.silent s s1" "points s1 p b"
    by (rule st.get_load [OF ok b])
  note k1 = st.keepsD [OF st.silentD(1) [OF g(3)]]
  obtain s2 where s2: "assign s1 p x = Some s2" "st.changes s1 s2 b x" using st.store_changes [OF k1(1) g(4)] by blast
  note k2 = st.keepsD [OF st.changesD(1) [OF s2(2)]]
  obtain s3 where s3: "put_through s2 p inum' b b = Some s3" "st.flushes s2 s3 b"
    by (rule put_through_flushes [OF k2(1) k2(4) [OF g(4)]])
  show thesis
    by (rule that [of p s1 s2 s3])
      (use g s2 s3 f st.changes_flushes [OF st.silent_changes [OF g(3) s2(2)] s3(2)] in \<open>simp_all add: modify_def\<close>)
qed

text \<open>Entering a block in an indirect block that exists: the pointer is stored, and the block tagged as data.\<close>

lemma set_indirect_ok:
  assumes ok: "store_ok s" and ind: "indirect_block i \<noteq> 0" "unat (indirect_block i) < nblocks s" and pb: "unat pb < nblocks s"
    and idx: "12 \<le> unat idx" "unat idx < 523" and no_free: "\<not> (idx = 12 \<and> pb = 0)"
  obtains s' x where "inode_set_block s i idx pb = Some (0, i, s')" and "st.keeps s s'"
    and "x = store64 pb (view s (indirect_block i)) (4 + 8 * (unat idx - 12))"
    and "view s' = (view s)(indirect_block i := x, pb := set_btype BLOCK_TYPE_DATA (((view s)(indirect_block i := x)) pb))"
proof -
  let ?ind = "indirect_block i"
  define x where "x = store64 pb (view s ?ind) (4 + 8 * (unat idx - 12))"
  have i12: "unat (idx - 12) = unat idx - 12" using idx(1) by (simp add: unat_sub word_le_nat_alt)
  have f: "set_word (view s ?ind) (int (unat (idx - 12))) pb = Some x"
    unfolding i12 x_def by (rule set_word_nat) (use idx in simp)
  obtain p s1 s2 s3 where u1: "get_block s (inode_number i) ?ind = Some (p, s1)"
      "modify s1 p (\<lambda>b. set_word b (int (unat (idx - 12))) pb) = Some s2"
      "put_through s2 p (inode_number i) ?ind ?ind = Some s3" "st.updates s s3 ?ind x"
    by (rule update_block [OF ok ind(2), of "\<lambda>b. set_word b (int (unat (idx - 12))) pb" x]) (rule f, rule that)
  note k3 = st.keepsD [OF st.updatesD(1) [OF u1(4)]] and v3 = st.updatesD(2) [OF u1(4)]
  have pb3: "unat pb < nblocks s3" using pb k3(2) by simp
  let ?y = "set_btype BLOCK_TYPE_DATA (view s3 pb)"
  obtain q s4 s5 s6 where u2: "get_block s3 (inode_number i) pb = Some (q, s4)"
      "modify s4 q (\<lambda>b. Some (set_btype BLOCK_TYPE_DATA b)) = Some s5"
      "put_through s5 q (inode_number i) pb pb = Some s6" "st.updates s3 s6 pb ?y"
    by (rule update_block [OF k3(1) pb3, of "\<lambda>b. Some (set_btype BLOCK_TYPE_DATA b)" ?y]) (rule refl, rule that)
  have c: "\<not> idx < 12" "idx \<le> of_nat (PTRS + 12)"
    using idx by (simp_all add: word_less_nat_alt word_le_nat_alt layout)
  have nf: "(idx = 12 \<and> pb = 0) = False" using no_free by blast
  have "inode_set_block s i idx pb = Some (0, i, s6)"
    by (simp only: inode_set_block_def c simp_thms if_False if_True set_indirect_def nf ind(1) bind.simps prod.case u1 u2)
  moreover have "st.keeps s s6" using st.updatesD(1) [OF u1(4)] st.updatesD(1) [OF u2(4)] by (rule st.keeps_trans)
  moreover have "view s6 = (view s)(?ind := x, pb := set_btype BLOCK_TYPE_DATA (((view s)(?ind := x)) pb))"
    using st.updatesD(2) [OF u2(4)] by (simp add: v3)
  ultimately show thesis using x_def by (intro that)
qed

text \<open>Looking up an index behind the indirect block.\<close>

lemma get_indirect_ok:
  assumes ok: "store_ok s" and ind: "indirect_block i \<noteq> 0" "unat (indirect_block i) < nblocks s"
    and idx: "12 \<le> unat idx" "unat idx < 511" and ty: "btype (view s (indirect_block i)) = BLOCK_TYPE_DATA"
  obtains s' where "inode_get_block s i idx = Some (0, Some (load64 (view s (indirect_block i)) (4 + 8 * (unat idx - 12))), s')"
    and "st.silent s s'"
proof -
  obtain p s1 where g: "get_block s (inode_number i) (indirect_block i) = Some (p, s1)"
      "deref s1 p = Some (view s (indirect_block i))" "st.silent s s1"
    by (rule st.get_load [OF ok ind(2), of "inode_number i"])
  have i12: "unat (idx - 12) = unat idx - 12" using idx(1) by (simp add: unat_sub word_le_nat_alt)
  have w: "get_word (view s (indirect_block i)) (int (unat (idx - 12))) = Some (load64 (view s (indirect_block i)) (4 + 8 * (unat idx - 12)))"
    unfolding i12 by (rule get_word_nat) (use idx in simp)
  have c: "\<not> idx < 12" "idx < of_nat PTRS" using idx by (simp_all add: word_less_nat_alt layout)
  have "inode_get_block s i idx = Some (0, Some (load64 (view s (indirect_block i)) (4 + 8 * (unat idx - 12))), s1)"
    by (simp only: inode_get_block_def c if_False if_True ind(1) g(1,2) bind.simps prod.case w) (simp add: ty)
  with g(3) show thesis by (intro that)
qed

end
