(* ===== verification/Journal_Entry.thy ===== *)
theory Journal_Entry
  imports State
begin

text \<open>
  The journal entry (\<^verbatim>\<open>src/journal.h\<close>) and the environment of the operations that write one.

  \<^verbatim>\<open>sizeof(journal_entry_t)\<close> is 4088: the type, the block number, the flag and a union of seven
  structures. An entry is kept as bytes at the offsets it has in a journal block, after the type
  tag, whether it lies in a block or is a local; a local starts with whatever was on the stack.
\<close>

text \<open>What the operations take from outside: the caller, the clock, and stack memory, by state.\<close>

record env =
  e_uid :: u32
  e_gid :: u32
  clock :: "fs \<Rightarrow> u64"
  stack :: "fs \<Rightarrow> block"

definition JOURNAL_ENTRY_SIZE :: nat where [layout]: "JOURNAL_ENTRY_SIZE = 4088"

definition UNINITIALIZED :: u32 where [block_types]: "UNINITIALIZED = 0"
definition MKNOD :: u32 where [block_types]: "MKNOD = 0x444e4b4d"
definition UNLINK :: u32 where [block_types]: "UNLINK = 0x4b4e4c55"
definition LINK :: u32 where [block_types]: "LINK = 0x4b4e494c"
definition CHMOD :: u32 where [block_types]: "CHMOD = 0x444d4843"
definition TRUNCATE :: u32 where [block_types]: "TRUNCATE = 0x54435254"
definition WRITE :: u32 where [block_types]: "WRITE = 0x54495257"
definition RENAME :: u32 where [block_types]: "RENAME = 0x4d4e4552"

text \<open>The header, and the members of the union: two paths, and what follows the first.\<close>

abbreviation je_type :: "block \<Rightarrow> u32" where "je_type e \<equiv> load32 e 4"
abbreviation set_je_type :: "u32 \<Rightarrow> block \<Rightarrow> block" where "set_je_type t e \<equiv> store32 t e 4"
abbreviation je_block :: "block \<Rightarrow> u64" where "je_block e \<equiv> load64 e 12"
abbreviation set_je_block :: "u64 \<Rightarrow> block \<Rightarrow> block" where "set_je_block b e \<equiv> store64 b e 12"
abbreviation je_synced :: "block \<Rightarrow> bool" where "je_synced e \<equiv> e 20 \<noteq> 0"
abbreviation set_je_synced :: "bool \<Rightarrow> block \<Rightarrow> block" where "set_je_synced x e \<equiv> store_bytes [of_bool x] e 20"

definition JE_PATH :: nat where [layout]: "JE_PATH = 28"
definition JE_TO :: nat where [layout]: "JE_TO = 2058"
definition JE_MODE :: nat where [layout]: "JE_MODE = 2060"
definition JE_SIZE :: nat where [layout]: "JE_SIZE = 2060"
definition JE_BTREE :: nat where [layout]: "JE_BTREE = 2068"
definition JE_INODE :: nat where [layout]: "JE_INODE = 2076"
definition JE_W_INODE :: nat where [layout]: "JE_W_INODE = 28"
definition JE_W_INDEX :: nat where [layout]: "JE_W_INDEX = 36"
definition JE_W_BLOCK :: nat where [layout]: "JE_W_BLOCK = 44"
definition JE_W_SIZE :: nat where [layout]: "JE_W_SIZE = 52"

text \<open>Copying a whole entry into a block.\<close>

definition copy_entry :: "block \<Rightarrow> block \<Rightarrow> block" where
  "copy_entry e b = store_bytes (load_bytes JOURNAL_ENTRY_SIZE e 4) b 4"

text \<open>
  The entry of a block assignment, as \<^verbatim>\<open>directory_add_entry\<close> fills it in: neither the flag \<^verbatim>\<open>synced\<close> nor
  the size is set.
\<close>

definition write_entry :: "block \<Rightarrow> u64 \<Rightarrow> u64 \<Rightarrow> u64 \<Rightarrow> block" where
  "write_entry e ino ix pb =
     store64 pb (store64 ix (store64 ino (set_je_type WRITE e) JE_W_INODE) JE_W_INDEX) JE_W_BLOCK"

lemma copy_entry_byte: "4 \<le> i \<Longrightarrow> i < 4 + JOURNAL_ENTRY_SIZE \<Longrightarrow> copy_entry e b i = e i"
proof -
  assume i: "4 \<le> i" "i < 4 + JOURNAL_ENTRY_SIZE"
  then have "i - 4 < JOURNAL_ENTRY_SIZE" by simp
  with i show ?thesis by (simp add: copy_entry_def store_bytes_def load_bytes_def)
qed

lemma copy_entry_field:
  assumes "4 \<le> off" and "off + k \<le> 4 + JOURNAL_ENTRY_SIZE"
  shows "load_le k (copy_entry e b) off = load_le k e off"
  using assms(2) by (induction k) (use assms(1) in \<open>simp_all add: copy_entry_byte\<close>)

lemma copy_entry_tag [simp]: "btype (copy_entry e b) = btype b"
  by (simp add: copy_entry_def)

end
