(* ===== verification/Directories.thy ===== *)
theory Directories
  imports Lookup Inodes Journal_Entry
begin

text \<open>
  Directories (\<^verbatim>\<open>src/directory.c\<close>, \<^verbatim>\<open>src/directory.h\<close>). The entries of a directory lie in the data blocks
  of its inode, behind a count in the first one. Beside them the names are kept, by their hashes, in
  the B+tree of the directory.
\<close>

section \<open>Entries\<close>

text \<open>
  \<^verbatim>\<open>sizeof(DirEntry)\<close> is 280: seven bytes of padding follow \<^verbatim>\<open>active\<close>. The entries start at offset 6
  of the first block, after the tag and the count, and at offset 4 of the others; 14 of them fit.
\<close>

definition NAME_MAX :: nat where [layout]: "NAME_MAX = 256"
definition DIRENT_SIZE :: nat where [layout]: "DIRENT_SIZE = 280"

record DirEntry =
  de_inode :: u64
  de_btree :: u64
  de_name :: "u8 list"
  de_active :: u8
  de_pad :: "u8 list"

definition de_load :: "block \<Rightarrow> nat \<Rightarrow> DirEntry" where
  "de_load b off =
     \<lparr>de_inode = load64 b off, de_btree = load64 b (off + 8), de_name = load_bytes NAME_MAX b (off + 16),
      de_active = b (off + 272), de_pad = load_bytes 7 b (off + 273)\<rparr>"

definition de_store :: "DirEntry \<Rightarrow> block \<Rightarrow> nat \<Rightarrow> block" where
  "de_store e b off =
     (let b = store64 (de_inode e) b off; b = store64 (de_btree e) b (off + 8); b = store_bytes (de_name e) b (off + 16);
          b = store_bytes [de_active e] b (off + 272)
      in store_bytes (de_pad e) b (off + 273))"

abbreviation active_at :: "block \<Rightarrow> nat \<Rightarrow> bool" where
  "active_at b off \<equiv> de_active (de_load b off) \<noteq> 0"

definition entries_off :: "nat \<Rightarrow> nat" where
  "entries_off i = (if i = 0 then 6 else 4)"

abbreviation entry_count :: "block \<Rightarrow> u16" where "entry_count b \<equiv> load16 b 4"
abbreviation set_entry_count :: "u16 \<Rightarrow> block \<Rightarrow> block" where "set_entry_count n b \<equiv> store16 n b 4"

text \<open>The blocks of a directory, by a counter of 16 bits that stops before its maximum.\<close>

definition DIR_BLOCKS :: nat where [layout]: "DIR_BLOCKS = 65535"

text \<open>An inode the program initialised to zero, kept when reading it fails.\<close>

definition zero_inode :: Inode where
  "zero_inode = inode_load (\<lambda>_. 0) 0"

definition read_inode_or :: "Inode \<Rightarrow> fs \<Rightarrow> u64 \<Rightarrow> (Inode \<times> fs) option" where
  "read_inode_or old s ino = do {
     (r, s) \<leftarrow> inode_read s ino;
     Some (case r of None \<Rightarrow> old | Some n \<Rightarrow> n, s)
   }"

text \<open>The block with index \<open>i\<close>, or the value the caller's variable had when none was assigned.\<close>

definition dir_block :: "u64 \<Rightarrow> fs \<Rightarrow> Inode \<Rightarrow> nat \<Rightarrow> (u64 \<times> fs) option" where
  "dir_block old s node i = do {
     (_, v, s) \<leftarrow> inode_get_block s node (of_nat i);
     Some (case v of None \<Rightarrow> old | Some b \<Rightarrow> b, s)
   }"

section \<open>Looking for an entry\<close>

text \<open>
  13 entries of a block are compared, the loop bound being one less than their number, and the
  entry behind the one compared is counted when it is active.
\<close>

definition SCAN :: nat where [layout]: "SCAN = (USABLE_BLOCK_SIZE - 2) div DIRENT_SIZE - 1"

fun exists_scan :: "nat \<Rightarrow> block \<Rightarrow> nat \<Rightarrow> string \<Rightarrow> u16 \<Rightarrow> (DirEntry option \<times> u16) option" where
  "exists_scan 0 b off name count = Some (None, count)"
| "exists_scan (Suc r) b off name count = do {
     same \<leftarrow> strcmp_eq (de_name (de_load b off)) name;
     if same \<and> active_at b off then Some (Some (de_load b off), count)
     else exists_scan r b (off + DIRENT_SIZE) name (if active_at b (off + DIRENT_SIZE) then count + 1 else count)
   }"

fun exists_blocks :: "nat \<Rightarrow> fs \<Rightarrow> InodeBtreePair \<Rightarrow> Inode \<Rightarrow> string \<Rightarrow> nat \<Rightarrow> int \<Rightarrow> u16 \<Rightarrow> (DirEntry option \<times> fs) option" where
  "exists_blocks 0 s pair dir_node name i number_of_entries count = Some (None, s)"
| "exists_blocks (Suc r) s pair dir_node name i number_of_entries count = do {
     (block, s) \<leftarrow> dir_block 0 s dir_node i;
     if block = 0 then Some (None, s)
     else do {
       (p, s) \<leftarrow> get_block s (ip_inode pair) block;
       b \<leftarrow> deref s p;
       if btype b \<noteq> BLOCK_TYPE_DATA then Some (None, s)
       else do {
         let number_of_entries = (if i = 0 then sint (entry_count b) else number_of_entries);
         if number_of_entries = int (unat count) then Some (None, s)
         else do {
           (found, count) \<leftarrow> exists_scan SCAN b (entries_off i) name count;
           (case found of
              Some e \<Rightarrow> Some (Some e, s)
            | None \<Rightarrow> exists_blocks r s pair dir_node name (Suc i) number_of_entries count)
         }
       }
     }
   }"

text \<open>The result is the entry copied to \<^verbatim>\<open>stack_entry\<close>, or \<open>None\<close> for \<^verbatim>\<open>false\<close>.\<close>

definition directory_exists_entry :: "fs \<Rightarrow> string \<Rightarrow> string \<Rightarrow> (DirEntry option \<times> fs) option" where
  "directory_exists_entry s path name = do {
     (pair, s) \<leftarrow> item_search s path;
     if ip_inode pair \<noteq> 0 \<or> path = ''/'' then do {
       (dir_node, s) \<leftarrow> read_inode_or zero_inode s (ip_inode pair);
       exists_blocks DIR_BLOCKS s pair dir_node name 0 0 0
     }
     else Some (None, s)
   }"

section \<open>Listing\<close>

text \<open>
  The result is the entries copied, \<open>None\<close> when the array was never allocated. The number of the
  block is not reset: when the inode assigns none, the block before is listed again, and the very
  first one is uninitialised.
\<close>

fun list_scan :: "nat \<Rightarrow> block \<Rightarrow> nat \<Rightarrow> nat \<Rightarrow> DirEntry list \<Rightarrow> DirEntry list" where
  "list_scan 0 b off n es = es"
| "list_scan (Suc r) b off n es =
     (if length es < n then list_scan r b (off + DIRENT_SIZE) n (if active_at b off then es @ [de_load b off] else es)
      else es)"

fun list_blocks ::
  "nat \<Rightarrow> fs \<Rightarrow> InodeBtreePair \<Rightarrow> Inode \<Rightarrow> nat \<Rightarrow> u64 option \<Rightarrow> ptr option \<Rightarrow> DirEntry list option \<Rightarrow> (DirEntry list option \<times> fs) option"
where
  "list_blocks 0 s pair node i block db es = Some (es, s)"
| "list_blocks (Suc r) s pair node i block db es = do {
     (_, v, s) \<leftarrow> inode_get_block s node (of_nat i);
     block \<leftarrow> (case v of None \<Rightarrow> block | Some b \<Rightarrow> Some b);
     if block = 0 then Some (es, s)
     else do {
       (p, s) \<leftarrow> get_block s (ip_inode pair) block;
       b \<leftarrow> deref s p;
       if btype b \<noteq> BLOCK_TYPE_DATA then Some (es, s)
       else do {
         let (db, es) = (if i = 0 then (Some p, Some []) else (db, es));
         d \<leftarrow> db;
         d \<leftarrow> deref s d;
         l \<leftarrow> es;
         if unat (entry_count d) = length l then Some (es, s)
         else list_blocks r s pair node (Suc i) (Some block) db
                (Some (list_scan (USABLE_BLOCK_SIZE div DIRENT_SIZE) b (entries_off i) (unat (entry_count d)) l))
       }
     }
   }"

definition directory_list :: "fs \<Rightarrow> string \<Rightarrow> (DirEntry list option \<times> fs) option" where
  "directory_list s path = do {
     (pair, s) \<leftarrow> item_search s path;
     (es, s) \<leftarrow>
       (if ip_inode pair \<noteq> 0 \<or> path = ''/'' then do {
          (node, s) \<leftarrow> read_inode_or zero_inode s (ip_inode pair);
          list_blocks DIR_BLOCKS s pair node 0 None None None
        }
        else Some (None, s));
     s \<leftarrow> btree_print s (ip_btree pair);
     Some (es, s)
   }"

section \<open>Removing\<close>

text \<open>
  What happens at the entry at offset \<open>off\<close> that has the name. The flag says to leave the function at
  once. The inode number is read from the entry again after each call.
\<close>

definition remove_at ::
  "fs \<Rightarrow> InodeBtreePair \<Rightarrow> Inode \<Rightarrow> string \<Rightarrow> bool \<Rightarrow> u64 \<Rightarrow> ptr \<Rightarrow> nat \<Rightarrow> u16 \<Rightarrow> Inode \<Rightarrow> (bool \<times> u16 \<times> Inode \<times> fs) option"
where
  "remove_at s pair dir_node name write_through block p off n file_node = do {
     s \<leftarrow> modify s p (\<lambda>b. Some (store_bytes [0] b (off + 272)));
     let n = n - 1;
     b \<leftarrow> deref s p;
     (file_node, s) \<leftarrow> read_inode_or file_node s (de_inode (de_load b off));
     (stop, s) \<leftarrow>
       (if reference_count file_node = 1 then do {
          b \<leftarrow> deref s p;
          (rc, s) \<leftarrow> inode_free s (de_inode (de_load b off)) write_through;
          if rc \<noteq> 0 then Some (True, s)
          else do {
            (tree_node_block, s) \<leftarrow> btree_search s (ip_btree pair) (path_hash name);
            s \<leftarrow> (if tree_node_block \<noteq> 0 then do {
                    (_, s) \<leftarrow> btree_delete s (ip_btree pair) (path_hash name);
                    (_, s) \<leftarrow> btree_write s (ip_btree pair);
                    Some s
                  }
                  else Some s);
            s \<leftarrow> btree_print s (ip_btree pair);
            s \<leftarrow> (if write_through then do {
                    (_, s) \<leftarrow> btree_write s (ip_btree pair);
                    Some s
                  }
                  else Some s);
            Some (False, s)
          }
        }
        else Some (False, s));
     if stop then Some (True, n, file_node, s)
     else do {
       s \<leftarrow> locked_write s block p;
       (block, s) \<leftarrow> dir_block block s dir_node 0;
       (p, s) \<leftarrow> get_block s (ip_inode pair) block;
       s \<leftarrow> modify s p (\<lambda>b. Some (set_entry_count n b));
       s \<leftarrow> (if write_through then do {
               s \<leftarrow> locked_write s block p;
               decrease_pin_count s (ip_inode pair) block
             }
             else do {
               s \<leftarrow> write_block s p (ip_inode pair) block;
               increase_pin_count s (ip_inode pair) block
             });
       Some (False, n, file_node, s)
     }
   }"

text \<open>The loop over a block stops at the first entry with the name, whether it is active or not.\<close>

fun find_named :: "nat \<Rightarrow> block \<Rightarrow> nat \<Rightarrow> string \<Rightarrow> u16 \<Rightarrow> (nat option \<times> u16) option" where
  "find_named 0 b off name count = Some (None, count)"
| "find_named (Suc r) b off name count = do {
     same \<leftarrow> strcmp_eq (de_name (de_load b off)) name;
     if same then Some (Some off, count)
     else find_named r b (off + DIRENT_SIZE) name (if active_at b (off + DIRENT_SIZE) then count + 1 else count)
   }"

text \<open>After a removal the loop over the blocks goes on.\<close>

fun remove_blocks ::
  "nat \<Rightarrow> fs \<Rightarrow> InodeBtreePair \<Rightarrow> Inode \<Rightarrow> string \<Rightarrow> bool \<Rightarrow> nat \<Rightarrow> u16 \<Rightarrow> u16 \<Rightarrow> Inode \<Rightarrow> int \<Rightarrow> (int \<times> fs) option"
where
  "remove_blocks 0 s pair dir_node name write_through i n count file_node rv = Some (rv, s)"
| "remove_blocks (Suc r) s pair dir_node name write_through i n count file_node rv = do {
     (block, s) \<leftarrow> dir_block 0 s dir_node i;
     if block = 0 then Some (rv, s)
     else do {
       (p, s) \<leftarrow> get_block s (ip_inode pair) block;
       b \<leftarrow> deref s p;
       if btype b \<noteq> BLOCK_TYPE_DATA then Some (rv, s)
       else do {
         let n = (if i = 0 then entry_count b else n);
         if sint n = int (unat count) then Some (rv, s)
         else do {
           (found, count) \<leftarrow> find_named SCAN b (entries_off i) name count;
           (case found of
              None \<Rightarrow> remove_blocks r s pair dir_node name write_through (Suc i) n count file_node rv
            | Some off \<Rightarrow> do {
                (stop, n, file_node, s) \<leftarrow> remove_at s pair dir_node name write_through block p off n file_node;
                if stop then Some (rv, s)
                else remove_blocks r s pair dir_node name write_through (Suc i) n count file_node 0
              })
         }
       }
     }
   }"

definition ENOENT :: int where "ENOENT = 2"

definition directory_remove_entry :: "fs \<Rightarrow> string \<Rightarrow> string \<Rightarrow> bool \<Rightarrow> (int \<times> fs) option" where
  "directory_remove_entry s path name write_through = do {
     (pair, s) \<leftarrow> item_search s path;
     if ip_inode pair \<noteq> 0 \<or> path = ''/'' then do {
       (dir_node, s) \<leftarrow> read_inode_or zero_inode s (ip_inode pair);
       remove_blocks DIR_BLOCKS s pair dir_node name write_through 0 0 0 zero_inode (- ENOENT)
     }
     else Some (- ENOENT, s)
   }"

section \<open>Adding\<close>

text \<open>
  The entry is a local whose btree block, rest of the name and padding keep what was on the stack,
  the first of them unless the entry is a directory.
\<close>

definition new_file :: "block \<Rightarrow> string \<Rightarrow> u64 \<Rightarrow> DirEntry option" where
  "new_file junk name target = do {
     junk \<leftarrow> strcpy NAME_MAX name junk 16;
     Some ((de_load junk 0)\<lparr>de_inode := target, de_active := 1\<rparr>)
   }"

text \<open>Entering the name in the B+tree: the entry to store, or \<open>None\<close> when the insertion failed.\<close>

definition add_to_tree ::
  "fs \<Rightarrow> InodeBtreePair \<Rightarrow> string \<Rightarrow> u64 \<Rightarrow> u32 \<Rightarrow> DirEntry \<Rightarrow> (DirEntry option \<times> fs) option"
where
  "add_to_tree s pair name target ty e =
     (if ty = FILE_TYPE_DIRECTORY then do {
        (r, s) \<leftarrow> btree_node_create s False;
        (page, p) \<leftarrow> r;
        s \<leftarrow> node_upd s p (\<lambda>n. Some (n\<lparr>n_value := target, file_type := FILE_TYPE_DIRECTORY\<rparr>));
        s \<leftarrow> node_put s p;
        (rc, s) \<leftarrow> btree_insert s (ip_btree pair) (path_hash name) page ty;
        if rc \<noteq> 0 then do {
          s \<leftarrow> btree_node_free s page;
          Some (None, s)
        }
        else Some (Some (e\<lparr>de_btree := page\<rparr>), s)
      }
      else do {
        (rc, s) \<leftarrow> btree_insert s (ip_btree pair) (path_hash name) target ty;
        Some (if rc \<noteq> 0 then None else Some e, s)
      })"

definition add_at ::
  "fs \<Rightarrow> InodeBtreePair \<Rightarrow> Inode \<Rightarrow> string \<Rightarrow> u64 \<Rightarrow> u32 \<Rightarrow> DirEntry \<Rightarrow> u64 \<Rightarrow> ptr \<Rightarrow> nat \<Rightarrow> u16 \<Rightarrow> (int \<times> fs) option"
where
  "add_at s pair node name target ty e block p off n = do {
     (e, s) \<leftarrow> add_to_tree s pair name target ty e;
     (case e of
        None \<Rightarrow> Some (-1, s)
      | Some e \<Rightarrow> do {
          s \<leftarrow> modify s p (\<lambda>b. Some (de_store e b off));
          s \<leftarrow> locked_write s block p;
          (block, s) \<leftarrow> dir_block block s node 0;
          (p, s) \<leftarrow> get_block s (ip_inode pair) block;
          s \<leftarrow> modify s p (\<lambda>b. Some (set_entry_count n b));
          s \<leftarrow> locked_write s block p;
          s \<leftarrow> write_block s p 0 block;
          (_, s) \<leftarrow> btree_write s (ip_btree pair);
          Some (0, s)
        })
   }"

text \<open>The first of 13 entries that is free or behind the last one counted.\<close>

fun find_free :: "nat \<Rightarrow> block \<Rightarrow> nat \<Rightarrow> u16 \<Rightarrow> u16 \<Rightarrow> nat option \<times> u16" where
  "find_free 0 b off n count = (None, count)"
| "find_free (Suc r) b off n count =
     (if \<not> active_at b off \<or> count = n then (Some off, count)
      else find_free r b (off + DIRENT_SIZE) n (if active_at b off then count + 1 else count))"

text \<open>
  A block for index \<open>i\<close>: the inode's, or a new one, which is journalled and whose entries keep the
  bytes the block had. \<open>J\<close> is \<open>initialize_journal_entry\<close>, which may call back into this function
  through the entries it replays.
\<close>

definition dir_block_or_new ::
  "(fs \<Rightarrow> block \<Rightarrow> fs option) \<Rightarrow> env \<Rightarrow> fs \<Rightarrow> InodeBtreePair \<Rightarrow> Inode \<Rightarrow> bool \<Rightarrow> nat \<Rightarrow> ((u64 \<times> ptr \<times> Inode) option \<times> fs) option"
where
  "dir_block_or_new J env s pair node write_through i = do {
     (block, s) \<leftarrow> dir_block 0 s node i;
     if block \<noteq> 0 then do {
       (p, s) \<leftarrow> get_block s (ip_inode pair) block;
       Some (Some (block, p, node), s)
     }
     else do {
       (block, s) \<leftarrow> alloc_page s;
       if block = 0 then Some (None, s)
       else do {
         (_, node, s) \<leftarrow> inode_set_block s node (of_nat i) block;
         (p, s) \<leftarrow> get_block s (ip_inode pair) block;
         s \<leftarrow> modify s p (\<lambda>b. Some (set_btype BLOCK_TYPE_DATA b));
         (_, s) \<leftarrow> inode_write s node write_through;
         s \<leftarrow> J s (write_entry (stack env s) (inode_number node) (of_nat i) block);
         s \<leftarrow> (if i = 0 then modify s p (\<lambda>b. Some (set_entry_count 0 b)) else Some s);
         s \<leftarrow> write_block s p 0 block;
         Some (Some (block, p, node), s)
       }
     }
   }"

fun add_blocks ::
  "(fs \<Rightarrow> block \<Rightarrow> fs option) \<Rightarrow> env \<Rightarrow> nat \<Rightarrow> fs \<Rightarrow> InodeBtreePair \<Rightarrow> Inode \<Rightarrow> string \<Rightarrow> u64 \<Rightarrow> u32 \<Rightarrow> bool \<Rightarrow> DirEntry \<Rightarrow>
     nat \<Rightarrow> u16 \<Rightarrow> u16 \<Rightarrow> (int \<times> fs) option"
where
  "add_blocks J env 0 s pair node name target ty write_through e i n count = Some (-1, s)"
| "add_blocks J env (Suc r) s pair node name target ty write_through e i n count = do {
     (x, s) \<leftarrow> dir_block_or_new J env s pair node write_through i;
     (case x of
        None \<Rightarrow> Some (-1, s)
      | Some (block, p, node) \<Rightarrow> do {
          b \<leftarrow> deref s p;
          if btype b \<noteq> BLOCK_TYPE_DATA then Some (-1, s)
          else do {
            let n = (if i = 0 then entry_count b else n);
            let (slot, count) = find_free SCAN b (entries_off i) n count;
            (case slot of
               Some off \<Rightarrow> add_at s pair node name target ty e block p off (n + 1)
             | None \<Rightarrow> add_blocks J env r s pair node name target ty write_through e (Suc i) n count)
          }
        })
   }"

definition directory_add_entry ::
  "(fs \<Rightarrow> block \<Rightarrow> fs option) \<Rightarrow> env \<Rightarrow> fs \<Rightarrow> string \<Rightarrow> string \<Rightarrow> u64 \<Rightarrow> u32 \<Rightarrow> bool \<Rightarrow> (int \<times> fs) option"
where
  "directory_add_entry J env s path name target ty write_through = do {
     (pair, s) \<leftarrow> item_search s path;
     e \<leftarrow> new_file (stack env s) name target;
     if ip_inode pair \<noteq> 0 \<or> path = ''/'' then do {
       (node, s) \<leftarrow> read_inode_or zero_inode s (ip_inode pair);
       add_blocks J env DIR_BLOCKS s pair node name target ty write_through e 0 0 0
     }
     else Some (-1, s)
   }"

section \<open>The journal below\<close>

text \<open>The operations are monotone in the journalling they call, so that it can be defined by recursion.\<close>

lemma dir_block_or_new_mono [partial_function_mono]:
  assumes "\<And>s e. mono_option (\<lambda>f. J f s e)"
  shows "mono_option (\<lambda>f. dir_block_or_new (J f) env s pair node write_through i)"
  unfolding dir_block_or_new_def Let_def by (intro partial_function_mono option.const_mono assms)

lemma add_blocks_mono [partial_function_mono]:
  assumes "\<And>s e. mono_option (\<lambda>f. J f s e)"
  shows "mono_option (\<lambda>f. add_blocks (J f) env r s pair node name target ty write_through e i n count)"
proof (induction r arbitrary: s node i n count)
  case (Suc r)
  show ?case
    unfolding add_blocks.simps Let_def by (intro partial_function_mono option.const_mono assms Suc.IH)
qed (simp add: option.const_mono)

lemma directory_add_entry_mono [partial_function_mono]:
  assumes "\<And>s e. mono_option (\<lambda>f. J f s e)"
  shows "mono_option (\<lambda>f. directory_add_entry (J f) env s path name target ty write_through)"
  unfolding directory_add_entry_def by (intro partial_function_mono option.const_mono assms)

text \<open>The place of an inode depends on the geometry only.\<close>

lemma nodes_kept_home: "nodes_kept s s' \<Longrightarrow> inode_home s' n = inode_home s n"
  by (simp add: nodes_kept_def geometry_def inode_home_def inode_table_def calculate_inode_bitmap_size_def)

end
