(* ===== verification/Metadata.thy ===== *)
theory Metadata
  imports Directories
begin

text \<open>
  The operations on files and directories (\<^verbatim>\<open>src/metadata-api.c\<close>; the leading underscore of their
  names is \<open>metadata_\<close> here). They combine the lookup, the inodes, the directories and the B+trees.
  \<open>J\<close> is \<open>initialize_journal_entry\<close>, which adding a directory entry may call.
\<close>

text \<open>
  \<open>out\<close> is the block whose \<^verbatim>\<open>mknod.inode_number\<close> the out parameter points into, if it does; the value
  assigned is returned too, for a caller that passes the address of a local.
\<close>

definition metadata_mknod ::
  "(fs \<Rightarrow> block \<Rightarrow> fs option) \<Rightarrow> env \<Rightarrow> fs \<Rightarrow> string \<Rightarrow> u32 \<Rightarrow> bool \<Rightarrow> ptr option \<Rightarrow> (int \<times> u64 option \<times> fs) option"
where
  "metadata_mknod J env s path md write_through out = do {
     parent \<leftarrow> parent_path path (count_l path);
     let name = get_name path;
     (ino, s) \<leftarrow> inode_allocate s (e_uid env) (e_gid env) md True;
     let rv = int_of_u64 (word_of_int ino);
     if rv = -1 then Some (-1, None, s)
     else do {
       (r, s) \<leftarrow> inode_read s (word_of_int rv);
       (case r of
          None \<Rightarrow> Some (-1, None, s)
        | Some node \<Rightarrow> do {
            s \<leftarrow> (case out of None \<Rightarrow> Some s | Some p \<Rightarrow> modify s p (\<lambda>b. Some (store64 (inode_number node) b JE_INODE)));
            let node = node\<lparr>i_creation_time := clock env s, mode := md\<rparr>;
            (rv, s) \<leftarrow> inode_write s node write_through;
            if rv \<noteq> 0 then Some (rv, Some (inode_number node), s)
            else do {
              (rv, s) \<leftarrow> directory_add_entry J env s parent name (inode_number node) (md AND S_IFMT) write_through;
              Some (rv, Some (inode_number node), s)
            }
          })
     }
   }"

definition metadata_unlink :: "fs \<Rightarrow> string \<Rightarrow> bool \<Rightarrow> (int \<times> fs) option" where
  "metadata_unlink s path write_through = do {
     parent \<leftarrow> parent_path path (count_l path);
     let name = get_name path;
     (pair, s) \<leftarrow> item_search s parent;
     (e, s) \<leftarrow> directory_exists_entry s parent name;
     s \<leftarrow> (if e \<noteq> None then do {
             (_, s) \<leftarrow> directory_remove_entry s parent name write_through;
             Some s
           }
           else Some s);
     (b, s) \<leftarrow> btree_search s (ip_btree pair) (path_hash name);
     s \<leftarrow> (if b \<noteq> 0 then do {
             (_, s) \<leftarrow> btree_delete s (ip_btree pair) (path_hash name);
             Some s
           }
           else Some s);
     Some (0, s)
   }"

text \<open>
  The inode of \<^verbatim>\<open>from\<close> is read without a check that \<^verbatim>\<open>from\<close> was found. When the new name exists already,
  only the B+tree is brought up to date.
\<close>

definition metadata_link ::
  "(fs \<Rightarrow> block \<Rightarrow> fs option) \<Rightarrow> env \<Rightarrow> fs \<Rightarrow> string \<Rightarrow> string \<Rightarrow> bool \<Rightarrow> (int \<times> fs) option"
where
  "metadata_link J env s from to write_through = do {
     (from_pair, s) \<leftarrow> item_search s from;
     (inode, s) \<leftarrow> inode_read s (ip_inode from_pair);
     inode \<leftarrow> inode;
     parent \<leftarrow> parent_path to (count_l to);
     let name = get_name to;
     (e, s) \<leftarrow> directory_exists_entry s parent name;
     (case e of
        Some stack_entry \<Rightarrow> do {
          (pair, s) \<leftarrow> item_search s parent;
          let inode = inode\<lparr>reference_count := reference_count inode + 1\<rparr>;
          (_, s) \<leftarrow> inode_write s inode True;
          (b, s) \<leftarrow> btree_search s (ip_btree pair) (path_hash name);
          s \<leftarrow> (if b = 0 then do {
                  (_, s) \<leftarrow> btree_insert s (ip_btree pair) (path_hash name) (de_inode stack_entry) (mode inode AND S_IFMT);
                  Some s
                }
                else Some s);
          (_, s) \<leftarrow> btree_write s (ip_btree pair);
          Some (0, s)
        }
      | None \<Rightarrow> do {
          (rv, s) \<leftarrow> directory_add_entry J env s parent name (ip_inode from_pair) (mode inode AND S_IFMT) write_through;
          if rv = 0 then do {
            (_, s) \<leftarrow> inode_write s (inode\<lparr>reference_count := reference_count inode + 1\<rparr>) write_through;
            Some (rv, s)
          }
          else Some (rv, s)
        })
   }"

definition metadata_chmod :: "fs \<Rightarrow> string \<Rightarrow> u32 \<Rightarrow> bool \<Rightarrow> (int \<times> fs) option" where
  "metadata_chmod s path md write_through = do {
     (pair, s) \<leftarrow> item_search s path;
     (r, s) \<leftarrow> inode_read s (ip_inode pair);
     (case r of
        None \<Rightarrow> Some (-1, s)
      | Some node \<Rightarrow> inode_write s (node\<lparr>mode := md\<rparr>) write_through)
   }"

text \<open>
  The number of blocks for a size, and the loop that frees the blocks from index \<open>i\<close> on. The size of
  the inode is a \<^verbatim>\<open>uint64_t\<close>, and its blocks are counted with unsigned arithmetic; the new size is an
  \<^verbatim>\<open>off_t\<close>, and its blocks are counted with signed arithmetic, where an overflow is undefined. The two sizes are
  compared as unsigned numbers.
\<close>

definition blocks_for :: "u64 \<Rightarrow> u64" where
  "blocks_for sz = (sz + of_nat USABLE_BLOCK_SIZE - 1) div of_nat USABLE_BLOCK_SIZE"

definition new_blocks_for :: "u64 \<Rightarrow> u64 option" where
  "new_blocks_for sz = do {
     x \<leftarrow> c_off (sint sz + int USABLE_BLOCK_SIZE);
     Some (word_of_int (c_div (sint x - 1) (int USABLE_BLOCK_SIZE)))
   }"

fun free_blocks_from :: "nat \<Rightarrow> fs \<Rightarrow> Inode \<Rightarrow> u64 \<Rightarrow> (Inode \<times> fs) option" where
  "free_blocks_from 0 s inode i = Some (inode, s)"
| "free_blocks_from (Suc r) s inode i = do {
     (rc, v, s) \<leftarrow> inode_get_block s inode i;
     let physical_block = (case v of None \<Rightarrow> 0 | Some b \<Rightarrow> b);
     (inode, s) \<leftarrow>
       (if rc = 0 \<and> physical_block \<noteq> 0 then do {
          s \<leftarrow> free_page s (int_of_u64 physical_block);
          (_, inode, s) \<leftarrow> inode_set_block s inode i 0;
          Some (inode, s)
        }
        else Some (inode, s));
     free_blocks_from r s inode (i + 1)
   }"

definition metadata_truncate :: "fs \<Rightarrow> string \<Rightarrow> u64 \<Rightarrow> bool \<Rightarrow> (int \<times> fs) option" where
  "metadata_truncate s path sz write_through = do {
     (pair, s) \<leftarrow> item_search s path;
     (inode, s) \<leftarrow> inode_read s (ip_inode pair);
     inode \<leftarrow> inode;
     (inode, s) \<leftarrow>
       (if sz < i_size inode
        then do {
          let old_blocks = blocks_for (i_size inode);
          new_blocks \<leftarrow> new_blocks_for sz;
          free_blocks_from (unat old_blocks - unat new_blocks) s inode new_blocks
        }
        else Some (inode, s));
     (_, s) \<leftarrow> inode_write s (inode\<lparr>i_size := sz\<rparr>) write_through;
     Some (0, s)
   }"

definition metadata_rename ::
  "(fs \<Rightarrow> block \<Rightarrow> fs option) \<Rightarrow> env \<Rightarrow> fs \<Rightarrow> string \<Rightarrow> string \<Rightarrow> bool \<Rightarrow> (int \<times> fs) option"
where
  "metadata_rename J env s from to write_through = do {
     to_parent \<leftarrow> parent_path to (count_l to);
     let to_name = get_name to;
     (pair, s) \<leftarrow> item_search s to_parent;
     (b, s) \<leftarrow> btree_search s (ip_btree pair) (path_hash to_name);
     if b = 0 then do {
       (rv, s) \<leftarrow> metadata_link J env s from to write_through;
       if rv \<noteq> 0 then Some (rv, s) else metadata_unlink s from write_through
     }
     else Some (-1, s)
   }"

lemma metadata_mono [partial_function_mono]:
  assumes "\<And>s e. mono_option (\<lambda>f. J f s e)"
  shows "mono_option (\<lambda>f. metadata_mknod (J f) env s path md write_through out)"
    and "mono_option (\<lambda>f. metadata_link (J f) env s from to write_through)"
  unfolding metadata_mknod_def metadata_link_def Let_def
  by (intro partial_function_mono option.const_mono assms)+

lemma metadata_rename_mono [partial_function_mono]:
  assumes "\<And>s e. mono_option (\<lambda>f. J f s e)"
  shows "mono_option (\<lambda>f. metadata_rename (J f) env s from to write_through)"
  unfolding metadata_rename_def Let_def by (intro partial_function_mono option.const_mono assms)

end
