(* ===== verification/Journal.thy ===== *)
theory Journal
  imports Metadata
begin

text \<open>
  The journal (\<^verbatim>\<open>src/journal.c\<close>): a ring of blocks, one entry each. Writing an entry first replays the
  one it overwrites, and replaying \<^verbatim>\<open>MKNOD\<close>, \<^verbatim>\<open>LINK\<close> or \<^verbatim>\<open>RENAME\<close> may add a directory block, which writes
  an entry: the recursion of the sources goes through \<open>initialize_journal_entry\<close>, \<open>sync_entry\<close>, the
  metadata operations and \<open>directory_add_entry\<close>.
\<close>

section \<open>Replaying an entry\<close>

text \<open>
  The second half of a replayed \<^verbatim>\<open>MKNOD\<close>: the leaf of the name is made or corrected. The fields of the
  entry are read from its block each time. The flag says that the tree is not to be written.
\<close>

definition replay_new_leaf :: "fs \<Rightarrow> ptr \<Rightarrow> InodeBtreePair \<Rightarrow> string \<Rightarrow> (bool \<times> fs) option" where
  "replay_new_leaf s p pair name = do {
     b \<leftarrow> deref s p;
     let ty = load32 b JE_MODE AND S_IFMT;
     if ty = FILE_TYPE_DIRECTORY then do {
       (r, s) \<leftarrow> btree_node_create s False;
       (case r of
          None \<Rightarrow> Some (True, s)
        | Some (page, _) \<Rightarrow> do {
            (_, s) \<leftarrow> btree_insert s (ip_btree pair) (path_hash name) page ty;
            (tree_node, s) \<leftarrow> read_node s page;
            b \<leftarrow> deref s p;
            (_, s) \<leftarrow> btree_node_write s (tree_node\<lparr>file_type := FILE_TYPE_DIRECTORY, n_value := load64 b JE_INODE\<rparr>);
            Some (False, s)
          })
     }
     else do {
       (_, s) \<leftarrow> btree_insert s (ip_btree pair) (path_hash name) (load64 b JE_INODE) ty;
       Some (False, s)
     }
   }"

definition replay_old_leaf :: "fs \<Rightarrow> ptr \<Rightarrow> u64 \<Rightarrow> (bool \<times> fs) option" where
  "replay_old_leaf s p block_num = do {
     (tree_node, s) \<leftarrow> read_node s block_num;
     b \<leftarrow> deref s p;
     if file_type tree_node = FILE_TYPE_DIRECTORY then do {
       let tree_node = tree_node\<lparr>n_value := load64 b JE_BTREE\<rparr>;
       (_, s) \<leftarrow> btree_node_write s tree_node;
       b \<leftarrow> deref s p;
       (r, s) \<leftarrow> btree_node_read s (load64 b JE_BTREE);
       let tree_node = reread tree_node r;
       (x, s) \<leftarrow>
         (if is_leaf tree_node then do {
            (r, s) \<leftarrow> btree_node_read s block_num;
            let tree_node = reread tree_node r;
            (r, s) \<leftarrow> btree_node_create s False;
            (case r of
               None \<Rightarrow> Some (None, s)
             | Some (page, _) \<Rightarrow> do {
                 let tree_node = tree_node\<lparr>n_value := page\<rparr>;
                 (_, s) \<leftarrow> btree_node_write s tree_node;
                 (r, s) \<leftarrow> btree_node_read s page;
                 Some (Some (reread tree_node r), s)
               })
          }
          else Some (Some tree_node, s));
       (case x of
          None \<Rightarrow> Some (True, s)
        | Some tree_node \<Rightarrow> do {
            b \<leftarrow> deref s p;
            (_, s) \<leftarrow> btree_node_write s (tree_node\<lparr>file_type := FILE_TYPE_DIRECTORY, n_value := load64 b JE_INODE\<rparr>);
            Some (False, s)
          })
     }
     else do {
       (_, s) \<leftarrow> btree_node_write s (tree_node\<lparr>n_value := load64 b JE_INODE\<rparr>);
       Some (False, s)
     }
   }"

text \<open>
  A replayed \<^verbatim>\<open>MKNOD\<close>. Without an inode number the operation is done again and \<open>sync_entry\<close> returns at
  once (the flag).
\<close>

definition sync_mknod :: "(fs \<Rightarrow> block \<Rightarrow> fs option) \<Rightarrow> env \<Rightarrow> fs \<Rightarrow> ptr \<Rightarrow> (bool \<times> fs) option" where
  "sync_mknod J env s p = do {
     b \<leftarrow> deref s p;
     path \<leftarrow> read_str PATH_MAX b JE_PATH;
     if load64 b JE_INODE = 0 then do {
       (_, _, s) \<leftarrow> metadata_mknod J env s path (load32 b JE_MODE) True (Some p);
       Some (True, s)
     }
     else do {
       (node, s) \<leftarrow> inode_read s (load64 b JE_INODE);
       node \<leftarrow> node;
       (_, s) \<leftarrow> inode_write s (node\<lparr>i_creation_time := clock env s, mode := load32 b JE_MODE\<rparr>) True;
       parent \<leftarrow> parent_path path (count_l path);
       let name = get_name path;
       (pair, s) \<leftarrow> item_search s parent;
       (block_num, s) \<leftarrow> btree_search s (ip_btree pair) (path_hash name);
       (failed, s) \<leftarrow> (if block_num = 0 then replay_new_leaf s p pair name else replay_old_leaf s p block_num);
       s \<leftarrow> (if failed then Some s
             else do {
               (_, s) \<leftarrow> btree_write s (ip_btree pair);
               Some s
             });
       Some (False, s)
     }
   }"

definition sync_write :: "fs \<Rightarrow> ptr \<Rightarrow> fs option" where
  "sync_write s p = do {
     b \<leftarrow> deref s p;
     (node, s) \<leftarrow> inode_read s (load64 b JE_W_INODE);
     node \<leftarrow> node;
     b \<leftarrow> deref s p;
     (_, node, s) \<leftarrow> inode_set_block s node (load64 b JE_W_INDEX) (load64 b JE_W_BLOCK);
     (_, s) \<leftarrow> inode_write s node True;
     Some s
   }"

text \<open>The entry is marked and its block written to the block number stored in it.\<close>

definition mark_entry_synced :: "fs \<Rightarrow> ptr \<Rightarrow> fs option" where
  "mark_entry_synced s p = do {
     s \<leftarrow> modify s p (\<lambda>b. Some (set_je_synced True b));
     b \<leftarrow> deref s p;
     locked_write s (je_block b) p
   }"

definition sync_entry :: "(fs \<Rightarrow> block \<Rightarrow> fs option) \<Rightarrow> env \<Rightarrow> fs \<Rightarrow> ptr \<Rightarrow> fs option" where
  "sync_entry J env s p = do {
     b \<leftarrow> deref s p;
     let ty = je_type b;
     (ret, s) \<leftarrow>
       (if ty = MKNOD then sync_mknod J env s p
        else do {
          s \<leftarrow>
            (if ty = UNLINK then do {
               path \<leftarrow> read_str PATH_MAX b JE_PATH;
               (_, s) \<leftarrow> metadata_unlink s path True;
               Some s
             }
             else if ty = LINK then do {
               from \<leftarrow> read_str PATH_MAX b JE_PATH;
               to \<leftarrow> read_str PATH_MAX b JE_TO;
               (_, s) \<leftarrow> metadata_link J env s from to True;
               Some s
             }
             else if ty = CHMOD then do {
               path \<leftarrow> read_str PATH_MAX b JE_PATH;
               (_, s) \<leftarrow> metadata_chmod s path (load32 b JE_MODE) True;
               Some s
             }
             else if ty = TRUNCATE then do {
               path \<leftarrow> read_str PATH_MAX b JE_PATH;
               (_, s) \<leftarrow> metadata_truncate s path (load64 b JE_SIZE) True;
               Some s
             }
             else if ty = WRITE then sync_write s p
             else if ty = RENAME then do {
               from \<leftarrow> read_str PATH_MAX b JE_PATH;
               to \<leftarrow> read_str PATH_MAX b JE_TO;
               (_, s) \<leftarrow> metadata_rename J env s from to True;
               Some s
             }
             else Some s);
          Some (False, s)
        });
     if ret then Some s else mark_entry_synced s p
   }"

lemma sync_mknod_mono [partial_function_mono]:
  assumes "\<And>s e. mono_option (\<lambda>f. J f s e)"
  shows "mono_option (\<lambda>f. sync_mknod (J f) env s p)"
  unfolding sync_mknod_def Let_def by (intro partial_function_mono option.const_mono assms)

lemma sync_entry_mono [partial_function_mono]:
  assumes "\<And>s e. mono_option (\<lambda>f. J f s e)"
  shows "mono_option (\<lambda>f. sync_entry (J f) env s p)"
  unfolding sync_entry_def Let_def by (intro partial_function_mono option.const_mono assms)

section \<open>Writing an entry\<close>

text \<open>The next position of the ring: the last block of the journal is never used.\<close>

definition next_head :: "Superblock \<Rightarrow> Superblock" where
  "next_head sb = sb\<lparr>journal_head :=
     (if journal_head sb = word_of_int (calculate_journal_size sb - 2) then 0 else journal_head sb + 1)\<rparr>"

text \<open>What a new \<^verbatim>\<open>MKNOD\<close> entry of a directory looks up, and the truncation that goes with it.\<close>

definition prepare_entry :: "fs \<Rightarrow> block \<Rightarrow> (block \<times> fs) option" where
  "prepare_entry s e =
     (if je_type e = MKNOD then do {
        let e = store64 0 e JE_BTREE;
        if load32 e JE_MODE AND S_IFMT = FILE_TYPE_DIRECTORY then do {
          path \<leftarrow> read_str PATH_MAX e JE_PATH;
          (pair, s) \<leftarrow> item_search s path;
          let e = store64 (ip_btree pair) (store64 (ip_inode pair) e JE_INODE) JE_BTREE;
          (_, s) \<leftarrow> metadata_truncate s path 0 True;
          Some (e, s)
        }
        else Some (e, s)
      }
      else Some (e, s))"

partial_function (option) initialize_journal_entry :: "env \<Rightarrow> fs \<Rightarrow> block \<Rightarrow> fs option" where
  "initialize_journal_entry env s e = do {
     (e, s) \<leftarrow> prepare_entry s e;
     (sb, s) \<leftarrow> superblock_read s;
     sb \<leftarrow> sb;
     let journal_block = journal_start sb + journal_head sb;
     let e = set_je_block journal_block e;
     (p, s) \<leftarrow> get_block s 0 journal_block;
     b \<leftarrow> deref s p;
     if btype b \<noteq> BLOCK_TYPE_JOURNAL then Some s
     else do {
       s \<leftarrow> (if \<not> je_synced b then sync_entry (\<lambda>s e. initialize_journal_entry env s e) env s p else Some s);
       (_, s) \<leftarrow> superblock_write s (next_head sb) True;
       s \<leftarrow> modify s p (\<lambda>b. Some (copy_entry e b));
       locked_write s journal_block p
     }
   }"

section \<open>The whole journal\<close>

text \<open>
  Both passes over the journal step through the ring from the head, all but one of its blocks, and
  write the superblock after every step.
\<close>

fun journal_pass :: "(fs \<Rightarrow> ptr \<Rightarrow> fs option) \<Rightarrow> nat \<Rightarrow> fs \<Rightarrow> Superblock \<Rightarrow> fs option" where
  "journal_pass f 0 s sb = Some s"
| "journal_pass f (Suc r) s sb = do {
     (p, s) \<leftarrow> get_block s 0 (journal_start sb + journal_head sb);
     b \<leftarrow> deref s p;
     if btype b \<noteq> BLOCK_TYPE_JOURNAL then Some s
     else do {
       s \<leftarrow> (if je_type b \<noteq> UNINITIALIZED \<and> \<not> je_synced b then f s p else Some s);
       (_, s) \<leftarrow> superblock_write s (next_head sb) True;
       journal_pass f r s (next_head sb)
     }
   }"

definition sync_journal :: "env \<Rightarrow> fs \<Rightarrow> fs option" where
  "sync_journal env s = do {
     (sb, s) \<leftarrow> superblock_read s;
     sb \<leftarrow> sb;
     journal_pass (sync_entry (initialize_journal_entry env) env) (nat (calculate_journal_size sb - 1)) s sb
   }"

definition mark_journal_synced :: "fs \<Rightarrow> fs option" where
  "mark_journal_synced s = do {
     (sb, s) \<leftarrow> superblock_read s;
     sb \<leftarrow> sb;
     journal_pass mark_entry_synced (nat (calculate_journal_size sb - 1)) s sb
   }"

end
