(* ===== verification/Journal_Ring.thy ===== *)
theory Journal_Ring
  imports Journal
begin

text \<open>
  What the journal guarantees: an entry written over a synced one is on disk with its block number
  and the head moves on; the pass at unmount visits every block of the ring once, marks what is not
  synced and brings the head back. And what it does not: a slot that was never used carries block
  number 0, and replaying it writes the journal block over the superblock.
\<close>

section \<open>The head\<close>

definition super_ok :: "fs \<Rightarrow> bool" where
  "super_ok s \<longleftrightarrow> store_ok s \<and> 0 < nblocks s \<and> btype (view s 0) = BLOCK_TYPE_SUPER"

abbreviation head_block :: "fs \<Rightarrow> u64" where
  "head_block s \<equiv> journal_start (sb_of s) + journal_head (sb_of s)"

text \<open>The blocks the ring uses: all of the journal but the last.\<close>

definition ring_size :: "Superblock \<Rightarrow> nat" where
  "ring_size sb = nat (calculate_journal_size sb - 1)"

lemma next_head_fields [simp]:
  "journal_start (next_head sb) = journal_start sb" "sb_total_blocks (next_head sb) = sb_total_blocks sb"
  "btree_root (next_head sb) = btree_root sb" "inode_bitmap (next_head sb) = inode_bitmap sb"
  "volume_name (next_head sb) = volume_name sb" "ring_size (next_head sb) = ring_size sb"
  "calculate_journal_size (next_head sb) = calculate_journal_size sb"
  by (simp_all add: next_head_def ring_size_def calculate_journal_size_def)

lemma length_volume_name [simp]: "length (volume_name (sb_of s)) = NAME_SIZE"
  by (simp add: sb_of_def sb_load_def)

text \<open>The head moves around the ring.\<close>

lemma next_head_mod:
  assumes "0 < ring_size sb" and "unat (journal_head sb) < ring_size sb"
  shows "unat (journal_head (next_head sb)) = (unat (journal_head sb) + 1) mod ring_size sb"
proof -
  let ?c = "calculate_journal_size sb" and ?h = "journal_head sb"
  have "?c < 2 ^ 31" using sint_lt [where 'a = 32] by (simp add: calculate_journal_size_def int_of_u64_def)
  moreover have N: "int (ring_size sb) = ?c - 1" using assms(1) by (simp add: ring_size_def)
  ultimately have "int (ring_size sb) < 2 ^ 31" by linarith
  then have small: "ring_size sb < 2 ^ 31" by simp
  have c2: "?c - 2 = int (ring_size sb - 1)" using N assms(1) by (simp add: of_nat_diff)
  have e: "(word_of_int (?c - 2) :: u64) = of_nat (ring_size sb - 1)"
    unfolding c2 by simp
  have u: "unat (of_nat (ring_size sb - 1) :: u64) = ring_size sb - 1" using small by (intro unat_of_nat_small) simp
  have last: "?h = word_of_int (?c - 2) \<longleftrightarrow> unat ?h = ring_size sb - 1" unfolding e by (metis u word_unat_eq_iff)
  show ?thesis
  proof (cases "unat ?h = ring_size sb - 1")
    case True
    then show ?thesis using last assms by (simp add: next_head_def)
  next
    case False
    have "unat ?h + unat (1 :: u64) < 2 ^ LENGTH(64)" using assms(2) small by simp
    then have "unat (?h + 1) = unat ?h + 1" by (simp only: unat_add_lem) simp
    then show ?thesis using False last assms by (simp add: next_head_def)
  qed
qed

section \<open>Writing an entry\<close>

text \<open>
  Writing the superblock through to disk, then an entry into the journal block at \<open>p\<close>.
\<close>

lemma head_write:
  assumes ok: "super_ok s" and len: "length (volume_name sb) = NAME_SIZE"
  obtains s' where "superblock_write s sb True = Some (0, s')" and "st.updates s s' 0 (sb_store sb (view s 0))"
    and "super_ok s'" and "sb_of s' = sb"
proof -
  have o: "store_ok s" "0 < nblocks s" "btype (view s 0) = BLOCK_TYPE_SUPER" using ok by (simp_all add: super_ok_def)
  obtain s' where w: "superblock_write s sb True = Some (0, s')"
      "if True then st.updates s s' 0 (sb_store sb (view s 0)) else st.changes s s' 0 (sb_store sb (view s 0))"
    by (rule superblock_write_ok [OF o])
  then have u: "st.updates s s' 0 (sb_store sb (view s 0))" by simp
  have v: "view s' 0 = sb_store sb (view s 0)" using st.updatesD(2) [OF u] by simp
  have "btype (sb_store sb (view s 0)) = BLOCK_TYPE_SUPER" using o(3) len by (simp add: sb_store_def Let_def layout)
  then have "super_ok s'" using st.keepsD(1,2) [OF st.updatesD(1) [OF u]] o(2) by (simp add: super_ok_def v)
  moreover have "sb_of s' = sb" using sb_load_store [OF len] by (simp add: sb_of_def v)
  ultimately show thesis using w(1) u by (intro that)
qed

lemma modify_through:
  assumes "store_ok s" and "points s p b"
  obtains s1 s2 where "modify s p (\<lambda>x. Some (f x)) = Some s1" and "locked_write s1 b p = Some s2" and "st.updates s s2 b (f (view s b))"
    and "deref s1 p = Some (f (view s b))"
proof -
  obtain s1 where s1: "assign s p (f (view s b)) = Some s1" "st.changes s s1 b (f (view s b))"
    using st.store_changes [OF assms] by blast
  note K = st.keepsD [OF st.changesD(1) [OF s1(2)]]
  obtain s2 where s2: "locked_write s1 b p = Some s2" "st.flushes s1 s2 b" using st.through_flushes [OF K(1) K(4) [OF assms(2)]] by blast
  have "modify s p (\<lambda>x. Some (f x)) = Some s1" using st.load_view [OF assms] s1(1) by (simp add: modify_def)
  moreover have "deref s1 p = Some (f (view s b))"
    using st.load_view [OF K(1) K(4) [OF assms(2)]] st.changesD(2) [OF s1(2)] by simp
  ultimately show thesis using s2(1) st.changes_flushes [OF s1(2) s2(2)] by (intro that)
qed

text \<open>
  Writing a page to the number of another cached block changes that block on disk only. This is what
  the replay of a slot that was never used does: its block number is 0, the superblock.
\<close>

lemma stray_write:
  assumes ok: "store_ok s" and c: "\<not> cache_disabled s" and p: "points s p b" and q: "points s q d"
  obtains s' where "locked_write s d p = Some s'" and "st.keeps s s'" and "view s' = view s"
    and "disk_image s' = (disk_image s)(unat d := view s b)"
proof -
  let ?s = "s\<lparr>disk := (disk s)\<lparr>disk_base := (disk_base (disk s))(unat d := view s b)\<rparr>\<rparr>"
  have "locked_write s d p = Some ?s"
    using ok st.points_limit [OF ok q] st.load_view [OF ok p] by (intro locked_write_ok) (simp_all add: store_ok_def)
  moreover have "store_ok ?s" "nblocks ?s = nblocks s" using ok by (simp_all add: store_ok_def addressable_def nblocks_def)
  then have "st.keeps s ?s" by (simp add: st.keeps_def points_def dirty_block_def lists_ok_def queued_def slot_listed_def c)
  moreover have "view ?s = view s"
  proof
    fix x
    obtain i where "pci_map (pci (cache_s s)) d = Some i" using q c by (auto simp: points_def)
    then have "x \<noteq> d" if "pci_map (pci (cache_s s)) x = None" using that by auto
    then have "unat x \<noteq> unat d" if "pci_map (pci (cache_s s)) x = None" using that by (metis word_unat_eq_iff)
    then show "view ?s x = view s x" by (auto simp: view_def c disk_image_def split: option.splits)
  qed
  moreover have "disk_image ?s = (disk_image s)(unat d := view s b)" by (simp add: disk_image_def)
  ultimately show thesis by (rule that)
qed

lemma superblock_read_cached:
  assumes "super_ok s"
  obtains s' q where "superblock_read s = Some (Some (sb_of s), s')" and "st.silent s s'" and "points s' q 0"
proof -
  have o: "store_ok s" "0 < nblocks s" "btype (view s 0) = BLOCK_TYPE_SUPER" using assms by (simp_all add: super_ok_def)
  obtain q s' where g: "get_block s 0 0 = Some (q, s')" "deref s' q = Some (view s 0)" "st.silent s s'" "points s' q 0"
    by (rule st.get_load [OF o(1), of 0 0]) (use o in auto)
  then show thesis using o(3) by (intro that) (simp_all add: superblock_read_def sb_of_def)
qed

text \<open>
  A slot is open when its entry is synced, or was never used and the cache is on: then the stray write
  is undone when the superblock is written, and the replay comes to nothing.
\<close>

definition open_slot :: "fs \<Rightarrow> u64 \<Rightarrow> bool" where
  "open_slot s b \<longleftrightarrow> btype (view s b) = BLOCK_TYPE_JOURNAL \<and>
     (je_synced (view s b) \<or> \<not> cache_disabled s \<and> je_type (view s b) = UNINITIALIZED \<and> je_block (view s b) = 0)"

lemma sync_unused_ok:
  assumes ok: "store_ok s" and c: "\<not> cache_disabled s" and p: "points s p b" and q: "points s q 0"
    and ty: "je_type (view s b) = UNINITIALIZED" and bn: "je_block (view s b) = 0"
  obtains s' where "sync_entry J env s p = Some s'" and "st.keeps s s'" and "view s' = (view s)(b := set_je_synced True (view s b))"
    and "disk_image s' = (disk_image s)(0 := set_je_synced True (view s b))"
proof -
  let ?x = "set_je_synced True (view s b)"
  obtain s1 where s1: "assign s p ?x = Some s1" "st.changes s s1 b ?x" using st.store_changes [OF ok p] by blast
  note K = st.keepsD [OF st.changesD(1) [OF s1(2)]] and V = st.changesD(2,3) [OF s1(2)]
  have d: "deref s p = Some (view s b)" by (rule st.load_view [OF ok p])
  have d1: "deref s1 p = Some ?x" using st.load_view [OF K(1) K(4) [OF p]] V by simp
  have c1: "\<not> cache_disabled s1" using K(3) c by simp
  obtain s2 where s2: "locked_write s1 0 p = Some s2" "st.keeps s1 s2" "view s2 = view s1"
      "disk_image s2 = (disk_image s1)(unat (0 :: u64) := view s1 b)"
    by (rule stray_write [OF K(1) c1 K(4) [OF p] K(4) [OF q]])
  have "je_block ?x = 0" using bn by simp
  then have "sync_entry J env s p = Some s2"
    using d d1 s1(1) s2(1) by (simp add: sync_entry_def mark_entry_synced_def modify_def ty block_types)
  moreover have "st.keeps s s2" by (rule st.keeps_trans [OF st.changesD(1) [OF s1(2)] s2(2)])
  ultimately show thesis using V c s2(3,4) by (intro that) simp_all
qed

lemma copy_entry_unmarked: "copy_entry e (set_je_synced x b) = copy_entry e b"
  by (auto simp: copy_entry_def store_bytes_def layout fun_eq_iff)

lemma initialize_journal_entry_ok:
  assumes ok: "super_ok s" and prep: "prepare_entry s e = Some (e', s)" and jb: "unat (head_block s) < nblocks s"
    and op: "open_slot s (head_block s)"
  obtains s' where "initialize_journal_entry env s e = Some s'" and "st.keeps s s'"
    and "view s' = (view s)(0 := sb_store (next_head (sb_of s)) (view s 0),
      head_block s := copy_entry (set_je_block (head_block s) e') (view s (head_block s)))"
    and "disk_image s' = (disk_image s)(0 := sb_store (next_head (sb_of s)) (view s 0),
      unat (head_block s) := copy_entry (set_je_block (head_block s) e') (view s (head_block s)))"
proof -
  let ?jb = "head_block s"
  have o: "store_ok s" "0 < nblocks s" "btype (view s 0) = BLOCK_TYPE_SUPER" using ok by (simp_all add: super_ok_def)
  have ty: "btype (view s ?jb) = BLOCK_TYPE_JOURNAL" using op by (simp add: open_slot_def)
  then have j0: "?jb \<noteq> 0" using o(3) by (auto simp: block_types)
  obtain s1 q where s1: "superblock_read s = Some (Some (sb_of s), s1)" "st.silent s s1" "points s1 q 0"
    by (rule superblock_read_cached [OF ok])
  note K1 = st.keepsD(1,2) [OF st.silentD(1) [OF s1(2)]]
  obtain p s2 where s2: "get_block s1 0 ?jb = Some (p, s2)" "deref s2 p = Some (view s1 ?jb)" "st.silent s1 s2" "points s2 p ?jb"
    by (rule st.get_load [OF K1(1), of ?jb 0]) (use jb K1(2) in auto)
  note S = st.silent_trans [OF s1(2) s2(3)] and K2 = st.keepsD [OF st.silentD(1) [OF s2(3)]]
  have v2: "view s2 = view s" by (rule st.silentD(2) [OF S])
  have d2: "cache_disabled s2 = cache_disabled s" by (rule st.keepsD(3) [OF st.silentD(1) [OF S]])
  obtain s3 y z where s3: "(if \<not> je_synced (view s ?jb) then sync_entry (\<lambda>s e. initialize_journal_entry env s e) env s2 p else Some s2) = Some s3"
      "st.keeps s2 s3" "view s3 = (view s)(?jb := y)" "disk_image s3 = (disk_image s)(0 := z)"
      "\<And>e. copy_entry e y = copy_entry e (view s ?jb)"
  proof (cases "je_synced (view s ?jb)")
    case True
    then show ?thesis
      using that [of s2 "view s ?jb" "disk_image s 0"] st.silentD(1) [OF st.silent_refl [OF K2(1)]] v2 st.silentD(3) [OF S] by simp
  next
    case False
    then have "\<not> cache_disabled s2" "je_type (view s2 ?jb) = UNINITIALIZED" "je_block (view s2 ?jb) = 0"
      using op by (simp_all add: open_slot_def v2 d2)
    then obtain u where "sync_entry (\<lambda>s e. initialize_journal_entry env s e) env s2 p = Some u" "st.keeps s2 u"
        "view u = (view s2)(?jb := set_je_synced True (view s2 ?jb))" "disk_image u = (disk_image s2)(0 := set_je_synced True (view s2 ?jb))"
      by (rule sync_unused_ok [OF K2(1) _ s2(4) K2(4) [OF s1(3)]])
    with False show ?thesis
      by (intro that [of u "set_je_synced True (view s ?jb)" "set_je_synced True (view s ?jb)"])
        (simp_all only: v2 st.silentD(3) [OF S] copy_entry_unmarked not_False_eq_True if_True simp_thms)
  qed
  have v30: "view s3 0 = view s 0" using j0 by (simp add: s3(3))
  note K3 = st.keepsD [OF s3(2)]
  have "super_ok s3" using o K3(1,2) K2(2) K1(2) v30 by (simp add: super_ok_def)
  then obtain s4 where s4: "superblock_write s3 (next_head (sb_of s)) True = Some (0, s4)"
      "st.updates s3 s4 0 (sb_store (next_head (sb_of s)) (view s3 0))"
    by (rule head_write [of s3 "next_head (sb_of s)"]) simp_all
  note K4 = st.keepsD [OF st.updatesD(1) [OF s4(2)]]
  obtain s5 s6 where s6: "modify s4 p (\<lambda>b. Some (copy_entry (set_je_block ?jb e') b)) = Some s5" "locked_write s5 ?jb p = Some s6"
      "st.updates s4 s6 ?jb (copy_entry (set_je_block ?jb e') (view s4 ?jb))"
    by (rule modify_through [OF K4(1) K4(4) [OF K3(4) [OF s2(4)]], of "copy_entry (set_je_block ?jb e')"])
  have v4: "copy_entry x (view s4 ?jb) = copy_entry x (view s ?jb)" for x
    using st.updatesD(2) [OF s4(2)] j0 s3(5) by (simp add: s3(3))
  have "initialize_journal_entry env s e = Some s6"
    by (subst initialize_journal_entry.simps)
      (use prep s1(1) s2(1,2) st.silentD(2) [OF s1(2)] ty s3(1) s4(1) s6(1,2) in \<open>simp add: Let_def\<close>)
  moreover have "st.keeps s s6"
    using st.silentD(1) [OF S] s3(2) st.updatesD(1) [OF s4(2)] st.updatesD(1) [OF s6(3)] st.keeps_trans by meson
  moreover have "view s6 = (view s)(0 := sb_store (next_head (sb_of s)) (view s 0), ?jb := copy_entry (set_je_block ?jb e') (view s ?jb))"
    unfolding st.updatesD(2) [OF s6(3)] v4 unfolding st.updatesD(2) [OF s4(2)] v30 s3(3) by (simp add: fun_eq_iff)
  moreover have "disk_image s6 = (disk_image s)(0 := sb_store (next_head (sb_of s)) (view s 0),
      unat ?jb := copy_entry (set_je_block ?jb e') (view s ?jb))"
    unfolding st.updatesD(3) [OF s6(3)] v4 unfolding st.updatesD(3) [OF s4(2)] v30 s3(4) by (simp add: fun_eq_iff)
  ultimately show thesis by (rule that)
qed

section \<open>The pass at unmount\<close>

definition settled :: "block \<Rightarrow> bool" where
  "settled b \<longleftrightarrow> je_type b = UNINITIALIZED \<or> je_synced b"

text \<open>The ring lies on the disk, and an entry still to be synced knows its block.\<close>

definition ring_ok :: "fs \<Rightarrow> bool" where
  "ring_ok s \<longleftrightarrow> super_ok s \<and> 0 < ring_size (sb_of s) \<and> unat (journal_head (sb_of s)) < ring_size (sb_of s) \<and>
     unat (journal_start (sb_of s)) + ring_size (sb_of s) \<le> nblocks s \<and>
     (\<forall>h < ring_size (sb_of s). btype (view s (journal_start (sb_of s) + of_nat h)) = BLOCK_TYPE_JOURNAL \<and>
       (settled (view s (journal_start (sb_of s) + of_nat h)) \<or>
        je_block (view s (journal_start (sb_of s) + of_nat h)) = journal_start (sb_of s) + of_nat h))"

abbreviation slot :: "fs \<Rightarrow> nat \<Rightarrow> u64" where
  "slot s h \<equiv> journal_start (sb_of s) + of_nat h"

lemma ring_slot:
  assumes "ring_ok s" and "h < ring_size (sb_of s)"
  shows "unat (slot s h) = unat (journal_start (sb_of s)) + h" and "unat (slot s h) < nblocks s" and "slot s h \<noteq> 0"
    and "btype (view s (slot s h)) = BLOCK_TYPE_JOURNAL"
proof -
  have le: "unat (journal_start (sb_of s)) + ring_size (sb_of s) \<le> nblocks s" and "nblocks s \<le> 2 ^ 19"
    using assms(1) by (simp_all add: ring_ok_def super_ok_def store_ok_def addressable_def)
  then have h: "unat (journal_start (sb_of s)) + h < 2 ^ 64" using assms(2) by simp
  then have "unat (of_nat h :: u64) = h" by (intro unat_of_nat_small) simp
  then show u: "unat (slot s h) = unat (journal_start (sb_of s)) + h" using unat_add_lem [of "journal_start (sb_of s)" "of_nat h"] h by simp
  show "unat (slot s h) < nblocks s" using u le assms(2) by simp
  show t: "btype (view s (slot s h)) = BLOCK_TYPE_JOURNAL" using assms by (simp add: ring_ok_def)
  have "btype (view s 0) = BLOCK_TYPE_SUPER" using assms(1) by (simp add: ring_ok_def super_ok_def)
  with t show "slot s h \<noteq> 0" by (auto simp: block_types)
qed

lemma ring_slot_inj:
  assumes "ring_ok s" and "h < ring_size (sb_of s)" and "k < ring_size (sb_of s)"
  shows "slot s h = slot s k \<longleftrightarrow> h = k"
  using ring_slot(1) [OF assms(1,2)] ring_slot(1) [OF assms(1,3)] by (metis add_left_cancel)

text \<open>One step of the pass.\<close>

definition as_synced :: "block \<Rightarrow> block" where
  "as_synced b = (if settled b then b else set_je_synced True b)"

abbreviation marked_at :: "fs \<Rightarrow> block" where
  "marked_at s \<equiv> as_synced (view s (head_block s))"

lemma as_synced_settled: "settled (as_synced b)" and as_synced_again: "as_synced (as_synced b) = as_synced b"
proof -
  have "je_synced (set_je_synced True b)" for b by (simp add: store_bytes_def)
  then show "settled (as_synced b)" by (auto simp: as_synced_def settled_def)
  then show "as_synced (as_synced b) = as_synced b" by (simp add: as_synced_def [of "as_synced b"])
qed

lemma marked_at_block: "btype (marked_at s) = btype (view s (head_block s))" "settled (marked_at s)"
  using as_synced_settled by (simp_all add: as_synced_def)

lemma journal_pass_step:
  assumes R: "ring_ok s"
  obtains s' where "journal_pass mark_entry_synced (Suc r) s (sb_of s) = journal_pass mark_entry_synced r s' (sb_of s')"
    and "ring_ok s'" and "sb_of s' = next_head (sb_of s)" and "st.keeps s s'"
    and "view s' = (view s)(head_block s := marked_at s, 0 := sb_store (next_head (sb_of s)) (view s 0))"
    and "\<And>b. st.stale s' b \<Longrightarrow> st.stale s b"
    and "\<And>b. st.durable s b \<or> b = 0 \<or> b = head_block s \<and> \<not> settled (view s b) \<Longrightarrow> st.durable s' b"
    and "settled (view s (head_block s)) \<Longrightarrow> \<forall>f r. journal_pass f (Suc r) s (sb_of s) = journal_pass f r s' (sb_of s')"
proof -
  let ?h = "unat (journal_head (sb_of s))" and ?jb = "head_block s"
  have hd: "?h < ring_size (sb_of s)" and sok: "super_ok s" and ok: "store_ok s" and pos: "0 < ring_size (sb_of s)"
    using R by (simp_all add: ring_ok_def super_ok_def)
  note H = ring_slot [OF R hd, simplified]
  obtain p s1 where s1: "get_block s 0 ?jb = Some (p, s1)" "deref s1 p = Some (view s ?jb)" "st.silent s s1" "points s1 p ?jb"
    by (rule st.get_load [OF ok H(2)])
  note K1 = st.keepsD [OF st.silentD(1) [OF s1(3)]]
  have v1: "view s1 = view s" by (rule st.silentD(2) [OF s1(3)])
  obtain s2 where s2: "(if \<not> settled (view s ?jb) then mark_entry_synced s1 p else Some s1) = Some s2" "st.keeps s1 s2"
      "view s2 = (view s)(?jb := marked_at s)" "\<And>b. st.stale s2 b \<Longrightarrow> st.stale s1 b"
      "\<And>b. st.durable s1 b \<or> b = ?jb \<and> \<not> settled (view s b) \<Longrightarrow> st.durable s2 b"
  proof (cases "settled (view s ?jb)")
    case True
    then show ?thesis using st.silentD(1) [OF st.silent_refl [OF K1(1)]] v1
      by (intro that [of s1]) (auto simp: as_synced_def)
  next
    case False
    then have eb: "je_block (view s ?jb) = ?jb" using R hd by (auto simp: ring_ok_def)
    obtain a b where ab: "modify s1 p (\<lambda>x. Some (set_je_synced True x)) = Some a" "locked_write a ?jb p = Some b"
        "st.updates s1 b ?jb (set_je_synced True (view s1 ?jb))" "deref a p = Some (set_je_synced True (view s1 ?jb))"
      by (rule modify_through [OF K1(1) s1(4), of "set_je_synced True"])
    have "je_block (set_je_synced True (view s ?jb)) = ?jb" using eb by simp
    then have "mark_entry_synced s1 p = Some b" using ab(1,2,4) by (simp add: mark_entry_synced_def v1)
    then show ?thesis using False st.updatesD(1,2) [OF ab(3)] st.stale_updates [OF ab(3)] st.durable_updates [OF ab(3)] v1
      by (intro that [of b]) (auto simp: as_synced_def)
  qed
  have k2: "st.keeps s s2" by (rule st.keeps_trans [OF st.silentD(1) [OF s1(3)] s2(2)])
  have v20: "view s2 0 = view s 0" using s2(3) H(3) by simp
  then have sb2: "sb_of s2 = sb_of s" by (simp add: sb_of_def)
  have "super_ok s2" using sok st.keepsD(1,2) [OF k2] v20 by (simp add: super_ok_def)
  then obtain s3 where s3: "superblock_write s2 (next_head (sb_of s)) True = Some (0, s3)"
      "st.updates s2 s3 0 (sb_store (next_head (sb_of s)) (view s2 0))" "super_ok s3" "sb_of s3 = next_head (sb_of s)"
    by (rule head_write [of s2 "next_head (sb_of s)"]) simp_all
  have v3: "view s3 = (view s)(?jb := marked_at s, 0 := sb_store (next_head (sb_of s)) (view s 0))"
    using st.updatesD(2) [OF s3(2)] s2(3) v20 by simp
  have k3: "st.keeps s s3" by (rule st.keeps_trans [OF k2 st.updatesD(1) [OF s3(2)]])
  note mk = marked_at_block [of s]
  have "btype (view s3 (slot s h)) = BLOCK_TYPE_JOURNAL \<and> (settled (view s3 (slot s h)) \<or> je_block (view s3 (slot s h)) = slot s h)"
    if "h < ring_size (sb_of s)" for h
    using R that ring_slot(3) [OF R that] mk H(4) by (simp add: v3 ring_ok_def)
  then have "ring_ok s3"
    using R st.keepsD(2) [OF k3] s3(3) next_head_mod [OF pos hd] pos by (simp add: ring_ok_def s3(4))
  moreover have "journal_pass mark_entry_synced (Suc r) s (sb_of s) = journal_pass mark_entry_synced r s3 (sb_of s3)"
    using s1(1,2) H(4) s2(1) s3(1) by (auto simp: settled_def s3(4) split: if_splits)
  moreover have "\<forall>f r. journal_pass f (Suc r) s (sb_of s) = journal_pass f r s3 (sb_of s3)" if "settled (view s ?jb)"
  proof -
    have "s2 = s1" using s2(1) that by simp
    moreover have "\<not> (je_type (view s ?jb) \<noteq> UNINITIALIZED \<and> \<not> je_synced (view s ?jb))" using that by (auto simp: settled_def)
    ultimately show ?thesis using s1(1,2) H(4) s3(1) by (auto simp: s3(4))
  qed
  moreover have "st.stale s b" if "st.stale s3 b" for b
    using st.stale_silent [OF s1(3)] s2(4) st.stale_updates [OF s3(2)] that by blast
  moreover have "st.durable s3 b" if "st.durable s b \<or> b = 0 \<or> b = ?jb \<and> \<not> settled (view s b)" for b
    using st.durable_silent [OF s1(3)] s2(5) st.durable_updates [OF s3(2)] that by blast
  ultimately show thesis using that s3(4) k3 v3 by blast
qed

text \<open>After \<open>r\<close> steps, the \<open>r\<close> slots from the head on are marked, and no other block but the superblock has changed.\<close>

definition passed :: "fs \<Rightarrow> nat \<Rightarrow> nat \<Rightarrow> bool" where
  "passed s r h \<longleftrightarrow> (\<exists>k < r. h = (unat (journal_head (sb_of s)) + k) mod ring_size (sb_of s))"

lemma passed_Suc:
  assumes "0 < ring_size (sb_of s)" and "unat (journal_head (sb_of s)) < ring_size (sb_of s)" and "sb_of t = next_head (sb_of s)"
  shows "passed s (Suc r) h \<longleftrightarrow> h = unat (journal_head (sb_of s)) \<or> passed t r h"
proof -
  have "passed t r h \<longleftrightarrow> (\<exists>k < r. h = (unat (journal_head (sb_of s)) + Suc k) mod ring_size (sb_of s))"
    by (simp add: passed_def assms(3) next_head_mod [OF assms(1,2)] mod_simps)
  moreover have "passed s (Suc r) h \<longleftrightarrow> h = (unat (journal_head (sb_of s)) + 0) mod ring_size (sb_of s) \<or>
      (\<exists>k < r. h = (unat (journal_head (sb_of s)) + Suc k) mod ring_size (sb_of s))"
    unfolding passed_def by (rule Nat.Ex_less_Suc2)
  ultimately show ?thesis using assms(2) by simp
qed

lemma passed_all:
  assumes "unat (journal_head (sb_of s)) < ring_size (sb_of s)" and "h < ring_size (sb_of s)"
  shows "passed s (ring_size (sb_of s)) h"
proof (cases "unat (journal_head (sb_of s)) \<le> h")
  case True
  then show ?thesis using assms unfolding passed_def by (intro exI [of _ "h - unat (journal_head (sb_of s))"]) auto
next
  case False
  then show ?thesis using assms unfolding passed_def
    by (intro exI [of _ "ring_size (sb_of s) + h - unat (journal_head (sb_of s))"]) auto
qed

lemma journal_pass_ok:
  assumes "ring_ok s"
  shows "\<exists>s'. journal_pass mark_entry_synced r s (sb_of s) = Some s' \<and> ring_ok s' \<and> st.keeps s s' \<and>
    sb_of s' = (next_head ^^ r) (sb_of s) \<and>
    (\<forall>h < ring_size (sb_of s). view s' (slot s h) = (if passed s r h then as_synced (view s (slot s h)) else view s (slot s h))) \<and>
    (\<forall>b. b \<noteq> 0 \<and> (\<forall>h < ring_size (sb_of s). b \<noteq> slot s h) \<longrightarrow> view s' b = view s b) \<and>
    (\<forall>b. st.stale s' b \<longrightarrow> st.stale s b) \<and> (\<forall>b. st.durable s b \<longrightarrow> st.durable s' b) \<and>
    (\<forall>h < ring_size (sb_of s). passed s r h \<and> \<not> settled (view s (slot s h)) \<longrightarrow> st.durable s' (slot s h))"
  using assms
proof (induction r arbitrary: s)
  case 0
  have "store_ok s" using 0 by (simp add: ring_ok_def super_ok_def)
  then have "st.keeps s s" by (rule st.silentD(1) [OF st.silent_refl])
  with 0 show ?case by (auto simp: passed_def)
next
  case (Suc r)
  let ?N = "ring_size (sb_of s)" and ?h = "unat (journal_head (sb_of s))"
  have pos: "0 < ?N" and hd: "?h < ?N" using Suc.prems by (simp_all add: ring_ok_def)
  note H = ring_slot [OF Suc.prems hd, simplified]
  obtain s1 where s1: "journal_pass mark_entry_synced (Suc r) s (sb_of s) = journal_pass mark_entry_synced r s1 (sb_of s1)"
      "ring_ok s1" "sb_of s1 = next_head (sb_of s)" "st.keeps s s1"
      "view s1 = (view s)(head_block s := marked_at s, 0 := sb_store (next_head (sb_of s)) (view s 0))" "\<And>b. st.stale s1 b \<Longrightarrow> st.stale s b"
      "\<And>b. st.durable s b \<or> b = 0 \<or> b = head_block s \<and> \<not> settled (view s b) \<Longrightarrow> st.durable s1 b"
    by (rule journal_pass_step [OF Suc.prems, of r]) (rule that)
  have g: "slot s1 h = slot s h" "ring_size (sb_of s1) = ?N" for h by (simp_all add: s1(3))
  note p = passed_Suc [OF pos hd s1(3), of r]
  obtain s2 where s2: "journal_pass mark_entry_synced r s1 (sb_of s1) = Some s2" "ring_ok s2" "st.keeps s1 s2"
      "sb_of s2 = (next_head ^^ r) (sb_of s1)"
      "\<forall>h < ?N. view s2 (slot s h) = (if passed s1 r h then as_synced (view s1 (slot s h)) else view s1 (slot s h))"
      "\<forall>b. b \<noteq> 0 \<and> (\<forall>h < ?N. b \<noteq> slot s h) \<longrightarrow> view s2 b = view s1 b" "\<forall>b. st.stale s2 b \<longrightarrow> st.stale s1 b"
      "\<forall>b. st.durable s1 b \<longrightarrow> st.durable s2 b"
      "\<forall>h < ?N. passed s1 r h \<and> \<not> settled (view s1 (slot s h)) \<longrightarrow> st.durable s2 (slot s h)"
    using Suc.IH [OF s1(2)] unfolding g by blast
  have v: "view s1 (slot s h) = (if h = ?h then as_synced (view s (slot s h)) else view s (slot s h))" if h: "h < ?N" for h
  proof -
    have "slot s h = head_block s \<longleftrightarrow> h = ?h" using ring_slot_inj [OF Suc.prems h hd] by simp
    then show ?thesis using ring_slot(3) [OF Suc.prems h] by (simp add: s1(5))
  qed
  have "view s2 (slot s h) = (if passed s (Suc r) h then as_synced (view s (slot s h)) else view s (slot s h))" if h: "h < ?N" for h
    unfolding p s2(5) [rule_format, OF h] v [OF h] by (simp add: as_synced_again)
  moreover have "st.durable s2 (slot s h)" if h: "h < ?N" and a: "passed s (Suc r) h" "\<not> settled (view s (slot s h))" for h
  proof (cases "h = ?h")
    case True
    then have "slot s h = head_block s" by simp
    then show ?thesis using s1(7) a(2) s2(8) by simp
  next
    case False
    then show ?thesis using s2(9) h a v [OF h] by (simp add: p)
  qed
  moreover have "view s2 b = view s b" if b: "b \<noteq> 0" "\<forall>h < ?N. b \<noteq> slot s h" for b
  proof -
    have "b \<noteq> head_block s" using b(2) hd by auto
    then show ?thesis using s2(6) b by (simp add: s1(5))
  qed
  moreover have "sb_of s2 = (next_head ^^ Suc r) (sb_of s)" by (simp add: s2(4) s1(3) funpow_swap1)
  moreover have "\<forall>b. st.stale s2 b \<longrightarrow> st.stale s b" "\<forall>b. st.durable s b \<longrightarrow> st.durable s2 b" using s1(6,7) s2(7,8) by blast+
  ultimately show ?case using s1(1) s2(1,2) st.keeps_trans [OF s1(4) s2(3)] by (intro exI [of _ s2]) simp
qed

text \<open>A whole round brings the head back.\<close>

lemma head_round:
  assumes "0 < ring_size sb" and "unat (journal_head sb) < ring_size sb"
  shows "unat (journal_head ((next_head ^^ r) sb)) = (unat (journal_head sb) + r) mod ring_size sb" and "ring_size ((next_head ^^ r) sb) = ring_size sb"
    and "(next_head ^^ r) sb = sb\<lparr>journal_head := journal_head ((next_head ^^ r) sb)\<rparr>"
proof -
  have z: "ring_size ((next_head ^^ r) sb) = ring_size sb" for r by (induction r) simp_all
  show "ring_size ((next_head ^^ r) sb) = ring_size sb" by (rule z)
  show "unat (journal_head ((next_head ^^ r) sb)) = (unat (journal_head sb) + r) mod ring_size sb"
  proof (induction r)
    case (Suc r)
    have "unat (journal_head ((next_head ^^ r) sb)) < ring_size ((next_head ^^ r) sb)" using Suc.IH assms(1) by (simp add: z)
    then show ?case using next_head_mod [of "(next_head ^^ r) sb"] assms(1) Suc.IH by (simp add: z mod_simps)
  qed (use assms in simp)
  show "(next_head ^^ r) sb = sb\<lparr>journal_head := journal_head ((next_head ^^ r) sb)\<rparr>"
  proof (induction r)
    case (Suc r)
    have n: "next_head x = x\<lparr>journal_head := journal_head (next_head x)\<rparr>" for x by (simp add: next_head_def)
    obtain w where w: "(next_head ^^ r) sb = sb\<lparr>journal_head := w\<rparr>" using Suc.IH by blast
    show ?case using n [of "sb\<lparr>journal_head := w\<rparr>"] by (simp add: w)
  qed simp
qed

lemma mark_journal_synced_ok:
  assumes R: "ring_ok s"
  obtains s' where "mark_journal_synced s = Some s'" and "ring_ok s'" and "st.keeps s s'" and "sb_of s' = sb_of s"
    and "\<And>h. h < ring_size (sb_of s) \<Longrightarrow> view s' (slot s h) = as_synced (view s (slot s h))"
    and "\<And>b. b \<noteq> 0 \<Longrightarrow> \<forall>h < ring_size (sb_of s). b \<noteq> slot s h \<Longrightarrow> view s' b = view s b"
    and "\<And>b. st.stale s' b \<Longrightarrow> st.stale s b"
    and "\<And>h. h < ring_size (sb_of s) \<Longrightarrow> \<not> settled (view s (slot s h)) \<Longrightarrow> st.durable s' (slot s h)"
proof -
  let ?N = "ring_size (sb_of s)" and ?h = "unat (journal_head (sb_of s))"
  have pos: "0 < ?N" and hd: "?h < ?N" and o: "store_ok s" "0 < nblocks s" "btype (view s 0) = BLOCK_TYPE_SUPER"
    using R by (simp_all add: ring_ok_def super_ok_def)
  obtain s1 where s1: "superblock_read s = Some (Some (sb_of s), s1)" "st.silent s s1" by (rule superblock_read_valid [OF o])
  have v1: "view s1 = view s" and sb1: "sb_of s1 = sb_of s" using st.silentD(2) [OF s1(2)] by (simp_all add: sb_of_def)
  note k1 = st.silentD(1) [OF s1(2)]
  have R1: "ring_ok s1" using R st.keepsD(1,2) [OF k1] by (simp add: ring_ok_def super_ok_def v1 sb1)
  have all: "passed s1 ?N h" if "h < ?N" for h using passed_all [of s1 h] hd that by (simp add: sb1)
  obtain s2 where s2: "journal_pass mark_entry_synced ?N s1 (sb_of s) = Some s2" "ring_ok s2" "st.keeps s1 s2"
      "sb_of s2 = (next_head ^^ ?N) (sb_of s)"
      "\<forall>h < ?N. view s2 (slot s h) = (if passed s1 ?N h then as_synced (view s (slot s h)) else view s (slot s h))"
      "\<forall>b. b \<noteq> 0 \<and> (\<forall>h < ?N. b \<noteq> slot s h) \<longrightarrow> view s2 b = view s b" "\<forall>b. st.stale s2 b \<longrightarrow> st.stale s1 b"
      "\<forall>h < ?N. passed s1 ?N h \<and> \<not> settled (view s (slot s h)) \<longrightarrow> st.durable s2 (slot s h)"
    using journal_pass_ok [OF R1, of ?N] unfolding sb1 v1 by blast
  have "unat (journal_head (sb_of s2)) = ?h" using head_round(1) [OF pos hd, of ?N] hd by (simp add: s2(4))
  then have "journal_head (sb_of s2) = journal_head (sb_of s)" by (simp add: word_unat_eq_iff)
  then have sb2: "sb_of s2 = sb_of s" using head_round(3) [OF pos hd, of ?N] by (simp add: s2(4))
  have "mark_journal_synced s = Some s2" using s1(1) s2(1) by (simp add: mark_journal_synced_def ring_size_def)
  then show thesis
  proof (rule that [OF _ s2(2) st.keeps_trans [OF k1 s2(3)] sb2])
    show "st.stale s b" if "st.stale s2 b" for b using that s2(7) st.stale_silent [OF s1(2)] by blast
  qed (use s2(5,6,8) all in simp_all)
qed

text \<open>On a settled ring both passes only turn the ring once: nothing is replayed or marked.\<close>

definition all_settled :: "fs \<Rightarrow> bool" where
  "all_settled s \<longleftrightarrow> (\<forall>h < ring_size (sb_of s). settled (view s (slot s h)))"

lemma journal_pass_settled:
  assumes "ring_ok s" and "all_settled s"
  shows "\<exists>s'. (\<forall>f. journal_pass f r s (sb_of s) = Some s') \<and> ring_ok s' \<and> st.keeps s s' \<and>
    sb_of s' = (next_head ^^ r) (sb_of s) \<and> (\<forall>b. b \<noteq> 0 \<longrightarrow> view s' b = view s b) \<and> (\<forall>b. st.stale s' b \<longrightarrow> st.stale s b) \<and>
    (\<forall>b. st.durable s b \<longrightarrow> st.durable s' b)"
  using assms
proof (induction r arbitrary: s)
  case 0
  have "store_ok s" using 0 by (simp add: ring_ok_def super_ok_def)
  then have "st.keeps s s" by (rule st.silentD(1) [OF st.silent_refl])
  with 0 show ?case by auto
next
  case (Suc r)
  have hd: "unat (journal_head (sb_of s)) < ring_size (sb_of s)" using Suc.prems(1) by (simp add: ring_ok_def)
  have se: "settled (view s (head_block s))" using Suc.prems(2) hd by (auto simp: all_settled_def dest: spec [of _ "unat (journal_head (sb_of s))"])
  obtain s1 where s1: "ring_ok s1" "sb_of s1 = next_head (sb_of s)" "st.keeps s s1"
      "view s1 = (view s)(head_block s := marked_at s, 0 := sb_store (next_head (sb_of s)) (view s 0))"
      "\<forall>f r. journal_pass f (Suc r) s (sb_of s) = journal_pass f r s1 (sb_of s1)" "\<forall>b. st.stale s1 b \<longrightarrow> st.stale s b"
      "\<forall>b. st.durable s b \<longrightarrow> st.durable s1 b"
    by (rule journal_pass_step [OF Suc.prems(1), of r]) (use se in blast)
  have v1: "view s1 b = view s b" if "b \<noteq> 0" for b using se that by (simp add: s1(4) as_synced_def)
  then have "all_settled s1" using Suc.prems ring_slot(3) [OF Suc.prems(1)] by (simp add: all_settled_def s1(2))
  then obtain s2 where s2: "\<forall>f. journal_pass f r s1 (sb_of s1) = Some s2" "ring_ok s2" "st.keeps s1 s2"
      "sb_of s2 = (next_head ^^ r) (sb_of s1)" "\<forall>b. b \<noteq> 0 \<longrightarrow> view s2 b = view s1 b" "\<forall>b. st.stale s2 b \<longrightarrow> st.stale s1 b"
      "\<forall>b. st.durable s1 b \<longrightarrow> st.durable s2 b"
    using Suc.IH [OF s1(1)] by blast
  have "(next_head ^^ Suc r) (sb_of s) = (next_head ^^ r) (sb_of s1)" unfolding s1(2) by (simp add: funpow_swap1)
  with s1(5-7) s2 v1 st.keeps_trans [OF s1(3) s2(3)] show ?case by (intro exI [of _ s2]) (simp del: journal_pass.simps)
qed

lemma sync_journal_settled:
  assumes R: "ring_ok s" and S: "all_settled s"
  obtains s' where "sync_journal env s = Some s'" and "mark_journal_synced s = Some s'" and "ring_ok s'" and "st.keeps s s'"
    and "sb_of s' = sb_of s" and "\<And>b. b \<noteq> 0 \<Longrightarrow> view s' b = view s b" and "\<And>b. st.stale s' b \<Longrightarrow> st.stale s b"
    and "\<And>b. st.durable s b \<Longrightarrow> st.durable s' b"
proof -
  let ?N = "ring_size (sb_of s)" and ?h = "unat (journal_head (sb_of s))"
  have pos: "0 < ?N" and hd: "?h < ?N" and o: "store_ok s" "0 < nblocks s" "btype (view s 0) = BLOCK_TYPE_SUPER"
    using R by (simp_all add: ring_ok_def super_ok_def)
  obtain s1 where s1: "superblock_read s = Some (Some (sb_of s), s1)" "st.silent s s1" by (rule superblock_read_valid [OF o])
  have v1: "view s1 = view s" and sb1: "sb_of s1 = sb_of s" using st.silentD(2) [OF s1(2)] by (simp_all add: sb_of_def)
  note k1 = st.silentD(1) [OF s1(2)]
  have R1: "ring_ok s1" and S1: "all_settled s1"
    using R S st.keepsD(1,2) [OF k1] by (simp_all add: ring_ok_def super_ok_def all_settled_def v1 sb1)
  obtain s2 where s2: "\<forall>f. journal_pass f ?N s1 (sb_of s1) = Some s2" "ring_ok s2" "st.keeps s1 s2"
      "sb_of s2 = (next_head ^^ ?N) (sb_of s)" "\<forall>b. b \<noteq> 0 \<longrightarrow> view s2 b = view s b" "\<forall>b. st.stale s2 b \<longrightarrow> st.stale s1 b"
      "\<forall>b. st.durable s1 b \<longrightarrow> st.durable s2 b"
    using journal_pass_settled [OF R1 S1, of ?N] by (auto simp: sb1 v1)
  have "unat (journal_head (sb_of s2)) = ?h" using head_round(1) [OF pos hd, of ?N] hd by (simp add: s2(4))
  then have "journal_head (sb_of s2) = journal_head (sb_of s)" by (simp add: word_unat_eq_iff)
  then have "sb_of s2 = sb_of s" using head_round(3) [OF pos hd, of ?N] by (simp add: s2(4))
  note same = this
  have runs: "sync_journal env s = Some s2" "mark_journal_synced s = Some s2"
    using s1(1) s2(1) by (simp_all add: sync_journal_def mark_journal_synced_def ring_size_def sb1)
  have clean: "st.stale s b" if "st.stale s2 b" for b using that s2(6) st.stale_silent [OF s1(2)] by blast
  show thesis by (rule that [OF runs s2(2) st.keeps_trans [OF k1 s2(3)] same]) (simp add: s2(5), rule clean, use s2(7) st.durable_silent [OF s1(2)] in simp_all)
qed

section \<open>A slot that was never used\<close>

text \<open>Its block number is 0, the superblock, and that is where the replay writes it.\<close>

lemma sync_uninitialized:
  assumes ok: "store_ok s" and p: "points s p b" and n: "0 < nblocks s"
    and ty: "je_type (view s b) = UNINITIALIZED" and bn: "je_block (view s b) = 0"
  obtains s' where "sync_entry J env s p = Some s'" and "disk_image s' 0 = set_je_synced True (view s b)"
proof -
  let ?x = "set_je_synced True (view s b)"
  obtain s1 where s1: "assign s p ?x = Some s1" "st.changes s s1 b ?x" using st.store_changes [OF ok p] by blast
  note K = st.keepsD [OF st.changesD(1) [OF s1(2)]]
  have d: "deref s p = Some (view s b)" by (rule st.load_view [OF ok p])
  have d1: "deref s1 p = Some ?x" using st.load_view [OF K(1) K(4) [OF p]] st.changesD(2) [OF s1(2)] by simp
  have b0: "je_block ?x = 0" using bn by simp
  have "addressable s1" "\<not> lock_held s1" using K(1) by (simp_all add: store_ok_def)
  then have w: "locked_write s1 0 p = Some (s1\<lparr>disk := (disk s1)\<lparr>disk_base := (disk_base (disk s1))(0 := ?x)\<rparr>\<rparr>)"
    using locked_write_ok [of s1 0 p ?x] d1 n K(2) by simp
  have "sync_entry J env s p = Some (s1\<lparr>disk := (disk s1)\<lparr>disk_base := (disk_base (disk s1))(0 := ?x)\<rparr>\<rparr>)"
    using d d1 s1(1) b0 w by (simp add: sync_entry_def mark_entry_synced_def modify_def ty block_types)
  then show thesis by (rule that) (simp add: disk_image_def)
qed

end
