(* ===== verification/Volume.thy ===== *)
theory Volume
  imports Journal_Ring
begin

text \<open>
  A volume in operation: the allocator, the inode table and the journal lie in blocks that are in use
  and carry the right type tags. \<open>moves X s s'\<close> says that a step keeps this: every block in use stays in
  use and keeps its tag, and outside \<open>X\<close> its contents. The operations that allocate are composed from
  such steps.
\<close>

section \<open>Steps of a volume\<close>

definition used :: "fs \<Rightarrow> u64 \<Rightarrow> bool" where
  "used s b \<longleftrightarrow> unat b < nblocks s \<and> block_used s (unat b)"

definition shape :: "fs \<Rightarrow> u64 \<times> u64 \<times> u64 \<times> u64" where
  "shape s = (sb_total_blocks (sb_of s), btree_root (sb_of s), inode_bitmap (sb_of s), journal_start (sb_of s))"

definition moves :: "u64 set \<Rightarrow> fs \<Rightarrow> fs \<Rightarrow> bool" where
  "moves X s s' \<longleftrightarrow> st.keeps s s' \<and> shape s' = shape s \<and>
     (\<forall>b. used s b \<longrightarrow> used s' b \<and> btype (view s' b) = btype (view s b) \<and> (b \<notin> X \<longrightarrow> view s' b = view s b))"

lemma movesD:
  assumes "moves X s s'"
  shows "st.keeps s s'" and "shape s' = shape s" and "used s b \<Longrightarrow> used s' b"
    and "used s b \<Longrightarrow> btype (view s' b) = btype (view s b)" and "used s b \<Longrightarrow> b \<notin> X \<Longrightarrow> view s' b = view s b"
  using assms by (auto simp: moves_def)

lemma moves_trans: "moves X s t \<Longrightarrow> moves Y t u \<Longrightarrow> moves (X \<union> Y) s u"
  unfolding moves_def by (auto intro: st.keeps_trans)

lemma moves_mono: "moves X s t \<Longrightarrow> X \<subseteq> Y \<Longrightarrow> moves Y s t"
  by (auto simp: moves_def)

lemma moves_unused: "moves (X \<union> {d}) s t \<Longrightarrow> \<not> used s d \<Longrightarrow> moves X s t"
  by (auto simp: moves_def)

lemma shape_fields:
  assumes "shape s' = shape s"
  shows "btree_root (sb_of s') = btree_root (sb_of s)" and "inode_home s' m = inode_home s m" and "inode_bit_block s' m = inode_bit_block s m"
    and "ring_size (sb_of s') = ring_size (sb_of s)" and "slot s' h = slot s h" and "inode_bitmap (sb_of s') = inode_bitmap (sb_of s)"
  using assms
  by (simp_all add: shape_def inode_home_def inode_table_def inode_bit_block_def ring_size_def calculate_inode_bitmap_size_def calculate_journal_size_def)

text \<open>A volume with a table of at least \<open>M\<close> inodes.\<close>

definition sound :: "fs \<Rightarrow> nat \<Rightarrow> bool" where
  "sound s M \<longleftrightarrow> tree_volume s \<and> M \<le> 2 ^ 63 \<and>
     (\<forall>m < M. unat (inode_bitmap (sb_of s)) + m div USABLE_BLOCK_SIZE < nblocks s \<and> used s (inode_bit_block s m) \<and>
        btype (view s (inode_bit_block s m)) = BLOCK_TYPE_BITMAP \<and> (\<forall>j < nblocks s. inode_bit_block s m \<noteq> bitmap_block j) \<and>
        used s (inode_home s m) \<and> btype (view s (inode_home s m)) = BLOCK_TYPE_INODE) \<and>
     unat (journal_start (sb_of s)) + ring_size (sb_of s) \<le> nblocks s \<and>
     (\<forall>h < ring_size (sb_of s). used s (slot s h) \<and> btype (view s (slot s h)) = BLOCK_TYPE_JOURNAL)"

lemma soundD:
  assumes "sound s M"
  shows "tree_volume s" and "volume_ok s" and "store_ok s" and "super_ok s" and "used s 0" and "btype (view s 0) = BLOCK_TYPE_SUPER"
    and "j < nblocks s \<Longrightarrow> used s (bitmap_block j)" and "j < nblocks s \<Longrightarrow> btype (view s (bitmap_block j)) = BLOCK_TYPE_BITMAP"
    and "j < nblocks s \<Longrightarrow> bitmap_block j \<noteq> 0"
proof -
  show t: "tree_volume s" and v: "volume_ok s" using assms by (simp_all add: sound_def tree_volume_def)
  then show "store_ok s" "super_ok s" "used s 0" "btype (view s 0) = BLOCK_TYPE_SUPER"
    by (simp_all add: volume_ok_def super_ok_def used_def tree_volume_def)
  show "j < nblocks s \<Longrightarrow> used s (bitmap_block j)" "j < nblocks s \<Longrightarrow> btype (view s (bitmap_block j)) = BLOCK_TYPE_BITMAP"
    "j < nblocks s \<Longrightarrow> bitmap_block j \<noteq> 0"
    using t v unat_bitmap_block [OF v] by (simp_all add: used_def tree_volume_def volume_ok_def)
qed

lemma sound_inode:
  assumes "sound s M" and "m < M"
  shows "inode_ok s m" and "inode_map_ok s m" and "used s (inode_home s m)" and "used s (inode_bit_block s m)" and "m < 2 ^ 63"
    and "btype (view s (inode_home s m)) = BLOCK_TYPE_INODE" and "btype (view s (inode_bit_block s m)) = BLOCK_TYPE_BITMAP"
    and "j < nblocks s \<Longrightarrow> inode_bit_block s m \<noteq> bitmap_block j"
proof -
  note D = soundD [OF assms(1)]
  show m: "m < 2 ^ 63" using assms by (simp add: sound_def)
  show "used s (inode_home s m)" "used s (inode_bit_block s m)" "btype (view s (inode_home s m)) = BLOCK_TYPE_INODE"
    "btype (view s (inode_bit_block s m)) = BLOCK_TYPE_BITMAP" "j < nblocks s \<Longrightarrow> inode_bit_block s m \<noteq> bitmap_block j"
    using assms by (simp_all add: sound_def)
  then show "inode_ok s m" using m D(2,3,6) by (simp add: inode_ok_def used_def volume_ok_def)
  show "inode_map_ok s m" using assms m by (auto simp: sound_def inode_map_ok_def)
qed

text \<open>Inode numbers fit an \<^verbatim>\<open>int\<close>: their bits lie on the disk.\<close>

lemma sound_small:
  assumes "sound s M" and "m < M"
  shows "m < 2 ^ 31"
proof -
  have "nblocks s \<le> 2 ^ 19" using soundD(3) [OF assms(1)] by (simp add: store_ok_def addressable_def)
  moreover have "m div 4092 < nblocks s" using assms by (auto simp: sound_def layout)
  ultimately have "m div 4092 < 2 ^ 19" by linarith
  then show ?thesis by (simp add: div_less_iff_less_mult)
qed

lemma sound_moves:
  assumes "sound s M" and "moves X s s'"
  shows "sound s' M"
proof -
  note D = soundD [OF assms(1)] and F = movesD [OF assms(2)] and K = st.keepsD [OF movesD(1) [OF assms(2)]]
  note S = shape_fields [OF F(2)]
  have V: "1 + i div USABLE_BLOCK_SIZE < nblocks s" if "i < nblocks s" for i using D(2) that by (simp add: volume_ok_def)
  have B: "used s' (bitmap_block j)" "btype (view s' (bitmap_block j)) = BLOCK_TYPE_BITMAP" if "j < nblocks s" for j
    using D(7,8) [OF that] F(3,4) by simp_all
  have "used s' 0" "btype (view s' 0) = BLOCK_TYPE_SUPER" using D(5,6) F(3,4) by simp_all
  then have "volume_ok s'" using D(2) K(1,2) V B(2) by (simp add: volume_ok_def)
  with \<open>used s' 0\<close> have "tree_volume s'" using B(1) K(2) by (simp add: tree_volume_def used_def)
  moreover have "used s' (slot s h) \<and> btype (view s' (slot s h)) = BLOCK_TYPE_JOURNAL" if "h < ring_size (sb_of s)" for h
    using assms(1) that F(3,4) by (simp add: sound_def)
  moreover have "used s' (inode_bit_block s m) \<and> btype (view s' (inode_bit_block s m)) = BLOCK_TYPE_BITMAP \<and>
      used s' (inode_home s m) \<and> btype (view s' (inode_home s m)) = BLOCK_TYPE_INODE" if "m < M" for m
    using sound_inode [OF assms(1) that] F(3,4) by simp
  moreover have "journal_start (sb_of s') = journal_start (sb_of s)" using F(2) by (simp add: shape_def)
  ultimately show ?thesis
    using assms(1) K(2) sound_inode(8) [OF assms(1)] unfolding sound_def by (auto simp: S)
qed

section \<open>What a step keeps\<close>

lemma moves_block_used:
  assumes "sound s M" and "moves X s s'" and "j < nblocks s" and "bitmap_block j \<notin> X"
  shows "block_used s' j = block_used s j"
  using movesD(5) [OF assms(2) soundD(7) [OF assms(1,3)] assms(4)] by (simp add: block_used_def)

lemma moves_inode:
  assumes "sound s M" and "moves X s s'" and "m < M"
  shows "inode_home s m \<notin> X \<Longrightarrow> inode_of s' m = inode_of s m" and "inode_bit_block s m \<notin> X \<Longrightarrow> inode_used s' m = inode_used s m"
  using movesD(5) [OF assms(2) sound_inode(3) [OF assms(1,3)]] movesD(5) [OF assms(2) sound_inode(4) [OF assms(1,3)]]
    shape_fields [OF movesD(2) [OF assms(2)]]
  by (simp_all add: inode_of_def inode_used_def)

lemma moves_flat:
  assumes "flat_at s b ps" and "moves X s s'" and "X \<inter> insert b (snd ` set ps) = {}"
  shows "flat_at s' b ps"
proof (rule flat_at_cong [OF assms(1)])
  fix c assume c: "c \<in> insert b (snd ` set ps)"
  note B = flat_at_blocks [OF assms(1) c]
  have u: "used s c" using B by (simp add: used_def)
  have "view s' c = view s c" by (rule movesD(5) [OF assms(2) u]) (use assms(3) c in blast)
  then show "is_node s' c \<and> node_at s' c = node_at s c \<and> block_used s' (unat c)"
    using B movesD(3) [OF assms(2) u] st.keepsD(2) [OF movesD(1) [OF assms(2)]] by (simp add: is_node_def node_at_def used_def)
qed

lemma moves_node:
  assumes "is_node s c" and "used s c" and "moves X s s'" and "c \<notin> X"
  shows "is_node s' c" and "node_at s' c = node_at s c"
  using assms movesD(5) [OF assms(3,2,4)] st.keepsD(2) [OF movesD(1) [OF assms(3)]] by (simp_all add: is_node_def node_at_def)

section \<open>The steps\<close>

lemma moves_silent:
  assumes "st.silent s s'"
  shows "moves {} s s'"
proof -
  note v = st.silentD(2) [OF assms] and k = st.silentD(1) [OF assms]
  show ?thesis using k st.keepsD(2) [OF k] by (simp add: moves_def shape_def used_def block_used_def sb_of_def v)
qed

lemma moves_marked:
  assumes S: "sound s M" and m: "marked s s' i True" and i: "i < nblocks s"
  shows "moves {0, bitmap_block i} s s'"
proof -
  have k: "st.keeps s s'" and vo: "volume_ok s'" and u: "\<And>j. j < nblocks s \<Longrightarrow> block_used s' j = (j = i \<or> block_used s j)"
      and sb: "sb_of s' = (sb_of s)\<lparr>free_blocks := free_blocks (sb_of s) - 1\<rparr>"
      and v: "\<And>b. b \<noteq> 0 \<Longrightarrow> b \<noteq> bitmap_block i \<Longrightarrow> view s' b = view s b"
    using m by (auto simp: marked_def)
  note n = st.keepsD(2) [OF k] and D = soundD [OF S]
  have "btype (view s' b) = btype (view s b)" for b
    using v [of b] vo D(6,8) i n by (cases "b = 0 \<or> b = bitmap_block i") (auto simp: volume_ok_def)
  with k u v n show ?thesis by (auto simp: moves_def used_def shape_def sb)
qed

text \<open>A step that gives one block outside the allocator new contents.\<close>

lemma moves_one:
  assumes S: "sound s M" and k: "st.keeps s s'" and v: "view s' = (view s)(b := x)" and ty: "btype x = btype (view s b)"
    and b: "b \<noteq> 0" "\<And>j. j < nblocks s \<Longrightarrow> b \<noteq> bitmap_block j"
  shows "moves {b} s s'"
proof -
  have "sb_of s' = sb_of s" using b(1) by (simp add: sb_of_def v)
  moreover have "block_used s' j = block_used s j" if "j < nblocks s" for j using b(2) [OF that] by (auto simp: block_used_def v)
  ultimately show ?thesis using k st.keepsD(2) [OF k] ty by (auto simp: moves_def used_def shape_def v)
qed

text \<open>New contents for a block that was free before: its tag may change too.\<close>

lemma moves_fresh:
  assumes S: "sound s M" and m: "moves X s t" and b: "\<not> used s b" and k: "st.keeps t u" and v: "view u = (view t)(b := x)"
  shows "moves X s u"
proof -
  note D = soundD [OF S] and St = soundD [OF sound_moves [OF S m]] and K = st.keepsD [OF movesD(1) [OF m]]
  have b0: "b \<noteq> 0" using b D(5) by auto
  have "b \<noteq> bitmap_block j" if "j < nblocks s" for j using b D(7) [OF that] by auto
  then have "block_used u j = block_used t j" if "j < nblocks t" for j using that K(2) by (auto simp: block_used_def v)
  then have us: "used u c = used t c" for c using st.keepsD(2) [OF k] by (auto simp: used_def)
  have sb: "sb_of u = sb_of t" using b0 by (simp add: sb_of_def v)
  have "view u c = view t c" if "used s c" for c using that b by (auto simp: v)
  with m us show ?thesis unfolding moves_def shape_def sb by (auto intro: st.keeps_trans [OF _ k])
qed

lemma not_bitmap:
  assumes "sound s M" and "btype (view s b) \<noteq> BLOCK_TYPE_BITMAP" and "btype (view s b) \<noteq> BLOCK_TYPE_SUPER"
  shows "b \<noteq> 0" and "j < nblocks s \<Longrightarrow> b \<noteq> bitmap_block j"
  using assms soundD(6,8) [OF assms(1)] by auto

lemma moves_inode_block:
  assumes S: "sound s M" and n: "n < M" and k: "st.keeps s s'" and len: "length (direct_blocks i) = 12"
    and v: "view s' = (view s)(inode_home s n := inode_store i (view s (inode_home s n)) (n mod inode_per_page))"
  shows "moves {inode_home s n} s s'"
  by (rule moves_one [OF S k v])
    (use not_bitmap [OF S, of "inode_home s n"] sound_inode(6) [OF S n] btype_inode_store [OF len] in \<open>auto simp: block_types\<close>)

lemma moves_claimed:
  assumes S: "sound s M" and n: "n < M" and c: "inode_claimed s s' n i wt"
  shows "moves {inode_bit_block s n, inode_home s n} s s'"
proof -
  have k: "st.keeps s s'" and sb: "sb_of s' = sb_of s" and ty: "\<And>b. btype (view s' b) = btype (view s b)"
      and v: "\<And>b. b \<noteq> inode_bit_block s n \<Longrightarrow> b \<noteq> inode_home s n \<Longrightarrow> view s' b = view s b"
    using c by (auto simp: inode_claimed_def)
  have "view s' (bitmap_block j) = view s (bitmap_block j)" if "j < nblocks s" for j
    using sound_inode(6) [OF S n] sound_inode(8) [OF S n that] soundD(8) [OF S that] by (intro v) (auto simp: block_types)
  with k ty v st.keepsD(2) [OF k] show ?thesis by (auto simp: moves_def used_def block_used_def shape_def sb)
qed

section \<open>Allocating\<close>

definition free_set :: "fs \<Rightarrow> nat set" where
  "free_set s = {j. j < nblocks s \<and> \<not> block_used s j}"

lemma free_set_finite [simp]: "finite (free_set s)"
  by (simp add: free_set_def)

lemma first_free_some:
  assumes "free_set s \<noteq> {}"
  obtains i where "first_free s = Some i" and "i \<in> free_set s"
proof (cases "first_free s")
  case None
  then show thesis using assms by (auto simp: first_free_def find_None_iff free_set_def)
next
  case (Some i)
  then have "i \<in> free_set s" by (auto simp: first_free_def find_Some_iff free_set_def)
  with Some show thesis by (rule that)
qed

lemma free_word:
  assumes "store_ok s" and "i \<in> free_set s"
  shows "unat (of_nat i :: u64) = i" and "\<not> used s (of_nat i)"
proof -
  show "unat (of_nat i :: u64) = i"
    using assms by (intro unat_of_nat_small) (auto simp: free_set_def store_ok_def addressable_def)
  then show "\<not> used s (of_nat i)" using assms(2) by (simp add: used_def free_set_def)
qed

lemma alloc_moves:
  assumes S: "sound s M" and fr: "free_set s \<noteq> {}"
  obtains i s' where "alloc_page s = Some (of_nat i, s')" and "first_free s = Some i" and "i \<in> free_set s" and "of_nat i \<noteq> (0 :: u64)"
    and "moves {0, bitmap_block i} s s'" and "used s' (of_nat i)" and "free_set s' = free_set s - {i}"
    and "journal_head (sb_of s') = journal_head (sb_of s)" and "view s' (of_nat i) = view s (of_nat i)"
proof -
  note D = soundD [OF S]
  obtain i where i: "first_free s = Some i" "i \<in> free_set s" by (rule first_free_some [OF fr])
  have il: "i < nblocks s" using i(2) by (simp add: free_set_def)
  note w = free_word [OF D(3) i(2)]
  obtain s' where a: "alloc_page s = Some (of_nat i, s')" and m: "marked s s' i True" using alloc_page_ok [OF D(2)] i(1) by auto
  have f0: "of_nat i \<noteq> (0 :: u64)" using w(2) D(5) by auto
  have fb: "of_nat i \<noteq> bitmap_block i" using w(2) D(7) [OF il] by auto
  have mv: "moves {0, bitmap_block i} s s'" by (rule moves_marked [OF S m il])
  have u: "\<And>j. j < nblocks s \<Longrightarrow> block_used s' j = (j = i \<or> block_used s j)" and n: "nblocks s' = nblocks s"
      and sb: "sb_of s' = (sb_of s)\<lparr>free_blocks := free_blocks (sb_of s) - 1\<rparr>" and v: "view s' (of_nat i) = view s (of_nat i)"
    using m f0 fb st.keepsD(2) by (auto simp: marked_def)
  show thesis
    by (rule that [OF a i f0 mv _ _ _ v]) (use u n w il sb in \<open>auto simp: used_def free_set_def\<close>)
qed

text \<open>A step outside the block bitmap takes no block.\<close>

lemma moves_free_set:
  assumes "sound s M" and "moves X s s'" and "\<And>j. j < nblocks s \<Longrightarrow> bitmap_block j \<notin> X"
  shows "free_set s' = free_set s"
  using moves_block_used [OF assms(1,2)] assms(3) st.keepsD(2) [OF movesD(1) [OF assms(2)]] by (auto simp: free_set_def)

section \<open>Inodes\<close>

lemma inode_write_moves:
  assumes S: "sound s M" and n: "n < M" and num: "inode_number i = of_nat n" and len: "length (direct_blocks i) = 12"
  obtains s' where "inode_write s i wt = Some (0, s')" and "moves {inode_home s n} s s'" and "inode_of s' n = i"
    and "\<And>m. m < M \<Longrightarrow> m \<noteq> n \<Longrightarrow> inode_of s' m = inode_of s m" and "sb_of s' = sb_of s" and "\<And>b. b \<noteq> inode_home s n \<Longrightarrow> view s' b = view s b"
proof -
  note io = sound_inode(1) [OF S n] and n63 = sound_inode(5) [OF S n]
  let ?h = "inode_home s n"
  let ?x = "inode_store i (view s ?h) (n mod inode_per_page)"
  obtain s' where w: "inode_write s i wt = Some (0, s')" "if wt then st.updates s s' ?h ?x else st.changes s s' ?h ?x"
    by (rule inode_write_ok [OF io num])
  have k: "st.keeps s s'" and v: "view s' = (view s)(?h := ?x)" using w(2) by (auto simp: st.changesD st.updatesD split: if_splits)
  note E = inode_write_effect [OF io len k v]
  show thesis
    by (rule that [OF w(1) moves_inode_block [OF S n k len v]]) (use E(1,4) n63 sound_inode(5) [OF S] v in auto)
qed

text \<open>Writing an inode touches neither bitmap, data nor journal.\<close>

lemma inode_home_tag:
  assumes "sound s M" and "n < M"
  shows "btype (view s b) \<noteq> BLOCK_TYPE_INODE \<Longrightarrow> b \<noteq> inode_home s n"
  using sound_inode(6) [OF assms] by auto

section \<open>The journal ahead\<close>

text \<open>The next \<open>k\<close> slots of the journal, from the head on, are open.\<close>

definition open_ahead :: "fs \<Rightarrow> nat \<Rightarrow> bool" where
  "open_ahead s k \<longleftrightarrow> unat (journal_head (sb_of s)) < ring_size (sb_of s) \<and> k \<le> ring_size (sb_of s) \<and>
     (\<forall>j < k. open_slot s (slot s ((unat (journal_head (sb_of s)) + j) mod ring_size (sb_of s))))"

lemma open_ahead_head:
  assumes "open_ahead s (Suc k)"
  shows "open_slot s (head_block s)"
proof -
  have h: "unat (journal_head (sb_of s)) < ring_size (sb_of s)"
      and o: "\<And>j. j < Suc k \<Longrightarrow> open_slot s (slot s ((unat (journal_head (sb_of s)) + j) mod ring_size (sb_of s)))"
    using assms by (auto simp: open_ahead_def)
  show ?thesis using o [of 0] h by simp
qed

lemma open_moves:
  assumes o: "open_ahead s k" and S: "sound s M" and m: "moves X s s'" and h: "journal_head (sb_of s') = journal_head (sb_of s)"
    and X: "\<And>b. b \<in> X \<Longrightarrow> used s b \<Longrightarrow> btype (view s b) \<noteq> BLOCK_TYPE_JOURNAL"
  shows "open_ahead s' k"
proof -
  note Sh = shape_fields [OF movesD(2) [OF m]]
  have "open_slot s' (slot s j) = open_slot s (slot s j)" if "j < ring_size (sb_of s)" for j
  proof -
    have u: "used s (slot s j)" "btype (view s (slot s j)) = BLOCK_TYPE_JOURNAL" using S that by (simp_all add: sound_def)
    then have "view s' (slot s j) = view s (slot s j)" using X by (intro movesD(5) [OF m]) auto
    then show ?thesis using st.keepsD(3) [OF movesD(1) [OF m]] by (simp add: open_slot_def)
  qed
  moreover have "0 < ring_size (sb_of s)" using o by (auto simp: open_ahead_def)
  ultimately show ?thesis using o by (simp add: open_ahead_def h Sh)
qed

lemma journal_moves:
  assumes S: "sound s M" and op: "open_ahead s (Suc k)" and prep: "prepare_entry s e = Some (e', s)"
  obtains s' where "initialize_journal_entry env s e = Some s'" and "moves {0, head_block s} s s'" and "open_ahead s' k"
    and "free_set s' = free_set s"
    and "view s' (head_block s) = copy_entry (set_je_block (head_block s) e') (view s (head_block s))"
    and "disk_image s' (unat (head_block s)) = view s' (head_block s)"
proof -
  let ?h = "unat (journal_head (sb_of s))" and ?N = "ring_size (sb_of s)" and ?jb = "head_block s"
  note D = soundD [OF S]
  have h: "?h < ?N" "Suc k \<le> ?N" and o: "\<And>j. j < Suc k \<Longrightarrow> open_slot s (slot s ((?h + j) mod ?N))"
    using op by (auto simp: open_ahead_def)
  have sl: "used s (slot s j)" "btype (view s (slot s j)) = BLOCK_TYPE_JOURNAL" if "j < ?N" for j
    using S that by (simp_all add: sound_def)
  have jb: "?jb = slot s ?h" by simp
  have u: "used s ?jb" "btype (view s ?jb) = BLOCK_TYPE_JOURNAL" unfolding jb by (rule sl [OF h(1)])+
  have o0: "open_slot s ?jb" by (rule open_ahead_head [OF op])
  have lim: "unat ?jb < nblocks s" using u(1) by (simp add: used_def)
  let ?x = "copy_entry (set_je_block ?jb e') (view s ?jb)"
  obtain s' where s': "initialize_journal_entry env s e = Some s'" "st.keeps s s'"
      "view s' = (view s)(0 := sb_store (next_head (sb_of s)) (view s 0), ?jb := ?x)"
      "disk_image s' = (disk_image s)(0 := sb_store (next_head (sb_of s)) (view s 0), unat ?jb := ?x)"
    by (rule initialize_journal_entry_ok [OF D(4) prep lim o0])
  note K = st.keepsD [OF s'(2)]
  have j0: "?jb \<noteq> 0" using u(2) D(6) by (auto simp: block_types)
  have v0: "view s' 0 = sb_store (next_head (sb_of s)) (view s 0)" using j0 by (simp add: s'(3))
  then have sb: "sb_of s' = next_head (sb_of s)" by (simp add: sb_of_def [of s'] sb_load_store)
  have ty: "btype (view s' b) = btype (view s b)" for b
    using j0 by (simp add: s'(3) sb_store_def Let_def layout)
  have bb: "view s' (bitmap_block j) = view s (bitmap_block j)" if "j < nblocks s" for j
    using D(8,9) [OF that] u(2) by (auto simp: s'(3) block_types)
  then have us: "block_used s' j = block_used s j" if "j < nblocks s" for j using that by (simp add: block_used_def)
  have mv: "moves {0, ?jb} s s'"
    using s'(2) ty us K(2) by (auto simp: moves_def used_def shape_def sb s'(3))
  have hd: "unat (journal_head (sb_of s')) = (?h + 1) mod ?N"
    unfolding sb using h(1) by (intro next_head_mod) auto
  have ahead: "open_slot s' (slot s' ((unat (journal_head (sb_of s')) + j) mod ?N))" if j: "j < k" for j
  proof -
    have e: "((?h + 1) mod ?N + j) mod ?N = (?h + Suc j) mod ?N" by (simp add: mod_add_left_eq)
    let ?i = "(?h + Suc j) mod ?N"
    have i: "?i < ?N" using h(1) by (intro mod_less_divisor) simp
    have "?i \<noteq> ?h"
    proof (cases "?h + Suc j < ?N")
      case False
      then have "?i = ?h + Suc j - ?N" using h j by (simp add: le_mod_geq)
      then show ?thesis using False h j by linarith
    qed simp
    moreover have "unat (journal_start (sb_of s)) + ?N \<le> nblocks s" using S by (simp add: sound_def)
    moreover have "nblocks s \<le> 2 ^ 19" using D(3) by (simp add: store_ok_def addressable_def)
    ultimately have "?N < 2 ^ 64" "?i \<noteq> ?h" by simp_all
    then have "?i < 2 ^ 64" "?h < 2 ^ 64" "?i \<noteq> ?h" using less_trans [OF i] less_trans [OF h(1)] by simp_all
    then have "(of_nat ?i :: u64) \<noteq> of_nat ?h" using of_nat_u64_inj by blast
    then have ne: "slot s ?i \<noteq> ?jb" unfolding jb by simp
    have "slot s ?i \<noteq> 0" using sl(2) [OF i] D(6) by (auto simp: block_types)
    then have "view s' (slot s ?i) = view s (slot s ?i)" using ne by (simp add: s'(3))
    moreover have "open_slot s (slot s ?i)" using o [of "Suc j"] j by simp
    ultimately have "open_slot s' (slot s ?i)" using K(3) by (simp add: open_slot_def)
    then show ?thesis by (simp only: hd e) (simp add: sb)
  qed
  show thesis
  proof (rule that [OF s'(1) mv])
    show "open_ahead s' k"
      using ahead h by (simp add: open_ahead_def sb hd [unfolded sb])
    show "free_set s' = free_set s" using us K(2) by (auto simp: free_set_def)
  qed (simp_all add: s'(3,4))
qed

section \<open>Entering a name in a tree of one level\<close>

lemma insert_moves:
  assumes S: "sound s M" and fr: "free_set s \<noteq> {}" and fl: "flat_at s b ps" and len: "length ps < MAX_KEYS" and new: "k \<notin> fst ` set ps"
  obtains i s' where "btree_insert s b k v ty = Some (0, s')" and "i \<in> free_set s"
    and "moves ({0, bitmap_block i} \<union> {c. is_node s c}) s s'" and "flat_at s' b (with_leaf ps k (of_nat i))"
    and "n_value (node_at s' (of_nat i)) = v" and "file_type (node_at s' (of_nat i)) = ty"
    and "free_set s' = free_set s - {i}" and "journal_head (sb_of s') = journal_head (sb_of s)"
    and "\<And>c. c \<noteq> b \<Longrightarrow> used s c \<Longrightarrow> is_node s c \<Longrightarrow> is_node s' c \<and> node_at s' c = node_at s c"
    and "n_value (node_at s' b) = n_value (node_at s b)" and "block_number (node_at s' b) = b"
proof -
  note D = soundD [OF S]
  obtain i where i: "first_free s = Some i" "i \<in> free_set s" by (rule first_free_some [OF fr])
  have il: "i < nblocks s" using i(2) by (simp add: free_set_def)
  note w = free_word [OF D(3) i(2)]
  obtain s' where B: "btree_insert s b k v ty = Some (0, s')" "tree_volume s'" "flat_at s' b (with_leaf ps k (of_nat i))"
      "n_value (node_at s' (of_nat i)) = v" "file_type (node_at s' (of_nat i)) = ty"
      "\<And>c. c \<noteq> b \<Longrightarrow> c \<noteq> of_nat i \<Longrightarrow> is_node s c \<Longrightarrow> is_node s' c \<and> node_at s' c = node_at s c"
      "\<And>j. j < nblocks s \<Longrightarrow> block_used s' j = (j = i \<or> block_used s j)" "nblocks s' = nblocks s" "st.keeps s s'"
      "sb_of s' = (sb_of s)\<lparr>free_blocks := free_blocks (sb_of s) - 1\<rparr>"
      "\<And>c. c \<noteq> 0 \<Longrightarrow> c \<noteq> bitmap_block i \<Longrightarrow> c \<noteq> of_nat i \<Longrightarrow> \<not> is_node s c \<Longrightarrow> view s' c = view s c"
      "n_value (node_at s' b) = n_value (node_at s b)"
    by (rule btree_insert_flat [OF D(1) i(1) fl len new, of v ty]) (rule that)
  have nb: "is_node s' b" using flat_at_blocks(1) [OF B(3), of b] by simp
  have vo: "volume_ok s'" using B(2) by (simp add: tree_volume_def)
  have "btype (view s' c) = btype (view s c) \<and> (c \<notin> {0, bitmap_block i} \<union> {c. is_node s c} \<longrightarrow> view s' c = view s c)" if c: "used s c" for c
  proof -
    have ci: "c \<noteq> of_nat i" using c w by auto
    consider "c = 0" | "c = bitmap_block i" | "is_node s c" | "c \<noteq> 0" "c \<noteq> bitmap_block i" "\<not> is_node s c" by blast
    then show ?thesis
    proof cases
      case 3
      then have "is_node s' c" using B(6) [OF _ ci] nb by (cases "c = b") auto
      with 3 show ?thesis by (simp add: is_node_def)
    qed (use vo D(6,8) il B(8,11) ci in \<open>auto simp: volume_ok_def\<close>)
  qed
  moreover have "used s' c" if "used s c" for c using that B(7,8) by (simp add: used_def)
  ultimately have "moves ({0, bitmap_block i} \<union> {c. is_node s c}) s s'" using B(9,10) by (simp add: moves_def shape_def)
  moreover have "free_set s' = free_set s - {i}" using B(7,8) by (auto simp: free_set_def)
  moreover have "is_node s' c \<and> node_at s' c = node_at s c" if "c \<noteq> b" "used s c" "is_node s c" for c using B(6) that w by auto
  moreover have "block_number (node_at s' b) = b" using B(3) by (simp add: flat_at_def root_at_def)
  ultimately show thesis using B i by (intro that [of s' i]) auto
qed

end
