(* ===== verification/Btree_Walk.thy ===== *)
theory Btree_Walk
  imports Btree_Flat
begin

text \<open>
  The two walks \<^verbatim>\<open>directory.c\<close> makes over the tree of a directory: \<open>btree_write\<close> brings every node up to
  date on disk, \<open>btree_print\<close> reads every node. On a tree of one level both end and change no contents.
\<close>

section \<open>Writing a tree through\<close>

text \<open>\<open>written s s' C\<close>: exactly the blocks \<open>C\<close> were brought up to date on disk.\<close>

definition written :: "fs \<Rightarrow> fs \<Rightarrow> u64 set \<Rightarrow> bool" where
  "written s s' C \<longleftrightarrow> st.keeps s s' \<and> view s' = view s \<and>
     (\<forall>c. disk_image s' (unat c) = (if c \<in> C then view s c else disk_image s (unat c)))"

lemma written_trans: "written s t C \<Longrightarrow> written t u D \<Longrightarrow> written s u (C \<union> D)"
  unfolding written_def by (auto intro: st.keeps_trans)

lemma written_silent: "st.silent s s' \<Longrightarrow> written s s' {}"
  by (simp add: written_def st.silent_def)

lemma written_flushes: "st.flushes s s' b \<Longrightarrow> written s s' {b}"
  unfolding written_def st.flushes_def by (metis fun_upd_apply singletonD singletonI word_unat_eq_iff)

lemma written_flat:
  assumes "written s s' C" and "flat_at s b ps"
  shows "flat_at s' b ps" and "node_at s' = node_at s"
proof -
  have v: "view s' = view s" and n: "nblocks s' = nblocks s" using assms(1) st.keepsD(2) by (auto simp: written_def)
  show N: "node_at s' = node_at s" by (simp add: node_at_def [abs_def] v)
  show "flat_at s' b ps"
    using flat_at_blocks(1,2) [OF assms(2)] by (intro flat_at_cong [OF assms(2)]) (simp add: N is_node_def block_used_def v n)
qed

text \<open>
  The mutex is held while the pin count is decreased: the block is cached by then, so no block is read
  and the mutex is not taken again.
\<close>

lemma unpin_locked:
  assumes "cache_disabled s \<or> pci_lookup (pci (cache_s s)) b \<noteq> -1" and "decrease_pin_count s 0 b = Some s'"
  shows "decrease_pin_count (s\<lparr>lock_held := x\<rparr>) 0 b = Some (s'\<lparr>lock_held := x\<rparr>)"
proof (cases "cache_disabled s")
  case False
  then obtain e where "entry_at (cache_s s) (pci_lookup (pci (cache_s s)) b) = Some e" "pci_lookup (pci (cache_s s)) b \<noteq> -1"
    using assms by (auto simp: decrease_pin_count_def cached_slot_def Let_def bind_eq_Some_conv)
  then show ?thesis using assms(2) False by (auto simp: decrease_pin_count_def cached_slot_def Let_def)
qed (use assms in \<open>simp add: decrease_pin_count_def\<close>)

lemma node_write_through:
  assumes ok: "store_ok s" and p: "points s p b"
  obtains t s' where "mutex_lock s = Some (s\<lparr>lock_held := True\<rparr>)" and "disk_write_block (s\<lparr>lock_held := True\<rparr>) b p = Some (0, t)"
    and "decrease_pin_count t 0 b = Some (s'\<lparr>lock_held := True\<rparr>)" and "mutex_unlock (s'\<lparr>lock_held := True\<rparr>) = s'" and "st.flushes s s' b"
proof -
  obtain s1 where s1: "locked_write s b p = Some s1" "st.flushes s s1 b" using st.through_flushes [OF ok p] by blast
  note K = st.keepsD [OF st.flushesD(1) [OF s1(2)]]
  have free: "\<not> lock_held s" "\<not> lock_held s1" using ok K(1) by (simp_all add: store_ok_def)
  obtain t where t: "disk_write_block (s\<lparr>lock_held := True\<rparr>) b p = Some (0, t)" "s1 = mutex_unlock t" "lock_held t"
    using s1(1) free(1)
    by (auto simp: locked_write_def mutex_lock_def disk_write_block_def disk_get_block_def bind_eq_Some_conv split: if_splits)
  have te: "t = s1\<lparr>lock_held := True\<rparr>" using t(2,3) by (cases t) (simp add: mutex_unlock_def)
  have p1: "points s1 p b" by (rule K(4) [OF p])
  have "unat b < nblocks s1" using st.points_limit [OF ok p] K(2) by simp
  then obtain s2 where s2: "decrease_pin_count s1 0 b = Some s2" "st.silent s1 s2" using st.unpin_silent [OF K(1)] by blast
  have "cache_disabled s1 \<or> pci_lookup (pci (cache_s s1)) b \<noteq> -1"
  proof (cases "cache_disabled s1")
    case False
    then obtain i where i: "pci_map (pci (cache_s s1)) b = Some i" using p1 by (auto simp: points_def)
    obtain L G where "cinv (cache_s s1) L G" using store_ok_cached [OF K(1) False] .
    then show ?thesis using pci.lookup_assoc [OF cinvD(5), of _ L G b] i by simp
  qed simp
  note u = unpin_locked [OF this s2(1), of True]
  have "\<not> lock_held s2" using st.keepsD(1) [OF st.silentD(1) [OF s2(2)]] by (simp add: store_ok_def)
  then have "mutex_unlock (s2\<lparr>lock_held := True\<rparr>) = s2" by (cases s2) (simp add: mutex_unlock_def)
  moreover have "st.flushes s s2 b"
    using st.flushesD [OF s1(2)] st.silentD [OF s2(2)] by (auto simp: st.flushes_def intro: st.keeps_trans)
  ultimately show thesis using free(1) t(1) u te by (intro that [of t s2]) (simp_all add: mutex_lock_def)
qed

text \<open>The block of a node, and then its children.\<close>

lemma btree_write_node:
  assumes ok: "store_ok s" and b: "is_node s b" and bn: "block_number (node_at s b) = b"
  obtains p s' where "btree_write s b = write_children btree_write (unat (num_keys (node_at s b)) + 1) s' p 0 1" and "points s' p b"
    and "written s s' {b}"
proof -
  have lim: "unat b < nblocks s" and ty: "btype (view s b) = BLOCK_TYPE_BTREE_NODE" using b by (simp_all add: is_node_def)
  obtain p s1 where g: "get_block s 0 b = Some (p, s1)" "deref s1 p = Some (view s b)" "st.silent s s1" "points s1 p b"
    by (rule st.get_load [OF ok lim])
  note K1 = st.keepsD [OF st.silentD(1) [OF g(3)]]
  have n: "node_get s1 p = Some (node_at s b)" using g(2) by (simp add: node_get_def node_at_def)
  obtain t s2 where w: "mutex_lock s1 = Some (s1\<lparr>lock_held := True\<rparr>)" "disk_write_block (s1\<lparr>lock_held := True\<rparr>) b p = Some (0, t)"
      "decrease_pin_count t 0 b = Some (s2\<lparr>lock_held := True\<rparr>)" "mutex_unlock (s2\<lparr>lock_held := True\<rparr>) = s2" "st.flushes s1 s2 b"
    by (rule node_write_through [OF K1(1) g(4)])
  have "btree_write s b = write_children btree_write (unat (num_keys (node_at s b)) + 1) s2 p 0 1"
    by (subst btree_write.simps) (simp add: g(1,2) ty n w bn del: write_children.simps)
  moreover have "written s s2 {b}" using written_trans [OF written_silent [OF g(3)] written_flushes [OF w(5)]] by simp
  ultimately show thesis using st.keepsD(4) [OF st.flushesD(1) [OF w(5)] g(4)] by (intro that)
qed

lemma btree_write_leaf:
  assumes ok: "store_ok s" and l: "leaf_at s b q"
  obtains s' where "btree_write s (snd q) = Some (1, s')" and "written s s' {snd q}"
proof -
  have N: "is_node s (snd q)" "block_number (node_at s (snd q)) = snd q" "children (node_at s (snd q)) ! 0 = 0"
    using l by (simp_all add: leaf_at_def)
  obtain p s' where w: "btree_write s (snd q) = write_children btree_write (unat (num_keys (node_at s (snd q))) + 1) s' p 0 1"
      "points s' p (snd q)" "written s s' {snd q}"
    by (rule btree_write_node [OF ok N(1,2)])
  have ok': "store_ok s'" and v: "view s' = view s" using w(3) st.keepsD(1) by (auto simp: written_def)
  have "node_get s' p = Some (node_at s (snd q))" using node_get_ok [OF ok' w(2)] by (simp add: node_at_def v)
  moreover have "aget (children (node_at s (snd q))) 0 = Some 0"
    using N(3) node_at_shape [of s "snd q"] by (simp add: aget_def node_shape_def)
  ultimately show thesis using w(1,3) by (intro that) simp_all
qed

lemma write_leaves:
  assumes "store_ok s" and "flat_at s b ps" and "points s p b" and "j + r = length ps"
  shows "\<exists>s'. write_children btree_write (Suc r) s p j (1 + int j) = Some (1 + int (length ps), s') \<and>
    written s s' (snd ` set (drop j ps))"
  using assms
proof (induction r arbitrary: s j)
  case 0
  have R: "root_at (node_at s b) b ps" "length ps \<le> MAX_KEYS" using 0(2) by (simp_all add: flat_at_def)
  have "length (children (node_at s b)) = MAX_KEYS + 1" using node_at_shape [of s b] by (simp add: node_shape_def)
  note C = root_at_child(2) [OF R(1) this R(2)]
  show ?case using 0 C node_get_ok [OF 0(1,3)] written_silent [OF st.silent_refl [OF 0(1)]] by auto
next
  case (Suc r)
  have R: "root_at (node_at s b) b ps" "length ps \<le> MAX_KEYS" and lv: "\<And>q. q \<in> set ps \<Longrightarrow> leaf_at s b q"
    using Suc.prems(2) by (auto simp: flat_at_def)
  have lc: "length (children (node_at s b)) = MAX_KEYS + 1" using node_at_shape [of s b] by (simp add: node_shape_def)
  have j: "j < length ps" using Suc.prems(4) by simp
  let ?q = "ps ! j"
  note C = root_at_child(1) [OF R(1) lc R(2) j]
  have c0: "snd ?q \<noteq> 0" using lv [of ?q] j by (simp add: leaf_at_def)
  obtain s1 where s1: "btree_write s (snd ?q) = Some (1, s1)" "written s s1 {snd ?q}"
    by (rule btree_write_leaf [OF Suc.prems(1) lv [of ?q]]) (use j in auto)
  have K: "store_ok s1" "points s1 p b" using s1(2) st.keepsD(1,4) Suc.prems(3) by (auto simp: written_def)
  have f1: "flat_at s1 b ps" by (rule written_flat(1) [OF s1(2) Suc.prems(2)])
  have small: "1 + int j + 1 \<le> int_max" using j R(2) by (simp add: layout int_max_def)
  have "Suc j + r = length ps" using Suc.prems(4) by simp
  then obtain s2 where s2: "write_children btree_write (Suc r) s1 p (Suc j) (1 + int (Suc j)) = Some (1 + int (length ps), s2)"
      "written s1 s2 (snd ` set (drop (Suc j) ps))"
    using Suc.IH [OF K(1) f1 K(2)] by blast
  have "write_children btree_write (Suc (Suc r)) s p j (1 + int j) = Some (1 + int (length ps), s2)"
    by (subst write_children.simps)
      (use node_get_ok [OF Suc.prems(1,3)] C c0 s1(1) s2(1) small in \<open>simp add: c_int_nonneg add.commute del: write_children.simps\<close>)
  moreover have "written s s2 (snd ` set (drop j ps))"
    using written_trans [OF s1(2) s2(2)] by (simp add: Cons_nth_drop_Suc [OF j, symmetric])
  ultimately show ?case by blast
qed

lemma btree_write_flat:
  assumes ok: "store_ok s" and fl: "flat_at s b ps"
  obtains s' where "btree_write s b = Some (1 + int (length ps), s')" and "written s s' (insert b (snd ` set ps))"
proof -
  note R = flat_at_blocks [OF fl, of b, simplified]
  have r: "root_at (node_at s b) b ps" using fl by (simp add: flat_at_def)
  then have n: "block_number (node_at s b) = b" "unat (num_keys (node_at s b)) = length ps" by (simp_all add: root_at_def)
  obtain p s1 where s1: "btree_write s b = write_children btree_write (unat (num_keys (node_at s b)) + 1) s1 p 0 1" "points s1 p b"
      "written s s1 {b}"
    by (rule btree_write_node [OF ok R(1) n(1)])
  have "store_ok s1" using s1(3) st.keepsD(1) by (auto simp: written_def)
  then obtain s2 where s2: "write_children btree_write (Suc (length ps)) s1 p 0 (1 + int 0) = Some (1 + int (length ps), s2)"
      "written s1 s2 (snd ` set (drop 0 ps))"
    using write_leaves [OF _ written_flat(1) [OF s1(3) fl] s1(2), of 0 "length ps"] by auto
  show thesis
    by (rule that [of s2]) (use s1(1) s2(1) written_trans [OF s1(3) s2(2)] in \<open>simp_all add: n(2) del: write_children.simps\<close>)
qed

section \<open>Printing\<close>

lemma for_range_silent:
  assumes "store_ok s" and "\<And>i t. i < n \<Longrightarrow> st.silent s t \<Longrightarrow> \<exists>u. f (m + i) t = Some u \<and> st.silent t u"
  shows "\<exists>u. for_range n m f s = Some u \<and> st.silent s u"
  using assms
proof (induction n arbitrary: s m)
  case 0
  then show ?case by (simp add: st.silent_refl)
next
  case (Suc n)
  obtain t where t: "f m s = Some t" "st.silent s t" using Suc.prems(2) [of 0 s] st.silent_refl [OF Suc.prems(1)] by auto
  have "\<exists>u. f (Suc m + i) v = Some u \<and> st.silent v u" if "i < n" "st.silent t v" for i v
    using Suc.prems(2) [of "Suc i" v] that st.silent_trans [OF t(2)] by simp
  then obtain u where "for_range n (Suc m) f t = Some u" "st.silent t u"
    using Suc.IH [OF st.keepsD(1) [OF st.silentD(1) [OF t(2)]], of "Suc m"] by blast
  with t show ?case using st.silent_trans by auto
qed

text \<open>Reading the keys of a node only checks that they are there.\<close>

lemma for_range_unit: "(\<And>i. m \<le> i \<Longrightarrow> i < m + n \<Longrightarrow> f i () = Some ()) \<Longrightarrow> for_range n m f () = Some ()"
  by (induction n arbitrary: m) simp_all

lemma btree_print_leaf:
  assumes "store_ok s" and "leaf_at s b q"
  obtains s' where "btree_print s (snd q) = Some s'" and "st.silent s s'"
proof -
  have q: "is_node s (snd q)" "is_leaf (node_at s (snd q))" using assms(2) by (simp_all add: leaf_at_def)
  obtain s' where r: "read_node s (snd q) = Some (node_at s (snd q), s')" "st.silent s s'" by (rule read_node_ok [OF assms(1) q(1)])
  with q(2) show thesis by (intro that [of s']) (subst btree_print.simps, simp_all)
qed

lemma btree_print_flat:
  assumes ok: "store_ok s" and fl: "flat_at s b ps"
  obtains s' where "btree_print s b = Some s'" and "st.silent s s'"
proof -
  note R = flat_at_blocks [OF fl, of b, simplified]
  have r: "root_at (node_at s b) b ps" and le: "length ps \<le> MAX_KEYS" and lv: "\<And>q. q \<in> set ps \<Longrightarrow> leaf_at s b q"
    using fl by (auto simp: flat_at_def)
  let ?n = "node_at s b"
  have lc: "length (children ?n) = MAX_KEYS + 1" and lk: "length (keys ?n) = MAX_KEYS"
    using node_at_shape [of s b] by (simp_all add: node_shape_def)
  have n: "unat (num_keys ?n) = length ps" "\<not> is_leaf ?n" using r by (simp_all add: root_at_def)
  obtain s1 where s1: "read_node s b = Some (?n, s1)" "st.silent s s1" by (rule read_node_ok [OF ok R(1)])
  note K1 = st.keepsD(1) [OF st.silentD(1) [OF s1(2)]]
  have k: "for_range (length ps) 0 (\<lambda>i _. do { _ \<leftarrow> aget (keys ?n) i; Some () }) () = Some ()"
    by (rule for_range_unit) (use le lk in \<open>simp add: aget_def\<close>)
  let ?f = "\<lambda>i s. do { c \<leftarrow> aget (children ?n) i; if c \<noteq> 0 then btree_print s c else Some s }"
  have "\<exists>u. ?f i t = Some u \<and> st.silent t u" if i: "i < length ps + 1" and t: "st.silent s1 t" for i t
  proof -
    note S = leaf_at_silent(1) [OF st.silent_trans [OF s1(2) t]] and ok' = st.keepsD(1) [OF st.silentD(1) [OF t]]
    show ?thesis
    proof (cases "i = length ps")
      case True
      then show ?thesis using root_at_child(2) [OF r lc le] st.silent_refl [OF ok'] by simp
    next
      case False
      then have i': "i < length ps" using i by simp
      have l: "leaf_at t b (ps ! i)" using lv [of "ps ! i"] i' by (simp add: S)
      obtain u where "btree_print t (snd (ps ! i)) = Some u" "st.silent t u" by (rule btree_print_leaf [OF ok' l])
      then show ?thesis using root_at_child(1) [OF r lc le i'] l by (simp add: leaf_at_def)
    qed
  qed
  then obtain s2 where "for_range (length ps + 1) 0 ?f s1 = Some s2" "st.silent s1 s2"
    using for_range_silent [OF K1, of "length ps + 1" ?f 0] by auto
  then show thesis
    using s1 n k st.silent_trans [OF s1(2)] by (intro that [of s2]) (subst btree_print.simps, simp_all del: for_range.simps)
qed

end
