(* ===== verification/Dir_Blocks.thy ===== *)
theory Dir_Blocks
  imports Volume Btree_Walk
begin

text \<open>
  What a directory block says. The entries of the first block of a directory are the active ones among
  its first \<open>m\<close> slots, and the count is their number; the slots behind may hold anything. Adding fills
  the first inactive slot or the one behind the last, so the slots in between are holes that removals left.
\<close>

section \<open>Slots\<close>

definition dir_slot :: "block \<Rightarrow> nat \<Rightarrow> DirEntry" where
  "dir_slot b i = de_load b (6 + DIRENT_SIZE * i)"

definition listing :: "block \<Rightarrow> nat \<Rightarrow> DirEntry list" where
  "listing b m = filter (\<lambda>e. de_active e \<noteq> 0) (map (dir_slot b) [0..<m])"

definition dir_at :: "block \<Rightarrow> nat \<Rightarrow> bool" where
  "dir_at b m \<longleftrightarrow> m \<le> SCAN \<and> unat (entry_count b) = length (listing b m)"

lemma scan [layout]: "SCAN = 13"
  by (simp add: SCAN_def layout)

lemma listing_Suc: "listing b (Suc i) = (if de_active (dir_slot b i) \<noteq> 0 then listing b i @ [dir_slot b i] else listing b i)"
  by (simp add: listing_def)

lemma listing_append: "i \<le> m \<Longrightarrow> listing b m = listing b i @ filter (\<lambda>e. de_active e \<noteq> 0) (map (dir_slot b) [i..<m])"
  using upt_add_eq_append [of 0 i "m - i"] by (simp add: listing_def)

lemma listing_length: "length (listing b m) \<le> m"
  by (induction m) (simp_all add: listing_Suc, simp add: listing_def)

lemma listing_full: "(\<And>i. i < m \<Longrightarrow> de_active (dir_slot b i) \<noteq> 0) \<Longrightarrow> listing b m = map (dir_slot b) [0..<m]"
  by (simp add: listing_def)

text \<open>The entry \<open>e\<close> lies behind the entries \<open>us\<close> in the first slots.\<close>

definition in_slot :: "block \<Rightarrow> DirEntry list \<Rightarrow> DirEntry \<Rightarrow> bool" where
  "in_slot b us e \<longleftrightarrow> map (dir_slot b) [0..<Suc (length us)] = us @ [e]"

lemma in_slotD:
  assumes "in_slot b us e"
  shows "i < length us \<Longrightarrow> dir_slot b i = us ! i" and "dir_slot b (length us) = e"
proof -
  have "map (dir_slot b) [0..<length us] = us" "dir_slot b (length us) = e" using assms by (simp_all add: in_slot_def)
  then show "i < length us \<Longrightarrow> dir_slot b i = us ! i" "dir_slot b (length us) = e"
    by (metis add.left_neutral diff_zero length_map length_upt nth_map nth_upt)+
qed

section \<open>Finding a place\<close>

lemma small_count: "j < 65536 \<Longrightarrow> unat (of_nat j :: u16) = j"
  by (simp add: unat_of_nat take_bit_nat_eq_self)

lemma find_free_from:
  assumes "m \<le> 13" and "length (listing b m) < 13" and "n = of_nat (length (listing b m))"
    and "j \<le> m" and "j + r = 13" and "\<And>i. i < j \<Longrightarrow> de_active (dir_slot b i) \<noteq> 0"
  shows "\<exists>k c. find_free r b (6 + DIRENT_SIZE * j) n (of_nat j) = (Some (6 + DIRENT_SIZE * k), c) \<and> k \<le> m \<and> k < 13 \<and>
    (k < m \<longrightarrow> de_active (dir_slot b k) = 0) \<and> (\<forall>i < k. de_active (dir_slot b i) \<noteq> 0)"
  using assms(4-6)
proof (induction r arbitrary: j)
  case 0
  then show ?case using listing_full [of m b] assms(1,2) by simp
next
  case (Suc r)
  have ll: "length (listing b m) \<le> 13" using listing_length [of b m] assms(1) by simp
  show ?case
  proof (cases "j = m")
    case True
    then have "n = of_nat j" using listing_full [of m b] Suc.prems(3) assms(3) by simp
    then show ?thesis using True Suc.prems(2,3) by (intro exI [of _ j] exI [of _ "of_nat j"]) simp
  next
    case False
    then have jm: "j < m" using Suc.prems(1) by simp
    show ?thesis
    proof (cases "de_active (dir_slot b j) = 0")
      case True
      then show ?thesis using jm Suc.prems(2,3) by (intro exI [of _ j] exI [of _ "of_nat j"]) (simp add: dir_slot_def)
    next
      case act: False
      have all: "\<And>i. i < Suc j \<Longrightarrow> de_active (dir_slot b i) \<noteq> 0" using act Suc.prems(3) by (metis less_antisym)
      have "length (listing b m) \<ge> Suc j" using listing_append [of "Suc j" m b] jm listing_full [OF all] by simp
      then have "(of_nat j :: u16) \<noteq> n"
        using ll small_count [of j] small_count [of "length (listing b m)"] jm assms(1) by (auto simp: assms(3))
      moreover obtain k c where "find_free r b (6 + DIRENT_SIZE * Suc j) n (of_nat (Suc j)) = (Some (6 + DIRENT_SIZE * k), c)" "k \<le> m" "k < 13"
          "k < m \<longrightarrow> de_active (dir_slot b k) = 0" "\<forall>i < k. de_active (dir_slot b i) \<noteq> 0"
        using Suc.IH [of "Suc j"] jm Suc.prems(2) all by auto
      ultimately show ?thesis
        using act by (intro exI [of _ k] exI [of _ c]) (simp add: dir_slot_def ac_simps)
    qed
  qed
qed

lemma find_free_ok:
  assumes "dir_at b m" and "length (listing b m) < SCAN"
  obtains k c where "find_free SCAN b (entries_off 0) (entry_count b) 0 = (Some (6 + DIRENT_SIZE * k), c)" and "k \<le> m" and "k < SCAN"
    and "k < m \<Longrightarrow> de_active (dir_slot b k) = 0" and "\<And>i. i < k \<Longrightarrow> de_active (dir_slot b i) \<noteq> 0"
proof -
  have "of_nat (unat (entry_count b)) = entry_count b" by simp
  then have "entry_count b = of_nat (length (listing b m))" using assms(1) by (simp only: dir_at_def)
  then show thesis using find_free_from [of m b "entry_count b" 0 13] assms that by (auto simp: dir_at_def scan entries_off_def)
qed

section \<open>Filling it\<close>

definition entry_shape :: "DirEntry \<Rightarrow> bool" where
  "entry_shape e \<longleftrightarrow> length (de_name e) = NAME_MAX \<and> length (de_pad e) = 7"

lemma store_bytes_outside: "i < off \<or> off + length xs \<le> i \<Longrightarrow> store_bytes xs b off i = b i"
  by (auto simp: store_bytes_def)

lemma de_load_cong: "(\<And>i. i < DIRENT_SIZE \<Longrightarrow> b (off + i) = b' (off + i)) \<Longrightarrow> de_load b off = de_load b' off"
proof -
  assume a: "\<And>i. i < DIRENT_SIZE \<Longrightarrow> b (off + i) = b' (off + i)"
  have "load64 b (off + d) = load64 b' (off + d)" if "d \<le> 8" for d by (rule load_le_cong) (use a that in \<open>simp add: layout add.assoc\<close>)
  from this [of 0] this [of 8] have "load64 b off = load64 b' off" "load64 b (off + 8) = load64 b' (off + 8)" by simp_all
  moreover have "load_bytes n b (off + d) = load_bytes n b' (off + d)" if "d + n \<le> DIRENT_SIZE" for n d
    unfolding load_bytes_def using a that by (intro map_cong) (simp_all add: add.assoc)
  moreover have "b (off + 272) = b' (off + 272)" by (rule a) (simp add: layout)
  ultimately show ?thesis by (simp add: de_load_def layout)
qed

lemma de_load_store:
  assumes "entry_shape e"
  shows "de_load (de_store e b off) off = e"
proof -
  have "store_bytes (de_pad e) c (off + 273) (off + 272) = c (off + 272)" for c by (simp add: store_bytes_outside)
  moreover have "store_bytes [x] c (off + 272) (off + 272) = x" for x c by (simp add: store_bytes_def)
  ultimately show ?thesis using assms by (simp add: de_load_def de_store_def Let_def entry_shape_def layout)
qed

lemma de_store_outside:
  assumes "entry_shape e" and "i < off \<or> off + DIRENT_SIZE \<le> i"
  shows "de_store e b off i = b i"
  using assms by (auto simp: de_store_def Let_def entry_shape_def layout store_bytes_outside)

lemma dir_slot_store:
  assumes "entry_shape e"
  shows "dir_slot (de_store e b (6 + DIRENT_SIZE * k)) i = (if i = k then e else dir_slot b i)"
proof (cases "i = k")
  case False
  then have "Suc i \<le> k \<or> Suc k \<le> i" by linarith
  then have d: "DIRENT_SIZE * Suc i \<le> DIRENT_SIZE * k \<or> DIRENT_SIZE * Suc k \<le> DIRENT_SIZE * i"
    using mult_le_mono2 by blast
  have "dir_slot (de_store e b (6 + DIRENT_SIZE * k)) i = dir_slot b i"
    unfolding dir_slot_def by (rule de_load_cong) (use d in \<open>auto intro!: de_store_outside [OF assms]\<close>)
  with False show ?thesis by simp
qed (simp add: dir_slot_def de_load_store [OF assms])

lemma dir_slot_count: "dir_slot (set_entry_count n b) i = dir_slot b i"
  unfolding dir_slot_def by (rule de_load_cong) simp

lemma entry_count_store: "entry_shape e \<Longrightarrow> entry_count (de_store e b (6 + i)) = entry_count b"
  by (intro load_le_cong de_store_outside) auto

lemma btype_de_store: "entry_shape e \<Longrightarrow> btype (de_store e b (6 + i)) = btype b"
  by (intro load_le_cong de_store_outside) auto

text \<open>The block after an entry was stored in slot \<open>k\<close> and counted.\<close>

definition with_entry :: "DirEntry \<Rightarrow> nat \<Rightarrow> block \<Rightarrow> block" where
  "with_entry e k b = set_entry_count (entry_count b + 1) (de_store e b (6 + DIRENT_SIZE * k))"

lemma dir_slot_with: "entry_shape e \<Longrightarrow> dir_slot (with_entry e k b) i = (if i = k then e else dir_slot b i)"
  by (simp add: with_entry_def dir_slot_count dir_slot_store)

lemma listing_with:
  assumes e: "entry_shape e" "de_active e \<noteq> 0" and k: "k \<le> m" and free: "k < m \<longrightarrow> de_active (dir_slot b k) = 0"
  obtains vs where "listing b m = listing b k @ vs" and "listing (with_entry e k b) (max m (Suc k)) = listing b k @ e # vs"
proof -
  let ?b = "with_entry e k b"
  have pre: "listing ?b k = listing b k" unfolding listing_def by (intro filter_cong map_cong) (simp_all add: dir_slot_with [OF e(1)])
  have "listing ?b (Suc k) = listing b k @ [e]" using pre e by (simp add: listing_Suc dir_slot_with)
  moreover have "map (dir_slot ?b) [Suc k..<max m (Suc k)] = map (dir_slot b) [Suc k..<max m (Suc k)]"
    by (intro map_cong) (simp_all add: dir_slot_with [OF e(1)])
  ultimately have "listing ?b (max m (Suc k)) = listing b k @ e # filter (\<lambda>e. de_active e \<noteq> 0) (map (dir_slot b) [Suc k..<max m (Suc k)])"
    using listing_append [of "Suc k" "max m (Suc k)" ?b] by (simp del: map_eq_conv)
  moreover have "listing b m = listing b k @ filter (\<lambda>e. de_active e \<noteq> 0) (map (dir_slot b) [Suc k..<max m (Suc k)])"
  proof (cases "k < m")
    case True
    then have "listing b (Suc k) = listing b k" using free by (simp add: listing_Suc)
    then show ?thesis using listing_append [of "Suc k" m b] True by (simp add: max_def)
  next
    case False
    then show ?thesis using k by simp
  qed
  ultimately show thesis by (rule that [rotated])
qed

lemma in_slot_with:
  assumes "entry_shape e" and "\<And>i. i < k \<Longrightarrow> de_active (dir_slot b i) \<noteq> 0"
  shows "in_slot (with_entry e k b) (listing b k) e"
proof -
  have "map (dir_slot (with_entry e k b)) [0..<k] = map (dir_slot b) [0..<k]" by (intro map_cong) (simp_all add: dir_slot_with [OF assms(1)])
  then show ?thesis using listing_full [OF assms(2)] by (simp add: in_slot_def dir_slot_with [OF assms(1)])
qed

lemma dir_at_with:
  assumes b: "dir_at b m" and e: "entry_shape e" "de_active e \<noteq> 0" and k: "k \<le> m" "k < SCAN" and free: "k < m \<longrightarrow> de_active (dir_slot b k) = 0"
  shows "dir_at (with_entry e k b) (max m (Suc k))"
proof -
  have m: "m \<le> 13" and c: "unat (entry_count b) = length (listing b m)" using b by (simp_all add: dir_at_def scan)
  obtain vs where l: "listing b m = listing b k @ vs" "listing (with_entry e k b) (max m (Suc k)) = listing b k @ e # vs"
    by (rule listing_with [OF e k(1) free])
  have "unat (entry_count b) \<le> 13" using c listing_length [of b m] m by simp
  then have "unat (entry_count b + 1) = unat (entry_count b) + 1" by (simp add: unat_word_ariths(1))
  moreover have "entry_count (with_entry e k b) = entry_count b + 1" by (simp add: with_entry_def)
  ultimately show ?thesis using c l k(2) m by (simp add: dir_at_def scan)
qed

section \<open>Listing and searching a block\<close>

lemma listing_prefix: "j \<le> m \<Longrightarrow> length (listing b j) = length (listing b m) \<Longrightarrow> listing b j = listing b m"
  using listing_append [of j m b] by (metis append_self_conv length_0_conv length_append add_cancel_right_right)

lemma list_scan_from:
  assumes "j \<le> m" and "j + r = 14" and "m \<le> 14"
  shows "list_scan r b (6 + DIRENT_SIZE * j) (length (listing b m)) (listing b j) = listing b m"
  using assms
proof (induction r arbitrary: j)
  case 0
  then show ?case by simp
next
  case (Suc r)
  show ?case
  proof (cases "length (listing b j) < length (listing b m)")
    case True
    then have "j < m" using Suc.prems(1) by (cases "j = m") auto
    then have "list_scan r b (6 + DIRENT_SIZE * Suc j) (length (listing b m)) (listing b (Suc j)) = listing b m"
      using Suc.IH [of "Suc j"] Suc.prems by simp
    moreover have "dir_slot b j = de_load b (6 + DIRENT_SIZE * j)" by (simp add: dir_slot_def)
    ultimately show ?thesis using True by (simp add: listing_Suc ac_simps split: if_splits)
  next
    case False
    moreover have "length (listing b j) \<le> length (listing b m)" using listing_append [OF Suc.prems(1), of b] by simp
    ultimately show ?thesis using listing_prefix [OF Suc.prems(1)] by simp
  qed
qed

lemma list_scan_ok:
  assumes "dir_at b m"
  shows "list_scan (USABLE_BLOCK_SIZE div DIRENT_SIZE) b (entries_off 0) (unat (entry_count b)) [] = listing b m"
proof -
  have "USABLE_BLOCK_SIZE div DIRENT_SIZE = 14" by (simp add: layout)
  moreover have "listing b 0 = []" by (simp add: listing_def)
  ultimately show ?thesis using list_scan_from [of 0 m 14 b] assms by (simp add: dir_at_def scan entries_off_def)
qed

text \<open>A name in an entry is compared up to its terminator.\<close>

lemma strcmp_eq_str:
  assumes "str_of_bytes xs = Some str" and "CHR 0x00 \<notin> set name"
  shows "strcmp_eq xs name = Some (str = name)"
  using assms
proof (induction xs arbitrary: str name)
  case Nil
  then show ?case by (simp add: str_of_bytes_def)
next
  case (Cons x xs)
  have ch: "(of_nat (of_char c) :: u8) = y \<longleftrightarrow> c = char_of (unat y)" for c :: char and y
  proof
    assume "(of_nat (of_char c) :: u8) = y"
    then have "unat y = (of_char c :: nat)" by (auto simp: unat_of_nat take_bit_eq_mod)
    then show "c = char_of (unat y)" by simp
  next
    assume c: "c = char_of (unat y)"
    have "unat y < 256" using unsigned_less [of y] by simp
    then have "(of_char c :: nat) = unat y" unfolding c by (simp add: of_char_of take_bit_eq_mod)
    then show "(of_nat (of_char c) :: u8) = y" by simp
  qed
  show ?case
  proof (cases "x = 0")
    case True
    then have str: "str = []" using Cons.prems(1) by (simp add: str_of_bytes_def)
    show ?thesis
    proof (cases name)
      case (Cons c cs)
      then have "0 \<notin> set (bytes_of (c # cs))" using bytes_of_nonzero Cons.prems(2) by blast
      then have "x \<noteq> of_nat (of_char c)" using True by (auto simp: bytes_of_def)
      then show ?thesis using Cons str by simp
    qed (simp add: True str)
  next
    case False
    then obtain rest where r: "str_of_bytes xs = Some rest" "str = char_of (unat x) # rest"
      using Cons.prems(1) by (auto simp: str_of_bytes_def split: if_splits)
    show ?thesis
    proof (cases name)
      case Nil
      then show ?thesis using False r(2) by simp
    next
      case (Cons c cs)
      have "strcmp_eq xs cs = Some (rest = cs)" using Cons.IH [OF r(1)] Cons.prems(2) Cons by simp
      then show ?thesis using r(2) ch [of c x] Cons by auto
    qed
  qed
qed

text \<open>A block whose slots all have names, and none behind the listing is active.\<close>

definition entry_name :: "DirEntry \<Rightarrow> string option" where
  "entry_name e = str_of_bytes (de_name e)"

definition clean_at :: "block \<Rightarrow> nat \<Rightarrow> bool" where
  "clean_at b m \<longleftrightarrow> (\<forall>i < SCAN. entry_name (dir_slot b i) \<noteq> None \<and> (m \<le> i \<longrightarrow> de_active (dir_slot b i) = 0))"

lemma exists_scan_from:
  assumes "\<And>i. j \<le> i \<Longrightarrow> i < j + r \<Longrightarrow> entry_name (dir_slot b i) \<noteq> None" and "CHR 0x00 \<notin> set name"
  shows "\<exists>c. exists_scan r b (6 + DIRENT_SIZE * j) name n =
    Some (find (\<lambda>e. entry_name e = Some name) (filter (\<lambda>e. de_active e \<noteq> 0) (map (dir_slot b) [j..<j + r])), c)"
  using assms(1)
proof (induction r arbitrary: j n)
  case 0
  then show ?case by simp
next
  case (Suc r)
  let ?e = "dir_slot b j"
  obtain str where "entry_name ?e = Some str" using Suc.prems [of j] by auto
  then have c: "strcmp_eq (de_name ?e) name = Some (entry_name ?e = Some name)"
    using strcmp_eq_str [OF _ assms(2)] by (simp add: entry_name_def)
  have up: "[j..<j + Suc r] = j # [Suc j..<Suc j + r]" by (subst upt_conv_Cons) simp_all
  note ih = Suc.IH [of "Suc j"]
  show ?case
  proof (cases "entry_name ?e = Some name \<and> de_active ?e \<noteq> 0")
    case True
    then show ?thesis using c unfolding up by (simp add: dir_slot_def add.commute)
  next
    case False
    have "\<exists>n'. exists_scan (Suc r) b (6 + DIRENT_SIZE * j) name n = exists_scan r b (6 + DIRENT_SIZE * Suc j) name n'"
      using c False by (simp add: dir_slot_def ac_simps) blast
    then obtain n' where n': "exists_scan (Suc r) b (6 + DIRENT_SIZE * j) name n = exists_scan r b (6 + DIRENT_SIZE * Suc j) name n'" ..
    obtain c' where "exists_scan r b (6 + DIRENT_SIZE * Suc j) name n' =
        Some (find (\<lambda>e. entry_name e = Some name) (filter (\<lambda>e. de_active e \<noteq> 0) (map (dir_slot b) [Suc j..<Suc j + r])), c')"
      using ih [of n'] Suc.prems by auto
    then show ?thesis using False n' unfolding up by auto
  qed
qed

lemma exists_scan_ok:
  assumes "dir_at b m" and "clean_at b m" and "CHR 0x00 \<notin> set name"
  shows "\<exists>c. exists_scan SCAN b (entries_off 0) name n = Some (find (\<lambda>e. entry_name e = Some name) (listing b m), c)"
proof -
  have m: "m \<le> 13" using assms(1) by (simp add: dir_at_def scan)
  have "filter (\<lambda>e. de_active e \<noteq> 0) (map (dir_slot b) [m..<13]) = []"
    using assms(2) by (auto simp: clean_at_def scan filter_empty_conv)
  then have "listing b 13 = listing b m" using listing_append [OF m, of b] by simp
  moreover have "filter (\<lambda>e. de_active e \<noteq> 0) (map (dir_slot b) [0..<0 + 13]) = listing b 13" by (simp add: listing_def)
  ultimately show ?thesis
    using exists_scan_from [of 0 13 b name n] assms(2,3) by (simp add: clean_at_def scan entries_off_def)
qed

section \<open>The root directory\<close>

text \<open>
  A volume whose root directory has a tree of one level; \<open>r\<close> is its inode. Its entries are those of the
  first block of the inode, when it has one.
\<close>

definition root_dir :: "fs \<Rightarrow> nat \<Rightarrow> nat \<Rightarrow> (u64 \<times> u64) list \<Rightarrow> bool" where
  "root_dir s M r ps \<longleftrightarrow> sound s M \<and> flat_at s (btree_root (sb_of s)) ps \<and> n_value (root_node s) = of_nat r \<and> r < M \<and>
     inode_number (inode_of s r) = of_nat r"

abbreviation first_block :: "fs \<Rightarrow> nat \<Rightarrow> u64" where
  "first_block s r \<equiv> direct_blocks (inode_of s r) ! 0"

definition dir_data :: "fs \<Rightarrow> nat \<Rightarrow> nat \<Rightarrow> bool" where
  "dir_data s r m \<longleftrightarrow> first_block s r \<noteq> 0 \<and> used s (first_block s r) \<and> btype (view s (first_block s r)) = BLOCK_TYPE_DATA \<and>
     dir_at (view s (first_block s r)) m"

lemma root_dirD:
  assumes "root_dir s M r ps"
  shows "sound s M" and "flat_at s (btree_root (sb_of s)) ps" and "r < M" and "rooted s" and "inode_ok s r"
    and "block_number (root_node s) = btree_root (sb_of s)" and "n_value (root_node s) = of_nat r" and "store_ok s"
    and "inode_number (inode_of s r) = of_nat r"
proof -
  show S: "sound s M" and F: "flat_at s (btree_root (sb_of s)) ps" and r: "r < M" and "n_value (root_node s) = of_nat r"
    and "inode_number (inode_of s r) = of_nat r"
    using assms by (simp_all add: root_dir_def)
  show "rooted s" using soundD(2,3) [OF S] flat_at_blocks(1) [OF F, of "btree_root (sb_of s)"] by (simp add: rooted_def volume_ok_def)
  show "inode_ok s r" by (rule sound_inode(1) [OF S r])
  show "block_number (root_node s) = btree_root (sb_of s)" using F by (simp add: flat_at_def root_at_def)
  show "store_ok s" by (rule soundD(3) [OF S])
qed

lemma search_root:
  assumes "root_dir s M r ps"
  obtains s' where "item_search s ''/'' = Some (\<lparr>ip_inode = of_nat r, ip_btree = btree_root (sb_of s)\<rparr>, s')" and "st.silent s s'"
proof -
  note D = root_dirD [OF assms]
  obtain s' where "item_search s ''/'' = (if ''/'' = ''/'' then
        Some (\<lparr>ip_inode = n_value (root_node s), ip_btree = block_number (root_node s)\<rparr>, s')
      else search_loop (count_l ''/'') s' ''/'' 1 (root_node s) [])" "st.silent s s'"
    by (rule item_search_start [OF D(4), of "''/''"])
  then show thesis using D(6,7) by (intro that) simp_all
qed

lemma read_dir_inode:
  assumes "inode_ok s r"
  obtains s' where "read_inode_or old s (of_nat r) = Some (inode_of s r, s')" and "st.silent s s'"
  by (rule inode_read_ok [OF assms]) (rule that, simp_all add: read_inode_or_def)

text \<open>The first two block numbers of an inode are read from the structure.\<close>

lemma get_direct:
  "inode_get_block s i (of_nat 0) = Some (if direct_blocks i ! 0 \<noteq> 0 then 0 else -1, Some (direct_blocks i ! 0), s)"
  "inode_get_block s i (of_nat (Suc 0)) = Some (if direct_blocks i ! 1 \<noteq> 0 then 0 else -1, Some (direct_blocks i ! 1), s)"
  by (simp_all add: inode_get_block_def Let_def)

text \<open>The loop over the blocks of a directory that has one block.\<close>

lemma list_blocks_ok:
  assumes ok: "store_ok s" and i: "direct_blocks i ! 0 = d" "d \<noteq> 0" "unat d < nblocks s" "direct_blocks i ! 1 = 0"
    and d: "btype (view s d) = BLOCK_TYPE_DATA" "dir_at (view s d) m"
  obtains s' where "list_blocks DIR_BLOCKS s pair i 0 None None None = Some (Some (listing (view s d) m), s')" and "st.silent s s'"
proof -
  obtain p s1 where g: "get_block s (ip_inode pair) d = Some (p, s1)" "deref s1 p = Some (view s d)" "st.silent s s1"
    by (rule st.get_load [OF ok i(3)])
  have "entry_count (view s d) = 0 \<Longrightarrow> listing (view s d) m = []" using d(2) by (simp add: dir_at_def)
  moreover have "(unat (entry_count (view s d)) = 0) = (entry_count (view s d) = 0)" by (metis unat_0 unat_eq_zero)
  ultimately have "list_blocks (Suc (Suc k)) s pair i 0 None None None = Some (Some (listing (view s d) m), s1)" for k
    using i g(1,2) d(1) list_scan_ok [OF d(2)] get_direct [of _ i] by simp
  from this [of 65533] have "list_blocks DIR_BLOCKS s pair i 0 None None None = Some (Some (listing (view s d) m), s1)"
    by (simp add: layout)
  with g(3) show thesis by (intro that)
qed

lemma directory_list_ok:
  assumes R: "root_dir s M r ps" and d: "dir_data s r m" and one: "direct_blocks (inode_of s r) ! 1 = 0"
  obtains s' where "directory_list s ''/'' = Some (Some (listing (view s (first_block s r)) m), s')" and "st.silent s s'"
proof -
  note D = root_dirD [OF R]
  obtain s1 where s1: "item_search s ''/'' = Some (\<lparr>ip_inode = of_nat r, ip_btree = btree_root (sb_of s)\<rparr>, s1)" "st.silent s s1"
    by (rule search_root [OF R])
  note I1 = inode_silent [OF s1(2)]
  obtain s2 where s2: "read_inode_or zero_inode s1 (of_nat r) = Some (inode_of s1 r, s2)" "st.silent s1 s2"
    by (rule read_dir_inode [OF I1(6) [OF D(5)]])
  note S2 = st.silent_trans [OF s1(2) s2(2)]
  note K2 = st.keepsD [OF st.silentD(1) [OF S2]] and V2 = st.silentD(2) [OF S2]
  obtain s3 where s3: "list_blocks DIR_BLOCKS s2 \<lparr>ip_inode = of_nat r, ip_btree = btree_root (sb_of s)\<rparr> (inode_of s r) 0 None None None =
      Some (Some (listing (view s2 (first_block s r)) m), s3)" "st.silent s2 s3"
    by (rule list_blocks_ok [OF K2(1), of "inode_of s r" "first_block s r" m])
      (use d one K2(2) V2 in \<open>auto simp: dir_data_def used_def\<close>)
  note S3 = st.silent_trans [OF S2 s3(2)]
  have f3: "flat_at s3 (btree_root (sb_of s)) ps" using D(2) leaf_at_silent [OF S3] by (simp add: flat_at_def)
  obtain s4 where s4: "btree_print s3 (btree_root (sb_of s)) = Some s4" "st.silent s3 s4"
    by (rule btree_print_flat [OF st.keepsD(1) [OF st.silentD(1) [OF S3]] f3])
  have "directory_list s ''/'' = Some (Some (listing (view s (first_block s r)) m), s4)"
    using s1(1) s2(1) s3(1) s4(1) I1(5) V2 by (simp add: directory_list_def)
  then show thesis using st.silent_trans [OF S3 s4(2)] by (rule that)
qed

lemma directory_exists_from:
  assumes R: "root_dir s M r ps" and d: "dir_data s r m" and one: "direct_blocks (inode_of s r) ! 1 = 0"
    and x: "exists_scan SCAN (view s (first_block s r)) (entries_off 0) name 0 = Some (found, n)"
    and none: "listing (view s (first_block s r)) m = [] \<Longrightarrow> found = None"
  obtains s' where "directory_exists_entry s ''/'' name = Some (found, s')" and "st.silent s s'"
proof -
  let ?d = "first_block s r" and ?pair = "\<lparr>ip_inode = of_nat r, ip_btree = btree_root (sb_of s)\<rparr>"
  note D = root_dirD [OF R]
  obtain s1 where s1: "item_search s ''/'' = Some (?pair, s1)" "st.silent s s1" by (rule search_root [OF R])
  note I1 = inode_silent [OF s1(2)]
  obtain s2 where s2: "read_inode_or zero_inode s1 (of_nat r) = Some (inode_of s1 r, s2)" "st.silent s1 s2"
    by (rule read_dir_inode [OF I1(6) [OF D(5)]])
  note S2 = st.silent_trans [OF s1(2) s2(2)]
  note K2 = st.keepsD [OF st.silentD(1) [OF S2]] and V2 = st.silentD(2) [OF S2]
  have dd: "?d \<noteq> 0" "unat ?d < nblocks s2" "btype (view s ?d) = BLOCK_TYPE_DATA" "dir_at (view s ?d) m"
    using d K2(2) by (simp_all add: dir_data_def used_def)
  obtain p s3 where g: "get_block s2 (of_nat r) ?d = Some (p, s3)" "deref s3 p = Some (view s2 ?d)" "st.silent s2 s3"
    by (rule st.get_load [OF K2(1) dd(2)])
  have sz: "sint w = 0 \<Longrightarrow> w = 0" for w :: u16 using signed_word_eqI [of w 0] by simp
  have z: "sint (entry_count (view s ?d)) = 0 \<Longrightarrow> found = None"
    using dd(4) none sz [of "entry_count (view s ?d)"] by (simp add: dir_at_def)
  have "exists_blocks (Suc (Suc k)) s2 ?pair (inode_of s r) name 0 0 0 = Some (found, s3)" for k
    using g(1,2) dd(1,3) x one z get_direct [of _ "inode_of s r"]
    by (auto simp: dir_block_def V2 Let_def split: option.split)
  from this [of 65533] have "directory_exists_entry s ''/'' name = Some (found, s3)"
    using s1(1) s2(1) I1(5) by (simp add: directory_exists_entry_def layout)
  then show thesis using st.silent_trans [OF S2 g(3)] by (rule that)
qed

lemma directory_exists_ok:
  assumes R: "root_dir s M r ps" and d: "dir_data s r m" and one: "direct_blocks (inode_of s r) ! 1 = 0"
    and c: "clean_at (view s (first_block s r)) m" and nul: "CHR 0x00 \<notin> set name"
  obtains s' where "directory_exists_entry s ''/'' name =
      Some (find (\<lambda>e. entry_name e = Some name) (listing (view s (first_block s r)) m), s')" and "st.silent s s'"
proof -
  have "dir_at (view s (first_block s r)) m" using d by (simp add: dir_data_def)
  then obtain n where "exists_scan SCAN (view s (first_block s r)) (entries_off 0) name 0 =
      Some (find (\<lambda>e. entry_name e = Some name) (listing (view s (first_block s r)) m), n)"
    using exists_scan_ok [OF _ c nul] by blast
  then show thesis by (rule directory_exists_from [OF R d one]) (simp, rule that)
qed

end
