(* ===== verification/Format.thy ===== *)
theory Format
  imports Journal
begin

text \<open>
  Formatting a disk (\<^verbatim>\<open>disk_format\<close> in \<^verbatim>\<open>src/disk.c\<close>): the superblock, the type tags of the bitmaps, the
  inode table and the journal, the allocation of their blocks, and the root directory.
\<close>

text \<open>Changing the blocks from \<open>i\<close> to \<open>j - 1\<close> in place.\<close>

definition tag_blocks :: "nat \<Rightarrow> nat \<Rightarrow> (block \<Rightarrow> block) \<Rightarrow> fs \<Rightarrow> fs option" where
  "tag_blocks i j f s = for_range (j - i) i (\<lambda>k s. do {
     (p, s) \<leftarrow> get_block s 0 (of_nat k);
     modify s p (\<lambda>b. Some (f b))
   }) s"

text \<open>Allocating \<open>n\<close> blocks: the flag says that there was none left.\<close>

fun alloc_pages :: "nat \<Rightarrow> fs \<Rightarrow> (bool \<times> fs) option" where
  "alloc_pages 0 s = Some (False, s)"
| "alloc_pages (Suc n) s = do {
     (page, s) \<leftarrow> alloc_page s;
     if page = 0 then Some (True, s) else alloc_pages n s
   }"

text \<open>
  A volume name that is too long is reported and the formatting goes on with whatever block 0 holds.
  The superblock written at the end is the copy read before the allocations.
\<close>

definition disk_format :: "env \<Rightarrow> fs \<Rightarrow> string \<Rightarrow> (int \<times> fs) option" where
  "disk_format env s name = do {
     (_, s) \<leftarrow> superblock_initialize s (bytes_of name) (clock env s);
     (sb, s) \<leftarrow> superblock_read s;
     sb \<leftarrow> sb;
     let table = inode_table sb;
     let journal = table + word_of_int (calculate_inode_table_size sb);
     let end = journal + word_of_int (calculate_journal_size sb);
     s \<leftarrow> tag_blocks 1 (unat table) (set_btype BLOCK_TYPE_BITMAP) s;
     s \<leftarrow> tag_blocks (unat table) (unat journal) (set_btype BLOCK_TYPE_INODE) s;
     s \<leftarrow> tag_blocks (unat journal) (unat end) (\<lambda>b. set_je_type UNINITIALIZED (set_btype BLOCK_TYPE_JOURNAL b)) s;
     (_, s) \<leftarrow> alloc_page s;
     (full, s) \<leftarrow> alloc_pages (unat journal - 1) s;
     if full then Some (-1, s)
     else do {
       (start, s) \<leftarrow> alloc_page s;
       (full, s) \<leftarrow> alloc_pages (nat (calculate_journal_size sb - 1)) s;
       if full then Some (-1, s)
       else do {
         (r, s) \<leftarrow> btree_node_create s False;
         (page, p) \<leftarrow> r;
         (ino, s) \<leftarrow> inode_allocate s (e_uid env) (e_gid env) (S_IFDIR OR 0x1ED) True;
         s \<leftarrow> node_upd s p (\<lambda>n. Some (n\<lparr>n_value := word_of_int ino\<rparr>));
         (_, s) \<leftarrow> superblock_write s
           (sb\<lparr>journal_start := start, journal_head := 0, root_inode := word_of_int ino, btree_root := page\<rparr>) True;
         Some (0, s)
       }
     }
   }"

end
