(* ===== verification/Fuse.thy ===== *)
theory Fuse
  imports Format
begin

text \<open>
  The file system calls (\<^verbatim>\<open>src/fuse.c\<close>). Each callback returns its result and the state; the globals
  \<^verbatim>\<open>disk\<close> and \<^verbatim>\<open>cache_s\<close> are the state. \<^verbatim>\<open>libfuse\<close> itself is not modelled: the calls of its \<^verbatim>\<open>filler\<close> are
  returned as a list.
\<close>

section \<open>Attributes and directories\<close>

definition EISDIR :: int where "EISDIR = 21"

definition nbtrfs_access :: "fs \<Rightarrow> string \<Rightarrow> (int \<times> fs) option" where
  "nbtrfs_access s path = do {
     (pair, s) \<leftarrow> item_search s path;
     Some (if ip_inode pair \<noteq> 0 \<or> ip_btree pair \<noteq> 0 then 0 else - ENOENT, s)
   }"

record stat =
  st_mode :: u32
  st_size :: u64
  st_uid :: u32
  st_gid :: u32
  st_nlink :: u64
  st_ctime :: u64
  st_mtime :: u64
  st_atime :: u64
  st_ino :: u64

definition stat_of :: "Inode \<Rightarrow> u64 \<Rightarrow> stat" where
  "stat_of node ino =
     \<lparr>st_mode = mode node, st_size = i_size node, st_uid = owner_id node, st_gid = group_id node,
      st_nlink = reference_count node, st_ctime = i_creation_time node, st_mtime = modification_time node,
      st_atime = access_time node, st_ino = ino\<rparr>"

text \<open>The attributes, or \<open>None\<close> for \<^verbatim>\<open>-ENOENT\<close>. A failed read of the inode leaves it uninitialised.\<close>

definition nbtrfs_getattr :: "fs \<Rightarrow> string \<Rightarrow> (stat option \<times> fs) option" where
  "nbtrfs_getattr s path = do {
     (pair, s) \<leftarrow> item_search s path;
     if ip_inode pair \<noteq> 0 \<or> ip_btree pair \<noteq> 0 then do {
       (node, s) \<leftarrow> inode_read s (ip_inode pair);
       node \<leftarrow> node;
       Some (Some (stat_of node (ip_inode pair)), s)
     }
     else Some (None, s)
   }"

text \<open>An assertion that the attributes were found.\<close>

definition stat_or_abort :: "fs \<Rightarrow> string \<Rightarrow> (stat \<times> fs) option" where
  "stat_or_abort s path = do {
     (st, s) \<leftarrow> nbtrfs_getattr s path;
     st \<leftarrow> st;
     Some (st, s)
   }"

text \<open>The absolute path of an entry, cut off to fit its buffer.\<close>

definition entry_path :: "string \<Rightarrow> string \<Rightarrow> string" where
  "entry_path path name = take (PATH_MAX - 1) (if 0 < count_l path then path @ slash # name else path @ name)"

fun fill_entries :: "fs \<Rightarrow> string \<Rightarrow> DirEntry list \<Rightarrow> ((string \<times> stat) list \<times> fs) option" where
  "fill_entries s path [] = Some ([], s)"
| "fill_entries s path (e # es) = do {
     name \<leftarrow> str_of_bytes (de_name e);
     (st, s) \<leftarrow> stat_or_abort s (entry_path path name);
     (xs, s) \<leftarrow> fill_entries s path es;
     Some ((name, st) # xs, s)
   }"

definition nbtrfs_readdir :: "fs \<Rightarrow> string \<Rightarrow> ((string \<times> stat) list \<times> fs) option" where
  "nbtrfs_readdir s path = do {
     let l = count_l path;
     (st, s) \<leftarrow> stat_or_abort s path;
     (dots, s) \<leftarrow>
       (if 0 < l then do {
          parent \<leftarrow> parent_path path l;
          (up, s) \<leftarrow> stat_or_abort s parent;
          Some ([(''.'', st), (''..'', up)], s)
        }
        else Some ([(''.'', st)], s));
     (es, s) \<leftarrow> directory_list s path;
     es \<leftarrow> es;
     (xs, s) \<leftarrow> fill_entries s path es;
     Some (dots @ xs, s)
   }"

section \<open>Journalled operations\<close>

text \<open>
  Making an object does the operation first and writes the entry afterwards, with the inode number;
  the other operations write the entry first. The path is copied to the entry.
\<close>

definition nbtrfs_mknod :: "env \<Rightarrow> fs \<Rightarrow> string \<Rightarrow> u32 \<Rightarrow> (int \<times> fs) option" where
  "nbtrfs_mknod env s path md = do {
     let e = strncpy PATH_MAX path (set_je_synced False (set_je_type MKNOD (stack env s))) JE_PATH;
     let e = store64 0 (store32 md e JE_MODE) JE_INODE;
     (rv, ino, s) \<leftarrow> metadata_mknod (initialize_journal_entry env) env s path md False None;
     let e = (case ino of None \<Rightarrow> e | Some i \<Rightarrow> store64 i e JE_INODE);
     s \<leftarrow> initialize_journal_entry env s e;
     Some (rv, s)
   }"

definition nbtrfs_create :: "env \<Rightarrow> fs \<Rightarrow> string \<Rightarrow> u32 \<Rightarrow> (int \<times> fs) option" where
  "nbtrfs_create env s path md = nbtrfs_mknod env s path (md OR S_IFREG)"

definition nbtrfs_mkdir :: "env \<Rightarrow> fs \<Rightarrow> string \<Rightarrow> u32 \<Rightarrow> (int \<times> fs) option" where
  "nbtrfs_mkdir env s path md = nbtrfs_mknod env s path (md OR S_IFDIR)"

definition new_entry_for :: "env \<Rightarrow> fs \<Rightarrow> u32 \<Rightarrow> string \<Rightarrow> block option" where
  "new_entry_for env s ty path = strcpy PATH_MAX path (set_je_synced False (set_je_type ty (stack env s))) JE_PATH"

definition nbtrfs_unlink :: "env \<Rightarrow> fs \<Rightarrow> string \<Rightarrow> (int \<times> fs) option" where
  "nbtrfs_unlink env s path = do {
     e \<leftarrow> new_entry_for env s UNLINK path;
     s \<leftarrow> initialize_journal_entry env s e;
     metadata_unlink s path False
   }"

definition nbtrfs_link :: "env \<Rightarrow> fs \<Rightarrow> string \<Rightarrow> string \<Rightarrow> (int \<times> fs) option" where
  "nbtrfs_link env s from to = do {
     e \<leftarrow> new_entry_for env s LINK from;
     e \<leftarrow> strcpy PATH_MAX to e JE_TO;
     s \<leftarrow> initialize_journal_entry env s e;
     metadata_link (initialize_journal_entry env) env s from to False
   }"

definition nbtrfs_rmdir :: "env \<Rightarrow> fs \<Rightarrow> string \<Rightarrow> (int \<times> fs) option" where
  "nbtrfs_rmdir env s path = nbtrfs_unlink env s path"

definition nbtrfs_rename :: "env \<Rightarrow> fs \<Rightarrow> string \<Rightarrow> string \<Rightarrow> (int \<times> fs) option" where
  "nbtrfs_rename env s from to = do {
     e \<leftarrow> new_entry_for env s RENAME from;
     e \<leftarrow> strcpy PATH_MAX to e JE_TO;
     s \<leftarrow> initialize_journal_entry env s e;
     metadata_rename (initialize_journal_entry env) env s from to False
   }"

definition nbtrfs_chmod :: "env \<Rightarrow> fs \<Rightarrow> string \<Rightarrow> u32 \<Rightarrow> (int \<times> fs) option" where
  "nbtrfs_chmod env s path md = do {
     e \<leftarrow> new_entry_for env s CHMOD path;
     s \<leftarrow> initialize_journal_entry env s (store32 md e JE_MODE);
     metadata_chmod s path md False
   }"

definition nbtrfs_truncate :: "env \<Rightarrow> fs \<Rightarrow> string \<Rightarrow> u64 \<Rightarrow> (int \<times> fs) option" where
  "nbtrfs_truncate env s path sz = do {
     e \<leftarrow> new_entry_for env s TRUNCATE path;
     s \<leftarrow> initialize_journal_entry env s (store64 sz e JE_SIZE);
     metadata_truncate s path sz False
   }"

section \<open>Reading and writing\<close>

text \<open>
  The position in the file, an \<^verbatim>\<open>off_t\<close>: the page is a signed quotient, stored in an \<^verbatim>\<open>int\<close> and passed on as a
  \<^verbatim>\<open>uint64_t\<close>, and the place in the page a signed remainder. The four bytes before the data are the
  type tag of the block, so a remainder below -4 is outside the page.
\<close>

definition page_of_offset :: "u64 \<Rightarrow> u64" where
  "page_of_offset off = word_of_int (int_of_u64 (word_of_int (c_div (sint off) (int USABLE_BLOCK_SIZE))))"

definition offset_in_page :: "u64 \<Rightarrow> int" where
  "offset_in_page off = sint off - c_div (sint off) (int USABLE_BLOCK_SIZE) * int USABLE_BLOCK_SIZE"

definition data_position :: "u64 \<Rightarrow> nat option" where
  "data_position off = (if - 4 \<le> offset_in_page off then Some (nat (4 + offset_in_page off)) else None)"

definition chunk_size :: "u64 \<Rightarrow> nat \<Rightarrow> nat" where
  "chunk_size off remaining = nat (min (int USABLE_BLOCK_SIZE - offset_in_page off) (int remaining))"

text \<open>
  The loop of \<open>nbtrfs_read\<close>, with the bytes copied to the buffer so far. The first component is the
  error of \<open>inode_get_block\<close>, or 0.
\<close>

partial_function (option) read_loop :: "fs \<Rightarrow> Inode \<Rightarrow> nat \<Rightarrow> u64 \<Rightarrow> u8 list \<Rightarrow> (int \<times> u8 list \<times> fs) option" where
  "read_loop s node remaining off buf =
     (if remaining = 0 then Some (0, buf, s)
      else do {
        (rc, v, s) \<leftarrow> inode_get_block s node (page_of_offset off);
        let pnum = (case v of None \<Rightarrow> 0 | Some b \<Rightarrow> b);
        if rc \<noteq> 0 then Some (rc, buf, s)
        else if pnum = 0 then Some (0, buf, s)
        else do {
          (p, s) \<leftarrow> get_block s (inode_number node) pnum;
          b \<leftarrow> deref s p;
          let n = chunk_size off remaining;
          d \<leftarrow> data_position off;
          off' \<leftarrow> c_off (sint off + int n);
          read_loop s node (remaining - n) off' (buf @ load_bytes n b d)
        }
      })"

text \<open>
  The result and the bytes read. The size is cut off at the end of the file and then stored in an
  \<^verbatim>\<open>int\<close>; a negative one reads nothing.
\<close>

definition nbtrfs_read :: "fs \<Rightarrow> string \<Rightarrow> u64 \<Rightarrow> u64 \<Rightarrow> (int \<times> u8 list \<times> fs) option" where
  "nbtrfs_read s path sz off = do {
     (pair, s) \<leftarrow> item_search s path;
     if ip_inode pair = 0 \<and> ip_btree pair = 0 then Some (- ENOENT, [], s)
     else if ip_btree pair \<noteq> 0 then Some (- EISDIR, [], s)
     else do {
       (r, s) \<leftarrow> inode_read s (ip_inode pair);
       (case r of
          None \<Rightarrow> Some (-1, [], s)
        | Some node \<Rightarrow>
            if i_size node \<le> off then Some (0, [], s)
            else do {
              let sz = (if i_size node < off + sz then i_size node - off else sz);
              (rc, buf, s) \<leftarrow> read_loop s node (nat (int_of_u64 sz)) off [];
              Some (if rc \<noteq> 0 then rc else int (length buf), buf, s)
            })
     }
   }"

text \<open>
  A block for a page of the file: the inode's, or a new and cleared one, which is journalled. The
  flag \<^verbatim>\<open>synced\<close> of the entry is not set. \<open>sz\<close> is the size of the whole write.
\<close>

definition page_or_new :: "env \<Rightarrow> fs \<Rightarrow> Inode \<Rightarrow> u64 \<Rightarrow> u64 \<Rightarrow> ((u64 \<times> Inode) option \<times> fs) option" where
  "page_or_new env s node ix sz = do {
     (_, v, s) \<leftarrow> inode_get_block s node ix;
     let pnum = (case v of None \<Rightarrow> 0 | Some b \<Rightarrow> b);
     if pnum \<noteq> 0 then Some (Some (pnum, node), s)
     else do {
       (pnum, s) \<leftarrow> alloc_page s;
       if pnum = 0 then Some (None, s)
       else do {
         (p, s) \<leftarrow> get_block s (inode_number node) pnum;
         s \<leftarrow> modify s p (\<lambda>b. Some (clear_payload (set_btype BLOCK_TYPE_DATA b)));
         (_, node, s) \<leftarrow> inode_set_block s node ix pnum;
         (_, s) \<leftarrow> inode_write s node False;
         s \<leftarrow> initialize_journal_entry env s
                (store64 sz (write_entry (stack env s) (inode_number node) ix pnum) JE_W_SIZE);
         Some (Some (pnum, node), s)
       }
     }
   }"

text \<open>The loop of \<open>nbtrfs_write\<close>: \<open>buf\<close> is what is left to write. The flag says that the disk is full.\<close>

partial_function (option) write_loop ::
  "env \<Rightarrow> fs \<Rightarrow> u64 \<Rightarrow> Inode \<Rightarrow> u64 \<Rightarrow> u8 list \<Rightarrow> u64 \<Rightarrow> nat \<Rightarrow> (bool \<times> nat \<times> Inode \<times> fs) option" where
  "write_loop env s ino node sz buf off bytes_written =
     (if buf = [] then Some (False, bytes_written, node, s)
      else do {
        (x, s) \<leftarrow> page_or_new env s node (page_of_offset off) sz;
        (case x of
           None \<Rightarrow> Some (True, bytes_written, node, s)
         | Some (pnum, node) \<Rightarrow> do {
             (p, s) \<leftarrow> get_block s (inode_number node) pnum;
             s \<leftarrow> increase_pin_count s ino pnum;
             let n = chunk_size off (length buf);
             d \<leftarrow> data_position off;
             s \<leftarrow> modify s p (\<lambda>b. Some (store_bytes (take n buf) b d));
             s \<leftarrow> write_block s p (inode_number node) pnum;
             s \<leftarrow> decrease_pin_count s ino pnum;
             off' \<leftarrow> c_off (sint off + int n);
             write_loop env s ino node sz (drop n buf) off' (bytes_written + n)
           })
      })"

text \<open>The buffer holds \<^verbatim>\<open>size\<close> bytes, and the \<^verbatim>\<open>int\<close> of that many are written.\<close>

definition nbtrfs_write :: "env \<Rightarrow> fs \<Rightarrow> string \<Rightarrow> u8 list \<Rightarrow> u64 \<Rightarrow> (int \<times> fs) option" where
  "nbtrfs_write env s path buf off = do {
     (pair, s) \<leftarrow> item_search s path;
     if ip_btree pair \<noteq> 0 then Some (- EISDIR, s)
     else do {
       (pair, s) \<leftarrow>
         (if ip_inode pair = 0 then do {
            (_, s) \<leftarrow> nbtrfs_mknod env s path (S_IFREG OR 0x1A4);
            item_search s path
          }
          else Some (pair, s));
       (r, s) \<leftarrow> inode_read s (ip_inode pair);
       (case r of
          None \<Rightarrow> Some (0, s)
        | Some node \<Rightarrow> do {
            let sz = of_nat (length buf);
            (full, n, node, s) \<leftarrow> write_loop env s (ip_inode pair) node sz (take (nat (int_of_u64 sz)) buf) off 0;
            if full then Some (int n, s)
            else do {
              e \<leftarrow> c_off (sint off + int n);
              if i_size node < e then do {
                (_, s) \<leftarrow> inode_write s (node\<lparr>i_size := e\<rparr>) False;
                Some (int n, s)
              }
              else Some (int n, s)
            }
          })
     }
   }"

section \<open>Callbacks without effect on the volume\<close>

record fuse_file_info =
  direct_io :: bool
  keep_cache :: bool

definition nbtrfs_open :: "string \<Rightarrow> fuse_file_info \<Rightarrow> int \<times> fuse_file_info" where
  "nbtrfs_open path fi = (0, fi\<lparr>direct_io := True, keep_cache := False\<rparr>)"

definition nbtrfs_ioctl :: "string \<Rightarrow> int" where
  "nbtrfs_ioctl path = -1"

text \<open>\<open>atomic_o_trunc\<close> is the bit \<^verbatim>\<open>FUSE_CAP_ATOMIC_O_TRUNC\<close> of the FUSE library.\<close>

record fuse_conn_info =
  capable :: u32
  want :: u32

definition nbtrfs_init :: "u32 \<Rightarrow> fuse_conn_info \<Rightarrow> fuse_conn_info" where
  "nbtrfs_init atomic_o_trunc conn =
     (if capable conn AND atomic_o_trunc \<noteq> 0 then conn\<lparr>want := want conn OR atomic_o_trunc\<rparr> else conn)"

section \<open>Times, synchronisation and shutdown\<close>

text \<open>Each time is \<^verbatim>\<open>tv_sec * 1000000000ULL + tv_nsec\<close>.\<close>

definition nbtrfs_utimens :: "fs \<Rightarrow> string \<Rightarrow> u64 \<times> u64 \<Rightarrow> u64 \<times> u64 \<Rightarrow> (int \<times> fs) option" where
  "nbtrfs_utimens s path at mt = do {
     (pair, s) \<leftarrow> item_search s path;
     (r, s) \<leftarrow> inode_read s (ip_inode pair);
     (case r of
        None \<Rightarrow> Some (-1, s)
      | Some node \<Rightarrow> inode_write s (node\<lparr>access_time := fst at * 1000000000 + snd at,
                                        modification_time := fst mt * 1000000000 + snd mt\<rparr>) False)
   }"

text \<open>\<open>nbtrfs_fsync\<close> is declared to return an \<^verbatim>\<open>int\<close> but returns no value.\<close>

definition nbtrfs_fsync :: "fs \<Rightarrow> string \<Rightarrow> fs option" where
  "nbtrfs_fsync s path = do {
     (pair, s) \<leftarrow> item_search s path;
     cache_fsync s (ip_inode pair)
   }"

text \<open>At unmount the entries are marked, not replayed, and the cache is written back and freed.\<close>

definition nbtrfs_destroy :: "fs \<Rightarrow> fs option" where
  "nbtrfs_destroy s = do {
     s \<leftarrow> mark_journal_synced s;
     s \<leftarrow> cache_sync s;
     c \<leftarrow> free_cache (cache_s s);
     Some (s\<lparr>cache_s := c\<rparr>)
   }"

end
