(* ===== verification/Create.thy ===== *)
theory Create
  imports Dir_Blocks Fuse
begin

text \<open>
  Making a file in the root directory, from \<open>nbtrfs_mknod\<close> down to the blocks. The steps are described by
  what they do to an abstract volume: the inodes, which of them are taken, the free blocks, the names of
  the root directory with what their leaves say, and the number of open slots in the journal.
\<close>

section \<open>The abstract volume\<close>

record vol =
  v_inode :: "nat \<Rightarrow> Inode"
  v_taken :: "nat \<Rightarrow> bool"
  v_free :: "nat set"
  v_names :: "(u64 \<times> u64) list"
  v_leaf :: "u64 \<Rightarrow> u64 \<times> u32"
  v_slots :: nat

definition leaf_says :: "fs \<Rightarrow> u64 \<Rightarrow> u64 \<times> u32" where
  "leaf_says s c = (n_value (node_at s c), file_type (node_at s c))"

definition models :: "fs \<Rightarrow> nat \<Rightarrow> nat \<Rightarrow> vol \<Rightarrow> bool" where
  "models s M r a \<longleftrightarrow> root_dir s M r (v_names a) \<and> open_ahead s (v_slots a) \<and> free_set s = v_free a \<and>
     (\<forall>m < M. inode_of s m = v_inode a m \<and> inode_used s m = v_taken a m) \<and>
     (\<forall>q \<in> set (v_names a). leaf_says s (snd q) = v_leaf a (snd q))"

text \<open>\<open>kept D s s'\<close>: a step of the volume that changes no data block outside \<open>D\<close>.\<close>

definition kept :: "u64 set \<Rightarrow> fs \<Rightarrow> fs \<Rightarrow> bool" where
  "kept D s s' \<longleftrightarrow> moves ({b. btype (view s b) \<noteq> BLOCK_TYPE_DATA} \<union> D) s s'"

lemma kept_trans:
  assumes "kept D s t" and "kept E t u"
  shows "kept (D \<union> E) s u"
proof -
  note A = movesD [OF assms(1) [unfolded kept_def]] and B = movesD [OF assms(2) [unfolded kept_def]]
  have "view u b = view s b" if b: "used s b" and n: "b \<notin> {b. btype (view s b) \<noteq> BLOCK_TYPE_DATA} \<union> (D \<union> E)" for b
  proof -
    have "view t b = view s b" using n by (intro A(5) [OF b]) auto
    moreover from this have "view u b = view t b" using n by (intro B(5) [OF A(3) [OF b]]) auto
    ultimately show ?thesis by simp
  qed
  then show ?thesis
    using st.keeps_trans [OF A(1) B(1)] A(2-4) B(2-4) unfolding kept_def moves_def by simp
qed

lemma kept_moves:
  assumes "moves X s s'" and "\<And>c. c \<in> X \<Longrightarrow> used s c \<Longrightarrow> btype (view s c) \<noteq> BLOCK_TYPE_DATA \<or> c \<in> D"
  shows "kept D s s'"
proof -
  note A = movesD [OF assms(1)]
  have "view s' b = view s b" if "used s b" "b \<notin> {b. btype (view s b) \<noteq> BLOCK_TYPE_DATA} \<union> D" for b
    using that assms(2) [of b] A(5) by blast
  then show ?thesis using A(1-4) unfolding kept_def moves_def by simp
qed

lemma keptD:
  assumes "kept D s s'"
  shows "st.keeps s s'" and "used s b \<Longrightarrow> used s' b" and "used s b \<Longrightarrow> btype (view s' b) = btype (view s b)"
    and "used s b \<Longrightarrow> btype (view s b) = BLOCK_TYPE_DATA \<Longrightarrow> b \<notin> D \<Longrightarrow> view s' b = view s b" and "sound s M \<Longrightarrow> sound s' M"
    and "shape s' = shape s"
  using assms sound_moves movesD [OF assms [unfolded kept_def]] unfolding kept_def by auto

lemma modelsD:
  assumes "models s M r a"
  shows "root_dir s M r (v_names a)" and "sound s M" and "store_ok s" and "open_ahead s (v_slots a)" and "free_set s = v_free a"
    and "m < M \<Longrightarrow> inode_of s m = v_inode a m" and "m < M \<Longrightarrow> inode_used s m = v_taken a m"
    and "flat_at s (btree_root (sb_of s)) (v_names a)" and "r < M"
  using assms root_dirD(1,2,3,8) [of s M r "v_names a"] by (auto simp: models_def)

text \<open>
  What a step that changes no tree node does to the abstract volume. The block bitmap may change, but
  the part of the inodes has to be shown.
\<close>

lemma models_step:
  assumes S: "models s M r a" and m: "moves X s s'" and k: "open_ahead s' k"
    and X: "\<And>c. c \<in> X \<Longrightarrow> used s c \<Longrightarrow> btype (view s c) \<noteq> BLOCK_TYPE_BTREE_NODE"
    and I: "\<And>m. m < M \<Longrightarrow> inode_of s' m = I m \<and> inode_used s' m = U m" and num: "inode_number (I r) = of_nat r"
  shows "models s' M r (a\<lparr>v_inode := I, v_taken := U, v_free := free_set s', v_slots := k\<rparr>)"
proof -
  note D = root_dirD [OF modelsD(1) [OF S]] and Sh = shape_fields [OF movesD(2) [OF m]]
  have nx: "c \<notin> X" if "c \<in> insert (btree_root (sb_of s)) (snd ` set (v_names a))" for c
    using flat_at_blocks [OF D(2) that] X [of c] by (auto simp: used_def is_node_def)
  have f: "flat_at s' (btree_root (sb_of s)) (v_names a)" by (rule moves_flat [OF D(2) m]) (use nx in auto)
  have n: "node_at s' c = node_at s c" if "c \<in> insert (btree_root (sb_of s)) (snd ` set (v_names a))" for c
    using moves_node(2) [OF _ _ m nx [OF that]] flat_at_blocks [OF D(2) that] by (simp add: used_def)
  have "root_dir s' M r (v_names a)"
    using sound_moves [OF D(1) m] f n D(3,7) I [OF D(3)] num by (simp add: root_dir_def Sh)
  moreover have "\<forall>q \<in> set (v_names a). leaf_says s' (snd q) = v_leaf a (snd q)"
    using S n by (simp add: models_def leaf_says_def)
  ultimately show ?thesis using k I by (simp add: models_def)
qed

text \<open>A step that changes neither inodes nor tree nodes, the journal or the inode bitmap.\<close>

lemma models_plain:
  assumes S: "models s M r a" and m: "moves X s s'" and h: "journal_head (sb_of s') = journal_head (sb_of s)"
    and X: "\<And>c. c \<in> X \<Longrightarrow> used s c \<Longrightarrow> btype (view s c) \<notin> {BLOCK_TYPE_BTREE_NODE, BLOCK_TYPE_INODE, BLOCK_TYPE_JOURNAL} \<and>
      (btype (view s c) = BLOCK_TYPE_BITMAP \<longrightarrow> (\<exists>j < nblocks s. c = bitmap_block j))"
  shows "models s' M r (a\<lparr>v_free := free_set s'\<rparr>)"
proof -
  note D = modelsD [OF S]
  have I: "inode_of s' n = v_inode a n \<and> inode_used s' n = v_taken a n" if n: "n < M" for n
  proof -
    note J = sound_inode [OF D(2) n]
    have "inode_home s n \<notin> X" using X J(3,6) by blast
    moreover have "inode_bit_block s n \<notin> X" using X J(4,7,8) by blast
    ultimately show ?thesis using moves_inode [OF D(2) m n] D(6,7) [OF n] by simp
  qed
  have "open_ahead s' (v_slots a)" using X by (intro open_moves [OF D(4,2) m h]) auto
  moreover have "inode_number (v_inode a r) = of_nat r" using root_dirD(3,9) [OF D(1)] D(6) by auto
  ultimately have "models s' M r (a\<lparr>v_inode := v_inode a, v_taken := v_taken a, v_free := free_set s', v_slots := v_slots a\<rparr>)"
    using X I by (intro models_step [OF S m]) auto
  then show ?thesis by simp
qed

lemma models_quiet:
  assumes S: "models s M r a" and k: "st.keeps s s'" and v: "view s' = view s"
  shows "models s' M r a" and "kept {} s s'"
proof -
  have m: "moves {} s s'" using k st.keepsD(2) [OF k] by (simp add: moves_def shape_def used_def block_used_def sb_of_def v)
  have "free_set s' = free_set s" using moves_free_set [OF modelsD(2) [OF S] m] by simp
  then have "a\<lparr>v_free := free_set s'\<rparr> = a" using modelsD(5) [OF S] by simp
  moreover have "journal_head (sb_of s') = journal_head (sb_of s)" by (simp add: sb_of_def v)
  ultimately show "models s' M r a" using models_plain [OF S m] by simp
  show "kept {} s s'" by (rule kept_moves [OF m]) simp
qed

lemmas models_silent = models_quiet [OF _ st.silentD(1) st.silentD(2)]

section \<open>The steps on the abstract volume\<close>

lemma alloc_step:
  assumes S: "models s M r a" and fr: "v_free a \<noteq> {}"
  obtains i s' where "alloc_page s = Some (of_nat i, s')" and "i \<in> v_free a" and "of_nat i \<noteq> (0 :: u64)" and "\<not> used s (of_nat i)"
    and "used s' (of_nat i)" and "models s' M r (a\<lparr>v_free := v_free a - {i}\<rparr>)" and "kept {} s s'" and "moves {0, bitmap_block i} s s'"
proof -
  note D = modelsD [OF S]
  obtain i s' where a: "alloc_page s = Some (of_nat i, s')" "i \<in> free_set s" "of_nat i \<noteq> (0 :: u64)" "moves {0, bitmap_block i} s s'"
      "used s' (of_nat i)" "free_set s' = free_set s - {i}" "journal_head (sb_of s') = journal_head (sb_of s)"
    by (rule alloc_moves [OF D(2)]) (use fr D(5) in simp)
  have i: "i < nblocks s" using a(2) by (simp add: free_set_def)
  note T = soundD(6) [OF D(2)] soundD(8) [OF D(2) i]
  have "models s' M r (a\<lparr>v_free := free_set s'\<rparr>)"
    using T i by (intro models_plain [OF S a(4,7)]) (auto simp: block_types)
  moreover have "kept {} s s'" using T by (intro kept_moves [OF a(4)]) (auto simp: block_types)
  ultimately show thesis using a D(5) free_word(2) [OF D(3) a(2)] by (intro that [of i s']) simp_all
qed

lemma inode_write_step:
  assumes S: "models s M r a" and n: "n < M" and num: "inode_number i = of_nat n" and len: "length (direct_blocks i) = 12"
  obtains s' where "inode_write s i wt = Some (0, s')" and "models s' M r (a\<lparr>v_inode := (v_inode a)(n := i)\<rparr>)" and "kept {} s s'"
    and "moves {inode_home s n} s s'" and "\<And>b. b \<noteq> inode_home s n \<Longrightarrow> view s' b = view s b"
proof -
  note D = modelsD [OF S]
  obtain s' where w: "inode_write s i wt = Some (0, s')" "moves {inode_home s n} s s'" "inode_of s' n = i"
      "\<And>m. m < M \<Longrightarrow> m \<noteq> n \<Longrightarrow> inode_of s' m = inode_of s m" "sb_of s' = sb_of s" "\<And>b. b \<noteq> inode_home s n \<Longrightarrow> view s' b = view s b"
    by (rule inode_write_moves [OF D(2) n num len, of wt]) (rule that)
  note T = sound_inode(6) [OF D(2) n]
  have "bitmap_block j \<notin> {inode_home s n}" if "j < nblocks s" for j using soundD(8) [OF D(2) that] T by (auto simp: block_types)
  then have fs: "free_set s' = v_free a" using moves_free_set [OF D(2) w(2)] D(5) by simp
  have op: "open_ahead s' (v_slots a)" by (rule open_moves [OF D(4,2) w(2)]) (use w(5) T in \<open>auto simp: block_types\<close>)
  have U: "inode_used s' m = v_taken a m" if "m < M" for m
  proof -
    have "inode_bit_block s m \<notin> {inode_home s n}" using sound_inode(7) [OF D(2) that] T by (auto simp: block_types)
    then show ?thesis using moves_inode(2) [OF D(2) w(2) that] D(7) [OF that] by simp
  qed
  have nr: "inode_number (((v_inode a)(n := i)) r) = of_nat r"
    using root_dirD(9) [OF D(1)] D(6) [OF D(9)] num by auto
  have "models s' M r (a\<lparr>v_inode := (v_inode a)(n := i), v_taken := v_taken a, v_free := free_set s', v_slots := v_slots a\<rparr>)"
    using w(3,4) U D(6) T nr
    by (intro models_step [OF S w(2) op, where I = "(v_inode a)(n := i)" and U = "v_taken a"]) (auto simp: block_types)
  moreover have "kept {} s s'" using T by (intro kept_moves [OF w(2)]) (auto simp: block_types)
  ultimately show thesis using w(1,2,6) fs by (intro that [of s']) simp_all
qed

lemma journal_step:
  assumes S: "models s M r a" and sl: "v_slots a = Suc k" and prep: "prepare_entry s e = Some (e', s)"
  obtains s' where "initialize_journal_entry env s e = Some s'" and "models s' M r (a\<lparr>v_slots := k\<rparr>)" and "kept {} s s'"
    and "moves {0, head_block s} s s'"
    and "view s' (head_block s) = copy_entry (set_je_block (head_block s) e') (view s (head_block s))"
    and "disk_image s' (unat (head_block s)) = view s' (head_block s)"
proof -
  note D = modelsD [OF S]
  have op: "open_ahead s (Suc k)" using D(4) sl by simp
  obtain s' where j: "initialize_journal_entry env s e = Some s'" "moves {0, head_block s} s s'" "open_ahead s' k" "free_set s' = free_set s"
      "view s' (head_block s) = copy_entry (set_je_block (head_block s) e') (view s (head_block s))"
      "disk_image s' (unat (head_block s)) = view s' (head_block s)"
    by (rule journal_moves [OF D(2) op prep, of env]) (rule that)
  have T: "btype (view s (head_block s)) = BLOCK_TYPE_JOURNAL" "btype (view s 0) = BLOCK_TYPE_SUPER"
    using open_ahead_head [OF op] soundD(6) [OF D(2)] by (simp_all add: open_slot_def)
  have I: "inode_of s' m = v_inode a m \<and> inode_used s' m = v_taken a m" if m: "m < M" for m
  proof -
    note J = sound_inode(6,7) [OF D(2) m]
    have "inode_home s m \<notin> {0, head_block s}" "inode_bit_block s m \<notin> {0, head_block s}" using J T by (auto simp: block_types)
    then show ?thesis using moves_inode [OF D(2) j(2) m] D(6,7) [OF m] by simp
  qed
  have num: "inode_number (v_inode a r) = of_nat r" using root_dirD(9) [OF D(1)] D(6) [OF D(9)] by simp
  have "models s' M r (a\<lparr>v_inode := v_inode a, v_taken := v_taken a, v_free := free_set s', v_slots := k\<rparr>)"
    using T I num by (intro models_step [OF S j(2,3), where I = "v_inode a" and U = "v_taken a"]) (auto simp: block_types)
  moreover have "kept {} s s'" using T by (intro kept_moves [OF j(2)]) (auto simp: block_types)
  ultimately show thesis using j D(5) by (intro that [of s']) simp_all
qed

text \<open>New contents for a data block, whose entries and pages are not part of the abstract volume.\<close>

lemma data_step:
  assumes S: "models s M r a" and d: "used s d" "btype (view s d) = BLOCK_TYPE_DATA"
    and k: "st.keeps s s'" and v: "view s' = (view s)(d := x)" and x: "btype x = BLOCK_TYPE_DATA"
  shows "models s' M r a" and "kept {d} s s'"
proof -
  note D = modelsD [OF S]
  have nb: "d \<noteq> 0" "\<And>j. j < nblocks s \<Longrightarrow> d \<noteq> bitmap_block j" using not_bitmap [OF D(2), of d] d(2) by (auto simp: block_types)
  have m: "moves {d} s s'" by (rule moves_one [OF D(2) k v _ nb]) (use d x in auto)
  have "journal_head (sb_of s') = journal_head (sb_of s)" using nb(1) by (simp add: sb_of_def v)
  then have "models s' M r (a\<lparr>v_free := free_set s'\<rparr>)" using d(2) by (intro models_plain [OF S m]) (auto simp: block_types)
  moreover have "bitmap_block j \<notin> {d}" if "j < nblocks s" for j using nb(2) [OF that] by blast
  then have "free_set s' = v_free a" using moves_free_set [OF D(2) m] D(5) by simp
  ultimately show "models s' M r a" by simp
  show "kept {d} s s'" by (rule kept_moves [OF m]) simp
qed

text \<open>New contents, with a new tag, for a block \<open>d\<close> that was free in \<open>s\<close>.\<close>

lemma fresh_step:
  assumes S: "models s M r a" and m: "moves X s t" and X: "\<And>c. c \<in> X \<Longrightarrow> used s c \<Longrightarrow> btype (view s c) \<noteq> BLOCK_TYPE_BTREE_NODE"
    and T: "models t M r b" and names: "v_names b = v_names a" "v_leaf b = v_leaf a"
    and d: "\<not> used s d" and k: "st.keeps t u" and v: "view u = (view t)(d := x)"
  shows "models u M r b" and "moves X s u"
proof -
  note D = modelsD [OF S] and E = modelsD [OF T]
  show mv: "moves X s u" by (rule moves_fresh [OF D(2) m d k v])
  note K = st.keepsD [OF k] and Sh = shape_fields [OF movesD(2) [OF m]] and n = st.keepsD(2) [OF movesD(1) [OF m]]
  have v': "view u c = view t c" if "used s c" for c using that d by (auto simp: v)
  have sb: "sb_of u = sb_of t" using v' [OF soundD(5) [OF D(2)]] by (simp add: sb_of_def)
  have "block_used u j = block_used t j" if "j < nblocks s" for j using v' [OF soundD(7) [OF D(2) that]] by (simp add: block_used_def)
  then have fs: "free_set u = v_free b" using E(5) K(2) n by (auto simp: free_set_def)
  have I: "inode_of u m = v_inode b m \<and> inode_used u m = v_taken b m" if mM: "m < M" for m
  proof -
    have h: "inode_home u m = inode_home s m" "inode_bit_block u m = inode_bit_block s m" using Sh
      by (simp_all add: inode_home_def inode_bit_block_def inode_table_def sb)
    have "view u (inode_home s m) = view t (inode_home s m)" "view u (inode_bit_block s m) = view t (inode_bit_block s m)"
      using v' sound_inode(3,4) [OF D(2) mM] by simp_all
    then show ?thesis using E(6,7) [OF mM] Sh by (simp add: inode_of_def inode_used_def h)
  qed
  have op: "open_ahead u (v_slots b)"
  proof -
    have "open_slot u (slot s j) = open_slot t (slot s j)" if "j < ring_size (sb_of s)" for j
    proof -
      have "used s (slot s j)" using D(2) that by (simp add: sound_def)
      then show ?thesis using v' K(3) by (simp add: open_slot_def)
    qed
    moreover have "0 < ring_size (sb_of s)" using D(4) by (auto simp: open_ahead_def)
    ultimately show ?thesis using E(4) Sh by (simp add: open_ahead_def sb)
  qed
  have "inode_number (v_inode b r) = of_nat r" using root_dirD(9) [OF E(1)] E(6) [OF E(9)] by simp
  then have "models u M r (a\<lparr>v_inode := v_inode b, v_taken := v_taken b, v_free := free_set u, v_slots := v_slots b\<rparr>)"
    using X I by (intro models_step [OF S mv op, where I = "v_inode b" and U = "v_taken b"]) auto
  moreover have "a\<lparr>v_inode := v_inode b, v_taken := v_taken b, v_free := v_free b, v_slots := v_slots b\<rparr> = b" using names by simp
  ultimately show "models u M r b" using fs by simp
qed

lemma kept_fresh:
  assumes "sound s M" and "kept D s t" and "\<not> used s d" and "st.keeps t u" and "view u = (view t)(d := x)"
  shows "kept D s u"
  using moves_fresh [OF assms(1) assms(2) [unfolded kept_def] assms(3-5)] by (simp add: kept_def)

text \<open>Giving such a block its tag, once it has been allocated.\<close>

lemma fresh_block_step:
  assumes S: "models s M r a" and m: "moves X s t" and X: "\<And>c. c \<in> X \<Longrightarrow> used s c \<Longrightarrow> btype (view s c) \<noteq> BLOCK_TYPE_BTREE_NODE"
    and T: "models t M r b" and names: "v_names b = v_names a" "v_leaf b = v_leaf a"
    and d: "\<not> used s d" "used t d" and k: "kept {} s t"
  obtains p t' u where "get_block t ino d = Some (p, t')" and "modify t' p (\<lambda>x. Some (f x)) = Some u" and "points u p d" and "models u M r b"
    and "kept {} s u" and "used u d" and "view u d = f (view t d)"
proof -
  have lim: "unat d < nblocks t" using d(2) by (simp add: used_def)
  obtain p t' where g: "get_block t ino d = Some (p, t')" "st.silent t t'" "points t' p d"
    using st.get_silent [OF modelsD(3) [OF T] lim] by blast
  note m1 = models_silent [OF T g(2,2)]
  obtain u where u: "modify t' p (\<lambda>x. Some (f x)) = Some u" "st.changes t' u d (f (view t' d))"
    using st.store_changes [OF modelsD(3) [OF m1(1)] g(3)] st.load_view [OF modelsD(3) [OF m1(1)] g(3)] by (auto simp: modify_def)
  note C = st.changesD [OF u(2)]
  have mv: "moves X s t'" using moves_trans [OF m moves_silent [OF g(2)]] by simp
  have mu: "models u M r b" by (rule fresh_step(1) [OF S mv X m1(1) names d(1) C(1,2)])
  have ku: "kept {} s u" using kept_fresh [OF modelsD(2) [OF S] kept_trans [OF k m1(2)] d(1) C(1,2)] by simp
  have "free_set u = free_set t'" using modelsD(5) [OF mu] modelsD(5) [OF m1(1)] by simp
  then have "used u d" using keptD(2) [OF m1(2) d(2)] st.keepsD(2) [OF C(1)] by (auto simp: used_def free_set_def)
  moreover have "view u d = f (view t d)" using st.silentD(2) [OF g(2)] by (simp add: C(2))
  ultimately show thesis using g(1) u(1) st.keepsD(4) [OF C(1) g(3)] mu ku by (intro that)
qed

text \<open>Claiming the first free inode.\<close>

lemma claim_step:
  assumes S: "models s M r a" and n: "n < M" and free: "\<not> v_taken a n" and least: "\<And>m. m < n \<Longrightarrow> v_taken a m"
  obtains s' where "inode_allocate s uid gid md wt = Some (int n, s')"
    and "models s' M r (a\<lparr>v_inode := (v_inode a)(n := fresh_inode uid gid md n (v_inode a n)), v_taken := (v_taken a)(n := True)\<rparr>)"
    and "kept {} s s'"
proof -
  note D = modelsD [OF S]
  note io = sound_inode [OF D(2) n]
  obtain s' where al: "inode_allocate s uid gid md wt = Some (int n, s')" and c: "inode_claimed s s' n (fresh_inode uid gid md n (inode_of s n)) wt"
    by (rule inode_allocate_ok [OF io(1,2), of uid gid md wt]) (use D(7) n free least in auto)
  have C: "st.keeps s s'" "sb_of s' = sb_of s" "inode_of s' n = fresh_inode uid gid md n (inode_of s n)"
      "\<And>m. m \<le> n \<or> m div USABLE_BLOCK_SIZE = n div USABLE_BLOCK_SIZE \<Longrightarrow> inode_used s' m = (m = n \<or> inode_used s m)"
      "\<And>m. inode_ok s m \<Longrightarrow> m \<noteq> n \<Longrightarrow> inode_of s' m = inode_of s m"
      "\<And>b. b \<noteq> inode_bit_block s n \<Longrightarrow> b \<noteq> inode_home s n \<Longrightarrow> view s' b = view s b"
    using c by (auto simp: inode_claimed_def)
  have mv: "moves {inode_bit_block s n, inode_home s n} s s'" by (rule moves_claimed [OF D(2) n c])
  have U: "inode_used s' m = (m = n \<or> inode_used s m)" if m: "m < M" for m
  proof (cases "m \<le> n \<or> m div USABLE_BLOCK_SIZE = n div USABLE_BLOCK_SIZE")
    case False
    note J = sound_inode [OF D(2) m]
    have "inode_bit_block s m \<noteq> inode_bit_block s n"
      using inode_bit_block_unat(1) [OF D(3) J(2) order.refl] inode_bit_block_unat(1) [OF D(3) io(2) order.refl] False by auto
    moreover have "inode_bit_block s m \<noteq> inode_home s n" using J(7) io(6) by (auto simp: block_types)
    ultimately have "inode_used s' m = inode_used s m" using C(2,6) by (simp add: inode_used_def inode_bit_block_def)
    moreover have "m \<noteq> n" using False by auto
    ultimately show ?thesis by simp
  qed (use C(4) in simp)
  have nb: "bitmap_block j \<notin> {inode_bit_block s n, inode_home s n}" if j: "j < nblocks s" for j
    using io(6) io(8) [OF j] soundD(8) [OF D(2) j] by (auto simp: block_types)
  have fs: "free_set s' = v_free a" using moves_free_set [OF D(2) mv nb] D(5) by simp
  have op: "open_ahead s' (v_slots a)" by (rule open_moves [OF D(4,2) mv]) (use C(2) io(6,7) in \<open>auto simp: block_types\<close>)
  let ?I = "(v_inode a)(n := fresh_inode uid gid md n (v_inode a n))" and ?U = "(v_taken a)(n := True)"
  have "inode_number (?I r) = of_nat r" using root_dirD(9) [OF D(1)] D(6) [OF D(9)] by (simp add: fresh_inode_def)
  then have "models s' M r (a\<lparr>v_inode := ?I, v_taken := ?U, v_free := free_set s', v_slots := v_slots a\<rparr>)"
    using io(6,7) C(3,5) U D(6,7) n sound_inode(1) [OF D(2)]
    by (intro models_step [OF S mv op, where I = ?I and U = ?U]) (auto simp: block_types)
  moreover have "kept {} s s'" using io(6,7) by (intro kept_moves [OF mv]) (auto simp: block_types)
  ultimately show thesis using al fs by (intro that [of s']) simp_all
qed

text \<open>Entering a name in the tree of the root directory.\<close>

lemma insert_step:
  assumes S: "models s M r a" and fr: "v_free a \<noteq> {}" and len: "length (v_names a) < MAX_KEYS" and new: "k \<notin> fst ` set (v_names a)"
  obtains i s' where "btree_insert s (btree_root (sb_of s)) k v ty = Some (0, s')" and "i \<in> v_free a"
    and "models s' M r (a\<lparr>v_free := v_free a - {i}, v_names := with_leaf (v_names a) k (of_nat i), v_leaf := (v_leaf a)(of_nat i := (v, ty))\<rparr>)"
    and "kept {} s s'"
proof -
  note D = modelsD [OF S] and R = root_dirD [OF modelsD(1) [OF S]]
  let ?b = "btree_root (sb_of s)"
  obtain i s' where B: "btree_insert s ?b k v ty = Some (0, s')" "i \<in> free_set s" "moves ({0, bitmap_block i} \<union> {c. is_node s c}) s s'"
      "flat_at s' ?b (with_leaf (v_names a) k (of_nat i))" "n_value (node_at s' (of_nat i)) = v" "file_type (node_at s' (of_nat i)) = ty"
      "free_set s' = free_set s - {i}" "journal_head (sb_of s') = journal_head (sb_of s)"
      "\<And>c. c \<noteq> ?b \<Longrightarrow> used s c \<Longrightarrow> is_node s c \<Longrightarrow> is_node s' c \<and> node_at s' c = node_at s c"
      "n_value (node_at s' ?b) = n_value (node_at s ?b)"
    by (rule insert_moves [OF D(2) _ D(8) len new, of v ty]) (use fr D(5) in simp, rule that)
  have i: "i < nblocks s" using B(2) by (simp add: free_set_def)
  note T = soundD(6) [OF D(2)] soundD(8) [OF D(2) i] and Sh = shape_fields [OF movesD(2) [OF B(3)]]
  have I: "inode_of s' m = v_inode a m \<and> inode_used s' m = v_taken a m" if m: "m < M" for m
  proof -
    note J = sound_inode [OF D(2) m]
    have "inode_home s m \<notin> {0, bitmap_block i} \<union> {c. is_node s c}" "inode_bit_block s m \<notin> {0, bitmap_block i} \<union> {c. is_node s c}"
      using J(6,7) J(8) [OF i] T by (auto simp: is_node_def block_types)
    then show ?thesis using moves_inode [OF D(2) B(3) m] D(6,7) [OF m] by simp
  qed
  have op: "open_ahead s' (v_slots a)" by (rule open_moves [OF D(4,2) B(3,8)]) (use T in \<open>auto simp: is_node_def block_types\<close>)
  have "root_dir s' M r (with_leaf (v_names a) k (of_nat i))"
    using sound_moves [OF D(2) B(3)] B(4,10) R(3,7,9) I [OF R(3)] D(6) [OF R(3)] by (simp add: root_dir_def Sh)
  moreover have "leaf_says s' (snd q) = ((v_leaf a)(of_nat i := (v, ty))) (snd q)" if q: "q \<in> set (with_leaf (v_names a) k (of_nat i))" for q
  proof (cases "q \<in> set (v_names a)")
    case True
    then have c: "snd q \<in> insert ?b (snd ` set (v_names a))" by blast
    note F = flat_at_blocks [OF D(8) c]
    have u: "used s (snd q)" using F(2,4) by (simp add: used_def)
    have "snd q \<noteq> ?b" using D(8) True by (auto simp: flat_at_def leaf_at_def root_at_def)
    then have "leaf_says s' (snd q) = leaf_says s (snd q)" using B(9) u F(1) by (simp add: leaf_says_def)
    moreover have "snd q \<noteq> of_nat i" using u free_word(2) [OF D(3) B(2)] by auto
    ultimately show ?thesis using S True by (simp add: models_def)
  next
    case False
    then have "q = (k, of_nat i)" using q by simp
    then show ?thesis using B(5,6) by (simp add: leaf_says_def)
  qed
  ultimately have "models s' M r (a\<lparr>v_free := v_free a - {i}, v_names := with_leaf (v_names a) k (of_nat i), v_leaf := (v_leaf a)(of_nat i := (v, ty))\<rparr>)"
    using op B(7) D(5) I by (simp add: models_def)
  moreover have "kept {} s s'" using T by (intro kept_moves [OF B(3)]) (auto simp: is_node_def block_types)
  ultimately show thesis using B(1,2) D(5) by (intro that [of s' i]) simp_all
qed

lemma models_inode:
  assumes "models s M r a"
  shows "inode_number (v_inode a r) = of_nat r" and "m < M \<Longrightarrow> length (direct_blocks (v_inode a m)) = 12"
proof -
  show "inode_number (v_inode a r) = of_nat r"
    using root_dirD(9) [OF modelsD(1) [OF assms]] modelsD(6) [OF assms modelsD(9) [OF assms]] by simp
  have "length (direct_blocks (inode_of s m)) = 12" for m by (simp add: inode_of_def)
  then show "m < M \<Longrightarrow> length (direct_blocks (v_inode a m)) = 12" using modelsD(6) [OF assms, of m] by metis
qed

section \<open>Adding an entry to the root directory\<close>

abbreviation root_pair :: "fs \<Rightarrow> nat \<Rightarrow> InodeBtreePair" where
  "root_pair s r \<equiv> \<lparr>ip_inode = of_nat r, ip_btree = btree_root (sb_of s)\<rparr>"

lemma kept_root: "kept D s s' \<Longrightarrow> btree_root (sb_of s') = btree_root (sb_of s)"
  using shape_fields(1) [OF keptD(6)] .

lemma kept_mono: "kept D s s' \<Longrightarrow> D \<subseteq> E \<Longrightarrow> kept E s s'"
  unfolding kept_def by (rule moves_mono) auto

lemma kept_block: "kept {d} s s' \<Longrightarrow> d = d' \<or> \<not> used s d \<Longrightarrow> kept {d'} s s'"
  by (auto simp: kept_def moves_def)

text \<open>A change through a pointer that is written through.\<close>

lemma store_step:
  assumes S: "models s M r a" and d: "used s d" "btype (view s d) = BLOCK_TYPE_DATA" and p: "points s p d"
    and x: "btype (f (view s d)) = BLOCK_TYPE_DATA"
  obtains s1 s' where "modify s p (\<lambda>x. Some (f x)) = Some s1" and "locked_write s1 d p = Some s'" and "models s' M r a" and "kept {d} s s'"
    and "view s' d = f (view s d)" and "st.keeps s s'"
proof -
  obtain s1 s' where w: "modify s p (\<lambda>x. Some (f x)) = Some s1" "locked_write s1 d p = Some s'" "st.updates s s' d (f (view s d))"
    by (rule modify_through [OF modelsD(3) [OF S] p, of f])
  note U = st.updatesD [OF w(3)]
  show thesis by (rule that [OF w(1,2) data_step [OF S d U(1,2) x]]) (use U in simp_all)
qed

lemma add_at_step:
  assumes S: "models s M r a" and fr: "v_free a \<noteq> {}" and len: "length (v_names a) < MAX_KEYS" and new: "path_hash name \<notin> fst ` set (v_names a)"
    and d: "d = direct_blocks (v_inode a r) ! 0" "used s d" "btype (view s d) = BLOCK_TYPE_DATA" and p: "points s p d"
    and e: "entry_shape e" and ty: "ty \<noteq> FILE_TYPE_DIRECTORY"
  obtains i s' where "add_at s (root_pair s r) (v_inode a r) name target ty e d p (6 + DIRENT_SIZE * k) (entry_count (view s d) + 1) = Some (0, s')"
    and "i \<in> v_free a" and "models s' M r (a\<lparr>v_free := v_free a - {i}, v_names := with_leaf (v_names a) (path_hash name) (of_nat i),
      v_leaf := (v_leaf a)(of_nat i := (target, ty))\<rparr>)"
    and "kept {d} s s'" and "view s' d = with_entry e k (view s d)"
proof -
  let ?b = "btree_root (sb_of s)" and ?x = "de_store e (view s d) (6 + DIRENT_SIZE * k)"
  obtain i s1 where s1: "btree_insert s ?b (path_hash name) target ty = Some (0, s1)" "i \<in> v_free a"
      "models s1 M r (a\<lparr>v_free := v_free a - {i}, v_names := with_leaf (v_names a) (path_hash name) (of_nat i), v_leaf := (v_leaf a)(of_nat i := (target, ty))\<rparr>)"
      "kept {} s s1"
    by (rule insert_step [OF S fr len new, of target ty])
  let ?a = "a\<lparr>v_free := v_free a - {i}, v_names := with_leaf (v_names a) (path_hash name) (of_nat i), v_leaf := (v_leaf a)(of_nat i := (target, ty))\<rparr>"
  have d1: "used s1 d" "view s1 d = view s d" using keptD(2,4) [OF s1(4) d(2)] d(3) by simp_all
  have p1: "points s1 p d" by (rule st.keepsD(4) [OF keptD(1) [OF s1(4)] p])
  obtain s2 s3 where s3: "modify s1 p (\<lambda>b. Some (de_store e b (6 + DIRENT_SIZE * k))) = Some s2" "locked_write s2 d p = Some s3"
      "models s3 M r ?a" "kept {d} s1 s3" "view s3 d = ?x"
    by (rule store_step [OF s1(3) d1(1) _ p1, of "\<lambda>b. de_store e b (6 + DIRENT_SIZE * k)"])
      (use d(3) d1(2) btype_de_store [OF e] in auto)
  have d3: "used s3 d" "btype (view s3 d) = BLOCK_TYPE_DATA" using keptD(2) [OF s3(4) d1(1)] s3(5) d(3) btype_de_store [OF e] by simp_all
  have g: "dir_block d s3 (v_inode a r) 0 = Some (d, s3)" using get_direct(1) [of s3 "v_inode a r"] d(1) by (simp add: dir_block_def)
  have lim: "unat d < nblocks s3" using d3(1) by (simp add: used_def)
  obtain q s4 where s4: "get_block s3 (of_nat r) d = Some (q, s4)" "st.silent s3 s4" "points s4 q d"
    using st.get_silent [OF modelsD(3) [OF s3(3)] lim] by blast
  note m4 = models_silent [OF s3(3) s4(2,2)] and v4 = st.silentD(2) [OF s4(2)]
  have d4: "used s4 d" "btype (view s4 d) = BLOCK_TYPE_DATA" using keptD(2) [OF m4(2) d3(1)] d3(2) v4 by simp_all
  let ?n = "entry_count (view s d) + 1"
  obtain s5 s6 where s6: "modify s4 q (\<lambda>b. Some (set_entry_count ?n b)) = Some s5" "locked_write s5 d q = Some s6"
      "models s6 M r ?a" "kept {d} s4 s6" "view s6 d = set_entry_count ?n (view s4 d)" "st.keeps s4 s6"
    by (rule store_step [OF m4(1) d4 s4(3), of "set_entry_count ?n"]) (use d4 in auto)
  obtain s7 where s7: "write_block s6 q 0 d = Some s7" "st.silent s6 s7"
    using st.put_silent [OF modelsD(3) [OF s6(3)] st.keepsD(4) [OF s6(6) s4(3)]] by blast
  note m7 = models_silent [OF s6(3) s7(2,2)]
  have K: "kept {d} s s7"
    using kept_trans [OF kept_trans [OF kept_trans [OF kept_trans [OF s1(4) s3(4)] m4(2)] s6(4)] m7(2)] by simp
  have f7: "flat_at s7 ?b (v_names ?a)" using modelsD(8) [OF m7(1)] kept_root [OF K] by simp
  obtain s8 where s8: "btree_write s7 ?b = Some (1 + int (length (v_names ?a)), s8)" "written s7 s8 (insert ?b (snd ` set (v_names ?a)))"
    by (rule btree_write_flat [OF modelsD(3) [OF m7(1)] f7])
  have w: "st.keeps s7 s8" "view s8 = view s7" using s8(2) by (simp_all add: written_def)
  note m8 = models_quiet [OF m7(1) w]
  have "add_at s (root_pair s r) (v_inode a r) name target ty e d p (6 + DIRENT_SIZE * k) ?n = Some (0, s8)"
    using s1(1) s3(1,2) g s4(1) s6(1,2) s7(1) s8(1) ty by (simp add: add_at_def add_to_tree_def)
  moreover have "view s8 d = with_entry e k (view s d)"
    using w(2) st.silentD(2) [OF s7(2)] s6(5) v4 s3(5) by (simp add: with_entry_def)
  moreover have "kept {d} s s8" using kept_trans [OF K m8(2)] by simp
  ultimately show thesis using s1(2) m8(1) by (intro that)
qed

text \<open>
  The first block of the directory, or a new one when it has none. \<open>es\<close> are the entries it holds.
\<close>

definition room_for :: "fs \<Rightarrow> nat \<Rightarrow> DirEntry list \<Rightarrow> bool" where
  "room_for s r es \<longleftrightarrow> length es < SCAN \<and>
     (if first_block s r = 0 then es = [] else \<exists>m. dir_data s r m \<and> listing (view s (first_block s r)) m = es)"

text \<open>\<open>with_block k d i\<close>: the inode \<open>i\<close> with \<open>d\<close> as its block number \<open>k\<close>.\<close>

definition with_block :: "nat \<Rightarrow> u64 \<Rightarrow> Inode \<Rightarrow> Inode" where
  "with_block k d i = i\<lparr>direct_blocks := (direct_blocks i)[k := d]\<rparr>"

lemma with_block_same [simp]: "with_block k (direct_blocks i ! k) i = i"
  by (simp add: with_block_def)

lemma write_entry_prepared: "prepare_entry s (write_entry e ino ix pb) = Some (write_entry e ino ix pb, s)"
proof -
  have "je_type (write_entry e ino ix pb) = WRITE" by (simp add: write_entry_def layout)
  then show ?thesis by (simp add: prepare_entry_def block_types)
qed

lemma new_block_step:
  assumes S: "models s M r a" and d0: "direct_blocks (v_inode a r) ! 0 = 0" and fr: "v_free a \<noteq> {}" and sl: "v_slots a = Suc k"
  obtains j d p s' where "dir_block_or_new (initialize_journal_entry env) env s pair (v_inode a r) wt 0 = Some (Some (d, p, with_block 0 d (v_inode a r)), s')"
    and "points s' p d" and "models s' M r (a\<lparr>v_inode := (v_inode a)(r := with_block 0 d (v_inode a r)), v_free := v_free a - {j}, v_slots := k\<rparr>)"
    and "j \<in> v_free a" and "d \<noteq> 0" and "\<not> used s d" and "used s' d" and "btype (view s' d) = BLOCK_TYPE_DATA" and "entry_count (view s' d) = 0"
    and "kept {} s s'"
proof -
  let ?i = "v_inode a r"
  have r: "r < M" by (rule modelsD(9) [OF S])
  note ir = models_inode [OF S]
  have num: "inode_number ?i = of_nat r" and len: "length (direct_blocks ?i) = 12" using ir r by simp_all
  have g0: "dir_block 0 s ?i 0 = Some (0, s)" using get_direct(1) [of s ?i] d0 by (simp add: dir_block_def)
  obtain j s1 where s1: "alloc_page s = Some (of_nat j, s1)" "j \<in> v_free a" "of_nat j \<noteq> (0 :: u64)" "\<not> used s (of_nat j)" "used s1 (of_nat j)"
      "models s1 M r (a\<lparr>v_free := v_free a - {j}\<rparr>)" "kept {} s s1" "moves {0, bitmap_block j} s s1"
    by (rule alloc_step [OF S fr])
  let ?d = "of_nat j :: u64" and ?a1 = "a\<lparr>v_free := v_free a - {j}\<rparr>"
  let ?i1 = "with_block 0 ?d ?i"
  let ?a2 = "?a1\<lparr>v_inode := (v_inode a)(r := ?i1)\<rparr>"
  have i1: "inode_number ?i1 = of_nat r" "length (direct_blocks ?i1) = 12" using num len by (simp_all add: with_block_def)
  obtain s2 where s2: "inode_write s1 ?i1 True = Some (0, s2)" "models s2 M r ?a2" "kept {} s1 s2" "moves {inode_home s1 r} s1 s2"
    by (rule inode_write_step [OF s1(6) r i1, of True]) (use that in simp)
  let ?x = "set_btype BLOCK_TYPE_DATA (view s2 ?d)"
  have k2: "kept {} s s2" using kept_trans [OF s1(7) s2(3)] by simp
  have mv2: "moves ({0, bitmap_block j} \<union> {inode_home s1 r}) s s2" using moves_trans [OF s1(8) s2(4)] .
  have il: "j < nblocks s" using s1(2) modelsD(5) [OF S] by (auto simp: free_set_def)
  note T = soundD(6) [OF modelsD(2) [OF S]] soundD(8) [OF modelsD(2) [OF S] il] sound_inode(6) [OF modelsD(2) [OF S] r]
  have h1: "inode_home s1 r = inode_home s r" using shape_fields(2) [OF movesD(2) [OF s1(8)]] .
  obtain p s3 s4 where s3: "get_block s2 (ip_inode pair) ?d = Some (p, s3)"
      and s4: "modify s3 p (\<lambda>b. Some (set_btype BLOCK_TYPE_DATA b)) = Some s4" and p4: "points s4 p ?d"
      and m4: "models s4 M r ?a2" and k4: "kept {} s s4" and us4: "used s4 ?d" and v4: "view s4 ?d = ?x"
    by (rule fresh_block_step [OF S mv2 _ s2(2) _ _ s1(4) keptD(2) [OF s2(3) s1(5)] k2, of "ip_inode pair" "set_btype BLOCK_TYPE_DATA"])
      (use T h1 in \<open>auto simp: block_types\<close>)
  obtain s5 where s5: "inode_write s4 ?i1 wt = Some (0, s5)" "models s5 M r (?a2\<lparr>v_inode := (v_inode ?a2)(r := ?i1)\<rparr>)" "kept {} s4 s5"
    by (rule inode_write_step [OF m4 r i1, of wt])
  have m5: "models s5 M r ?a2" using s5(2) by simp
  have d5: "used s5 ?d" "view s5 ?d = ?x" using keptD(2,4) [OF s5(3) us4] v4 by simp_all
  obtain s6 where s6: "initialize_journal_entry env s5 (write_entry (stack env s5) (inode_number ?i1) 0 ?d) = Some s6"
      "models s6 M r (?a2\<lparr>v_slots := k\<rparr>)" "kept {} s5 s6"
    by (rule journal_step [OF m5 _ write_entry_prepared, of k env]) (use sl in simp)
  have d6: "used s6 ?d" "view s6 ?d = ?x" using keptD(2,4) [OF s6(3) d5(1)] d5(2) by simp_all
  have p6: "points s6 p ?d"
    using st.keepsD(4) keptD(1) [OF s5(3)] keptD(1) [OF s6(3)] p4 by blast
  let ?y = "set_entry_count 0 ?x"
  obtain s7 where s7: "modify s6 p (\<lambda>b. Some (set_entry_count 0 b)) = Some s7" "st.changes s6 s7 ?d ?y"
    using st.store_changes [OF modelsD(3) [OF s6(2)] p6, of ?y] st.load_view [OF modelsD(3) [OF s6(2)] p6] d6(2) by (auto simp: modify_def)
  note C7 = st.changesD [OF s7(2)]
  have "btype ?x = BLOCK_TYPE_DATA" "btype ?y = BLOCK_TYPE_DATA" by simp_all
  note m7 = data_step [OF s6(2) d6(1) _ C7(1,2)]
  have m7': "models s7 M r (?a2\<lparr>v_slots := k\<rparr>)" "kept {?d} s6 s7" using m7 d6(2) by simp_all
  have p7: "points s7 p ?d" by (rule st.keepsD(4) [OF C7(1) p6])
  obtain s8 where s8: "write_block s7 p 0 ?d = Some s8" "st.silent s7 s8" using st.put_silent [OF modelsD(3) [OF m7'(1)] p7] by blast
  note m8 = models_silent [OF m7'(1) s8(2,2)]
  have d8: "used s8 ?d" "view s8 ?d = ?y"
    using keptD(2) [OF m8(2)] keptD(2) [OF m7'(2) d6(1)] st.silentD(2) [OF s8(2)] by (simp_all add: C7(2))
  have "kept ({} \<union> {} \<union> {} \<union> {?d} \<union> {}) s s8"
    by (rule kept_trans [OF kept_trans [OF kept_trans [OF kept_trans [OF k4 s5(3)] s6(3)] m7'(2)] m8(2)])
  then have k8: "kept {} s s8" using s1(4) unfolding kept_def by (auto intro: moves_unused)
  have "dir_block_or_new (initialize_journal_entry env) env s pair ?i wt 0 = Some (Some (?d, p, ?i1), s8)"
    using g0 s1(1,3) s2(1) s3 s4 s5(1) s6(1) s7(1) s8(1)
    by (simp add: dir_block_or_new_def inode_set_block_def set_direct_def with_block_def)
  moreover have "points s8 p ?d" by (rule st.keepsD(4) [OF st.silentD(1) [OF s8(2)] p7])
  moreover have eq: "?a2\<lparr>v_slots := k\<rparr> = a\<lparr>v_inode := (v_inode a)(r := ?i1), v_free := v_free a - {j}, v_slots := k\<rparr>" by simp
  ultimately show thesis using d8 k8 by (intro that [OF _ _ m8(1) [unfolded eq] s1(2-4)]) simp_all
qed

text \<open>The old block or the new one, ready to take an entry. A new block costs a journal slot and a free block.\<close>

definition extra :: "fs \<Rightarrow> nat \<Rightarrow> nat" where
  "extra s r = of_bool (first_block s r = 0)"

lemma ready_block:
  assumes S: "models s M r a" and room: "room_for s r es" and sl: "v_slots a = extra s r + k" and fr: "extra s r < card (v_free a)"
  obtains d p s1 m F where "dir_block_or_new (initialize_journal_entry env) env s pair (v_inode a r) wt 0 =
      Some (Some (d, p, with_block 0 d (v_inode a r)), s1)"
    and "points s1 p d" and "models s1 M r (a\<lparr>v_inode := (v_inode a)(r := with_block 0 d (v_inode a r)), v_free := F, v_slots := k\<rparr>)"
    and "F \<subseteq> v_free a" and "card F + extra s r = card (v_free a)" and "kept {} s s1" and "d = first_block s r \<or> \<not> used s d"
    and "d \<noteq> 0" and "used s1 d" and "btype (view s1 d) = BLOCK_TYPE_DATA" and "dir_at (view s1 d) m" and "listing (view s1 d) m = es"
    and "first_block s r \<noteq> 0 \<longrightarrow> d = first_block s r \<and> view s1 d = view s d"
proof (cases "first_block s r = 0")
  case True
  have i: "inode_of s r = v_inode a r" using modelsD(6) [OF S modelsD(9) [OF S]] .
  have x: "extra s r = 1" and es: "es = []" using True room by (simp_all add: extra_def room_for_def)
  have fin: "finite (v_free a)" using modelsD(5) [OF S] free_set_finite [of s] by simp
  obtain j d p s' where B: "dir_block_or_new (initialize_journal_entry env) env s pair (v_inode a r) wt 0 =
      Some (Some (d, p, with_block 0 d (v_inode a r)), s')" "points s' p d"
      "models s' M r (a\<lparr>v_inode := (v_inode a)(r := with_block 0 d (v_inode a r)), v_free := v_free a - {j}, v_slots := k\<rparr>)"
      "j \<in> v_free a" "d \<noteq> 0" "\<not> used s d" "used s' d" "btype (view s' d) = BLOCK_TYPE_DATA" "entry_count (view s' d) = 0" "kept {} s s'"
    by (rule new_block_step [OF S, of k env pair wt]) (use True i fr sl x in auto)
  have "dir_at (view s' d) 0" "listing (view s' d) 0 = es" using B(9) es by (simp_all add: dir_at_def listing_def)
  moreover have "card (v_free a - {j}) + extra s r = card (v_free a)" using B(4) fin x card_Suc_Diff1 [OF fin B(4)] by simp
  ultimately show thesis using B True by (intro that [of d p s' "v_free a - {j}" 0]) auto
next
  case False
  have i: "inode_of s r = v_inode a r" using modelsD(6) [OF S modelsD(9) [OF S]] .
  let ?d = "first_block s r"
  obtain m where m: "dir_data s r m" "listing (view s ?d) m = es" using room False by (auto simp: room_for_def)
  then have d: "used s ?d" "btype (view s ?d) = BLOCK_TYPE_DATA" "dir_at (view s ?d) m" by (simp_all add: dir_data_def)
  have x: "extra s r = 0" using False by (simp add: extra_def)
  have lim: "unat ?d < nblocks s" using d(1) by (simp add: used_def)
  obtain p s1 where g: "get_block s (ip_inode pair) ?d = Some (p, s1)" "st.silent s s1" "points s1 p ?d"
    using st.get_silent [OF modelsD(3) [OF S] lim] by blast
  note m1 = models_silent [OF S g(2,2)] and v1 = st.silentD(2) [OF g(2)]
  have "dir_block_or_new (initialize_journal_entry env) env s pair (v_inode a r) wt 0 =
      Some (Some (?d, p, with_block 0 ?d (v_inode a r)), s1)"
    using get_direct(1) [of s "v_inode a r"] False g(1) i by (simp add: dir_block_or_new_def dir_block_def)
  moreover have "a\<lparr>v_inode := (v_inode a)(r := with_block 0 ?d (v_inode a r)), v_free := v_free a, v_slots := k\<rparr> = a"
    using sl x i by simp
  ultimately show thesis using g m1 m(2) d v1 x False keptD(2) [OF m1(2)] by (intro that [of ?d p s1 "v_free a" m]) simp_all
qed

text \<open>The entry built on the stack.\<close>

lemma new_file_ok:
  assumes "length name < NAME_MAX" and "CHR 0x00 \<notin> set name"
  obtains e where "new_file junk name target = Some e" and "entry_shape e" and "de_active e = 1" and "de_inode e = target" and "entry_name e = Some name"
proof -
  obtain b where b: "strcpy NAME_MAX name junk 16 = Some b" using assms(1) by (simp add: strcpy_def)
  have "read_str NAME_MAX b 16 = Some name" by (rule read_str_strcpy [OF b assms(2)])
  with b show thesis
    by (intro that [of "(de_load b 0)\<lparr>de_inode := target, de_active := 1\<rparr>"])
      (simp_all add: new_file_def entry_shape_def entry_name_def de_load_def read_str_def)
qed

lemma directory_add_step:
  assumes S: "models s M r a" and room: "room_for s r es" and sl: "v_slots a = extra s r + k" and fr: "extra s r < card (v_free a)"
    and len: "length (v_names a) < MAX_KEYS" and new: "path_hash name \<notin> fst ` set (v_names a)"
    and name: "length name < NAME_MAX" "CHR 0x00 \<notin> set name" and ty: "ty \<noteq> FILE_TYPE_DIRECTORY"
  obtains s' d f F m us vs e where "directory_add_entry (initialize_journal_entry env) env s ''/'' name target ty wt = Some (0, s')"
    and "models s' M r (a\<lparr>v_inode := (v_inode a)(r := with_block 0 d (v_inode a r)), v_free := F, v_names := with_leaf (v_names a) (path_hash name) f,
      v_leaf := (v_leaf a)(f := (target, ty)), v_slots := k\<rparr>)"
    and "F \<subseteq> v_free a" and "card F + extra s r + 1 = card (v_free a)" and "kept {first_block s r} s s'"
    and "dir_data s' r m" and "listing (view s' d) m = us @ e # vs" and "es = us @ vs" and "de_inode e = target" and "entry_name e = Some name"
    and "first_block s' r = d" and "in_slot (view s' d) us e" and "de_active e \<noteq> 0"
    and "first_block s r \<noteq> 0 \<longrightarrow> d = first_block s r \<and> entry_shape e \<and> view s' d = with_entry e (length us) (view s d) \<and>
      in_slot (view s d) us (dir_slot (view s d) (length us)) \<and> (us = es \<or> de_active (dir_slot (view s d) (length us)) = 0)"
proof -
  note D = root_dirD [OF modelsD(1) [OF S]] and r = modelsD(9) [OF S]
  obtain s1 where s1: "item_search s ''/'' = Some (root_pair s r, s1)" "st.silent s s1" by (rule search_root [OF modelsD(1) [OF S]])
  note m1 = models_silent [OF S s1(2,2)]
  obtain e where e: "new_file (stack env s1) name target = Some e" "entry_shape e" "de_active e = 1" "de_inode e = target" "entry_name e = Some name"
    by (rule new_file_ok [OF name])
  obtain s2 where s2: "read_inode_or zero_inode s1 (of_nat r) = Some (inode_of s1 r, s2)" "st.silent s1 s2"
    by (rule read_dir_inode [OF root_dirD(5) [OF modelsD(1) [OF m1(1)]]])
  note S2 = st.silent_trans [OF s1(2) s2(2)]
  note m2 = models_silent [OF S S2 S2] and I2 = inode_silent [OF S2] and v2 = st.silentD(2) [OF S2]
  have i1: "inode_of s1 r = v_inode a r" using modelsD(6) [OF m1(1) r] .
  have n2: "nblocks s2 = nblocks s" using st.keepsD(2) [OF st.silentD(1) [OF S2]] .
  have u2: "used s2 = used s" by (simp add: used_def [abs_def] block_used_def n2 v2)
  have room2: "room_for s2 r es" using room by (auto simp: room_for_def dir_data_def I2(5) u2 v2)
  have x2: "extra s2 r = extra s r" by (simp add: extra_def I2(5))
  have b2: "root_pair s2 r = root_pair s r" using kept_root [OF m2(2)] by simp
  obtain d p s3 m F where B: "dir_block_or_new (initialize_journal_entry env) env s2 (root_pair s r) (v_inode a r) wt 0 =
      Some (Some (d, p, with_block 0 d (v_inode a r)), s3)" "points s3 p d"
      "models s3 M r (a\<lparr>v_inode := (v_inode a)(r := with_block 0 d (v_inode a r)), v_free := F, v_slots := k\<rparr>)"
      "F \<subseteq> v_free a" "card F + extra s2 r = card (v_free a)" "kept {} s2 s3" "d = first_block s2 r \<or> \<not> used s2 d"
      "d \<noteq> 0" "used s3 d" "btype (view s3 d) = BLOCK_TYPE_DATA" "dir_at (view s3 d) m" "listing (view s3 d) m = es"
      "first_block s2 r \<noteq> 0 \<longrightarrow> d = first_block s2 r \<and> view s3 d = view s2 d"
    by (rule ready_block [OF m2(1) room2, of k env "root_pair s r" wt]) (use sl fr x2 in auto)
  let ?i = "with_block 0 d (v_inode a r)"
  let ?a3 = "a\<lparr>v_inode := (v_inode a)(r := ?i), v_free := F, v_slots := k\<rparr>"
  have les: "length (listing (view s3 d) m) < SCAN" using room B(12) by (simp add: room_for_def)
  obtain j c where F: "find_free SCAN (view s3 d) (entries_off 0) (entry_count (view s3 d)) 0 = (Some (6 + DIRENT_SIZE * j), c)"
      "j \<le> m" "j < SCAN" "j < m \<Longrightarrow> de_active (dir_slot (view s3 d) j) = 0"
      "\<And>i. i < j \<Longrightarrow> de_active (dir_slot (view s3 d) i) \<noteq> 0"
    by (rule find_free_ok [OF B(11) les]) (rule that)
  have fne: "v_free ?a3 \<noteq> {}" using B(5) fr x2 by auto
  have k3: "kept {} s s3" using kept_trans [OF m2(2) B(6)] by simp
  have b3: "root_pair s3 r = root_pair s r" using kept_root [OF k3] by simp
  have len12: "length (direct_blocks (v_inode a r)) = 12" by (rule models_inode(2) [OF S r])
  have di: "d = direct_blocks (v_inode ?a3 r) ! 0" using len12 by (simp add: with_block_def)
  obtain i s4 where A: "add_at s3 (root_pair s3 r) (v_inode ?a3 r) name target ty e d p (6 + DIRENT_SIZE * j) (entry_count (view s3 d) + 1) = Some (0, s4)"
      "i \<in> v_free ?a3" "models s4 M r (?a3\<lparr>v_free := v_free ?a3 - {i}, v_names := with_leaf (v_names ?a3) (path_hash name) (of_nat i),
      v_leaf := (v_leaf ?a3)(of_nat i := (target, ty))\<rparr>)" "kept {d} s3 s4" "view s4 d = with_entry e j (view s3 d)"
    by (rule add_at_step [OF B(3) fne _ _ di B(9,10,2) e(2) ty, of name target j]) (use len new in auto)
  have ab: "add_blocks (initialize_journal_entry env) env (Suc n) s2 (root_pair s r) (v_inode a r) name target ty wt e 0 0 0 = Some (0, s4)" for n
    using B(1,10) st.load_view [OF modelsD(3) [OF B(3)] B(2)] F(1) A(1) by (simp add: b3 Let_def)
  from ab [of 65534] have ab': "add_blocks (initialize_journal_entry env) env DIR_BLOCKS s2 (root_pair s r) (v_inode a r) name target ty wt e 0 0 0 = Some (0, s4)"
    by (simp add: layout)
  have run: "directory_add_entry (initialize_journal_entry env) env s ''/'' name target ty wt = Some (0, s4)"
    using s1(1) e(1) s2(1) ab' i1 by (simp add: directory_add_entry_def)
  let ?us = "listing (view s3 d) j"
  have act: "de_active e \<noteq> 0" using e(3) by simp
  obtain vs where uv: "listing (view s3 d) m = ?us @ vs" "listing (view s4 d) (max m (Suc j)) = ?us @ e # vs"
    using listing_with [OF e(2) act F(2)] F(4) unfolding A(5) by blast
  have sl: "in_slot (view s4 d) ?us e" unfolding A(5) by (rule in_slot_with [OF e(2) F(5)])
  have da: "dir_at (view s4 d) (max m (Suc j))"
    using dir_at_with [OF B(11) e(2) _ F(2,3)] F(4) e(3) A(5) by simp
  have fb: "first_block s4 r = d" using modelsD(6) [OF A(3) r] len12 by (simp add: with_block_def)
  have ud: "used s4 d" "btype (view s4 d) = BLOCK_TYPE_DATA" using keptD(2,3) [OF A(4) B(9)] B(10) by simp_all
  have dd: "dir_data s4 r (max m (Suc j))" using B(8) ud da by (simp add: dir_data_def fb)
  have "kept {d} s s4" using kept_trans [OF k3 A(4)] by simp
  then have K: "kept {first_block s r} s s4" by (rule kept_block) (use B(7) I2(5) u2 in simp)
  have "finite F" using finite_subset [OF B(4)] modelsD(5) [OF S] free_set_finite [of s] by simp
  then have cF: "card (F - {i}) + extra s r + 1 = card (v_free a)" using card_Suc_Diff1 [of F i] A(2) B(5) x2 by simp
  have eq: "?a3\<lparr>v_free := v_free ?a3 - {i}, v_names := with_leaf (v_names ?a3) (path_hash name) (of_nat i), v_leaf := (v_leaf ?a3)(of_nat i := (target, ty))\<rparr> =
      a\<lparr>v_inode := (v_inode a)(r := ?i), v_free := F - {i}, v_names := with_leaf (v_names a) (path_hash name) (of_nat i),
      v_leaf := (v_leaf a)(of_nat i := (target, ty)), v_slots := k\<rparr>" by simp
  have lj: "?us = map (dir_slot (view s3 d)) [0..<j]" by (rule listing_full [OF F(5)])
  have "d = first_block s r \<and> entry_shape e \<and> view s4 d = with_entry e (length ?us) (view s d) \<and>
      in_slot (view s d) ?us (dir_slot (view s d) (length ?us)) \<and> (?us = es \<or> de_active (dir_slot (view s d) (length ?us)) = 0)" if "first_block s r \<noteq> 0"
  proof -
    have B13: "d = first_block s r \<and> view s3 d = view s d" using B(13) that unfolding I2(5) v2 by blast
    have "length ?us = j" using lj by simp
    moreover from this have "in_slot (view s3 d) ?us (dir_slot (view s3 d) (length ?us))" using lj by (simp add: in_slot_def)
    moreover have "?us = es \<or> de_active (dir_slot (view s3 d) (length ?us)) = 0"
      using F(2,4) B(12) calculation(1) by (cases "j < m") auto
    ultimately show ?thesis using e(2) A(5) B13 by metis
  qed
  then have x: "first_block s r \<noteq> 0 \<longrightarrow> d = first_block s r \<and> entry_shape e \<and> view s4 d = with_entry e (length ?us) (view s d) \<and>
      in_slot (view s d) ?us (dir_slot (view s d) (length ?us)) \<and> (?us = es \<or> de_active (dir_slot (view s d) (length ?us)) = 0)" by blast
  show thesis
    by (rule that [OF run A(3) [unfolded eq] _ cF K dd uv(2) _ e(4,5) fb sl act x]) (use B(4,12) uv(1) in auto)
qed

section \<open>Making a file\<close>

lemma top_path:
  assumes "component c"
  shows "parent_path (join [c]) (count_l (join [c])) = Some ''/''" and "get_name (join [c]) = c"
proof -
  have "count_l (join [c]) = 1" using assms by (subst count_l_join) auto
  then show "parent_path (join [c]) (count_l (join [c])) = Some ''/''" by (simp add: parent_path_def)
  show "get_name (join [c]) = c" using get_name_join [OF assms, of "[]"] by simp
qed

lemma room_kept:
  assumes "kept {} s s'" and "inode_of s' r = inode_of s r" and "room_for s r es"
  shows "room_for s' r es"
proof -
  note K = keptD [OF assms(1)]
  have "dir_data s' r m \<and> view s' (first_block s r) = view s (first_block s r)" if "dir_data s r m" for m
    using that K(2,4) by (simp add: dir_data_def assms(2))
  then show ?thesis using assms(3) unfolding room_for_def assms(2) by metis
qed

lemma dir_data_kept:
  assumes "kept {} s s'" and "first_block s' r = first_block s r" and "dir_data s r m"
  shows "dir_data s' r m" and "view s' (first_block s' r) = view s (first_block s r)"
  using assms(3) keptD(2,4) [OF assms(1)] by (simp_all add: dir_data_def assms(2))

text \<open>The inode of the new file: a free one with the fields set that the code sets.\<close>

definition made_inode :: "env \<Rightarrow> u32 \<Rightarrow> nat \<Rightarrow> u64 \<Rightarrow> Inode \<Rightarrow> Inode" where
  "made_inode env md n now i = (fresh_inode (e_uid env) (e_gid env) md n i)\<lparr>i_creation_time := now, mode := md\<rparr>"

text \<open>The volume with the file: inode \<open>n\<close>, its leaf \<open>f\<close>, the block \<open>d\<close> of the directory, \<open>F\<close> and \<open>k\<close> what is left.\<close>

definition made :: "env \<Rightarrow> string \<Rightarrow> u32 \<Rightarrow> nat \<Rightarrow> nat \<Rightarrow> u64 \<Rightarrow> u64 \<Rightarrow> u64 \<Rightarrow> nat set \<Rightarrow> nat \<Rightarrow> vol \<Rightarrow> vol" where
  "made env c md r n now d f F k a = a\<lparr>
     v_inode := (v_inode a)(n := made_inode env md n now (v_inode a n), r := with_block 0 d (v_inode a r)),
     v_taken := (v_taken a)(n := True), v_free := F, v_names := with_leaf (v_names a) (path_hash c) f,
     v_leaf := (v_leaf a)(f := (of_nat n, md AND S_IFMT)), v_slots := k\<rparr>"

text \<open>What has to be given: a free inode, a place for the entry, free blocks, and a new name.\<close>

definition can_make :: "fs \<Rightarrow> nat \<Rightarrow> nat \<Rightarrow> vol \<Rightarrow> string \<Rightarrow> u32 \<Rightarrow> nat \<Rightarrow> DirEntry list \<Rightarrow> bool" where
  "can_make s M r a c md n es \<longleftrightarrow> models s M r a \<and> v_taken a r \<and> n < M \<and> \<not> v_taken a n \<and> (\<forall>m < n. v_taken a m) \<and> room_for s r es \<and>
     extra s r < card (v_free a) \<and> length (v_names a) < MAX_KEYS \<and> path_hash c \<notin> fst ` set (v_names a) \<and>
     component c \<and> length c < NAME_MAX \<and> CHR 0x00 \<notin> set c \<and> md AND S_IFMT \<noteq> FILE_TYPE_DIRECTORY"

text \<open>The directory of the new file: its entry among those there were.\<close>

definition lists_new :: "fs \<Rightarrow> nat \<Rightarrow> DirEntry list \<Rightarrow> string \<Rightarrow> nat \<Rightarrow> bool" where
  "lists_new s r es c n \<longleftrightarrow> (\<exists>m us vs e. dir_data s r m \<and> listing (view s (first_block s r)) m = us @ e # vs \<and> es = us @ vs \<and>
     in_slot (view s (first_block s r)) us e \<and> de_active e \<noteq> 0 \<and> de_inode e = of_nat n \<and> entry_name e = Some c)"

lemma mknod_step:
  assumes G: "can_make s M r a c md n es" and sl: "v_slots a = extra s r + k"
  obtains s' now d f F where "metadata_mknod (initialize_journal_entry env) env s (join [c]) md wt None = Some (0, Some (of_nat n), s')"
    and "models s' M r (made env c md r n now d f F k a)" and "F \<subseteq> v_free a" and "card F + extra s r + 1 = card (v_free a)"
    and "kept {first_block s r} s s'" and "lists_new s' r es c n"
proof -
  have S: "models s M r a" and tr: "v_taken a r" and n: "n < M" "\<not> v_taken a n" "\<And>m. m < n \<Longrightarrow> v_taken a m" and room: "room_for s r es"
    and fr: "extra s r < card (v_free a)" and len: "length (v_names a) < MAX_KEYS" and new: "path_hash c \<notin> fst ` set (v_names a)"
    and c: "component c" "length c < NAME_MAX" "CHR 0x00 \<notin> set c" and ty: "md AND S_IFMT \<noteq> FILE_TYPE_DIRECTORY"
    using G by (auto simp: can_make_def)
  have rn: "r \<noteq> n" using tr n(2) by auto
  note r = modelsD(9) [OF S] and n63 = sound_inode(5) [OF modelsD(2) [OF S] n(1)]
  let ?f = "fresh_inode (e_uid env) (e_gid env) md n (v_inode a n)"
  let ?a1 = "a\<lparr>v_inode := (v_inode a)(n := ?f), v_taken := (v_taken a)(n := True)\<rparr>"
  obtain s1 where s1: "inode_allocate s (e_uid env) (e_gid env) md True = Some (int n, s1)" "models s1 M r ?a1" "kept {} s s1"
    by (rule claim_step [OF S n, of "e_uid env" "e_gid env" md True])
  have w: "word_of_int (int n) = (of_nat n :: u64)" by simp
  have "n < 2 ^ 31" by (rule sound_small [OF modelsD(2) [OF S] n(1)])
  then have rv: "int_of_u64 (word_of_int (int n)) = int n" by simp
  have i1: "inode_of s1 n = ?f" using modelsD(6) [OF s1(2) n(1)] by simp
  obtain s2 where s2: "inode_read s1 (of_nat n) = Some (Some ?f, s2)" "st.silent s1 s2"
    using inode_read_ok [OF sound_inode(1) [OF modelsD(2) [OF s1(2)] n(1)]] i1 by metis
  note m2 = models_silent [OF s1(2) s2(2,2)]
  let ?i = "made_inode env md n (clock env s2) (v_inode a n)"
  have num: "inode_number ?i = of_nat n" and l12: "length (direct_blocks ?i) = 12"
    using models_inode(2) [OF S n(1)] by (simp_all add: made_inode_def fresh_inode_def)
  obtain s3 where s3: "inode_write s2 ?i wt = Some (0, s3)" "models s3 M r (?a1\<lparr>v_inode := (v_inode ?a1)(n := ?i)\<rparr>)" "kept {} s2 s3"
    by (rule inode_write_step [OF m2(1) n(1) num l12, of wt])
  let ?a3 = "?a1\<lparr>v_inode := (v_inode ?a1)(n := ?i)\<rparr>"
  have k3: "kept {} s s3" using kept_trans [OF kept_trans [OF s1(3) m2(2)] s3(3)] by simp
  have ir: "inode_of s3 r = inode_of s r" using modelsD(6) [OF s3(2) r] modelsD(6) [OF S r] rn by simp
  have room3: "room_for s3 r es" by (rule room_kept [OF k3 ir room])
  have x3: "extra s3 r = extra s r" by (simp add: extra_def ir)
  obtain s4 d f F m us vs e where A: "directory_add_entry (initialize_journal_entry env) env s3 ''/'' c (of_nat n) (md AND S_IFMT) wt = Some (0, s4)"
      "models s4 M r (?a3\<lparr>v_inode := (v_inode ?a3)(r := with_block 0 d (v_inode ?a3 r)), v_free := F, v_names := with_leaf (v_names ?a3) (path_hash c) f,
      v_leaf := (v_leaf ?a3)(f := (of_nat n, md AND S_IFMT)), v_slots := k\<rparr>)"
      "F \<subseteq> v_free ?a3" "card F + extra s3 r + 1 = card (v_free ?a3)" "kept {first_block s3 r} s3 s4"
      "dir_data s4 r m" "listing (view s4 d) m = us @ e # vs" "es = us @ vs" "de_inode e = of_nat n" "entry_name e = Some c" "first_block s4 r = d"
      "in_slot (view s4 d) us e" "de_active e \<noteq> 0"
    by (rule directory_add_step [OF s3(2) room3 _ _ _ _ c(2,3) ty, of k env "of_nat n" wt]) (use sl fr len new x3 in auto)
  have "int n \<noteq> -1" by simp
  then have run: "metadata_mknod (initialize_journal_entry env) env s (join [c]) md wt None = Some (0, Some (of_nat n), s4)"
    using s1(1) s2(1) s3(1) A(1) num top_path [OF c(1)] rv unfolding metadata_mknod_def
    by (simp add: made_inode_def fresh_inode_def del: join.simps)
  have eq: "?a3\<lparr>v_inode := (v_inode ?a3)(r := with_block 0 d (v_inode ?a3 r)), v_free := F, v_names := with_leaf (v_names ?a3) (path_hash c) f,
      v_leaf := (v_leaf ?a3)(f := (of_nat n, md AND S_IFMT)), v_slots := k\<rparr> = made env c md r n (clock env s2) d f F k a"
    using rn by (simp add: made_def fun_upd_twist)
  have "kept {first_block s r} s s4" using kept_trans [OF k3 A(5)] ir by simp
  moreover have "lists_new s4 r es c n" using A(6-13) unfolding lists_new_def by blast
  ultimately show thesis using run A(2) [unfolded eq] A(3,4) x3 by (intro that) simp_all
qed

text \<open>The journal entry of the new file.\<close>

definition mknod_entry :: "block \<Rightarrow> string \<Rightarrow> u32 \<Rightarrow> u64 \<Rightarrow> block" where
  "mknod_entry junk path md ino =
     store64 ino (store64 0 (store32 md (strncpy PATH_MAX path (set_je_synced False (set_je_type MKNOD junk)) JE_PATH) JE_MODE) JE_INODE) JE_INODE"

lemma mknod_entry_fields:
  assumes "length path < PATH_MAX" and "CHR 0x00 \<notin> set path"
  shows "je_type (mknod_entry junk path md ino) = MKNOD" and "load32 (mknod_entry junk path md ino) JE_MODE = md"
    and "load64 (mknod_entry junk path md ino) JE_INODE = ino" and "\<not> je_synced (mknod_entry junk path md ino)"
    and "read_str PATH_MAX (mknod_entry junk path md ino) JE_PATH = Some path"
proof -
  have len: "length (take PATH_MAX (bytes_of path @ replicate PATH_MAX 0)) = 2030" by (simp add: PATH_MAX_def)
  show "je_type (mknod_entry junk path md ino) = MKNOD" "load32 (mknod_entry junk path md ino) JE_MODE = md"
    "load64 (mknod_entry junk path md ino) JE_INODE = ino"
    using len by (simp_all add: mknod_entry_def strncpy_def layout)
  show "\<not> je_synced (mknod_entry junk path md ino)"
    using len by (simp add: mknod_entry_def strncpy_def layout store_bytes_def store_le_def)
  obtain z where z: "take PATH_MAX (bytes_of path @ replicate PATH_MAX 0) = bytes_of path @ 0 # z"
    using assms(1) by (cases "PATH_MAX - length path") simp_all
  have len': "length (bytes_of path @ 0 # z) = PATH_MAX" unfolding z [symmetric] by simp
  have sn: "strncpy PATH_MAX path b off = store_bytes (bytes_of path @ 0 # z) b off" for b off by (simp only: strncpy_def z)
  have pm: "28 + PATH_MAX \<le> 2060" by (simp add: PATH_MAX_def)
  have "load_bytes PATH_MAX (mknod_entry junk path md ino) JE_PATH = bytes_of path @ 0 # z"
    using len' pm by (simp add: mknod_entry_def sn layout)
  then show "read_str PATH_MAX (mknod_entry junk path md ino) JE_PATH = Some path"
    using str_of_bytes_of [OF assms(2)] by (simp add: read_str_def)
qed

text \<open>An entry of a file, which is not a directory, is written as it is but for the field of the tree.\<close>

lemma mknod_prepared:
  assumes "je_type e = MKNOD" and "load32 e JE_MODE AND S_IFMT \<noteq> FILE_TYPE_DIRECTORY"
  shows "prepare_entry s e = Some (store64 0 e JE_BTREE, s)"
  using assms by (simp add: prepare_entry_def layout)

lemma lists_new_kept:
  assumes "kept {} s s'" and "first_block s' r = first_block s r" and "lists_new s r es c n"
  shows "lists_new s' r es c n"
proof -
  obtain m us vs e where L: "dir_data s r m" "listing (view s (first_block s r)) m = us @ e # vs" "es = us @ vs" "de_inode e = of_nat n"
      "entry_name e = Some c" "in_slot (view s (first_block s r)) us e" "de_active e \<noteq> 0"
    using assms(3) unfolding lists_new_def by blast
  note K = dir_data_kept [OF assms(1,2) L(1)]
  have "listing (view s' (first_block s' r)) m = us @ e # vs" "in_slot (view s' (first_block s' r)) us e" unfolding K(2) by (rule L)+
  with K(1) L(3-7) show ?thesis unfolding lists_new_def by blast
qed

text \<open>What the journal block at \<open>jb\<close> says on disk.\<close>

definition journal_says_made :: "fs \<Rightarrow> u64 \<Rightarrow> string \<Rightarrow> u32 \<Rightarrow> nat \<Rightarrow> bool" where
  "journal_says_made s jb path md n \<longleftrightarrow>
     je_type (disk_image s (unat jb)) = MKNOD \<and> je_block (disk_image s (unat jb)) = jb \<and> \<not> je_synced (disk_image s (unat jb)) \<and>
     load32 (disk_image s (unat jb)) JE_MODE = md \<and> load64 (disk_image s (unat jb)) JE_INODE = of_nat n \<and>
     read_str PATH_MAX (disk_image s (unat jb)) JE_PATH = Some path"

lemma read_str_copy:
  "read_str PATH_MAX (copy_entry (set_je_block jb (store64 v e JE_BTREE)) b) JE_PATH = read_str PATH_MAX e JE_PATH"
proof -
  have "copy_entry (set_je_block jb (store64 v e JE_BTREE)) b (JE_PATH + k) = e (JE_PATH + k)" if "k < PATH_MAX" for k
    using that by (subst copy_entry_byte) (simp_all add: store_le_def layout PATH_MAX_def)
  then have "load_bytes PATH_MAX (copy_entry (set_je_block jb (store64 v e JE_BTREE)) b) JE_PATH = load_bytes PATH_MAX e JE_PATH"
    unfolding load_bytes_def by simp
  then show ?thesis by (simp add: read_str_def)
qed

lemma nbtrfs_mknod_step:
  assumes G: "can_make s M r a c md n es" and sl: "v_slots a = extra s r + Suc k" and len: "length (join [c]) < PATH_MAX"
  obtains s' now d f F jb where "nbtrfs_mknod env s (join [c]) md = Some (0, s')"
    and "models s' M r (made env c md r n now d f F k a)" and "F \<subseteq> v_free a" and "card F + extra s r + 1 = card (v_free a)"
    and "kept {first_block s r} s s'" and "lists_new s' r es c n" and "journal_says_made s' jb (join [c]) md n"
proof -
  let ?p = "join [c]"
  have nul: "CHR 0x00 \<notin> set ?p" and ty: "md AND S_IFMT \<noteq> FILE_TYPE_DIRECTORY" using G by (simp_all add: can_make_def)
  obtain s1 now d f F where s1: "metadata_mknod (initialize_journal_entry env) env s ?p md False None = Some (0, Some (of_nat n), s1)"
      "models s1 M r (made env c md r n now d f F (Suc k) a)" "F \<subseteq> v_free a" "card F + extra s r + 1 = card (v_free a)"
      "kept {first_block s r} s s1" "lists_new s1 r es c n"
    by (rule mknod_step [OF G, of "Suc k" env False]) (use sl in simp)
  let ?e = "mknod_entry (stack env s) ?p md (of_nat n)"
  note E = mknod_entry_fields [OF len nul, of "stack env s" md "of_nat n"]
  have prep: "prepare_entry s1 ?e = Some (store64 0 ?e JE_BTREE, s1)" by (rule mknod_prepared) (use E(1,2) ty in simp_all)
  have sl1: "v_slots (made env c md r n now d f F (Suc k) a) = Suc k" by (simp add: made_def)
  let ?jb = "head_block s1"
  obtain s2 where s2: "initialize_journal_entry env s1 ?e = Some s2"
      "models s2 M r ((made env c md r n now d f F (Suc k) a)\<lparr>v_slots := k\<rparr>)" "kept {} s1 s2"
      "view s2 ?jb = copy_entry (set_je_block ?jb (store64 0 ?e JE_BTREE)) (view s1 ?jb)" "disk_image s2 (unat ?jb) = view s2 ?jb"
    by (rule journal_step [OF s1(2) sl1 prep, of env]) (rule that)
  have eq: "(made env c md r n now d f F (Suc k) a)\<lparr>v_slots := k\<rparr> = made env c md r n now d f F k a" by (simp add: made_def)
  have run: "nbtrfs_mknod env s ?p md = Some (0, s2)"
    using s1(1) s2(1) by (simp add: nbtrfs_mknod_def mknod_entry_def Let_def del: join.simps)
  have fb: "first_block s2 r = first_block s1 r"
    using modelsD(6) [OF s2(2) modelsD(9) [OF s2(2)]] modelsD(6) [OF s1(2) modelsD(9) [OF s1(2)]] by simp
  have jr: "journal_says_made s2 ?jb ?p md n"
    unfolding journal_says_made_def s2(5) s2(4) read_str_copy
    using E by (simp add: copy_entry_field layout) (simp add: copy_entry_byte layout store_le_def)
  show thesis
    by (rule that [OF run s2(2) [unfolded eq] s1(3,4) _ lists_new_kept [OF s2(3) fb s1(6)] jr])
      (use kept_trans [OF s1(5) s2(3)] in simp)
qed

section \<open>Finding it\<close>

text \<open>The path of the new file leads to its inode.\<close>

lemma models_rooted:
  assumes "models s M r a"
  shows "rooted s" and "block_number (root_node s) = btree_root (sb_of s)"
  using root_dirD(4,6) [OF modelsD(1) [OF assms]] by simp_all

lemma models_entry:
  assumes S: "models s M r a" and q: "(path_hash c, l) \<in> set (v_names a)"
  shows "dir_entry s (btree_root (sb_of s)) c (Some l)"
proof -
  note f = modelsD(8) [OF S]
  have ne: "v_names a \<noteq> []" using q by auto
  note T = flat_tree_at [OF f]
  have "sorted_wrt (<) (map fst (v_names a))" using f by (simp add: flat_at_def)
  then have "distinct (map fst (v_names a))" by (simp add: strict_sorted_iff)
  then have "map_of (v_names a) (path_hash c) = Some l" using q by simp
  with T ne show ?thesis unfolding dir_entry_def by metis
qed

lemma models_resolves:
  assumes S: "models s M r a" and q: "(path_hash c, l) \<in> set (v_names a)" and l: "v_leaf a l = (v, ty)" "ty \<noteq> FILE_TYPE_DIRECTORY"
  shows "resolves s (root_node s) [c] (node_at s l)" and "n_value (node_at s l) = v" and "file_type (node_at s l) = ty"
proof -
  have "leaf_says s l = v_leaf a l" using S q by (force simp: models_def)
  then show N: "n_value (node_at s l) = v" "file_type (node_at s l) = ty" using l(1) by (simp_all add: leaf_says_def)
  show "resolves s (root_node s) [c] (node_at s l)"
    using models_entry [OF S q] models_rooted(2) [OF S] N l(2) by (auto simp: target_of_def)
qed

end
