(* ===== verification/Sync.thy ===== *)
theory Sync
  imports Store
begin

text \<open>
  \<open>cache_sync\<close>: the loop over the global dirty list ends, writes back every block in it, and leaves
  the disk image equal to the current contents of every block.
\<close>

section \<open>One round\<close>

text \<open>The cached blocks lie on the disk, and the mutex is free: what a write-back needs.\<close>

definition writable :: "fs \<Rightarrow> bool" where
  "writable s \<longleftrightarrow> \<not> cache_disabled s \<and> \<not> lock_held s \<and> addressable s \<and>
     (\<forall>b. pci_map (pci (cache_s s)) b \<noteq> None \<longrightarrow> unat b < nblocks s)"

text \<open>
  \<open>synced s s' B\<close>: exactly the blocks of \<open>B\<close> were brought up to date on disk; the cached contents, the
  recency order and the pins are as before.
\<close>

definition synced :: "fs \<Rightarrow> fs \<Rightarrow> u64 set \<Rightarrow> bool" where
  "synced s s' B \<longleftrightarrow> writable s' \<and> total_blocks (disk s') = total_blocks (disk s) \<and>
     cache_size (cache_s s') = cache_size (cache_s s) \<and> pci (cache_s s') = pci (cache_s s) \<and>
     free_list (cache_s s') = free_list (cache_s s) \<and> pages (cache_s s') = pages (cache_s s) \<and>
     (\<forall>j. page_data (entries (cache_s s') ! j) = page_data (entries (cache_s s) ! j) \<and>
          ce_block_number (entries (cache_s s') ! j) = ce_block_number (entries (cache_s s) ! j) \<and>
          pin_count (entries (cache_s s') ! j) = pin_count (entries (cache_s s) ! j)) \<and>
     disk_image s' = (\<lambda>k. if k \<in> unat ` B then view s (of_nat k) else disk_image s k)"

lemma synced_refl: "writable s \<Longrightarrow> synced s s {}"
  by (simp add: synced_def)

lemma synced_view:
  assumes "synced s s' B" and "writable s" and "\<And>b. b \<in> B \<Longrightarrow> pci_map (pci (cache_s s)) b \<noteq> None"
  shows "view s' = view s"
proof
  fix b
  have "page_of (cache_s s') j = page_of (cache_s s) j" for j using assms(1) by (simp add: synced_def page_of_def)
  moreover have "unat b \<in> unat ` B \<longleftrightarrow> b \<in> B" by (rule inj_image_mem_iff) (rule inj_onI, simp only: word_unat_eq_iff)
  ultimately show "view s' b = view s b"
    using assms by (auto simp: view_def synced_def writable_def split: option.splits)
qed

lemma synced_trans:
  assumes "synced s t A" and "synced t u B" and "writable s" and "\<And>b. b \<in> A \<Longrightarrow> pci_map (pci (cache_s s)) b \<noteq> None"
  shows "synced s u (A \<union> B)"
proof -
  have "view t = view s" by (rule synced_view [OF assms(1,3,4)])
  then show ?thesis using assms(1,2) by (auto simp: synced_def fun_eq_iff)
qed

text \<open>The blocks the nodes of a global dirty list stand for.\<close>

definition gdl_blocks :: "cache \<Rightarrow> nat list \<Rightarrow> u64 set" where
  "gdl_blocks c G = {ce_block_number (entries c ! i) | i g. g \<in> set G \<and> idx_of (gdl_heap c) g = Some (int i)}"

lemma gdl_blocks_cached:
  assumes "cinv c L G" and "b \<in> gdl_blocks c G"
  shows "pci_map (pci c) b \<noteq> None"
proof -
  from assms(2) obtain i g where "b = ce_block_number (entries c ! i)" "g \<in> set G" "idx_of (gdl_heap c) g = Some (int i)"
    by (auto simp: gdl_blocks_def)
  then show ?thesis
    using cinvD(11) [OF assms(1), of g] cinvD(8) [OF assms(1), of i] by (auto simp: slot_ok_def)
qed

text \<open>
  Slot \<open>i\<close> becomes clean, and the nodes that leave the global dirty list stand for it: the invariant is kept.
\<close>

lemma cinv_clean:
  assumes inv: "cinv c L G" and i: "in_use c i"
    and sel: "cache_size c' = cache_size c" "free_list c' = free_list c" "pci c' = pci c" "pages c' = pages c"
      "lru_heap c' = lru_heap c" "lru c' = lru c" "lru_size c' = lru_size c" "brk c' = brk c"
    and es: "entries c' = (entries c)[i := (entries c ! i)\<lparr>dirty_bit := False, gdl_pos := None\<rparr>]"
    and ring: "gdl_ring c' G'" "set G' \<subseteq> set G"
    and idx: "\<And>x. x \<in> set G' \<Longrightarrow> idx_of (gdl_heap c') x = idx_of (gdl_heap c) x"
    and rest: "\<And>x. x \<in> set G \<Longrightarrow> x \<notin> set G' \<Longrightarrow> idx_of (gdl_heap c) x = Some (int i)"
  shows "cinv c' L G'"
proof -
  note I = cinvD [OF inv]
  have il: "i < length (entries c)" by (rule in_use_less [OF inv i])
  have e: "entries c' ! j = (if j = i then (entries c ! i)\<lparr>dirty_bit := False, gdl_pos := None\<rparr> else entries c ! j)" for j
    using il by (simp add: es nth_list_update)
  have u: "in_use c' j = in_use c j" for j by (simp add: in_use_def sel)
  have ok: "slot_ok c' L G' j" if j: "in_use c j" for j
  proof (cases "j = i")
    case True
    then show ?thesis using I(8) [OF i] by (auto simp: slot_ok_def e sel)
  next
    case False
    have "\<exists>g \<in> set G'. gdl_pos (entries c ! j) = Some g \<and> idx_of (gdl_heap c') g = Some (int j)" if "dirty_bit (entries c ! j)"
      using I(8) [OF j] that rest idx False unfolding slot_ok_def by (metis of_nat_eq_iff option.inject)
    then show ?thesis using I(8) [OF j] False by (auto simp: slot_ok_def e sel)
  qed
  have pg: "j = k" if "in_use c j" "in_use c k" "page_data (entries c' ! j) = page_data (entries c' ! k)" for j k
    using I(12) [of j k] that unfolding e by (auto split: if_splits)
  have lp: "lru_pos (entries c' ! j) = lru_pos (entries c ! j)" for j by (simp add: e)
  show ?thesis
    unfolding cinv_def u
  proof (intro conjI)
    show "\<forall>a \<in> set L. \<exists>j. in_use c j \<and> lru_pos (entries c' ! j) = Some a"
      using I(9) lp by simp
    show "\<forall>b j. pci_map (pci c') b = Some j \<longrightarrow> in_use c j \<and> ce_block_number (entries c' ! j) = b"
      using I(10) by (auto simp: e sel)
    show "lru_ring c' L" using lru_ring_mono [OF I(3), of c'] by (simp add: sel)
    show "\<forall>g \<in> set G'. \<exists>j. in_use c j \<and> idx_of (gdl_heap c') g = Some (int j)"
      using I(11) idx ring(2) by auto
  qed (use I ok pg ring(1) in \<open>auto simp: sel es\<close>)
qed

text \<open>The write-back of slot \<open>i\<close> itself.\<close>

lemma slot_write_back:
  assumes w: "writable s" and inv: "cinv c L G" and i: "in_use c i" and pg: "pages (cache_s s) = pages c"
  obtains a x where "page_data (entries c ! i) = Some a" and "pages c a = Some x"
    and "pci_map (pci c) (ce_block_number (entries c ! i)) = Some i"
    and "pci (cache_s s) = pci c \<Longrightarrow> locked_write s (ce_block_number (entries c ! i)) (PagePtr a) =
      Some (s\<lparr>disk := (disk s)\<lparr>disk_base := (disk_base (disk s))(unat (ce_block_number (entries c ! i)) := x)\<rparr>\<rparr>)"
proof -
  obtain a x where a: "page_data (entries c ! i) = Some a" "pages c a = Some x" "pci_map (pci c) (ce_block_number (entries c ! i)) = Some i"
    using cinvD(8) [OF inv i] by (auto simp: slot_ok_def)
  then show thesis
    by (rule that) (rule locked_write_ok; use w a pg in \<open>auto simp: writable_def\<close>)
qed

text \<open>Writing slot \<open>i\<close> back, once its node \<open>g\<close> has left the list.\<close>

lemma sync_slot_ok:
  assumes w: "writable s" and inv: "cinv c L G" and i: "in_use c i"
    and pop: "cache_s s = c\<lparr>gdl_heap := h, gdl := hd', gdl_size := gdl_size c - 1\<rparr>"
    and ring: "gdl_ring (cache_s s) G'" "set G' \<subseteq> set G"
    and idx: "\<And>x. x \<in> set G' \<Longrightarrow> idx_of h x = idx_of (gdl_heap c) x"
    and rest: "\<And>x. x \<in> set G \<Longrightarrow> x \<notin> set G' \<Longrightarrow> idx_of (gdl_heap c) x = Some (int i)"
  obtains s' where "sync_slot s (int i) = Some s'" and "cinv (cache_s s') L G'" and "gdl_heap (cache_s s') = h"
    and "synced s s' {ce_block_number (entries c ! i)}" and "\<not> dirty_bit (entries (cache_s s') ! i)"
proof -
  let ?b = "ce_block_number (entries c ! i)"
  have il: "i < length (entries c)" by (rule in_use_less [OF inv i])
  obtain a x where a: "page_data (entries c ! i) = Some a" "pages c a = Some x" "pci_map (pci c) ?b = Some i"
    and lw: "locked_write s ?b (PagePtr a) = Some (s\<lparr>disk := (disk s)\<lparr>disk_base := (disk_base (disk s))(unat ?b := x)\<rparr>\<rparr>)"
    by (rule slot_write_back [OF w inv i]) (simp_all add: pop)
  define s1 where "s1 = s\<lparr>disk := (disk s)\<lparr>disk_base := (disk_base (disk s))(unat ?b := x)\<rparr>\<rparr>"
  define c1 where "c1 = upd_entry (cache_s s) i (\<lambda>e. e\<lparr>dirty_bit := False, gdl_pos := None\<rparr>)"
  define c2 where "c2 = (if btype x = BLOCK_TYPE_DATA
    then c1\<lparr>dirty_list := dl_remove_block (dirty_list c1) (ce_inode_number (entries c ! i)) ?b\<rparr> else c1)"
  have ss: "sync_slot s (int i) = Some (s1\<lparr>cache_s := c2\<rparr>)"
    using il a lw pop by (simp add: sync_slot_def Let_def c2_def c1_def s1_def)
  have sel: "cache_size c2 = cache_size c" "free_list c2 = free_list c" "pci c2 = pci c" "pages c2 = pages c"
      "lru_heap c2 = lru_heap c" "lru c2 = lru c" "lru_size c2 = lru_size c" "brk c2 = brk c" "gdl_heap c2 = h"
      "gdl c2 = gdl (cache_s s)" "gdl_size c2 = gdl_size (cache_s s)"
      "entries c2 = (entries c)[i := (entries c ! i)\<lparr>dirty_bit := False, gdl_pos := None\<rparr>]"
    by (simp_all add: c2_def c1_def pop)
  have "gdl_ring c2 G'" using gdl_ring_mono [OF ring(1), of c2] by (simp add: sel pop)
  then have "cinv c2 L G'"
    by (rule cinv_clean [OF inv i sel(1-8,12) _ ring(2)]) (use idx rest in \<open>simp_all add: sel(9)\<close>)
  moreover have "synced s (s1\<lparr>cache_s := c2\<rparr>) {?b}"
    using w a il pop
    by (auto simp: synced_def writable_def addressable_def nblocks_def s1_def sel nth_list_update disk_image_def fun_eq_iff
        view_def page_of_def)
  ultimately show thesis
    using ss il by (intro that [of "s1\<lparr>cache_s := c2\<rparr>"]) (simp_all add: sel)
qed

section \<open>The loop\<close>

lemma gdl_tail:
  assumes "gdl_ring c G" and "G \<noteq> []"
  obtains n where "gdl c = Some (hd G)" and "gdl_heap c (hd G) = Some n" and "prv n = last G" and "gdl_size c > 0"
proof -
  have r: "ring (gdl_heap c) G" and h: "gdl c = Some (hd G)" and z: "gdl_size c > 0"
    using assms by (auto simp: gdl_ring_def ring_list_def split: list.splits)
  from ring_prev_head [OF r assms(2)] h z show thesis by (auto simp: prv_of_def intro: that)
qed

lemma sync_round:
  assumes w: "writable s" and inv: "cinv (cache_s s) L G" and ne: "G \<noteq> []"
  obtains s' where "sync_loop s = sync_loop s'" and "cinv (cache_s s') L (butlast G)"
    and "synced s s' {b. b \<in> gdl_blocks (cache_s s) [last G]}"
    and "gdl_blocks (cache_s s') (butlast G) = gdl_blocks (cache_s s) (butlast G)"
proof -
  let ?c = "cache_s s"
  note I = cinvD [OF inv]
  obtain n where n: "gdl ?c = Some (hd G)" "gdl_heap ?c (hd G) = Some n" "prv n = last G" "gdl_size ?c > 0"
    using gdl_tail [OF I(4) ne] .
  have lg: "last G \<in> set G" using ne by simp
  have dist: "distinct G" using I(4) by (simp add: gdl_ring_def ring_list_def ring_def)
  then have rm: "remove1 (last G) G = butlast G"
    by (metis append_butlast_last_id distinct_append in_set_conv_decomp ne notin_set_remove1 remove1_append remove1.simps(2)
        not_distinct_conv_prefix distinct_last append_Nil2 remove1_idem)
  obtain i where i: "in_use ?c i" "idx_of (gdl_heap ?c) (last G) = Some (int i)" using I(11) [OF lg] by blast
  obtain k h hd' where pop: "idx_of (gdl_heap ?c) (last G) = Some k"
      "gdl_pop ?c (GdlLocal (Some (last G))) = Some (k, gdl_store None (GdlLocal (Some (last G)))
         (?c\<lparr>gdl_heap := h, gdl := hd', gdl_size := gdl_size ?c - 1\<rparr>))"
      "gdl_ring (?c\<lparr>gdl_heap := h, gdl := hd', gdl_size := gdl_size ?c - 1\<rparr>) (remove1 (last G) G)"
      "\<And>x. x \<noteq> last G \<Longrightarrow> idx_of h x = idx_of (gdl_heap ?c) x"
    by (rule gdl_pop_ok [OF I(4) lg, of "GdlLocal (Some (last G))"]) (simp, simp, rule that)
  have k: "k = int i" using pop(1) i(2) by simp
  define s1 where "s1 = s\<lparr>cache_s := ?c\<lparr>gdl_heap := h, gdl := hd', gdl_size := gdl_size ?c - 1\<rparr>\<rparr>"
  have w1: "writable s1" using w by (simp add: s1_def writable_def addressable_def nblocks_def)
  have nb: "x \<noteq> last G" if "x \<in> set (butlast G)" for x using distinct_last [OF dist that] .
  have st: "set (butlast G) \<subseteq> set G" by (auto dest: in_set_butlastD)
  have rs: "idx_of (gdl_heap ?c) x = Some (int i)" if "x \<in> set G" "x \<notin> set (butlast G)" for x
  proof -
    have "x \<in> set (butlast G @ [last G])" using that(1) ne by simp
    then show ?thesis using that(2) i(2) by auto
  qed
  have ring1: "gdl_ring (cache_s s1) (butlast G)" using pop(3) by (simp add: s1_def rm)
  have cs1: "cache_s s1 = ?c\<lparr>gdl_heap := h, gdl := hd', gdl_size := gdl_size ?c - 1\<rparr>" by (simp add: s1_def)
  obtain s' where s': "sync_slot s1 (int i) = Some s'" "cinv (cache_s s') L (butlast G)" "gdl_heap (cache_s s') = h"
      "synced s1 s' {ce_block_number (entries ?c ! i)}"
    by (rule sync_slot_ok [OF w1 inv i(1) cs1 ring1 st])
      (use pop(4) nb rs in auto)
  have ic: "i < cache_size ?c" using i(1) by (simp add: in_use_def)
  have "sync_loop s = sync_loop s'"
    by (subst sync_loop.simps) (use n pop(2) k ic s'(1) in \<open>simp add: s1_def\<close>)
  moreover have "synced s s' {b. b \<in> gdl_blocks ?c [last G]}"
  proof -
    have "{b. b \<in> gdl_blocks ?c [last G]} = {ce_block_number (entries ?c ! i)}" using i(2) by (auto simp: gdl_blocks_def)
    moreover have "view s1 = view s" "disk_image s1 = disk_image s"
      by (simp_all add: s1_def view_def disk_image_def page_of_def fun_eq_iff split: option.splits)
    moreover have "cache_size (cache_s s1) = cache_size ?c" "pci (cache_s s1) = pci ?c" "free_list (cache_s s1) = free_list ?c"
        "pages (cache_s s1) = pages ?c" "entries (cache_s s1) = entries ?c" "disk s1 = disk s"
      by (simp_all add: s1_def)
    ultimately show ?thesis using s'(4) unfolding synced_def by (simp only: simp_thms)
  qed
  moreover have "gdl_blocks (cache_s s') (butlast G) = gdl_blocks ?c (butlast G)"
    using s'(3,4) pop(4) nb by (auto simp: gdl_blocks_def synced_def s1_def) metis+
  ultimately show thesis using s'(2) by (intro that)
qed

lemma sync_loop_ok:
  assumes "writable s" and "cinv (cache_s s) L G"
  shows "\<exists>s'. sync_loop s = Some s' \<and> cinv (cache_s s') L [] \<and> synced s s' (gdl_blocks (cache_s s) G)"
  using assms
proof (induction "length G" arbitrary: s G)
  case 0
  then have "gdl (cache_s s) = None" using cinvD(4) by (fastforce simp: gdl_ring_def ring_list_def)
  then have "sync_loop s = Some s" by (subst sync_loop.simps) simp
  with 0 show ?case by (auto simp: gdl_blocks_def intro: synced_refl)
next
  case (Suc k)
  then have ne: "G \<noteq> []" by auto
  obtain s1 where s1: "sync_loop s = sync_loop s1" "cinv (cache_s s1) L (butlast G)"
      "synced s s1 {b. b \<in> gdl_blocks (cache_s s) [last G]}"
      "gdl_blocks (cache_s s1) (butlast G) = gdl_blocks (cache_s s) (butlast G)"
    by (rule sync_round [OF Suc.prems ne])
  have w1: "writable s1" using s1(3) by (simp add: synced_def)
  have "k = length (butlast G)" using Suc.hyps(2) by simp
  from Suc.hyps(1) [OF this w1 s1(2)] obtain s' where s': "sync_loop s1 = Some s'" "cinv (cache_s s') L []"
      "synced s1 s' (gdl_blocks (cache_s s1) (butlast G))" by blast
  have "gdl_blocks (cache_s s) G = gdl_blocks (cache_s s) [last G] \<union> gdl_blocks (cache_s s) (butlast G)"
  proof -
    have "set G = insert (last G) (set (butlast G))"
      using arg_cong [OF append_butlast_last_id [OF ne], of set] by auto
    then show ?thesis by (auto simp: gdl_blocks_def)
  qed
  moreover have "synced s s' ({b. b \<in> gdl_blocks (cache_s s) [last G]} \<union> gdl_blocks (cache_s s) (butlast G))"
  proof (rule synced_trans [OF s1(3) s'(3) [unfolded s1(4)] Suc.prems(1)])
    fix b assume "b \<in> {b. b \<in> gdl_blocks (cache_s s) [last G]}"
    then have "b \<in> gdl_blocks (cache_s s) G" using last_in_set [OF ne] by (auto simp: gdl_blocks_def)
    then show "pci_map (pci (cache_s s)) b \<noteq> None" by (rule gdl_blocks_cached [OF Suc.prems(2)])
  qed
  ultimately show ?case using s1(1) s' by auto
qed

section \<open>Synchronisation makes the image current\<close>

text \<open>A clean cached page agrees with the disk.\<close>

definition coherent :: "fs \<Rightarrow> bool" where
  "coherent s \<longleftrightarrow> cache_disabled s \<or>
     (\<forall>i b. pci_map (pci (cache_s s)) b = Some i \<longrightarrow> \<not> dirty_bit (entries (cache_s s) ! i) \<longrightarrow> view s b = disk_image s (unat b))"

text \<open>Coherent means that no block is stale, in the terms of the store.\<close>

lemma coherent_stale: "store_ok s \<Longrightarrow> coherent s \<longleftrightarrow> (\<forall>b. \<not> st.stale s b)"
proof -
  assume ok: "store_ok s"
  show ?thesis
  proof (cases "cache_disabled s")
    case True
    then show ?thesis by (simp add: coherent_def st.stale_def view_def)
  next
    case False
    have "view s b = disk_image s (unat b)" if "pci_map (pci (cache_s s)) b = None" for b using that False by (simp add: view_def)
    with False show ?thesis by (fastforce simp: coherent_def st.stale_def dirty_block_def)
  qed
qed

lemma writable_store: "store_ok s \<Longrightarrow> \<not> cache_disabled s \<Longrightarrow> writable s"
  by (simp add: store_ok_def writable_def)

lemma cache_sync_ok:
  assumes ok: "store_ok s" and co: "coherent s"
  obtains s' where "cache_sync s = Some s'" and "store_ok s'" and "coherent s'" and "view s' = view s"
    and "\<And>b. disk_image s' (unat b) = view s b"
    and "\<And>i. \<not> cache_disabled s \<Longrightarrow> in_use (cache_s s') i \<Longrightarrow> \<not> dirty_bit (entries (cache_s s') ! i)"
    and "nblocks s' = nblocks s" and "\<not> cache_disabled s \<Longrightarrow> \<not> cache_disabled s' \<and> (\<exists>L. cinv (cache_s s') L [])"
proof (cases "cache_disabled s")
  case True
  then show thesis using ok co by (intro that [of s]) (simp_all add: cache_sync_def view_def)
next
  case False
  let ?c = "cache_s s"
  obtain L G where inv: "cinv ?c L G" using store_ok_cached [OF ok False] .
  have w: "writable s" by (rule writable_store [OF ok False])
  obtain s' where s': "sync_loop s = Some s'" "cinv (cache_s s') L []" "synced s s' (gdl_blocks ?c G)"
    using sync_loop_ok [OF w inv] by blast
  have v: "view s' = view s" by (rule synced_view [OF s'(3) w gdl_blocks_cached [OF inv]])
  have nd: "\<not> dirty_bit (entries (cache_s s') ! i)" if "in_use (cache_s s') i" for i
    using cinvD(8) [OF s'(2) that] by (auto simp: slot_ok_def)
  have im: "disk_image s' (unat b) = view s b" for b
  proof (cases "b \<in> gdl_blocks ?c G")
    case True
    then show ?thesis using s'(3) by (auto simp: synced_def)
  next
    case b: False
    then have "unat b \<notin> unat ` gdl_blocks ?c G" by (simp add: inj_image_mem_iff inj_on_def word_unat_eq_iff)
    then have "disk_image s' (unat b) = disk_image s (unat b)" using s'(3) by (simp add: synced_def)
    also have "\<dots> = view s b"
    proof (cases "pci_map (pci ?c) b")
      case (Some i)
      have "\<not> dirty_bit (entries ?c ! i)"
      proof
        assume "dirty_bit (entries ?c ! i)"
        then have "b \<in> gdl_blocks ?c G"
          using cinvD(8) [OF inv cached_live(1) [OF inv False Some]] cached_live(4) [OF inv False Some]
          by (auto simp: slot_ok_def gdl_blocks_def)
        with b show False by simp
      qed
      then show ?thesis using co Some False by (auto simp: coherent_def)
    qed (use False in \<open>simp add: view_def\<close>)
    finally show ?thesis .
  qed
  have "store_ok s'"
    using ok False s'(2,3) by (auto simp: store_ok_def synced_def writable_def cache_inv_def nblocks_def tidy_def)
  moreover have "coherent s'" using im v by (simp add: coherent_def)
  moreover have "nblocks s' = nblocks s" "\<not> cache_disabled s' \<and> (\<exists>L. cinv (cache_s s') L [])"
    using s'(2,3) by (auto simp: synced_def writable_def nblocks_def)
  ultimately show thesis using False s'(1) v im nd by (intro that [of s']) (simp_all add: cache_sync_def)
qed

end
