(* ===== verification/Fsync.thy ===== *)
theory Fsync
  imports Sync
begin

text \<open>
  \<open>cache_fsync\<close>: it ends, and writes exactly the blocks in the dirty list of the inode. The locale
  \<open>fsync_store\<close> adds this law to the contract of the store.
\<close>

section \<open>One block\<close>

lemma fsync_block_ok:
  assumes w: "writable s" and inv: "cinv (cache_s s) L G" and b: "pci_map (pci (cache_s s)) b = Some i"
    and st: "dirty_bit (entries (cache_s s) ! i) \<or> gdl_pos (entries (cache_s s) ! i) = None"
  obtains s' G' where "fsync_block s b = Some s'" and "cinv (cache_s s') L G'" and "synced s s' {b}"
    and "entries (cache_s s') = (entries (cache_s s))[i := (entries (cache_s s) ! i)\<lparr>dirty_bit := False, gdl_pos := None\<rparr>]"
    and "dirty_list (cache_s s') = dirty_list (cache_s s)"
proof -
  let ?c = "cache_s s" and ?e = "entries (cache_s s) ! i"
  note I = cinvD [OF inv]
  have u: "in_use ?c i" "ce_block_number ?e = b" using I(10) [OF b] by simp_all
  have il: "i < length (entries ?c)" by (rule in_use_less [OF inv u(1)])
  have "pci_lookup (pci ?c) b = int i" using pci.lookup_assoc [OF I(5), of b] b by simp
  then have en: "entry_at ?c (pci_lookup (pci ?c) b) = Some ?e" and ni: "nat (pci_lookup (pci ?c) b) = i" using il by simp_all
  obtain a x where a: "page_data ?e = Some a" "pages ?c a = Some x"
      "locked_write s b (PagePtr a) = Some (s\<lparr>disk := (disk s)\<lparr>disk_base := (disk_base (disk s))(unat b := x)\<rparr>\<rparr>)"
    using slot_write_back [OF w inv u(1) refl, of thesis] u(2) by blast
  define s1 where "s1 = s\<lparr>disk := (disk s)\<lparr>disk_base := (disk_base (disk s))(unat b := x)\<rparr>\<rparr>"
  define c1 where "c1 = upd_entry ?c i (\<lambda>e. e\<lparr>dirty_bit := False\<rparr>)"
  have e1: "entries c1 ! i = ?e\<lparr>dirty_bit := False\<rparr>" "i < length (entries c1)" using il by (simp_all add: c1_def)
  obtain k c2 G' where pop: "gdl_pop c1 (GdlEntry i) = Some (k, c2)" "gdl_ring c2 G'" "set G' \<subseteq> set G"
      "\<And>y. y \<in> set G' \<Longrightarrow> idx_of (gdl_heap c2) y = idx_of (gdl_heap ?c) y"
      "\<And>y. y \<in> set G \<Longrightarrow> y \<notin> set G' \<Longrightarrow> idx_of (gdl_heap ?c) y = Some (int i)"
    and sel: "cache_size c2 = cache_size ?c" "free_list c2 = free_list ?c" "pci c2 = pci ?c" "pages c2 = pages ?c"
      "lru_heap c2 = lru_heap ?c" "lru c2 = lru ?c" "lru_size c2 = lru_size ?c" "brk c2 = brk ?c" "dirty_list c2 = dirty_list ?c"
    and es: "entries c2 = (entries ?c)[i := ?e\<lparr>dirty_bit := False, gdl_pos := None\<rparr>]"
  proof (cases "gdl_pos ?e")
    case None
    have "gdl_ring c1 G" using gdl_ring_mono [OF I(4), of c1] by (simp add: c1_def)
    moreover have eq: "?e\<lparr>dirty_bit := False, gdl_pos := None\<rparr> = ?e\<lparr>dirty_bit := False\<rparr>" using None by (cases ?e) simp
    ultimately show thesis
      by (intro that [of "-1" c1 G]) (use None e1 in \<open>simp_all add: gdl_pop_def c1_def eq\<close>)
  next
    case (Some g)
    then have g: "g \<in> set G" "idx_of (gdl_heap ?c) g = Some (int i)" using I(8) [OF u(1)] st by (auto simp: slot_ok_def)
    have r1: "gdl_ring c1 G" using gdl_ring_mono [OF I(4), of c1] by (simp add: c1_def)
    have ld: "gdl_load c1 (GdlEntry i) = Some (Some g)" using Some e1 by simp
    obtain k h hd' where p: "gdl_pop c1 (GdlEntry i) = Some (k, gdl_store None (GdlEntry i) (c1\<lparr>gdl_heap := h, gdl := hd', gdl_size := gdl_size c1 - 1\<rparr>))"
        "gdl_ring (c1\<lparr>gdl_heap := h, gdl := hd', gdl_size := gdl_size c1 - 1\<rparr>) (remove1 g G)"
        "\<And>y. y \<noteq> g \<Longrightarrow> idx_of h y = idx_of (gdl_heap c1) y"
      by (rule gdl_pop_ok [OF r1 g(1) ld]) (simp, rule that)
    let ?c2 = "gdl_store None (GdlEntry i) (c1\<lparr>gdl_heap := h, gdl := hd', gdl_size := gdl_size c1 - 1\<rparr>)"
    have dist: "distinct G" using r1 by (simp add: gdl_ring_def ring_list_def ring_def)
    show thesis
    proof (rule that [OF p(1), of "remove1 g G"])
      show "gdl_ring ?c2 (remove1 g G)" using p(2) by (simp del: gdl_store.simps)
      show "idx_of (gdl_heap ?c2) y = idx_of (gdl_heap ?c) y" if "y \<in> set (remove1 g G)" for y
        using that dist p(3) by (auto simp: c1_def)
      show "idx_of (gdl_heap ?c) y = Some (int i)" if "y \<in> set G" "y \<notin> set (remove1 g G)" for y
        using that dist g(2) by auto
    qed (use dist il in \<open>auto simp: c1_def set_remove1_eq\<close>)
  qed
  define c3 where "c3 = upd_entry c2 i (\<lambda>e. e\<lparr>gdl_pos := None\<rparr>)"
  have es3: "entries c3 = (entries ?c)[i := ?e\<lparr>dirty_bit := False, gdl_pos := None\<rparr>]" using il by (simp add: c3_def es)
  have ring3: "gdl_ring c3 G'" using gdl_ring_mono [OF pop(2), of c3] by (simp add: c3_def)
  have inv3: "cinv c3 L G'"
    by (rule cinv_clean [OF inv u(1) _ _ _ _ _ _ _ _ es3 ring3 pop(3)]) (use sel pop(4,5) in \<open>simp_all add: c3_def\<close>)
  have fb: "fsync_block s b = Some (s1\<lparr>cache_s := c3\<rparr>)"
    using en ni a u(2) pop(1) by (simp add: fsync_block_def Let_def c1_def s1_def c3_def)
  have pg: "page_of c3 j = page_of ?c j" for j using il by (simp add: page_of_def es3 nth_list_update)
  have sel3: "cache_size c3 = cache_size ?c" "free_list c3 = free_list ?c" "pci c3 = pci ?c" "pages c3 = pages ?c"
    using sel by (simp_all add: c3_def)
  have "synced s (s1\<lparr>cache_s := c3\<rparr>) {b}"
    using w a il b
    by (auto simp: synced_def writable_def addressable_def nblocks_def s1_def es3 sel3 nth_list_update disk_image_def fun_eq_iff
        view_def page_of_def)
  then show thesis using fb inv3 es3 sel(9) by (intro that [of "s1\<lparr>cache_s := c3\<rparr>" G']) (simp_all add: c3_def)
qed

section \<open>The loop\<close>

lemma fsync_loop_ok:
  assumes "writable s" and "cinv (cache_s s) L G" and "dl_list_wf l"
    and "\<And>n. n \<in> set l \<Longrightarrow> slot_listed (cache_s s) (dl_block_number n)"
  shows "\<exists>s' G'. fsync_loop s l = Some s' \<and> cinv (cache_s s') L G' \<and> synced s s' (dl_block_number ` set l) \<and>
    dirty_list (cache_s s') = dirty_list (cache_s s) \<and>
    (\<forall>b i. pci_map (pci (cache_s s)) b = Some i \<longrightarrow>
      (if b \<in> dl_block_number ` set l
       then \<not> dirty_bit (entries (cache_s s') ! i) \<and> gdl_pos (entries (cache_s s') ! i) = None
       else dirty_bit (entries (cache_s s') ! i) = dirty_bit (entries (cache_s s) ! i) \<and>
         gdl_pos (entries (cache_s s') ! i) = gdl_pos (entries (cache_s s) ! i)))"
  using assms
proof (induction l arbitrary: s G)
  case Nil
  then show ?case by (auto intro: synced_refl)
next
  case (Cons n r)
  let ?c = "cache_s s" and ?b = "dl_block_number n"
  obtain i where i: "pci_map (pci ?c) ?b = Some i" "dirty_bit (entries ?c ! i) \<or> gdl_pos (entries ?c ! i) = None"
    using Cons.prems(4) [of n] by (auto simp: slot_listed_def)
  obtain s1 G1 where s1: "fsync_block s ?b = Some s1" "cinv (cache_s s1) L G1" "synced s s1 {?b}"
      "entries (cache_s s1) = (entries ?c)[i := (entries ?c ! i)\<lparr>dirty_bit := False, gdl_pos := None\<rparr>]"
      "dirty_list (cache_s s1) = dirty_list ?c"
    by (rule fsync_block_ok [OF Cons.prems(1,2) i])
  have w1: "writable s1" and pc: "pci (cache_s s1) = pci ?c" using s1(3) by (simp_all add: synced_def)
  have il: "i < length (entries ?c)" using cinvD(10) [OF Cons.prems(2) i(1)] in_use_less [OF Cons.prems(2)] by simp
  have inj: "j \<noteq> i" if "pci_map (pci ?c) b = Some j" "b \<noteq> ?b" for b j
    using that cinvD(10) [OF Cons.prems(2)] i(1) by blast
  have nr: "?b \<notin> dl_block_number ` set r" "dl_list_wf r" using Cons.prems(3) by (auto simp: dl_list_wf_def)
  have "slot_listed (cache_s s1) (dl_block_number m)" if m: "m \<in> set r" for m
  proof -
    obtain j where "pci_map (pci ?c) (dl_block_number m) = Some j" "dirty_bit (entries ?c ! j) \<or> gdl_pos (entries ?c ! j) = None"
      using Cons.prems(4) [of m] m by (auto simp: slot_listed_def)
    then show ?thesis using inj nr(1) m unfolding slot_listed_def pc s1(4) by (metis image_eqI nth_list_update_neq)
  qed
  from Cons.IH [OF w1 s1(2) nr(2) this] obtain s2 G2 where s2: "fsync_loop s1 r = Some s2" "cinv (cache_s s2) L G2"
      "synced s1 s2 (dl_block_number ` set r)" "dirty_list (cache_s s2) = dirty_list (cache_s s1)"
      "\<And>b j. pci_map (pci ?c) b = Some j \<Longrightarrow>
        (if b \<in> dl_block_number ` set r
         then \<not> dirty_bit (entries (cache_s s2) ! j) \<and> gdl_pos (entries (cache_s s2) ! j) = None
         else dirty_bit (entries (cache_s s2) ! j) = dirty_bit (entries (cache_s s1) ! j) \<and>
           gdl_pos (entries (cache_s s2) ! j) = gdl_pos (entries (cache_s s1) ! j))"
    unfolding pc by blast
  have pop: "dl_pop (n # r) = r" using dl_pop_tl [OF Cons.prems(3)] by simp
  have "fsync_loop s (n # r) = Some s2" using s1(1) s2(1) pop by (simp del: dl_pop.simps)
  moreover have "synced s s2 ({?b} \<union> dl_block_number ` set r)"
    by (rule synced_trans [OF s1(3) s2(3) Cons.prems(1)]) (use i(1) in simp)
  moreover have "if b \<in> dl_block_number ` set (n # r)
       then \<not> dirty_bit (entries (cache_s s2) ! j) \<and> gdl_pos (entries (cache_s s2) ! j) = None
       else dirty_bit (entries (cache_s s2) ! j) = dirty_bit (entries ?c ! j) \<and> gdl_pos (entries (cache_s s2) ! j) = gdl_pos (entries ?c ! j)"
    if j: "pci_map (pci ?c) b = Some j" for b j
  proof (cases "b = ?b")
    case True
    then have "j = i" using i(1) j by simp
    then show ?thesis using s2(5) [OF j] nr(1) True il by (simp add: s1(4))
  next
    case False
    then show ?thesis using s2(5) [OF j] inj [OF j False] by (simp add: s1(4))
  qed
  ultimately show ?case using s2(2,4) s1(5) by (intro exI [of _ s2] exI [of _ G2]) simp
qed

section \<open>The contract\<close>

lemma cache_fsync_ok:
  assumes ok: "store_ok s" and l: "lists_ok s"
  shows "\<exists>s'. cache_fsync s inum = Some s' \<and> store_ok s' \<and> lists_ok s' \<and> nblocks s' = nblocks s \<and>
    cache_disabled s' = cache_disabled s \<and> view s' = view s \<and>
    disk_image s' = (\<lambda>k. if \<exists>b. queued s inum b \<and> unat b = k then view s (of_nat k) else disk_image s k) \<and>
    (\<forall>j b. queued s' j b \<longleftrightarrow> j \<noteq> inum \<and> queued s j b) \<and>
    (\<forall>b. dirty_block s' b \<longleftrightarrow> dirty_block s b \<and> \<not> queued s inum b)"
proof (cases "cache_disabled s")
  case True
  then show ?thesis using ok l by (simp add: cache_fsync_def queued_def dirty_block_def)
next
  case False
  let ?c = "cache_s s" and ?B = "set (dl_blocks (dirty_list (cache_s s)) inum)"
  obtain L G where inv: "cinv ?c L G" using store_ok_cached [OF ok False] .
  have w: "writable s" by (rule writable_store [OF ok False])
  have ex: "dl_exact (dirty_list ?c)" and sl: "\<And>j b. b \<in> set (dl_blocks (dirty_list ?c) j) \<Longrightarrow> slot_listed ?c b"
    using l False by (auto simp: lists_ok_def)
  note wf = dl_exact_wf [OF ex]
  show ?thesis
  proof (cases "dl_lookup (dirty_list ?c) inum")
    case None
    then have "?B = {}" by (simp add: dl_blocks_def)
    then have "\<not> queued s inum b" for b by (simp add: queued_def)
    moreover from this have "queued s j b \<longleftrightarrow> j \<noteq> inum \<and> queued s j b" for j b by auto
    ultimately show ?thesis using None False ok l by (simp add: cache_fsync_def)
  next
    case (Some n)
    have B: "dl_block_number ` set (dl_list n) = ?B" using Some by (simp add: dl_blocks_def)
    have lw: "dl_list_wf (dl_list n)" using dl_wf_node [OF wf Some] by simp
    obtain s1 G1 where s1: "fsync_loop s (dl_list n) = Some s1" "cinv (cache_s s1) L G1" "synced s s1 ?B"
        "dirty_list (cache_s s1) = dirty_list ?c"
        "\<forall>b i. pci_map (pci ?c) b = Some i \<longrightarrow>
          (if b \<in> ?B then \<not> dirty_bit (entries (cache_s s1) ! i) \<and> gdl_pos (entries (cache_s s1) ! i) = None
           else dirty_bit (entries (cache_s s1) ! i) = dirty_bit (entries ?c ! i) \<and>
             gdl_pos (entries (cache_s s1) ! i) = gdl_pos (entries ?c ! i))"
    proof -
      have "slot_listed ?c (dl_block_number m)" if "m \<in> set (dl_list n)" for m using sl [of "dl_block_number m" inum] that B by blast
      from fsync_loop_ok [OF w inv lw this] that show thesis unfolding B by blast
    qed
    note bits = s1(5) [THEN spec, THEN spec, THEN mp]
    let ?c1 = "cache_s s1" and ?s = "s1\<lparr>cache_s := (cache_s s1)\<lparr>dirty_list := dl_delete (dirty_list (cache_s s1)) inum\<rparr>\<rparr>"
    have Y: "writable s1" "total_blocks (disk s1) = total_blocks (disk s)" "cache_size ?c1 = cache_size ?c" "pci ?c1 = pci ?c"
        "free_list ?c1 = free_list ?c" "pages ?c1 = pages ?c"
        "\<And>j. page_data (entries ?c1 ! j) = page_data (entries ?c ! j)"
        "disk_image s1 = (\<lambda>k. if k \<in> unat ` ?B then view s (of_nat k) else disk_image s k)"
      using s1(3) by (simp_all add: synced_def)
    have f: "cache_fsync s inum = Some ?s" using False Some s1(1) by (simp add: cache_fsync_def)
    have cached: "\<And>b. b \<in> ?B \<Longrightarrow> pci_map (pci ?c) b \<noteq> None" using sl by (auto simp: slot_listed_def)
    have v1: "view s1 = view s" by (rule synced_view [OF s1(3) w cached])
    have view: "view ?s = view s" unfolding v1 [symmetric] by (rule ext) (simp add: view_def disk_image_def page_of_def split: option.split)
    have "store_ok s1"
      using ok Y(1-7) False s1(2) by (auto simp: store_ok_def writable_def cache_inv_def tidy_def nblocks_def)
    then have sok: "store_ok ?s"
      using s1(2) by (auto simp: store_ok_def addressable_def nblocks_def cache_inv_def tidy_def)
    have dl: "dl_blocks (dl_delete (dirty_list ?c) inum) j = (if j = inum then [] else dl_blocks (dirty_list ?c) j)" for j
      by (rule dl_blocks_delete [OF wf])
    have sl1: "slot_listed ?c1 b" if lb: "slot_listed ?c b" for b
    proof -
      obtain i where i: "pci_map (pci ?c) b = Some i" "dirty_bit (entries ?c ! i) \<or> gdl_pos (entries ?c ! i) = None"
        using lb by (auto simp: slot_listed_def)
      then show ?thesis using bits [OF i(1)] by (auto simp: slot_listed_def Y(4) split: if_splits)
    qed
    have lok: "lists_ok ?s"
      using dl_exact_delete [OF ex] sl sl1 Y(1) by (auto simp: lists_ok_def dl s1(4) writable_def slot_listed_def split: if_splits)
    have nd: "\<not> cache_disabled s1" using Y(1) by (simp add: writable_def)
    have "queued ?s j b \<longleftrightarrow> j \<noteq> inum \<and> queued s j b" for j b using nd False by (simp add: queued_def dl s1(4))
    moreover have "dirty_block ?s b \<longleftrightarrow> dirty_block s b \<and> \<not> queued s inum b" for b
    proof (cases "pci_map (pci ?c) b")
      case (Some i)
      then show ?thesis using bits [OF Some] nd False by (auto simp: dirty_block_def queued_def Y(4) split: if_splits)
    qed (simp add: dirty_block_def Y(4))
    moreover have "disk_image ?s = (\<lambda>k. if \<exists>b. queued s inum b \<and> unat b = k then view s (of_nat k) else disk_image s k)"
      using Y(8) False by (auto simp: disk_image_def queued_def fun_eq_iff)
    moreover have "nblocks ?s = nblocks s" "cache_disabled ?s = cache_disabled s" using Y(2) nd False by (simp_all add: nblocks_def)
    ultimately show ?thesis using f sok lok view by (intro exI [of _ ?s]) blast
  qed
qed

locale fsync_store = block_store ok view image points limit direct dirty listed queued get load store put through pin unpin
  for ok :: "'s \<Rightarrow> bool" and view image and points :: "'s \<Rightarrow> 'p \<Rightarrow> u64 \<Rightarrow> bool" and limit direct dirty listed queued
    and get load store put through pin unpin +
  fixes fsync :: "'s \<Rightarrow> u64 \<Rightarrow> 's option"
  assumes fsync_law: "ok s \<Longrightarrow> listed s \<Longrightarrow> \<exists>s'. fsync s i = Some s' \<and> ok s' \<and> listed s' \<and> limit s' = limit s \<and>
      direct s' = direct s \<and> view s' = view s \<and>
      image s' = (\<lambda>k. if \<exists>b. queued s i b \<and> unat b = k then view s (of_nat k) else image s k) \<and>
      (\<forall>j b. queued s' j b \<longleftrightarrow> j \<noteq> i \<and> queued s j b) \<and> (\<forall>b. dirty s' b \<longleftrightarrow> dirty s b \<and> \<not> queued s i b)"
begin

text \<open>What was queued is durable, nothing else changes on the disk, and no block becomes stale.\<close>

lemma fsync_queued:
  assumes "ok s" and "listed s"
  obtains s' where "fsync s i = Some s'" and "ok s'" and "listed s'" and "limit s' = limit s" and "view s' = view s"
    and "\<And>b. queued s i b \<Longrightarrow> image s' (unat b) = view s b"
    and "\<And>b. \<not> queued s i b \<Longrightarrow> image s' (unat b) = image s (unat b)"
    and "\<And>b. \<not> queued s' i b" and "\<And>b. stale s' b \<Longrightarrow> stale s b"
proof -
  obtain s' where s': "fsync s i = Some s'" "ok s'" "listed s'" "limit s' = limit s" "view s' = view s"
      "image s' = (\<lambda>k. if \<exists>b. queued s i b \<and> unat b = k then view s (of_nat k) else image s k)"
      "\<And>j b. queued s' j b \<longleftrightarrow> j \<noteq> i \<and> queued s j b" "\<And>b. dirty s' b \<longleftrightarrow> dirty s b \<and> \<not> queued s i b"
    using fsync_law [OF assms, of i] by blast
  have im: "image s' (unat b) = (if queued s i b then view s b else image s (unat b))" for b
    by (simp add: s'(6) word_unat_eq_iff [symmetric])
  have st: "stale s b" if "stale s' b" for b
    using that by (auto simp: stale_def im s'(5,8) split: if_splits)
  show thesis by (rule that [OF s'(1-5) _ _ _ st]) (simp_all add: im s'(7))
qed

text \<open>A block of file data that is written and synchronised is on the disk.\<close>

lemma put_fsync:
  assumes "ok s" and "listed s" and "points s p b" and "\<not> direct s" and "btype x = BLOCK_TYPE_DATA"
  obtains s1 s2 s3 where "store s p x = Some s1" and "put s1 p i b = Some s2" and "fsync s2 i = Some s3"
    and "view s3 = (view s)(b := x)" and "image s3 (unat b) = x" and "ok s3" and "listed s3"
proof -
  obtain s1 s2 s3 where s: "store s p x = Some s1" "put s1 p i b = Some s2" "changes s s2 b x"
      "\<not> direct s \<Longrightarrow> listed s \<Longrightarrow> btype x = BLOCK_TYPE_DATA \<Longrightarrow> queued s2 i b \<and> queued s3 i b"
    by (rule store_put_pin [OF assms(1,3), of x i i]) (rule that)
  note k = keepsD [OF changesD(1) [OF s(3)]] and v = changesD(2) [OF s(3)]
  have q: "queued s2 i b" using s(4) assms by blast
  obtain s4 where s4: "fsync s2 i = Some s4" "ok s4" "listed s4" "view s4 = view s2" "\<And>b. queued s2 i b \<Longrightarrow> image s4 (unat b) = view s2 b"
    by (rule fsync_queued [OF k(1) k(6) [OF assms(2)], of i]) (rule that)
  then show thesis using s(1,2) v s4(5) [OF q] by (intro that) simp_all
qed

end

interpretation st: fsync_store store_ok view disk_image points nblocks cache_disabled dirty_block lists_ok queued
  get_block deref assign write_block locked_write increase_pin_count decrease_pin_count cache_fsync
  by unfold_locales (rule cache_fsync_ok)

end
