(* ===== verification/Files.thy ===== *)
theory Files
  imports Fuse Journal_Ring Fsync
begin

text \<open>
  The contents of a file, and what \<open>nbtrfs_read\<close> and \<open>nbtrfs_write\<close> do to them. The specification covers
  files of up to 511 pages, the range in which \<open>inode_get_block\<close> and \<open>inode_set_block\<close> agree: twelve
  direct pages and those behind the indirect block.
\<close>

section \<open>The contents\<close>

definition page_at :: "fs \<Rightarrow> Inode \<Rightarrow> nat \<Rightarrow> u64" where
  "page_at s i k = (if k < 12 then direct_blocks i ! k else load64 (view s (indirect_block i)) (4 + 8 * (k - 12)))"

definition file_byte :: "fs \<Rightarrow> Inode \<Rightarrow> nat \<Rightarrow> u8" where
  "file_byte s i j = view s (page_at s i (j div USABLE_BLOCK_SIZE)) (4 + j mod USABLE_BLOCK_SIZE)"

definition file_bytes :: "fs \<Rightarrow> Inode \<Rightarrow> nat \<Rightarrow> nat \<Rightarrow> u8 list" where
  "file_bytes s i off n = map (file_byte s i) [off..<off + n]"

text \<open>The first \<open>n\<close> pages of the file have data blocks, and no two of them the same one.\<close>

definition file_ok :: "fs \<Rightarrow> Inode \<Rightarrow> nat \<Rightarrow> bool" where
  "file_ok s i n \<longleftrightarrow> store_ok s \<and> n \<le> 511 \<and>
     (12 < n \<longrightarrow> indirect_block i \<noteq> 0 \<and> unat (indirect_block i) < nblocks s \<and> btype (view s (indirect_block i)) = BLOCK_TYPE_DATA) \<and>
     (\<forall>k < n. page_at s i k \<noteq> 0 \<and> unat (page_at s i k) < nblocks s \<and> btype (view s (page_at s i k)) = BLOCK_TYPE_DATA \<and>
       (12 < n \<longrightarrow> page_at s i k \<noteq> indirect_block i)) \<and>
     inj_on (page_at s i) {..<n}"

lemma file_okD:
  assumes "file_ok s i n"
  shows "store_ok s" and "n \<le> 511" and "k < n \<Longrightarrow> page_at s i k \<noteq> 0" and "k < n \<Longrightarrow> unat (page_at s i k) < nblocks s"
    and "k < n \<Longrightarrow> btype (view s (page_at s i k)) = BLOCK_TYPE_DATA"
  using assms by (auto simp: file_ok_def)

lemma file_silent:
  assumes "st.silent s s'"
  shows "page_at s' = page_at s" and "file_byte s' = file_byte s" and "file_bytes s' = file_bytes s" and "file_ok s i n \<Longrightarrow> file_ok s' i n"
proof -
  note v = st.silentD(2) [OF assms] and k = st.keepsD(1,2) [OF st.silentD(1) [OF assms]]
  show p: "page_at s' = page_at s" unfolding page_at_def [abs_def] v ..
  show f: "file_byte s' = file_byte s" by (simp add: file_byte_def [abs_def] p v)
  show "file_bytes s' = file_bytes s" by (simp add: file_bytes_def [abs_def] f)
  show "file_ok s i n \<Longrightarrow> file_ok s' i n" using k by (simp add: file_ok_def p v)
qed

lemma get_page_ok:
  assumes "file_ok s i n" and "k < n"
  obtains s' where "inode_get_block s i (of_nat k) = Some (0, Some (page_at s i k), s')" and "st.silent s s'"
proof (cases "k < 12")
  case True
  have u: "unat (of_nat k :: u64) = k" using True by (intro unat_of_nat_small) simp
  then have "(of_nat k :: u64) < 12" using True by (simp add: word_less_nat_alt)
  then have "inode_get_block s i (of_nat k) = Some (0, Some (page_at s i k), s)"
    using True file_okD(3) [OF assms] u by (simp add: inode_get_block_def page_at_def Let_def)
  then show thesis using st.silent_refl [OF file_okD(1) [OF assms(1)]] by (intro that)
next
  case False
  have kn: "k < 511" using assms file_okD(2) [OF assms(1)] by simp
  then have u: "unat (of_nat k :: u64) = k" by (intro unat_of_nat_small) simp
  have ind: "indirect_block i \<noteq> 0" "unat (indirect_block i) < nblocks s" "btype (view s (indirect_block i)) = BLOCK_TYPE_DATA"
    using assms False by (auto simp: file_ok_def)
  show thesis
    by (rule get_indirect_ok [OF file_okD(1) [OF assms(1)] ind(1,2) _ _ ind(3), of "of_nat k"])
      (use False kn u that in \<open>auto simp: page_at_def\<close>)
qed

section \<open>Positions\<close>

lemma page_of_offset_nat:
  assumes "off < 511 * USABLE_BLOCK_SIZE"
  shows "page_of_offset (of_nat off) = of_nat (off div USABLE_BLOCK_SIZE)"
    and "offset_in_page (of_nat off) = int (off mod USABLE_BLOCK_SIZE)"
    and "data_position (of_nat off) = Some (4 + off mod USABLE_BLOCK_SIZE)"
proof -
  have o: "off < 2 ^ 63" and b: "0 < USABLE_BLOCK_SIZE" using assms by (simp_all add: layout)
  note s = sint_of_nat_small [OF o]
  have q: "off div USABLE_BLOCK_SIZE < 511" using assms b by (simp add: less_mult_imp_div_less)
  then have u: "unat (of_nat (off div USABLE_BLOCK_SIZE) :: u64) = off div USABLE_BLOCK_SIZE" by (intro unat_of_nat_small) simp
  have "int_of_u64 (of_nat (off div USABLE_BLOCK_SIZE)) = int (off div USABLE_BLOCK_SIZE)"
    using int_of_u64_small [of "of_nat (off div USABLE_BLOCK_SIZE)"] q u by simp
  then show "page_of_offset (of_nat off) = of_nat (off div USABLE_BLOCK_SIZE)"
    by (simp add: page_of_offset_def s)
  have "int off - int (off div USABLE_BLOCK_SIZE) * int USABLE_BLOCK_SIZE = int (off mod USABLE_BLOCK_SIZE)"
    by (simp only: of_nat_mult [symmetric] minus_div_mult_eq_mod [symmetric] of_nat_diff [OF div_times_less_eq_dividend])
  then show f: "offset_in_page (of_nat off) = int (off mod USABLE_BLOCK_SIZE)"
    by (simp add: offset_in_page_def s)
  show "data_position (of_nat off) = Some (4 + off mod USABLE_BLOCK_SIZE)"
    by (simp add: data_position_def f nat_add_distrib)
qed

lemma chunk_bounds:
  assumes "off < 511 * USABLE_BLOCK_SIZE" and "0 < r"
  shows "0 < chunk_size (of_nat off) r" and "chunk_size (of_nat off) r \<le> r"
    and "off mod USABLE_BLOCK_SIZE + chunk_size (of_nat off) r \<le> USABLE_BLOCK_SIZE"
    and "c_off (sint (of_nat off :: u64) + int (chunk_size (of_nat off) r)) = Some (of_nat off + of_nat (chunk_size (of_nat off) r))"
proof -
  have "off mod USABLE_BLOCK_SIZE < USABLE_BLOCK_SIZE" by (simp add: layout)
  moreover from this have "chunk_size (of_nat off) r = min (USABLE_BLOCK_SIZE - off mod USABLE_BLOCK_SIZE) r"
    unfolding chunk_size_def page_of_offset_nat(2) [OF assms(1)] by linarith
  ultimately show c: "0 < chunk_size (of_nat off) r" "chunk_size (of_nat off) r \<le> r"
      "off mod USABLE_BLOCK_SIZE + chunk_size (of_nat off) r \<le> USABLE_BLOCK_SIZE"
    using assms(2) by simp_all
  have "chunk_size (of_nat off) r \<le> 4092" using c(3) by (simp add: layout)
  then have "off + chunk_size (of_nat off) r < 2 ^ 63" using assms(1) by (simp add: layout)
  from c_off_add [OF this]
  show "c_off (sint (of_nat off :: u64) + int (chunk_size (of_nat off) r)) = Some (of_nat off + of_nat (chunk_size (of_nat off) r))"
    by simp
qed

lemma same_page:
  fixes B :: nat
  assumes "off mod B + n \<le> B" and "j < n"
  shows "(off + j) div B = off div B" and "(off + j) mod B = off mod B + j"
proof -
  have "off + j = off div B * B + (off mod B + j)" by (simp add: div_mult_mod_eq)
  moreover have "off mod B + j < B" using assms by simp
  ultimately show "(off + j) div B = off div B" and "(off + j) mod B = off mod B + j"
    by (metis div_mult_self3 div_less add.right_neutral less_nat_zero_code not_gr_zero,
        metis mod_mult_self3 mod_less)
qed

lemma chunk_bytes:
  assumes "off mod USABLE_BLOCK_SIZE + n \<le> USABLE_BLOCK_SIZE"
  shows "load_bytes n (view s (page_at s i (off div USABLE_BLOCK_SIZE))) (4 + off mod USABLE_BLOCK_SIZE) = file_bytes s i off n"
  by (rule nth_equalityI) (simp_all add: load_bytes_def file_bytes_def file_byte_def same_page [OF assms] add.assoc)

lemma file_bytes_append: "file_bytes s i off (m + n) = file_bytes s i off m @ file_bytes s i (off + m) n"
  unfolding file_bytes_def by (metis add.assoc le_add1 map_append upt_add_eq_append)

section \<open>Reading\<close>

lemma read_loop_ok:
  assumes "file_ok s i n" and "off + r \<le> n * USABLE_BLOCK_SIZE"
  shows "\<exists>s'. read_loop s i r (of_nat off) buf = Some (0, buf @ file_bytes s i off r, s') \<and> st.silent s s'"
  using assms
proof (induction r arbitrary: s off buf rule: less_induct)
  case (less r)
  note ok = file_okD(1) [OF less.prems(1)]
  show ?case
  proof (cases "r = 0")
    case True
    then show ?thesis using st.silent_refl [OF ok] by (subst read_loop.simps) (simp add: file_bytes_def)
  next
    case False
    let ?k = "off div USABLE_BLOCK_SIZE" and ?c = "chunk_size (of_nat off) r"
    have "n * USABLE_BLOCK_SIZE \<le> 511 * USABLE_BLOCK_SIZE" using file_okD(2) [OF less.prems(1)] by (rule mult_le_mono1)
    then have o: "off < 511 * USABLE_BLOCK_SIZE" using less.prems(2) False by linarith
    note P = page_of_offset_nat [OF o] and C = chunk_bounds [OF o, of r, OF False [THEN bot_nat_0.not_eq_extremum [THEN iffD1]]]
    have kn: "?k < n" using less.prems(2) False by (intro less_mult_imp_div_less) simp
    note F = file_okD(3,4) [OF less.prems(1) kn]
    obtain s1 where s1: "inode_get_block s i (of_nat ?k) = Some (0, Some (page_at s i ?k), s1)" "st.silent s s1"
      by (rule get_page_ok [OF less.prems(1) kn])
    note K1 = st.keepsD(1,2) [OF st.silentD(1) [OF s1(2)]]
    obtain p s2 where s2: "get_block s1 (inode_number i) (page_at s i ?k) = Some (p, s2)"
        "deref s2 p = Some (view s1 (page_at s i ?k))" "st.silent s1 s2"
      by (rule st.get_load [OF K1(1), of "page_at s i ?k" "inode_number i"]) (use F(2) K1(2) in auto)
    note S = st.silent_trans [OF s1(2) s2(3)]
    note S2 = file_silent [OF S]
    have "r - ?c < r" using C(1) False by simp
    moreover have "off + ?c + (r - ?c) \<le> n * USABLE_BLOCK_SIZE" using less.prems(2) C(2) by simp
    ultimately obtain s3 where s3: "read_loop s2 i (r - ?c) (of_nat (off + ?c)) (buf @ file_bytes s i off ?c) =
        Some (0, (buf @ file_bytes s i off ?c) @ file_bytes s2 i (off + ?c) (r - ?c), s3)" "st.silent s2 s3"
      using less.IH [OF _ S2(4) [OF less.prems(1)], of "r - ?c" "off + ?c" "buf @ file_bytes s i off ?c"] by blast
    have "file_bytes s i off ?c @ file_bytes s i (off + ?c) (r - ?c) = file_bytes s i off r"
      using file_bytes_append [of s i off ?c "r - ?c"] C(2) by simp
    moreover have "load_bytes ?c (view s1 (page_at s i ?k)) (4 + off mod USABLE_BLOCK_SIZE) = file_bytes s i off ?c"
      using chunk_bytes [OF C(3), of s i] st.silentD(2) [OF s1(2)] by simp
    ultimately have "read_loop s i r (of_nat off) buf = Some (0, buf @ file_bytes s i off r, s3)"
      by (subst read_loop.simps) (use False s1(1) s2(1,2) s3(1) F(1) P C(4) S2(3) in \<open>simp add: Let_def\<close>)
    with st.silent_trans [OF S s3(2)] show ?thesis by blast
  qed
qed

text \<open>
  A path that leads to a file: to the leaf of an inode in the table, of the given size, whose
  pages up to that size have blocks.
\<close>

definition file_at :: "fs \<Rightarrow> string list \<Rightarrow> nat \<Rightarrow> bool" where
  "file_at s cs ino \<longleftrightarrow> rooted s \<and> cs \<noteq> [] \<and> list_all component cs \<and> length (join cs) < PATH_MAX \<and> 0 < ino \<and> inode_ok s ino \<and>
     (\<exists>m. resolves s (root_node s) cs m \<and> file_type m \<noteq> FILE_TYPE_DIRECTORY \<and> n_value m = of_nat ino)"

lemma file_at_search:
  assumes "file_at s cs ino"
  obtains s' where "item_search s (join cs) = Some (\<lparr>ip_inode = of_nat ino, ip_btree = 0\<rparr>, s')" and "st.silent s s'"
proof -
  obtain m where m: "resolves s (root_node s) cs m" "file_type m \<noteq> FILE_TYPE_DIRECTORY" "n_value m = of_nat ino"
    using assms by (auto simp: file_at_def)
  show thesis
    by (rule item_search_found [of s cs m]) (use assms m that in \<open>auto simp: file_at_def pair_of_def\<close>)
qed

lemma ino_nonzero: "inode_ok s n \<Longrightarrow> 0 < n \<Longrightarrow> (of_nat n :: u64) \<noteq> 0"
proof -
  assume "inode_ok s n" and n: "0 < n"
  then have "n < 2 ^ 64" by (simp add: inode_ok_def)
  then have "unat (of_nat n :: u64) = n" by (rule unat_of_nat_small)
  with n show ?thesis by auto
qed

lemma nbtrfs_read_ok:
  assumes f: "file_at s cs ino" and i: "i = inode_of s ino" and ok: "file_ok s i n" and sz: "unat (i_size i) \<le> n * USABLE_BLOCK_SIZE"
    and off: "off < unat (i_size i)" and len: "off + len < 2 ^ 64"
  obtains s' where "nbtrfs_read s (join cs) (of_nat len) (of_nat off) =
      Some (int (min len (unat (i_size i) - off)), file_bytes s i off (min len (unat (i_size i) - off)), s')"
    and "st.silent s s'"
proof -
  let ?r = "min len (unat (i_size i) - off)"
  have io: "inode_ok s ino" and pos: "0 < ino" using f by (simp_all add: file_at_def)
  obtain s1 where s1: "item_search s (join cs) = Some (\<lparr>ip_inode = of_nat ino, ip_btree = 0\<rparr>, s1)" "st.silent s s1"
    by (rule file_at_search [OF f])
  note I1 = inode_silent [OF s1(2)]
  obtain s2 where s2: "inode_read s1 (of_nat ino) = Some (Some i, s2)" "st.silent s1 s2"
    using inode_read_ok [OF I1(6) [OF io]] I1(5) i by metis
  note S = st.silent_trans [OF s1(2) s2(2)]
  have "n * USABLE_BLOCK_SIZE \<le> 511 * USABLE_BLOCK_SIZE" using file_okD(2) [OF ok] by (rule mult_le_mono1)
  then have small: "unat (i_size i) < 2 ^ 31" using sz by (simp add: layout)
  have uo: "unat (of_nat off :: u64) = off" and ul: "unat (of_nat len :: u64) = len" using len by (simp_all add: unat_of_nat_small)
  have uol: "unat ((of_nat off :: u64) + of_nat len) = off + len"
    using len uo ul by (metis of_nat_add unat_of_nat_small)
  have lt: "\<not> i_size i \<le> of_nat off" using off uo by (simp add: word_le_nat_alt)
  let ?sz = "if i_size i < of_nat off + of_nat len then i_size i - of_nat off else of_nat len"
  have "unat ?sz = ?r"
  proof (cases "i_size i < of_nat off + of_nat len")
    case True
    moreover have "unat (i_size i - of_nat off) = unat (i_size i) - off" using lt uo by (simp add: unat_sub word_le_nat_alt)
    ultimately show ?thesis using uol by (simp add: word_less_nat_alt)
  next
    case False
    then show ?thesis using uol ul by (simp add: word_less_nat_alt)
  qed
  moreover from this have "int_of_u64 ?sz = int (unat ?sz)" using small by (intro int_of_u64_small) simp
  ultimately have rem: "nat (int_of_u64 ?sz) = ?r" by simp
  have "off + ?r \<le> n * USABLE_BLOCK_SIZE" using sz off by simp
  then obtain s3 where s3: "read_loop s2 i ?r (of_nat off) [] = Some (0, file_bytes s i off ?r, s3)" "st.silent s2 s3"
    using read_loop_ok [OF file_silent(4) [OF S ok], of off ?r "[]"] file_silent(3) [OF S] by auto
  have "nbtrfs_read s (join cs) (of_nat len) (of_nat off) = Some (int ?r, file_bytes s i off ?r, s3)"
    unfolding nbtrfs_read_def using s1(1) s2(1) s3(1) lt ino_nonzero [OF io pos] rem by (simp add: Let_def file_bytes_def)
  then show thesis using st.silent_trans [OF S s3(2)] by (intro that)
qed

section \<open>Writing\<close>

text \<open>
  \<open>overwritten s s' i n off xs\<close>: of the first \<open>n\<close> pages, the bytes from \<open>off\<close> on are now \<open>xs\<close>, the others
  are as before, and so are all other blocks and every type tag. With a cache whose dirty lists are in order,
  the pages written are in the list of the inode.
\<close>

definition pages_queued :: "fs \<Rightarrow> fs \<Rightarrow> Inode \<Rightarrow> nat \<Rightarrow> nat \<Rightarrow> bool" where
  "pages_queued s s' i off n \<longleftrightarrow> (\<not> cache_disabled s \<longrightarrow> lists_ok s \<longrightarrow>
     (\<forall>j. off \<le> j \<longrightarrow> j < off + n \<longrightarrow> queued s' (inode_number i) (page_at s i (j div USABLE_BLOCK_SIZE))))"

definition overwritten :: "fs \<Rightarrow> fs \<Rightarrow> Inode \<Rightarrow> nat \<Rightarrow> nat \<Rightarrow> u8 list \<Rightarrow> bool" where
  "overwritten s s' i n off xs \<longleftrightarrow> st.keeps s s' \<and> file_ok s' i n \<and> (\<forall>k < n. page_at s' i k = page_at s i k) \<and>
     (\<forall>b. b \<notin> page_at s i ` {..<n} \<longrightarrow> view s' b = view s b) \<and> (\<forall>b. btype (view s' b) = btype (view s b)) \<and>
     (\<forall>j < n * USABLE_BLOCK_SIZE. file_byte s' i j =
        (if off \<le> j \<and> j < off + length xs then xs ! (j - off) else file_byte s i j)) \<and> pages_queued s s' i off (length xs)"

lemma overwritten_silent:
  assumes "st.silent s t" and "overwritten t u i n off xs"
  shows "overwritten s u i n off xs"
  using assms st.keeps_trans [OF st.silentD(1) [OF assms(1)]] file_silent(1,2) [OF assms(1)] st.silentD(2) [OF assms(1)]
    st.keepsD(3,6) [OF st.silentD(1) [OF assms(1)]]
  by (simp add: overwritten_def pages_queued_def)

lemma overwritten_append:
  assumes "overwritten s t i n off xs" and "overwritten t u i n (off + length xs) ys"
    and "off + length xs + length ys \<le> n * USABLE_BLOCK_SIZE"
  shows "overwritten s u i n off (xs @ ys)"
proof -
  have "pages_queued s u i off (length (xs @ ys))"
    unfolding pages_queued_def
  proof (intro impI allI)
    fix j assume c: "\<not> cache_disabled s" "lists_ok s" and j: "off \<le> j" "j < off + length (xs @ ys)"
    have k: "st.keeps s t" "st.keeps t u" using assms by (simp_all add: overwritten_def)
    note k1 = st.keepsD [OF k(1)] and k2 = st.keepsD [OF k(2)]
    have "j div USABLE_BLOCK_SIZE < n" using j assms(3) by (intro less_mult_imp_div_less) simp
    then have pj: "page_at t i (j div USABLE_BLOCK_SIZE) = page_at s i (j div USABLE_BLOCK_SIZE)" using assms(1) by (simp add: overwritten_def)
    show "queued u (inode_number i) (page_at s i (j div USABLE_BLOCK_SIZE))"
    proof (cases "j < off + length xs")
      case True
      then show ?thesis using assms(1) c j(1) k2(7) [OF k1(6) [OF c(2)]] by (simp add: overwritten_def pages_queued_def)
    next
      case False
      then show ?thesis using assms(2) c j k1(3) k1(6) [OF c(2)] unfolding pj [symmetric] by (simp add: overwritten_def pages_queued_def)
    qed
  qed
  moreover
  have p: "page_at t i ` {..<n} = page_at s i ` {..<n}" using assms(1) by (auto simp: overwritten_def)
  have "st.keeps s u" "file_ok u i n" "\<forall>k < n. page_at u i k = page_at s i k" "\<forall>b. btype (view u b) = btype (view s b)"
    using assms(1,2) by (auto simp: overwritten_def intro: st.keeps_trans)
  moreover have "\<forall>b. b \<notin> page_at s i ` {..<n} \<longrightarrow> view u b = view s b" using assms(1,2) p by (auto simp: overwritten_def)
  moreover have "file_byte u i j = (if off \<le> j \<and> j < off + length (xs @ ys) then (xs @ ys) ! (j - off) else file_byte s i j)"
    if "j < n * USABLE_BLOCK_SIZE" for j
    using assms(1,2) that by (auto simp: overwritten_def nth_append)
  ultimately show ?thesis by (simp add: overwritten_def)
qed

lemma same_base:
  "j = q + a \<Longrightarrow> off = q + b \<Longrightarrow> (off \<le> j \<longleftrightarrow> b \<le> a) \<and> (j < off + l \<longleftrightarrow> a < b + l) \<and> j - off = a - (b :: nat)"
  by auto

text \<open>Writing part of one page.\<close>

lemma chunk_written:
  assumes ok: "file_ok s i n" and k: "off div USABLE_BLOCK_SIZE < n" and len: "off mod USABLE_BLOCK_SIZE + length xs \<le> USABLE_BLOCK_SIZE"
    and ch: "st.changes s s' (page_at s i (off div USABLE_BLOCK_SIZE))
      (store_bytes xs (view s (page_at s i (off div USABLE_BLOCK_SIZE))) (4 + off mod USABLE_BLOCK_SIZE))"
    and qu: "\<not> cache_disabled s \<Longrightarrow> lists_ok s \<Longrightarrow> queued s' (inode_number i) (page_at s i (off div USABLE_BLOCK_SIZE))"
  shows "overwritten s s' i n off xs"
proof -
  let ?k = "off div USABLE_BLOCK_SIZE" and ?B = USABLE_BLOCK_SIZE
  let ?x = "store_bytes xs (view s (page_at s i ?k)) (4 + off mod ?B)"
  have keeps: "st.keeps s s'" and v: "view s' = (view s)(page_at s i ?k := ?x)" using ch by (simp_all add: st.changesD)
  have ty: "btype (view s' b) = btype (view s b)" for b by (simp add: v)
  have ind: "12 < n \<Longrightarrow> view s' (indirect_block i) = view s (indirect_block i)" using ok k by (auto simp: v file_ok_def)
  have pg: "page_at s' i j = page_at s i j" if "j < n" for j
    using that ind by (cases "j < 12") (simp_all add: page_at_def)
  have inj: "inj_on (page_at s i) {..<n}" using ok by (simp add: file_ok_def)
  have "inj_on (page_at s' i) {..<n}" using inj pg by (simp add: inj_on_def)
  then have "file_ok s' i n"
    using ok st.keepsD(1,2) [OF keeps] by (simp add: file_ok_def pg ty)
  moreover have "file_byte s' i j = (if off \<le> j \<and> j < off + length xs then xs ! (j - off) else file_byte s i j)"
    if j: "j < n * ?B" for j
  proof -
    have B: "0 < ?B" by (simp add: layout)
    have jn: "j div ?B < n" using j by (rule less_mult_imp_div_less)
    have fb: "file_byte s' i j = (if page_at s i (j div ?B) = page_at s i ?k then ?x (4 + j mod ?B) else file_byte s i j)"
      by (simp add: file_byte_def pg [OF jn] v)
    have eq: "page_at s i (j div ?B) = page_at s i ?k \<longleftrightarrow> j div ?B = ?k"
      using inj_onD [OF inj] jn k by auto
    have jd: "j = j div ?B * ?B + j mod ?B" "off = ?k * ?B + off mod ?B" by (simp_all add: div_mult_mod_eq)
    show ?thesis
    proof (cases "j div ?B = ?k")
      case True
      have "off = j div ?B * ?B + off mod ?B" using jd(2) unfolding True .
      note b = same_base [OF jd(1) this, of "length xs"]
      show ?thesis unfolding fb eq using True b by (auto simp: store_bytes_def file_byte_def)
    next
      case False
      have "\<not> (off \<le> j \<and> j < off + length xs)"
      proof
        assume a: "off \<le> j \<and> j < off + length xs"
        then have "j - off < length xs" by linarith
        from same_page(1) [OF len this] a False show False by simp
      qed
      then show ?thesis unfolding fb eq using False by auto
    qed
  qed
  moreover have "pages_queued s s' i off (length xs)"
    unfolding pages_queued_def
  proof (intro impI allI)
    fix j assume "\<not> cache_disabled s" "lists_ok s" "off \<le> j" "j < off + length xs"
    then show "queued s' (inode_number i) (page_at s i (j div USABLE_BLOCK_SIZE))"
      using same_page(1) [OF len, of "j - off"] qu by simp
  qed
  ultimately show ?thesis using keeps pg ty k by (auto simp: overwritten_def v)
qed

text \<open>One round of the loop of \<open>nbtrfs_write\<close>, on a page the file has.\<close>

lemma write_chunk:
  assumes ok: "file_ok s i n" and kn: "off div USABLE_BLOCK_SIZE < n" and ne: "buf \<noteq> []" and c: "c = chunk_size (of_nat off) (length buf)"
    and pg: "page = page_at s i (off div USABLE_BLOCK_SIZE)" and x: "x = store_bytes (take c buf) (view s page) (4 + off mod USABLE_BLOCK_SIZE)"
  obtains s' where "write_loop env s ino i sz buf (of_nat off) w = write_loop env s' ino i sz (drop c buf) (of_nat (off + c)) (w + c)"
    and "st.changes s s' page x" and "\<not> cache_disabled s \<Longrightarrow> lists_ok s \<Longrightarrow> queued s' (inode_number i) page"
    and "0 < c" and "c \<le> length buf" and "off mod USABLE_BLOCK_SIZE + c \<le> USABLE_BLOCK_SIZE"
proof -
  let ?k = "off div USABLE_BLOCK_SIZE"
  have "n * USABLE_BLOCK_SIZE \<le> 511 * USABLE_BLOCK_SIZE" using file_okD(2) [OF ok] by (rule mult_le_mono1)
  moreover have lb: "0 < length buf" using ne by simp
  moreover have "off < n * USABLE_BLOCK_SIZE" using kn by (simp add: div_less_iff_less_mult layout)
  ultimately have o: "off < 511 * USABLE_BLOCK_SIZE" by linarith
  note P = page_of_offset_nat [OF o] and C = chunk_bounds [OF o lb, folded c]
  note F = file_okD(3,4,5) [OF ok kn, folded pg]
  obtain s1 where s1: "inode_get_block s i (of_nat ?k) = Some (0, Some page, s1)" "st.silent s s1"
    by (rule get_page_ok [OF ok kn, folded pg])
  note K1 = st.keepsD(1,2) [OF st.silentD(1) [OF s1(2)]]
  obtain p s2 where s2: "get_block s1 (inode_number i) page = Some (p, s2)" "st.silent s1 s2" "points s2 p page"
    using st.get_silent [OF K1(1), of page "inode_number i"] F(2) K1(2) by auto
  note K2 = st.keepsD [OF st.silentD(1) [OF s2(2)]]
  obtain s3 where s3: "increase_pin_count s2 ino page = Some s3" "st.silent s2 s3"
    using st.pin_silent [OF K2(1), of page ino] F(2) K1(2) K2(2) by auto
  note S = st.silent_trans [OF st.silent_trans [OF s1(2) s2(2)] s3(2)]
  note K3 = st.keepsD [OF st.silentD(1) [OF s3(2)]]
  have p3: "points s3 p page" using K3(4) [OF s2(3)] .
  have d3: "deref s3 p = Some (view s page)" using st.load_view [OF K3(1) p3] st.silentD(2) [OF S] by simp
  obtain s4 where s4: "assign s3 p x = Some s4" "st.changes s3 s4 page x" using st.store_changes [OF K3(1) p3] by blast
  note K4 = st.keepsD [OF st.changesD(1) [OF s4(2)]]
  have ty4: "btype (view s4 page) = BLOCK_TYPE_DATA" using F(3) by (simp add: st.changesD(2) [OF s4(2)] x)
  obtain s5 where s5: "write_block s4 p (inode_number i) page = Some s5" "st.silent s4 s5"
      "cache_disabled s4 \<or> (lists_ok s4 \<longrightarrow> queued s5 (inode_number i) page)"
    using st.put_marks [OF K4(1) K4(4) [OF p3], of "inode_number i"] ty4 by blast
  note K5 = st.keepsD [OF st.silentD(1) [OF s5(2)]]
  obtain s6 where s6: "decrease_pin_count s5 ino page = Some s6" "st.silent s5 s6"
    using st.unpin_silent [OF K5(1), of page ino] F(2) K1(2) K2(2) K3(2) K4(2) K5(2) by auto
  have "st.changes s s6 page x"
    by (rule st.changes_silent [OF st.silent_changes [OF S s4(2)] st.silent_trans [OF s5(2) s6(2)]])
  moreover have "queued s6 (inode_number i) page" if c: "\<not> cache_disabled s" "lists_ok s"
  proof -
    note S4 = st.keepsD [OF st.changesD(1) [OF st.silent_changes [OF S s4(2)]]]
    have "lists_ok s4" "\<not> cache_disabled s4" using S4(3) S4(6) [OF c(2)] c(1) by simp_all
    then show ?thesis using s5(3) st.keepsD(7) [OF st.silentD(1) [OF s6(2)]] K5(6) by blast
  qed
  moreover have "page_or_new env s i (of_nat ?k) sz = Some (Some (page, i), s1)"
    using s1(1) F(1) by (simp add: page_or_new_def)
  then have "write_loop env s ino i sz buf (of_nat off) w = write_loop env s6 ino i sz (drop c buf) (of_nat (off + c)) (w + c)"
    by (subst write_loop.simps)
      (use ne s2(1) s3(1) d3 s4(1) s5(1) s6(1) C(2,4) P x c in \<open>simp add: Let_def modify_def\<close>)
  ultimately show thesis using C by (intro that)
qed

lemma write_loop_ok:
  assumes "file_ok s i n" and "off + length buf \<le> n * USABLE_BLOCK_SIZE"
  shows "\<exists>s'. write_loop env s ino i sz buf (of_nat off) w = Some (False, w + length buf, i, s') \<and> overwritten s s' i n off buf"
  using assms
proof (induction "length buf" arbitrary: s off buf w rule: less_induct)
  case less
  show ?case
  proof (cases "buf = []")
    case True
    have "st.keeps s s" using st.silentD(1) [OF st.silent_refl [OF file_okD(1) [OF less.prems(1)]]] .
    with True less.prems(1) show ?thesis by (subst write_loop.simps) (auto simp: overwritten_def pages_queued_def)
  next
    case False
    let ?k = "off div USABLE_BLOCK_SIZE" and ?c = "chunk_size (of_nat off) (length buf)"
    have lb: "0 < length buf" using False by simp
    have kn: "?k < n" using less.prems(2) lb by (intro less_mult_imp_div_less) linarith
    obtain s6 where s6: "write_loop env s ino i sz buf (of_nat off) w = write_loop env s6 ino i sz (drop ?c buf) (of_nat (off + ?c)) (w + ?c)"
        "st.changes s s6 (page_at s i ?k) (store_bytes (take ?c buf) (view s (page_at s i ?k)) (4 + off mod USABLE_BLOCK_SIZE))"
        "\<not> cache_disabled s \<Longrightarrow> lists_ok s \<Longrightarrow> queued s6 (inode_number i) (page_at s i ?k)"
      and C: "0 < ?c" "?c \<le> length buf" "off mod USABLE_BLOCK_SIZE + ?c \<le> USABLE_BLOCK_SIZE"
      by (rule write_chunk [OF less.prems(1) kn False refl refl refl, of env ino sz w]) (rule that)
    have ow: "overwritten s s6 i n off (take ?c buf)"
      using C(2,3) s6(2,3) by (intro chunk_written [OF less.prems(1) kn]) simp_all
    have lt: "length (take ?c buf) = ?c" using C(2) by simp
    have "length (drop ?c buf) < length buf" using C(1) lb by simp
    moreover have "file_ok s6 i n" using ow by (simp add: overwritten_def)
    moreover have "off + ?c + length (drop ?c buf) \<le> n * USABLE_BLOCK_SIZE" using less.prems(2) C(2) by simp
    ultimately obtain s7 where "write_loop env s6 ino i sz (drop ?c buf) (of_nat (off + ?c)) (w + ?c) =
        Some (False, w + ?c + length (drop ?c buf), i, s7)" "overwritten s6 s7 i n (off + ?c) (drop ?c buf)"
      using less.hyps by blast
    with s6(1) overwritten_append [OF ow, of s7 "drop ?c buf"] lt less.prems(2) C(2) show ?thesis by simp
  qed
qed

text \<open>Overwriting file data keeps the directories and the inodes.\<close>

lemma overwritten_meta:
  assumes ow: "overwritten s s' i n off xs" and ok: "file_ok s i n" and io: "inode_ok s ino"
  shows "nodes_kept s s'" and "inode_ok s' ino" and "inode_of s' ino = inode_of s ino" and "inode_home s' ino = inode_home s ino"
proof -
  have k: "st.keeps s s'" and v: "\<And>b. b \<notin> page_at s i ` {..<n} \<Longrightarrow> view s' b = view s b"
    using ow by (auto simp: overwritten_def)
  have same: "view s' b = view s b" if "b = 0 \<or> btype (view s b) \<noteq> BLOCK_TYPE_DATA" for b
    using that file_okD(3,5) [OF ok] by (intro v) auto
  show nk: "nodes_kept s s'" using st.keepsD(1,2) [OF k] same by (auto simp: nodes_kept_def is_node_def block_types intro!: geometry_cong)
  have h: "inode_home s' ino = inode_home s ino" by (rule nodes_kept_home [OF nk])
  then show "inode_home s' ino = inode_home s ino" .
  have vh: "view s' (inode_home s ino) = view s (inode_home s ino)"
    using io by (intro same) (simp add: inode_ok_def block_types)
  show "inode_of s' ino = inode_of s ino" by (simp add: inode_of_def h vh)
  show "inode_ok s' ino" using io st.keepsD(1,2) [OF k] same [of 0] by (simp add: inode_ok_def h vh)
qed

lemma file_at_kept:
  assumes "file_at s cs ino" and "nodes_kept s s'" and "inode_ok s' ino"
  shows "file_at s' cs ino"
proof -
  have "rooted s" using assms(1) by (simp add: file_at_def)
  with assms nodes_kept_lookup [OF assms(2)] show ?thesis unfolding file_at_def by metis
qed

text \<open>Writing a new version of an inode keeps the directories and every block but one table block.\<close>

lemma inode_update_ok:
  assumes io: "inode_ok s ino" and num: "inode_number i = of_nat ino" and len: "length (direct_blocks i) = 12"
  obtains s' where "inode_write s i wt = Some (0, s')" and "nodes_kept s s'" and "inode_ok s' ino" and "inode_of s' ino = i"
    and "\<And>b. b \<noteq> inode_home s ino \<Longrightarrow> view s' b = view s b" and "\<And>b. b \<noteq> unat (inode_home s ino) \<Longrightarrow> disk_image s' b = disk_image s b"
    and "st.keeps s s'" and "\<not> wt \<Longrightarrow> \<not> cache_disabled s \<Longrightarrow> disk_image s' = disk_image s"
    and "wt \<Longrightarrow> disk_image s' (unat (inode_home s ino)) = view s' (inode_home s ino)"
proof -
  let ?h = "inode_home s ino"
  let ?x = "inode_store i (view s ?h) (ino mod inode_per_page)"
  have n63: "ino < 2 ^ 63" using io by (simp add: inode_ok_def)
  obtain s' where w: "inode_write s i wt = Some (0, s')" "if wt then st.updates s s' ?h ?x else st.changes s s' ?h ?x"
    by (rule inode_write_ok [OF io num])
  have k: "st.keeps s s'" and v: "view s' = (view s)(?h := ?x)" and d: "\<And>b. b \<noteq> unat ?h \<Longrightarrow> disk_image s' b = disk_image s b"
    using w(2) by (auto simp: st.changesD st.updatesD split: if_splits)
  have nd: "\<not> wt \<Longrightarrow> \<not> cache_disabled s \<Longrightarrow> disk_image s' = disk_image s" and th: "wt \<Longrightarrow> disk_image s' (unat ?h) = view s' ?h"
    using w(2) by (simp_all add: st.changesD(3) st.updatesD)
  note E = inode_write_effect [OF io len k v]
  have "btype (view s ?h) = BLOCK_TYPE_INODE" and "?h \<noteq> 0" using io inode_home_not_super [OF io] by (simp_all add: inode_ok_def)
  then have "view s' 0 = view s 0" and "\<And>b. is_node s b \<Longrightarrow> view s' b = view s b" by (auto simp: v is_node_def block_types)
  then have "nodes_kept s s'" using st.keepsD(1,2) [OF k] by (simp add: nodes_kept_def geometry_cong [of s' s])
  then show thesis using w(1) k d nd th E(3) [OF io] E(4) [OF n63] by (intro that [of s']) (simp_all add: v)
qed

text \<open>Storing a new size in the inode keeps the contents.\<close>

lemma resize_ok:
  assumes ok: "file_ok s i n" and io: "inode_ok s ino" and num: "inode_number i = of_nat ino" and i: "i = inode_of s ino"
  obtains s' where "inode_write s (i\<lparr>i_size := sz\<rparr>) False = Some (0, s')" and "nodes_kept s s'" and "inode_ok s' ino"
    and "inode_of s' ino = i\<lparr>i_size := sz\<rparr>" and "file_ok s' (i\<lparr>i_size := sz\<rparr>) n"
    and "\<And>j. j < n * USABLE_BLOCK_SIZE \<Longrightarrow> file_byte s' (i\<lparr>i_size := sz\<rparr>) j = file_byte s i j"
    and "\<And>k. k < n \<Longrightarrow> page_at s' (i\<lparr>i_size := sz\<rparr>) k = page_at s i k" and "st.keeps s s'"
proof -
  let ?i = "i\<lparr>i_size := sz\<rparr>"
  obtain s' where w: "inode_write s ?i False = Some (0, s')" "nodes_kept s s'" "inode_ok s' ino" "inode_of s' ino = ?i"
      "\<And>b. b \<noteq> inode_home s ino \<Longrightarrow> view s' b = view s b" "st.keeps s s'"
    by (rule inode_update_ok [OF io, of ?i False]) (use num i that in \<open>auto simp: inode_of_def\<close>)
  have same: "view s' b = view s b" if "btype (view s b) = BLOCK_TYPE_DATA" for b
    using that io by (intro w(5)) (auto simp: inode_ok_def block_types)
  have ind: "12 < n \<Longrightarrow> view s' (indirect_block i) = view s (indirect_block i)"
    using ok by (intro same) (simp add: file_ok_def)
  have pg: "page_at s' ?i j = page_at s i j" if "j < n" for j
    using that ind by (cases "j < 12") (simp_all add: page_at_def)
  have vp: "view s' (page_at s i j) = view s (page_at s i j)" if "j < n" for j by (rule same [OF file_okD(5) [OF ok that]])
  have "inj_on (page_at s' ?i) {..<n}" using ok pg by (simp add: file_ok_def inj_on_def)
  then have "file_ok s' ?i n" using ok st.keepsD(1,2) [OF w(6)] ind by (simp add: file_ok_def pg vp)
  moreover have "file_byte s' ?i j = file_byte s i j" if "j < n * USABLE_BLOCK_SIZE" for j
    using less_mult_imp_div_less [OF that] by (simp add: file_byte_def pg vp)
  ultimately show thesis using that w(1-4,6) pg by blast
qed

lemma nbtrfs_write_ok:
  assumes f: "file_at s cs ino" and i: "i = inode_of s ino" and num: "inode_number i = of_nat ino" and ok: "file_ok s i n"
    and len: "off + length buf \<le> n * USABLE_BLOCK_SIZE" and i': "i' = i\<lparr>i_size := max (i_size i) (of_nat (off + length buf))\<rparr>"
  obtains s' where "nbtrfs_write env s (join cs) buf (of_nat off) = Some (int (length buf), s')"
    and "file_at s' cs ino" and "inode_of s' ino = i'" and "file_ok s' i' n"
    and "\<And>j. j < n * USABLE_BLOCK_SIZE \<Longrightarrow> file_byte s' i' j =
      (if off \<le> j \<and> j < off + length buf then buf ! (j - off) else file_byte s i j)"
    and "st.keeps s s'"
    and "\<And>j. \<not> cache_disabled s \<Longrightarrow> lists_ok s \<Longrightarrow> off \<le> j \<Longrightarrow> j < off + length buf \<Longrightarrow>
      queued s' (of_nat ino) (page_at s' i' (j div USABLE_BLOCK_SIZE))"
proof -
  have io: "inode_ok s ino" and pos: "0 < ino" using f by (simp_all add: file_at_def)
  obtain s1 where s1: "item_search s (join cs) = Some (\<lparr>ip_inode = of_nat ino, ip_btree = 0\<rparr>, s1)" "st.silent s s1"
    by (rule file_at_search [OF f])
  note I1 = inode_silent [OF s1(2)]
  obtain s2 where s2: "inode_read s1 (of_nat ino) = Some (Some i, s2)" "st.silent s1 s2"
    using inode_read_ok [OF I1(6) [OF io]] I1(5) i by metis
  note S = st.silent_trans [OF s1(2) s2(2)]
  note I2 = inode_silent [OF S] and F2 = file_silent [OF S]
  have "n * USABLE_BLOCK_SIZE \<le> 511 * USABLE_BLOCK_SIZE" using file_okD(2) [OF ok] by (rule mult_le_mono1)
  then have small: "off + length buf < 2 ^ 31" using len by (simp add: layout)
  have ul: "unat (of_nat (length buf) :: u64) = length buf" using small by (intro unat_of_nat_small) simp
  have "int_of_u64 (of_nat (length buf)) = int (length buf)" using int_of_u64_small [of "of_nat (length buf)"] small ul by simp
  then have tk: "take (nat (int_of_u64 (of_nat (length buf)))) buf = buf" by simp
  obtain s3 where s3: "write_loop env s2 (of_nat ino) i (of_nat (length buf)) buf (of_nat off) 0 = Some (False, length buf, i, s3)"
      "overwritten s2 s3 i n off buf"
    using write_loop_ok [OF F2(4) [OF ok] len, of env "of_nat ino" "of_nat (length buf)" 0] by auto
  note M = overwritten_meta [OF s3(2) F2(4) [OF ok] I2(6) [OF io]]
  have ok3: "file_ok s3 i n" using s3(2) by (simp add: overwritten_def)
  have b3: "file_byte s3 i j = (if off \<le> j \<and> j < off + length buf then buf ! (j - off) else file_byte s i j)"
    if "j < n * USABLE_BLOCK_SIZE" for j
    using s3(2) that F2(2) by (simp add: overwritten_def)
  have nk3: "nodes_kept s s3" by (rule nodes_kept_trans [OF nodes_kept_silent [OF S] M(1)])
  have o3: "overwritten s s3 i n off buf" by (rule overwritten_silent [OF S s3(2)])
  then have k3: "st.keeps s s3" and p3: "\<And>k. k < n \<Longrightarrow> page_at s3 i k = page_at s i k" and q3: "pages_queued s s3 i off (length buf)"
    by (simp_all add: overwritten_def)
  have jn: "j div USABLE_BLOCK_SIZE < n" if "j < off + length buf" for j
    using that len by (intro less_mult_imp_div_less) simp
  have q3': "queued s3 (of_nat ino) (page_at s3 i (j div USABLE_BLOCK_SIZE))"
    if "\<not> cache_disabled s" "lists_ok s" "off \<le> j" "j < off + length buf" for j
    using q3 that p3 [OF jn [OF that(4)]] num by (simp add: pages_queued_def)
  have i3: "i = inode_of s3 ino" using M(3) I2(5) i by simp
  have "n * USABLE_BLOCK_SIZE \<le> 511 * USABLE_BLOCK_SIZE" using file_okD(2) [OF ok] by (rule mult_le_mono1)
  then have "off + length buf < 2 ^ 63" using len by (simp add: layout)
  from c_off_add [OF this]
  have e: "c_off (sint (of_nat off :: u64) + int (length buf)) = Some (of_nat off + of_nat (length buf))" by simp
  have base: "nbtrfs_write env s (join cs) buf (of_nat off) =
      (if i_size i < of_nat (off + length buf)
       then do { (_, s) \<leftarrow> inode_write s3 (i\<lparr>i_size := of_nat (off + length buf)\<rparr>) False; Some (int (length buf), s) }
       else Some (int (length buf), s3))"
    unfolding nbtrfs_write_def using s1(1) s2(1) s3(1) ino_nonzero [OF io pos] tk e by (simp add: Let_def)
  show thesis
  proof (cases "i_size i < of_nat (off + length buf)")
    case True
    then have e: "i' = i\<lparr>i_size := of_nat (off + length buf)\<rparr>" using i' by (simp add: max_def)
    obtain s4 where s4: "inode_write s3 i' False = Some (0, s4)" "nodes_kept s3 s4" "inode_ok s4 ino"
        "inode_of s4 ino = i'" "file_ok s4 i' n"
        "\<And>j. j < n * USABLE_BLOCK_SIZE \<Longrightarrow> file_byte s4 i' j = file_byte s3 i j"
        "\<And>k. k < n \<Longrightarrow> page_at s4 i' k = page_at s3 i k" "st.keeps s3 s4"
      by (rule resize_ok [OF ok3 M(2) num i3, of "of_nat (off + length buf)", folded e]) (rule that)
    show thesis
    proof (rule that [of s4])
      show "nbtrfs_write env s (join cs) buf (of_nat off) = Some (int (length buf), s4)"
        using base True s4(1) e by simp
      show "file_at s4 cs ino" by (rule file_at_kept [OF f nodes_kept_trans [OF nk3 s4(2)] s4(3)])
      show "st.keeps s s4" by (rule st.keeps_trans [OF k3 s4(8)])
      show "queued s4 (of_nat ino) (page_at s4 i' (j div USABLE_BLOCK_SIZE))"
        if "\<not> cache_disabled s" "lists_ok s" "off \<le> j" "j < off + length buf" for j
        using q3' [OF that] s4(7) [OF jn [OF that(4)]] st.keepsD(7) [OF s4(8)] st.keepsD(6) [OF k3 that(2)] by simp
    qed (use s4 b3 in auto)
  next
    case False
    then have "i' = i" using i' by (simp add: max_def)
    with base False b3 ok3 i3 k3 q3' file_at_kept [OF f nk3 M(2)] show thesis by (intro that [of s3]) simp_all
  qed
qed

section \<open>Synchronising a file\<close>

lemma nbtrfs_fsync_ok:
  assumes f: "file_at s cs ino" and l: "lists_ok s"
  obtains s' where "nbtrfs_fsync s (join cs) = Some s'" and "store_ok s'" and "lists_ok s'" and "view s' = view s"
    and "\<And>b. queued s (of_nat ino) b \<Longrightarrow> disk_image s' (unat b) = view s b"
    and "\<And>b. st.stale s' b \<Longrightarrow> st.stale s b"
proof -
  obtain s1 where s1: "item_search s (join cs) = Some (\<lparr>ip_inode = of_nat ino, ip_btree = 0\<rparr>, s1)" "st.silent s s1"
    by (rule file_at_search [OF f])
  note K1 = st.keepsD [OF st.silentD(1) [OF s1(2)]]
  obtain s2 where s2: "cache_fsync s1 (of_nat ino) = Some s2" "store_ok s2" "lists_ok s2" "view s2 = view s1"
      "\<And>b. queued s1 (of_nat ino) b \<Longrightarrow> disk_image s2 (unat b) = view s1 b" "\<And>b. st.stale s2 b \<Longrightarrow> st.stale s1 b"
    by (rule st.fsync_queued [OF K1(1) K1(6) [OF l], of "of_nat ino"]) (rule that)
  have "nbtrfs_fsync s (join cs) = Some s2" using s1(1) s2(1) by (simp add: nbtrfs_fsync_def)
  then show thesis
    using s2(2-6) st.silentD(2) [OF s1(2)] K1(7) [OF l] st.stale_silent [OF s1(2)] by (intro that [of s2]) auto
qed

section \<open>Attributes\<close>

lemma nbtrfs_getattr_ok:
  assumes f: "file_at s cs ino"
  obtains s' where "nbtrfs_getattr s (join cs) = Some (Some (stat_of (inode_of s ino) (of_nat ino)), s')" and "st.silent s s'"
proof -
  have io: "inode_ok s ino" and pos: "0 < ino" using f by (simp_all add: file_at_def)
  obtain s1 where s1: "item_search s (join cs) = Some (\<lparr>ip_inode = of_nat ino, ip_btree = 0\<rparr>, s1)" "st.silent s s1"
    by (rule file_at_search [OF f])
  note I1 = inode_silent [OF s1(2)]
  obtain s2 where s2: "inode_read s1 (of_nat ino) = Some (Some (inode_of s1 ino), s2)" "st.silent s1 s2"
    by (rule inode_read_ok [OF I1(6) [OF io]])
  show thesis
    by (rule that [OF _ st.silent_trans [OF s1(2) s2(2)]])
      (use s1(1) s2(1) ino_nonzero [OF io pos] I1(5) in \<open>simp add: nbtrfs_getattr_def\<close>)
qed

lemma metadata_chmod_ok:
  assumes srch: "item_search s path = Some (pair, s1)" "st.silent s s1" and ino: "ip_inode pair = of_nat n" and io: "inode_ok s n"
    and num: "inode_number (inode_of s n) = of_nat n"
  obtains s' where "metadata_chmod s path md wt = Some (0, s')" and "nodes_kept s s'" and "inode_ok s' n"
    and "inode_of s' n = (inode_of s n)\<lparr>mode := md\<rparr>"
    and "\<And>b. b \<noteq> inode_home s n \<Longrightarrow> view s' b = view s b" and "\<And>b. b \<noteq> unat (inode_home s n) \<Longrightarrow> disk_image s' b = disk_image s b"
    and "st.keeps s s'" and "\<not> wt \<Longrightarrow> \<not> cache_disabled s \<Longrightarrow> disk_image s' = disk_image s"
    and "wt \<Longrightarrow> disk_image s' (unat (inode_home s n)) = view s' (inode_home s n)"
proof -
  note I1 = inode_silent [OF srch(2)]
  obtain s2 where s2: "inode_read s1 (of_nat n) = Some (Some (inode_of s1 n), s2)" "st.silent s1 s2"
    by (rule inode_read_ok [OF I1(6) [OF io]])
  note S = st.silent_trans [OF srch(2) s2(2)]
  note I2 = inode_silent [OF S]
  obtain s3 where s3: "inode_write s2 ((inode_of s n)\<lparr>mode := md\<rparr>) wt = Some (0, s3)" "nodes_kept s2 s3" "inode_ok s3 n"
      "inode_of s3 n = (inode_of s n)\<lparr>mode := md\<rparr>"
      "\<And>b. b \<noteq> inode_home s n \<Longrightarrow> view s3 b = view s2 b" "\<And>b. b \<noteq> unat (inode_home s n) \<Longrightarrow> disk_image s3 b = disk_image s2 b"
      "st.keeps s2 s3" "\<not> wt \<Longrightarrow> \<not> cache_disabled s2 \<Longrightarrow> disk_image s3 = disk_image s2"
      "wt \<Longrightarrow> disk_image s3 (unat (inode_home s n)) = view s3 (inode_home s n)"
    by (rule inode_update_ok [OF I2(6) [OF io], of "(inode_of s n)\<lparr>mode := md\<rparr>" wt])
      (use num I2(2) that in \<open>auto simp: inode_of_def\<close>)
  have "metadata_chmod s path md wt = Some (0, s3)"
    using srch(1) ino s2(1) s3(1) I1(5) by (simp add: metadata_chmod_def)
  then show thesis
    using s3 st.silentD(2,3) [OF S] nodes_kept_trans [OF nodes_kept_silent [OF S] s3(2)] st.keeps_trans [OF st.silentD(1) [OF S] s3(7)]
      st.keepsD(3) [OF st.silentD(1) [OF S]] by (intro that [of s3]) simp_all
qed

section \<open>Journalled operations\<close>

text \<open>The head of the journal is a journal block whose entry is synced.\<close>

definition journal_free :: "fs \<Rightarrow> bool" where
  "journal_free s \<longleftrightarrow> unat (head_block s) < nblocks s \<and> open_slot s (head_block s)"

text \<open>Writing an entry keeps the directories and the inodes, and the entry is on disk.\<close>

lemma journalled:
  assumes r: "rooted s" and j: "journal_free s" and prep: "prepare_entry s e = Some (e, s)"
  obtains s' where "initialize_journal_entry env s e = Some s'" and "nodes_kept s s'"
    and "\<And>n. inode_ok s n \<Longrightarrow> inode_ok s' n \<and> inode_of s' n = inode_of s n"
    and "disk_image s' = (disk_image s)(0 := sb_store (next_head (sb_of s)) (view s 0),
      unat (head_block s) := copy_entry (set_je_block (head_block s) e) (view s (head_block s)))"
    and "view s' = (view s)(0 := sb_store (next_head (sb_of s)) (view s 0),
      head_block s := copy_entry (set_je_block (head_block s) e) (view s (head_block s)))"
    and "st.keeps s s'"
proof -
  have ok: "super_ok s" using r by (simp add: rooted_def super_ok_def)
  have op: "unat (head_block s) < nblocks s" "open_slot s (head_block s)" and jb: "btype (view s (head_block s)) = BLOCK_TYPE_JOURNAL"
    using j by (simp_all add: journal_free_def open_slot_def)
  obtain s' where s': "initialize_journal_entry env s e = Some s'" "st.keeps s s'"
      "view s' = (view s)(0 := sb_store (next_head (sb_of s)) (view s 0),
        head_block s := copy_entry (set_je_block (head_block s) e) (view s (head_block s)))"
      "disk_image s' = (disk_image s)(0 := sb_store (next_head (sb_of s)) (view s 0),
        unat (head_block s) := copy_entry (set_je_block (head_block s) e) (view s (head_block s)))"
    by (rule initialize_journal_entry_ok [OF ok prep op])
  have t0: "btype (view s 0) = BLOCK_TYPE_SUPER" using ok by (simp add: super_ok_def)
  then have h0: "head_block s \<noteq> 0" using jb by (auto simp: block_types)
  have v0: "view s' 0 = sb_store (next_head (sb_of s)) (view s 0)" using h0 by (simp add: s'(3))
  then have sb: "sb_of s' = next_head (sb_of s)" by (simp add: sb_of_def [of s'] sb_load_store)
  have ty0: "btype (view s' 0) = btype (view s 0)" by (simp add: v0 sb_store_def Let_def layout)
  have same: "view s' b = view s b" if "b \<noteq> 0" "btype (view s b) \<noteq> BLOCK_TYPE_JOURNAL" for b using that jb by (auto simp: s'(3))
  have "view s' b = view s b" if "is_node s b" for b
    using that t0 by (intro same) (auto simp: is_node_def block_types)
  then have nk: "nodes_kept s s'" using st.keepsD(1,2) [OF s'(2)] ty0 by (simp add: nodes_kept_def geometry_def sb)
  have "inode_ok s' n \<and> inode_of s' n = inode_of s n" if "inode_ok s n" for n
  proof -
    have h: "inode_home s' n = inode_home s n" by (rule nodes_kept_home [OF nk])
    have vh: "view s' (inode_home s n) = view s (inode_home s n)"
      using that inode_home_not_super [OF that] by (intro same) (auto simp: inode_ok_def block_types)
    show ?thesis using that st.keepsD(1,2) [OF s'(2)] ty0 by (simp add: inode_ok_def inode_of_def h vh)
  qed
  with nk s' show thesis by (intro that [of s']) simp_all
qed

lemma nbtrfs_chmod_ok:
  assumes f: "file_at s cs ino" and num: "inode_number (inode_of s ino) = of_nat ino" and j: "journal_free s"
    and nul: "CHR 0x00 \<notin> set (join cs)"
  obtains s' where "nbtrfs_chmod env s (join cs) md = Some (0, s')" and "file_at s' cs ino"
    and "inode_of s' ino = (inode_of s ino)\<lparr>mode := md\<rparr>"
    and "je_type (disk_image s' (unat (head_block s))) = CHMOD" and "je_block (disk_image s' (unat (head_block s))) = head_block s"
    and "load32 (disk_image s' (unat (head_block s))) JE_MODE = md"
    and "read_str PATH_MAX (disk_image s' (unat (head_block s))) JE_PATH = Some (join cs)"
    and "\<not> je_synced (disk_image s' (unat (head_block s)))" and "btype (disk_image s' (unat (head_block s))) = BLOCK_TYPE_JOURNAL"
    and "disk_image s' 0 = sb_store (next_head (sb_of s)) (view s 0)"
    and "\<And>b. b \<noteq> 0 \<Longrightarrow> b \<noteq> unat (head_block s) \<Longrightarrow> b \<noteq> unat (inode_home s ino) \<Longrightarrow> disk_image s' b = disk_image s b"
    and "\<not> cache_disabled s \<Longrightarrow> disk_image s' (unat (inode_home s ino)) = disk_image s (unat (inode_home s ino))"
    and "st.keeps s s'" and "inode_home s' ino = inode_home s ino" and "btype (view s' (inode_home s ino)) = BLOCK_TYPE_INODE"
proof -
  let ?jb = "head_block s"
  have r: "rooted s" and io: "inode_ok s ino" and len: "length (join cs) < PATH_MAX" using f by (simp_all add: file_at_def)
  obtain e where e: "new_entry_for env s CHMOD (join cs) = Some e" using len by (auto simp: new_entry_for_def strcpy_def)
  have path: "read_str PATH_MAX e JE_PATH = Some (join cs)"
    using read_str_strcpy [OF _ nul] e by (simp add: new_entry_for_def)
  have ty: "je_type e = CHMOD" using e len by (auto simp: new_entry_for_def strcpy_def layout split: if_splits)
  have sy: "\<not> je_synced e" using e len by (auto simp: new_entry_for_def strcpy_def layout split: if_splits)
  define e' where "e' = store32 md e JE_MODE"
  have "je_type e' = CHMOD" using ty by (simp add: e'_def layout)
  then have prep: "prepare_entry s e' = Some (e', s)" by (simp add: prepare_entry_def block_types)
  obtain s1 where s1: "initialize_journal_entry env s e' = Some s1" "nodes_kept s s1"
      "\<And>n. inode_ok s n \<Longrightarrow> inode_ok s1 n \<and> inode_of s1 n = inode_of s n"
      "disk_image s1 = (disk_image s)(0 := sb_store (next_head (sb_of s)) (view s 0), unat ?jb := copy_entry (set_je_block ?jb e') (view s ?jb))"
      "st.keeps s s1"
    by (rule journalled [OF r j prep, of env]) (rule that)
  have f1: "file_at s1 cs ino" using file_at_kept [OF f s1(2)] s1(3) [OF io] by simp
  obtain s2 where s2: "item_search s1 (join cs) = Some (\<lparr>ip_inode = of_nat ino, ip_btree = 0\<rparr>, s2)" "st.silent s1 s2"
    by (rule file_at_search [OF f1])
  obtain s3 where s3: "metadata_chmod s1 (join cs) md False = Some (0, s3)" "nodes_kept s1 s3" "inode_ok s3 ino"
      "inode_of s3 ino = (inode_of s1 ino)\<lparr>mode := md\<rparr>" "\<And>b. b \<noteq> unat (inode_home s1 ino) \<Longrightarrow> disk_image s3 b = disk_image s1 b"
      "st.keeps s1 s3" "\<not> cache_disabled s1 \<Longrightarrow> disk_image s3 = disk_image s1"
    by (rule metadata_chmod_ok [OF s2, of ino md False]) (use s1(3) [OF io] num that in auto)
  have hj: "inode_home s ino \<noteq> ?jb" using io j by (auto simp: inode_ok_def journal_free_def open_slot_def block_types)
  have h1: "inode_home s1 ino = inode_home s ino" by (rule nodes_kept_home [OF s1(2)])
  have h3: "inode_home s3 ino = inode_home s ino" using nodes_kept_home [OF s3(2), of ino] h1 by simp
  have h0: "unat (inode_home s ino) \<noteq> 0" using inode_home_not_super [OF io] by (simp add: unat_eq_0)
  have j0: "unat ?jb \<noteq> 0"
  proof
    assume "unat ?jb = 0"
    then have "?jb = 0" by (simp add: unat_eq_0)
    then show False using r j by (simp add: rooted_def journal_free_def open_slot_def block_types)
  qed
  have "unat ?jb \<noteq> unat (inode_home s1 ino)" using hj h1 by (metis word_unat_eq_iff)
  then have d: "disk_image s3 (unat ?jb) = copy_entry (set_je_block ?jb e') (view s ?jb)" using s3(5) s1(4) by simp
  have rs: "read_str PATH_MAX (copy_entry (set_je_block ?jb e') b) JE_PATH = read_str PATH_MAX e JE_PATH" for b
  proof -
    have "copy_entry (set_je_block ?jb e') b (JE_PATH + k) = e (JE_PATH + k)" if "k < PATH_MAX" for k
      using that by (subst copy_entry_byte) (simp_all add: e'_def store_le_def layout PATH_MAX_def)
    then have "load_bytes PATH_MAX (copy_entry (set_je_block ?jb e') b) JE_PATH = load_bytes PATH_MAX e JE_PATH"
      unfolding load_bytes_def by simp
    then show ?thesis by (simp add: read_str_def)
  qed
  show thesis
  proof (rule that [of s3])
    show "nbtrfs_chmod env s (join cs) md = Some (0, s3)" using e s1(1) s3(1) by (simp add: nbtrfs_chmod_def e'_def)
    show "file_at s3 cs ino" by (rule file_at_kept [OF f1 s3(2,3)])
    show "read_str PATH_MAX (disk_image s3 (unat ?jb)) JE_PATH = Some (join cs)" using path by (simp add: d rs)
    show "btype (disk_image s3 (unat ?jb)) = BLOCK_TYPE_JOURNAL"
      using j by (simp add: d copy_entry_tag journal_free_def open_slot_def)
    show "\<not> je_synced (disk_image s3 (unat ?jb))" using sy by (simp add: d copy_entry_byte e'_def layout store_le_def)
    show "disk_image s3 0 = sb_store (next_head (sb_of s)) (view s 0)" using s3(5) s1(4) h0 h1 j0 by simp
    show "disk_image s3 b = disk_image s b" if "b \<noteq> 0" "b \<noteq> unat ?jb" "b \<noteq> unat (inode_home s ino)" for b
      using that s3(5) [of b] s1(4) h1 by simp
    show "disk_image s3 (unat (inode_home s ino)) = disk_image s (unat (inode_home s ino))" if "\<not> cache_disabled s"
      using s3(7) s1(4) st.keepsD(3) [OF s1(5)] that hj h0 by (auto simp: word_unat_eq_iff)
    show "st.keeps s s3" by (rule st.keeps_trans [OF s1(5) s3(6)])
    show "inode_home s3 ino = inode_home s ino" by (rule h3)
    show "btype (view s3 (inode_home s ino)) = BLOCK_TYPE_INODE" using s3(3) by (simp add: inode_ok_def h3)
  qed (use s3(4) s1(3) [OF io] ty in \<open>simp_all add: d copy_entry_field e'_def layout\<close>)
qed

end
