(* ===== verification/New_Files.thy ===== *)
theory New_Files
  imports Create Files
begin

text \<open>
  Files that grow: a write behind the last page of a file allocates the pages it needs, up to the twelve
  that an inode addresses directly, and a write to a path that does not exist makes the file first.
\<close>

section \<open>Files of at most twelve pages\<close>

definition small_file :: "fs \<Rightarrow> Inode \<Rightarrow> nat \<Rightarrow> bool" where
  "small_file s i k \<longleftrightarrow> k \<le> 12 \<and> length (direct_blocks i) = 12 \<and> file_ok s i k \<and>
     (\<forall>j < k. used s (direct_blocks i ! j)) \<and> (\<forall>j. k \<le> j \<and> j < 12 \<longrightarrow> direct_blocks i ! j = 0)"

lemma small_fileD:
  assumes "small_file s i k"
  shows "k \<le> 12" and "length (direct_blocks i) = 12" and "file_ok s i k" and "j < k \<Longrightarrow> used s (direct_blocks i ! j)"
    and "k \<le> j \<Longrightarrow> j < 12 \<Longrightarrow> direct_blocks i ! j = 0" and "j < k \<Longrightarrow> page_at t i j = direct_blocks i ! j"
    and "j < k \<Longrightarrow> btype (view s (direct_blocks i ! j)) = BLOCK_TYPE_DATA"
proof -
  show k: "k \<le> 12" and "length (direct_blocks i) = 12" and f: "file_ok s i k" and "j < k \<Longrightarrow> used s (direct_blocks i ! j)"
    and "k \<le> j \<Longrightarrow> j < 12 \<Longrightarrow> direct_blocks i ! j = 0"
    using assms by (simp_all add: small_file_def)
  show p: "j < k \<Longrightarrow> page_at t i j = direct_blocks i ! j" for t using k by (simp add: page_at_def)
  show "j < k \<Longrightarrow> btype (view s (direct_blocks i ! j)) = BLOCK_TYPE_DATA" using file_okD(5) [OF f, of j] p [of s] by simp
qed

lemma small_file_bytes:
  assumes "k \<le> 12" and "off \<le> k * USABLE_BLOCK_SIZE" and "\<And>j. j < k \<Longrightarrow> direct_blocks i' ! j = direct_blocks i ! j"
    and "\<And>j. j < k \<Longrightarrow> view s' (direct_blocks i ! j) = view s (direct_blocks i ! j)"
  shows "file_bytes s' i' 0 off = file_bytes s i 0 off"
proof -
  have "j div USABLE_BLOCK_SIZE < k" if "j < off" for j
  proof (rule less_mult_imp_div_less)
    show "j < k * USABLE_BLOCK_SIZE" using that assms(2) by linarith
  qed
  then show ?thesis using assms(1,3,4) by (fastforce simp: file_bytes_def file_byte_def page_at_def)
qed

text \<open>The file is kept by steps that change no data.\<close>

lemma small_file_kept:
  assumes "small_file s i k" and "kept {} s s'"
  shows "small_file s' i k" and "off \<le> k * USABLE_BLOCK_SIZE \<Longrightarrow> file_bytes s' i 0 off = file_bytes s i 0 off"
proof -
  note F = small_fileD [OF assms(1)] and K = keptD [OF assms(2)]
  have v: "view s' (direct_blocks i ! j) = view s (direct_blocks i ! j)" if "j < k" for j
    using K(4) [OF F(4) [OF that] F(7) [OF that]] by simp
  have p: "page_at t i j = direct_blocks i ! j" if "j < k" for t j using F(6) [OF that] .
  have "inj_on (page_at s i) {..<k}" using F(3) by (simp add: file_ok_def)
  then have "inj_on (page_at s' i) {..<k}" using p by (simp add: inj_on_def)
  moreover have "page_at s' i j \<noteq> 0 \<and> unat (page_at s' i j) < nblocks s' \<and> btype (view s' (page_at s' i j)) = BLOCK_TYPE_DATA" if "j < k" for j
    using file_okD(3,4,5) [OF F(3) that] p [OF that] v [OF that] st.keepsD(2) [OF K(1)] by simp
  ultimately have "file_ok s' i k" using F(1) st.keepsD(1) [OF K(1)] by (simp add: file_ok_def)
  then show "small_file s' i k" using F K(2) by (simp add: small_file_def)
  show "off \<le> k * USABLE_BLOCK_SIZE \<Longrightarrow> file_bytes s' i 0 off = file_bytes s i 0 off" using F(1) v by (intro small_file_bytes) auto
qed

section \<open>A new page\<close>

lemma new_page_step:
  assumes S: "models s M r a" and n: "n < M" and i: "i = v_inode a n" and num: "inode_number i = of_nat n" and f: "small_file s i k" and k: "k < 12"
    and fr: "v_free a \<noteq> {}" and sl: "v_slots a = Suc q"
  obtains j s' where "page_or_new env s i (of_nat k) sz = Some (Some (of_nat j, with_block k (of_nat j) i), s')" and "j \<in> v_free a"
    and "models s' M r (a\<lparr>v_inode := (v_inode a)(n := with_block k (of_nat j) i), v_free := v_free a - {j}, v_slots := q\<rparr>)"
    and "kept {} s s'" and "\<not> used s (of_nat j)" and "small_file s' (with_block k (of_nat j) i) (Suc k)"
proof -
  note F = small_fileD [OF f]
  have u: "unat (of_nat k :: u64) = k" using k by (intro unat_of_nat_small) simp
  then have lt: "(of_nat k :: u64) < 12" using k by (simp add: word_less_nat_alt)
  have g0: "\<exists>rc v. inode_get_block s i (of_nat k) = Some (rc, v, s) \<and> (case v of None \<Rightarrow> 0 | Some b \<Rightarrow> b) = 0"
    using F(5) [OF order.refl k] lt u by (simp add: inode_get_block_def Let_def)
  obtain j s1 where s1: "alloc_page s = Some (of_nat j, s1)" "j \<in> v_free a" "of_nat j \<noteq> (0 :: u64)" "\<not> used s (of_nat j)" "used s1 (of_nat j)"
      "models s1 M r (a\<lparr>v_free := v_free a - {j}\<rparr>)" "kept {} s s1" "moves {0, bitmap_block j} s s1"
    by (rule alloc_step [OF S fr])
  let ?d = "of_nat j :: u64" and ?a1 = "a\<lparr>v_free := v_free a - {j}\<rparr>"
  let ?i = "with_block k ?d i"
  let ?a2 = "?a1\<lparr>v_inode := (v_inode a)(n := ?i)\<rparr>"
  have il: "j < nblocks s" using s1(2) modelsD(5) [OF S] by (auto simp: free_set_def)
  note T = soundD(6) [OF modelsD(2) [OF S]] soundD(8) [OF modelsD(2) [OF S] il]
  let ?g = "\<lambda>b. clear_payload (set_btype BLOCK_TYPE_DATA b)"
  obtain p s2 s3 where s3: "get_block s1 (inode_number i) ?d = Some (p, s2)" "modify s2 p (\<lambda>b. Some (?g b)) = Some s3"
      "models s3 M r ?a1" "kept {} s s3" "used s3 ?d" "view s3 ?d = ?g (view s1 ?d)"
    by (rule fresh_block_step [OF S s1(8) _ s1(6) _ _ s1(4,5,7), of "inode_number i" ?g]) (use T in \<open>auto simp: block_types\<close>)
  have i2: "inode_number ?i = of_nat n" "length (direct_blocks ?i) = 12" using num F(2) by (simp_all add: with_block_def)
  obtain s4 where s4: "inode_write s3 ?i True = Some (0, s4)" "models s4 M r ?a2" "kept {} s3 s4"
    by (rule inode_write_step [OF s3(3) n i2, of True]) (use that in simp)
  obtain s5 where s5: "inode_write s4 ?i False = Some (0, s5)" "models s5 M r ?a2" "kept {} s4 s5"
    by (rule inode_write_step [OF s4(2) n i2, of False]) (use that in simp)
  have je: "prepare_entry s5 (store64 sz (write_entry (stack env s5) (inode_number ?i) (of_nat k) ?d) JE_W_SIZE) =
      Some (store64 sz (write_entry (stack env s5) (inode_number ?i) (of_nat k) ?d) JE_W_SIZE, s5)"
  proof -
    have "je_type (store64 sz (write_entry (stack env s5) (inode_number ?i) (of_nat k) ?d) JE_W_SIZE) = WRITE"
      by (simp add: write_entry_def layout)
    then show ?thesis by (simp add: prepare_entry_def block_types)
  qed
  obtain s6 where s6: "initialize_journal_entry env s5 (store64 sz (write_entry (stack env s5) (inode_number ?i) (of_nat k) ?d) JE_W_SIZE) = Some s6"
      "models s6 M r (?a2\<lparr>v_slots := q\<rparr>)" "kept {} s5 s6"
    by (rule journal_step [OF s5(2) _ je, of q env]) (use sl in simp)
  have k36: "kept {} s3 s6" using kept_trans [OF kept_trans [OF s4(3) s5(3)] s6(3)] by simp
  have k6: "kept {} s s6" using kept_trans [OF s3(4) k36] by simp
  have d6: "used s6 ?d" "btype (view s6 ?d) = BLOCK_TYPE_DATA"
    using keptD(2,3) [OF k36 s3(5)] s3(6) by (simp_all add: clear_payload_def)
  note K6 = keptD [OF k6]
  have n6: "nblocks s6 = nblocks s" by (rule st.keepsD(2) [OF K6(1)])
  have db: "direct_blocks ?i ! m = (if m = k then ?d else direct_blocks i ! m)" if "m < 12" for m
    using that F(2) by (simp add: with_block_def)
  have pg: "page_at t ?i m = (if m = k then ?d else direct_blocks i ! m)" if "m < 12" for t m using that db by (simp add: page_at_def)
  have old: "used s6 (direct_blocks i ! m)" "btype (view s6 (direct_blocks i ! m)) = BLOCK_TYPE_DATA" "direct_blocks i ! m \<noteq> 0"
      "direct_blocks i ! m \<noteq> ?d" if "m < k" for m
    using K6(2,3) [OF F(4) [OF that]] F(4,6,7) [OF that] file_okD(3) [OF F(3) that] s1(4) by auto
  have "file_ok s6 ?i (Suc k)"
  proof -
    have "page_at s6 ?i m \<noteq> 0 \<and> unat (page_at s6 ?i m) < nblocks s6 \<and> btype (view s6 (page_at s6 ?i m)) = BLOCK_TYPE_DATA" if "m < Suc k" for m
      using that k old [of m] d6 s1(3) by (auto simp: pg less_Suc_eq used_def)
    moreover have "inj_on (page_at s6 ?i) {..<Suc k}"
    proof (rule inj_onI)
      fix x y assume xy: "x \<in> {..<Suc k}" "y \<in> {..<Suc k}" "page_at s6 ?i x = page_at s6 ?i y"
      have inj: "inj_on (page_at s i) {..<k}" using F(3) by (simp add: file_ok_def)
      have "x = y" if "x < k" "y < k"
        using inj_onD [OF inj, of x y] xy(3) that k F(6) by (simp add: pg)
      then show "x = y" using xy k old(4) [of x] old(4) [of y] by (auto simp: pg less_Suc_eq split: if_splits)
    qed
    ultimately show ?thesis using k modelsD(3) [OF s6(2)] by (simp add: file_ok_def)
  qed
  moreover have "used s6 (direct_blocks ?i ! m)" if "m < Suc k" for m using that k old(1) [of m] d6(1) by (simp add: db)
  moreover have "direct_blocks ?i ! m = 0" if "Suc k \<le> m" "m < 12" for m using that F(5) [of m] by (simp add: db)
  ultimately have sf: "small_file s6 ?i (Suc k)" using k i2(2) by (simp add: small_file_def)
  have "page_or_new env s i (of_nat k) sz = Some (Some (?d, ?i), s6)"
    using g0 s1(1,3) s3(1,2) s4(1) s5(1) s6(1) lt u
    by (auto simp: page_or_new_def inode_set_block_def set_direct_def with_block_def)
  moreover have eq: "?a2\<lparr>v_slots := q\<rparr> = a\<lparr>v_inode := (v_inode a)(n := ?i), v_free := v_free a - {j}, v_slots := q\<rparr>" by simp
  ultimately show thesis using s1(2,4) s6(2) [unfolded eq] k6 sf by (intro that)
qed

section \<open>The loop of a write\<close>

lemma chunk_step:
  assumes S: "models s M r a" and f: "small_file s i k" and off: "off < k * USABLE_BLOCK_SIZE" and ne: "buf \<noteq> []"
  obtains c s' where "write_loop env s ino i sz buf (of_nat off) w = write_loop env s' ino i sz (drop c buf) (of_nat (off + c)) (w + c)"
    and "models s' M r a" and "kept (set (take k (direct_blocks i))) s s'" and "small_file s' i k" and "0 < c" and "c \<le> length buf"
    and "off + c \<le> k * USABLE_BLOCK_SIZE" and "file_bytes s' i 0 (off + c) = file_bytes s i 0 off @ take c buf"
proof -
  note F = small_fileD [OF f]
  let ?k = "off div USABLE_BLOCK_SIZE" and ?c = "chunk_size (of_nat off) (length buf)"
  have kk: "?k < k" using off by (rule less_mult_imp_div_less)
  let ?d = "direct_blocks i ! ?k"
  have pg: "?d = page_at s i ?k" using F(6) [OF kk] by simp
  obtain s' where s': "write_loop env s ino i sz buf (of_nat off) w = write_loop env s' ino i sz (drop ?c buf) (of_nat (off + ?c)) (w + ?c)"
      "st.changes s s' ?d (store_bytes (take ?c buf) (view s ?d) (4 + off mod USABLE_BLOCK_SIZE))"
      "\<not> cache_disabled s \<Longrightarrow> lists_ok s \<Longrightarrow> queued s' (inode_number i) ?d"
      and C: "0 < ?c" "?c \<le> length buf" "off mod USABLE_BLOCK_SIZE + ?c \<le> USABLE_BLOCK_SIZE"
    by (rule write_chunk [OF F(3) kk ne refl pg refl, of env ino sz w]) (rule that)
  have lt: "length (take ?c buf) = ?c" using C(2) by simp
  have ow: "overwritten s s' i k off (take ?c buf)"
    using C(2,3) s'(2,3) by (intro chunk_written [OF F(3) kk]) (simp_all add: pg)
  note c' = st.changesD [OF s'(2)]
  note D = data_step [OF S F(4) [OF kk] F(7) [OF kk] c'(1,2)]
  have m: "models s' M r a" "kept {?d} s s'" using D F(7) [OF kk] by simp_all
  have "?d \<in> set (take k (direct_blocks i))" using kk F(1,2) by (auto simp: in_set_conv_nth)
  then have K: "kept (set (take k (direct_blocks i))) s s'" by (intro kept_mono [OF m(2)]) simp
  have sf: "small_file s' i k" using F keptD(2) [OF m(2)] ow by (simp add: small_file_def overwritten_def)
  have "off = ?k * USABLE_BLOCK_SIZE + off mod USABLE_BLOCK_SIZE" by simp
  then have "off + ?c \<le> ?k * USABLE_BLOCK_SIZE + USABLE_BLOCK_SIZE" using C(3) by linarith
  moreover have "Suc ?k * USABLE_BLOCK_SIZE \<le> k * USABLE_BLOCK_SIZE" using kk by (intro mult_le_mono1) simp
  ultimately have le: "off + ?c \<le> k * USABLE_BLOCK_SIZE" by simp
  have b: "file_byte s' i j = (if off \<le> j \<and> j < off + ?c then take ?c buf ! (j - off) else file_byte s i j)" if "j < off + ?c" for j
    using ow that le lt by (simp add: overwritten_def)
  have "file_bytes s' i 0 (off + ?c) = file_bytes s i 0 off @ take ?c buf"
    by (rule nth_equalityI) (use lt b in \<open>auto simp: file_bytes_def nth_append\<close>)
  then show thesis using s'(1) m(1) K sf C(1,2) le by (intro that)
qed

text \<open>\<open>m\<close> new pages are enough for what is written.\<close>

lemma extend_loop:
  assumes "models s M r a" and "n < M" and "i = v_inode a n" and "inode_number i = of_nat n" and "small_file s i k"
    and "off \<le> k * USABLE_BLOCK_SIZE" and "off + length buf \<le> (k + m) * USABLE_BLOCK_SIZE" and "k + m \<le> 12"
    and "m \<le> card (v_free a)" and "m \<le> v_slots a"
  shows "\<exists>s' i' k' F q. write_loop env s ino i sz buf (of_nat off) w = Some (False, w + length buf, i', s') \<and>
    models s' M r (a\<lparr>v_inode := (v_inode a)(n := i'), v_free := F, v_slots := q\<rparr>) \<and> kept (set (take k (direct_blocks i))) s s' \<and>
    small_file s' i' k' \<and> off + length buf \<le> k' * USABLE_BLOCK_SIZE \<and> i' = i\<lparr>direct_blocks := direct_blocks i'\<rparr> \<and>
    file_bytes s' i' 0 (off + length buf) = file_bytes s i 0 off @ buf \<and> F \<subseteq> v_free a \<and> v_slots a \<le> q + m \<and> k \<le> k' \<and>
    (k' = k \<or> (k' - 1) * USABLE_BLOCK_SIZE < off + length buf)"
  using assms
proof (induction "length buf" arbitrary: s a i k m off buf w rule: less_induct)
  case less
  note S = less.prems(1) and n = less.prems(2) and i = less.prems(3) and f = less.prems(5)
  show ?case
  proof (cases "buf = []")
    case True
    have eq: "a\<lparr>v_inode := (v_inode a)(n := i), v_free := v_free a, v_slots := v_slots a\<rparr> = a" using i by simp
    have "kept (set (take k (direct_blocks i))) s s"
      using models_silent(2) [OF S st.silent_refl st.silent_refl] modelsD(3) [OF S] kept_mono by blast
    moreover have "write_loop env s ino i sz buf (of_nat off) w = Some (False, w + length buf, i, s)"
      using True by (subst write_loop.simps) simp
    ultimately show ?thesis
      using True S f less.prems(6) eq
      by (intro exI [of _ s] exI [of _ i] exI [of _ k] exI [of _ "v_free a"] exI [of _ "v_slots a"]) simp
  next
    case False
    let ?B = USABLE_BLOCK_SIZE
    have "\<exists>t j F q k1 m1. write_loop env s ino i sz buf (of_nat off) w = write_loop env t ino j sz buf (of_nat off) w \<and>
        models t M r (a\<lparr>v_inode := (v_inode a)(n := j), v_free := F, v_slots := q\<rparr>) \<and> kept {} s t \<and> small_file t j k1 \<and> off < k1 * ?B \<and>
        j = i\<lparr>direct_blocks := direct_blocks j\<rparr> \<and> file_bytes t j 0 off = file_bytes s i 0 off \<and> F \<subseteq> v_free a \<and> v_slots a + m1 \<le> q + m \<and>
        k1 + m1 = k + m \<and> m1 \<le> card F \<and> m1 \<le> q \<and> k \<le> k1 \<and> (k1 = k \<or> (k1 - 1) * ?B < off + length buf) \<and>
        (\<forall>b \<in> set (take k1 (direct_blocks j)). b \<in> set (take k (direct_blocks i)) \<or> \<not> used s b)"
    proof (cases "off < k * ?B")
      case True
      have eq: "a\<lparr>v_inode := (v_inode a)(n := i), v_free := v_free a, v_slots := v_slots a\<rparr> = a" using i by simp
      have "kept {} s s" using models_silent(2) [OF S st.silent_refl st.silent_refl] modelsD(3) [OF S] by blast
      then show ?thesis using True S f less.prems(9,10) eq
        by (intro exI [of _ s] exI [of _ i] exI [of _ "v_free a"] exI [of _ "v_slots a"] exI [of _ k] exI [of _ m]) simp
    next
      case False
      then have off: "off = k * ?B" using less.prems(6) by simp
      have "0 < m" using less.prems(7) off \<open>buf \<noteq> []\<close> by (cases m) auto
      then obtain m1 where m1: "m = Suc m1" by (cases m) auto
      have k: "k < 12" using less.prems(8) m1 by simp
      have fr: "v_free a \<noteq> {}" using less.prems(9) m1 by auto
      obtain q where q: "v_slots a = Suc q" "m1 \<le> q" using less.prems(10) m1 by (cases "v_slots a") auto
      obtain j t where t: "page_or_new env s i (of_nat k) sz = Some (Some (of_nat j, with_block k (of_nat j) i), t)" "j \<in> v_free a"
          "models t M r (a\<lparr>v_inode := (v_inode a)(n := with_block k (of_nat j) i), v_free := v_free a - {j}, v_slots := q\<rparr>)"
          "kept {} s t" "\<not> used s (of_nat j)" "small_file t (with_block k (of_nat j) i) (Suc k)"
        by (rule new_page_step [OF S n i less.prems(4) f k fr q(1), of env sz])
      let ?j = "with_block k (of_nat j) i"
      note F = small_fileD [OF f] and F' = small_fileD [OF t(6)]
      have po: "page_of_offset (of_nat off) = of_nat k"
        using page_of_offset_nat(1) [of off] k by (simp add: off layout)
      have dk: "direct_blocks ?j ! k = of_nat j" using F(2) k by (simp add: with_block_def)
      have "page_at t ?j k = of_nat j" using F'(6) [of k t] dk by simp
      moreover have "(of_nat j :: u64) \<noteq> 0" using file_okD(3) [OF F'(3), of k] F'(6) [of k t] dk by simp
      moreover have u: "unat (of_nat k :: u64) = k" using k by (intro unat_of_nat_small) simp
      moreover have "(of_nat k :: u64) < 12" using k u by (simp add: word_less_nat_alt)
      ultimately have "page_or_new env t ?j (of_nat k) sz = Some (Some (of_nat j, ?j), t)"
        using dk by (simp add: page_or_new_def inode_get_block_def Let_def)
      then have wl: "write_loop env s ino i sz buf (of_nat off) w = write_loop env t ino ?j sz buf (of_nat off) w"
        using t(1) \<open>buf \<noteq> []\<close> by (subst (1 2) write_loop.simps) (simp add: po)
      have old: "direct_blocks ?j ! x = direct_blocks i ! x" if "x < k" for x using that by (simp add: with_block_def)
      have v: "view t (direct_blocks i ! x) = view s (direct_blocks i ! x)" if "x < k" for x
        using keptD(4) [OF t(4) F(4) [OF that] F(7) [OF that]] by simp
      have fb: "file_bytes t ?j 0 off = file_bytes s i 0 off" by (rule small_file_bytes [OF F(1) less.prems(6) old v])
      have "finite (v_free a)" using modelsD(5) [OF S] free_set_finite [of s] by simp
      then have "m1 \<le> card (v_free a - {j})" using less.prems(9) m1 t(2) by simp
      moreover have "b \<in> set (take k (direct_blocks i)) \<or> \<not> used s b" if b: "b \<in> set (take (Suc k) (direct_blocks ?j))" for b
      proof -
        have "take (Suc k) (direct_blocks ?j) = take k (direct_blocks i) @ [of_nat j]"
          using F(2) k by (simp add: with_block_def take_Suc_conv_app_nth)
        then show ?thesis using b t(5) by auto
      qed
      ultimately show ?thesis using wl t(3,4,6) fb off m1 q \<open>buf \<noteq> []\<close>
        by (intro exI [of _ t] exI [of _ ?j] exI [of _ "v_free a - {j}"] exI [of _ q] exI [of _ "Suc k"] exI [of _ m1])
          (auto simp: with_block_def layout)
    qed
    then obtain t j F q k1 m1 where A: "write_loop env s ino i sz buf (of_nat off) w = write_loop env t ino j sz buf (of_nat off) w"
        "models t M r (a\<lparr>v_inode := (v_inode a)(n := j), v_free := F, v_slots := q\<rparr>)" "kept {} s t" "small_file t j k1" "off < k1 * ?B"
        "j = i\<lparr>direct_blocks := direct_blocks j\<rparr>" "file_bytes t j 0 off = file_bytes s i 0 off" "F \<subseteq> v_free a" "v_slots a + m1 \<le> q + m"
        "k1 + m1 = k + m" "m1 \<le> card F" "m1 \<le> q" "k \<le> k1" "k1 = k \<or> (k1 - 1) * ?B < off + length buf"
        "\<And>b. b \<in> set (take k1 (direct_blocks j)) \<Longrightarrow> b \<in> set (take k (direct_blocks i)) \<or> \<not> used s b"
      by blast
    let ?a = "a\<lparr>v_inode := (v_inode a)(n := j), v_free := F, v_slots := q\<rparr>"
    obtain c u where C: "write_loop env t ino j sz buf (of_nat off) w = write_loop env u ino j sz (drop c buf) (of_nat (off + c)) (w + c)"
        "models u M r ?a" "kept (set (take k1 (direct_blocks j))) t u" "small_file u j k1" "0 < c" "c \<le> length buf"
        "off + c \<le> k1 * ?B" "file_bytes u j 0 (off + c) = file_bytes t j 0 off @ take c buf"
      by (rule chunk_step [OF A(2,4,5) False, of env ino sz w])
    have num: "inode_number j = of_nat n" by (subst A(6)) (simp add: less.prems(4))
    have "length (drop c buf) < length buf" "off + c + length (drop c buf) \<le> (k1 + m1) * ?B" "k1 + m1 \<le> 12"
      using C(5,6) less.prems(7,8) A(10) by simp_all
    then obtain s' i' k' F' q' where I: "write_loop env u ino j sz (drop c buf) (of_nat (off + c)) (w + c) =
          Some (False, w + c + length (drop c buf), i', s')"
        "models s' M r (?a\<lparr>v_inode := (v_inode ?a)(n := i'), v_free := F', v_slots := q'\<rparr>)" "kept (set (take k1 (direct_blocks j))) u s'"
        "small_file s' i' k'" "off + c + length (drop c buf) \<le> k' * ?B" "i' = j\<lparr>direct_blocks := direct_blocks i'\<rparr>"
        "file_bytes s' i' 0 (off + c + length (drop c buf)) = file_bytes u j 0 (off + c) @ drop c buf" "F' \<subseteq> v_free ?a" "v_slots ?a \<le> q' + m1" "k1 \<le> k'"
        "k' = k1 \<or> (k' - 1) * ?B < off + c + length (drop c buf)"
      using less.hyps [OF _ C(2) n _ num C(4,7), of "drop c buf" m1 "w + c"] A(11,12) by auto
    have lc: "c + length (drop c buf) = length buf" using C(6) by simp
    have "kept ({} \<union> set (take k1 (direct_blocks j)) \<union> set (take k1 (direct_blocks j))) s s'"
      by (rule kept_trans [OF kept_trans [OF A(3) C(3)] I(3)])
    then have "kept (set (take k (direct_blocks i))) s s'" using A(15) unfolding kept_def moves_def by auto
    moreover have "i' = i\<lparr>direct_blocks := direct_blocks i'\<rparr>" by (subst I(6), subst A(6)) simp
    moreover have eq: "?a\<lparr>v_inode := (v_inode ?a)(n := i'), v_free := F', v_slots := q'\<rparr> = a\<lparr>v_inode := (v_inode a)(n := i'), v_free := F', v_slots := q'\<rparr>" by simp
    moreover have "w + c + length (drop c buf) = w + length buf" "off + c + length (drop c buf) = off + length buf" using lc by simp_all
    moreover have "take c buf @ drop c buf = buf" by simp
    moreover have "k' = k \<or> (k' - 1) * ?B < off + length buf" using A(14) I(11) lc by (metis add.assoc)
    ultimately show ?thesis
      using A(1,7,8,9,13) C(1,8) I(1-10)
      by (intro exI [of _ s'] exI [of _ i'] exI [of _ k'] exI [of _ F'] exI [of _ q']) (simp add: I(2) [unfolded eq])
  qed
qed

section \<open>Writing to a file\<close>

lemma models_file_at:
  assumes S: "models s M r a" and q: "(path_hash c, l) \<in> set (v_names a)" and l: "v_leaf a l = (of_nat n, ty)" "ty \<noteq> FILE_TYPE_DIRECTORY"
    and n: "n < M" "0 < n" and c: "component c" "length (join [c]) < PATH_MAX"
  shows "file_at s [c] n" and "inode_of s n = v_inode a n"
proof -
  show "file_at s [c] n"
    unfolding file_at_def using models_rooted(1) [OF S] sound_inode(1) [OF modelsD(2) [OF S] n(1)] models_resolves [OF S q l] n(2) c l(2)
    by (auto simp del: resolves.simps join.simps)
  show "inode_of s n = v_inode a n" by (rule modelsD(6) [OF S n(1)])
qed

lemma small_file_size [simp]:
  "small_file s (i\<lparr>i_size := x\<rparr>) k = small_file s i k" "file_bytes s (i\<lparr>i_size := x\<rparr>) off m = file_bytes s i off m"
proof -
  have p: "page_at s (i\<lparr>i_size := x\<rparr>) = page_at s i" by (simp add: page_at_def fun_eq_iff)
  show "small_file s (i\<lparr>i_size := x\<rparr>) k = small_file s i k" by (simp add: small_file_def file_ok_def p)
  show "file_bytes s (i\<lparr>i_size := x\<rparr>) off m = file_bytes s i off m" by (simp add: file_bytes_def file_byte_def p)
qed

lemma whole_buffer:
  assumes "length buf < 2 ^ 31"
  shows "take (nat (int_of_u64 (of_nat (length buf)))) buf = buf"
proof -
  have "unat (of_nat (length buf) :: u64) = length buf" using assms by (intro unat_of_nat_small) simp
  then have "int_of_u64 (of_nat (length buf)) = int (length buf)" using int_of_u64_small [of "of_nat (length buf)"] assms by simp
  then show ?thesis by simp
qed

text \<open>
  The contents up to the end of what is written; \<open>written_to\<close> says what the write leaves of the file: the
  old bytes in front of the offset, the new ones behind it, and the inode with the new size and pages.
\<close>

definition written_to :: "fs \<Rightarrow> fs \<Rightarrow> Inode \<Rightarrow> Inode \<Rightarrow> nat \<Rightarrow> nat \<Rightarrow> u8 list \<Rightarrow> bool" where
  "written_to s s' i i' n off buf \<longleftrightarrow> (\<exists>k. n \<le> k \<and> small_file s' i' k \<and> off + length buf \<le> k * USABLE_BLOCK_SIZE \<and>
       (k = n \<or> (k - 1) * USABLE_BLOCK_SIZE < off + length buf)) \<and>
     i' = i\<lparr>direct_blocks := direct_blocks i', i_size := max (i_size i) (of_nat (off + length buf))\<rparr> \<and>
     file_bytes s' i' 0 (off + length buf) = file_bytes s i 0 off @ buf"

lemma write_step:
  assumes S: "models s M r a" and q: "(path_hash c, l) \<in> set (v_names a)" and l: "v_leaf a l = (of_nat n, ty)" "ty \<noteq> FILE_TYPE_DIRECTORY"
    and n: "n < M" "0 < n" and c: "component c" "length (join [c]) < PATH_MAX" and i: "i = v_inode a n" and num: "inode_number i = of_nat n"
    and f: "small_file s i k" and off: "off \<le> k * USABLE_BLOCK_SIZE" and len: "off + length buf \<le> (k + m) * USABLE_BLOCK_SIZE"
    and m: "k + m \<le> 12" "m \<le> card (v_free a)" "m \<le> v_slots a"
  obtains s' i' F y where "nbtrfs_write env s (join [c]) buf (of_nat off) = Some (int (length buf), s')"
    and "models s' M r (a\<lparr>v_inode := (v_inode a)(n := i'), v_free := F, v_slots := y\<rparr>)" and "kept (set (take k (direct_blocks i))) s s'"
    and "written_to s s' i i' k off buf" and "F \<subseteq> v_free a" and "v_slots a \<le> y + m"
proof -
  note FA = models_file_at [OF S q l n c]
  note io = sound_inode(1) [OF modelsD(2) [OF S] n(1)]
  obtain s1 where s1: "item_search s (join [c]) = Some (\<lparr>ip_inode = of_nat n, ip_btree = 0\<rparr>, s1)" "st.silent s s1"
    by (rule file_at_search [OF FA(1)])
  note I1 = inode_silent [OF s1(2)]
  obtain s2 where s2: "inode_read s1 (of_nat n) = Some (Some i, s2)" "st.silent s1 s2"
    using inode_read_ok [OF I1(6) [OF io]] I1(5) FA(2) i by metis
  note S2 = st.silent_trans [OF s1(2) s2(2)]
  note m2 = models_silent [OF S S2 S2]
  note f2 = small_file_kept [OF f m2(2)]
  have "(k + m) * USABLE_BLOCK_SIZE \<le> 12 * USABLE_BLOCK_SIZE" using m(1) by (rule mult_le_mono1)
  then have small: "off + length buf < 2 ^ 31" using len by (simp add: layout)
  have bound: "off + length buf < 2 ^ 64" using small by simp
  obtain s3 i3 k3 F y where L: "write_loop env s2 (of_nat n) i (of_nat (length buf)) buf (of_nat off) 0 = Some (False, 0 + length buf, i3, s3)"
      "models s3 M r (a\<lparr>v_inode := (v_inode a)(n := i3), v_free := F, v_slots := y\<rparr>)" "kept (set (take k (direct_blocks i))) s2 s3"
      "small_file s3 i3 k3" "off + length buf \<le> k3 * USABLE_BLOCK_SIZE" "i3 = i\<lparr>direct_blocks := direct_blocks i3\<rparr>"
      "file_bytes s3 i3 0 (off + length buf) = file_bytes s2 i 0 off @ buf" "F \<subseteq> v_free a" "v_slots a \<le> y + m" "k \<le> k3"
      "k3 = k \<or> (k3 - 1) * USABLE_BLOCK_SIZE < off + length buf"
    using extend_loop [OF m2(1) n(1) i num f2(1) off len m, of env "of_nat n" "of_nat (length buf)" 0] by blast
  let ?a3 = "a\<lparr>v_inode := (v_inode a)(n := i3), v_free := F, v_slots := y\<rparr>"
  note fb = L(7) [unfolded f2(2) [OF off]]
  have k3: "kept (set (take k (direct_blocks i))) s s3" using kept_trans [OF m2(2) L(3)] by simp
  have num3: "inode_number i3 = of_nat n" and sz3: "i_size i3 = i_size i" using num by (subst L(6), simp)+
  have len3: "length (direct_blocks i3) = 12" using small_fileD(2) [OF L(4)] .
  have e: "c_off (sint (of_nat off :: u64) + int (length buf)) = Some (of_nat off + of_nat (length buf))"
    using c_off_add [of off "length buf"] small by simp
  have base: "nbtrfs_write env s (join [c]) buf (of_nat off) =
      (if i_size i < of_nat (off + length buf)
       then do { (_, s) \<leftarrow> inode_write s3 (i3\<lparr>i_size := of_nat (off + length buf)\<rparr>) False; Some (int (length buf), s) }
       else Some (int (length buf), s3))"
    unfolding nbtrfs_write_def using s1(1) s2(1) L(1) ino_nonzero [OF io n(2)] whole_buffer [of buf] small sz3 e by (simp add: Let_def)
  let ?i = "i3\<lparr>i_size := max (i_size i) (of_nat (off + length buf))\<rparr>"
  have shape: "?i = i\<lparr>direct_blocks := direct_blocks ?i, i_size := max (i_size i) (of_nat (off + length buf))\<rparr>" by (subst L(6)) simp
  have wt: "written_to s t i ?i k off buf" if "small_file t i3 k3" "file_bytes t i3 0 (off + length buf) = file_bytes s i 0 off @ buf" for t
    unfolding written_to_def by (intro conjI exI [of _ k3] shape) (use that L(5,10,11) in simp_all)
  show thesis
  proof (cases "i_size i < of_nat (off + length buf)")
    case True
    then have mx: "?i = i3\<lparr>i_size := of_nat (off + length buf)\<rparr>" by (simp add: max_def)
    obtain s4 where s4: "inode_write s3 ?i False = Some (0, s4)" "models s4 M r (?a3\<lparr>v_inode := (v_inode ?a3)(n := ?i)\<rparr>)" "kept {} s3 s4"
      by (rule inode_write_step [OF L(2) n(1), of ?i False]) (use num3 len3 that in simp_all)
    have eq: "?a3\<lparr>v_inode := (v_inode ?a3)(n := ?i)\<rparr> = a\<lparr>v_inode := (v_inode a)(n := ?i), v_free := F, v_slots := y\<rparr>" by simp
    note f4 = small_file_kept [OF L(4) s4(3)]
    show thesis
      by (rule that [OF _ s4(2) [unfolded eq] _ wt L(8,9)])
        (use base True s4(1) mx kept_trans [OF k3 s4(3)] f4(1) f4(2) [OF L(5)] fb in simp_all)
  next
    case False
    then have "?i = i3" using sz3 by (simp add: max_def)
    with base False L(2,4,8,9) k3 fb wt [of s3] show thesis by (intro that [of s3 y F i3]) simp_all
  qed
qed

section \<open>Writing to a path that does not exist\<close>

lemma can_make_silent:
  assumes "can_make s M r a c md n es" and "st.silent s s'"
  shows "can_make s' M r a c md n es" and "extra s' r = extra s r" and "first_block s' r = first_block s r"
proof -
  have S: "models s M r a" using assms(1) by (simp add: can_make_def)
  note m = models_silent [OF S assms(2,2)] and I = inode_silent(5) [OF assms(2)]
  show "extra s' r = extra s r" "first_block s' r = first_block s r" by (simp_all add: extra_def I)
  then show "can_make s' M r a c md n es" using assms(1) m(1) room_kept [OF m(2), of r es] by (simp add: can_make_def I)
qed

lemma models_missing:
  assumes S: "models s M r a" and new: "path_hash c \<notin> fst ` set (v_names a)"
  shows "dir_entry s (btree_root (sb_of s)) c None"
proof -
  note f = modelsD(8) [OF S]
  show ?thesis
  proof (cases "v_names a = []")
    case True
    have "empty_dir s (btree_root (sb_of s))"
      using f True by (simp add: flat_at_def root_at_def empty_dir_def unat_eq_0)
    then show ?thesis by (simp add: dir_entry_def)
  next
    case False
    note T = flat_tree_at [OF f]
    have "map_of (v_names a) (path_hash c) = None" using new by (simp add: map_of_eq_None_iff)
    with T False show ?thesis unfolding dir_entry_def by metis
  qed
qed

lemma create_write_step:
  fixes md :: u32
  defines "md \<equiv> S_IFREG OR 0x1A4"
  assumes G: "can_make s M r a c md n es" and n0: "0 < n" and len: "length (join [c]) < PATH_MAX"
    and blank: "direct_blocks (v_inode a n) = replicate 12 0" "i_size (v_inode a n) = 0"
    and buf: "length buf \<le> m * USABLE_BLOCK_SIZE" "m \<le> 12" and fr: "extra s r + 1 + m \<le> card (v_free a)" and sl: "extra s r + 1 + m \<le> v_slots a"
  obtains s' b i' l where "nbtrfs_write env s (join [c]) buf 0 = Some (int (length buf), s')" and "models s' M r b"
    and "v_names b = with_leaf (v_names a) (path_hash c) l" and "file_at s' [c] n" and "inode_of s' n = i'"
    and "mode i' = md" and "i_size i' = of_nat (length buf)" and "owner_id i' = e_uid env"
    and "\<exists>k. file_ok s' i' k \<and> length buf \<le> k * USABLE_BLOCK_SIZE" and "file_bytes s' i' 0 (length buf) = buf"
    and "kept {first_block s r} s s'" and "lists_new s' r es c n" and "\<exists>d. inode_of s' r = with_block 0 d (inode_of s r)"
proof -
  have S: "models s M r a" and n: "n < M" and new: "path_hash c \<notin> fst ` set (v_names a)" and c: "component c" and rn: "r \<noteq> n"
    using G by (auto simp: can_make_def)
  have "resolves s (root_node s) [] (root_node s)" by simp
  then obtain s1 where s1: "item_search s (join [c]) = Some (no_pair, s1)" "st.silent s s1"
    using item_search_missing [OF models_rooted(1) [OF S], of "[]" "root_node s" c "[]"] models_missing [OF S new] models_rooted(2) [OF S] c len by auto
  note G1 = can_make_silent [OF G s1(2)]
  obtain k where k: "v_slots a = extra s1 r + Suc k" "m \<le> k" using sl G1(2) that [of "v_slots a - extra s1 r - 1"] by simp
  obtain s2 now d l F jb where s2: "nbtrfs_mknod env s1 (join [c]) md = Some (0, s2)" "models s2 M r (made env c md r n now d l F k a)"
      "F \<subseteq> v_free a" "card F + extra s1 r + 1 = card (v_free a)" "kept {first_block s1 r} s1 s2" "lists_new s2 r es c n" "journal_says_made s2 jb (join [c]) md n"
    by (rule nbtrfs_mknod_step [OF G1(1) k(1) len, of env])
  let ?a = "made env c md r n now d l F k a"
  let ?i = "v_inode ?a n"
  have i: "?i = made_inode env md n now (v_inode a n)" using rn by (simp add: made_def)
  have A: "v_names ?a = with_leaf (v_names a) (path_hash c) l" "v_leaf ?a l = (of_nat n, md AND S_IFMT)" "v_free ?a = F" "v_slots ?a = k"
    by (simp_all add: made_def)
  have ty: "md AND S_IFMT \<noteq> FILE_TYPE_DIRECTORY" using G by (simp add: can_make_def)
  have q: "(path_hash c, l) \<in> set (v_names ?a)" by (simp add: A(1))
  have num: "inode_number ?i = of_nat n" and I: "direct_blocks ?i = replicate 12 0" "i_size ?i = 0" "mode ?i = md" "owner_id ?i = e_uid env"
    using blank by (simp_all add: i made_inode_def fresh_inode_def)
  have sf: "small_file s2 ?i 0" using I(1) modelsD(3) [OF s2(2)] by (simp add: small_file_def file_ok_def)
  have m: "m \<le> card (v_free ?a)" "m \<le> v_slots ?a" using fr s2(4) G1(2) k(2) A by simp_all
  obtain s' i' F' y where w: "nbtrfs_write env s2 (join [c]) buf (of_nat 0) = Some (int (length buf), s')"
      "models s' M r (?a\<lparr>v_inode := (v_inode ?a)(n := i'), v_free := F', v_slots := y\<rparr>)" "kept (set (take 0 (direct_blocks ?i))) s2 s'"
      "written_to s2 s' ?i i' 0 0 buf"
    by (rule write_step [OF s2(2) q A(2) ty n n0 c len refl num sf _ _ _ m, of 0 buf env]) (use buf in simp_all)
  let ?b = "?a\<lparr>v_inode := (v_inode ?a)(n := i'), v_free := F', v_slots := y\<rparr>"
  obtain s3 where s3: "item_search s2 (join [c]) = Some (\<lparr>ip_inode = of_nat n, ip_btree = 0\<rparr>, s3)"
    by (rule file_at_search [OF models_file_at(1) [OF s2(2) q A(2) ty n n0 c len]])
  have nz: "(of_nat n :: u64) \<noteq> 0" by (rule ino_nonzero [OF sound_inode(1) [OF modelsD(2) [OF S] n] n0])
  have "nbtrfs_write env s (join [c]) buf 0 = nbtrfs_write env s2 (join [c]) buf 0"
    unfolding nbtrfs_write_def using s1(1) s2(1) s3 nz by (simp add: no_pair_def md_def)
  then have run: "nbtrfs_write env s (join [c]) buf 0 = Some (int (length buf), s')" using w(1) by simp
  have Q: "v_names ?b = with_leaf (v_names a) (path_hash c) l" "(path_hash c, l) \<in> set (v_names ?b)" "v_leaf ?b l = (of_nat n, md AND S_IFMT)"
    using A q by simp_all
  note FA = models_file_at [OF w(2) Q(2,3) ty n n0 c len]
  have W: "i' = ?i\<lparr>direct_blocks := direct_blocks i', i_size := max (i_size ?i) (of_nat (0 + length buf))\<rparr>"
      "file_bytes s' i' 0 (0 + length buf) = file_bytes s2 ?i 0 0 @ buf" "\<exists>k. file_ok s' i' k \<and> length buf \<le> k * USABLE_BLOCK_SIZE"
    using w(4) small_fileD(3) by (auto simp: written_to_def)
  have fields: "mode i' = md" "i_size i' = of_nat (length buf)" "owner_id i' = e_uid env"
    using I by (subst W(1), simp)+
  note m1 = models_silent [OF S s1(2,2)]
  have w3: "kept {} s2 s'" using w(3) by simp
  have kp: "kept {first_block s r} s s'" using kept_trans [OF kept_trans [OF m1(2) s2(5)] w3] G1(3) by simp
  have fb: "first_block s' r = first_block s2 r" using modelsD(6) [OF w(2) modelsD(9) [OF S]] modelsD(6) [OF s2(2) modelsD(9) [OF S]] rn by simp
  have "inode_of s' r = with_block 0 d (inode_of s r)"
    using modelsD(6) [OF w(2) modelsD(9) [OF S]] modelsD(6) [OF S modelsD(9) [OF S]] rn by (simp add: made_def)
  then have rt: "\<exists>d. inode_of s' r = with_block 0 d (inode_of s r)" ..
  show thesis
    by (rule that [OF run w(2) Q(1) FA(1) _ fields W(3) _ kp lists_new_kept [OF w3 fb s2(6)] rt])
      (use FA(2) W(2) in \<open>simp_all add: file_bytes_def\<close>)
qed

end
