(* ===== verification/Cache_Init.thy ===== *)
theory Cache_Init
  imports Sync
begin

text \<open>
  The cache \<open>alloc_cache\<close> builds: its size for a given amount of memory, and that it satisfies the
  invariant with every slot free, so that a freshly mounted disk of up to 16384 blocks meets the
  contract of the block store.
\<close>

section \<open>Size\<close>

lemma int_of_u64_le: "int_of_u64 x \<le> int (unat x)"
proof -
  have "sint (ucast x :: 32 word) \<le> take_bit 32 (uint (ucast x :: 32 word))"
    by (simp add: sint_uint signed_take_bit_eq_take_bit_minus)
  also have "\<dots> = take_bit 32 (uint x)" by (simp add: unsigned_ucast_eq)
  also have "\<dots> \<le> uint x" by (simp add: take_bit_int_less_eq_self_iff)
  finally show ?thesis by (simp add: int_of_u64_def)
qed

text \<open>Memory of less than \<open>2 ^ 61\<close> bytes is the same number as \<^verbatim>\<open>unsigned long\<close> and as \<^verbatim>\<open>int64_t\<close>.\<close>

lemma alloc_cache_size_unsigned:
  assumes "unat m < 2 ^ 61"
  defines "g \<equiv> int_of_u64 (m div (1024 * 1024 * 1024))"
  shows "unat (alloc_cache_size m) =
    (if g < 2 then 16384 else if g > 2 \<and> g \<le> 16 then unat m div 2 ^ 15 else min (2 ^ 21) (unat m div 2 ^ 15))"
proof -
  have "sint m = int (unat m)" using sint_of_nat_small [of "unat m"] assms(1) by simp
  moreover have "unat m div 32768 < 2 ^ 64" using assms(1) by simp
  moreover have "int (unat m) = int (unat m)" "(8 * 4096 :: int) = int 32768" by simp_all
  ultimately have q: "c_div (sint m) (8 * 4096) = int (unat m div 32768)" and s: "unat (of_nat (unat m div 32768) :: u64) = unat m div 32768"
    by (simp_all only: c_div_nat unat_of_nat_small)
  have "min (2 * 1024 * 1024) (int (unat m div 32768)) = int (min 2097152 (unat m div 32768))" by (simp add: of_nat_min)
  moreover have "unat (of_nat (min 2097152 (unat m div 32768)) :: u64) = min 2097152 (unat m div 32768)" by (intro unat_of_nat_small) simp
  ultimately show ?thesis using q s unfolding alloc_cache_size_def g_def Let_def by simp
qed

lemma alloc_cache_size_lower:
  assumes "unat m < 2 ^ 61"
  shows "16384 \<le> unat (alloc_cache_size m)"
proof -
  define g where "g = int_of_u64 (m div (1024 * 1024 * 1024))"
  have d: "unat (m div (1024 * 1024 * 1024)) = unat m div 2 ^ 30" by (simp add: unat_div)
  have "2 ^ 16 \<le> unat m div 2 ^ 15" if "2 \<le> g"
  proof -
    have "g \<le> int (unat m div 2 ^ 30)"
      using int_of_u64_le [of "m div (1024 * 1024 * 1024)"] by (simp only: d g_def)
    then have "2 \<le> unat m div 2 ^ 30" using that by linarith
    then show ?thesis by (simp add: less_eq_div_iff_mult_less_eq)
  qed
  then show ?thesis unfolding alloc_cache_size_unsigned [OF assms] g_def by auto
qed

lemma alloc_cache_size_upper:
  assumes "unat m < 2 ^ 61"
  shows "unat (alloc_cache_size m) \<le> 2 ^ 21"
proof -
  define g where "g = int_of_u64 (m div (1024 * 1024 * 1024))"
  have d: "unat (m div (1024 * 1024 * 1024)) = unat m div 2 ^ 30" by (simp add: unat_div)
  have "unat m div 2 ^ 30 < 2 ^ 31" using assms by simp
  then have g: "g = int (unat m div 2 ^ 30)"
    using int_of_u64_small [of "m div (1024 * 1024 * 1024)"] by (simp only: d g_def)
  have "unat m div 2 ^ 15 \<le> 2 ^ 21" if "g \<le> 16"
  proof -
    have "unat m div 2 ^ 30 < 17" using g that by linarith
    then have "unat m < 17 * 2 ^ 30" by (simp add: div_less_iff_less_mult)
    then have "unat m div 2 ^ 15 < 17 * 2 ^ 15" by (simp add: div_less_iff_less_mult)
    then show ?thesis by simp
  qed
  then show ?thesis unfolding alloc_cache_size_unsigned [OF assms] g_def by auto
qed

section \<open>The initial state\<close>

lemma new_cache_free: "free_list (new_cache n) = map int (rev [0..<n])"
proof -
  have "fold (\<lambda>i fl. fl_push fl (int i)) xs fl = map int (rev xs) @ fl" for xs fl
    by (induction xs arbitrary: fl) (simp_all add: fl_push_def)
  then show ?thesis by (simp add: new_cache_def)
qed

lemma new_cache_unused: "\<not> in_use (new_cache n) i"
  by (auto simp: in_use_def new_cache_free) (simp add: new_cache_def)

lemma new_cache_inv:
  assumes "n < 2 ^ 31"
  shows "cinv (new_cache n) [] []"
proof -
  have "cache_size (new_cache n) = n" "length (entries (new_cache n)) = n" "pci (new_cache n) = replicate HASHMAP_SIZE []"
      "pages (new_cache n) = Map.empty"
    by (simp_all add: new_cache_def)
  moreover have "lru_ring (new_cache n) []" "gdl_ring (new_cache n) []"
    by (simp_all add: new_cache_def lru_ring_def gdl_ring_def ring_list_def ring_def)
  moreover have "distinct (free_list (new_cache n))" "\<forall>i \<in> set (free_list (new_cache n)). 0 \<le> i \<and> nat i < n"
    by (auto simp: new_cache_free distinct_map)
  ultimately show ?thesis
    using assms by (simp add: cinv_def new_cache_unused pci_wf_empty)
qed

text \<open>A disk opened with a new cache, or with the cache compiled out.\<close>

definition mounted :: "DiskInterface \<Rightarrow> cache \<Rightarrow> fs" where
  "mounted d c = \<lparr>cache_disabled = False, disk = d, cache_s = c, lock_held = False\<rparr>"

definition mapped :: "DiskInterface \<Rightarrow> fs" where
  "mapped d = \<lparr>cache_disabled = True, disk = d, cache_s = new_cache 0, lock_held = False\<rparr>"

lemma mounted_ok:
  assumes "unat (total_blocks d) \<le> n" and "n < 2 ^ 31" and "unat (total_blocks d) \<le> 2 ^ 19"
  shows "store_ok (mounted d (new_cache n))" and "coherent (mounted d (new_cache n))"
    and "view (mounted d (new_cache n)) b = disk_base d (unat b)"
proof -
  have p: "pci (new_cache n) = replicate HASHMAP_SIZE []" by (simp add: new_cache_def)
  have "page_data (entries (new_cache n) ! nat x) = None" if "x \<in> set (free_list (new_cache n))" for x
    using cinvD(7) [OF new_cache_inv [OF assms(2)] that] by (simp add: new_cache_def new_entry_def)
  then have "tidy (new_cache n)" "cache_size (new_cache n) = n" by (simp_all add: tidy_def) (simp add: new_cache_def)
  then show "store_ok (mounted d (new_cache n))"
    using assms new_cache_inv [OF assms(2)] by (auto simp: store_ok_def mounted_def addressable_def nblocks_def cache_inv_def p)
  show "coherent (mounted d (new_cache n))" "view (mounted d (new_cache n)) b = disk_base d (unat b)"
    by (simp_all add: coherent_def mounted_def p view_def disk_image_def)
qed

lemma mapped_ok:
  assumes "unat (total_blocks d) \<le> 2 ^ 19"
  shows "store_ok (mapped d)" and "coherent (mapped d)" and "view (mapped d) b = disk_base d (unat b)"
  using assms by (simp_all add: store_ok_def mapped_def addressable_def nblocks_def coherent_def view_def disk_image_def)

end
