(* ===== verification/Formatted.thy ===== *)
theory Formatted
  imports Format Journal_Ring Cache_Init
begin

text \<open>
  What \<open>disk_format\<close> makes of a new image: a volume with an empty root directory, an empty journal
  and a block bitmap in which exactly the blocks it laid out are in use. The geometry is computed
  from the number of blocks \<open>n\<close> of the image.
\<close>

section \<open>Geometry\<close>

definition bitmap_blocks :: "nat \<Rightarrow> nat" where "bitmap_blocks n = (n + 4091) div 4092"
definition table_start :: "nat \<Rightarrow> nat" where "table_start n = 1 + bitmap_blocks n + (n + 16367) div 16368"
definition journal_at :: "nat \<Rightarrow> nat" where "journal_at n = table_start n + n div 88"
definition root_at_block :: "nat \<Rightarrow> nat" where "root_at_block n = journal_at n + n div 100"

lemma geometry_bounds:
  assumes "200 \<le> n"
  shows "0 < bitmap_blocks n" and "1 + bitmap_blocks n < table_start n" and "table_start n < journal_at n"
    and "journal_at n + 2 \<le> root_at_block n" and "root_at_block n < n"
proof -
  have "4092 * bitmap_blocks n \<le> n + 4091" "16368 * ((n + 16367) div 16368) \<le> n + 16367" "88 * (n div 88) \<le> n" "100 * (n div 100) \<le> n"
    by (simp_all add: bitmap_blocks_def)
  moreover have "root_at_block n = 1 + bitmap_blocks n + (n + 16367) div 16368 + n div 88 + n div 100"
    by (simp add: root_at_block_def journal_at_def table_start_def)
  ultimately show "root_at_block n < n" using assms by linarith
  have "1 \<le> (n + 16367) div 16368" "1 \<le> (n + 4091) div 4092" "1 \<le> n div 88" "2 \<le> n div 100"
    using assms div_le_mono [of 16368 "n + 16367" 16368] div_le_mono [of 4092 "n + 4091" 4092]
      div_le_mono [of 88 n 88] div_le_mono [of 200 n 100] by simp_all
  then show "0 < bitmap_blocks n" "1 + bitmap_blocks n < table_start n" "table_start n < journal_at n" "journal_at n + 2 \<le> root_at_block n"
    by (simp_all add: bitmap_blocks_def table_start_def journal_at_def root_at_block_def)
qed

lemma bitmap_block_bound: "i < n \<Longrightarrow> 1 + i div USABLE_BLOCK_SIZE \<le> bitmap_blocks n"
proof -
  assume "i < n"
  then have "(i + 4092) div 4092 \<le> (n + 4091) div 4092" by (intro div_le_mono) simp
  then show ?thesis by (simp add: bitmap_blocks_def layout)
qed

text \<open>The sizes the code computes in words are those of the geometry.\<close>

definition laid_out :: "Superblock \<Rightarrow> nat \<Rightarrow> bool" where
  "laid_out sb n \<longleftrightarrow> unat (sb_total_blocks sb) = n \<and> unat (inode_bitmap sb) = 1 + bitmap_blocks n"

lemma ceil_word:
  assumes "unat n \<le> 2 ^ 19" and "0 < k" and "k < 2 ^ 31"
  shows "int_of_u64 (if n mod of_nat k \<noteq> 0 then n div of_nat k + 1 else n div of_nat k) = int ((unat n + (k - 1)) div k)"
proof -
  have k: "unat (of_nat k :: u64) = k" using assms(3) by (intro unat_of_nat_small) simp
  have z: "n mod of_nat k \<noteq> 0 \<longleftrightarrow> unat n mod k \<noteq> 0" by (simp add: word_unat_eq_iff unat_mod k)
  have d: "unat (n div of_nat k) = unat n div k" by (simp add: unat_div k)
  have le: "unat n div k \<le> 2 ^ 19" using assms(1) div_le_dividend [of "unat n" k] by linarith
  then have s: "unat (n div of_nat k + 1) = unat n div k + 1" by (simp add: unat_word_ariths(1) d)
  let ?q = "if n mod of_nat k \<noteq> 0 then n div of_nat k + 1 else n div of_nat k"
  have u: "unat ?q = (unat n + (k - 1)) div k"
    unfolding ceil_div [OF assms(2), symmetric] using s d z by (simp only: if_distrib [of unat] z split: if_split)
  have "unat ?q < 2 ^ 31" using s d le by (simp only: if_distrib [of unat] split: if_split) simp
  then show ?thesis using int_of_u64_small [of ?q] u by simp
qed

lemma laid_out_sizes:
  assumes "laid_out sb n" and "n \<le> 2 ^ 19"
  shows "calculate_inode_bitmap_size sb = int ((n + 16367) div 16368)" and "calculate_inode_table_size sb = int (n div 88)"
    and "calculate_journal_size sb = int (n div 100)"
proof -
  have n: "unat (sb_total_blocks sb) = n" using assms(1) by (simp add: laid_out_def)
  show "calculate_inode_bitmap_size sb = int ((n + 16367) div 16368)"
    using ceil_word [of "sb_total_blocks sb" 16368] n assms(2) by (simp add: calculate_inode_bitmap_size_def layout Let_def split: if_splits)
  have "unat (sb_total_blocks sb div 4 div 22) = n div 88" by (simp add: unat_div n div_mult2_eq [symmetric])
  moreover have "n div 88 < 2 ^ 31" using assms(2) div_le_dividend [of n 88] by simp
  ultimately show "calculate_inode_table_size sb = int (n div 88)"
    using int_of_u64_small [of "sb_total_blocks sb div 4 div 22"] by (simp add: calculate_inode_table_size_def layout)
  have "unat (sb_total_blocks sb div 100) = n div 100" by (simp add: unat_div n)
  moreover have "n div 100 < 2 ^ 31" using assms(2) div_le_dividend [of n 100] by simp
  ultimately show "calculate_journal_size sb = int (n div 100)"
    using int_of_u64_small [of "sb_total_blocks sb div 100"] by (simp add: calculate_journal_size_def)
qed

lemma laid_out_starts:
  assumes "laid_out sb n" and "200 \<le> n" and "n \<le> 2 ^ 19"
  shows "unat (inode_table sb) = table_start n"
    and "unat (inode_table sb + word_of_int (calculate_inode_table_size sb)) = journal_at n"
    and "unat (inode_table sb + word_of_int (calculate_inode_table_size sb) + word_of_int (calculate_journal_size sb)) = root_at_block n"
proof -
  note S = laid_out_sizes [OF assms(1,3)] and G = geometry_bounds [OF assms(2)]
  have "inode_bitmap sb = of_nat (unat (inode_bitmap sb))" by simp
  then have ib: "inode_bitmap sb = of_nat (1 + bitmap_blocks n)" using assms(1) unfolding laid_out_def by metis
  have "inode_table sb = of_nat (table_start n)" by (simp add: inode_table_def S ib table_start_def)
  moreover from this have "inode_table sb + word_of_int (calculate_inode_table_size sb) = of_nat (journal_at n)"
    by (simp add: S journal_at_def)
  moreover from this have "inode_table sb + word_of_int (calculate_inode_table_size sb) + word_of_int (calculate_journal_size sb) =
      of_nat (root_at_block n)" by (simp add: S root_at_block_def)
  moreover have "root_at_block n < 2 ^ 64" "table_start n < 2 ^ 64" "journal_at n < 2 ^ 64" using G assms(3) by simp_all
  ultimately show "unat (inode_table sb) = table_start n"
    "unat (inode_table sb + word_of_int (calculate_inode_table_size sb)) = journal_at n"
    "unat (inode_table sb + word_of_int (calculate_inode_table_size sb) + word_of_int (calculate_journal_size sb)) = root_at_block n"
    by (metis unat_of_nat_small)+
qed

section \<open>Tagging\<close>

lemma modify_changes:
  assumes "store_ok s" and "points s p b" and "f (view s b) = Some x"
  obtains s' where "modify s p f = Some s'" and "st.changes s s' b x"
  using st.store_changes [OF assms(1,2), of x] st.load_view [OF assms(1,2)] assms(3) that by (auto simp: modify_def)

lemma tag_blocks_ok:
  assumes "store_ok s" and "i \<le> j" and "j \<le> nblocks s"
  shows "\<exists>s'. tag_blocks i j f s = Some s' \<and> st.keeps s s' \<and>
    view s' = (\<lambda>b. if i \<le> unat b \<and> unat b < j then f (view s b) else view s b)"
  using assms unfolding tag_blocks_def
proof (induction "j - i" arbitrary: i s)
  case 0
  then have "j = i" by simp
  with 0 show ?case using st.silentD(1) [OF st.silent_refl [of s]] by (auto simp: fun_eq_iff)
next
  case (Suc k)
  let ?b = "of_nat i :: u64"
  have "nblocks s \<le> 2 ^ 19" using Suc.prems(1) by (simp add: store_ok_def addressable_def)
  then have u: "unat ?b = i" using Suc by (intro unat_of_nat_small) simp
  then have "unat ?b < nblocks s" using Suc by simp
  then obtain p s1 where g: "get_block s 0 ?b = Some (p, s1)" "st.silent s s1" "points s1 p ?b"
    using st.get_silent [OF Suc.prems(1), of ?b 0] by auto
  note k1 = st.keepsD [OF st.silentD(1) [OF g(2)]]
  obtain s2 where m: "modify s1 p (\<lambda>b. Some (f b)) = Some s2" "st.changes s1 s2 ?b (f (view s ?b))"
    by (rule modify_changes [OF k1(1) g(3), of "\<lambda>b. Some (f b)"]) (use st.silentD(2) [OF g(2)] in auto)
  note C = st.silent_changes [OF g(2) m(2)]
  note k2 = st.keepsD [OF st.changesD(1) [OF C]] and v2 = st.changesD(2) [OF C]
  have r: "k = j - Suc i" "Suc i \<le> j" "j \<le> nblocks s2" using Suc k2 by simp_all
  obtain s3 where s3: "for_range (j - Suc i) (Suc i) (\<lambda>k s. do {
       (p, s) \<leftarrow> get_block s 0 (of_nat k);
       modify s p (\<lambda>b. Some (f b)) }) s2 = Some s3" "st.keeps s2 s3"
      "view s3 = (\<lambda>b. if Suc i \<le> unat b \<and> unat b < j then f (view s2 b) else view s2 b)"
    using Suc.hyps(1) [OF r(1) k2(1) r(2,3)] by blast
  have ji: "j - i = Suc (j - Suc i)" using Suc by simp
  have "view s3 = (\<lambda>b. if i \<le> unat b \<and> unat b < j then f (view s b) else view s b)"
  proof
    fix b
    show "view s3 b = (if i \<le> unat b \<and> unat b < j then f (view s b) else view s b)"
    proof (cases "b = ?b")
      case True
      then show ?thesis using u r(2) by (simp add: s3(3) v2)
    next
      case False
      then have "unat b \<noteq> i" by auto
      then show ?thesis using False by (auto simp: s3(3) v2)
    qed
  qed
  with s3 g m show ?case unfolding ji using st.keeps_trans [OF st.changesD(1) [OF C] s3(2)] by (intro exI [of _ s3]) simp
qed

section \<open>Allocating one block after the other\<close>

definition filled :: "fs \<Rightarrow> nat \<Rightarrow> bool" where
  "filled s m \<longleftrightarrow> volume_ok s \<and> (\<forall>j < nblocks s. block_used s j = (j < m))"

definition grown :: "fs \<Rightarrow> fs \<Rightarrow> nat \<Rightarrow> bool" where
  "grown s s' k \<longleftrightarrow> st.keeps s s' \<and> sb_of s' = (sb_of s)\<lparr>free_blocks := free_blocks (sb_of s) - of_nat k\<rparr> \<and>
     (\<forall>b. bitmap_blocks (nblocks s) < unat b \<longrightarrow> view s' b = view s b)"

lemma grown_trans: "grown s t k \<Longrightarrow> grown t u l \<Longrightarrow> grown s u (k + l)"
  using st.keepsD(2) [of s t] by (auto simp: grown_def algebra_simps intro: st.keeps_trans)

lemma filled_first_free:
  assumes "filled s m" and "m < nblocks s"
  shows "first_free s = Some m"
proof -
  have "[0..<nblocks s] ! m = m" "\<forall>j < m. block_used s ([0..<nblocks s] ! j)" "\<not> block_used s m"
    using assms by (simp_all add: filled_def)
  then show ?thesis using assms(2) unfolding first_free_def find_Some_iff by (intro exI [of _ m]) simp
qed

lemma alloc_page_next:
  assumes "filled s m" and "m < nblocks s"
  obtains s' where "alloc_page s = Some (of_nat m, s')" and "filled s' (Suc m)" and "grown s s' 1"
proof -
  have vo: "volume_ok s" using assms(1) by (simp add: filled_def)
  obtain s' where a: "alloc_page s = Some (of_nat m, s')" and k: "marked s s' m True"
    using alloc_page_ok [OF vo] filled_first_free [OF assms] by auto
  have "unat (bitmap_block m) \<le> bitmap_blocks (nblocks s)"
    using unat_bitmap_block(1) [OF vo assms(2)] bitmap_block_bound [OF assms(2)] by simp
  then have "b \<noteq> 0 \<and> b \<noteq> bitmap_block m" if "bitmap_blocks (nblocks s) < unat b" for b using that by auto
  then have "grown s s' 1" using k by (simp add: grown_def marked_def)
  moreover have "filled s' (Suc m)" using k assms st.keepsD(2) [of s s'] by (auto simp: filled_def marked_def)
  ultimately show thesis using a by (intro that)
qed

lemma alloc_pages_next:
  assumes "filled s m" and "0 < m" and "m + k \<le> nblocks s"
  shows "\<exists>s'. alloc_pages k s = Some (False, s') \<and> filled s' (m + k) \<and> grown s s' k"
  using assms
proof (induction k arbitrary: s m)
  case 0
  have "store_ok s" using 0 by (simp add: filled_def volume_ok_def)
  then show ?case using 0 st.silentD(1) [OF st.silent_refl] by (simp add: grown_def)
next
  case (Suc k)
  obtain s1 where s1: "alloc_page s = Some (of_nat m, s1)" "filled s1 (Suc m)" "grown s s1 1"
    by (rule alloc_page_next [OF Suc.prems(1)]) (use Suc.prems in auto)
  have n1: "nblocks s1 = nblocks s" using s1(3) st.keepsD(2) by (auto simp: grown_def)
  obtain s2 where s2: "alloc_pages k s1 = Some (False, s2)" "filled s2 (Suc m + k)" "grown s1 s2 k"
    using Suc.IH [OF s1(2)] Suc.prems n1 by auto
  have "nblocks s \<le> 2 ^ 19" using Suc.prems(1) by (simp add: filled_def volume_ok_def store_ok_def addressable_def)
  then have "unat (of_nat m :: u64) = m" using Suc.prems by (intro unat_of_nat_small) simp
  then have "(of_nat m :: u64) \<noteq> 0" using Suc.prems(2) by (metis less_irrefl unat_0)
  with s1(1) s2 grown_trans [OF s1(3) s2(3)] show ?case by simp
qed

section \<open>The layout of a new volume\<close>

text \<open>What the tagging leaves in block \<open>b > 0\<close> of an image of zeros.\<close>

definition tagged :: "nat \<Rightarrow> u64 \<Rightarrow> block" where
  "tagged n b =
     (if unat b < table_start n then set_btype BLOCK_TYPE_BITMAP zero_block
      else if unat b < journal_at n then set_btype BLOCK_TYPE_INODE zero_block
      else if unat b < root_at_block n then set_je_type UNINITIALIZED (set_btype BLOCK_TYPE_JOURNAL zero_block)
      else zero_block)"

definition blank :: "fs \<Rightarrow> bool" where
  "blank s \<longleftrightarrow> (\<forall>b. unat b < nblocks s \<longrightarrow> view s b = zero_block)"

lemma tag_all_ok:
  assumes ok: "store_ok s" and n: "200 \<le> nblocks s" and z: "\<And>b. b \<noteq> 0 \<Longrightarrow> unat b < nblocks s \<Longrightarrow> view s b = zero_block"
  obtains a b s' where "tag_blocks 1 (table_start (nblocks s)) (set_btype BLOCK_TYPE_BITMAP) s = Some a"
    and "tag_blocks (table_start (nblocks s)) (journal_at (nblocks s)) (set_btype BLOCK_TYPE_INODE) a = Some b"
    and "tag_blocks (journal_at (nblocks s)) (root_at_block (nblocks s)) (\<lambda>b. set_je_type UNINITIALIZED (set_btype BLOCK_TYPE_JOURNAL b)) b = Some s'"
    and "st.keeps s s'" and "view s' 0 = view s 0"
    and "\<And>b. b \<noteq> 0 \<Longrightarrow> unat b < nblocks s \<Longrightarrow> view s' b = tagged (nblocks s) b"
proof -
  let ?n = "nblocks s"
  note G = geometry_bounds [OF n]
  obtain s1 where s1: "tag_blocks 1 (table_start ?n) (set_btype BLOCK_TYPE_BITMAP) s = Some s1" "st.keeps s s1"
      "view s1 = (\<lambda>b. if 1 \<le> unat b \<and> unat b < table_start ?n then set_btype BLOCK_TYPE_BITMAP (view s b) else view s b)"
    using tag_blocks_ok [OF ok, of 1 "table_start ?n" "set_btype BLOCK_TYPE_BITMAP"] G by auto
  note k1 = st.keepsD [OF s1(2)]
  obtain s2 where s2: "tag_blocks (table_start ?n) (journal_at ?n) (set_btype BLOCK_TYPE_INODE) s1 = Some s2" "st.keeps s1 s2"
      "view s2 = (\<lambda>b. if table_start ?n \<le> unat b \<and> unat b < journal_at ?n then set_btype BLOCK_TYPE_INODE (view s1 b) else view s1 b)"
    using tag_blocks_ok [OF k1(1), of "table_start ?n" "journal_at ?n" "set_btype BLOCK_TYPE_INODE"] G k1(2) by auto
  note k2 = st.keepsD [OF s2(2)]
  let ?f = "\<lambda>b. set_je_type UNINITIALIZED (set_btype BLOCK_TYPE_JOURNAL b)"
  obtain s3 where s3: "tag_blocks (journal_at ?n) (root_at_block ?n) ?f s2 = Some s3" "st.keeps s2 s3"
      "view s3 = (\<lambda>b. if journal_at ?n \<le> unat b \<and> unat b < root_at_block ?n then ?f (view s2 b) else view s2 b)"
    using tag_blocks_ok [OF k2(1), of "journal_at ?n" "root_at_block ?n" ?f] G k1(2) k2(2) by auto
  show thesis
  proof (rule that [OF s1(1) s2(1) s3(1)])
    show "st.keeps s s3" using s1(2) s2(2) s3(2) st.keeps_trans by meson
    show "view s3 0 = view s 0" using G by (simp add: s1(3) s2(3) s3(3))
    fix b :: u64 assume b: "b \<noteq> 0" "unat b < ?n"
    then have "0 < unat b" by (simp add: unat_gt_0)
    then show "view s3 b = tagged ?n b" using z [OF b] G by (auto simp: s1(3) s2(3) s3(3) tagged_def)
  qed
qed

lemma block_bit_zero: "\<not> bitmap_bit (set_btype x zero_block) i"
proof -
  have "load64 (set_btype x zero_block) (4 + 8 * (i div 64)) = 0" using load_zero by (simp add: load_store_other)
  then show ?thesis by (simp only: bitmap_bit_def) simp
qed

lemma filled_blank:
  assumes "store_ok s" and "200 \<le> nblocks s" and "btype (view s 0) = BLOCK_TYPE_SUPER"
    and "\<And>b. b \<noteq> 0 \<Longrightarrow> unat b < nblocks s \<Longrightarrow> view s b = tagged (nblocks s) b"
  shows "filled s 0"
proof -
  have "nblocks s \<le> 2 ^ 19" using assms(1) by (simp add: store_ok_def addressable_def)
  note G = geometry_bounds [OF assms(2)]
  have v: "1 + i div USABLE_BLOCK_SIZE < nblocks s" "view s (bitmap_block i) = set_btype BLOCK_TYPE_BITMAP zero_block" if "i < nblocks s" for i
  proof -
    have le: "1 + i div USABLE_BLOCK_SIZE \<le> bitmap_blocks (nblocks s)" by (rule bitmap_block_bound [OF that])
    with G show lt: "1 + i div USABLE_BLOCK_SIZE < nblocks s" by linarith
    have u: "unat (bitmap_block i) = 1 + i div USABLE_BLOCK_SIZE"
      unfolding bitmap_block_def using lt \<open>nblocks s \<le> 2 ^ 19\<close> by (intro unat_of_nat_small) simp
    then have "bitmap_block i \<noteq> 0" by (metis add_eq_0_iff_both_eq_0 one_neq_zero unat_0)
    with assms(4) lt u le G show "view s (bitmap_block i) = set_btype BLOCK_TYPE_BITMAP zero_block" by (simp add: tagged_def)
  qed
  then have "volume_ok s" using assms(1-3) by (simp add: volume_ok_def)
  moreover have "\<not> block_used s j" if "j < nblocks s" for j by (simp only: block_used_def v(2) [OF that] block_bit_zero) simp
  ultimately show ?thesis by (simp add: filled_def)
qed

text \<open>The superblock of a new volume.\<close>

lemma sb_initial_laid_out:
  assumes "unat n \<le> 2 ^ 19"
  shows "laid_out (sb_initial name n now sb) (unat n)"
proof -
  have u: "unat (block_bitmap_space n) = bitmap_blocks (unat n)" using block_bitmap_space_nat [OF assms] by (simp add: bitmap_blocks_def)
  have "bitmap_blocks (unat n) < 200" using assms by (simp add: bitmap_blocks_def)
  with u have "unat (ucast (1 + block_bitmap_space n) :: u64) = 1 + bitmap_blocks (unat n)"
    by (simp add: unsigned_ucast_eq take_bit_nat_eq_self unat_word_ariths(1))
  then show ?thesis by (simp add: laid_out_def sb_initial_def)
qed

lemma small_unat:
  assumes "store_ok s" and "b < nblocks s"
  shows "unat (of_nat b :: u64) = b"
proof -
  have "b < 2 ^ 64" using assms by (simp add: store_ok_def addressable_def)
  then show ?thesis by (rule unat_of_nat_small)
qed

text \<open>The superblock, the tags and the allocations, up to the root node.\<close>

lemma format_allocs:
  assumes f: "filled s 0" and n: "200 \<le> nblocks s"
  obtains a b c d where "alloc_page s = Some (0, a)" and "alloc_pages (journal_at (nblocks s) - 1) a = Some (False, b)"
    and "alloc_page b = Some (of_nat (journal_at (nblocks s)), c)" and "alloc_pages (nblocks s div 100 - 1) c = Some (False, d)"
    and "filled d (root_at_block (nblocks s))" and "grown s d (root_at_block (nblocks s))"
proof -
  let ?n = "nblocks s"
  note G = geometry_bounds [OF n]
  have j: "journal_at ?n < ?n" "0 < journal_at ?n" using G by linarith+
  obtain a where a: "alloc_page s = Some (of_nat 0, a)" "filled a (Suc 0)" "grown s a 1"
    by (rule alloc_page_next [OF f]) (use n in auto)
  have na: "nblocks a = ?n" using a(3) st.keepsD(2) by (auto simp: grown_def)
  obtain b where b: "alloc_pages (journal_at ?n - 1) a = Some (False, b)" "filled b (journal_at ?n)" "grown a b (journal_at ?n - 1)"
    using alloc_pages_next [OF a(2), of "journal_at ?n - 1"] na j by auto
  have nb: "nblocks b = ?n" using b(3) na st.keepsD(2) by (auto simp: grown_def)
  obtain c where c: "alloc_page b = Some (of_nat (journal_at ?n), c)" "filled c (Suc (journal_at ?n))" "grown b c 1"
    by (rule alloc_page_next [OF b(2)]) (use nb j in auto)
  have nc: "nblocks c = ?n" using c(3) nb st.keepsD(2) by (auto simp: grown_def)
  have r: "Suc (journal_at ?n) + (?n div 100 - 1) = root_at_block ?n" using G(4) by (simp add: root_at_block_def)
  obtain d where d: "alloc_pages (?n div 100 - 1) c = Some (False, d)" "filled d (root_at_block ?n)" "grown c d (?n div 100 - 1)"
    using alloc_pages_next [OF c(2), of "?n div 100 - 1"] nc G(5) r by auto
  have "1 + (journal_at ?n - 1) + 1 + (?n div 100 - 1) = root_at_block ?n" using r j by simp
  then have "grown s d (root_at_block ?n)" using grown_trans [OF grown_trans [OF grown_trans [OF a(3) b(3)] c(3)] d(3)] by simp
  with a(1) b(1) c(1) d(1,2) show thesis by (intro that) simp_all
qed

lemma format_layout:
  assumes ok: "store_ok s" and n: "200 \<le> nblocks s" and z: "blank s" and len: "length name \<le> 31"
  obtains sb s' p where "disk_format env s name = do {
       (ino, s) \<leftarrow> inode_allocate s' (e_uid env) (e_gid env) (S_IFDIR OR 0x1ED) True;
       s \<leftarrow> node_upd s p (\<lambda>n. Some (n\<lparr>n_value := word_of_int ino\<rparr>));
       (_, s) \<leftarrow> superblock_write s (sb\<lparr>journal_start := of_nat (journal_at (nblocks s')), journal_head := 0,
           root_inode := word_of_int ino, btree_root := of_nat (root_at_block (nblocks s'))\<rparr>) True;
       Some (0, s)
     }"
    and "sb = sb_initial (bytes_of name) (total_blocks (disk s)) (clock env s) (sb_of s)" and "laid_out sb (nblocks s)"
    and "sb_of s' = sb\<lparr>free_blocks := free_blocks sb - of_nat (Suc (root_at_block (nblocks s)))\<rparr>"
    and "st.keeps s s'" and "filled s' (Suc (root_at_block (nblocks s)))"
    and "points s' p (of_nat (root_at_block (nblocks s)))" and "is_node s' (of_nat (root_at_block (nblocks s)))"
    and "node_at s' (of_nat (root_at_block (nblocks s))) = init_node False (of_nat (root_at_block (nblocks s)))
           (node_load (set_btype BLOCK_TYPE_BTREE_NODE zero_block))"
    and "\<And>b. bitmap_blocks (nblocks s) < unat b \<Longrightarrow> unat b < root_at_block (nblocks s) \<Longrightarrow> view s' b = tagged (nblocks s) b"
proof -
  let ?n = "nblocks s" and ?now = "clock env s"
  let ?J = "journal_at ?n" and ?R = "root_at_block ?n"
  let ?r = "of_nat ?R :: u64"
  note G = geometry_bounds [OF n]
  have le: "?n \<le> 2 ^ 19" using ok by (simp add: store_ok_def addressable_def)
  have nb: "unat (total_blocks (disk s)) = ?n" by (simp add: nblocks_def)
  define sb where "sb = sb_initial (bytes_of name) (total_blocks (disk s)) ?now (sb_of s)"
  have L: "laid_out sb ?n" using sb_initial_laid_out [of "total_blocks (disk s)"] le nb by (simp add: sb_def)
  note S = laid_out_sizes [OF L le] and W = laid_out_starts [OF L n le]
  have pos: "0 < ?n" using n by simp
  obtain s1 x where i: "superblock_initialize s (bytes_of name) ?now = Some (0, s1)" "st.changes s s1 0 x"
      "btype x = BLOCK_TYPE_SUPER" "sb_load x = sb"
    by (rule superblock_initialize_ok [OF ok pos, of "bytes_of name" ?now]) (use len in \<open>simp_all add: sb_def\<close>)
  note k1 = st.keepsD [OF st.changesD(1) [OF i(2)]] and v1 = st.changesD(2) [OF i(2)]
  have sb1: "sb_of s1 = sb" by (simp add: sb_of_def v1 i(4))
  obtain s2 where r2: "superblock_read s1 = Some (Some sb, s2)" "st.silent s1 s2"
    by (rule superblock_read_valid [OF k1(1)]) (use pos k1(2) v1 i(3) sb1 in auto)
  note k2 = st.keepsD [OF st.silentD(1) [OF r2(2)]] and v2 = st.silentD(2) [OF r2(2)]
  have n2: "nblocks s2 = ?n" using k1(2) k2(2) by simp
  have z2: "view s2 b = zero_block" if "b \<noteq> 0" "unat b < nblocks s2" for b
    using z that n2 by (simp add: v2 v1 blank_def)
  obtain a b s3 where t: "tag_blocks 1 (table_start ?n) (set_btype BLOCK_TYPE_BITMAP) s2 = Some a"
      "tag_blocks (table_start ?n) ?J (set_btype BLOCK_TYPE_INODE) a = Some b"
      "tag_blocks ?J ?R (\<lambda>b. set_je_type UNINITIALIZED (set_btype BLOCK_TYPE_JOURNAL b)) b = Some s3"
      "st.keeps s2 s3" "view s3 0 = view s2 0" "\<And>b. b \<noteq> 0 \<Longrightarrow> unat b < ?n \<Longrightarrow> view s3 b = tagged ?n b"
    by (rule tag_all_ok [OF k2(1) n [folded n2], unfolded n2]) (simp add: z2 n2, rule that)
  note k3 = st.keepsD [OF t(4)]
  have n3: "nblocks s3 = ?n" using k3(2) n2 by simp
  have sb3: "sb_of s3 = sb" using sb1 by (simp add: sb_of_def t(5) v2)
  have f3: "filled s3 0" by (rule filled_blank [OF k3(1)]) (use n n3 t(5,6) v2 v1 i(3) in simp_all)
  obtain c d e s4 where al: "alloc_page s3 = Some (0, c)" "alloc_pages (?J - 1) c = Some (False, d)"
      "alloc_page d = Some (of_nat ?J, e)" "alloc_pages (?n div 100 - 1) e = Some (False, s4)" "filled s4 ?R" "grown s3 s4 ?R"
    by (rule format_allocs [OF f3, unfolded n3, OF n])
  have k34: "st.keeps s3 s4" using al(6) by (simp add: grown_def)
  note k4 = st.keepsD [OF k34]
  have n4: "nblocks s4 = ?n" using k4(2) n3 by simp
  have vo4: "volume_ok s4" using al(5) by (simp add: filled_def)
  have bb: "unat (bitmap_block j) \<le> bitmap_blocks ?n" if "j < ?n" for j
    using unat_bitmap_block(1) [OF vo4, of j] bitmap_block_bound [OF that] that n4 by simp
  have "tree_volume s4"
    unfolding tree_volume_def
  proof (intro conjI allI impI vo4)
    show "block_used s4 0" using al(5) G n4 pos by (simp add: filled_def)
    fix j assume "j < nblocks s4"
    then have "unat (bitmap_block j) < ?R" using bb [of j] G n4 by simp
    then show "block_used s4 (unat (bitmap_block j))" using al(5) G n4 by (simp add: filled_def)
  qed
  moreover have "first_free s4 = Some ?R" using filled_first_free [OF al(5)] G n4 by simp
  ultimately obtain p s5 where nc: "btree_node_create s4 False = Some (Some (?r, p), s5)" "points s5 p ?r" "created s4 s5 ?r"
      "node_at s5 ?r = init_node False ?r (node_load (set_btype BLOCK_TYPE_BTREE_NODE (view s4 ?r)))"
      "sb_of s5 = (sb_of s4)\<lparr>free_blocks := free_blocks (sb_of s4) - 1\<rparr>"
      "\<And>b. b \<noteq> 0 \<Longrightarrow> b \<noteq> bitmap_block ?R \<Longrightarrow> b \<noteq> ?r \<Longrightarrow> view s5 b = view s4 b"
    by (rule node_create_ok [where leaf = False]) (rule that)
  have ur: "unat ?r = ?R" by (rule small_unat [OF ok G(5)])
  then have r0: "?r \<noteq> 0" using G by auto
  have v4: "view s4 b = tagged ?n b" if "bitmap_blocks ?n < unat b" "unat b < ?n" for b
  proof -
    have "b \<noteq> 0" using that(1) by auto
    then show ?thesis using al(6) that n3 t(6) by (simp add: grown_def)
  qed
  have "st.keeps s4 s5" using nc(3) by (simp add: created_def)
  then have K: "st.keeps s s5"
    using st.changesD(1) [OF i(2)] st.silentD(1) [OF r2(2)] t(4) k34 st.keeps_trans by meson
  have n5: "nblocks s5 = ?n" using st.keepsD(2) [OF K] .
  have w1: "nat (calculate_journal_size sb - 1) = ?n div 100 - 1" by (simp add: S(3) nat_diff_distrib)
  show thesis
  proof (rule that [of s5 p sb])
    show "disk_format env s name = do {
       (ino, s) \<leftarrow> inode_allocate s5 (e_uid env) (e_gid env) (S_IFDIR OR 0x1ED) True;
       s \<leftarrow> node_upd s p (\<lambda>n. Some (n\<lparr>n_value := word_of_int ino\<rparr>));
       (_, s) \<leftarrow> superblock_write s (sb\<lparr>journal_start := of_nat (journal_at (nblocks s5)), journal_head := 0,
           root_inode := word_of_int ino, btree_root := of_nat (root_at_block (nblocks s5))\<rparr>) True;
       Some (0, s)
     }"
      unfolding disk_format_def i(1) r2(1) bind.simps option.case prod.case Let_def W t(1-3) al(1-4) w1 nc(1) if_False n5 by simp
    show "filled s5 (Suc ?R)"
      using nc(3) al(5) n4 n5 ur by (auto simp: filled_def created_def tree_volume_def)
    show "sb_of s5 = sb\<lparr>free_blocks := free_blocks sb - of_nat (Suc ?R)\<rparr>"
      using al(6) by (simp add: nc(5) grown_def sb3)
    show "node_at s5 ?r = init_node False ?r (node_load (set_btype BLOCK_TYPE_BTREE_NODE zero_block))"
      using v4 [of ?r] G ur by (simp add: nc(4) tagged_def)
    fix b :: u64 assume b: "bitmap_blocks ?n < unat b" "unat b < ?R"
    have "b \<noteq> 0" "b \<noteq> bitmap_block ?R" "b \<noteq> ?r" using b bb [of ?R] G ur by auto
    then show "view s5 b = tagged ?n b" using nc(6) v4 [of b] b G by simp
  qed (use sb_def L K nc(2,3) in \<open>simp_all add: created_def\<close>)
qed

section \<open>The root directory and the superblock\<close>

text \<open>The inode area of a volume laid out but without inodes.\<close>

lemma laid_out_inodes:
  assumes L: "laid_out (sb_of s) (nblocks s)" and ok: "store_ok s" and n: "200 \<le> nblocks s" and t0: "btype (view s 0) = BLOCK_TYPE_SUPER"
    and v: "\<And>b. bitmap_blocks (nblocks s) < unat b \<Longrightarrow> unat b < root_at_block (nblocks s) \<Longrightarrow> view s b = tagged (nblocks s) b"
    and m: "m < 22"
  shows "unat (inode_bit_block s m) = 1 + bitmap_blocks (nblocks s)" and "unat (inode_home s m) = table_start (nblocks s)"
    and "inode_ok s m" and "inode_map_ok s m" and "\<not> inode_used s m" and "inode_of s m = inode_load (set_btype BLOCK_TYPE_INODE zero_block) m"
proof -
  have le: "nblocks s \<le> 2 ^ 19" using ok by (simp add: store_ok_def addressable_def)
  note G = geometry_bounds [OF n]
  have b: "unat (inode_bit_block s j) = 1 + bitmap_blocks (nblocks s)" if "j < 22" for j
    using L that by (simp add: inode_bit_block_def laid_out_def layout)
  show bm: "unat (inode_bit_block s m) = 1 + bitmap_blocks (nblocks s)" using b m by simp
  show h: "unat (inode_home s m) = table_start (nblocks s)" using laid_out_starts(1) [OF L n le] m by (simp add: inode_home_def per_page)
  have vb: "view s (inode_bit_block s j) = set_btype BLOCK_TYPE_BITMAP zero_block" if "j < 22" for j
    using v [of "inode_bit_block s j"] b [OF that] G by (simp add: tagged_def)
  have vh: "view s (inode_home s m) = set_btype BLOCK_TYPE_INODE zero_block"
    using v [of "inode_home s m"] h G by (simp add: tagged_def)
  show "inode_ok s m" using ok n t0 h vh G m by (simp add: inode_ok_def)
  have "unat (inode_bitmap (sb_of s)) + j div USABLE_BLOCK_SIZE < nblocks s" if "j < 22" for j
    using L G that by (simp add: laid_out_def layout)
  then show "inode_map_ok s m" using vb m by (auto simp: inode_map_ok_def)
  show "\<not> inode_used s m" using m by (simp only: inode_used_def vb block_bit_zero) simp
  show "inode_of s m = inode_load (set_btype BLOCK_TYPE_INODE zero_block) m" using m by (simp add: inode_of_def vh per_page)
qed

text \<open>
  A new volume of \<open>n\<close> blocks; of the 22 inodes of the first table block only the first is in use, and the
  others are zero.
\<close>

definition new_inodes :: "fs \<Rightarrow> bool" where
  "new_inodes s \<longleftrightarrow> (\<forall>m < 22. unat (inode_bit_block s m) = 1 + bitmap_blocks (nblocks s) \<and> unat (inode_home s m) = table_start (nblocks s) \<and>
     inode_ok s m \<and> inode_map_ok s m \<and> inode_used s m = (m = 0) \<and>
     (m \<noteq> 0 \<longrightarrow> inode_of s m = inode_load (set_btype BLOCK_TYPE_INODE zero_block) m))"

definition formatted :: "fs \<Rightarrow> Superblock \<Rightarrow> bool" where
  "formatted s sb \<longleftrightarrow> (let n = nblocks s; r = of_nat (root_at_block n) in
     filled s (Suc (root_at_block n)) \<and> laid_out sb n \<and>
     sb_of s = sb\<lparr>journal_start := of_nat (journal_at n), journal_head := 0, root_inode := 0, btree_root := r\<rparr> \<and>
     empty_dir s r \<and> block_number (node_at s r) = r \<and> n_value (node_at s r) = 0 \<and> inode_ok s 0 \<and> inode_used s 0 \<and>
     new_inodes s \<and> flat_at s r [] \<and>
     (\<forall>b. journal_at n \<le> unat b \<and> unat b < root_at_block n \<longrightarrow>
        view s b = set_je_type UNINITIALIZED (set_btype BLOCK_TYPE_JOURNAL zero_block)))"

lemma formatted_ring:
  assumes f: "formatted s sb" and ok: "store_ok s" and n: "200 \<le> nblocks s"
  shows "ring_ok s" and "ring_size (sb_of s) = nblocks s div 100 - 1"
proof -
  let ?n = "nblocks s"
  have le: "?n \<le> 2 ^ 19" using ok by (simp add: store_ok_def addressable_def)
  note G = geometry_bounds [OF n]
  have L: "laid_out sb ?n" and sb: "sb_of s = sb\<lparr>journal_start := of_nat (journal_at ?n), journal_head := 0, root_inode := 0,
        btree_root := of_nat (root_at_block ?n)\<rparr>" and vol: "volume_ok s"
      and v: "\<And>b. journal_at ?n \<le> unat b \<Longrightarrow> unat b < root_at_block ?n \<Longrightarrow>
        view s b = set_je_type UNINITIALIZED (set_btype BLOCK_TYPE_JOURNAL zero_block)"
    using f by (simp_all add: formatted_def Let_def filled_def)
  have "calculate_journal_size (sb_of s) = calculate_journal_size sb" by (simp add: sb calculate_journal_size_def)
  then show rs: "ring_size (sb_of s) = ?n div 100 - 1"
    using laid_out_sizes(3) [OF L le] by (simp add: ring_size_def nat_diff_distrib)
  have R: "root_at_block ?n = journal_at ?n + ?n div 100" by (simp add: root_at_block_def)
  have J: "unat (of_nat (journal_at ?n) :: u64) = journal_at ?n" using small_unat [OF ok, of "journal_at ?n"] G by simp
  have slot: "view s (journal_start (sb_of s) + of_nat h) = set_je_type UNINITIALIZED (set_btype BLOCK_TYPE_JOURNAL zero_block)"
    if "h < ring_size (sb_of s)" for h
  proof -
    have "journal_at ?n + h < root_at_block ?n" using that R by (simp add: rs)
    then have "unat (of_nat (journal_at ?n + h) :: u64) = journal_at ?n + h" using small_unat [OF ok, of "journal_at ?n + h"] G by simp
    then show ?thesis using v [of "of_nat (journal_at ?n + h)"] \<open>journal_at ?n + h < _\<close> by (simp add: sb)
  qed
  have "super_ok s" using vol by (simp add: super_ok_def volume_ok_def)
  moreover have "journal_at ?n + (?n div 100 - 1) \<le> ?n" "0 < ?n div 100 - 1" using G R by linarith+
  moreover have "unat (journal_start (sb_of s)) = journal_at ?n" "journal_head (sb_of s) = 0" using J by (simp_all add: sb)
  ultimately show "ring_ok s"
    unfolding ring_ok_def using rs by (auto simp: slot settled_def)
qed

lemma disk_format_ok:
  assumes ok: "store_ok s" and n: "200 \<le> nblocks s" and z: "blank s" and len: "length name \<le> 31"
  obtains s' where "disk_format env s name = Some (0, s')" and "st.keeps s s'"
    and "formatted s' (sb_initial (bytes_of name) (total_blocks (disk s)) (clock env s) (sb_of s))"
    and "inode_of s' 0 = fresh_inode (e_uid env) (e_gid env) (S_IFDIR OR 0x1ED) 0 (inode_load (set_btype BLOCK_TYPE_INODE zero_block) 0)"
    and "disk_image s' 0 = view s' 0"
proof -
  let ?n = "nblocks s"
  let ?R = "root_at_block ?n" and ?J = "journal_at ?n"
  let ?r = "of_nat ?R :: u64"
  let ?sb = "sb_initial (bytes_of name) (total_blocks (disk s)) (clock env s) (sb_of s)"
  note G = geometry_bounds [OF n]
  obtain sb s1 p where A: "disk_format env s name = do {
       (ino, s) \<leftarrow> inode_allocate s1 (e_uid env) (e_gid env) (S_IFDIR OR 0x1ED) True;
       s \<leftarrow> node_upd s p (\<lambda>n. Some (n\<lparr>n_value := word_of_int ino\<rparr>));
       (_, s) \<leftarrow> superblock_write s (sb\<lparr>journal_start := of_nat (journal_at (nblocks s1)), journal_head := 0,
           root_inode := word_of_int ino, btree_root := of_nat (root_at_block (nblocks s1))\<rparr>) True;
       Some (0, s)
     }" "sb = ?sb" "laid_out sb ?n" "sb_of s1 = sb\<lparr>free_blocks := free_blocks sb - of_nat (Suc ?R)\<rparr>"
      "st.keeps s s1" "filled s1 (Suc ?R)" "points s1 p ?r" "is_node s1 ?r"
      "node_at s1 ?r = init_node False ?r (node_load (set_btype BLOCK_TYPE_BTREE_NODE zero_block))"
      "\<And>b. bitmap_blocks ?n < unat b \<Longrightarrow> unat b < ?R \<Longrightarrow> view s1 b = tagged ?n b"
    by (rule format_layout [OF ok n z len, of env]) (rule that)
  note k1 = st.keepsD [OF A(5)]
  have vo1: "volume_ok s1" and us1: "\<And>j. j < ?n \<Longrightarrow> block_used s1 j = (j < Suc ?R)" using A(6) k1(2) by (simp_all add: filled_def)
  have L1: "laid_out (sb_of s1) ?n" using A(3) by (simp add: A(4) laid_out_def)
  have ur: "unat ?r = ?R" by (rule small_unat [OF ok G(5)])
  let ?ib = "inode_bit_block s1 0" and ?ih = "inode_home s1 0"
  have I: "unat ?ib = 1 + bitmap_blocks ?n" "unat ?ih = table_start ?n" "inode_ok s1 0" "inode_map_ok s1 0" "\<not> inode_used s1 0"
      "inode_of s1 0 = inode_load (set_btype BLOCK_TYPE_INODE zero_block) 0"
    using laid_out_inodes [of s1 0] L1 k1(1,2) n vo1 A(10) by (simp_all add: volume_ok_def)
  have I1: "unat (inode_bit_block s1 m) = 1 + bitmap_blocks ?n \<and> unat (inode_home s1 m) = table_start ?n \<and> inode_ok s1 m \<and>
      inode_map_ok s1 m \<and> \<not> inode_used s1 m \<and> inode_of s1 m = inode_load (set_btype BLOCK_TYPE_INODE zero_block) m" if "m < 22" for m
    using laid_out_inodes [of s1 m] L1 k1(1,2) n vo1 A(10) that by (simp_all add: volume_ok_def)
  obtain s2 where a: "inode_allocate s1 (e_uid env) (e_gid env) (S_IFDIR OR 0x1ED) True = Some (int 0, s2)"
      "inode_claimed s1 s2 0 (fresh_inode (e_uid env) (e_gid env) (S_IFDIR OR 0x1ED) 0 (inode_of s1 0)) True"
    by (rule inode_allocate_ok [OF I(3-5)]) simp
  have C: "st.keeps s1 s2" "inode_ok s2 0" "inode_map_ok s2 0" "sb_of s2 = sb_of s1" "inode_used s2 0"
      "\<And>b. b \<noteq> ?ib \<Longrightarrow> b \<noteq> ?ih \<Longrightarrow> view s2 b = view s1 b"
      "inode_of s2 0 = fresh_inode (e_uid env) (e_gid env) (S_IFDIR OR 0x1ED) 0 (inode_load (set_btype BLOCK_TYPE_INODE zero_block) 0)"
    using a(2) I(6) by (simp_all add: inode_claimed_def)
  note k2 = st.keepsD [OF C(1)]
  have ne: "?r \<noteq> ?ib" "?r \<noteq> ?ih" "?r \<noteq> 0" "?ib \<noteq> 0" "?ih \<noteq> 0" using I(1,2) ur G by auto
  have vr2: "view s2 ?r = view s1 ?r" using C(6) ne by simp
  have nd2: "is_node s2 ?r" "node_at s2 ?r = node_at s1 ?r" using A(8) k2(2) vr2 by (simp_all add: is_node_def node_at_def)
  let ?N = "(node_at s1 ?r)\<lparr>n_value := 0\<rparr>"
  have sh: "node_shape ?N" using node_at_shape [of s1 ?r] by (simp add: node_shape_def)
  obtain s3 where u: "node_upd s2 p (\<lambda>n. Some (n\<lparr>n_value := 0\<rparr>)) = Some s3" "nodes_to s2 s3 ((node_at s2)(?r := ?N))"
    by (rule node_upd_ok [OF k2(1) k2(4) [OF A(7)] nd2(1), of "\<lambda>n. Some (n\<lparr>n_value := 0\<rparr>)" ?N]) (use nd2 sh in auto)
  note D = nodes_toD [OF u(2)]
  have k23: "st.keeps s2 s3" using u(2) by (simp add: nodes_to_def)
  have n3: "nblocks s3 = ?n" using D(2) k1(2) k2(2) by simp
  have t2: "btype (view s2 0) = BLOCK_TYPE_SUPER" using C(6) ne vo1 by (simp add: volume_ok_def)
  then have v30: "view s3 0 = view s2 0" by (intro D(6)) (simp add: is_node_def block_types)
  have t3: "btype (view s3 0) = BLOCK_TYPE_SUPER" using t2 v30 by simp
  let ?w = "sb\<lparr>journal_start := of_nat ?J, journal_head := 0, root_inode := 0, btree_root := ?r\<rparr>"
  have len_w: "length (volume_name ?w) = NAME_SIZE" using len by (simp add: A(2) sb_initial_def NAME_SIZE_def)
  have sup3: "super_ok s3" using D(1) n3 n t3 by (simp add: super_ok_def)
  obtain s4 where w: "superblock_write s3 ?w True = Some (0, s4)" "st.updates s3 s4 0 (sb_store ?w (view s3 0))" "super_ok s4" "sb_of s4 = ?w"
    by (rule head_write [OF sup3 len_w])
  note K4 = st.updatesD [OF w(2)]
  have K: "st.keeps s s4" using A(5) C(1) k23 K4(1) st.keeps_trans by meson
  have n4: "nblocks s4 = ?n" using st.keepsD(2) [OF K] .
  have fr: "view s4 b = view s1 b" if "b \<noteq> 0" "b \<noteq> ?ib" "b \<noteq> ?ih" "\<not> is_node s2 b" for b
    using that D(6) C(6) by (simp add: K4(2))
  have bmp: "view s4 (bitmap_block j) = view s1 (bitmap_block j)" if j: "j < ?n" for j
  proof (rule fr)
    have J: "j < nblocks s1" using j k1(2) by simp
    have l: "unat (bitmap_block j) \<le> bitmap_blocks ?n" using unat_bitmap_block(1) [OF vo1 J] bitmap_block_bound [OF j] by simp
    then show nb: "bitmap_block j \<noteq> 0" "bitmap_block j \<noteq> ?ib" "bitmap_block j \<noteq> ?ih"
      using unat_bitmap_block(3) [OF vo1 J] I(1,2) G by auto
    show "\<not> is_node s2 (bitmap_block j)"
      using vo1 J C(6) [OF nb(2,3)] by (simp add: is_node_def volume_ok_def block_types)
  qed
  have fl: "filled s4 (Suc ?R)"
    using vo1 us1 st.keepsD(1) [OF K] n4 w(3) k1(2) bmp by (simp add: filled_def volume_ok_def super_ok_def block_used_def)
  have vr4: "view s4 ?r = view s3 ?r" using ne by (simp add: K4(2))
  have "is_node s3 ?r" "node_at s3 ?r = ?N" using D(3,4) nd2(1) by simp_all
  then have "is_node s4 ?r" "node_at s4 ?r = ?N" unfolding is_node_def node_at_def vr4 n3 n4 by simp_all
  then have dir: "empty_dir s4 ?r" "block_number (node_at s4 ?r) = ?r" "n_value (node_at s4 ?r) = 0"
    by (simp_all add: empty_dir_def A(9) init_node_def is_leaf_def layout)
  have ih4: "inode_home s4 0 = ?ih" "inode_bit_block s4 0 = ?ib" "inode_home s2 0 = ?ih" "inode_bit_block s2 0 = ?ib"
    by (simp_all add: inode_home_def inode_bit_block_def inode_table_def calculate_inode_bitmap_size_def w(4) C(4) A(4))
  have "\<not> is_node s2 ?ib" "\<not> is_node s2 ?ih"
    using C(2,3) ih4(3,4) by (simp_all add: inode_ok_def inode_map_ok_def is_node_def block_types)
  then have vi: "view s4 ?ib = view s2 ?ib" "view s4 ?ih = view s2 ?ih" using D(6) ne(4,5) by (simp_all add: K4(2))
  have ino: "inode_ok s4 0" "inode_used s4 0" "inode_of s4 0 = inode_of s2 0"
    using C(2,5) st.keepsD(1) [OF K] n4 n w(3) k1(2) k2(2)
    by (simp_all add: inode_ok_def inode_used_def inode_of_def super_ok_def ih4 vi)
  have new: "new_inodes s4"
    unfolding new_inodes_def
  proof (intro allI impI)
    fix m :: nat assume m: "m < 22"
    have g: "inode_home s4 m = inode_home s1 m" "inode_bit_block s4 m = inode_bit_block s1 m" "inode_home s2 m = inode_home s1 m"
        "inode_bit_block s2 m = inode_bit_block s1 m" for m
      by (simp_all add: inode_home_def inode_bit_block_def inode_table_def calculate_inode_bitmap_size_def w(4) C(4) A(4))
    have hb: "inode_home s1 m = ?ih" "inode_bit_block s1 m = ?ib" if "m < 22" for m
      using I(1,2) I1 [OF that] by (simp_all add: word_unat_eq_iff)
    have v: "view s4 (inode_home s4 m) = view s2 (inode_home s2 m)" "view s4 (inode_bit_block s4 m) = view s2 (inode_bit_block s2 m)"
      if "m < 22" for m
      using vi hb [OF that] by (simp_all add: g)
    have t: "btype (view s2 b) = btype (view s1 b)" for b using a(2) by (simp add: inode_claimed_def)
    have ok4: "inode_ok s4 m" using I1 [OF m] st.keepsD(1) [OF K] n4 n w(3) k1(2) t v(1) [OF m] by (simp add: inode_ok_def super_ok_def g)
    have tb: "btype (view s4 (inode_bit_block s4 j)) = BLOCK_TYPE_BITMAP" if "j \<le> m" for j
      using I1 [of j] that m v(2) [of j] t by (simp add: inode_map_ok_def g)
    have ib: "inode_bitmap (sb_of s4) = inode_bitmap (sb_of s1)" by (simp add: w(4) A(4))
    have "inode_map_ok s4 m" unfolding inode_map_ok_def using I1 [OF m] tb k1(2) n4 by (simp add: inode_map_ok_def ib)
    moreover have "inode_used s4 m = inode_used s2 m" by (simp add: inode_used_def v(2) [OF m])
    moreover have "inode_used s2 m = (m = 0)" using a(2) I1 [OF m] m by (auto simp: inode_claimed_def layout)
    moreover have "inode_of s4 m = inode_load (set_btype BLOCK_TYPE_INODE zero_block) m" if "m \<noteq> 0"
    proof -
      have "inode_of s4 m = inode_of s2 m" by (simp add: inode_of_def v(1) [OF m])
      then show ?thesis using a(2) I1 [OF m] that by (simp add: inode_claimed_def)
    qed
    ultimately show "unat (inode_bit_block s4 m) = 1 + bitmap_blocks (nblocks s4) \<and> unat (inode_home s4 m) = table_start (nblocks s4) \<and>
        inode_ok s4 m \<and> inode_map_ok s4 m \<and> inode_used s4 m = (m = 0) \<and>
        (m \<noteq> 0 \<longrightarrow> inode_of s4 m = inode_load (set_btype BLOCK_TYPE_INODE zero_block) m)"
      using I1 [OF m] ok4 n4 by (simp add: g)
  qed
  have "root_at (node_at s4 ?r) ?r []"
    using \<open>node_at s4 ?r = ?N\<close> by (simp add: root_at_def A(9) init_node_def is_leaf_def layout)
  then have flat: "flat_at s4 ?r []"
    using \<open>is_node s4 ?r\<close> ne(3) fl n4 G ur by (simp add: flat_at_def filled_def)
  have jr: "view s4 b = set_je_type UNINITIALIZED (set_btype BLOCK_TYPE_JOURNAL zero_block)" if b: "?J \<le> unat b" "unat b < ?R" for b
  proof -
    have t: "view s1 b = set_je_type UNINITIALIZED (set_btype BLOCK_TYPE_JOURNAL zero_block)" using A(10) [of b] b G by (simp add: tagged_def)
    have nb: "b \<noteq> 0" "b \<noteq> ?ib" "b \<noteq> ?ih" using b I(1,2) G by auto
    then have "\<not> is_node s2 b" using t by (simp add: is_node_def C(6) block_types)
    then show ?thesis using fr nb t by simp
  qed
  have "formatted s4 sb"
    unfolding formatted_def Let_def n4 using fl A(3) w(4) dir ino jr new flat by simp
  moreover have "disk_format env s name = Some (0, s4)" using A(1) a(1) u(1) w(1) k1(2) by simp
  moreover have "disk_image s4 0 = view s4 0" by (simp add: K4)
  ultimately show thesis using K ino(3) C(7) A(2) by (intro that) simp_all
qed

section \<open>Mounting a new volume\<close>

text \<open>What \<open>formatted\<close> says of a state is a matter of its contents.\<close>

lemma formatted_cong:
  assumes f: "formatted s sb" and t: "store_ok t" and n: "nblocks t = nblocks s" and v: "\<And>b. b \<noteq> 0 \<Longrightarrow> view t b = view s b"
    and v0: "btype (view t 0) = BLOCK_TYPE_SUPER" and sb: "sb_of t = sb_of s"
  shows "formatted t sb" and "inode_of t 0 = inode_of s 0"
proof -
  let ?r = "of_nat (root_at_block (nblocks s)) :: u64"
  have F: "volume_ok s" "empty_dir s ?r" "inode_ok s 0" using f by (simp_all add: formatted_def Let_def filled_def)
  have bb: "view t (bitmap_block j) = view s (bitmap_block j)" if "j < nblocks s" for j
    using v unat_bitmap_block(3) [OF F(1) that] by simp
  have "\<not> is_node s 0" using F(1) by (rule volume_not_node(1))
  then have "?r \<noteq> 0" using F(2) by (auto simp: empty_dir_def)
  then have "view t ?r = view s ?r" by (rule v)
  moreover have h: "inode_home t 0 = inode_home s 0" "inode_bit_block t 0 = inode_bit_block s 0"
    by (simp_all add: inode_home_def inode_bit_block_def sb)
  moreover have vh: "view t (inode_home s 0) = view s (inode_home s 0)" using v inode_home_not_super [OF F(3)] by simp
  moreover have "view t (inode_bit_block s 0) = view s (inode_bit_block s 0)"
  proof (rule v)
    have "unat (inode_bit_block s 0) = 1 + bitmap_blocks (nblocks s)"
      using f by (simp add: formatted_def Let_def inode_bit_block_def laid_out_def)
    then show "inode_bit_block s 0 \<noteq> 0" by auto
  qed
  moreover have "b \<noteq> 0" if "journal_at (nblocks s) \<le> unat b" for b :: u64
    using that by (auto simp: journal_at_def table_start_def)
  moreover have "new_inodes t" "flat_at t ?r []"
  proof -
    have new: "new_inodes s" and flat: "flat_at s ?r []" using f by (simp_all add: formatted_def Let_def)
    have g: "inode_home t m = inode_home s m" "inode_bit_block t m = inode_bit_block s m" for m
      by (simp_all add: inode_home_def inode_bit_block_def sb)
    have vw: "view t (inode_home s m) = view s (inode_home s m)" "view t (inode_bit_block s m) = view s (inode_bit_block s m)" if "m < 22" for m
    proof -
      have "inode_home s m \<noteq> 0" using new that inode_home_not_super by (simp add: new_inodes_def)
      moreover have "inode_bit_block s m \<noteq> 0" using new that by (auto simp: new_inodes_def)
      ultimately show "view t (inode_home s m) = view s (inode_home s m)" "view t (inode_bit_block s m) = view s (inode_bit_block s m)" using v by simp_all
    qed
    have "inode_map_ok t m" if "m < 22" for m
      using new that vw by (auto simp: new_inodes_def inode_map_ok_def g n sb)
    moreover have "inode_ok t m \<and> inode_used t m = inode_used s m \<and> inode_of t m = inode_of s m" if "m < 22" for m
    proof -
      have "inode_ok s m" using new that by (simp add: new_inodes_def)
      then show ?thesis using vw [OF that] t n v0 by (simp add: g inode_ok_def inode_used_def inode_of_def)
    qed
    ultimately show "new_inodes t" using new by (simp add: new_inodes_def g n)
    have "block_used t (unat ?r) = block_used s (unat ?r)"
      using flat n bb by (simp add: flat_at_def is_node_def block_used_def)
    then show "flat_at t ?r []" using flat n \<open>view t ?r = view s ?r\<close> by (simp add: flat_at_def is_node_def node_at_def)
  qed
  ultimately show "formatted t sb"
    using f t v0 v bb n
    by (simp add: formatted_def Let_def filled_def volume_ok_def block_used_def sb empty_dir_def is_node_def node_at_def inode_ok_def inode_used_def)
  show "inode_of t 0 = inode_of s 0" by (simp add: inode_of_def h vh)
qed

text \<open>A new volume has a root directory without entries, and an empty journal.\<close>

lemma formatted_rooted:
  assumes f: "formatted s sb" and ok: "store_ok s"
  shows "rooted s" and "dir_entry s (btree_root (sb_of s)) c None" and "block_number (root_node s) = btree_root (sb_of s)"
    and "n_value (root_node s) = 0"
  using f ok by (auto simp: formatted_def Let_def filled_def volume_ok_def rooted_def empty_dir_def dir_entry_def)

lemma formatted_journal:
  assumes f: "formatted s sb" and ok: "store_ok s" and n: "200 \<le> nblocks s"
  shows "all_settled s" and "\<not> cache_disabled s \<Longrightarrow> h < ring_size (sb_of s) \<Longrightarrow> open_slot s (slot s h)"
    and "h < ring_size (sb_of s) \<Longrightarrow> view s (slot s h) = set_je_type UNINITIALIZED (set_btype BLOCK_TYPE_JOURNAL zero_block)"
proof -
  let ?n = "nblocks s" and ?e = "set_je_type UNINITIALIZED (set_btype BLOCK_TYPE_JOURNAL zero_block)"
  note G = geometry_bounds [OF n]
  show v: "view s (slot s h) = ?e" if h: "h < ring_size (sb_of s)" for h
  proof -
    have "unat (slot s h) = unat (journal_start (sb_of s)) + h" by (rule ring_slot(1) [OF formatted_ring(1) [OF f ok n] h])
    moreover have "unat (of_nat (journal_at ?n) :: u64) = journal_at ?n" using small_unat [OF ok, of "journal_at ?n"] G by simp
    moreover have "h < ?n div 100" using h formatted_ring(2) [OF f ok n] by simp
    moreover have "root_at_block ?n = journal_at ?n + ?n div 100" by (simp add: root_at_block_def)
    ultimately show ?thesis using f by (simp add: formatted_def Let_def)
  qed
  then show "all_settled s" by (simp add: all_settled_def settled_def)
  show "open_slot s (slot s h)" if "\<not> cache_disabled s" "h < ring_size (sb_of s)"
    using that v [OF that(2)] by (simp add: open_slot_def load_zero block_types)
qed

text \<open>
  Formatting with \<^verbatim>\<open>mkfs\<close>, which is compiled without the cache, and mounting: \<^verbatim>\<open>main\<close> opens the disk with a
  new cache and replays the journal, which is empty.
\<close>

lemma mount_formatted:
  assumes f: "formatted s sb" and ok: "store_ok s" and d: "cache_disabled s" and n: "200 \<le> nblocks s" "nblocks s \<le> k" "k < 2 ^ 31"
  obtains s' where "sync_journal env (mounted (disk s) (new_cache k)) = Some s'" and "store_ok s'" and "\<not> cache_disabled s'"
    and "nblocks s' = nblocks s" and "formatted s' sb" and "inode_of s' 0 = inode_of s 0" and "coherent s'" and "sb_of s' = sb_of s"
    and "\<And>b. disk_image s' (unat b) = view s' b"
proof -
  let ?m = "mounted (disk s) (new_cache k)"
  have le: "nblocks s \<le> 2 ^ 19" using ok by (simp add: store_ok_def addressable_def)
  have M: "store_ok ?m" "coherent ?m" "view ?m b = disk_base (disk s) (unat b)" for b
    using mounted_ok [of "disk s" k] n le by (simp_all add: nblocks_def)
  have vm: "view ?m = view s" using M(3) d by (simp add: fun_eq_iff view_def disk_image_def)
  have nm: "nblocks ?m = nblocks s" "\<not> cache_disabled ?m" by (simp_all add: mounted_def nblocks_def)
  have sbm: "sb_of ?m = sb_of s" by (simp add: sb_of_def vm)
  have t0: "btype (view s 0) = BLOCK_TYPE_SUPER" using f by (simp add: formatted_def Let_def filled_def volume_ok_def)
  have fm: "formatted ?m sb" "inode_of ?m 0 = inode_of s 0"
    by (rule formatted_cong [OF f M(1) nm(1)]; simp add: vm sbm t0)+
  have n': "200 \<le> nblocks ?m" using n(1) nm(1) by simp
  note R = formatted_ring(1) [OF fm(1) M(1) n'] and S = formatted_journal(1) [OF fm(1) M(1) n']
  obtain s' where s': "sync_journal env ?m = Some s'" "mark_journal_synced ?m = Some s'" "ring_ok s'" "st.keeps ?m s'"
      "sb_of s' = sb_of ?m" "\<And>b. b \<noteq> 0 \<Longrightarrow> view s' b = view ?m b" "\<And>b. st.stale s' b \<Longrightarrow> st.stale ?m b"
      "\<And>b. st.durable ?m b \<Longrightarrow> st.durable s' b"
    by (rule sync_journal_settled [OF R S, of env]) (rule that)
  note K = st.keepsD [OF s'(4)]
  have co: "coherent s'" using M(2) s'(7) coherent_stale [OF M(1)] coherent_stale [OF K(1)] by blast
  have "btype (view s' 0) = BLOCK_TYPE_SUPER" using s'(3) by (simp add: ring_ok_def super_ok_def)
  with formatted_cong [OF fm(1) K(1,2) s'(6) _ s'(5)] have "formatted s' sb" "inode_of s' 0 = inode_of ?m 0" by simp_all
  moreover have "disk_image s' (unat b) = view s' b" for b
    using s'(8) M(3) by (simp add: st.durable_def disk_image_def mounted_def)
  ultimately show thesis using s'(1,5) K nm fm(2) co sbm by (intro that [of s']) simp_all
qed

end
