(* ===== verification/Remount.thy ===== *)
theory Remount
  imports Formatted Files
begin

text \<open>
  Unmounting and mounting again: \<open>free_cache\<close> frees everything it owns exactly once, \<open>nbtrfs_destroy\<close>
  leaves the contents on the disk with nothing to replay, and a disk opened with a new cache shows
  what the file system held before.
\<close>

section \<open>Freeing the cache\<close>

lemma free_lru_ok:
  assumes "lru_ring c L"
  shows "\<exists>c'. free_lru (length L) c = Some c' \<and> lru_ring c' [] \<and> entries c' = entries c \<and> pages c' = pages c"
  using assms
proof (induction L arbitrary: c)
  case Nil
  then show ?case by simp
next
  case (Cons a L)
  have "lru c = Some a" using Cons.prems by (simp add: lru_ring_def ring_list_def)
  then have l: "lru_load c LruHead = Some (Some a)" by simp
  obtain i h v hd' where pop: "lru_pop c LruHead = Some (i, lru_store v LruHead (c\<lparr>lru_heap := h, lru := hd', lru_size := lru_size c - 1\<rparr>))"
      "lru_ring (c\<lparr>lru_heap := h, lru := hd', lru_size := lru_size c - 1\<rparr>) (remove1 a (a # L))" "v = hd'"
    by (rule lru_pop_ok [OF Cons.prems _ l]) (simp, rule that, simp_all)
  let ?c = "c\<lparr>lru_heap := h, lru := hd', lru_size := lru_size c - 1\<rparr>"
  obtain c' where "free_lru (length L) ?c = Some c'" "lru_ring c' []" "entries c' = entries ?c" "pages c' = pages ?c"
    using Cons.IH [of ?c] pop(2) by auto
  moreover have "lru_store v LruHead ?c = ?c" using pop(3) by simp
  ultimately show ?case using pop(1) by (simp del: lru_store.simps)
qed

text \<open>The pages of the entries, in order.\<close>

abbreviation owned :: "cache_entry_t list \<Rightarrow> nat list" where
  "owned es \<equiv> List.map_filter page_data es"

lemma free_pages_ok:
  assumes "distinct (owned es)" and "\<And>a. a \<in> set (owned es) \<Longrightarrow> pg a \<noteq> None"
  shows "free_pages es pg = Some (pg |` (- set (owned es)))"
  using assms
proof (induction es arbitrary: pg)
  case Nil
  then show ?case by (simp add: map_filter_simps fun_eq_iff restrict_map_def)
next
  case (Cons e es)
  show ?case
  proof (cases "page_data e")
    case None
    then show ?thesis using Cons by (simp add: map_filter_simps)
  next
    case (Some a)
    then have a: "a \<notin> set (owned es)" "pg a \<noteq> None" "distinct (owned es)" using Cons.prems by (simp_all add: map_filter_simps)
    have "(pg(a := None)) x \<noteq> None" if "x \<in> set (owned es)" for x
      using that a(1) Cons.prems(2) [of x] Some by (auto simp: map_filter_simps)
    then have "free_pages es (pg(a := None)) = Some ((pg(a := None)) |` (- set (owned es)))" by (rule Cons.IH [OF a(3)])
    moreover have "(pg(a := None)) |` (- set (owned es)) = pg |` (- set (owned (e # es)))"
      using Some by (auto simp: fun_eq_iff restrict_map_def map_filter_simps)
    ultimately show ?thesis using Some a(2) by simp
  qed
qed

lemma distinct_owned:
  assumes "\<And>i j. i < length es \<Longrightarrow> j < length es \<Longrightarrow> page_data (es ! i) = page_data (es ! j) \<Longrightarrow> page_data (es ! i) \<noteq> None \<Longrightarrow> i = j"
  shows "distinct (owned es)"
  using assms
proof (induction es)
  case Nil
  then show ?case by (simp add: map_filter_simps)
next
  case (Cons e es)
  have "distinct (owned es)"
  proof (rule Cons.IH)
    fix i j assume "i < length es" "j < length es" "page_data (es ! i) = page_data (es ! j)" "page_data (es ! i) \<noteq> None"
    then show "i = j" using Cons.prems [of "Suc i" "Suc j"] by simp
  qed
  moreover have "a \<notin> set (owned es)" if "page_data e = Some a" for a
  proof
    assume "a \<in> set (owned es)"
    then obtain j where "j < length es" "page_data (es ! j) = Some a" by (auto simp: List.map_filter_def in_set_conv_nth)
    then show False using Cons.prems [of 0 "Suc j"] that by simp
  qed
  ultimately show ?case by (simp add: map_filter_simps split: option.split)
qed

text \<open>
  Only slots in use own a page, each its own and live; nothing is freed twice, and none of the
  pages of the entries is left.
\<close>

lemma free_cache_ok:
  assumes inv: "cinv c L []" and t: "tidy c"
  obtains c' where "free_cache c = Some c'" and "entries c' = []" and "free_list c' = []" and "pci c' = []"
    and "lru_ring c' []" and "pages c' = pages c |` (- set (owned (entries c)))"
proof -
  note I = cinvD [OF inv]
  have used: "in_use c i" if "i < length (entries c)" "page_data (entries c ! i) \<noteq> None" for i
    using that t I(1) by (auto simp: in_use_def tidy_def)
  have d: "distinct (owned (entries c))" by (rule distinct_owned) (use I(12) used in auto)
  have live: "pages c a \<noteq> None" if a: "a \<in> set (owned (entries c))" for a
  proof -
    obtain i where i: "i < length (entries c)" "page_data (entries c ! i) = Some a" using a by (auto simp: List.map_filter_def in_set_conv_nth)
    then have "slot_ok c L [] i" using I(8) used by simp
    then show ?thesis using i(2) by (auto simp: slot_ok_def)
  qed
  have sz: "gdl_size c = 0" "lru_size c = int (length L)" using I(3,4) by (simp_all add: gdl_ring_def lru_ring_def ring_list_def)
  obtain c1 where c1: "free_lru (length L) c = Some c1" "lru_ring c1 []" "entries c1 = entries c" "pages c1 = pages c"
    using free_lru_ok [OF I(3)] by blast
  let ?c = "c1\<lparr>free_list := [], dirty_list := [], pci := [], pages := pages c |` (- set (owned (entries c))), entries := []\<rparr>"
  show thesis
  proof (rule that [of ?c])
    show "free_cache c = Some ?c" using c1(1) free_pages_ok [OF d live] by (simp add: free_cache_def sz c1(3,4))
    show "lru_ring ?c []" using c1(2) by (simp add: lru_ring_def)
  qed simp_all
qed

section \<open>Unmounting\<close>

text \<open>
  \<open>unmounted s d\<close>: \<open>d\<close> holds the contents of \<open>s\<close>, except that journal entries are marked as synced.
\<close>

definition unmounted :: "fs \<Rightarrow> DiskInterface \<Rightarrow> bool" where
  "unmounted s d \<longleftrightarrow> unat (total_blocks d) = nblocks s \<and> sb_load (disk_base d 0) = sb_of s \<and> btype (disk_base d 0) = BLOCK_TYPE_SUPER \<and>
     (\<forall>h < ring_size (sb_of s). settled (disk_base d (unat (slot s h))) \<and> btype (disk_base d (unat (slot s h))) = BLOCK_TYPE_JOURNAL) \<and>
     (\<forall>b. b \<noteq> 0 \<longrightarrow> btype (view s b) \<noteq> BLOCK_TYPE_JOURNAL \<longrightarrow> disk_base d (unat b) = view s b)"

lemma nbtrfs_destroy_ok:
  assumes R: "ring_ok s" and co: "coherent s" and c: "\<not> cache_disabled s"
  obtains s' where "nbtrfs_destroy s = Some s'" and "unmounted s (disk s')" and "entries (cache_s s') = []" and "lru_ring (cache_s s') []"
proof -
  have ok: "store_ok s" using R by (simp add: ring_ok_def super_ok_def)
  obtain s1 where s1: "mark_journal_synced s = Some s1" "ring_ok s1" "st.keeps s s1" "sb_of s1 = sb_of s"
      "\<And>h. h < ring_size (sb_of s) \<Longrightarrow> view s1 (slot s h) = as_synced (view s (slot s h))"
      "\<And>b. b \<noteq> 0 \<Longrightarrow> \<forall>h < ring_size (sb_of s). b \<noteq> slot s h \<Longrightarrow> view s1 b = view s b" "\<And>b. st.stale s1 b \<Longrightarrow> st.stale s b"
    by (rule mark_journal_synced_ok [OF R]) (rule that)
  note K = st.keepsD [OF s1(3)]
  have co1: "coherent s1" using co s1(7) coherent_stale [OF ok] coherent_stale [OF K(1)] by blast
  obtain s2 where s2: "cache_sync s1 = Some s2" "store_ok s2" "\<And>b. disk_image s2 (unat b) = view s1 b" "nblocks s2 = nblocks s1"
      "\<not> cache_disabled s1 \<Longrightarrow> \<not> cache_disabled s2 \<and> (\<exists>L. cinv (cache_s s2) L [])"
    by (rule cache_sync_ok [OF K(1) co1]) (rule that)
  have c1: "\<not> cache_disabled s1" using c K(3) by simp
  obtain L where L: "cinv (cache_s s2) L []" "\<not> cache_disabled s2" using s2(5) [OF c1] by blast
  have t: "tidy (cache_s s2)" using s2(2) L(2) by (simp add: store_ok_def)
  obtain c' where c': "free_cache (cache_s s2) = Some c'" "entries c' = []" "lru_ring c' []"
    by (rule free_cache_ok [OF L(1) t]) (rule that)
  have im: "disk_base (disk s2) (unat b) = view s1 b" for b using s2(3) by (simp add: disk_image_def)
  have "btype (view s1 0) = BLOCK_TYPE_SUPER" using s1(2) by (simp add: ring_ok_def super_ok_def)
  moreover have "btype (view s1 (slot s h)) = BLOCK_TYPE_JOURNAL" if "h < ring_size (sb_of s)" for h
    using s1(2) that by (simp add: ring_ok_def s1(4))
  moreover have "disk_base (disk s2) 0 = view s1 0" using im [of 0] by simp
  moreover have "unat (total_blocks (disk s2)) = nblocks s" using s2(4) K(2) by (simp add: nblocks_def)
  moreover have "view s1 b = view s b" if "b \<noteq> 0" "btype (view s b) \<noteq> BLOCK_TYPE_JOURNAL" for b
    using s1(6) ring_slot(4) [OF R] that by blast
  ultimately have "unmounted s (disk s2)" using s1(4,5) as_synced_settled by (simp add: unmounted_def im sb_of_def)
  then show thesis
    using s1(1) s2(1) c' by (intro that [of "s2\<lparr>cache_s := c'\<rparr>"]) (simp_all add: nbtrfs_destroy_def)
qed

section \<open>Mounting again\<close>

text \<open>
  \<open>remounted s s'\<close>: \<open>s'\<close> is a cached state that shows the contents of \<open>s\<close>, but for journal entries.
\<close>

definition remounted :: "fs \<Rightarrow> fs \<Rightarrow> bool" where
  "remounted s s' \<longleftrightarrow> store_ok s' \<and> \<not> cache_disabled s' \<and> coherent s' \<and> nblocks s' = nblocks s \<and> ring_ok s' \<and> all_settled s' \<and>
     sb_of s' = sb_of s \<and> (\<forall>b. b \<noteq> 0 \<longrightarrow> btype (view s b) \<noteq> BLOCK_TYPE_JOURNAL \<longrightarrow> view s' b = view s b)"

lemma mount_ok:
  assumes R: "ring_ok s" and u: "unmounted s d" and k: "nblocks s \<le> k" "k < 2 ^ 31"
  obtains s' where "sync_journal env (mounted d (new_cache k)) = Some s'" and "remounted s s'"
proof -
  let ?m = "mounted d (new_cache k)"
  have ok: "store_ok s" using R by (simp add: ring_ok_def super_ok_def)
  then have le: "nblocks s \<le> 2 ^ 19" by (simp add: store_ok_def addressable_def)
  have n: "unat (total_blocks d) = nblocks s" using u by (simp add: unmounted_def)
  have M: "store_ok ?m" "coherent ?m" "view ?m b = disk_base d (unat b)" for b
    by (rule mounted_ok; use n k le in simp)+
  have nm: "nblocks ?m = nblocks s" "\<not> cache_disabled ?m" using n by (simp_all add: mounted_def nblocks_def)
  have sbm: "sb_of ?m = sb_of s" using u by (simp add: sb_of_def M(3) unmounted_def)
  have S: "all_settled ?m" using u by (simp add: all_settled_def sbm M(3) unmounted_def)
  have Rm: "ring_ok ?m" using R u M(1) S
    by (simp add: ring_ok_def super_ok_def nm sbm M(3) unmounted_def)
  obtain s' where s': "sync_journal env ?m = Some s'" "ring_ok s'" "st.keeps ?m s'"
      "sb_of s' = sb_of ?m" "\<And>b. b \<noteq> 0 \<Longrightarrow> view s' b = view ?m b" "\<And>b. st.stale s' b \<Longrightarrow> st.stale ?m b"
      "\<And>b. st.durable ?m b \<Longrightarrow> st.durable s' b"
    by (rule sync_journal_settled [OF Rm S, of env]) (rule that)
  note K = st.keepsD [OF s'(3)]
  have "coherent s'" using M(2) s'(6) coherent_stale [OF M(1)] coherent_stale [OF K(1)] by blast
  moreover have "all_settled s'" using S s'(5) ring_slot(3) [OF Rm] by (simp add: all_settled_def s'(4))
  ultimately have "remounted s s'" using K nm s'(2,5) u by (simp add: remounted_def s'(4) sbm M(3) unmounted_def)
  with s'(1) show thesis by (rule that)
qed

lemma remount_ok:
  assumes "ring_ok s" and "coherent s" and "\<not> cache_disabled s" and "nblocks s \<le> k" and "k < 2 ^ 31"
  obtains s1 s2 where "nbtrfs_destroy s = Some s1" and "sync_journal env (mounted (disk s1) (new_cache k)) = Some s2" and "remounted s s2"
  using nbtrfs_destroy_ok [OF assms(1-3)] mount_ok [OF assms(1) _ assms(4,5)] by metis

text \<open>What lies outside the journal is there again: directories, inodes and files.\<close>

lemma remounted_nodes:
  assumes "remounted s s'" and "btype (view s 0) = BLOCK_TYPE_SUPER"
  shows "nodes_kept s s'"
proof -
  have "btype (view s' 0) = BLOCK_TYPE_SUPER" using assms(1) by (simp add: remounted_def ring_ok_def super_ok_def)
  moreover have "view s' b = view s b" if "is_node s b" for b
    using that assms by (cases "b = 0") (auto simp: is_node_def remounted_def block_types)
  ultimately show ?thesis using assms by (simp add: nodes_kept_def remounted_def geometry_def)
qed

lemma remounted_inode:
  assumes r: "remounted s s'" and i: "inode_ok s n"
  shows "inode_ok s' n" and "inode_of s' n = inode_of s n"
proof -
  have t: "btype (view s' 0) = BLOCK_TYPE_SUPER" using r by (simp add: remounted_def ring_ok_def super_ok_def)
  have h: "inode_home s' n = inode_home s n" using r by (simp add: inode_home_def remounted_def)
  have v: "view s' (inode_home s n) = view s (inode_home s n)"
    using r i inode_home_not_super [OF i] by (simp add: remounted_def inode_ok_def block_types)
  show "inode_ok s' n" "inode_of s' n = inode_of s n" using r i t by (simp_all add: inode_ok_def inode_of_def h v remounted_def)
qed

lemma remounted_file:
  assumes r: "remounted s s'" and f: "file_ok s i n"
  shows "file_ok s' i n" and "j < n * USABLE_BLOCK_SIZE \<Longrightarrow> file_byte s' i j = file_byte s i j"
proof -
  have v: "view s' b = view s b" if "b \<noteq> 0" "btype (view s b) = BLOCK_TYPE_DATA" for b
    using r that by (simp add: remounted_def block_types)
  have n: "nblocks s' = nblocks s" "store_ok s'" using r by (simp_all add: remounted_def)
  have ind: "view s' (indirect_block i) = view s (indirect_block i)" if "12 < n" using f that v by (simp add: file_ok_def)
  have p: "page_at s' i k = page_at s i k" if "k < n" for k
    using that ind by (cases "k < 12") (simp_all add: page_at_def)
  have b: "view s' (page_at s i k) = view s (page_at s i k)" if "k < n" for k
    using v file_okD(3,5) [OF f that] by simp
  have "inj_on (page_at s' i) {..<n}" using f p by (auto simp: file_ok_def inj_on_def)
  then show "file_ok s' i n" using f n by (auto simp: file_ok_def p b ind)
  show "file_byte s' i j = file_byte s i j" if "j < n * USABLE_BLOCK_SIZE"
  proof -
    have "j div USABLE_BLOCK_SIZE < n" using that by (simp add: less_mult_imp_div_less)
    then show ?thesis by (simp add: file_byte_def p b)
  qed
qed

end
