(* ===== verification/Programs.thy ===== *)
theory Programs
  imports Remount
begin

text \<open>
  The two programs: \<^verbatim>\<open>main\<close> of \<^verbatim>\<open>src/mkfs.c\<close>, which formats a disk image, and \<^verbatim>\<open>main\<close> of \<^verbatim>\<open>src/fuse.c\<close>, up
  to the point where it hands the callbacks to FUSE; and \<open>disk_open\<close>, through which both get the disk.
\<close>

section \<open>Opening a disk\<close>

text \<open>
  What \<^verbatim>\<open>stat\<close>, \<^verbatim>\<open>open\<close> and \<^verbatim>\<open>mmap\<close> find at a path: nothing; a file that cannot be opened or mapped, which
  the assertions refuse; or a file with its blocks and its size in bytes.
\<close>

datatype image_file = Absent | Refused | Image "nat \<Rightarrow> block" nat

text \<open>The inner \<open>None\<close> is the null pointer.\<close>

fun disk_open :: "image_file \<Rightarrow> DiskInterface option option" where
  "disk_open Absent = Some None"
| "disk_open Refused = None"
| "disk_open (Image base bytes) = Some (Some \<lparr>disk_base = base, total_blocks = of_nat (bytes div BLOCK_SIZE)\<rparr>)"

text \<open>The mapping is shared, so that closing the disk leaves the blocks in the file.\<close>

definition disk_close :: "DiskInterface \<Rightarrow> image_file \<Rightarrow> image_file" where
  "disk_close d f = (case f of Image base bytes \<Rightarrow> Image (disk_base d) bytes | _ \<Rightarrow> f)"

section \<open>Formatting\<close>

text \<open>
  The array \<^verbatim>\<open>volume_name\<close>, 32 bytes; \<^verbatim>\<open>strncpy\<close> fills it without a terminator when the argument is too
  long, and the function it is passed to reads it as a string.
\<close>

definition volume_label :: "string list \<Rightarrow> string option" where
  "volume_label argv = str_of_bytes
     (if 2 < length argv \<and> argv ! 1 = ''-l'' then take 32 (bytes_of (argv ! 2) @ replicate 32 0)
      else bytes_of ''UNTITLED'' @ replicate 24 0)"

text \<open>The result is the exit status and, when the image was opened, the file it has become.\<close>

definition mkfs :: "env \<Rightarrow> (string \<Rightarrow> image_file) \<Rightarrow> string list \<Rightarrow> (int \<times> image_file option) option" where
  "mkfs env files argv =
     (if length argv mod 2 \<noteq> 0 then Some (-1, None)
      else if argv = [] then None
      else do {
        d \<leftarrow> disk_open (files (last argv));
        d \<leftarrow> d;
        name \<leftarrow> volume_label argv;
        (rc, s) \<leftarrow> disk_format env (mapped d) name;
        Some (if rc \<noteq> 0 then -1 else 0, Some (disk_close (disk s) (files (last argv))))
      })"

section \<open>Starting the file system\<close>

text \<open>The state in which \<^verbatim>\<open>fuse_main\<close> is entered.\<close>

definition nbtrfs_start :: "env \<Rightarrow> (string \<Rightarrow> image_file) \<Rightarrow> string list \<Rightarrow> u64 \<Rightarrow> fs option" where
  "nbtrfs_start env files argv physical_memory =
     (if argv = [] then None
      else do {
        d \<leftarrow> disk_open (files (last argv));
        d \<leftarrow> d;
        sync_journal env (mounted d (alloc_cache physical_memory))
      })"

section \<open>Lemmas\<close>

lemma volume_label_ok:
  assumes "length name \<le> 31" and "CHR 0x00 \<notin> set name"
  shows "volume_label [p, ''-l'', name, f] = Some name"
proof -
  have "take 32 (bytes_of name @ replicate 32 0) = bytes_of name @ 0 # replicate (31 - length name) 0"
    using assms(1) by (simp add: Suc_diff_le flip: replicate_Suc)
  then show ?thesis by (simp add: volume_label_def str_of_bytes_of [OF assms(2)])
qed

lemma volume_label_default: "length argv \<le> 2 \<Longrightarrow> volume_label argv = Some ''UNTITLED''"
  using str_of_bytes_of [of "''UNTITLED''" "replicate 23 0"] by (simp add: volume_label_def numeral_eq_Suc)

lemma volume_label_overrun:
  assumes "32 \<le> length name" and "CHR 0x00 \<notin> set name"
  shows "volume_label [p, ''-l'', name, f] = None"
proof -
  have "0 \<notin> set (take 32 (bytes_of name))" using bytes_of_nonzero [OF assms(2)] by (auto dest: in_set_takeD)
  then show ?thesis using assms(1) by (simp add: volume_label_def str_of_bytes_def)
qed

text \<open>
  Formatting an empty image and starting the file system on it. \<open>k\<close> is the number of blocks of the
  image; a new cache has room for at least 16384.
\<close>

lemma mkfs_ok:
  assumes f: "files (last argv) = Image (\<lambda>_. zero_block) bytes" and a: "argv \<noteq> []" "even (length argv)"
    and l: "volume_label argv = Some name" "length name \<le> 31"
    and n: "n = bytes div BLOCK_SIZE" "200 \<le> n" "n \<le> 16384"
  obtains s where "mkfs env files argv = Some (0, Some (Image (disk_base (disk s)) bytes))" and "store_ok s" and "cache_disabled s"
    and "nblocks s = n" and "formatted s (sb_initial (bytes_of name) (of_nat n) (clock env (mapped (\<lparr>disk_base = \<lambda>_. zero_block, total_blocks = of_nat n\<rparr>))) (sb_load zero_block))"
    and "inode_of s 0 = fresh_inode (e_uid env) (e_gid env) (S_IFDIR OR 0x1ED) 0 (inode_load (set_btype BLOCK_TYPE_INODE zero_block) 0)"
proof -
  let ?d = "\<lparr>disk_base = \<lambda>_. zero_block, total_blocks = of_nat n\<rparr> :: DiskInterface"
  have u: "unat (of_nat n :: u64) = n" using n(3) by (intro unat_of_nat_small) simp
  have ok: "store_ok (mapped ?d)" and v: "view (mapped ?d) b = zero_block" for b
    using mapped_ok [of ?d] u n(3) by simp_all
  have nb: "nblocks (mapped ?d) = n" by (simp add: nblocks_def mapped_def u)
  have blank: "blank (mapped ?d)" by (simp add: blank_def v)
  have t: "total_blocks (disk (mapped ?d)) = of_nat n" by (simp add: mapped_def)
  have sb: "sb_of (mapped ?d) = sb_load zero_block" by (simp add: sb_of_def v)
  obtain s where s: "disk_format env (mapped ?d) name = Some (0, s)" "st.keeps (mapped ?d) s"
      "formatted s (sb_initial (bytes_of name) (of_nat n) (clock env (mapped ?d)) (sb_load zero_block))"
      "inode_of s 0 = fresh_inode (e_uid env) (e_gid env) (S_IFDIR OR 0x1ED) 0 (inode_load (set_btype BLOCK_TYPE_INODE zero_block) 0)"
    by (rule disk_format_ok [OF ok, of name env, unfolded nb t sb, OF n(2) blank l(2)]) (rule that)
  note K = st.keepsD [OF s(2)]
  have "mkfs env files argv = Some (0, Some (Image (disk_base (disk s)) bytes))"
    using a f l(1) s(1) n(1) by (simp add: mkfs_def disk_close_def even_iff_mod_2_eq_zero)
  moreover have "cache_disabled s" using K(3) by (simp add: mapped_def)
  ultimately show thesis using K(1,2) nb s(3,4) by (intro that [of s]) simp_all
qed

lemma start_mounts:
  assumes a: "argv \<noteq> []" "files (last argv) = Image (disk_base d) bytes" "unat (total_blocks d) = bytes div BLOCK_SIZE"
  shows "nbtrfs_start env files argv physical_memory = sync_journal env (mounted d (new_cache (unat (alloc_cache_size physical_memory))))"
proof -
  have "of_nat (unat (total_blocks d)) = total_blocks d" by simp
  then have "total_blocks d = of_nat (bytes div BLOCK_SIZE)" using a(3) by (simp only:)
  then have "disk_open (files (last argv)) = Some (Some d)" by (simp add: a(2))
  then show ?thesis using a(1) by (simp add: nbtrfs_start_def alloc_cache_def)
qed

lemma new_cache_room:
  assumes "n \<le> 16384" and "unat physical_memory < 2 ^ 61"
  shows "n \<le> unat (alloc_cache_size physical_memory)" and "unat (alloc_cache_size physical_memory) < 2 ^ 31"
  using alloc_cache_size_lower [OF assms(2)] alloc_cache_size_upper [OF assms(2)] assms(1) by simp_all

lemma start_ok:
  assumes f: "formatted s sb" and ok: "store_ok s" and d: "cache_disabled s" and n: "200 \<le> nblocks s" "nblocks s \<le> 16384"
    and a: "argv \<noteq> []" "files (last argv) = Image (disk_base (disk s)) bytes" "nblocks s = bytes div BLOCK_SIZE"
    and m: "unat physical_memory < 2 ^ 61"
  obtains s' where "nbtrfs_start env files argv physical_memory = Some s'" and "store_ok s'" and "\<not> cache_disabled s'" and "coherent s'"
    and "nblocks s' = nblocks s" and "formatted s' sb" and "inode_of s' 0 = inode_of s 0" and "sb_of s' = sb_of s"
    and "\<And>b. disk_image s' (unat b) = view s' b"
  by (rule mount_formatted [OF f ok d n(1) new_cache_room [OF n(2) m], of env])
    (use start_mounts [of argv files "disk s" bytes env physical_memory] a in \<open>simp add: nblocks_def that\<close>)

text \<open>Unmounting and starting again.\<close>

lemma restart_ok:
  assumes R: "ring_ok s" and co: "coherent s" and c: "\<not> cache_disabled s" and n: "nblocks s \<le> 16384" "nblocks s = bytes div BLOCK_SIZE"
    and m: "unat physical_memory < 2 ^ 61"
  obtains s1 s2 where "nbtrfs_destroy s = Some s1"
    and "nbtrfs_start env (files(f := Image (disk_base (disk s1)) bytes)) (args @ [f]) physical_memory = Some s2" and "remounted s s2"
proof -
  obtain s1 where s1: "nbtrfs_destroy s = Some s1" "unmounted s (disk s1)" by (rule nbtrfs_destroy_ok [OF R co c]) (rule that)
  obtain s2 where s2: "sync_journal env (mounted (disk s1) (new_cache (unat (alloc_cache_size physical_memory)))) = Some s2" "remounted s s2"
    by (rule mount_ok [OF R s1(2) new_cache_room [OF n(1) m]]) (rule that)
  have "unat (total_blocks (disk s1)) = bytes div BLOCK_SIZE" using s1(2) n(2) by (simp add: unmounted_def)
  then show thesis
    using s1(1) s2 start_mounts [of "args @ [f]" "files(f := Image (disk_base (disk s1)) bytes)" "disk s1" bytes env physical_memory]
    by (intro that [of s1 s2]) simp_all
qed

end
