(* ===== verification/New_Volume.thy ===== *)
theory New_Volume
  imports New_Files Programs
begin

text \<open>
  A volume just made by \<^verbatim>\<open>mkfs\<close> and mounted meets what \<open>Create\<close> asks of a volume: the root directory is
  inode 0 without entries and without blocks, 21 inodes of the first table block are free, as are all
  blocks behind the root node, and every slot of the journal is open.
\<close>

lemma formatted_sound:
  assumes f: "formatted s sb" and ok: "store_ok s" and n: "200 \<le> nblocks s"
  shows "sound s 22"
proof -
  note G = geometry_bounds [OF n]
  have F: "filled s (Suc (root_at_block (nblocks s)))" and N: "new_inodes s" using f by (simp_all add: formatted_def Let_def)
  have vo: "volume_ok s" and u: "\<And>j. j < nblocks s \<Longrightarrow> block_used s j = (j < Suc (root_at_block (nblocks s)))"
    using F by (simp_all add: filled_def)
  have used: "used s b" if "unat b \<le> root_at_block (nblocks s)" for b using that G u by (simp add: used_def)
  have bb: "unat (bitmap_block j) \<le> bitmap_blocks (nblocks s)" if "j < nblocks s" for j
    using unat_bitmap_block(1) [OF vo that] bitmap_block_bound [OF that] by simp
  have "tree_volume s" using vo used [of 0] used [of "bitmap_block _"] bb G by (fastforce simp: tree_volume_def used_def)
  moreover have "unat (inode_bitmap (sb_of s)) + m div USABLE_BLOCK_SIZE < nblocks s \<and> used s (inode_bit_block s m) \<and>
      btype (view s (inode_bit_block s m)) = BLOCK_TYPE_BITMAP \<and> (\<forall>j < nblocks s. inode_bit_block s m \<noteq> bitmap_block j) \<and>
      used s (inode_home s m) \<and> btype (view s (inode_home s m)) = BLOCK_TYPE_INODE" if m: "m < 22" for m
  proof -
    have M: "unat (inode_bit_block s m) = 1 + bitmap_blocks (nblocks s)" "unat (inode_home s m) = table_start (nblocks s)"
        "inode_ok s m" "inode_map_ok s m" using N m by (simp_all add: new_inodes_def)
    then have "inode_bit_block s m \<noteq> bitmap_block j" if "j < nblocks s" for j using bb [OF that] by auto
    with M show ?thesis using used G by (auto simp: inode_ok_def inode_map_ok_def)
  qed
  moreover have "unat (journal_start (sb_of s)) + ring_size (sb_of s) \<le> nblocks s" using formatted_ring(1) [OF f ok n] by (simp add: ring_ok_def)
  moreover have "used s (slot s h) \<and> btype (view s (slot s h)) = BLOCK_TYPE_JOURNAL" if h: "h < ring_size (sb_of s)" for h
  proof -
    have "unat (slot s h) = unat (journal_start (sb_of s)) + h" by (rule ring_slot(1) [OF formatted_ring(1) [OF f ok n] h])
    moreover have "unat (journal_start (sb_of s)) = journal_at (nblocks s)"
      using f small_unat [OF ok, of "journal_at (nblocks s)"] G by (simp add: formatted_def Let_def)
    moreover have "h < nblocks s div 100" using h formatted_ring(2) [OF f ok n] by simp
    ultimately have "unat (slot s h) \<le> root_at_block (nblocks s)" by (simp add: root_at_block_def)
    then show ?thesis using used formatted_journal(3) [OF f ok n h] by simp
  qed
  ultimately show ?thesis by (simp add: sound_def)
qed

definition new_vol :: "fs \<Rightarrow> vol" where
  "new_vol s = \<lparr>v_inode = inode_of s, v_taken = (\<lambda>m. m = 0), v_free = {Suc (root_at_block (nblocks s))..<nblocks s},
     v_names = [], v_leaf = (\<lambda>_. (0, 0)), v_slots = ring_size (sb_of s)\<rparr>"

lemma formatted_models:
  assumes f: "formatted s sb" and ok: "store_ok s" and n: "200 \<le> nblocks s" and c: "\<not> cache_disabled s" and z: "inode_number (inode_of s 0) = 0"
  shows "models s 22 0 (new_vol s)"
proof -
  have F: "filled s (Suc (root_at_block (nblocks s)))" and N: "new_inodes s" and t: "flat_at s (btree_root (sb_of s)) []"
    using f by (simp_all add: formatted_def Let_def)
  have "root_dir s 22 0 []"
    using formatted_sound [OF f ok n] t formatted_rooted(4) [OF f ok] z by (simp add: root_dir_def)
  moreover have "open_ahead s (ring_size (sb_of s))"
    using formatted_journal(2) [OF f ok n c] formatted_ring(1) [OF f ok n] by (auto simp: open_ahead_def ring_ok_def)
  moreover have "free_set s = {Suc (root_at_block (nblocks s))..<nblocks s}" using F by (auto simp: free_set_def filled_def)
  ultimately show ?thesis using N by (simp add: models_def new_vol_def new_inodes_def)
qed

lemma new_volume_can_make:
  assumes f: "formatted s sb" and ok: "store_ok s" and n: "200 \<le> nblocks s" and c: "\<not> cache_disabled s" and z: "inode_number (inode_of s 0) = 0"
    and d: "direct_blocks (inode_of s 0) ! 0 = 0" and free: "root_at_block (nblocks s) + 3 \<le> nblocks s"
    and name: "component c" "length c < NAME_MAX" "CHR 0x00 \<notin> set c" and md: "md AND S_IFMT \<noteq> FILE_TYPE_DIRECTORY"
  shows "can_make s 22 0 (new_vol s) c md 1 []"
proof -
  have "room_for s 0 []" using d by (simp add: room_for_def scan)
  moreover have "extra s 0 < card (v_free (new_vol s))" using free by (auto simp: extra_def new_vol_def)
  ultimately show ?thesis
    using formatted_models [OF f ok n c z] name md by (simp add: can_make_def new_vol_def layout)
qed

text \<open>There is room behind the root node.\<close>

lemma geometry_room:
  assumes "(m + 3) * 100 \<le> n"
  shows "root_at_block n + 3 + m \<le> n" and "m + 2 \<le> n div 100 - 1"
proof -
  have "4092 * bitmap_blocks n \<le> n + 4091" "16368 * ((n + 16367) div 16368) \<le> n + 16367" "88 * (n div 88) \<le> n" "100 * (n div 100) \<le> n"
    by (simp_all add: bitmap_blocks_def)
  moreover have "root_at_block n = 1 + bitmap_blocks n + (n + 16367) div 16368 + n div 88 + n div 100"
    by (simp add: root_at_block_def journal_at_def table_start_def)
  moreover have "100 * m + 300 \<le> n" using assms by simp
  ultimately show "root_at_block n + 3 + m \<le> n" by linarith
  have "(m + 3) * 100 div 100 \<le> n div 100" using assms by (rule div_le_mono)
  then show "m + 2 \<le> n div 100 - 1" by simp
qed

lemma zero_inode_fields [simp]:
  "direct_blocks (inode_load (set_btype ty zero_block) k) = replicate 12 0" "i_size (inode_load (set_btype ty zero_block) k) = 0"
  by (simp_all add: inode_load_def Let_def inode_off_def load_zero load_words_def map_replicate_const layout)

section \<open>From the programs\<close>

definition new_image :: "fs \<Rightarrow> env \<Rightarrow> nat \<Rightarrow> bool" where
  "new_image s env n \<longleftrightarrow> (\<exists>sb. formatted s sb) \<and> store_ok s \<and> \<not> cache_disabled s \<and> nblocks s = n \<and>
     inode_of s 0 = fresh_inode (e_uid env) (e_gid env) (S_IFDIR OR 0x1ED) 0 (inode_load (set_btype BLOCK_TYPE_INODE zero_block) 0)"

lemma volume_started:
  assumes "files f = Image (\<lambda>_. zero_block) bytes" and "n = bytes div BLOCK_SIZE" and "200 \<le> n" and "n \<le> 16384"
    and "length name \<le> 31" and "CHR 0x00 \<notin> set name" and "unat physical_memory < 2 ^ 61"
  obtains image s where "mkfs env files [p, ''-l'', name, f] = Some (0, Some image)"
    and "nbtrfs_start env' (files(f := image)) (args @ [f]) physical_memory = Some s" and "new_image s env n"
proof -
  obtain s1 where s1: "mkfs env files [p, ''-l'', name, f] = Some (0, Some (Image (disk_base (disk s1)) bytes))" "store_ok s1" "cache_disabled s1"
      "nblocks s1 = n" "formatted s1 (sb_initial (bytes_of name) (of_nat n) (clock env (mapped \<lparr>disk_base = \<lambda>_. zero_block, total_blocks = of_nat n\<rparr>)) (sb_load zero_block))"
      "inode_of s1 0 = fresh_inode (e_uid env) (e_gid env) (S_IFDIR OR 0x1ED) 0 (inode_load (set_btype BLOCK_TYPE_INODE zero_block) 0)"
    by (rule mkfs_ok [of files "[p, ''-l'', name, f]" bytes name n env])
      (use assms volume_label_ok [OF assms(5,6)] that in simp_all)
  obtain s where s: "nbtrfs_start env' (files(f := Image (disk_base (disk s1)) bytes)) (args @ [f]) physical_memory = Some s" "store_ok s"
      "\<not> cache_disabled s" "nblocks s = nblocks s1" "\<exists>sb. formatted s sb" "inode_of s 0 = inode_of s1 0"
    by (rule start_ok [OF s1(5,2,3), of "args @ [f]" "files(f := Image (disk_base (disk s1)) bytes)" bytes physical_memory env'])
      (use assms s1(4) that in auto)
  show thesis using s1(1,4,6) s by (intro that [of "Image (disk_base (disk s1)) bytes" s]) (auto simp: new_image_def)
qed

text \<open>A name that a component of a path and an entry of a directory can have.\<close>

definition entry_can_be :: "string \<Rightarrow> bool" where
  "entry_can_be c \<longleftrightarrow> component c \<and> length c < NAME_MAX \<and> CHR 0x00 \<notin> set c"

lemma new_image_can_make:
  assumes N: "new_image s env n" and c: "entry_can_be c" and md: "md AND S_IFMT \<noteq> FILE_TYPE_DIRECTORY" and n: "300 \<le> n"
  shows "can_make s 22 0 (new_vol s) c md 1 []" and "extra s 0 = 1" and "v_slots (new_vol s) = n div 100 - 1"
    and "root_at_block n + 1 + card (v_free (new_vol s)) = n" and "direct_blocks (inode_of s 0) ! 1 = 0"
    and "v_inode (new_vol s) 1 = inode_load (set_btype BLOCK_TYPE_INODE zero_block) 1" and "length (join [c]) < PATH_MAX"
proof -
  obtain sb where f: "formatted s sb" and ok: "store_ok s" "\<not> cache_disabled s" and nb: "nblocks s = n"
      and i: "inode_number (inode_of s 0) = 0" "direct_blocks (inode_of s 0) = replicate 12 0"
    using N by (auto simp: new_image_def fresh_inode_def)
  have n2: "200 \<le> nblocks s" using n nb by simp
  have d: "first_block s 0 = 0" using i(2) by simp
  note rm = geometry_room [of 0 n]
  show "can_make s 22 0 (new_vol s) c md 1 []"
    by (rule new_volume_can_make [OF f ok(1) n2 ok(2) i(1) d _ _ _ _ md]) (use rm n nb c in \<open>simp_all add: entry_can_be_def\<close>)
  show "extra s 0 = 1" using d by (simp add: extra_def)
  show "v_slots (new_vol s) = n div 100 - 1" using formatted_ring(2) [OF f ok(1) n2] nb by (simp add: new_vol_def)
  show "root_at_block n + 1 + card (v_free (new_vol s)) = n" using rm(1) n nb by (simp add: new_vol_def)
  show "direct_blocks (inode_of s 0) ! 1 = 0" using i(2) by simp
  show "v_inode (new_vol s) 1 = inode_load (set_btype BLOCK_TYPE_INODE zero_block) 1"
    using f by (simp add: new_vol_def formatted_def Let_def new_inodes_def)
  show "length (join [c]) < PATH_MAX" using c by (simp add: entry_can_be_def PATH_MAX_def layout)
qed

text \<open>A file written to a new volume: it is made, reads back, and is what the root directory lists.\<close>

lemma new_volume_write:
  assumes N: "new_image s env' n" and c: "entry_can_be c"
    and buf: "buf \<noteq> []" "length buf \<le> m * USABLE_BLOCK_SIZE" "m \<le> 12" and n: "(m + 3) * 100 \<le> n"
  obtains s1 s2 s3 s4 e where "nbtrfs_write env s (join [c]) buf 0 = Some (int (length buf), s1)"
    and "nbtrfs_read s1 (join [c]) (of_nat (length buf)) 0 = Some (int (length buf), buf, s2)"
    and "nbtrfs_getattr s1 (join [c]) = Some (Some (stat_of (inode_of s1 1) 1), s3)"
    and "mode (inode_of s1 1) = S_IFREG OR 0x1A4" and "i_size (inode_of s1 1) = of_nat (length buf)" and "owner_id (inode_of s1 1) = e_uid env"
    and "directory_list s1 ''/'' = Some (Some [e], s4)" and "entry_name e = Some c" and "de_inode e = 1" and "kept {} s s1"
proof -
  note rm = geometry_room [OF n]
  have n3: "300 \<le> n" using n by simp
  have md: "(S_IFREG OR 0x1A4) AND S_IFMT \<noteq> FILE_TYPE_DIRECTORY" by (simp add: S_IFREG_def S_IFMT_def S_IFDIR_def)
  note V = new_image_can_make [OF N c md n3]
  obtain s1 b j l where w: "nbtrfs_write env s (join [c]) buf 0 = Some (int (length buf), s1)" "models s1 22 0 b"
      "v_names b = with_leaf (v_names (new_vol s)) (path_hash c) l" "file_at s1 [c] 1" "inode_of s1 1 = j"
      "mode j = S_IFREG OR 0x1A4" "i_size j = of_nat (length buf)" "owner_id j = e_uid env"
      "\<exists>k. file_ok s1 j k \<and> length buf \<le> k * USABLE_BLOCK_SIZE" "file_bytes s1 j 0 (length buf) = buf"
      "kept {first_block s 0} s s1" "lists_new s1 0 [] c 1" "\<exists>d. inode_of s1 0 = with_block 0 d (inode_of s 0)"
    by (rule create_write_step [OF V(1) _ V(7) _ _ buf(2,3), of env]) (use V rm in simp_all)
  obtain k where k: "file_ok s1 j k" "length buf \<le> k * USABLE_BLOCK_SIZE" using w(9) by blast
  have "m * USABLE_BLOCK_SIZE \<le> 12 * USABLE_BLOCK_SIZE" using buf(3) by (rule mult_le_mono1)
  then have small: "length buf < 2 ^ 31" using buf(2) by (simp add: layout)
  then have sz: "unat (i_size j) = length buf" unfolding w(7) by (intro unat_of_nat_small) simp
  obtain s2 where s2: "nbtrfs_read s1 (join [c]) (of_nat (length buf)) (of_nat 0) =
      Some (int (min (length buf) (unat (i_size j) - 0)), file_bytes s1 j 0 (min (length buf) (unat (i_size j) - 0)), s2)"
    by (rule nbtrfs_read_ok [OF w(4) w(5) [symmetric] k(1), of 0 "length buf"]) (use sz k buf(1) small in simp_all)
  obtain s3 where s3: "nbtrfs_getattr s1 (join [c]) = Some (Some (stat_of (inode_of s1 1) (of_nat 1)), s3)"
    by (rule nbtrfs_getattr_ok [OF w(4)])
  obtain q us vs e where e: "dir_data s1 0 q" "listing (view s1 (first_block s1 0)) q = us @ e # vs" "[] = us @ vs" "de_inode e = of_nat 1" "entry_name e = Some c"
    using w(12) unfolding lists_new_def by blast
  have d1: "direct_blocks (inode_of s1 0) ! 1 = 0" using w(13) V(5) by (auto simp: with_block_def)
  obtain s4 where s4: "directory_list s1 ''/'' = Some (Some (listing (view s1 (first_block s1 0)) q), s4)"
    by (rule directory_list_ok [OF modelsD(1) [OF w(2)] e(1) d1])
  have "models s 22 0 (new_vol s)" using V(1) by (simp add: can_make_def)
  then have "btype (view s 0) \<noteq> BLOCK_TYPE_DATA" using soundD(6) [OF modelsD(2)] by (fastforce simp: block_types)
  moreover have "first_block s 0 = 0" using V(2) by (cases "first_block s 0 = 0") (simp_all add: extra_def)
  ultimately have kp: "kept {} s s1" using w(11) by (simp add: kept_def insert_absorb)
  show thesis
    by (rule that [OF w(1) _ _ _ _ _ _ e(5) _ kp]) (use s2 s3 s4 e sz w in simp_all)
qed

end
