(* ===== verification/Removal.thy ===== *)
theory Removal
  imports New_Files
begin

text \<open>
  Removing a file from the root directory, from \<open>nbtrfs_unlink\<close> down to the blocks: the journal entry, the entry of
  the directory, the inode, and the leaf of the tree, as steps on the abstract volume of theory \<open>Create\<close>. A removal
  frees blocks, so it is not one of the steps \<open>kept\<close>; \<open>frees\<close> says which block it frees.
\<close>

section \<open>Giving an inode back\<close>

lemma inode_wipe:
  shows "inode_load (store_bytes (replicate INODE_SIZE 0) b (inode_off k)) j = (if j = k then zero_inode else inode_load b j)"
    and "btype (store_bytes (replicate INODE_SIZE 0) b (inode_off k)) = btype b"
proof -
  let ?b = "store_bytes (replicate INODE_SIZE 0) b (inode_off k)"
  have out: "?b i = b i" if "i < inode_off k \<or> inode_off k + INODE_SIZE \<le> i" for i using that by (auto simp: store_bytes_def)
  have load: "inode_load u j = inode_load w l" if "\<And>i. i < INODE_SIZE \<Longrightarrow> u (inode_off j + i) = w (inode_off l + i)" for u w l
  proof -
    have ld: "load_le n u (inode_off j + d) = load_le n w (inode_off l + d)" if "d + n \<le> 184" for n d
    proof -
      have "\<And>i. i < n \<Longrightarrow> u (inode_off j + d + i) = w (inode_off l + d + i)"
        using \<open>\<And>i. i < INODE_SIZE \<Longrightarrow> u (inode_off j + i) = w (inode_off l + i)\<close> [of "d + i" for i] \<open>d + n \<le> 184\<close> by (simp add: INODE_SIZE_def add.assoc)
      then show ?thesis by (induction n) simp_all
    qed
    have "load_words 12 u (inode_off j + 32) = load_words 12 w (inode_off l + 32)"
      by (intro nth_equalityI) (simp_all add: add.assoc ld)
    moreover have "load64 u (inode_off j) = load64 w (inode_off l)" using ld [of 0 8] by simp
    ultimately show ?thesis by (simp add: inode_load_def Let_def ld)
  qed
  show "inode_load ?b j = (if j = k then zero_inode else inode_load b j)"
  proof (cases "j = k")
    case True
    have "?b (inode_off k + i) = 0" if "i < INODE_SIZE" for i using that by (simp add: store_bytes_def)
    then have "inode_load ?b j = inode_load (\<lambda>_. 0) 0" by (intro load) (simp add: True)
    then show ?thesis by (simp add: zero_inode_def True)
  next
    case False
    have "inode_load ?b j = inode_load b j"
      by (rule load) (use inode_off_disjoint [OF False] in \<open>auto intro!: out\<close>)
    then show ?thesis using False by simp
  qed
  show "btype ?b = btype b" by (intro load_le_cong out) (simp add: inode_off_def)
qed

lemma inode_free_ok:
  assumes ok: "inode_ok s n" and map: "inode_map_ok s n"
  obtains s' bm where "inode_free s (of_nat n) wt = Some (0, s')" and "st.keeps s s'"
    and "view s' = (view s)(inode_bit_block s n := bm,
      inode_home s n := store_bytes (replicate INODE_SIZE 0) (view s (inode_home s n)) (inode_off (n mod inode_per_page)))"
    and "btype bm = BLOCK_TYPE_BITMAP"
    and "\<And>j. bitmap_bit bm j = (j \<noteq> n mod USABLE_BLOCK_SIZE \<and> bitmap_bit (view s (inode_bit_block s n)) j)"
proof -
  let ?b = "inode_bit_block s n" and ?h = "inode_home s n"
  have sok: "store_ok s" and n: "n < 2 ^ 63" and lim: "unat ?h < nblocks s" and th: "btype (view s ?h) = BLOCK_TYPE_INODE"
      and t0: "btype (view s 0) = BLOCK_TYPE_SUPER" and nb: "0 < nblocks s"
    using ok by (auto simp: inode_ok_def)
  have ty: "btype (view s ?b) = BLOCK_TYPE_BITMAP" and l: "n div USABLE_BLOCK_SIZE < nblocks s" using map by (auto simp: inode_map_ok_def)
  have b0: "?b \<noteq> 0" "?b \<noteq> ?h" using ty t0 th by (auto simp: block_types)
  have n64: "n < 2 ^ 64" using n by simp
  have "nblocks s \<le> 2 ^ 19" using sok by (simp add: store_ok_def addressable_def)
  then have "n div USABLE_BLOCK_SIZE < 2 ^ 19" using l by simp
  then have "n div 22 < 2 ^ 31" by (simp add: layout less_mult_imp_div_less div_less_iff_less_mult)
  then have q: "int_of_u64 (of_nat (n div inode_per_page)) = int (n div inode_per_page)"
    by (subst int_of_u64_small) (simp_all add: per_page unat_of_nat_small)
  note W = word_div_mod_nat [OF n64]
  have d: "(of_nat n :: u64) div of_nat USABLE_BLOCK_SIZE = of_nat (n div USABLE_BLOCK_SIZE)"
      "unat ((of_nat n :: u64) mod of_nat USABLE_BLOCK_SIZE) = n mod USABLE_BLOCK_SIZE"
    by (rule W; simp add: layout)+
  have e: "(of_nat n :: u64) div of_nat inode_per_page = of_nat (n div inode_per_page)"
      "unat ((of_nat n :: u64) mod of_nat inode_per_page) = n mod inode_per_page"
    by (rule W; simp add: per_page)+
  obtain s1 where s1: "superblock_read s = Some (Some (sb_of s), s1)" "st.silent s s1" by (rule superblock_read_valid [OF sok nb t0])
  note k1 = st.keepsD [OF st.silentD(1) [OF s1(2)]] and v1 = st.silentD(2) [OF s1(2)]
  have lb: "unat ?b < nblocks s1" using inode_bit_block_unat(2) [OF sok map order.refl] k1(2) by simp
  obtain ibm s2 where s2: "get_block s1 0 ?b = Some (ibm, s2)" "st.silent s1 s2" "points s2 ibm ?b"
    using st.get_silent [OF k1(1) lb] by blast
  note k2 = st.keepsD [OF st.silentD(1) [OF s2(2)]] and v2 = st.silentD(2) [OF s2(2)]
  have d2: "deref s2 ibm = Some (view s ?b)" using st.load_view [OF k2(1) s2(3)] by (simp add: v2 v1)
  obtain bm where bm: "bitmap_put (view s ?b) (int (n mod USABLE_BLOCK_SIZE)) 0 = Some (0, bm)" "btype bm = BLOCK_TYPE_BITMAP"
      "\<And>j. bitmap_bit bm j = (if j = n mod USABLE_BLOCK_SIZE then (0::int) \<noteq> 0 else bitmap_bit (view s ?b) j)"
    by (rule bitmap_put_ok [OF ty bit_offset_less, of n 0]) (rule that)
  obtain s3 where s3: "assign s2 ibm bm = Some s3" "st.changes s2 s3 ?b bm" using st.store_changes [OF k2(1) s2(3)] by blast
  note k3 = st.keepsD [OF st.changesD(1) [OF s3(2)]] and v3 = st.changesD(2) [OF s3(2)]
  have lh: "unat ?h < nblocks s3" using lim k1(2) k2(2) k3(2) by simp
  obtain p s4 where s4: "get_block s3 0 ?h = Some (p, s4)" "st.silent s3 s4" "points s4 p ?h"
    using st.get_silent [OF k3(1) lh] by blast
  note k4 = st.keepsD [OF st.silentD(1) [OF s4(2)]] and v4 = st.silentD(2) [OF s4(2)]
  have vh: "view s4 ?h = view s ?h" using b0 by (simp add: v4 v3 v2 v1)
  have d4: "deref s4 p = Some (view s ?h)" using st.load_view [OF k4(1) s4(3)] vh by simp
  let ?x = "store_bytes (replicate INODE_SIZE 0) (view s ?h) (inode_off (n mod inode_per_page))"
  obtain s5 where s5: "assign s4 p ?x = Some s5" "st.changes s4 s5 ?h ?x" using st.store_changes [OF k4(1) s4(3)] by blast
  note k5 = st.keepsD [OF st.changesD(1) [OF s5(2)]] and v5 = st.changesD(2) [OF s5(2)]
  obtain s6 where s6: "put_block s5 p ?h wt = Some s6" "st.keeps s5 s6" "view s6 = view s5"
    by (rule put_block_ok [OF k5(1) k5(4) [OF s4(3)]])
  have p6: "points s6 ibm ?b" by (intro st.keepsD(4) [OF s6(2)] k5(4) k4(4) k3(4) s2(3))
  obtain s7 where s7: "put_block s6 ibm ?b wt = Some s7" "st.keeps s6 s7" "view s7 = view s6"
    by (rule put_block_ok [OF st.keepsD(1) [OF s6(2)] p6])
  have "inode_free s (of_nat n) wt = Some (0, s7)"
    using s1(1) s2(1) d2 bm(1) s3(1) s4(1) d4 th s5(1) s6(1) s7(1)
    by (simp add: inode_free_def d e q Let_def inode_bit_block_def [symmetric] inode_home_def [symmetric])
  moreover have "st.keeps s s7"
    using st.silentD(1) [OF s1(2)] st.silentD(1) [OF s2(2)] st.changesD(1) [OF s3(2)] st.silentD(1) [OF s4(2)] st.changesD(1) [OF s5(2)] s6(2) s7(2)
      st.keeps_trans by meson
  moreover have "view s7 = (view s)(?b := bm, ?h := ?x)" by (simp add: s7(3) s6(3) v5 v4 v3 v2 v1)
  ultimately show thesis by (rule that) (use bm in auto)
qed

text \<open>On the abstract volume, for an inode other than that of the root directory.\<close>

lemma release_step:
  assumes S: "models s M r a" and n: "n < M" and nr: "n \<noteq> r"
  obtains s' where "inode_free s (of_nat n) wt = Some (0, s')"
    and "models s' M r (a\<lparr>v_inode := (v_inode a)(n := zero_inode), v_taken := (v_taken a)(n := False)\<rparr>)" and "kept {} s s'"
proof -
  note D = modelsD [OF S]
  note io = sound_inode [OF D(2) n]
  let ?b = "inode_bit_block s n" and ?h = "inode_home s n"
  obtain s' bm where w: "inode_free s (of_nat n) wt = Some (0, s')" "st.keeps s s'"
      "view s' = (view s)(?b := bm, ?h := store_bytes (replicate INODE_SIZE 0) (view s ?h) (inode_off (n mod inode_per_page)))"
      "btype bm = BLOCK_TYPE_BITMAP"
      "\<And>j. bitmap_bit bm j = (j \<noteq> n mod USABLE_BLOCK_SIZE \<and> bitmap_bit (view s ?b) j)"
    by (rule inode_free_ok [OF io(1,2), of wt]) (rule that)
  have bh: "?b \<noteq> ?h" using io(6,7) by (auto simp: block_types)
  have z: "?b \<noteq> 0" "?h \<noteq> 0" using io(6,7) soundD(6) [OF D(2)] by (auto simp: block_types)
  have sb: "sb_of s' = sb_of s" using z by (simp add: sb_of_def w(3))
  have ty: "btype (view s' c) = btype (view s c)" for c using bh io(7) inode_wipe(2) by (simp add: w(3,4))
  have nb: "bitmap_block j \<notin> {?b, ?h}" if j: "j < nblocks s" for j
    using io(6) io(8) [OF j] soundD(8) [OF D(2) j] by (auto simp: block_types)
  have us: "block_used s' j = block_used s j" if "j < nblocks s" for j using nb [OF that] by (simp add: block_used_def w(3))
  have mv: "moves {?b, ?h} s s'" using w(2) ty us st.keepsD(2) [OF w(2)] by (auto simp: moves_def used_def shape_def sb w(3))
  have hm: "inode_home s' m = inode_home s m" "inode_bit_block s' m = inode_bit_block s m" for m
    by (simp_all add: inode_home_def inode_bit_block_def sb)
  have I: "inode_of s' m = ((v_inode a)(n := zero_inode)) m" if m: "m < M" for m
  proof (cases "inode_home s m = ?h")
    case True
    have eq: "m mod inode_per_page = n mod inode_per_page \<longleftrightarrow> m = n"
      using same_home [OF sound_inode(5) [OF D(2) m] io(5) True] by auto
    have "inode_of s' m = inode_load (view s' ?h) (m mod inode_per_page)" by (simp add: inode_of_def hm True)
    also have "\<dots> = (if m = n then zero_inode else inode_of s m)" using bh eq by (simp add: w(3) inode_wipe(1) inode_of_def True)
    finally show ?thesis using D(6) [OF m] by simp
  next
    case False
    then have "inode_home s m \<noteq> ?b" using sound_inode(6) [OF D(2) m] io(7) by (auto simp: block_types)
    with False show ?thesis using D(6) [OF m] by (auto simp: inode_of_def hm w(3))
  qed
  have U: "inode_used s' m = ((v_taken a)(n := False)) m" if m: "m < M" for m
  proof (cases "m div USABLE_BLOCK_SIZE = n div USABLE_BLOCK_SIZE")
    case True
    have "m mod USABLE_BLOCK_SIZE = n mod USABLE_BLOCK_SIZE \<longleftrightarrow> m = n" using True by (metis div_mult_mod_eq)
    moreover have "inode_bit_block s m = ?b" using True by (simp add: inode_bit_block_def)
    ultimately show ?thesis using D(7) [OF m] bh by (auto simp: inode_used_def hm w(3,5))
  next
    case False
    note J = sound_inode [OF D(2) m]
    have "inode_bit_block s m \<noteq> ?b"
      using inode_bit_block_unat(1) [OF D(3) J(2) order.refl] inode_bit_block_unat(1) [OF D(3) io(2) order.refl] False by auto
    moreover have "inode_bit_block s m \<noteq> ?h" using J(7) io(6) by (auto simp: block_types)
    moreover have "m \<noteq> n" using False by auto
    ultimately show ?thesis using D(7) [OF m] by (simp add: inode_used_def hm w(3))
  qed
  have fs: "free_set s' = v_free a" using moves_free_set [OF D(2) mv nb] D(5) by simp
  have op: "open_ahead s' (v_slots a)" by (rule open_moves [OF D(4,2) mv]) (use sb io(6,7) in \<open>auto simp: block_types\<close>)
  have "inode_number (((v_inode a)(n := zero_inode)) r) = of_nat r" using models_inode(1) [OF S] nr by simp
  then have "models s' M r (a\<lparr>v_inode := (v_inode a)(n := zero_inode), v_taken := (v_taken a)(n := False), v_free := free_set s', v_slots := v_slots a\<rparr>)"
    using io(6,7) I U by (intro models_step [OF S mv op]) (auto simp: block_types)
  moreover have "kept {} s s'" using io(6,7) by (intro kept_moves [OF mv]) (auto simp: block_types)
  ultimately show thesis using w(1) fs by (intro that [of s']) simp_all
qed

section \<open>Taking an entry out of a directory block\<close>

definition without_entry :: "nat \<Rightarrow> block \<Rightarrow> block" where
  "without_entry k b = set_entry_count (entry_count b - 1) (store_bytes [0] b (6 + DIRENT_SIZE * k + 272))"

lemma dir_slot_cleared:
  "dir_slot (store_bytes [0] b (6 + DIRENT_SIZE * k + 272)) i = (if i = k then (dir_slot b k)\<lparr>de_active := 0\<rparr> else dir_slot b i)"
proof (cases "i = k")
  case True
  let ?o = "6 + DIRENT_SIZE * k"
  have "load_bytes 7 (store_bytes [0] b (?o + 272)) (?o + 273) = load_bytes 7 b (?o + 273)"
    unfolding load_bytes_def by (intro map_cong) (simp_all add: store_bytes_def)
  then show ?thesis using True by (simp add: dir_slot_def de_load_def layout)
next
  case False
  then have "Suc i \<le> k \<or> Suc k \<le> i" by linarith
  then have d: "DIRENT_SIZE * Suc i \<le> DIRENT_SIZE * k \<or> DIRENT_SIZE * Suc k \<le> DIRENT_SIZE * i" using mult_le_mono2 by blast
  have "dir_slot (store_bytes [0] b (6 + DIRENT_SIZE * k + 272)) i = dir_slot b i"
    unfolding dir_slot_def by (rule de_load_cong) (use d in \<open>auto simp: store_bytes_def layout\<close>)
  with False show ?thesis by simp
qed

lemma dir_slot_without:
  "dir_slot (without_entry k b) i = (if i = k then (dir_slot b k)\<lparr>de_active := 0\<rparr> else dir_slot b i)"
  unfolding without_entry_def dir_slot_count dir_slot_cleared ..

lemma btype_without: "btype (without_entry k b) = btype b"
  by (simp add: without_entry_def)

lemma listing_without:
  assumes l: "listing b m = us @ e # vs" and e: "in_slot b us e"
  shows "listing (without_entry (length us) b) m = us @ vs" and "length us < m"
proof -
  let ?k = "length us" and ?b = "without_entry (length us) b"
  have "x \<in> set (listing b m) \<Longrightarrow> de_active x \<noteq> 0" for x by (auto simp: listing_def)
  then have act: "\<And>u. u \<in> set us \<Longrightarrow> de_active u \<noteq> 0" "de_active e \<noteq> 0" by (simp_all add: l)
  show k: "?k < m" using listing_length [of b m] l by simp
  have f: "listing b ?k = us" using e act by (simp add: listing_def in_slot_def)
  then have s: "listing b (Suc ?k) = us @ [e]" using in_slotD(2) [OF e] act by (simp add: listing_Suc)
  have v: "vs = filter (\<lambda>e. de_active e \<noteq> 0) (map (dir_slot b) [Suc ?k..<m])" using listing_append [of "Suc ?k" m b] k s l by simp
  have "listing ?b ?k = listing b ?k" unfolding listing_def by (intro filter_cong map_cong) (simp_all add: dir_slot_without)
  then have "listing ?b (Suc ?k) = us" using f by (simp add: listing_Suc dir_slot_without)
  moreover have "map (dir_slot ?b) [Suc ?k..<m] = map (dir_slot b) [Suc ?k..<m]" by (intro map_cong) (simp_all add: dir_slot_without)
  ultimately show "listing ?b m = us @ vs" using listing_append [of "Suc ?k" m ?b] k v by (simp del: map_eq_conv)
qed

lemma dir_at_without:
  assumes b: "dir_at b m" and l: "listing b m = us @ e # vs" and e: "in_slot b us e"
  shows "dir_at (without_entry (length us) b) m"
proof -
  have c: "unat (entry_count b) = Suc (length (us @ vs))" using b l by (simp add: dir_at_def)
  then have "entry_count b \<noteq> 0" by auto
  then have "unat (entry_count b - 1) = length (us @ vs)" using c by (simp add: unat_minus_one)
  moreover have "entry_count (without_entry (length us) b) = entry_count b - 1" by (simp add: without_entry_def)
  ultimately show ?thesis using b listing_without(1) [OF l e] by (simp add: dir_at_def)
qed

text \<open>Both searches stop at the slot of the entry when the names in front of it are others.\<close>

definition named_first :: "DirEntry list \<Rightarrow> DirEntry \<Rightarrow> string \<Rightarrow> bool" where
  "named_first us e c \<longleftrightarrow> entry_name e = Some c \<and> (\<forall>u \<in> set us. entry_name u \<noteq> None \<and> entry_name u \<noteq> Some c)"

lemma search_slots:
  assumes e: "in_slot b us e" and n: "named_first us e c" and nul: "CHR 0x00 \<notin> set c" and act: "de_active e \<noteq> 0"
    and "j \<le> length us" and "length us < j + r"
  shows "\<exists>k. find_named r b (6 + DIRENT_SIZE * j) c x = Some (Some (6 + DIRENT_SIZE * length us), k)"
    and "\<exists>k. exists_scan r b (6 + DIRENT_SIZE * j) c x = Some (Some e, k)"
proof -
  have cmp: "strcmp_eq (de_name (dir_slot b i)) c = Some (i = length us)" if "i \<le> length us" for i
  proof (cases "i = length us")
    case True
    then show ?thesis using strcmp_eq_str [OF _ nul] in_slotD(2) [OF e] n by (simp add: named_first_def entry_name_def)
  next
    case False
    then have i: "i < length us" using that by simp
    then obtain str where "entry_name (us ! i) = Some str" "str \<noteq> c" using n nth_mem [OF i] unfolding named_first_def by (metis option.exhaust)
    then show ?thesis using strcmp_eq_str [OF _ nul] in_slotD(1) [OF e i] False by (simp add: entry_name_def)
  qed
  have same: "\<exists>k. find_named (Suc r) b (6 + DIRENT_SIZE * length us) c x = Some (Some (6 + DIRENT_SIZE * length us), k)"
      "\<exists>k. exists_scan (Suc r) b (6 + DIRENT_SIZE * length us) c x = Some (Some e, k)" for r x
    using cmp [of "length us"] in_slotD(2) [OF e] act by (auto simp: dir_slot_def)
  have skip: "\<exists>y. find_named (Suc r) b (6 + DIRENT_SIZE * j) c x = find_named r b (6 + DIRENT_SIZE * Suc j) c y"
      "\<exists>y. exists_scan (Suc r) b (6 + DIRENT_SIZE * j) c x = exists_scan r b (6 + DIRENT_SIZE * Suc j) c y" if "j < length us" for j r x
    using cmp [of j] that by (auto simp: dir_slot_def ac_simps)
  show "\<exists>k. find_named r b (6 + DIRENT_SIZE * j) c x = Some (Some (6 + DIRENT_SIZE * length us), k)" using assms(5,6)
  proof (induction r arbitrary: j x)
    case (Suc r)
    show ?case
    proof (cases "j = length us")
      case True
      then show ?thesis using same(1) by simp
    next
      case False
      then have j: "j < length us" using Suc.prems(1) by simp
      obtain y where "find_named (Suc r) b (6 + DIRENT_SIZE * j) c x = find_named r b (6 + DIRENT_SIZE * Suc j) c y" using skip(1) [OF j] by blast
      then show ?thesis using Suc.IH [of "Suc j" y] j Suc.prems(2) by simp
    qed
  qed simp
  show "\<exists>k. exists_scan r b (6 + DIRENT_SIZE * j) c x = Some (Some e, k)" using assms(5,6)
  proof (induction r arbitrary: j x)
    case (Suc r)
    show ?case
    proof (cases "j = length us")
      case True
      then show ?thesis using same(2) by simp
    next
      case False
      then have j: "j < length us" using Suc.prems(1) by simp
      obtain y where "exists_scan (Suc r) b (6 + DIRENT_SIZE * j) c x = exists_scan r b (6 + DIRENT_SIZE * Suc j) c y" using skip(2) [OF j] by blast
      then show ?thesis using Suc.IH [of "Suc j" y] j Suc.prems(2) by simp
    qed
  qed simp
qed

section \<open>Taking a name out of the tree\<close>

text \<open>A step of the volume that frees the blocks \<open>C\<close> and changes no data block outside \<open>D\<close>.\<close>

definition frees :: "u64 set \<Rightarrow> u64 set \<Rightarrow> fs \<Rightarrow> fs \<Rightarrow> bool" where
  "frees C D s s' \<longleftrightarrow> st.keeps s s' \<and> shape s' = shape s \<and>
     (\<forall>b. used s b \<longrightarrow> b \<notin> C \<longrightarrow> used s' b \<and> btype (view s' b) = btype (view s b) \<and>
        (btype (view s b) = BLOCK_TYPE_DATA \<longrightarrow> b \<notin> D \<longrightarrow> view s' b = view s b))"

lemma frees_trans: "frees B D s t \<Longrightarrow> frees C E t u \<Longrightarrow> frees (B \<union> C) (D \<union> E) s u"
  unfolding frees_def by (auto intro: st.keeps_trans)

lemma kept_frees: "kept D s s' \<Longrightarrow> frees {} D s s'"
  unfolding frees_def kept_def moves_def by auto

lemma frees_kept:
  assumes "kept D s t" and "frees C E t u"
  shows "frees C (D \<union> E) s u"
  using frees_trans [OF kept_frees [OF assms(1)] assms(2)] by simp

lemma kept_after:
  assumes "frees C D s t" and "kept E t u"
  shows "frees C (D \<union> E) s u"
  using frees_trans [OF assms(1) kept_frees [OF assms(2)]] by simp

lemma freesD:
  assumes "frees C D s s'"
  shows "st.keeps s s'" and "used s b \<Longrightarrow> b \<notin> C \<Longrightarrow> used s' b" and "used s b \<Longrightarrow> b \<notin> C \<Longrightarrow> btype (view s' b) = btype (view s b)"
    and "used s b \<Longrightarrow> b \<notin> C \<Longrightarrow> btype (view s b) = BLOCK_TYPE_DATA \<Longrightarrow> b \<notin> D \<Longrightarrow> view s' b = view s b"
    and "btree_root (sb_of s') = btree_root (sb_of s)"
  using assms by (auto simp: frees_def dest: shape_fields)

text \<open>What freeing a node or a data block does to the abstract volume. The part of the tree has to be shown.\<close>

lemma drop_step:
  assumes S: "models s M r a" and k: "st.keeps s s'" and tv: "tree_volume s'"
    and sb: "sb_of s' = (sb_of s)\<lparr>free_blocks := x\<rparr>" and us: "\<And>j. j < nblocks s \<Longrightarrow> block_used s' j = (j \<noteq> unat c \<and> block_used s j)"
    and c: "unat c < nblocks s" "btype (view s c) \<in> {BLOCK_TYPE_BTREE_NODE, BLOCK_TYPE_DATA}"
    and v: "\<And>b. b \<noteq> 0 \<Longrightarrow> b \<noteq> bitmap_block (unat c) \<Longrightarrow> \<not> is_node s b \<Longrightarrow> view s' b = view s b"
    and nd: "\<And>b. is_node s b \<Longrightarrow> is_node s' b"
    and fl: "flat_at s' (btree_root (sb_of s)) ps" "n_value (node_at s' (btree_root (sb_of s))) = n_value (root_node s)"
    and lf: "\<And>q. q \<in> set ps \<Longrightarrow> leaf_says s' (snd q) = v_leaf a (snd q)"
  shows "models s' M r (a\<lparr>v_free := insert (unat c) (v_free a), v_names := ps\<rparr>)" and "frees {c} {} s s'"
proof -
  note D = modelsD [OF S] and R = root_dirD [OF modelsD(1) [OF S]]
  note K = st.keepsD [OF k] and T = soundD [OF D(2)]
  have vo: "volume_ok s'" using tv by (simp add: tree_volume_def)
  have sh: "shape s' = shape s" by (simp add: shape_def sb)
  note Sh = shape_fields [OF sh]
  have us': "used s' d" if "used s d" "d \<noteq> c" for d using that us K(2) by (simp add: used_def word_unat_eq_iff)
  have same: "view s' d = view s d" if "btype (view s d) \<notin> {BLOCK_TYPE_SUPER, BLOCK_TYPE_BTREE_NODE}" "d \<noteq> bitmap_block (unat c)" for d
    using that T(6) by (intro v) (auto simp: is_node_def)
  have ty: "btype (view s' d) = btype (view s d)" if d: "used s d" for d
  proof -
    consider "d = 0" | "d = bitmap_block (unat c)" | "is_node s d" | "d \<noteq> 0" "d \<noteq> bitmap_block (unat c)" "\<not> is_node s d" by blast
    then show ?thesis
    proof cases
      case 3
      then show ?thesis using nd [OF 3] by (simp add: is_node_def)
    qed (use vo T(6,8) c(1) K(2) v in \<open>auto simp: volume_ok_def\<close>)
  qed
  show "frees {c} {} s s'"
    unfolding frees_def
  proof (intro conjI allI impI)
    fix d assume d: "used s d" "btype (view s d) = BLOCK_TYPE_DATA"
    then show "view s' d = view s d" using T(8) [OF c(1)] by (intro same) (auto simp: block_types)
  qed (use k sh us' ty in auto)
  have nc: "d \<noteq> c" if "btype (view s d) \<notin> {BLOCK_TYPE_BTREE_NODE, BLOCK_TYPE_DATA}" for d using that c(2) by auto
  have In: "view s' (inode_home s m) = view s (inode_home s m)" "view s' (inode_bit_block s m) = view s (inode_bit_block s m)"
      "used s' (inode_home s m)" "used s' (inode_bit_block s m)" if m: "m < M" for m
  proof -
    note J = sound_inode [OF D(2) m]
    show "view s' (inode_home s m) = view s (inode_home s m)" "view s' (inode_bit_block s m) = view s (inode_bit_block s m)"
      using J(6,7,8) T(8) [OF c(1)] c(1) by (auto intro!: same simp: block_types)
    show "used s' (inode_home s m)" "used s' (inode_bit_block s m)" using J(3,4,6,7) nc us' by (simp_all add: block_types)
  qed
  have Sl: "view s' (slot s h) = view s (slot s h)" "used s' (slot s h)" if h: "h < ring_size (sb_of s)" for h
  proof -
    have u: "used s (slot s h)" "btype (view s (slot s h)) = BLOCK_TYPE_JOURNAL" using D(2) h by (simp_all add: sound_def)
    show "view s' (slot s h) = view s (slot s h)" by (rule same) (use u T(8) [OF c(1)] in \<open>auto simp: block_types\<close>)
    show "used s' (slot s h)" by (rule us' [OF u(1) nc]) (simp add: u block_types)
  qed
  have sound: "sound s' M"
    using D(2) tv K(2) In Sl sound_inode [OF D(2)] unfolding sound_def by (simp add: Sh) (simp add: sb)
  have I: "inode_of s' m = v_inode a m \<and> inode_used s' m = v_taken a m" if m: "m < M" for m
    using In [OF m] D(6,7) [OF m] by (simp add: inode_of_def inode_used_def Sh)
  have op: "open_ahead s' (v_slots a)"
  proof -
    have "open_slot s' (slot s j) = open_slot s (slot s j)" if "j < ring_size (sb_of s)" for j
      using Sl [OF that] K(3) by (simp add: open_slot_def)
    moreover have "0 < ring_size (sb_of s)" using D(4) by (auto simp: open_ahead_def)
    ultimately show ?thesis using D(4) by (simp add: open_ahead_def Sh) (simp add: sb)
  qed
  have "root_dir s' M r ps" using sound fl R(3,7,9) I [OF R(3)] D(6) [OF R(3)] by (simp add: root_dir_def Sh)
  moreover have "free_set s' = insert (unat c) (v_free a)" using D(5) us K(2) c(1) by (auto simp: free_set_def)
  ultimately show "models s' M r (a\<lparr>v_free := insert (unat c) (v_free a), v_names := ps\<rparr>)" using op I lf by (simp add: models_def)
qed

lemma delete_step:
  assumes S: "models s M r a" and names: "v_names a = us @ (k, c) # vs" and len: "length (v_names a) < MAX_KEYS"
  obtains s' where "btree_delete s (btree_root (sb_of s)) k = Some (c, s')"
    and "models s' M r (a\<lparr>v_free := insert (unat c) (v_free a), v_names := us @ vs\<rparr>)" and "frees {c} {} s s'"
proof -
  note D = modelsD [OF S]
  let ?b = "btree_root (sb_of s)"
  have fl: "flat_at s ?b (us @ (k, c) # vs)" using D(8) names by simp
  have c: "is_node s c" using flat_at_blocks(1) [OF fl, of c] by simp
  obtain s' where B: "btree_delete s ?b k = Some (c, s')" "tree_volume s'" "flat_at s' ?b (us @ vs)"
      "\<And>j. j < nblocks s \<Longrightarrow> block_used s' j = (j \<noteq> unat c \<and> block_used s j)" "st.keeps s s'"
      "\<And>d. d \<noteq> ?b \<Longrightarrow> is_node s d \<Longrightarrow> is_node s' d \<and> node_at s' d = node_at s d" "n_value (node_at s' ?b) = n_value (node_at s ?b)"
      "\<And>x. x \<noteq> 0 \<Longrightarrow> x \<noteq> bitmap_block (unat c) \<Longrightarrow> \<not> is_node s x \<Longrightarrow> view s' x = view s x"
      "sb_of s' = (sb_of s)\<lparr>free_blocks := free_blocks (sb_of s) - 1\<rparr>"
    by (rule btree_delete_flat [OF soundD(1) [OF D(2)] fl]) (use names len that in simp_all)
  have nb: "is_node s' ?b" using flat_at_blocks(1) [OF B(3), of ?b] by simp
  have lf: "leaf_says s' (snd q) = v_leaf a (snd q)" if q: "q \<in> set (us @ vs)" for q
  proof -
    have q': "q \<in> set (v_names a)" using q names by auto
    then have "is_node s (snd q)" "snd q \<noteq> ?b" using D(8) by (auto simp: flat_at_def leaf_at_def root_at_def)
    then show ?thesis using B(6) S q' by (simp add: models_def leaf_says_def)
  qed
  have nd: "is_node s' d" if "is_node s d" for d using B(6) [OF _ that] nb by (cases "d = ?b") auto
  have "unat c < nblocks s" "btype (view s c) \<in> {BLOCK_TYPE_BTREE_NODE, BLOCK_TYPE_DATA}" using c by (simp_all add: is_node_def)
  note P = drop_step [OF S B(5,2,9,4) this B(8) nd B(3,7) lf]
  show thesis by (rule that [OF B(1) P]) simp_all
qed

text \<open>Freeing a data block.\<close>

lemma free_step:
  assumes S: "models s M r a" and b: "used s b" "btype (view s b) = BLOCK_TYPE_DATA"
  obtains s' where "free_page s (int_of_u64 b) = Some s'" and "models s' M r (a\<lparr>v_free := insert (unat b) (v_free a)\<rparr>)" and "frees {b} {} s s'"
proof -
  note D = modelsD [OF S] and T = soundD [OF modelsD(2) [OF S]]
  let ?r = "btree_root (sb_of s)"
  have bn: "unat b < nblocks s" using b(1) by (simp add: used_def)
  then have "unat b < 2 ^ 31" using D(3) by (simp add: store_ok_def addressable_def)
  then have i: "int_of_u64 b = int (unat b)" by (rule int_of_u64_small)
  obtain s' where f: "free_page s (int (unat b)) = Some s'" "marked s s' (unat b) False" by (rule free_page_ok [OF T(2) bn])
  have k: "st.keeps s s'" and vo': "volume_ok s'" and us: "\<And>j. j < nblocks s \<Longrightarrow> block_used s' j = (j \<noteq> unat b \<and> block_used s j)"
      and sb: "sb_of s' = (sb_of s)\<lparr>free_blocks := free_blocks (sb_of s) - 1\<rparr>" and v: "\<And>d. d \<noteq> 0 \<Longrightarrow> d \<noteq> bitmap_block (unat b) \<Longrightarrow> view s' d = view s d"
    using f(2) by (auto simp: marked_def)
  note n = st.keepsD(2) [OF k]
  have same: "is_node s' d \<and> node_at s' d = node_at s d" if "is_node s d" for d
  proof -
    have "d \<noteq> 0" "d \<noteq> bitmap_block (unat b)" using volume_not_node [OF T(2)] bn that by auto
    then show ?thesis using that v n by (simp add: is_node_def node_at_def)
  qed
  have "bitmap_block j \<noteq> b" if "j < nblocks s" for j using T(8) [OF that] b(2) by (auto simp: block_types)
  moreover have "b \<noteq> 0" using T(6) b(2) by (auto simp: block_types)
  moreover have "0 < nblocks s" using T(5) by (simp add: used_def)
  ultimately have "tree_volume s'"
    using T(1) vo' us us [of 0] n unat_bitmap_block(2) [OF T(2)] by (auto simp: tree_volume_def word_unat_eq_iff)
  moreover have fl: "flat_at s' ?r (v_names a)"
  proof (rule flat_at_cong [OF D(8)])
    fix d assume d: "d \<in> insert ?r (snd ` set (v_names a))"
    note F = flat_at_blocks [OF D(8) d]
    have "d \<noteq> b" using F(1) b(2) by (auto simp: is_node_def block_types)
    then show "is_node s' d \<and> node_at s' d = node_at s d \<and> block_used s' (unat d)" using same [OF F(1)] us F(2,4) by (simp add: word_unat_eq_iff)
  qed
  moreover have "leaf_says s' (snd q) = v_leaf a (snd q)" if "q \<in> set (v_names a)" for q
    using same flat_at_blocks(1) [OF D(8), of "snd q"] that S by (simp add: models_def leaf_says_def)
  moreover have "n_value (node_at s' ?r) = n_value (root_node s)" using same flat_at_blocks(1) [OF D(8), of ?r] by simp
  ultimately have "models s' M r (a\<lparr>v_free := insert (unat b) (v_free a), v_names := v_names a\<rparr>)" "frees {b} {} s s'"
    using drop_step [OF S k _ sb us bn, of "v_names a"] b(2) v same by blast+
  with f(1) i show thesis by (intro that) simp_all
qed

section \<open>Removing an entry from the root directory\<close>

text \<open>The volume without the file: inode \<open>n\<close> and the leaf \<open>l\<close> are free. The pages of the file are not.\<close>

definition removed :: "nat \<Rightarrow> u64 \<Rightarrow> (u64 \<times> u64) list \<Rightarrow> vol \<Rightarrow> vol" where
  "removed n l ps a = a\<lparr>v_inode := (v_inode a)(n := zero_inode), v_taken := (v_taken a)(n := False),
     v_free := insert (unat l) (v_free a), v_names := ps\<rparr>"

lemma written_view: "written s s' X \<Longrightarrow> st.keeps s s' \<and> view s' = view s"
  by (simp add: written_def)

lemma models_flat: "models s M r a \<Longrightarrow> btree_root (sb_of s) = b \<Longrightarrow> flat_at s b (v_names a)"
  using modelsD(8) by blast

lemma btree_write_step:
  assumes "models s M r a" and "b = btree_root (sb_of s)"
  obtains n s' where "btree_write s b = Some (n, s')" and "models s' M r a" and "kept {} s s'" and "view s' = view s"
proof -
  obtain s' where w: "btree_write s b = Some (1 + int (length (v_names a)), s')" "written s s' (insert b (snd ` set (v_names a)))"
    by (rule btree_write_flat [OF modelsD(3) [OF assms(1)] models_flat [OF assms(1) assms(2) [symmetric]]])
  note W = written_view [OF w(2)]
  show thesis by (rule that [OF w(1) models_quiet [OF assms(1)]]) (use W in simp_all)
qed

lemma btree_print_step:
  assumes "models s M r a" and "b = btree_root (sb_of s)"
  obtains s' where "btree_print s b = Some s'" and "models s' M r a" and "kept {} s s'" and "view s' = view s"
proof -
  obtain s' where w: "btree_print s b = Some s'" "st.silent s s'"
    by (rule btree_print_flat [OF modelsD(3) [OF assms(1)] models_flat [OF assms(1) assms(2) [symmetric]]])
  show thesis by (rule that [OF w(1) models_silent [OF assms(1) w(2,2)] st.silentD(2) [OF w(2)]])
qed

text \<open>The end of a removal: the block goes to disk, and the count is set.\<close>

lemma remove_at_finish:
  assumes S: "models s M r a" and d: "d = direct_blocks i ! 0" "used s d" "btype (view s d) = BLOCK_TYPE_DATA" and p: "points s p d"
  obtains s1 q s2 s3 s4 s5 where "locked_write s d p = Some s1" and "dir_block d s1 i 0 = Some (d, s1)" and "get_block s1 (of_nat r) d = Some (q, s2)"
    and "modify s2 q (\<lambda>b. Some (set_entry_count n b)) = Some s3" and "write_block s3 q (of_nat r) d = Some s4"
    and "increase_pin_count s4 (of_nat r) d = Some s5" and "models s5 M r a" and "kept {d} s s5" and "view s5 d = set_entry_count n (view s d)"
proof -
  obtain s1 where s1: "locked_write s d p = Some s1" "st.flushes s s1 d" using st.through_flushes [OF modelsD(3) [OF S] p] by blast
  note m1 = models_quiet [OF S st.flushesD(1,2) [OF s1(2)]]
  have d1: "used s1 d" "view s1 d = view s d" using keptD(2) [OF m1(2) d(2)] st.flushesD(2) [OF s1(2)] by simp_all
  have g: "dir_block d s1 i 0 = Some (d, s1)" using get_direct(1) [of s1 i] d(1) by (simp add: dir_block_def)
  have lim: "unat d < nblocks s1" using d1(1) by (simp add: used_def)
  obtain q s2 where s2: "get_block s1 (of_nat r) d = Some (q, s2)" "st.silent s1 s2" "points s2 q d"
    using st.get_silent [OF modelsD(3) [OF m1(1)] lim] by blast
  note m2 = models_silent [OF m1(1) s2(2,2)]
  have d2: "used s2 d" "view s2 d = view s d" using keptD(2) [OF m2(2) d1(1)] d1(2) st.silentD(2) [OF s2(2)] by simp_all
  let ?y = "set_entry_count n (view s d)"
  obtain s3 where s3: "modify s2 q (\<lambda>b. Some (set_entry_count n b)) = Some s3" "st.changes s2 s3 d ?y"
    using st.store_changes [OF modelsD(3) [OF m2(1)] s2(3), of ?y] st.load_view [OF modelsD(3) [OF m2(1)] s2(3)] d2(2) by (auto simp: modify_def)
  note C = st.changesD [OF s3(2)]
  have ty: "btype (view s2 d) = BLOCK_TYPE_DATA" "btype ?y = BLOCK_TYPE_DATA" using d(3) d2(2) by simp_all
  note m3 = data_step [OF m2(1) d2(1) ty(1) C(1,2) ty(2)]
  have q3: "points s3 q d" by (rule st.keepsD(4) [OF C(1) s2(3)])
  obtain s4 where s4: "write_block s3 q (of_nat r) d = Some s4" "st.silent s3 s4" using st.put_silent [OF modelsD(3) [OF m3(1)] q3] by blast
  note m4 = models_silent [OF m3(1) s4(2,2)]
  have "unat d < nblocks s4" using keptD(2) [OF m4(2) keptD(2) [OF m3(2) d2(1)]] by (simp add: used_def)
  then obtain s5 where s5: "increase_pin_count s4 (of_nat r) d = Some s5" "st.silent s4 s5"
    using st.pin_silent [OF modelsD(3) [OF m4(1)]] by blast
  note m5 = models_silent [OF m4(1) s5(2,2)]
  have "kept {d} s s5"
    using kept_trans [OF kept_trans [OF kept_trans [OF kept_trans [OF m1(2) m2(2)] m3(2)] m4(2)] m5(2)] by simp
  moreover have "view s5 d = ?y" using st.silentD(2) [OF s5(2)] st.silentD(2) [OF s4(2)] by (simp add: C(2))
  ultimately show thesis using s1(1) g s2(1) s3(1) s4(1) s5(1) m5(1) by (intro that)
qed

lemma remove_at_step:
  assumes S: "models s M r a" and names: "v_names a = ps @ (path_hash c, l) # qs" and len: "length (v_names a) < MAX_KEYS"
    and n: "n < M" "n \<noteq> r" and cnt: "reference_count (v_inode a n) = 1"
    and d: "d = direct_blocks (v_inode a r) ! 0" "used s d" "btype (view s d) = BLOCK_TYPE_DATA" and p: "points s p d"
    and e: "de_inode (dir_slot (view s d) k) = of_nat n"
  obtains i s' where "remove_at s (root_pair s r) (v_inode a r) c False d p (6 + DIRENT_SIZE * k) (entry_count (view s d)) old =
      Some (False, entry_count (view s d) - 1, i, s')"
    and "models s' M r (removed n l (ps @ qs) a)" and "frees {l} {d} s s'" and "view s' d = without_entry k (view s d)"
proof -
  let ?b = "btree_root (sb_of s)" and ?o = "6 + DIRENT_SIZE * k + 272"
  let ?x = "store_bytes [0] (view s d) ?o" and ?n = "entry_count (view s d) - 1"
  obtain s1 where s1: "modify s p (\<lambda>b. Some (store_bytes [0] b ?o)) = Some s1" "st.changes s s1 d ?x"
    using st.store_changes [OF modelsD(3) [OF S] p, of ?x] st.load_view [OF modelsD(3) [OF S] p] by (auto simp: modify_def)
  note C1 = st.changesD [OF s1(2)]
  have tx: "btype ?x = BLOCK_TYPE_DATA" using d(3) by simp
  note m1 = data_step [OF S d(2,3) C1(1,2) tx]
  have p1: "points s1 p d" by (rule st.keepsD(4) [OF C1(1) p])
  have d1: "deref s1 p = Some ?x" using st.load_view [OF modelsD(3) [OF m1(1)] p1] by (simp add: C1(2))
  have ix: "de_inode (de_load ?x (6 + DIRENT_SIZE * k)) = of_nat n"
    using dir_slot_cleared [of "view s d" k k] e by (simp add: dir_slot_def)
  obtain s2 where s2: "read_inode_or old s1 (of_nat n) = Some (inode_of s1 n, s2)" "st.silent s1 s2"
    by (rule read_dir_inode [OF sound_inode(1) [OF modelsD(2) [OF m1(1)] n(1)]])
  note m2 = models_silent [OF m1(1) s2(2,2)]
  have rc: "reference_count (inode_of s1 n) = 1" using modelsD(6) [OF m1(1) n(1)] cnt by simp
  have d2: "deref s2 p = Some ?x"
    using st.load_view [OF modelsD(3) [OF m2(1)] st.keepsD(4) [OF st.silentD(1) [OF s2(2)] p1]] st.silentD(2) [OF s2(2)] by (simp add: C1(2))
  let ?a3 = "a\<lparr>v_inode := (v_inode a)(n := zero_inode), v_taken := (v_taken a)(n := False)\<rparr>"
  obtain s3 where s3: "inode_free s2 (of_nat n) False = Some (0, s3)" "models s3 M r ?a3" "kept {} s2 s3"
    by (rule release_step [OF m2(1) n, of False]) (rule that)
  have k3: "kept {d} s s3" using kept_trans [OF kept_trans [OF m1(2) m2(2)] s3(3)] by simp
  have b3: "btree_root (sb_of s3) = ?b" by (rule kept_root [OF k3])
  have f3: "flat_at s3 ?b (ps @ (path_hash c, l) # qs)" using modelsD(8) [OF s3(2)] b3 names by simp
  have "(path_hash c, l) \<in> set (v_names ?a3)" using names by simp
  then have de: "dir_entry s3 ?b c (Some l)" using models_entry [OF s3(2)] b3 by simp
  obtain s4 where s4: "btree_search s3 ?b (path_hash c) = Some (l, s4)" "st.silent s3 s4"
    using dir_search [OF modelsD(3) [OF s3(2)] de] by auto
  have l0: "l \<noteq> 0" using dir_entry_node [OF de] by simp
  note m4 = models_silent [OF s3(2) s4(2,2)]
  have b4: "btree_root (sb_of s4) = ?b" using kept_root [OF m4(2)] b3 by simp
  have n4: "v_names ?a3 = ps @ (path_hash c, l) # qs" "length (v_names ?a3) < MAX_KEYS" using names len by simp_all
  obtain s5 where s5: "btree_delete s4 ?b (path_hash c) = Some (l, s5)"
      "models s5 M r (?a3\<lparr>v_free := insert (unat l) (v_free ?a3), v_names := ps @ qs\<rparr>)" "frees {l} {} s4 s5"
    by (rule delete_step [OF m4(1) n4, unfolded b4]) (rule that)
  have m5: "models s5 M r (removed n l (ps @ qs) a)" using s5(2) by (simp add: removed_def)
  have k4: "kept {d} s s4" using kept_trans [OF k3 m4(2)] by simp
  have F5: "frees {l} {d} s s5" using frees_kept [OF k4 s5(3)] by simp
  have b5: "?b = btree_root (sb_of s5)" using freesD(5) [OF F5] by simp
  obtain x s6 where s6: "btree_write s5 ?b = Some (x, s6)" "models s6 M r (removed n l (ps @ qs) a)" "kept {} s5 s6" "view s6 = view s5"
    by (rule btree_write_step [OF m5 b5])
  have b6: "?b = btree_root (sb_of s6)" using kept_root [OF s6(3)] b5 by simp
  obtain s7 where s7: "btree_print s6 ?b = Some s7" "models s7 M r (removed n l (ps @ qs) a)" "kept {} s6 s7" "view s7 = view s6"
    by (rule btree_print_step [OF s6(2) b6])
  have F7: "frees {l} {d} s s7" using kept_after [OF kept_after [OF F5 s6(3)] s7(3)] by simp
  have lt: "is_node s3 l" using dir_entry_node [OF de] by simp
  have dl: "d \<noteq> l"
  proof
    assume "d = l"
    then have "btype (view s3 d) = BLOCK_TYPE_BTREE_NODE" using lt by (simp add: is_node_def)
    moreover have "btype (view s3 d) = BLOCK_TYPE_DATA" using keptD(3) [OF k3 d(2)] d(3) by simp
    ultimately show False by (simp add: block_types)
  qed
  have v7: "view s7 d = ?x"
  proof -
    have u: "used s1 d" "btype (view s1 d) = BLOCK_TYPE_DATA" using keptD(2) [OF m1(2) d(2)] tx by (simp_all add: C1(2))
    have k14: "kept {} s1 s4" using kept_trans [OF kept_trans [OF m2(2) s3(3)] m4(2)] by simp
    have u4: "used s4 d" "view s4 d = view s1 d" using keptD(2,4) [OF k14 u(1)] u(2) by simp_all
    then show ?thesis using freesD(4) [OF s5(3) u4(1)] dl u(2) s6(4) s7(4) by (simp add: C1(2))
  qed
  have p7: "points s7 p d" by (rule st.keepsD(4) [OF freesD(1) [OF F7] p])
  have u7: "used s7 d" "btype (view s7 d) = BLOCK_TYPE_DATA" using freesD(2) [OF F7 d(2)] dl v7 tx by simp_all
  obtain s8 q s9 s10 s11 s12 where E: "locked_write s7 d p = Some s8" "dir_block d s8 (v_inode a r) 0 = Some (d, s8)" "get_block s8 (of_nat r) d = Some (q, s9)"
      "modify s9 q (\<lambda>b. Some (set_entry_count ?n b)) = Some s10" "write_block s10 q (of_nat r) d = Some s11"
      "increase_pin_count s11 (of_nat r) d = Some s12" "models s12 M r (removed n l (ps @ qs) a)" "kept {d} s7 s12"
      "view s12 d = set_entry_count ?n (view s7 d)"
    by (rule remove_at_finish [OF s7(2) d(1) u7 p7, of ?n])
  have "remove_at s (root_pair s r) (v_inode a r) c False d p (6 + DIRENT_SIZE * k) (entry_count (view s d)) old =
      Some (False, ?n, inode_of s1 n, s12)"
    using s1(1) d1 d2 ix s2(1) rc s3(1) s4(1) l0 s5(1) s6(1) s7(1) E(1-6) by (simp add: remove_at_def Let_def)
  moreover have "frees {l} {d} s s12" using kept_after [OF F7 E(8)] by simp
  moreover have "view s12 d = without_entry k (view s d)" using E(9) v7 by (simp add: without_entry_def)
  ultimately show thesis using E(7) by (intro that)
qed

text \<open>
  When the file has other links, only the entry goes: the count of links of the inode stays as it was.
\<close>

lemma remove_at_linked:
  assumes S: "models s M r a" and n: "n < M" and cnt: "reference_count (v_inode a n) \<noteq> 1"
    and d: "d = direct_blocks (v_inode a r) ! 0" "used s d" "btype (view s d) = BLOCK_TYPE_DATA" and p: "points s p d"
    and e: "de_inode (dir_slot (view s d) k) = of_nat n"
  obtains i s' where "remove_at s (root_pair s r) (v_inode a r) c False d p (6 + DIRENT_SIZE * k) (entry_count (view s d)) old =
      Some (False, entry_count (view s d) - 1, i, s')"
    and "models s' M r a" and "kept {d} s s'" and "view s' d = without_entry k (view s d)"
proof -
  let ?o = "6 + DIRENT_SIZE * k + 272"
  let ?x = "store_bytes [0] (view s d) ?o" and ?n = "entry_count (view s d) - 1"
  obtain s1 where s1: "modify s p (\<lambda>b. Some (store_bytes [0] b ?o)) = Some s1" "st.changes s s1 d ?x"
    using st.store_changes [OF modelsD(3) [OF S] p, of ?x] st.load_view [OF modelsD(3) [OF S] p] by (auto simp: modify_def)
  note C1 = st.changesD [OF s1(2)]
  have tx: "btype ?x = BLOCK_TYPE_DATA" using d(3) by simp
  note m1 = data_step [OF S d(2,3) C1(1,2) tx]
  have p1: "points s1 p d" by (rule st.keepsD(4) [OF C1(1) p])
  have d1: "deref s1 p = Some ?x" using st.load_view [OF modelsD(3) [OF m1(1)] p1] by (simp add: C1(2))
  have ix: "de_inode (de_load ?x (6 + DIRENT_SIZE * k)) = of_nat n"
    using dir_slot_cleared [of "view s d" k k] e by (simp add: dir_slot_def)
  obtain s2 where s2: "read_inode_or old s1 (of_nat n) = Some (inode_of s1 n, s2)" "st.silent s1 s2"
    by (rule read_dir_inode [OF sound_inode(1) [OF modelsD(2) [OF m1(1)] n]])
  note m2 = models_silent [OF m1(1) s2(2,2)]
  have rc: "reference_count (inode_of s1 n) \<noteq> 1" using modelsD(6) [OF m1(1) n] cnt by simp
  have v2: "view s2 d = ?x" using st.silentD(2) [OF s2(2)] by (simp add: C1(2))
  have u2: "used s2 d" "btype (view s2 d) = BLOCK_TYPE_DATA" using keptD(2) [OF m2(2) keptD(2) [OF m1(2) d(2)]] v2 tx by simp_all
  obtain s8 q s9 s10 s11 s12 where E: "locked_write s2 d p = Some s8" "dir_block d s8 (v_inode a r) 0 = Some (d, s8)" "get_block s8 (of_nat r) d = Some (q, s9)"
      "modify s9 q (\<lambda>b. Some (set_entry_count ?n b)) = Some s10" "write_block s10 q (of_nat r) d = Some s11"
      "increase_pin_count s11 (of_nat r) d = Some s12" "models s12 M r a" "kept {d} s2 s12" "view s12 d = set_entry_count ?n (view s2 d)"
    by (rule remove_at_finish [OF m2(1) d(1) u2 st.keepsD(4) [OF st.silentD(1) [OF s2(2)] p1], of ?n])
  have "remove_at s (root_pair s r) (v_inode a r) c False d p (6 + DIRENT_SIZE * k) (entry_count (view s d)) old =
      Some (False, ?n, inode_of s1 n, s12)"
    using s1(1) d1 ix s2(1) rc E(1-6) by (simp add: remove_at_def Let_def)
  moreover have "kept {d} s s12" using kept_trans [OF kept_trans [OF m1(2) m2(2)] E(8)] by simp
  moreover have "view s12 d = without_entry k (view s d)" using E(9) v2 by (simp add: without_entry_def)
  ultimately show thesis using E(7) by (intro that)
qed

text \<open>A file with an entry in the root directory, behind entries with other names. It can be removed when this is its only link.\<close>

definition lists_file :: "fs \<Rightarrow> nat \<Rightarrow> DirEntry list \<Rightarrow> DirEntry \<Rightarrow> DirEntry list \<Rightarrow> bool" where
  "lists_file s r us e vs \<longleftrightarrow> (\<exists>m. dir_data s r m \<and> listing (view s (first_block s r)) m = us @ e # vs) \<and> in_slot (view s (first_block s r)) us e"

definition named_file ::
  "fs \<Rightarrow> nat \<Rightarrow> nat \<Rightarrow> vol \<Rightarrow> string \<Rightarrow> nat \<Rightarrow> u64 \<Rightarrow> (u64 \<times> u64) list \<Rightarrow> (u64 \<times> u64) list \<Rightarrow> DirEntry list \<Rightarrow> DirEntry \<Rightarrow> DirEntry list \<Rightarrow> bool"
where
  "named_file s M r a c n l ps qs us e vs \<longleftrightarrow> models s M r a \<and> v_names a = ps @ (path_hash c, l) # qs \<and> length (v_names a) < MAX_KEYS \<and>
     n < M \<and> n \<noteq> r \<and> direct_blocks (v_inode a r) ! 1 = 0 \<and> lists_file s r us e vs \<and>
     named_first us e c \<and> de_inode e = of_nat n \<and> component c \<and> CHR 0x00 \<notin> set c"

definition can_remove ::
  "fs \<Rightarrow> nat \<Rightarrow> nat \<Rightarrow> vol \<Rightarrow> string \<Rightarrow> nat \<Rightarrow> u64 \<Rightarrow> (u64 \<times> u64) list \<Rightarrow> (u64 \<times> u64) list \<Rightarrow> DirEntry list \<Rightarrow> DirEntry \<Rightarrow> DirEntry list \<Rightarrow> bool"
where
  "can_remove s M r a c n l ps qs us e vs \<longleftrightarrow> named_file s M r a c n l ps qs us e vs \<and> reference_count (v_inode a n) = 1"

lemma named_file_kept:
  assumes "named_file s M r a c n l ps qs us e vs" and S': "models s' M r a'" and "kept {} s s'" and "v_inode a' = v_inode a" and "v_names a' = v_names a"
  shows "named_file s' M r a' c n l ps qs us e vs" and "first_block s' r = first_block s r"
proof -
  have S: "models s M r a" using assms(1) by (simp add: named_file_def)
  show fb: "first_block s' r = first_block s r"
    using modelsD(6) [OF S modelsD(9) [OF S]] modelsD(6) [OF S' modelsD(9) [OF S']] assms(4) by simp
  obtain m where m: "dir_data s r m" "listing (view s (first_block s r)) m = us @ e # vs" "in_slot (view s (first_block s r)) us e"
    using assms(1) by (auto simp: named_file_def lists_file_def)
  note K = dir_data_kept [OF assms(3) fb m(1)]
  have "lists_file s' r us e vs" using K(1) m(2,3) unfolding lists_file_def K(2) by blast
  then show "named_file s' M r a' c n l ps qs us e vs" using assms(1) S' unfolding named_file_def assms(4,5) by blast
qed

text \<open>The search finds the entry.\<close>

lemma exists_named:
  assumes G: "named_file s M r a c n l ps qs us e vs"
  obtains s' where "directory_exists_entry s ''/'' c = Some (Some e, s')" and "st.silent s s'"
proof -
  have S: "models s M r a" and c: "CHR 0x00 \<notin> set c" and ev: "named_first us e c" and one: "direct_blocks (v_inode a r) ! 1 = 0"
    using G unfolding named_file_def by blast+
  obtain m where m: "dir_data s r m" "listing (view s (first_block s r)) m = us @ e # vs" "in_slot (view s (first_block s r)) us e"
    using G by (auto simp: named_file_def lists_file_def)
  have da: "dir_at (view s (first_block s r)) m" using m(1) by (simp add: dir_data_def)
  have "e \<in> set (listing (view s (first_block s r)) m)" using m(2) by simp
  then have act: "de_active e \<noteq> 0" by (auto simp: listing_def)
  have len: "length us < 0 + 13" using listing_without(2) [OF m(2,3)] da by (simp add: dir_at_def scan)
  obtain k where x: "exists_scan SCAN (view s (first_block s r)) (entries_off 0) c 0 = Some (Some e, k)"
    using search_slots(2) [OF m(3) ev c act _ len, of 0] by (auto simp: scan entries_off_def)
  have one1: "direct_blocks (inode_of s r) ! 1 = 0" using modelsD(6) [OF S modelsD(9) [OF S]] one by simp
  show thesis by (rule directory_exists_from [OF modelsD(1) [OF S] m(1) one1 x]) (use m(2) that in auto)
qed

text \<open>What the removal of the entry comes to, by what happens at its slot.\<close>

lemma directory_remove_from:
  assumes G: "named_file s M r a c n l ps qs us e vs" and C: "first_block s r \<notin> C" and a': "v_inode a' r = v_inode a r"
    and R: "\<And>t p. models t M r a \<Longrightarrow> kept {} s t \<Longrightarrow> first_block s r = direct_blocks (v_inode a r) ! 0 \<Longrightarrow> used t (first_block s r) \<Longrightarrow>
      btype (view t (first_block s r)) = BLOCK_TYPE_DATA \<Longrightarrow> points t p (first_block s r) \<Longrightarrow>
      de_inode (dir_slot (view t (first_block s r)) (length us)) = of_nat n \<Longrightarrow>
      \<exists>i u. remove_at t (root_pair t r) (v_inode a r) c False (first_block s r) p (6 + DIRENT_SIZE * length us) (entry_count (view t (first_block s r))) zero_inode =
        Some (False, entry_count (view t (first_block s r)) - 1, i, u) \<and> models u M r a' \<and> frees C {first_block s r} t u \<and>
        view u (first_block s r) = without_entry (length us) (view t (first_block s r))"
  obtains s' m where "directory_remove_entry s ''/'' c False = Some (0, s')" and "models s' M r a'"
    and "frees C {first_block s r} s s'" and "dir_data s' r m" and "listing (view s' (first_block s' r)) m = us @ vs"
proof -
  have S: "models s M r a" using G by (simp add: named_file_def)
  note r = modelsD(9) [OF S]
  obtain s1 where s1: "item_search s ''/'' = Some (root_pair s r, s1)" "st.silent s s1" by (rule search_root [OF modelsD(1) [OF S]])
  obtain s2 where s2: "read_inode_or zero_inode s1 (of_nat r) = Some (inode_of s1 r, s2)" "st.silent s1 s2"
    by (rule read_dir_inode [OF root_dirD(5) [OF modelsD(1) [OF models_silent(1) [OF S s1(2,2)]]]])
  note S2 = st.silent_trans [OF s1(2) s2(2)]
  note m2 = models_silent [OF S S2 S2]
  have i1: "inode_of s1 r = v_inode a r" using modelsD(6) [OF models_silent(1) [OF S s1(2,2)] r] .
  note G2 = named_file_kept [OF G m2 refl refl]
  let ?d = "first_block s r"
  have d: "?d = direct_blocks (v_inode a r) ! 0" using modelsD(6) [OF S r] by simp
  have lim: "unat ?d < nblocks s2" and d0: "?d \<noteq> 0" using G2 by (auto simp: named_file_def lists_file_def dir_data_def used_def)
  obtain p s3 where s3: "get_block s2 (of_nat r) ?d = Some (p, s3)" "st.silent s2 s3" "points s3 p ?d"
    using st.get_silent [OF modelsD(3) [OF m2(1)] lim] by blast
  note S3 = st.silent_trans [OF S2 s3(2)]
  note m3 = models_silent [OF S S3 S3]
  note G3 = named_file_kept [OF G m3 refl refl]
  let ?x = "view s3 ?d"
  obtain m where m: "dir_data s3 r m" "listing ?x m = us @ e # vs" "in_slot ?x us e"
    using G3 by (auto simp: named_file_def lists_file_def)
  have u: "used s3 ?d" "btype ?x = BLOCK_TYPE_DATA" "dir_at ?x m" using m(1) by (simp_all add: dir_data_def G3(2))
  have ev: "named_first us e c" "CHR 0x00 \<notin> set c" "de_inode e = of_nat n" and one: "direct_blocks (v_inode a r) ! 1 = 0"
    using G unfolding named_file_def by blast+
  have "e \<in> set (listing ?x m)" using m(2) by simp
  then have act: "de_active e \<noteq> 0" by (auto simp: listing_def)
  have us: "length us < 0 + 13" using listing_without(2) [OF m(2,3)] u(3) by (simp add: dir_at_def scan)
  obtain k where fn: "find_named SCAN ?x (entries_off 0) c 0 = Some (Some (6 + DIRENT_SIZE * length us), k)"
    using search_slots(1) [OF m(3) ev(1,2) act _ us, of 0] by (auto simp: scan entries_off_def)
  have en: "de_inode (dir_slot ?x (length us)) = of_nat n" using in_slotD(2) [OF m(3)] ev(3) by simp
  obtain i s4 where s4: "remove_at s3 (root_pair s3 r) (v_inode a r) c False ?d p (6 + DIRENT_SIZE * length us) (entry_count ?x) zero_inode =
      Some (False, entry_count ?x - 1, i, s4)" "models s4 M r a'" "frees C {?d} s3 s4" "view s4 ?d = without_entry (length us) ?x"
    using R [OF m3 d u(1,2) s3(3) en] by blast
  have b3: "root_pair s3 r = root_pair s r" using kept_root [OF m3(2)] by simp
  have "sint w = 0 \<Longrightarrow> w = 0" for w :: u16 using signed_word_eqI [of w 0] by simp
  then have nz: "sint (entry_count ?x) \<noteq> 0" using u(3) m(2) by (force simp: dir_at_def)
  have "remove_blocks (Suc (Suc q)) s2 (root_pair s r) (v_inode a r) c False 0 0 0 zero_inode (- ENOENT) = Some (0, s4)" for q
    using s3(1) st.load_view [OF modelsD(3) [OF m3(1)] s3(3)] u(2) nz fn s4(1) get_direct [of _ "v_inode a r"] d d0 one
    by (simp add: dir_block_def b3 Let_def)
  from this [of 65533] have "directory_remove_entry s ''/'' c False = Some (0, s4)"
    using s1(1) s2(1) i1 by (simp add: directory_remove_entry_def layout)
  moreover have "frees C {?d} s s4" using frees_kept [OF m3(2) s4(3)] by simp
  moreover have fb: "first_block s4 r = ?d" using modelsD(6) [OF s4(2) r] d a' by simp
  moreover have "dir_data s4 r m"
    using freesD(2) [OF s4(3) u(1) C] dir_at_without [OF u(3) m(2,3)] d0 u(2) s4(4) by (simp add: dir_data_def fb btype_without)
  moreover have "listing (view s4 (first_block s4 r)) m = us @ vs" unfolding fb s4(4) by (rule listing_without(1) [OF m(2,3)])
  ultimately show thesis using s4(2) by (intro that)
qed

lemma named_block:
  assumes "named_file s M r a c n l ps qs us e vs"
  shows "first_block s r \<noteq> l" and "used s (first_block s r)" and "btype (view s (first_block s r)) = BLOCK_TYPE_DATA"
proof -
  have S: "models s M r a" and names: "v_names a = ps @ (path_hash c, l) # qs" using assms by (simp_all add: named_file_def)
  show d: "used s (first_block s r)" "btype (view s (first_block s r)) = BLOCK_TYPE_DATA"
    using assms by (auto simp: named_file_def lists_file_def dir_data_def)
  have "is_node s l" using flat_at_blocks(1) [OF modelsD(8) [OF S], of l] names by simp
  then show "first_block s r \<noteq> l" using d(2) by (auto simp: is_node_def block_types)
qed

lemma directory_remove_step:
  assumes G: "can_remove s M r a c n l ps qs us e vs"
  obtains s' m where "directory_remove_entry s ''/'' c False = Some (0, s')" and "models s' M r (removed n l (ps @ qs) a)"
    and "frees {l} {first_block s r} s s'" and "dir_data s' r m" and "listing (view s' (first_block s' r)) m = us @ vs"
proof -
  have N: "named_file s M r a c n l ps qs us e vs" and rc: "reference_count (v_inode a n) = 1" using G by (simp_all add: can_remove_def)
  have n: "n < M" "n \<noteq> r" and names: "v_names a = ps @ (path_hash c, l) # qs" "length (v_names a) < MAX_KEYS" using N unfolding named_file_def by blast+
  show thesis
  proof (rule directory_remove_from [OF N, of "{l}" "removed n l (ps @ qs) a"])
    fix t p assume T: "models t M r a" "first_block s r = direct_blocks (v_inode a r) ! 0" "used t (first_block s r)"
      "btype (view t (first_block s r)) = BLOCK_TYPE_DATA" "points t p (first_block s r)"
      "de_inode (dir_slot (view t (first_block s r)) (length us)) = of_nat n"
    show "\<exists>i u. remove_at t (root_pair t r) (v_inode a r) c False (first_block s r) p (6 + DIRENT_SIZE * length us) (entry_count (view t (first_block s r))) zero_inode =
        Some (False, entry_count (view t (first_block s r)) - 1, i, u) \<and> models u M r (removed n l (ps @ qs) a) \<and> frees {l} {first_block s r} t u \<and>
        view u (first_block s r) = without_entry (length us) (view t (first_block s r))"
      by (rule remove_at_step [OF T(1) names n rc T(2-6), of zero_inode]) blast
  qed (use named_block(1) [OF N] n(2) that in \<open>simp_all add: removed_def\<close>)
qed

section \<open>Unlinking a file\<close>

lemma unlink_step:
  assumes G: "can_remove s M r a c n l ps qs us e vs"
  obtains s' m where "metadata_unlink s (join [c]) False = Some (0, s')" and "models s' M r (removed n l (ps @ qs) a)"
    and "frees {l} {first_block s r} s s'" and "dir_data s' r m" and "listing (view s' (first_block s' r)) m = us @ vs"
proof -
  have N: "named_file s M r a c n l ps qs us e vs" using G by (simp add: can_remove_def)
  have S: "models s M r a" and c: "component c" and names: "v_names a = ps @ (path_hash c, l) # qs" using N unfolding named_file_def by blast+
  obtain s1 where s1: "item_search s ''/'' = Some (root_pair s r, s1)" "st.silent s s1" by (rule search_root [OF modelsD(1) [OF S]])
  note m1 = models_silent [OF S s1(2,2)]
  obtain s2 where s2: "directory_exists_entry s1 ''/'' c = Some (Some e, s2)" "st.silent s1 s2"
    by (rule exists_named [OF named_file_kept(1) [OF N m1 refl refl]])
  note S2 = st.silent_trans [OF s1(2) s2(2)]
  note m2 = models_silent [OF S S2 S2]
  note G2 = named_file_kept [OF N m2 refl refl]
  have "can_remove s2 M r a c n l ps qs us e vs" using G2(1) G by (simp add: can_remove_def)
  then obtain s3 q where s3: "directory_remove_entry s2 ''/'' c False = Some (0, s3)" "models s3 M r (removed n l (ps @ qs) a)"
      "frees {l} {first_block s2 r} s2 s3" "dir_data s3 r q" "listing (view s3 (first_block s3 r)) q = us @ vs"
    by (rule directory_remove_step)
  have F: "frees {l} {first_block s r} s s3" using frees_kept [OF m2(2) s3(3)] G2(2) by simp
  have so: "sorted_wrt (<) (map fst (v_names a))" using modelsD(8) [OF S] by (simp add: flat_at_def)
  have "path_hash c \<notin> fst ` set (v_names (removed n l (ps @ qs) a))"
    using so unfolding names by (auto simp: removed_def sorted_wrt_append)
  then have "dir_entry s3 (btree_root (sb_of s)) c None" using models_missing [OF s3(2)] freesD(5) [OF F] by simp
  then obtain s4 where s4: "btree_search s3 (btree_root (sb_of s)) (path_hash c) = Some (0, s4)" "st.silent s3 s4"
    using dir_search [OF modelsD(3) [OF s3(2)]] by (metis option.simps(4))
  note m4 = models_silent [OF s3(2) s4(2,2)]
  have "metadata_unlink s (join [c]) False = Some (0, s4)"
    using s1(1) s2(1) s3(1) s4(1) top_path [OF c] unfolding metadata_unlink_def by (simp del: join.simps)
  moreover have "frees {l} {first_block s r} s s4" using kept_after [OF F m4(2)] by simp
  moreover have fb: "first_block s4 r = first_block s3 r"
    using modelsD(6) [OF m4(1) modelsD(9) [OF m4(1)]] modelsD(6) [OF s3(2) modelsD(9) [OF s3(2)]] by simp
  moreover note K = dir_data_kept [OF m4(2) fb s3(4)]
  ultimately show thesis using m4(1) s3(5) unfolding K(2) [symmetric] by (intro that [of s4 q]) simp_all
qed

text \<open>
  Unlinking one of several names: the entry and the leaf \<open>l\<close> go, the inode stays, with the count of links it had.
\<close>

lemma unlink_linked_step:
  assumes N: "named_file s M r a c n l ps qs us e vs" and cnt: "reference_count (v_inode a n) \<noteq> 1"
  obtains s' m where "metadata_unlink s (join [c]) False = Some (0, s')"
    and "models s' M r (a\<lparr>v_free := insert (unat l) (v_free a), v_names := ps @ qs\<rparr>)"
    and "frees {l} {first_block s r} s s'" and "dir_data s' r m" and "listing (view s' (first_block s' r)) m = us @ vs"
proof -
  have S: "models s M r a" and c: "component c" and names: "v_names a = ps @ (path_hash c, l) # qs" "length (v_names a) < MAX_KEYS"
      and n: "n < M" using N unfolding named_file_def by blast+
  let ?b = "btree_root (sb_of s)" and ?a = "a\<lparr>v_free := insert (unat l) (v_free a), v_names := ps @ qs\<rparr>"
  obtain s1 where s1: "item_search s ''/'' = Some (root_pair s r, s1)" "st.silent s s1" by (rule search_root [OF modelsD(1) [OF S]])
  note m1 = models_silent [OF S s1(2,2)]
  obtain s2 where s2: "directory_exists_entry s1 ''/'' c = Some (Some e, s2)" "st.silent s1 s2"
    by (rule exists_named [OF named_file_kept(1) [OF N m1 refl refl]])
  note S2 = st.silent_trans [OF s1(2) s2(2)]
  note m2 = models_silent [OF S S2 S2]
  note G2 = named_file_kept [OF N m2 refl refl]
  obtain s3 q where s3: "directory_remove_entry s2 ''/'' c False = Some (0, s3)" "models s3 M r a" "frees {} {first_block s2 r} s2 s3"
      "dir_data s3 r q" "listing (view s3 (first_block s3 r)) q = us @ vs"
  proof (rule directory_remove_from [OF G2(1), of "{}" a])
    fix t p assume T: "models t M r a" "first_block s2 r = direct_blocks (v_inode a r) ! 0" "used t (first_block s2 r)"
      "btype (view t (first_block s2 r)) = BLOCK_TYPE_DATA" "points t p (first_block s2 r)"
      "de_inode (dir_slot (view t (first_block s2 r)) (length us)) = of_nat n"
    show "\<exists>i u. remove_at t (root_pair t r) (v_inode a r) c False (first_block s2 r) p (6 + DIRENT_SIZE * length us) (entry_count (view t (first_block s2 r))) zero_inode =
        Some (False, entry_count (view t (first_block s2 r)) - 1, i, u) \<and> models u M r a \<and> frees {} {first_block s2 r} t u \<and>
        view u (first_block s2 r) = without_entry (length us) (view t (first_block s2 r))"
      by (rule remove_at_linked [OF T(1) n cnt T(2-6), of c zero_inode]) (blast intro: kept_frees)
  qed (use that in simp_all)
  have F3: "frees {} {first_block s r} s s3" using frees_kept [OF m2(2) s3(3)] G2(2) by simp
  have b3: "btree_root (sb_of s3) = ?b" using freesD(5) [OF F3] .
  have "(path_hash c, l) \<in> set (v_names a)" using names by simp
  then have de: "dir_entry s3 ?b c (Some l)" using models_entry [OF s3(2)] b3 by simp
  obtain s4 where s4: "btree_search s3 ?b (path_hash c) = Some (l, s4)" "st.silent s3 s4"
    using dir_search [OF modelsD(3) [OF s3(2)] de] by auto
  have l0: "l \<noteq> 0" using dir_entry_node [OF de] by simp
  note m4 = models_silent [OF s3(2) s4(2,2)]
  have b4: "btree_root (sb_of s4) = ?b" using kept_root [OF m4(2)] b3 by simp
  obtain s5 where s5: "btree_delete s4 ?b (path_hash c) = Some (l, s5)" "models s5 M r ?a" "frees {l} {} s4 s5"
    by (rule delete_step [OF m4(1) names, unfolded b4])
  have "metadata_unlink s (join [c]) False = Some (0, s5)"
    using s1(1) s2(1) s3(1) s4(1) l0 s5(1) top_path [OF c] unfolding metadata_unlink_def by (simp del: join.simps)
  moreover have F: "frees {l} {first_block s r} s s5" using frees_trans [OF kept_after [OF F3 m4(2)] s5(3)] by simp
  moreover have fb: "first_block s5 r = first_block s3 r"
    using modelsD(6) [OF s5(2) modelsD(9) [OF s5(2)]] modelsD(6) [OF s3(2) modelsD(9) [OF s3(2)]] by simp
  moreover have "dir_data s5 r q \<and> view s5 (first_block s5 r) = view s3 (first_block s3 r)"
  proof -
    let ?d = "first_block s3 r"
    have d: "used s3 ?d" "btype (view s3 ?d) = BLOCK_TYPE_DATA" using s3(4) by (simp_all add: dir_data_def)
    have "is_node s3 l" using dir_entry_node [OF de] by simp
    then have dl: "?d \<noteq> l" using d(2) by (auto simp: is_node_def block_types)
    have F35: "frees {l} {} s3 s5" using frees_kept [OF m4(2) s5(3)] by simp
    then have "used s5 ?d" "view s5 ?d = view s3 ?d" using freesD(2,4) [OF F35 d(1)] d(2) dl by simp_all
    then show ?thesis using s3(4) by (simp add: dir_data_def fb)
  qed
  ultimately show thesis using s5(2) s3(5) by (intro that [of s5 q]) simp_all
qed

text \<open>The callback journals the change first.\<close>

lemma nbtrfs_unlink_step:
  assumes G: "can_remove s M r a c n l ps qs us e vs" and sl: "v_slots a = Suc k" and len: "length (join [c]) < PATH_MAX"
  obtains s' m where "nbtrfs_unlink env s (join [c]) = Some (0, s')" and "models s' M r (removed n l (ps @ qs) (a\<lparr>v_slots := k\<rparr>))"
    and "frees {l} {first_block s r} s s'" and "dir_data s' r m" and "listing (view s' (first_block s' r)) m = us @ vs"
proof -
  have S: "models s M r a" using G by (simp add: can_remove_def named_file_def)
  obtain x where x: "new_entry_for env s UNLINK (join [c]) = Some x" using len by (simp add: new_entry_for_def strcpy_def)
  have ty: "je_type x = UNLINK"
    using x len by (auto simp: new_entry_for_def strcpy_def layout split: if_splits)
  have "prepare_entry s x = Some (x, s)" using ty by (simp add: prepare_entry_def block_types)
  then obtain s1 where s1: "initialize_journal_entry env s x = Some s1" "models s1 M r (a\<lparr>v_slots := k\<rparr>)" "kept {} s s1"
    by (rule journal_step [OF S sl, of _ _ env])
  have N: "named_file s M r a c n l ps qs us e vs" using G by (simp add: can_remove_def)
  note N1 = named_file_kept [OF N s1(2,3)]
  have G1: "can_remove s1 M r (a\<lparr>v_slots := k\<rparr>) c n l ps qs us e vs" using N1(1) G by (simp add: can_remove_def)
  obtain s2 m where s2: "metadata_unlink s1 (join [c]) False = Some (0, s2)" "models s2 M r (removed n l (ps @ qs) (a\<lparr>v_slots := k\<rparr>))"
      "frees {l} {first_block s1 r} s1 s2" "dir_data s2 r m" "listing (view s2 (first_block s2 r)) m = us @ vs"
    by (rule unlink_step [OF G1])
  have "nbtrfs_unlink env s (join [c]) = Some (0, s2)" using x s1(1) s2(1) unfolding nbtrfs_unlink_def by simp
  moreover have "frees {l} {first_block s r} s s2" using frees_kept [OF s1(3) s2(3)] N1(2) by simp
  ultimately show thesis using s2(2,4,5) by (intro that)
qed

end
