(* ===== verification/Truncation.thy ===== *)
theory Truncation
  imports Removal
begin

text \<open>
  Truncating a file of at most twelve pages: the pages behind the new end are freed one by one, then the size is set.
\<close>

section \<open>The loop\<close>

text \<open>The inode \<open>i\<close> without its pages \<open>j\<close> to \<open>k - 1\<close>.\<close>

definition cut :: "nat \<Rightarrow> nat \<Rightarrow> Inode \<Rightarrow> Inode" where
  "cut j k i = i\<lparr>direct_blocks := take j (direct_blocks i) @ replicate (k - j) 0 @ drop k (direct_blocks i)\<rparr>"

lemma cut_nth:
  assumes "length (direct_blocks i) = 12" and "j \<le> k" and "k \<le> 12" and "m < 12"
  shows "direct_blocks (cut j k i) ! m = (if j \<le> m \<and> m < k then 0 else direct_blocks i ! m)"
  using assms by (auto simp: cut_def nth_append)

lemma cut_length: "length (direct_blocks i) = 12 \<Longrightarrow> j \<le> k \<Longrightarrow> k \<le> 12 \<Longrightarrow> length (direct_blocks (cut j k i)) = 12"
  by (simp add: cut_def)

lemma cut_Suc:
  assumes "length (direct_blocks i) = 12" and "j < k" and "k \<le> 12"
  shows "cut (Suc j) k (with_block j 0 i) = cut j k i"
proof -
  have "take (Suc j) ((direct_blocks i)[j := 0]) = take j (direct_blocks i) @ [0]"
    using assms by (simp add: take_Suc_conv_app_nth)
  moreover have "k - j = Suc (k - Suc j)" using assms(2) by simp
  ultimately show ?thesis using assms(2) by (simp add: cut_def with_block_def)
qed

lemma free_blocks_step:
  assumes "models s M r a" and "n < M" and "i = v_inode a n" and "inode_number i = of_nat n" and "length (direct_blocks i) = 12"
    and "j + q = k" and "k \<le> 12" and "\<And>m. j \<le> m \<Longrightarrow> m < k \<Longrightarrow> used s (direct_blocks i ! m) \<and> btype (view s (direct_blocks i ! m)) = BLOCK_TYPE_DATA"
    and "\<And>m. j \<le> m \<Longrightarrow> m < k \<Longrightarrow> direct_blocks i ! m \<noteq> 0" and "inj_on (\<lambda>m. direct_blocks i ! m) {j..<k}"
  shows "\<exists>s'. free_blocks_from q s i (of_nat j) = Some (cut j k i, s') \<and>
    models s' M r (a\<lparr>v_inode := (v_inode a)(n := cut j k i), v_free := v_free a \<union> unat ` (\<lambda>m. direct_blocks i ! m) ` {j..<k}\<rparr>) \<and>
    frees ((\<lambda>m. direct_blocks i ! m) ` {j..<k}) {} s s'"
  using assms
proof (induction q arbitrary: s a i j)
  case 0
  note S = 0(1)
  have e: "j = k" "cut j k i = i" using 0(6) by (simp_all add: cut_def)
  have "kept {} s s" using models_silent(2) [OF S st.silent_refl st.silent_refl] modelsD(3) [OF S] by blast
  then have "frees {} {} s s" by (rule kept_frees)
  moreover have "(v_inode a)(n := i) = v_inode a" using 0(3) by auto
  ultimately show ?case using S e by (simp del: fun_upd_apply)
next
  case (Suc q)
  note S = Suc.prems(1)
  have j: "j < k" "j < 12" using Suc.prems(6,7) by simp_all
  let ?b = "direct_blocks i ! j"
  have u: "unat (of_nat j :: u64) = j" using j by (intro unat_of_nat_small) simp
  then have lt: "(of_nat j :: u64) < 12" using j by (simp add: word_less_nat_alt)
  have b: "used s ?b" "btype (view s ?b) = BLOCK_TYPE_DATA" "?b \<noteq> 0" using Suc.prems(8,9) [of j] j by simp_all
  have g: "inode_get_block s i (of_nat j) = Some (0, Some ?b, s)" using b(3) lt u by (simp add: inode_get_block_def Let_def)
  obtain s1 where s1: "free_page s (int_of_u64 ?b) = Some s1" "models s1 M r (a\<lparr>v_free := insert (unat ?b) (v_free a)\<rparr>)" "frees {?b} {} s s1"
    by (rule free_step [OF S b(1,2)])
  let ?i = "with_block j 0 i" and ?a1 = "a\<lparr>v_free := insert (unat ?b) (v_free a)\<rparr>"
  have i: "inode_number ?i = of_nat n" "length (direct_blocks ?i) = 12" using Suc.prems(4,5) by (simp_all add: with_block_def)
  obtain s2 where s2: "inode_write s1 ?i True = Some (0, s2)" "models s2 M r (?a1\<lparr>v_inode := (v_inode ?a1)(n := ?i)\<rparr>)" "kept {} s1 s2"
    by (rule inode_write_step [OF s1(2) Suc.prems(2) i, of True]) (rule that)
  let ?a2 = "?a1\<lparr>v_inode := (v_inode ?a1)(n := ?i)\<rparr>"
  have F2: "frees {?b} {} s s2" using kept_after [OF s1(3) s2(3)] by simp
  have set2: "inode_set_block s1 i (of_nat j) 0 = Some (0, ?i, s2)"
    using s2(1) lt u by (simp add: inode_set_block_def set_direct_def with_block_def)
  have db: "direct_blocks ?i ! m = direct_blocks i ! m" if "Suc j \<le> m" for m using that by (simp add: with_block_def)
  have ne: "direct_blocks i ! m \<noteq> ?b" if "Suc j \<le> m" "m < k" for m
    using inj_onD [OF Suc.prems(10), of m j] that j by auto
  have old: "used s2 (direct_blocks ?i ! m) \<and> btype (view s2 (direct_blocks ?i ! m)) = BLOCK_TYPE_DATA" if m: "Suc j \<le> m" "m < k" for m
    using Suc.prems(8) [of m] freesD(2,3) [OF F2, of "direct_blocks i ! m"] ne [OF m] m by (simp add: db)
  have z: "direct_blocks ?i ! m \<noteq> 0" if "Suc j \<le> m" "m < k" for m using Suc.prems(9) [of m] that by (simp add: db)
  have im: "(\<lambda>m. direct_blocks ?i ! m) ` {Suc j..<k} = (\<lambda>m. direct_blocks i ! m) ` {Suc j..<k}" by (intro image_cong) (simp_all add: db)
  have "inj_on (\<lambda>m. direct_blocks i ! m) {Suc j..<k}" using Suc.prems(10) by (rule inj_on_subset) auto
  then have inj: "inj_on (\<lambda>m. direct_blocks ?i ! m) {Suc j..<k}" by (auto simp: inj_on_def db)
  have c: "cut (Suc j) k ?i = cut j k i" by (rule cut_Suc [OF Suc.prems(5) j(1) Suc.prems(7)])
  obtain s3 where s3: "free_blocks_from q s2 ?i (of_nat (Suc j)) = Some (cut j k i, s3)"
      "models s3 M r (?a2\<lparr>v_inode := (v_inode ?a2)(n := cut j k i), v_free := v_free ?a2 \<union> unat ` (\<lambda>m. direct_blocks i ! m) ` {Suc j..<k}\<rparr>)"
      "frees ((\<lambda>m. direct_blocks i ! m) ` {Suc j..<k}) {} s2 s3"
  proof -
    have eq: "?i = v_inode ?a2 n" and q: "Suc j + q = k" using Suc.prems(6) by simp_all
    show thesis using Suc.IH [OF s2(2) Suc.prems(2) eq i q Suc.prems(7) old z inj] that unfolding c im by blast
  qed
  have un: "{j..<k} = insert j {Suc j..<k}" using j by auto
  have "free_blocks_from (Suc q) s i (of_nat j) = Some (cut j k i, s3)"
    using g b(3) s1(1) set2 s3(1) by (simp add: Let_def add.commute)
  moreover have "frees ((\<lambda>m. direct_blocks i ! m) ` {j..<k}) {} s s3" using frees_trans [OF F2 s3(3)] unfolding un by simp
  moreover have eq: "?a2\<lparr>v_inode := (v_inode ?a2)(n := cut j k i), v_free := v_free ?a2 \<union> unat ` (\<lambda>m. direct_blocks i ! m) ` {Suc j..<k}\<rparr> =
      a\<lparr>v_inode := (v_inode a)(n := cut j k i), v_free := v_free a \<union> unat ` (\<lambda>m. direct_blocks i ! m) ` {j..<k}\<rparr>"
    unfolding un by simp
  ultimately show ?case using s3(2) [unfolded eq] by blast
qed

section \<open>The number of pages\<close>

definition pages_for :: "nat \<Rightarrow> nat" where
  "pages_for x = (x + USABLE_BLOCK_SIZE - 1) div USABLE_BLOCK_SIZE"

lemma pages_for_mono: "x \<le> y \<Longrightarrow> pages_for x \<le> pages_for y"
  by (simp add: pages_for_def div_le_mono)

lemma pages_for_covers: "x \<le> pages_for x * USABLE_BLOCK_SIZE"
  using div_mult_mod_eq [of "x + 4091" 4092] mod_less_divisor [of 4092 "x + 4091"] by (simp add: pages_for_def layout)

lemma blocks_for_word:
  assumes "unat w < 2 ^ 32"
  shows "blocks_for w = of_nat (pages_for (unat w))" and "unat (blocks_for w) = pages_for (unat w)"
proof -
  have "w + of_nat USABLE_BLOCK_SIZE - 1 = of_nat (unat w + 4091)" by (simp add: layout)
  moreover have "unat w + 4091 < 2 ^ 64" using assms by simp
  ultimately have "blocks_for w = of_nat ((unat w + 4091) div 4092)"
    using word_div_mod_nat(1) [of "unat w + 4091" 4092] by (simp add: blocks_for_def layout add.commute)
  then show b: "blocks_for w = of_nat (pages_for (unat w))" by (simp add: pages_for_def layout add.commute)
  have "pages_for (unat w) \<le> unat w + 4091" by (simp add: pages_for_def layout)
  then show "unat (blocks_for w) = pages_for (unat w)" unfolding b using assms by (intro unat_of_nat_small) simp
qed

lemma new_blocks_for_nat:
  assumes "sz < 2 ^ 32"
  shows "new_blocks_for (of_nat sz) = Some (of_nat (pages_for sz))"
proof -
  have "c_off (sint (of_nat sz :: u64) + int USABLE_BLOCK_SIZE) = Some (of_nat (sz + USABLE_BLOCK_SIZE))"
    using assms by (intro c_off_add) (simp add: layout)
  moreover have "sint (of_nat (sz + USABLE_BLOCK_SIZE) :: u64) = int (sz + USABLE_BLOCK_SIZE)"
    using assms by (intro sint_of_nat_small) (simp add: layout)
  moreover have "int (sz + USABLE_BLOCK_SIZE) - 1 = int (sz + USABLE_BLOCK_SIZE - 1)" by (simp add: layout)
  ultimately show ?thesis by (simp only: new_blocks_for_def pages_for_def c_div_nat bind.bind_lunit of_int_of_nat_eq)
qed

section \<open>Truncating a file\<close>

text \<open>What is left of a small file when its last pages are freed.\<close>

lemma cut_small_file:
  assumes f: "small_file s i k" and j: "j \<le> k" and F: "frees ((\<lambda>m. direct_blocks i ! m) ` {j..<k}) {} s s'" and ok: "store_ok s'"
  shows "small_file s' (cut j k i) j" and "off \<le> j * USABLE_BLOCK_SIZE \<Longrightarrow> file_bytes s' (cut j k i) 0 off = file_bytes s i 0 off"
proof -
  note D = small_fileD [OF f]
  have k12: "k \<le> 12" "j \<le> 12" using D(1) j by simp_all
  have db: "direct_blocks (cut j k i) ! m = direct_blocks i ! m" if "m < j" for m using cut_nth [OF D(2) j k12(1), of m] that k12 by simp
  have inj: "inj_on (\<lambda>m. direct_blocks i ! m) {..<k}"
  proof -
    have "inj_on (page_at s i) {..<k}" using D(3) by (simp add: file_ok_def)
    then show ?thesis using D(6) by (simp add: inj_on_def)
  qed
  have out: "direct_blocks i ! m \<notin> (\<lambda>m. direct_blocks i ! m) ` {j..<k}" if "m < j" for m
    using inj_onD [OF inj, of m] that j by fastforce
  have U: "used s' (direct_blocks i ! m)" "btype (view s' (direct_blocks i ! m)) = BLOCK_TYPE_DATA"
      "view s' (direct_blocks i ! m) = view s (direct_blocks i ! m)" "direct_blocks i ! m \<noteq> 0" if m: "m < j" for m
  proof -
    have mk: "m < k" using m j by simp
    show "used s' (direct_blocks i ! m)" "btype (view s' (direct_blocks i ! m)) = BLOCK_TYPE_DATA"
      "view s' (direct_blocks i ! m) = view s (direct_blocks i ! m)"
      using freesD(2,3,4) [OF F D(4) [OF mk] out [OF m]] D(7) [OF mk] by simp_all
    show "direct_blocks i ! m \<noteq> 0" using file_okD(3) [OF D(3) mk] D(6) [OF mk, of s] by simp
  qed
  have pg: "page_at t (cut j k i) m = direct_blocks i ! m" if "m < j" for t m using db [OF that] that k12 by (simp add: page_at_def)
  have "inj_on (page_at s' (cut j k i)) {..<j}"
    using inj j by (auto simp: inj_on_def pg)
  then have "file_ok s' (cut j k i) j" using ok U pg k12 by (simp add: file_ok_def used_def)
  moreover have "direct_blocks (cut j k i) ! m = 0" if "j \<le> m" "m < 12" for m
    using cut_nth [OF D(2) j k12(1) that(2)] D(5) [of m] that by simp
  ultimately show "small_file s' (cut j k i) j" using k12 cut_length [OF D(2) j k12(1)] U(1) db by (simp add: small_file_def)
  show "off \<le> j * USABLE_BLOCK_SIZE \<Longrightarrow> file_bytes s' (cut j k i) 0 off = file_bytes s i 0 off"
    by (rule small_file_bytes [OF k12(2) _ db]) (use U(3) in auto)
qed

lemma truncate_step:
  assumes S: "models s M r a" and q: "(path_hash c, l) \<in> set (v_names a)" and l: "v_leaf a l = (of_nat n, ty)" "ty \<noteq> FILE_TYPE_DIRECTORY"
    and n: "n < M" "0 < n" and c: "component c" "length (join [c]) < PATH_MAX" and i: "i = v_inode a n" and num: "inode_number i = of_nat n"
    and f: "small_file s i k" and k: "k = pages_for (unat (i_size i))" and sz: "sz < unat (i_size i)"
  defines "j \<equiv> pages_for sz" and "i' \<equiv> (cut (pages_for sz) k i)\<lparr>i_size := of_nat sz\<rparr>"
    and "C \<equiv> (\<lambda>m. direct_blocks i ! m) ` {pages_for sz..<k}"
  obtains s' where "metadata_truncate s (join [c]) (of_nat sz) False = Some (0, s')"
    and "models s' M r (a\<lparr>v_inode := (v_inode a)(n := i'), v_free := v_free a \<union> unat ` C\<rparr>)" and "frees C {} s s'"
    and "small_file s' i' j" and "\<And>off. off \<le> j * USABLE_BLOCK_SIZE \<Longrightarrow> file_bytes s' i' 0 off = file_bytes s i 0 off"
proof -
  note FA = models_file_at [OF S q l n c]
  note io = sound_inode(1) [OF modelsD(2) [OF S] n(1)]
  have jk: "j \<le> k" unfolding j_def k by (rule pages_for_mono) (use sz in simp)
  obtain s1 where s1: "item_search s (join [c]) = Some (\<lparr>ip_inode = of_nat n, ip_btree = 0\<rparr>, s1)" "st.silent s s1"
    by (rule file_at_search [OF FA(1)])
  note I1 = inode_silent [OF s1(2)]
  obtain s2 where s2: "inode_read s1 (of_nat n) = Some (Some i, s2)" "st.silent s1 s2"
    using inode_read_ok [OF I1(6) [OF io]] I1(5) FA(2) i by metis
  note S2 = st.silent_trans [OF s1(2) s2(2)]
  note m2 = models_silent [OF S S2 S2]
  note f2 = small_file_kept [OF f m2(2)]
  note D = small_fileD [OF f2(1)]
  have inj: "inj_on (\<lambda>m. direct_blocks i ! m) {j..<k}"
  proof -
    have "inj_on (page_at s2 i) {..<k}" using D(3) by (simp add: file_ok_def)
    then show ?thesis using D(6) by (auto simp: inj_on_def)
  qed
  have pg: "used s2 (direct_blocks i ! m) \<and> btype (view s2 (direct_blocks i ! m)) = BLOCK_TYPE_DATA" "direct_blocks i ! m \<noteq> 0" if "j \<le> m" "m < k" for m
    using D(4,7) [OF that(2)] file_okD(3) [OF D(3) that(2)] D(6) [OF that(2), of s2] by simp_all
  have jq: "j + (k - j) = k" using jk by simp
  obtain s3 where s3: "free_blocks_from (k - j) s2 i (of_nat j) = Some (cut j k i, s3)"
      "models s3 M r (a\<lparr>v_inode := (v_inode a)(n := cut j k i), v_free := v_free a \<union> unat ` C\<rparr>)" "frees C {} s2 s3"
    using free_blocks_step [OF m2(1) n(1) i num D(2) jq D(1) pg inj] unfolding C_def j_def by blast
  have ci: "inode_number i' = of_nat n" "length (direct_blocks i') = 12"
    using num cut_length [OF D(2) jk D(1)] by (simp_all add: i'_def j_def cut_def)
  let ?a3 = "a\<lparr>v_inode := (v_inode a)(n := cut j k i), v_free := v_free a \<union> unat ` C\<rparr>"
  obtain s4 where s4: "inode_write s3 i' False = Some (0, s4)" "models s4 M r (?a3\<lparr>v_inode := (v_inode ?a3)(n := i')\<rparr>)" "kept {} s3 s4"
    by (rule inode_write_step [OF s3(2) n(1) ci, of False]) (rule that)
  have eq: "?a3\<lparr>v_inode := (v_inode ?a3)(n := i')\<rparr> = a\<lparr>v_inode := (v_inode a)(n := i'), v_free := v_free a \<union> unat ` C\<rparr>" by simp
  have small: "unat (i_size i) < 2 ^ 32"
  proof -
    have "unat (i_size i) \<le> k * USABLE_BLOCK_SIZE" unfolding k by (rule pages_for_covers)
    also have "\<dots> \<le> 12 * USABLE_BLOCK_SIZE" using D(1) by (rule mult_le_mono1)
    finally show ?thesis by (simp add: layout)
  qed
  have us: "unat (of_nat sz :: u64) = sz" using sz small by (intro unat_of_nat_small) simp
  have "pages_for sz \<le> sz + 4091" by (simp add: pages_for_def layout)
  then have bs: "new_blocks_for (of_nat sz) = Some (of_nat j)" "unat (of_nat j :: u64) = j"
    using new_blocks_for_nat [of sz] sz small by (simp_all add: j_def) (intro unat_of_nat_small, simp)
  have bi: "unat (blocks_for (i_size i)) = k" using blocks_for_word(2) [OF small] k by simp
  have lt: "of_nat sz < i_size i" using us sz by (simp add: word_less_nat_alt)
  have "metadata_truncate s (join [c]) (of_nat sz) False = Some (0, s4)"
    using s1(1) s2(1) s3(1) s4(1) lt bs bi unfolding metadata_truncate_def i'_def j_def by (simp del: join.simps)
  moreover have F: "frees C {} s s4" using kept_after [OF frees_kept [OF m2(2) s3(3)] s4(3)] by simp
  moreover have "small_file s4 i' j" "\<And>off. off \<le> j * USABLE_BLOCK_SIZE \<Longrightarrow> file_bytes s4 i' 0 off = file_bytes s i 0 off"
    using cut_small_file [OF f jk F [unfolded C_def, folded j_def] modelsD(3) [OF s4(2)]] by (simp_all add: i'_def j_def)
  ultimately show thesis using s4(2) [unfolded eq] by (intro that)
qed

text \<open>The callback journals the change first.\<close>

lemma nbtrfs_truncate_step:
  assumes S: "models s M r a" and q: "(path_hash c, l) \<in> set (v_names a)" and l: "v_leaf a l = (of_nat n, ty)" "ty \<noteq> FILE_TYPE_DIRECTORY"
    and n: "n < M" "0 < n" and c: "component c" "length (join [c]) < PATH_MAX" and i: "i = v_inode a n" and num: "inode_number i = of_nat n"
    and f: "small_file s i k" and k: "k = pages_for (unat (i_size i))" and sz: "sz < unat (i_size i)" and sl: "v_slots a = Suc y"
  defines "j \<equiv> pages_for sz" and "i' \<equiv> (cut (pages_for sz) k i)\<lparr>i_size := of_nat sz\<rparr>"
    and "C \<equiv> (\<lambda>m. direct_blocks i ! m) ` {pages_for sz..<k}"
  obtains s' where "nbtrfs_truncate env s (join [c]) (of_nat sz) = Some (0, s')"
    and "models s' M r (a\<lparr>v_inode := (v_inode a)(n := i'), v_free := v_free a \<union> unat ` C, v_slots := y\<rparr>)" and "frees C {} s s'"
    and "small_file s' i' j" and "\<And>off. off \<le> j * USABLE_BLOCK_SIZE \<Longrightarrow> file_bytes s' i' 0 off = file_bytes s i 0 off"
proof -
  obtain x where x: "new_entry_for env s TRUNCATE (join [c]) = Some x" using c(2) by (simp add: new_entry_for_def strcpy_def)
  have ty: "je_type (store64 (of_nat sz) x JE_SIZE) = TRUNCATE"
    using x c(2) by (auto simp: new_entry_for_def strcpy_def layout split: if_splits)
  have "prepare_entry s (store64 (of_nat sz) x JE_SIZE) = Some (store64 (of_nat sz) x JE_SIZE, s)" using ty by (simp add: prepare_entry_def block_types)
  then obtain s1 where s1: "initialize_journal_entry env s (store64 (of_nat sz) x JE_SIZE) = Some s1" "models s1 M r (a\<lparr>v_slots := y\<rparr>)" "kept {} s s1"
    by (rule journal_step [OF S sl, of _ _ env])
  let ?a = "a\<lparr>v_slots := y\<rparr>"
  note f1 = small_file_kept [OF f s1(3)]
  have A: "(path_hash c, l) \<in> set (v_names ?a)" "v_leaf ?a l = (of_nat n, ty)" "i = v_inode ?a n" using q l i by simp_all
  obtain s2 where s2: "metadata_truncate s1 (join [c]) (of_nat sz) False = Some (0, s2)"
      "models s2 M r (?a\<lparr>v_inode := (v_inode ?a)(n := i'), v_free := v_free ?a \<union> unat ` C\<rparr>)" "frees C {} s1 s2"
      "small_file s2 i' j" "\<And>off. off \<le> j * USABLE_BLOCK_SIZE \<Longrightarrow> file_bytes s2 i' 0 off = file_bytes s1 i 0 off"
    using truncate_step [OF s1(2) A(1,2) l(2) n c A(3) num f1(1) k sz] unfolding i'_def C_def j_def by blast
  have eq: "?a\<lparr>v_inode := (v_inode ?a)(n := i'), v_free := v_free ?a \<union> unat ` C\<rparr> =
      a\<lparr>v_inode := (v_inode a)(n := i'), v_free := v_free a \<union> unat ` C, v_slots := y\<rparr>" by simp
  have jk: "j \<le> k" unfolding j_def k by (rule pages_for_mono) (use sz in simp)
  have "nbtrfs_truncate env s (join [c]) (of_nat sz) = Some (0, s2)" using x s1(1) s2(1) unfolding nbtrfs_truncate_def by simp
  moreover have "frees C {} s s2" using frees_kept [OF s1(3) s2(3)] by simp
  moreover have "file_bytes s2 i' 0 off = file_bytes s i 0 off" if off: "off \<le> j * USABLE_BLOCK_SIZE" for off
  proof -
    have "off \<le> k * USABLE_BLOCK_SIZE" using off mult_le_mono1 [OF jk] by (rule le_trans)
    then show ?thesis using s2(5) [OF off] f1(2) by simp
  qed
  ultimately show thesis using s2(2) [unfolded eq] s2(4) by (intro that)
qed

end
