(* ===== verification/Sessions.thy ===== *)
theory Sessions
  imports Fsync Cache_Init
begin

text \<open>
  The cache as a state machine. A session is any sequence of the access patterns the file system uses:
  reading a block, writing one back, writing one through, synchronising an inode. The abstract
  machine keeps the contents of every block and the values its block on disk may have; every reachable
  state of the cache refines it, so that a crash at any point leaves a value the machine allows.
\<close>

section \<open>Requests\<close>

datatype request = Read u64 | Write u64 u64 block | Through u64 block | Sync_inode u64

fun serve :: "request \<Rightarrow> fs \<Rightarrow> fs option" where
  "serve (Read b) s = do { (_, s) \<leftarrow> get_block s 0 b; Some s }"
| "serve (Write inum b x) s = do {
     (p, s) \<leftarrow> get_block s inum b;
     s \<leftarrow> assign s p x;
     write_block s p inum b
   }"
| "serve (Through b x) s = do {
     (p, s) \<leftarrow> get_block s 0 b;
     s \<leftarrow> assign s p x;
     locked_write s b p
   }"
| "serve (Sync_inode inum) s = cache_fsync s inum"

fun in_range :: "fs \<Rightarrow> request \<Rightarrow> bool" where
  "in_range s (Read b) = (unat b < nblocks s)"
| "in_range s (Write _ b _) = (unat b < nblocks s)"
| "in_range s (Through b _) = (unat b < nblocks s)"
| "in_range s (Sync_inode _) = True"

inductive session :: "fs \<Rightarrow> request list \<Rightarrow> fs \<Rightarrow> bool" for s\<^sub>0 where
  start: "session s\<^sub>0 [] s\<^sub>0"
| step: "session s\<^sub>0 rs s \<Longrightarrow> in_range s r \<Longrightarrow> serve r s = Some s' \<Longrightarrow> session s\<^sub>0 (rs @ [r]) s'"

inductive_simps session_snoc: "session s\<^sub>0 (rs @ [r]) s'"

section \<open>The abstract machine\<close>

record disk_spec =
  contents :: "u64 \<Rightarrow> block"
  allowed :: "u64 \<Rightarrow> block set"
  pending :: "u64 \<Rightarrow> u64 set"

text \<open>
  A write makes the new value one the disk may have; a write-through makes it the only one; and so does a
  synchronisation for the data blocks written under its inode since the last.
\<close>

fun spec_step :: "request \<Rightarrow> disk_spec \<Rightarrow> disk_spec" where
  "spec_step (Read b) a = a"
| "spec_step (Write inum b x) a = a\<lparr>contents := (contents a)(b := x), allowed := (allowed a)(b := insert x (allowed a b)),
     pending := if btype x = BLOCK_TYPE_DATA then (pending a)(inum := insert b (pending a inum)) else pending a\<rparr>"
| "spec_step (Through b x) a = a\<lparr>contents := (contents a)(b := x), allowed := (allowed a)(b := {x})\<rparr>"
| "spec_step (Sync_inode inum) a = a\<lparr>allowed := (\<lambda>b. if b \<in> pending a inum then {contents a b} else allowed a b),
     pending := (pending a)(inum := {})\<rparr>"

definition spec_start :: "fs \<Rightarrow> disk_spec" where
  "spec_start s = \<lparr>contents = view s, allowed = (\<lambda>b. {disk_image s (unat b), view s b}), pending = (\<lambda>_. {})\<rparr>"

definition spec_run :: "fs \<Rightarrow> request list \<Rightarrow> disk_spec" where
  "spec_run s rs = fold spec_step rs (spec_start s)"

section \<open>Refinement\<close>

definition session_ok :: "fs \<Rightarrow> bool" where
  "session_ok s \<longleftrightarrow> store_ok s \<and> \<not> cache_disabled s \<and> lists_ok s \<and> coherent s"

definition refines :: "nat \<Rightarrow> fs \<Rightarrow> disk_spec \<Rightarrow> bool" where
  "refines n s a \<longleftrightarrow> session_ok s \<and> nblocks s = n \<and> view s = contents a \<and>
     (\<forall>b. disk_image s (unat b) \<in> allowed a b \<and> contents a b \<in> allowed a b) \<and> (\<forall>i. \<forall>b \<in> pending a i. queued s i b)"

lemma session_ok_silent: "session_ok s \<Longrightarrow> st.silent s s' \<Longrightarrow> session_ok s'"
  using st.keepsD(1,3,6) [OF st.silentD(1), of s s'] coherent_stale [of s] coherent_stale [of s'] st.stale_silent [of s s']
  by (auto simp: session_ok_def)

lemma refines_silent:
  assumes "refines n s a" and "st.silent s s'"
  shows "refines n s' a"
  using assms session_ok_silent [OF _ assms(2)] st.keepsD(2,7) [OF st.silentD(1) [OF assms(2)]] st.silentD(2,3) [OF assms(2)]
  by (auto simp: refines_def session_ok_def)

lemma serve_write:
  assumes R: "refines n s a" and b: "unat b < n"
  shows "\<exists>s'. serve (Write inum b x) s = Some s' \<and> refines n s' (spec_step (Write inum b x) a)"
proof -
  have ok: "store_ok s" and bn: "unat b < nblocks s" and c: "\<not> cache_disabled s" and l: "lists_ok s"
    using R b by (simp_all add: refines_def session_ok_def)
  obtain p s1 where g: "get_block s inum b = Some (p, s1)" "st.silent s s1" "points s1 p b"
    using st.get_silent [OF ok bn, of inum] by blast
  note K1 = st.keepsD [OF st.silentD(1) [OF g(2)]]
  obtain s2 s3 s4 where w: "assign s1 p x = Some s2" "write_block s2 p inum b = Some s3" "increase_pin_count s3 inum b = Some s4"
      "st.changes s1 s2 b x" "st.changes s1 s3 b x"
      "\<not> cache_disabled s1 \<Longrightarrow> lists_ok s1 \<Longrightarrow> btype x = BLOCK_TYPE_DATA \<Longrightarrow> queued s3 inum b \<and> queued s4 inum b"
    by (rule st.store_put_pin [OF K1(1) g(3), of x inum inum]) (rule that)
  obtain s3' where "write_block s2 p inum b = Some s3'" "cache_disabled s2 \<or> dirty_block s3' b"
    using st.put_marks [OF st.keepsD(1,4) [OF st.changesD(1) [OF w(4)]], OF g(3), of inum] by blast
  then have d: "dirty_block s3 b" using w(2) c K1(3) st.keepsD(3) [OF st.changesD(1) [OF w(4)]] by simp
  note C = st.silent_changes [OF g(2) w(5)]
  note K3 = st.keepsD [OF st.changesD(1) [OF C]]
  have "\<not> st.stale s3 y" for y
  proof
    assume y: "st.stale s3 y"
    moreover have "y \<noteq> b" using y d by (auto simp: st.stale_def)
    moreover have "\<not> st.stale s y" using R coherent_stale [OF ok] by (simp add: refines_def session_ok_def)
    ultimately show False using st.stale_changes [OF C y] by blast
  qed
  then have "session_ok s3" using K3(1,3,6) c l coherent_stale [OF K3(1)] by (simp add: session_ok_def)
  moreover have "btype x = BLOCK_TYPE_DATA \<Longrightarrow> queued s3 inum b" using w(6) c l K1(3,6) by simp
  moreover have "view s3 = (view s)(b := x)" "disk_image s3 = disk_image s" using st.changesD(2,3) [OF C] c by simp_all
  ultimately have "refines n s3 (spec_step (Write inum b x) a)"
    using R K3(2) K3(7) [OF l] by (auto simp: refines_def)
  then show ?thesis using g(1) w(1,2) by simp
qed

lemma serve_through:
  assumes R: "refines n s a" and b: "unat b < n"
  shows "\<exists>s'. serve (Through b x) s = Some s' \<and> refines n s' (spec_step (Through b x) a)"
proof -
  have ok: "store_ok s" and bn: "unat b < nblocks s" and c: "\<not> cache_disabled s" and l: "lists_ok s"
    using R b by (simp_all add: refines_def session_ok_def)
  obtain p s1 where g: "get_block s 0 b = Some (p, s1)" "st.silent s s1" "points s1 p b"
    using st.get_silent [OF ok bn, of 0] by blast
  note K1 = st.keepsD [OF st.silentD(1) [OF g(2)]]
  obtain s2 s3 where w: "assign s1 p x = Some s2" "locked_write s2 b p = Some s3" "st.updates s1 s3 b x"
    by (rule st.store_through_unpin [OF K1(1) g(3), of x 0]) (rule that)
  note U = st.silent_updates [OF g(2) w(3)]
  note K3 = st.keepsD [OF st.updatesD(1) [OF U]]
  have "coherent s3"
    using R st.stale_updates [OF U] coherent_stale [OF ok] coherent_stale [OF K3(1)] by (auto simp: refines_def session_ok_def)
  then have "session_ok s3" using K3(1,3,6) c l by (simp add: session_ok_def)
  moreover have "view s3 = (view s)(b := x)" "disk_image s3 = (disk_image s)(unat b := x)" using st.updatesD(2,3) [OF U] by simp_all
  ultimately have "refines n s3 (spec_step (Through b x) a)"
    using R K3(2) K3(7) [OF l] by (auto simp: refines_def word_unat_eq_iff [symmetric])
  then show ?thesis using g(1) w(1,2) by simp
qed

lemma serve_refines:
  assumes R: "refines n s a" and r: "in_range s r"
  shows "\<exists>s'. serve r s = Some s' \<and> refines n s' (spec_step r a)"
proof (cases r)
  case (Read b)
  have "store_ok s" "unat b < nblocks s" using R r Read by (simp_all add: refines_def session_ok_def)
  then obtain p s' where "get_block s 0 b = Some (p, s')" "st.silent s s'" using st.get_silent [of s b 0] by blast
  then show ?thesis using Read refines_silent [OF R] by simp
next
  case (Write i b x)
  have "unat b < n" using R r Write by (simp add: refines_def)
  then show ?thesis unfolding Write by (rule serve_write [OF R])
next
  case (Through b x)
  have "unat b < n" using R r Through by (simp add: refines_def)
  then show ?thesis unfolding Through by (rule serve_through [OF R])
next
  case (Sync_inode i)
  have ok: "store_ok s" and l: "lists_ok s" and c: "\<not> cache_disabled s" and co: "coherent s"
    using R by (simp_all add: refines_def session_ok_def)
  obtain s' where s': "cache_fsync s i = Some s'" "store_ok s'" "lists_ok s'" "nblocks s' = nblocks s" "cache_disabled s' = cache_disabled s"
      "view s' = view s" "disk_image s' = (\<lambda>k. if \<exists>b. queued s i b \<and> unat b = k then view s (of_nat k) else disk_image s k)"
      "\<And>j b. queued s' j b \<longleftrightarrow> j \<noteq> i \<and> queued s j b" "\<And>b. dirty_block s' b \<longleftrightarrow> dirty_block s b \<and> \<not> queued s i b"
    using st.fsync_law [OF ok l, of i] by blast
  have im: "disk_image s' (unat b) = (if queued s i b then view s b else disk_image s (unat b))" for b
    by (simp add: s'(7) word_unat_eq_iff [symmetric])
  have "\<not> st.stale s' b" for b
    using co coherent_stale [OF ok] by (auto simp: st.stale_def im s'(6,9))
  then have "session_ok s'" using s'(2,3,5) c coherent_stale [OF s'(2)] by (simp add: session_ok_def)
  then have "refines n s' (spec_step r a)"
    using R by (auto simp: refines_def Sync_inode s'(4,6,8) im)
  then show ?thesis using s'(1) Sync_inode by simp
qed

lemma refines_start: "session_ok s \<Longrightarrow> refines (nblocks s) s (spec_start s)"
  by (simp add: refines_def spec_start_def)

lemma session_refines:
  assumes "session s\<^sub>0 rs s" and "session_ok s\<^sub>0"
  shows "refines (nblocks s\<^sub>0) s (spec_run s\<^sub>0 rs)"
  using assms(1)
proof (induction rule: session.induct)
  case start
  then show ?case using refines_start [OF assms(2)] by (simp add: spec_run_def)
next
  case (step rs s r s')
  then show ?case using serve_refines [OF step.IH step.hyps(2)] by (simp add: spec_run_def)
qed

text \<open>Every request in range is served, from every reachable state, so a session can be of any length.\<close>

lemma session_progress:
  assumes "session s\<^sub>0 rs s" and "session_ok s\<^sub>0" and "in_range s\<^sub>0 r"
  shows "\<exists>s'. session s\<^sub>0 (rs @ [r]) s'"
proof -
  have R: "refines (nblocks s\<^sub>0) s (spec_run s\<^sub>0 rs)" by (rule session_refines [OF assms(1,2)])
  then have "in_range s r" using assms(3) by (cases r) (simp_all add: refines_def)
  with serve_refines [OF R] assms(1) show ?thesis by (blast intro: session.step)
qed

lemma session_exists:
  assumes "session_ok s\<^sub>0" and "list_all (in_range s\<^sub>0) rs"
  shows "\<exists>s. session s\<^sub>0 rs s"
  using assms(2)
proof (induction rs rule: rev_induct)
  case Nil
  then show ?case by (auto intro: session.start)
next
  case (snoc r rs)
  then obtain s where "session s\<^sub>0 rs s" by auto
  then show ?case using session_progress [OF _ assms(1)] snoc.prems by simp
qed

lemma mounted_session:
  assumes "unat (total_blocks d) \<le> n" and "n < 2 ^ 31" and "unat (total_blocks d) \<le> 2 ^ 19"
  shows "session_ok (mounted d (new_cache n))"
proof -
  have "lists_ok (mounted d (new_cache n))"
    by (simp add: lists_ok_def mounted_def new_cache_def dl_exact_empty)
  then show ?thesis using mounted_ok [OF assms] by (simp add: session_ok_def) (simp add: mounted_def)
qed

end
