(* ===== verification/Btree_Limits.thy ===== *)
theory Btree_Limits
  imports Btree_Flat
begin

text \<open>
  Where the B+tree code leaves its arrays. A node has \<open>MAX_KEYS\<close> keys and \<open>MAX_KEYS + 1\<close> children. The
  insertion into a node, the borrowing from a right sibling and the merging of two children index
  past them, the first when the node is full and the other two whenever they have work to do.
\<close>

lemma for_range_fails:
  assumes "\<And>x. P x \<Longrightarrow> f (i + m) x = None" and "\<And>j x y. P x \<Longrightarrow> f j x = Some y \<Longrightarrow> P y" and "P x" and "m < n"
  shows "for_range n i f x = None"
  using assms
proof (induction n arbitrary: i m x)
  case (Suc n)
  show ?case
  proof (cases "f i x")
    case (Some y)
    have m: "m \<noteq> 0" using Suc.prems(1) [OF Suc.prems(3)] Some by (cases m) simp_all
    have y: "P y" by (rule Suc.prems(2) [OF Suc.prems(3) Some])
    have "for_range n (Suc i) f y = None"
      using Suc.prems(1,2,4) y m by (intro Suc.IH [where m = "m - 1"]) auto
    with Some show ?thesis by simp
  qed simp
qed simp

text \<open>Shifting a whole array down reads the cell behind it.\<close>

lemma shift_down_fails: "length xs = n \<Longrightarrow> 0 < n \<Longrightarrow> shift_down n 0 xs = None"
  unfolding shift_down_def
  by (rule for_range_fails [where P = "\<lambda>ys. length ys = n" and m = "n - 1"])
    (auto simp: aget_def aset_def bind_eq_Some_conv split: if_splits)

text \<open>Shifting the children of a full node up writes behind them.\<close>

lemma shift_up_fails: "length xs \<le> Suc j \<Longrightarrow> 0 < r \<Longrightarrow> shift_up r j xs = None"
  by (cases r) (auto simp: aset_def bind_eq_None_conv)

lemma insert_nonfull_full:
  assumes "node_shape root" and "\<not> is_leaf root" and "MAX_KEYS \<le> unat (num_keys root)"
  shows "btree_insert_nonfull s root p = None"
proof -
  have "shift_up (unat (num_keys root) + 1 - min pos (unat (num_keys root))) (unat (num_keys root)) (children root) = None" for pos
    using assms by (intro shift_up_fails) (auto simp: node_shape_def)
  then show ?thesis using assms(2) by (auto simp: btree_insert_nonfull_def bind_eq_None_conv Let_def)
qed

lemma borrow_right_fails:
  assumes "right_sibling node \<noteq> 0" and "read_node s (right_sibling node) = Some (r, s')" and "node_shape r"
    and "MIN_KEYS < unat (num_keys r)"
  shows "btree_borrow_right s node = None"
proof -
  have "shift_down MAX_KEYS 0 (keys r) = None" using assms(3) by (intro shift_down_fails) (auto simp: node_shape_def layout)
  then show ?thesis using assms by (auto simp: btree_borrow_right_def bind_eq_None_conv)
qed

lemma merge_into_fails:
  assumes "node_shape a"
  shows "merge_into a b = None"
proof -
  let ?g = "\<lambda>i a. do { k \<leftarrow> aget (keys b) (i - MIN_KEYS - 1); a \<leftarrow> set_key i k a; Some (a\<lparr>num_keys := num_keys a + 1\<rparr>) }"
  let ?f = "\<lambda>i a. do { c \<leftarrow> aget (children b) (i - MIN_KEYS - 1); set_key i c a }"
  let ?n = "MAX_KEYS - (MIN_KEYS + 1)" and ?a = "a\<lparr>right_sibling := right_sibling b\<rparr>"
  have f: "for_range (MAX_KEYS + 1 - (MIN_KEYS + 1)) (MIN_KEYS + 1) ?f x = None" if x: "length (keys x) = MAX_KEYS" for x
    by (rule for_range_fails [where P = "\<lambda>n. length (keys n) = MAX_KEYS" and m = ?n])
      (use x in \<open>auto simp: set_key_def aset_def bind_eq_Some_conv bind_eq_None_conv layout split: if_splits\<close>)
  have g: "length (keys y) = length (keys x)" if "for_range n i ?g x = Some y" for n i x y
    using that by (induction n arbitrary: i x) (auto simp: set_key_def aset_def bind_eq_Some_conv split: if_splits)
  show ?thesis
  proof (cases "for_range ?n (MIN_KEYS + 1) ?g ?a")
    case None
    then show ?thesis unfolding merge_into_def Let_def by (simp only: bind.bind_lzero)
  next
    case (Some y)
    then have "length (keys y) = MAX_KEYS" using g [OF Some] assms by (simp add: node_shape_def)
    with Some f show ?thesis unfolding merge_into_def Let_def by (simp only: bind.bind_lunit)
  qed
qed

lemma merge_children_fails:
  assumes "j = (if i = MAX_KEYS then i - 1 else i)" and "aget (children p) j = Some ca" and "aget (children p) (j + 1) = Some cb"
    and "ca \<noteq> 0" and "cb \<noteq> 0" and "read_node s ca = Some (a, s1)" and "node_shape a"
  shows "btree_merge_children s p i = None"
  using assms merge_into_fails [OF assms(7)]
  by (subst btree_merge_children.simps) (auto simp: bind_eq_None_conv Let_def)

end
