(* ===== verification/Evict.thy ===== *)
theory Evict
  imports Sync
begin

text \<open>
  Eviction from a full cache (\<^verbatim>\<open>src/cache.c\<close>, \<open>get_block\<close>): the victim is the least recently used slot
  that is not pinned, and the search for it does not end when all are pinned. Evicting a clean
  victim keeps the invariant and the contents of every block; a dirty victim, or one that is first
  in its hash chain, runs into undefined behaviour.
\<close>

section \<open>The victim\<close>

definition slot_of :: "cache \<Rightarrow> nat \<Rightarrow> nat" where
  "slot_of c a = nat (the (idx_of (lru_heap c) a))"

definition unpinned :: "cache \<Rightarrow> nat \<Rightarrow> bool" where
  "unpinned c a \<longleftrightarrow> pin_count (entries c ! slot_of c a) = 0"

text \<open>The specification: the last unpinned node of the recency list.\<close>

definition victim :: "cache \<Rightarrow> nat list \<Rightarrow> nat option" where
  "victim c L = find (unpinned c) (rev L)"

lemma lru_node:
  assumes "cinv c L G" and "a \<in> set L"
  obtains i n where "in_use c i" and "i < length (entries c)" and "lru_pos (entries c ! i) = Some a" and "slot_of c a = i"
    and "lru_heap c a = Some n" and "index n = int i"
proof -
  obtain i where i: "in_use c i" "lru_pos (entries c ! i) = Some a" using cinvD(9) [OF assms] by blast
  then have ix: "idx_of (lru_heap c) a = Some (int i)" using cinvD(8) [OF assms(1) i(1)] by (auto simp: slot_ok_def)
  then obtain n where "lru_heap c a = Some n" "index n = int i" by (auto simp: idx_of_def)
  with i ix in_use_less [OF assms(1) i(1)] show thesis by (intro that) (auto simp: slot_of_def)
qed

text \<open>The pointer \<^verbatim>\<open>prev\<close> leads to the node before, and from the first node to the last.\<close>

lemma ring_prv:
  assumes "ring h (us @ [w, y] @ vs)"
  shows "prv_of h y = Some w"
  using ring_prev_head [OF ring_rotate [of h "us @ [w]" "y # vs"]] assms by simp

lemma ring_prv_mem:
  assumes "ring h L" and "y \<in> set L" and "h y = Some n"
  shows "prv n \<in> set L"
proof -
  from assms(2) obtain us vs where L: "L = us @ y # vs" by (auto simp: in_set_conv_decomp)
  have "prv_of h y = Some (last (y # vs @ us))"
    using ring_prev_head [OF ring_rotate [of h us "y # vs"]] assms(1) by (simp add: L)
  moreover have "last (y # vs @ us) \<in> set L" using last_in_set [of "y # vs @ us"] by (auto simp: L)
  ultimately show ?thesis using assms(3) by (simp add: prv_of_def)
qed

lemma lru_victim_finds:
  assumes inv: "cinv c L G" and "L = us @ vs" and "find (unpinned c) (rev us) = Some a"
  shows "lru_victim c (last us) = Some a"
  using assms(2,3)
proof (induction us arbitrary: vs rule: rev_induct)
  case (snoc y us)
  have y: "y \<in> set L" using snoc.prems by simp
  obtain i n where n: "i < length (entries c)" "slot_of c y = i" "lru_heap c y = Some n" "index n = int i"
    by (rule lru_node [OF inv y])
  show ?case
  proof (cases "unpinned c y")
    case False
    then have f: "find (unpinned c) (rev us) = Some a" using snoc.prems(2) by simp
    then obtain us' w where us: "us = us' @ [w]" by (cases us rule: rev_cases) auto
    have "ring (lru_heap c) L" using cinvD(3) [OF inv] by (simp add: lru_ring_def ring_list_def)
    then have "prv_of (lru_heap c) y = Some w"
      using ring_prv [of "lru_heap c" us' w y vs] by (simp add: snoc.prems(1) us)
    then have "prv n = last us" using n(3) by (simp add: prv_of_def us)
    then show ?thesis
      using snoc.IH [of "y # vs", OF _ f] snoc.prems(1) False n by (subst lru_victim.simps) (simp add: unpinned_def)
  qed (use snoc.prems(2) n in \<open>subst lru_victim.simps, simp add: unpinned_def\<close>)
qed simp

text \<open>Whatever the search returns is an unpinned node of the list.\<close>

lemma lru_victim_sound:
  assumes "lru_victim c cur = Some v" and inv: "cinv c L G" and "cur \<in> set L"
  shows "v \<in> set L \<and> unpinned c v"
proof -
  have "cinv c L G \<longrightarrow> cur \<in> set L \<longrightarrow> v \<in> set L \<and> unpinned c v"
  proof (rule lru_victim.raw_induct
      [where P = "\<lambda>c cur v. cinv c L G \<longrightarrow> cur \<in> set L \<longrightarrow> v \<in> set L \<and> unpinned c v", OF _ assms(1)], intro impI)
    fix f c cur v
    assume IH: "\<And>c cur v. f c cur = Some v \<Longrightarrow> cinv c L G \<longrightarrow> cur \<in> set L \<longrightarrow> v \<in> set L \<and> unpinned c v"
      and eq: "lru_heap c cur \<bind> (\<lambda>n. entry_at c (index n) \<bind> (\<lambda>e. if pin_count e \<noteq> 0 then f c (prv n) else Some cur)) = Some v"
      and inv: "cinv c L G" and cur: "cur \<in> set L"
    obtain i n where n: "i < length (entries c)" "slot_of c cur = i" "lru_heap c cur = Some n" "index n = int i"
      by (rule lru_node [OF inv cur])
    have "ring (lru_heap c) L" using cinvD(3) [OF inv] by (simp add: lru_ring_def ring_list_def)
    then have "prv n \<in> set L" using ring_prv_mem cur n(3) by blast
    with eq n inv cur IH [of c "prv n" v] show "v \<in> set L \<and> unpinned c v"
      by (auto simp: unpinned_def split: if_splits)
  qed
  with assms show ?thesis by blast
qed

lemma lru_victim_ok:
  assumes "cinv c L G" and "L \<noteq> []"
  shows "lru_victim c (last L) = victim c L"
proof (cases "victim c L")
  case None
  then have "\<And>v. v \<in> set L \<Longrightarrow> \<not> unpinned c v" by (simp add: victim_def find_None_iff)
  then show ?thesis using lru_victim_sound [OF _ assms(1), of "last L"] assms(2) None by (cases "lru_victim c (last L)") auto
next
  case (Some a)
  then show ?thesis using lru_victim_finds [OF assms(1), of L "[]" a] by (simp add: victim_def)
qed

lemma victim_mem: "victim c L = Some a \<Longrightarrow> a \<in> set L \<and> unpinned c a"
  by (auto simp: victim_def find_Some_iff rev_nth)

section \<open>Evicting\<close>

text \<open>
  Taking node \<open>a\<close> out of the recency list, its slot \<open>i\<close> to the free list and its block out of the
  index keeps the invariant, provided no node of the global dirty list stands for the slot.
\<close>

lemma cinv_evict:
  assumes inv: "cinv c L G" and i: "in_use c i" and a: "lru_pos (entries c ! i) = Some a"
    and gd: "\<And>g. g \<in> set G \<Longrightarrow> idx_of (gdl_heap c) g \<noteq> Some (int i)"
    and sel: "cache_size c' = cache_size c" "free_list c' = int i # free_list c" "pages c' = pages c" "brk c' = brk c"
      "gdl_heap c' = gdl_heap c" "gdl c' = gdl c" "gdl_size c' = gdl_size c" "entries c' = entries c"
    and m: "pci_map (pci c') = (pci_map (pci c))(ce_block_number (entries c ! i) := None)" "pci_wf (pci c')"
    and ring: "lru_ring c' (remove1 a L)"
    and id: "\<And>x. x \<noteq> a \<Longrightarrow> idx_of (lru_heap c') x = idx_of (lru_heap c) x"
  shows "cinv c' (remove1 a L) G"
proof -
  note I = cinvD [OF inv]
  let ?b = "ce_block_number (entries c ! i)"
  have dist: "distinct L" using I(3) by (simp add: lru_ring_def ring_list_def ring_def)
  have u: "in_use c' j \<longleftrightarrow> in_use c j \<and> j \<noteq> i" for j by (auto simp: in_use_def sel)
  have ai: "idx_of (lru_heap c) a = Some (int i)" using I(8) [OF i] a by (auto simp: slot_ok_def)
  have b: "pci_map (pci c) ?b = Some i" using I(8) [OF i] by (simp add: slot_ok_def)
  have ok: "slot_ok c' (remove1 a L) G j" if j: "in_use c' j" for j
  proof -
    have s: "slot_ok c L G j" and ji: "j \<noteq> i" using I(8) j u by blast+
    then obtain x where x: "x \<in> set L" "lru_pos (entries c ! j) = Some x" "idx_of (lru_heap c) x = Some (int j)"
      by (auto simp: slot_ok_def)
    have "x \<noteq> a" using x(3) ai ji by auto
    moreover have "ce_block_number (entries c ! j) \<noteq> ?b" using s b ji by (auto simp: slot_ok_def)
    ultimately show ?thesis using s x id by (auto simp: slot_ok_def sel(3,5,8) m)
  qed
  have lp: "\<exists>j. in_use c' j \<and> lru_pos (entries c' ! j) = Some x" if x: "x \<in> set (remove1 a L)" for x
  proof -
    have "x \<in> set L" "x \<noteq> a" using x dist by (auto dest: notin_set_remove1)
    then obtain j where "in_use c j" "lru_pos (entries c ! j) = Some x" using I(9) by blast
    with \<open>x \<noteq> a\<close> a show ?thesis by (intro exI [of _ j]) (auto simp: u sel(8))
  qed
  have g: "gdl_ring c' G" using gdl_ring_mono [OF I(4)] by (simp add: sel)
  show ?thesis
    unfolding cinv_def
  proof (intro conjI)
    show "\<forall>b j. pci_map (pci c') b = Some j \<longrightarrow> in_use c' j \<and> ce_block_number (entries c' ! j) = b"
    proof (intro allI impI)
      fix b' j assume "pci_map (pci c') b' = Some j"
      then have "pci_map (pci c) b' = Some j" "b' \<noteq> ?b" by (auto simp: m split: if_splits)
      then show "in_use c' j \<and> ce_block_number (entries c' ! j) = b'" using I(10) [of b' j] by (auto simp: u sel(8))
    qed
    show "\<forall>g \<in> set G. \<exists>j. in_use c' j \<and> idx_of (gdl_heap c') g = Some (int j)"
    proof
      fix g assume g: "g \<in> set G"
      from I(11) [OF this] obtain j where j: "in_use c j" "idx_of (gdl_heap c) g = Some (int j)" by blast
      with gd [OF g] show "\<exists>j. in_use c' j \<and> idx_of (gdl_heap c') g = Some (int j)"
        by (intro exI [of _ j]) (auto simp: u sel(5))
    qed
    show "\<forall>j k. in_use c' j \<longrightarrow> in_use c' k \<longrightarrow> page_data (entries c' ! j) = page_data (entries c' ! k) \<longrightarrow> j = k"
      using I(12) by (simp add: u sel(8))
    show "distinct (free_list c')" "\<forall>j \<in> set (free_list c'). 0 \<le> j \<and> nat j < cache_size c'"
      using I(6,7) i by (auto simp: sel in_use_def)
  qed (use I ok lp g ring m(2) in \<open>simp_all add: sel(1,3,4,8)\<close>)
qed

text \<open>The part all evictions share: the victim leaves the recency list.\<close>

lemma evict_start:
  assumes inv: "cinv (cache_s s) L G" and v: "victim (cache_s s) L = Some a" and i: "i = slot_of (cache_s s) a"
  obtains h r where "in_use (cache_s s) i" and "i < length (entries (cache_s s))"
    and "lru_pos (entries (cache_s s) ! i) = Some a" and "a \<in> set L"
    and "lru_ring ((cache_s s)\<lparr>lru_heap := h, lru := r, lru_size := lru_size (cache_s s) - 1\<rparr>) (remove1 a L)"
    and "\<And>x. x \<noteq> a \<Longrightarrow> idx_of h x = idx_of (lru_heap (cache_s s)) x"
    and "evict s = evict_slot (s\<lparr>cache_s := (cache_s s)\<lparr>lru_heap := h, lru := r, lru_size := lru_size (cache_s s) - 1\<rparr>\<rparr>) (int i)"
proof -
  let ?c = "cache_s s"
  note I = cinvD [OF inv]
  have a: "a \<in> set L" using victim_mem [OF v] by blast
  then have ne: "L \<noteq> []" by auto
  obtain n where n: "in_use ?c i" "i < length (entries ?c)" "lru_pos (entries ?c ! i) = Some a"
      "lru_heap ?c a = Some n" "index n = int i"
    by (rule lru_node [OF inv a]) (use i that in blast)
  obtain k h w r where pop: "idx_of (lru_heap ?c) a = Some k"
      "lru_pop ?c (LruLocal (Some a)) = Some (k, lru_store w (LruLocal (Some a)) (?c\<lparr>lru_heap := h, lru := r, lru_size := lru_size ?c - 1\<rparr>))"
      "lru_ring (?c\<lparr>lru_heap := h, lru := r, lru_size := lru_size ?c - 1\<rparr>) (remove1 a L)"
      "\<And>x. x \<noteq> a \<Longrightarrow> idx_of h x = idx_of (lru_heap ?c) x"
    by (rule lru_pop_ok [OF I(3) a, of "LruLocal (Some a)"]) (simp, rule that)
  have k: "k = int i" using pop(1) n(4,5) by (simp add: idx_of_def)
  have rg: "ring (lru_heap ?c) L" and hd: "lru ?c = Some (hd L)"
    using I(3) ne by (simp_all add: lru_ring_def ring_list_def)
  obtain z where z: "lru_heap ?c (hd L) = Some z" "prv z = last L"
    using ring_prev_head [OF rg ne] by (auto simp: prv_of_def)
  have "lru_victim ?c (prv z) = Some a" using lru_victim_ok [OF inv ne] v z(2) by simp
  then have "evict s = evict_slot (s\<lparr>cache_s := ?c\<lparr>lru_heap := h, lru := r, lru_size := lru_size ?c - 1\<rparr>\<rparr>) (int i)"
    using hd z(1) pop(2) k by (simp add: evict_def Let_def)
  with n a pop show thesis by (intro that [where h = h and r = r])
qed

text \<open>A dirty victim: its page is freed before its type tag is read.\<close>

lemma write_back_undefined: "write_back_victim s i = None"
  by (auto simp: write_back_victim_def Let_def bind_eq_None_conv)

lemma evict_dirty:
  assumes "cinv (cache_s s) L G" and "victim (cache_s s) L = Some a" and "dirty_bit (entries (cache_s s) ! slot_of (cache_s s) a)"
  shows "evict s = None"
  by (rule evict_start [OF assms(1,2) refl]) (use assms(3) in \<open>simp add: evict_slot_def write_back_undefined\<close>)

lemma evict_clean:
  assumes inv: "cinv (cache_s s) L G" and v: "victim (cache_s s) L = Some a" and i: "i = slot_of (cache_s s) a"
    and cl: "\<not> dirty_bit (entries (cache_s s) ! i)"
    and gd: "\<And>g. g \<in> set G \<Longrightarrow> idx_of (gdl_heap (cache_s s)) g \<noteq> Some (int i)"
    and hd: "pl_block_number (hd (pci (cache_s s) ! hash_bucket b)) \<noteq> b" and b: "b = ce_block_number (entries (cache_s s) ! i)"
  obtains c' where "evict s = Some (s\<lparr>cache_s := c'\<rparr>)" and "cinv c' (remove1 a L) G" and "in_use (cache_s s) i"
    and "free_list c' = int i # free_list (cache_s s)" and "pci_map (pci c') = (pci_map (pci (cache_s s)))(b := None)"
    and "pages c' = pages (cache_s s)" and "entries c' = entries (cache_s s)" and "cache_size c' = cache_size (cache_s s)"
proof -
  let ?c = "cache_s s"
  note I = cinvD [OF inv]
  obtain h r where e: "in_use ?c i" "i < length (entries ?c)" "lru_pos (entries ?c ! i) = Some a"
      "lru_ring (?c\<lparr>lru_heap := h, lru := r, lru_size := lru_size ?c - 1\<rparr>) (remove1 a L)"
      "\<And>x. x \<noteq> a \<Longrightarrow> idx_of h x = idx_of (lru_heap ?c) x"
      "evict s = evict_slot (s\<lparr>cache_s := ?c\<lparr>lru_heap := h, lru := r, lru_size := lru_size ?c - 1\<rparr>\<rparr>) (int i)"
    by (rule evict_start [OF inv v i]) (rule that)
  have pb: "pci_map (pci ?c) b = Some i" using I(8) [OF e(1)] by (simp add: slot_ok_def b)
  obtain m where m: "pci_delete (pci ?c) b = Some m" "pci_wf m" "pci_map m = (pci_map (pci ?c))(b := None)"
    by (rule pci_delete_ok [OF I(5) _ hd]) (use pb in auto)
  define c' where "c' = ?c\<lparr>lru_heap := h, lru := r, lru_size := lru_size ?c - 1, pci := m, free_list := int i # free_list ?c\<rparr>"
  have "evict s = Some (s\<lparr>cache_s := c'\<rparr>)"
    using m(1) cl e(2) by (simp add: e(6) evict_slot_def Let_def b c'_def fl_push_def)
  moreover have "lru_ring c' (remove1 a L)" using lru_ring_mono [OF e(4), of c'] by (simp add: c'_def)
  then have "cinv c' (remove1 a L) G"
    by (rule cinv_evict [OF inv e(1,3) gd, rotated -2]) (use e(5) m b in \<open>auto simp: c'_def\<close>)
  ultimately show thesis using e(1) m(3) by (intro that [of c']) (simp_all add: c'_def)
qed

section \<open>Fetching into a full cache\<close>

text \<open>Loading a block into a free slot shows no change, whatever the size of the disk.\<close>

lemma load_block_view:
  assumes inv: "cinv (cache_s s) L G" and en: "\<not> cache_disabled s" and fl: "free_list (cache_s s) = idx # fl"
    and miss: "pci_map (pci (cache_s s)) b = None" and adr: "addressable s" "unat b < nblocks s"
  obtains c' n where "load_block s inum b = Some (PagePtr (brk (cache_s s)), s\<lparr>cache_s := c'\<rparr>)" and "cinv c' (n # L) G"
    and "view (s\<lparr>cache_s := c'\<rparr>) = view s" and "deref (s\<lparr>cache_s := c'\<rparr>) (PagePtr (brk (cache_s s))) = Some (view s b)"
    and "pci_map (pci c') = (pci_map (pci (cache_s s)))(b \<mapsto> nat idx)"
    and "lru.order c' (n # L) = idx # lru.order (cache_s s) L"
proof -
  let ?c = "cache_s s"
  obtain c' n i where l: "idx = int i" "i < cache_size ?c" "load_block s inum b = Some (PagePtr (brk ?c), s\<lparr>cache_s := c'\<rparr>)"
      and c': "cinv c' (n # L) G" and pm: "pci_map (pci c') = (pci_map (pci ?c))(b \<mapsto> i)"
      and pg: "pages c' = (pages ?c)(brk ?c \<mapsto> disk_base (disk s) (unat b))"
      and es: "entries c' = (entries ?c)[i := (entries ?c ! i)\<lparr>dirty_bit := False, pin_count := 0,
           ce_block_number := b, ce_inode_number := inum, page_data := Some (brk ?c), lru_pos := Some n\<rparr>]"
      and od: "lru.order c' (n # L) = int i # lru.order ?c L"
    by (rule load_block_ok [OF inv fl miss adr, of inum]) (rule that)
  have pi: "page_of c' i = brk ?c" using l(2) cinvD(1) [OF inv] by (simp add: page_of_def es)
  have "view (s\<lparr>cache_s := c'\<rparr>) x = view s x" for x
  proof (cases "pci_map (pci ?c) x")
    case (Some j)
    then have "j \<noteq> i" using cinvD(10) [OF inv Some] fl l(1) by (auto simp: in_use_def)
    then have "page_of c' j = page_of ?c j" by (simp add: page_of_def es)
    moreover have "page_of ?c j \<noteq> brk ?c"
      using cached_live(3) [OF inv en Some] cinvD(13) [OF inv, of "page_of ?c j"] by auto
    ultimately show ?thesis using Some miss en by (auto simp: view_def pm pg)
  qed (use pi en in \<open>auto simp: view_def pm pg disk_image_def\<close>)
  then have "view (s\<lparr>cache_s := c'\<rparr>) = view s" by blast
  with l c' pm od show thesis
    using en miss by (intro that [of c' n]) (simp_all add: pg view_def disk_image_def)
qed

text \<open>
  The whole call: the victim \<open>a\<close> leaves the recency list, the block comes in at its front, in the
  victim's slot, and no block reads differently.
\<close>

lemma get_block_evict:
  assumes inv: "cinv (cache_s s) L G" and en: "\<not> cache_disabled s" and co: "coherent s" and fl: "free_list (cache_s s) = []"
    and miss: "pci_map (pci (cache_s s)) b = None" and adr: "addressable s" "unat b < nblocks s"
    and v: "victim (cache_s s) L = Some a" and i: "i = slot_of (cache_s s) a"
    and cl: "\<not> dirty_bit (entries (cache_s s) ! i)"
    and gd: "\<And>g. g \<in> set G \<Longrightarrow> idx_of (gdl_heap (cache_s s)) g \<noteq> Some (int i)"
    and hd: "pl_block_number (hd (pci (cache_s s) ! hash_bucket d)) \<noteq> d" and d: "d = ce_block_number (entries (cache_s s) ! i)"
  obtains p s' n where "get_block s inum b = Some (p, s')" and "deref s' p = Some (view s b)" and "view s' = view s"
    and "disk_image s' = disk_image s" and "cinv (cache_s s') (n # remove1 a L) G"
    and "pci_map (pci (cache_s s')) = (pci_map (pci (cache_s s)))(d := None, b \<mapsto> i)"
proof -
  let ?c = "cache_s s"
  note I = cinvD [OF inv]
  obtain c1 where e: "evict s = Some (s\<lparr>cache_s := c1\<rparr>)" "cinv c1 (remove1 a L) G" "in_use ?c i"
      "free_list c1 = int i # free_list ?c" "pci_map (pci c1) = (pci_map (pci ?c))(d := None)"
      "pages c1 = pages ?c" "entries c1 = entries ?c"
    by (rule evict_clean [OF inv v i cl _ hd d]) (erule gd, rule that)
  let ?s = "s\<lparr>cache_s := c1\<rparr>"
  have dm: "pci_map (pci ?c) d = Some i" using I(8) [OF e(3)] by (simp add: slot_ok_def d)
  have "view s d = disk_image s (unat d)" using co en dm cl by (simp add: coherent_def)
  then have v1: "view ?s = view s"
    using en by (auto simp: fun_eq_iff view_def e(5-7) page_of_def disk_image_def split: option.splits)
  have adr1: "addressable ?s" "unat b < nblocks ?s" using adr by (simp_all add: addressable_def nblocks_def)
  obtain c' n where l: "load_block ?s inum b = Some (PagePtr (brk c1), ?s\<lparr>cache_s := c'\<rparr>)" "cinv c' (n # remove1 a L) G"
      "view (?s\<lparr>cache_s := c'\<rparr>) = view ?s" "deref (?s\<lparr>cache_s := c'\<rparr>) (PagePtr (brk c1)) = Some (view ?s b)"
      "pci_map (pci c') = (pci_map (pci c1))(b \<mapsto> nat (int i))"
    by (rule load_block_view [of ?s "remove1 a L" G "int i" "free_list ?c" b inum]) (use e en miss adr1 that in auto)
  have "pci_lookup (pci ?c) b = -1" using pci.lookup_assoc [OF I(5), of b] miss by simp
  then have "get_block s inum b = Some (PagePtr (brk c1), s\<lparr>cache_s := c'\<rparr>)"
    using en fl e(1) l(1) by (simp add: get_block_def)
  with l v1 e(5) show thesis
    by (intro that [of "PagePtr (brk c1)" "s\<lparr>cache_s := c'\<rparr>" n]) (simp_all add: disk_image_def)
qed

end
