(* ===== verification/Examples.thy ===== *)
theory Examples
  imports Programs Sessions Btree_Limits Evict
begin

text \<open>
  A small formatted volume, mounted with a new cache: 300 blocks, the superblock in block 0, the
  block bitmap in block 1 with blocks 0 to 10 in use, the inode bitmap in block 2 with inodes 0 and 1
  in use, one inode table block in block 3, a data block in block 5, a B+tree with its root in block
  4 and two leaves in blocks 6 and 7, and a journal of three blocks from block 8. The second leaf is
  the file \<^verbatim>\<open>/f\<close>, inode 1, whose two bytes are in block 5. The first journal entry is synced, the second
  is not. The volume shows that the hypotheses of the theorems can be met.
\<close>

definition demo_sb :: Superblock where
  "demo_sb = \<lparr>magic_number = 0x53465452424e, block_size = 4096, sb_total_blocks = 300, free_blocks = 289,
     inode_bitmap = 2, root_inode = 0, btree_root = 4, journal_start = 8, journal_head = 0,
     volume_name = replicate 32 0, creation_time = 0, last_mount_time = 0\<rparr>"

text \<open>The nodes of a small tree: a root with two leaves, for the key 10 and the hash of the name \<^verbatim>\<open>f\<close>.\<close>

abbreviation f_hash :: u64 where "f_hash \<equiv> path_hash ''f''"

lemma f_hash_value: "f_hash = 0xaf63db4c8601ead9"
  by code_simp

lemma f_hash_facts: "10 < f_hash" "10 \<le> f_hash" "f_hash \<noteq> 10" "\<not> f_hash < 15" "f_hash \<noteq> 15"
  by (simp_all add: f_hash_value)

definition demo_node :: "u64 \<Rightarrow> bool \<Rightarrow> BTreeNode" where
  "demo_node b leaf = init_node leaf b (node_load zero_block)"

definition demo_root :: BTreeNode where
  "demo_root = (demo_node 4 False)\<lparr>num_keys := 2, keys := [10, f_hash] @ replicate 248 0, children := [6, 7] @ replicate 249 0\<rparr>"

definition demo_leaf :: "u64 \<Rightarrow> u64 \<Rightarrow> u64 \<Rightarrow> BTreeNode" where
  "demo_leaf b k v = (demo_node b True)\<lparr>key := k, n_value := v, parent := 4\<rparr>"

text \<open>The file and the journal entries.\<close>

definition demo_file :: Inode where
  "demo_file = (inode_load zero_block 0)\<lparr>inode_number := 1, i_size := 2, direct_blocks := 5 # replicate 11 0\<rparr>"

definition demo_entry :: "u64 \<Rightarrow> u32 \<Rightarrow> bool \<Rightarrow> block" where
  "demo_entry b ty x = set_je_synced x (set_je_block b (set_je_type ty (set_btype BLOCK_TYPE_JOURNAL zero_block)))"

definition demo_disk :: DiskInterface where
  "demo_disk = \<lparr>disk_base = (\<lambda>k. if k = 0 then sb_store demo_sb (set_btype BLOCK_TYPE_SUPER zero_block)
       else if k = 1 then store64 2047 (set_btype BLOCK_TYPE_BITMAP zero_block) 4
       else if k = 2 then store64 3 (set_btype BLOCK_TYPE_BITMAP zero_block) 4
       else if k = 3 then inode_store demo_file (set_btype BLOCK_TYPE_INODE zero_block) 1
       else if k = 4 then node_store demo_root (set_btype BLOCK_TYPE_BTREE_NODE zero_block)
       else if k = 6 then node_store (demo_leaf 6 10 31) (set_btype BLOCK_TYPE_BTREE_NODE zero_block)
       else if k = 7 then node_store (demo_leaf 7 f_hash 1) (set_btype BLOCK_TYPE_BTREE_NODE zero_block)
       else if k = 5 then store_bytes [104, 105] (set_btype BLOCK_TYPE_DATA zero_block) 4
       else if k = 8 then demo_entry 8 CHMOD True
       else if k = 9 then demo_entry 9 CHMOD False
       else if k = 10 then demo_entry 0 UNINITIALIZED False
       else zero_block),
     total_blocks = 300\<rparr>"

definition demo :: fs where
  "demo = mounted demo_disk (new_cache 512)"

lemma demo_view: "view demo b = disk_base demo_disk (unat b)"
  unfolding demo_def by (rule mounted_ok(3)) (simp_all add: demo_disk_def)

lemma demo_ok: "store_ok demo" and demo_coherent: "coherent demo" and demo_nblocks [simp]: "nblocks demo = 300"
proof -
  show "store_ok demo" "coherent demo"
    unfolding demo_def by (rule mounted_ok; simp add: demo_disk_def)+
  show "nblocks demo = 300" by (simp add: demo_def mounted_def nblocks_def demo_disk_def)
qed

lemma demo_session: "session_ok demo"
  unfolding demo_def by (rule mounted_session) (simp_all add: demo_disk_def)

lemma demo_cached: "\<not> cache_disabled demo" and demo_lists: "lists_ok demo"
  using demo_session by (simp_all add: session_ok_def)

lemma demo_volume: "volume_ok demo"
proof -
  have "bitmap_block i = 1" if "i < 300" for i using that by (simp add: bitmap_block_def layout)
  then show ?thesis
    by (auto simp: volume_ok_def demo_ok demo_view demo_disk_def layout)
qed

lemma demo_used: "i < 300 \<Longrightarrow> block_used demo i \<longleftrightarrow> i < 11"
proof -
  assume i: "i < 300"
  have b: "bitmap_block i = 1" using i by (simp add: bitmap_block_def layout)
  have ld: "load64 (store64 2047 (set_btype BLOCK_TYPE_BITMAP zero_block) 4) (4 + 8 * (i div 64)) = (if i < 64 then 2047 else 0)"
  proof (cases "i < 64")
    case False
    then have "1 \<le> i div 64" by (simp add: div_greater_zero_iff [of i 64, simplified] Suc_le_eq)
    then show ?thesis using False load_zero by (simp add: load_store_other)
  qed simp
  have "bit (2047 :: u64) k \<longleftrightarrow> k < 11" for k
    using bit_mask_iff [of 11 k, where 'a = u64] by (auto simp: mask_eq_exp_minus_1)
  with i ld show ?thesis
    by (auto simp: block_used_def b demo_view demo_disk_def bitmap_bit_def layout)
qed

lemma demo_first_free: "first_free demo = Some 11"
proof -
  have "find (\<lambda>i. \<not> block_used demo i) [0..<300] = find (\<lambda>i. \<not> i < 11) [0..<300]"
    by (rule find_cong) (simp_all add: demo_used)
  also have "\<dots> = Some 11" by (simp add: upt_rec [of _ 300])
  finally show ?thesis by (simp add: first_free_def)
qed

lemma demo_sb_of: "sb_of demo = demo_sb"
  by (simp add: sb_of_def demo_view demo_disk_def sb_load_store demo_sb_def layout)

lemma demo_inode_table: "inode_table demo_sb = 3"
proof -
  have "calculate_inode_bitmap_size demo_sb = 1"
    by (simp add: calculate_inode_bitmap_size_def demo_sb_def layout Let_def int_of_u64_def)
  then show ?thesis by (simp add: inode_table_def demo_sb_def)
qed

lemma demo_inode_ok: "n < 22 \<Longrightarrow> inode_ok demo n"
proof -
  assume "n < 22"
  then have h: "inode_home demo n = 3" by (simp add: inode_home_def demo_sb_of demo_inode_table per_page)
  show ?thesis
    using demo_ok \<open>n < 22\<close> by (auto simp: inode_ok_def h demo_view demo_disk_def btype_inode_store demo_file_def)
qed

lemma demo_bit_block: "n < 22 \<Longrightarrow> inode_bit_block demo n = 2"
  by (simp add: inode_bit_block_def demo_sb_of demo_sb_def layout)

lemma demo_inode_map: "inode_map_ok demo 2"
  by (auto simp: inode_map_ok_def demo_bit_block demo_sb_of demo_view demo_disk_def)
    (auto simp: demo_sb_def layout)

lemma demo_inode_used: "n \<le> 2 \<Longrightarrow> inode_used demo n \<longleftrightarrow> n < 2"
proof -
  assume n: "n \<le> 2"
  then have "inode_used demo n = bitmap_bit (store64 3 (set_btype BLOCK_TYPE_BITMAP zero_block) 4) n"
    by (simp add: inode_used_def demo_bit_block demo_view demo_disk_def layout)
  also have "\<dots> = bit (3 :: u64) n" using n by (simp add: bitmap_bit_def)
  also have "\<dots> = (n < 2)" using bit_mask_iff [of 2 n, where 'a = u64] by (auto simp: mask_eq_exp_minus_1)
  finally show ?thesis .
qed

lemma demo_shapes: "node_shape demo_root" "node_shape (demo_leaf b k v)"
  by (simp_all add: demo_root_def demo_leaf_def demo_node_def init_node_def node_shape_def node_load_def layout)

lemma demo_nodes: "is_node demo 4" "is_node demo 6" "is_node demo 7"
    "node_at demo 4 = demo_root" "node_at demo 6 = demo_leaf 6 10 31" "node_at demo 7 = demo_leaf 7 f_hash 1"
  by (simp_all add: is_node_def node_at_def demo_view demo_disk_def btype_node_store node_load_store demo_shapes)

definition demo_tree :: tree where
  "demo_tree = TNode 4 [10, f_hash] [TLeaf 6 10 31, TLeaf 7 f_hash 1]"

lemma demo_tree_at: "tree_at demo demo_tree"
  by (simp add: demo_tree_def demo_nodes)
    (simp add: demo_root_def demo_leaf_def demo_node_def init_node_def is_leaf_def layout)

lemma demo_tree_ordered: "ordered demo_tree"
  by (auto simp: demo_tree_def less_Suc_eq f_hash_value)

lemma demo_tree_volume: "tree_volume demo"
proof -
  have "bitmap_block j = 1" if "j < 300" for j using that by (simp add: bitmap_block_def layout)
  then show ?thesis by (simp add: tree_volume_def demo_volume demo_used)
qed

lemma demo_flat: "flat_at demo 4 [(10, 6), (f_hash, 7)]"
proof -
  have "root_at demo_root 4 [(10, 6), (f_hash, 7)]"
    by (simp add: root_at_def demo_root_def demo_node_def init_node_def is_leaf_def)
  moreover have "leaf_at demo 4 (10, 6)" "leaf_at demo 4 (f_hash, 7)"
    by (simp_all add: leaf_at_def demo_nodes demo_used demo_leaf_def demo_node_def init_node_def is_leaf_def)
  ultimately show ?thesis by (simp add: flat_at_def demo_nodes demo_used layout f_hash_value)
qed

text \<open>An inode whose indirect block is block 5.\<close>

definition demo_inode :: Inode where
  "demo_inode = (inode_load zero_block 0)\<lparr>indirect_block := 5\<rparr>"

section \<open>The file\<close>

definition demo_env :: env where
  "demo_env = \<lparr>e_uid = 1000, e_gid = 1000, clock = \<lambda>_. 0, stack = \<lambda>_. zero_block\<rparr>"

lemma demo_rooted: "rooted demo"
  using demo_ok demo_nodes(1) by (simp add: rooted_def demo_sb_of demo_view demo_disk_def) (simp add: demo_sb_def)

lemma demo_inode_of: "inode_of demo 1 = demo_file"
proof -
  have h: "inode_home demo (Suc 0) = 3" by (simp add: inode_home_def demo_sb_of demo_inode_table per_page)
  show ?thesis by (simp add: inode_of_def h per_page demo_view demo_disk_def inode_load_store demo_file_def)
qed

lemma demo_resolves: "resolves demo (root_node demo) [''f''] (demo_leaf 7 f_hash 1)"
proof -
  have r: "root_node demo = demo_root" using demo_nodes(4) by (simp add: demo_sb_of demo_sb_def)
  have b: "block_number demo_root = 4" by (simp add: demo_root_def demo_node_def init_node_def)
  have t: "file_type (demo_leaf 7 f_hash 1) \<noteq> S_IFDIR"
    by (simp add: demo_leaf_def demo_node_def init_node_def node_load_def load_zero S_IFDIR_def)
  have "map_of (leaves demo_tree) f_hash = Some 7" by (simp add: demo_tree_def f_hash_value)
  then have "dir_entry demo 4 ''f'' (Some 7)"
    unfolding dir_entry_def by (intro disjI1 exI [of _ demo_tree]) (simp add: demo_tree_at demo_tree_ordered, simp add: demo_tree_def)
  then show ?thesis using t by (auto simp: r b target_of_def demo_nodes)
qed

lemma demo_file_at: "file_at demo [''f''] 1"
proof -
  have "file_type (demo_leaf 7 f_hash 1) \<noteq> S_IFDIR" "n_value (demo_leaf 7 f_hash 1) = 1"
    by (simp_all add: demo_leaf_def demo_node_def init_node_def node_load_def load_zero S_IFDIR_def)
  then show ?thesis
    using demo_rooted demo_inode_ok [of 1] demo_resolves by (auto simp: file_at_def component_def PATH_MAX_def)
qed

lemma demo_file_ok: "file_ok demo demo_file 1"
  using demo_ok by (simp add: file_ok_def page_at_def demo_file_def demo_view demo_disk_def lessThan_Suc)

lemma demo_file_bytes: "file_bytes demo demo_file 0 2 = [104, 105]"
  by (simp add: file_bytes_def file_byte_def page_at_def demo_file_def demo_view demo_disk_def upt_rec store_bytes_def layout)

section \<open>The journal\<close>

lemma demo_journal_size: "calculate_journal_size demo_sb = 3" "ring_size demo_sb = 2"
  by (simp_all add: ring_size_def calculate_journal_size_def demo_sb_def int_of_u64_def)

lemma demo_entry_fields:
  "btype (demo_entry b ty x) = BLOCK_TYPE_JOURNAL" "je_type (demo_entry b ty x) = ty" "je_block (demo_entry b ty x) = b"
  "je_synced (demo_entry b ty x) = x"
  by (simp_all add: demo_entry_def)

lemma demo_journal: "view demo 8 = demo_entry 8 CHMOD True" "view demo 9 = demo_entry 9 CHMOD False"
    "view demo 10 = demo_entry 0 UNINITIALIZED False"
  by (simp_all add: demo_view demo_disk_def)

lemma demo_head: "head_block demo = 8"
  by (simp add: demo_sb_of demo_sb_def)

lemma demo_journal_free: "journal_free demo"
  by (simp add: journal_free_def open_slot_def demo_head demo_journal demo_entry_fields)

lemma demo_ring: "ring_ok demo"
proof -
  have js: "journal_start demo_sb = 8" "journal_head demo_sb = 0" by (simp_all add: demo_sb_def)
  have "super_ok demo" using demo_rooted by (simp add: rooted_def super_ok_def)
  moreover have "btype (view demo (8 + of_nat h)) = BLOCK_TYPE_JOURNAL \<and>
      (settled (view demo (8 + of_nat h)) \<or> je_block (view demo (8 + of_nat h)) = 8 + of_nat h)" if "h < 2" for h
    using that by (auto simp: less_2_cases_iff demo_journal demo_entry_fields settled_def)
  ultimately show ?thesis by (simp add: ring_ok_def demo_sb_of demo_journal_size js)
qed

section \<open>A full cache\<close>

text \<open>
  The volume behind a cache of two entries that holds blocks 1 and 33, which share a hash chain:
  block 1 was loaded first, so it is least recently used, and it is last in the chain.
\<close>

definition tight_entry :: "u64 \<Rightarrow> nat \<Rightarrow> nat \<Rightarrow> cache_entry_t" where
  "tight_entry b p n = \<lparr>dirty_bit = False, pin_count = 0, ce_block_number = b, ce_inode_number = 0,
     page_data = Some p, lru_pos = Some n, gdl_pos = None\<rparr>"

definition tight_cache :: cache where
  "tight_cache =
     \<lparr>cache_size = 2, lru_size = 2, gdl_size = 0, entries = [tight_entry 33 2 3, tight_entry 1 0 1],
      pci = (replicate HASHMAP_SIZE [])[1 := [\<lparr>pl_block_number = 33, pl_index = 0\<rparr>, \<lparr>pl_block_number = 1, pl_index = 1\<rparr>]],
      lru = Some 3, free_list = [], dirty_list = replicate HASHMAP_SIZE [], gdl = None,
      lru_heap = [1 \<mapsto> \<lparr>index = 1, nxt = 3, prv = 3\<rparr>, 3 \<mapsto> \<lparr>index = 0, nxt = 1, prv = 1\<rparr>], gdl_heap = Map.empty,
      pages = [0 \<mapsto> disk_base demo_disk 1, 2 \<mapsto> disk_base demo_disk 33], brk = 4\<rparr>"

definition tight :: fs where
  "tight = mounted demo_disk tight_cache"

lemma tight_index: "pci_wf (pci tight_cache)" "pci_map (pci tight_cache) = [33 \<mapsto> 0, 1 \<mapsto> 1]"
proof -
  have h: "hash_bucket 33 = 1" "hash_bucket 1 = 1" by (simp_all add: hash_bucket_def layout)
  have k: "pci tight_cache ! k = (if k = 1 then [\<lparr>pl_block_number = 33, pl_index = 0\<rparr>, \<lparr>pl_block_number = 1, pl_index = 1\<rparr>] else [])"
      if "k < HASHMAP_SIZE" for k
    using that by (cases "k = 1") (simp_all add: tight_cache_def)
  have "length (pci tight_cache) = HASHMAP_SIZE" by (simp add: tight_cache_def)
  then show "pci_wf (pci tight_cache)" by (simp add: pci_wf_def k h)
  show "pci_map (pci tight_cache) = [33 \<mapsto> 0, 1 \<mapsto> 1]"
    by (auto simp: fun_eq_iff pci_map_def k h)
qed

lemma tight_use: "in_use tight_cache i \<longleftrightarrow> i = 0 \<or> i = 1"
  by (auto simp: in_use_def tight_cache_def)

lemma tight_inv: "cinv tight_cache [3, 1] []"
proof -
  have "lru_ring tight_cache [3, 1]" "gdl_ring tight_cache []"
    by (simp_all add: lru_ring_def gdl_ring_def ring_list_def ring_def tight_cache_def edge_def nxt_of_def prv_of_def)
  moreover have "slot_ok tight_cache [3, 1] [] 0" "slot_ok tight_cache [3, 1] [] 1"
    by (simp_all add: slot_ok_def tight_index) (simp_all add: tight_cache_def tight_entry_def idx_of_def)
  moreover have "pages tight_cache p \<noteq> None \<Longrightarrow> p < brk tight_cache" for p
    by (auto simp: tight_cache_def split: if_splits)
  moreover have "page_data (entries tight_cache ! 0) = Some 2" "page_data (entries tight_cache ! 1) = Some 0"
      "lru_pos (entries tight_cache ! 0) = Some 3" "lru_pos (entries tight_cache ! 1) = Some 1"
      "ce_block_number (entries tight_cache ! 0) = 33" "ce_block_number (entries tight_cache ! 1) = 1"
      "free_list tight_cache = []" "length (entries tight_cache) = cache_size tight_cache" "cache_size tight_cache = 2"
    by (simp_all add: tight_cache_def tight_entry_def)
  ultimately show ?thesis
    by (auto simp: cinv_def tight_index tight_use split: if_splits)
qed

lemma tight_state:
  "\<not> cache_disabled tight" "cache_s tight = tight_cache" "coherent tight" "addressable tight" "nblocks tight = 300"
  "view tight = view demo" "victim tight_cache [3, 1] = Some 1" "slot_of tight_cache 1 = 1"
proof -
  show t: "\<not> cache_disabled tight" "cache_s tight = tight_cache" "addressable tight" "nblocks tight = 300"
    by (simp_all add: tight_def mounted_def addressable_def nblocks_def demo_disk_def)
  have pg: "pages tight_cache 0 = Some (disk_base demo_disk 1)" "pages tight_cache 2 = Some (disk_base demo_disk 33)"
      "page_of tight_cache 0 = 2" "page_of tight_cache 1 = 0"
    by (simp_all add: tight_cache_def page_of_def tight_entry_def)
  have d: "disk_image tight = disk_base demo_disk" by (simp add: disk_image_def tight_def mounted_def)
  show v: "view tight = view demo"
    unfolding fun_eq_iff demo_view using pg by (auto simp: view_def t tight_index d)
  show "coherent tight" by (simp add: coherent_def v demo_view d)
  show "slot_of tight_cache 1 = 1" by (simp add: slot_of_def tight_cache_def idx_of_def)
  then show "victim tight_cache [3, 1] = Some 1"
    by (simp add: victim_def unpinned_def) (simp add: tight_cache_def tight_entry_def)
qed

text \<open>The same cache with block 1 modified.\<close>

definition tight_dirty_cache :: cache where
  "tight_dirty_cache = tight_cache\<lparr>
     entries := [tight_entry 33 2 3, (tight_entry 1 0 1)\<lparr>dirty_bit := True, gdl_pos := Some 4\<rparr>],
     gdl := Some 4, gdl_size := 1, gdl_heap := [4 \<mapsto> \<lparr>index = 1, nxt = 4, prv = 4\<rparr>], brk := 5\<rparr>"

lemma tight_dirty:
  "cinv tight_dirty_cache [3, 1] [4]" "victim tight_dirty_cache [3, 1] = Some 1" "slot_of tight_dirty_cache 1 = 1"
  "pci tight_dirty_cache = pci tight_cache" "free_list tight_dirty_cache = []" "dirty_bit (entries tight_dirty_cache ! 1)"
proof -
  let ?c = "tight_dirty_cache"
  note I = cinvD [OF tight_inv]
  have sel: "pci ?c = pci tight_cache" "cache_size ?c = 2" "free_list ?c = []" "lru_heap ?c = lru_heap tight_cache"
      "pages ?c = pages tight_cache" "lru ?c = lru tight_cache" "lru_size ?c = lru_size tight_cache" "brk ?c = 5"
    by (simp_all add: tight_dirty_cache_def tight_cache_def)
  have e: "page_data (entries ?c ! 0) = Some 2" "page_data (entries ?c ! 1) = Some 0"
      "lru_pos (entries ?c ! 0) = Some 3" "lru_pos (entries ?c ! 1) = Some 1"
      "ce_block_number (entries ?c ! 0) = 33" "ce_block_number (entries ?c ! 1) = 1" "length (entries ?c) = 2"
      "gdl_pos (entries ?c ! 1) = Some 4" "idx_of (gdl_heap ?c) 4 = Some 1" "\<not> dirty_bit (entries ?c ! 0)"
      "idx_of (lru_heap tight_cache) 3 = Some 0" "idx_of (lru_heap tight_cache) 1 = Some 1"
      "pages tight_cache 0 \<noteq> None" "pages tight_cache 2 \<noteq> None"
    by (simp_all add: tight_dirty_cache_def tight_entry_def tight_cache_def idx_of_def)
  have u: "in_use ?c i \<longleftrightarrow> i = 0 \<or> i = 1" for i by (auto simp: in_use_def sel)
  have "lru_ring ?c [3, 1]" using lru_ring_mono [OF I(3), of ?c] by (simp add: sel tight_cache_def)
  moreover have "gdl_ring ?c [4]"
    by (auto simp: gdl_ring_def ring_list_def ring_def tight_dirty_cache_def edge_def nxt_of_def prv_of_def)
  moreover have "slot_ok ?c [3, 1] [4] 0" "slot_ok ?c [3, 1] [4] 1"
    using e by (simp_all add: slot_ok_def sel tight_index)
  moreover have "pages ?c p \<noteq> None \<Longrightarrow> p < brk ?c" for p
    by (auto simp: tight_dirty_cache_def tight_cache_def split: if_splits)
  ultimately show "cinv ?c [3, 1] [4]"
    using e by (auto simp: cinv_def tight_index u sel split: if_splits)
  show "slot_of ?c 1 = 1" unfolding slot_of_def sel e(12) by simp
  then show "victim ?c [3, 1] = Some 1"
    by (simp add: victim_def unpinned_def) (simp add: tight_dirty_cache_def tight_entry_def)
  show "dirty_bit (entries ?c ! 1)" by (simp add: tight_dirty_cache_def)
qed (simp_all add: tight_dirty_cache_def tight_cache_def)

end
