(* ===== verification/Creation.thy ===== *)
theory Creation
  imports New_Volume Truncation Examples
begin

text \<open>
  What making, extending, truncating and removing files comes to, from the callbacks \<open>nbtrfs_mknod\<close>, \<open>nbtrfs_write\<close>,
  \<open>nbtrfs_truncate\<close> and \<open>nbtrfs_unlink\<close>: on a volume in operation, and on one that \<^verbatim>\<open>mkfs\<close> has just made.
\<close>

text \<open>A volume made and mounted, for the witnesses.\<close>

lemma demo_image:
  obtains image s where "mkfs demo_env (\<lambda>_. Image (\<lambda>_. zero_block) (1000 * 4096)) [''mkfs'', ''-l'', ''vol'', ''my.img''] = Some (0, Some image)"
    and "nbtrfs_start demo_env ((\<lambda>_. Image (\<lambda>_. zero_block) (1000 * 4096))(''my.img'' := image)) ([''fuse''] @ [''my.img'']) (2 ^ 33) = Some s"
    and "new_image s demo_env 1000"
proof -
  have "unat (2 ^ 33 :: u64) < 2 ^ 61" by simp
  then show thesis
    by (intro volume_started [of "\<lambda>_. Image (\<lambda>_. zero_block) (1000 * 4096)" "''my.img''" "1000 * 4096" 1000 "''vol''" "2 ^ 33" demo_env "''mkfs''"
      demo_env "[''fuse'']", OF _ _ _ _ _ _ _ that]) (simp_all add: layout)
qed

lemma g_can_be: "entry_can_be ''g''"
  by (simp add: entry_can_be_def component_def layout)

lemma file_mode: "(S_IFREG OR 0x1A4) AND S_IFMT \<noteq> FILE_TYPE_DIRECTORY" "300 \<le> (1000 :: nat)"
  by (simp_all add: S_IFREG_def S_IFMT_def S_IFDIR_def)

text \<open>
  C1. A new volume holds a file: after \<^verbatim>\<open>mkfs\<close> on an image of zeros and the start of the file system, a write
  to a path in the root directory that does not exist makes the file, in the first free inode, with the
  blocks it needs; reading returns the bytes, the attributes show the size, a regular file and the user, and
  the root directory lists exactly this file. The volume has 100 blocks for each page and 300 more, so that the journal
  has a slot for every step.
\<close>

theorem new_volume_holds_file:
  assumes "files f = Image (\<lambda>_. zero_block) bytes" and "n = bytes div BLOCK_SIZE" and "(m + 3) * 100 \<le> n" and "n \<le> 16384"
    and "length name \<le> 31" and "CHR 0x00 \<notin> set name" and "unat physical_memory < 2 ^ 61"
    and "entry_can_be c" and "buf \<noteq> []" and "length buf \<le> m * USABLE_BLOCK_SIZE" and "m \<le> 12"
  shows "\<exists>image s s1 s2 s3 s4 i e. mkfs env files [p, ''-l'', name, f] = Some (0, Some image) \<and>
    nbtrfs_start env' (files(f := image)) (args @ [f]) physical_memory = Some s \<and>
    nbtrfs_write env' s (join [c]) buf 0 = Some (int (length buf), s1) \<and>
    nbtrfs_read s1 (join [c]) (of_nat (length buf)) 0 = Some (int (length buf), buf, s2) \<and>
    nbtrfs_getattr s1 (join [c]) = Some (Some (stat_of i 1), s3) \<and>
    mode i = S_IFREG OR 0x1A4 \<and> i_size i = of_nat (length buf) \<and> owner_id i = e_uid env' \<and>
    directory_list s1 ''/'' = Some (Some [e], s4) \<and> entry_name e = Some c \<and> de_inode e = 1"
proof -
  have n2: "200 \<le> n" using assms(3) by simp
  obtain image s where s: "mkfs env files [p, ''-l'', name, f] = Some (0, Some image)"
      "nbtrfs_start env' (files(f := image)) (args @ [f]) physical_memory = Some s" "new_image s env n"
    by (rule volume_started [of files f bytes n name physical_memory env p env' args]) (use assms n2 in auto)
  obtain s1 s2 s3 s4 e where "nbtrfs_write env' s (join [c]) buf 0 = Some (int (length buf), s1)"
      "nbtrfs_read s1 (join [c]) (of_nat (length buf)) 0 = Some (int (length buf), buf, s2)"
      "nbtrfs_getattr s1 (join [c]) = Some (Some (stat_of (inode_of s1 1) 1), s3)"
      "mode (inode_of s1 1) = S_IFREG OR 0x1A4" "i_size (inode_of s1 1) = of_nat (length buf)" "owner_id (inode_of s1 1) = e_uid env'"
      "directory_list s1 ''/'' = Some (Some [e], s4)" "entry_name e = Some c" "de_inode e = 1"
    by (rule new_volume_write [OF s(3) assms(8-11,3), of env'])
  with s show ?thesis by blast
qed

theorem new_volume_holds_file_witness:
  "\<exists>image s s1 s2. mkfs demo_env (\<lambda>_. Image (\<lambda>_. zero_block) (1000 * 4096)) [''mkfs'', ''-l'', ''vol'', ''my.img''] = Some (0, Some image) \<and>
    nbtrfs_start demo_env ((\<lambda>_. Image (\<lambda>_. zero_block) (1000 * 4096))(''my.img'' := image)) ([''fuse''] @ [''my.img'']) (2 ^ 33) = Some s \<and>
    nbtrfs_write demo_env s ''/g'' [104, 105] 0 = Some (2, s1) \<and> nbtrfs_read s1 ''/g'' 2 0 = Some (2, [104, 105], s2)"
proof -
  have "unat (2 ^ 33 :: u64) < 2 ^ 61" by simp
  then show ?thesis
    using new_volume_holds_file [of "\<lambda>_. Image (\<lambda>_. zero_block) (1000 * 4096)" "''my.img''" "1000 * 4096" 1000 1 "''vol''" "2 ^ 33" "''g''" "[104, 105]"
      demo_env "''mkfs''" demo_env "[''fuse'']"] g_can_be by (auto simp: layout)
qed

text \<open>
  C8. \<open>nbtrfs_mknod\<close> makes a file in the root directory of a volume in operation: it returns 0, the path
  then leads to the first free inode, whose attributes are the mode asked for and the ids of the user, the
  directory lists the entries it had and one for the file, and a journal block on disk describes the
  change. Inodes, blocks, a place in the first block of the directory, room in its tree and open journal slots are given.
\<close>

theorem nbtrfs_mknod_makes_file:
  assumes "can_make s M r a c md n es" and "v_slots a = extra s r + Suc k" and "length (join [c]) < PATH_MAX" and "0 < n"
    and "direct_blocks (v_inode a r) ! 1 = 0"
  shows "\<exists>s1 s2 s3 i us vs e jb. nbtrfs_mknod env s (join [c]) md = Some (0, s1) \<and>
    nbtrfs_getattr s1 (join [c]) = Some (Some (stat_of i (of_nat n)), s2) \<and> mode i = md \<and> owner_id i = e_uid env \<and> group_id i = e_gid env \<and>
    directory_list s1 ''/'' = Some (Some (us @ e # vs), s3) \<and> es = us @ vs \<and> entry_name e = Some c \<and> de_inode e = of_nat n \<and>
    journal_says_made s1 jb (join [c]) md n"
proof -
  have n: "n < M" and c: "component c" and ty: "md AND S_IFMT \<noteq> FILE_TYPE_DIRECTORY" and rn: "r \<noteq> n" using assms(1) by (auto simp: can_make_def)
  obtain s1 now d f F jb where s1: "nbtrfs_mknod env s (join [c]) md = Some (0, s1)" "models s1 M r (made env c md r n now d f F k a)"
      "lists_new s1 r es c n" "journal_says_made s1 jb (join [c]) md n"
    by (rule nbtrfs_mknod_step [OF assms(1-3), of env])
  let ?a = "made env c md r n now d f F k a" and ?i = "inode_of s1 n"
  have A: "(path_hash c, f) \<in> set (v_names ?a)" "v_leaf ?a f = (of_nat n, md AND S_IFMT)" by (simp_all add: made_def)
  note FA = models_file_at [OF s1(2) A ty n assms(4) c assms(3)]
  obtain s2 where s2: "nbtrfs_getattr s1 (join [c]) = Some (Some (stat_of ?i (of_nat n)), s2)" by (rule nbtrfs_getattr_ok [OF FA(1)])
  have i: "mode ?i = md" "owner_id ?i = e_uid env" "group_id ?i = e_gid env"
    using FA(2) rn by (simp_all add: made_def made_inode_def fresh_inode_def)
  obtain m us vs e where e: "dir_data s1 r m" "listing (view s1 (first_block s1 r)) m = us @ e # vs" "es = us @ vs" "de_inode e = of_nat n"
      "entry_name e = Some c"
    using s1(3) unfolding lists_new_def by blast
  have d1: "direct_blocks (inode_of s1 r) ! 1 = 0"
    using modelsD(6) [OF s1(2) modelsD(9) [OF s1(2)]] assms(5) by (simp add: made_def with_block_def)
  obtain s3 where s3: "directory_list s1 ''/'' = Some (Some (listing (view s1 (first_block s1 r)) m), s3)"
    by (rule directory_list_ok [OF modelsD(1) [OF s1(2)] e(1) d1])
  show ?thesis using s1(1,4) s2 i s3 [unfolded e(2)] e(3-5) by blast
qed

theorem nbtrfs_mknod_makes_file_witness:
  "\<exists>s a s1. can_make s 22 0 a ''g'' (S_IFREG OR 0x1A4) 1 [] \<and> nbtrfs_mknod demo_env s ''/g'' (S_IFREG OR 0x1A4) = Some (0, s1) \<and>
    (\<exists>e s3. directory_list s1 ''/'' = Some (Some [e], s3) \<and> entry_name e = Some ''g'')"
proof -
  obtain s where "new_image s demo_env 1000" by (rule demo_image)
  note V = new_image_can_make [OF this g_can_be file_mode]
  have "direct_blocks (v_inode (new_vol s) 0) ! 1 = 0" using V(5) by (simp add: new_vol_def)
  then show ?thesis
    using nbtrfs_mknod_makes_file [OF V(1), of 7 demo_env] V(1,2,3,7) by (auto simp: append_eq_Cons_conv)
qed

text \<open>
  C15. Types of blocks: making a file keeps the volume well typed. Every block in use stays in use with
  its type tag, so that the bitmaps, the inode table, the journal and the nodes of the trees stay where the
  superblock and the trees expect them, and no data block changes but that of the directory.
\<close>

theorem nbtrfs_mknod_keeps_types:
  assumes "can_make s M r a c md n es" and "v_slots a = extra s r + Suc k" and "length (join [c]) < PATH_MAX"
  shows "\<exists>s'. nbtrfs_mknod env s (join [c]) md = Some (0, s') \<and> sound s' M \<and> shape s' = shape s \<and>
    (\<forall>b. used s b \<longrightarrow> used s' b \<and> btype (view s' b) = btype (view s b) \<and>
       (btype (view s b) = BLOCK_TYPE_DATA \<longrightarrow> b \<noteq> direct_blocks (inode_of s r) ! 0 \<longrightarrow> view s' b = view s b))"
proof -
  have S: "models s M r a" using assms(1) by (simp add: can_make_def)
  obtain s1 where s1: "nbtrfs_mknod env s (join [c]) md = Some (0, s1)" "kept {first_block s r} s s1"
    by (rule nbtrfs_mknod_step [OF assms, of env])
  show ?thesis using s1(1) keptD [OF s1(2)] modelsD(2) [OF S] by blast
qed

theorem nbtrfs_mknod_keeps_types_witness:
  "\<exists>s a s1. can_make s 22 0 a ''g'' (S_IFREG OR 0x1A4) 1 [] \<and> nbtrfs_mknod demo_env s ''/g'' (S_IFREG OR 0x1A4) = Some (0, s1) \<and> sound s1 22"
proof -
  obtain s where "new_image s demo_env 1000" by (rule demo_image)
  note V = new_image_can_make [OF this g_can_be file_mode]
  show ?thesis using nbtrfs_mknod_keeps_types [OF V(1), of 7 demo_env] V(1,2,3,7) by auto
qed

text \<open>
  C9. Files grow: a write that starts inside or right behind the pages of a file of at most twelve allocates the pages
  it needs. What was in front of it is kept, the size is the maximum of the old one and the end of
  the write, reading up to there returns the old bytes and the new ones, the mode does not change, and no
  block in use other than the pages of the file loses its data or its type tag.
\<close>

theorem nbtrfs_write_extends:
  assumes "models s M r a" and "(path_hash c, l) \<in> set (v_names a)" and "v_leaf a l = (of_nat n, ty)" and "ty \<noteq> FILE_TYPE_DIRECTORY"
    and "n < M" and "0 < n" and "component c" and "length (join [c]) < PATH_MAX" and "i = inode_of s n" and "inode_number i = of_nat n"
    and "small_file s i k" and "unat (i_size i) \<le> k * USABLE_BLOCK_SIZE" and "off \<le> k * USABLE_BLOCK_SIZE" and "buf \<noteq> []"
    and "off + length buf \<le> (k + m) * USABLE_BLOCK_SIZE" and "k + m \<le> 12" and "m \<le> card (v_free a)" and "m \<le> v_slots a"
  shows "\<exists>s1 s2 i'. nbtrfs_write env s (join [c]) buf (of_nat off) = Some (int (length buf), s1) \<and>
    nbtrfs_read s1 (join [c]) (of_nat (off + length buf)) 0 = Some (int (off + length buf), file_bytes s i 0 off @ buf, s2) \<and>
    inode_of s1 n = i' \<and> i_size i' = max (i_size i) (of_nat (off + length buf)) \<and> mode i' = mode i \<and>
    kept (set (take k (direct_blocks i))) s s1"
proof -
  have i: "i = v_inode a n" using modelsD(6) [OF assms(1,5)] assms(9) by simp
  obtain s1 i' F y where w: "nbtrfs_write env s (join [c]) buf (of_nat off) = Some (int (length buf), s1)"
      "models s1 M r (a\<lparr>v_inode := (v_inode a)(n := i'), v_free := F, v_slots := y\<rparr>)" "kept (set (take k (direct_blocks i))) s s1"
      "written_to s s1 i i' k off buf"
    by (rule write_step [OF assms(1-8) i assms(10,11,13,15-18), of env])
  let ?b = "a\<lparr>v_inode := (v_inode a)(n := i'), v_free := F, v_slots := y\<rparr>"
  have "(path_hash c, l) \<in> set (v_names ?b)" "v_leaf ?b l = (of_nat n, ty)" using assms(2,3) by simp_all
  note FA = models_file_at [OF w(2) this assms(4-8)]
  obtain k' where W: "k \<le> k'" "small_file s1 i' k'" "off + length buf \<le> k' * USABLE_BLOCK_SIZE"
      "i' = i\<lparr>direct_blocks := direct_blocks i', i_size := max (i_size i) (of_nat (off + length buf))\<rparr>"
      "file_bytes s1 i' 0 (off + length buf) = file_bytes s i 0 off @ buf"
    using w(4) by (auto simp: written_to_def)
  have I: "mode i' = mode i" "i_size i' = max (i_size i) (of_nat (off + length buf))" by (subst W(4), simp)+
  have "k' * USABLE_BLOCK_SIZE \<le> 12 * USABLE_BLOCK_SIZE" using small_fileD(1) [OF W(2)] by (rule mult_le_mono1)
  then have small: "off + length buf < 2 ^ 31" using W(3) by (simp add: layout)
  then have u: "unat (of_nat (off + length buf) :: u64) = off + length buf" by (intro unat_of_nat_small) simp
  have sz: "off + length buf \<le> unat (i_size i')" unfolding I(2) by (metis u max.cobounded2 word_le_nat_alt)
  have "k * USABLE_BLOCK_SIZE \<le> k' * USABLE_BLOCK_SIZE" using W(1) by (rule mult_le_mono1)
  with assms(12) have "unat (i_size i) \<le> k' * USABLE_BLOCK_SIZE" by (rule le_trans)
  then have lim: "unat (i_size i') \<le> k' * USABLE_BLOCK_SIZE" using W(3) u unfolding I(2) by (simp add: max_def)
  have pos: "0 < unat (i_size i')" by (rule less_le_trans [OF _ sz]) (use assms(14) in simp)
  have ii: "i' = inode_of s1 n" using FA(2) by simp
  obtain s2 where s2: "nbtrfs_read s1 (join [c]) (of_nat (off + length buf)) (of_nat 0) =
      Some (int (min (off + length buf) (unat (i_size i') - 0)), file_bytes s1 i' 0 (min (off + length buf) (unat (i_size i') - 0)), s2)"
    by (rule nbtrfs_read_ok [OF FA(1) ii small_fileD(3) [OF W(2)] lim, of 0 "off + length buf"]) (use pos small in simp_all)
  then have "nbtrfs_read s1 (join [c]) (of_nat (off + length buf)) 0 = Some (int (off + length buf), file_bytes s i 0 off @ buf, s2)"
    using sz W(5) by (simp add: min_absorb1)
  then show ?thesis using w(1,3) I ii by blast
qed

text \<open>A file made empty on the demonstration volume.\<close>

lemma demo_empty:
  obtains s a f i where "models s 22 0 a" and "(path_hash ''g'', f) \<in> set (v_names a)" and "v_leaf a f = (of_nat 1, (S_IFREG OR 0x1A4) AND S_IFMT)"
    and "component ''g''" and "length (join [''g'']) < PATH_MAX" and "i = inode_of s 1" and "i = v_inode a 1" and "inode_number i = of_nat 1"
    and "small_file s i 0" and "i_size i = 0" and "1 \<le> card (v_free a)" and "v_slots a = 7"
proof -
  obtain s0 where N: "new_image s0 demo_env 1000" by (rule demo_image)
  note V = new_image_can_make [OF N g_can_be file_mode]
  have sl: "v_slots (new_vol s0) = extra s0 0 + Suc 7" using V(2,3) by simp
  obtain s now d f F jb where s: "models s 22 0 (made demo_env ''g'' (S_IFREG OR 0x1A4) 0 1 now d f F 7 (new_vol s0))"
      "card F + extra s0 0 + 1 = card (v_free (new_vol s0))"
    by (rule nbtrfs_mknod_step [OF V(1) sl V(7), of demo_env]) simp_all
  let ?a = "made demo_env ''g'' (S_IFREG OR 0x1A4) 0 1 now d f F 7 (new_vol s0)" and ?i = "inode_of s 1"
  have i: "?i = v_inode ?a 1" using modelsD(6) [OF s(1), of 1] by simp
  have I: "inode_number ?i = of_nat 1" "direct_blocks ?i = replicate 12 0" "i_size ?i = 0"
    unfolding i using V(6) by (simp_all add: made_def made_inode_def fresh_inode_def)
  have sf: "small_file s ?i 0" using I(2) modelsD(3) [OF s(1)] by (simp add: small_file_def file_ok_def)
  have "1 \<le> card F" using s(2) V(2,4) geometry_room [of 1 1000] by simp
  then show thesis using g_can_be V(7) by (intro that [of s ?a f ?i, OF s(1) _ _ _ _ refl i I(1) sf I(3)]) (simp_all add: made_def entry_can_be_def)
qed

text \<open>It is written to.\<close>

theorem nbtrfs_write_extends_witness:
  "\<exists>s s1 s2. nbtrfs_write demo_env s ''/g'' [104, 105] 0 = Some (2, s1) \<and> nbtrfs_read s1 ''/g'' 2 0 = Some (2, [104, 105], s2)"
proof -
  obtain s a f i where G: "models s 22 0 a" "(path_hash ''g'', f) \<in> set (v_names a)" "v_leaf a f = (of_nat 1, (S_IFREG OR 0x1A4) AND S_IFMT)"
      "component ''g''" "length (join [''g'']) < PATH_MAX" "i = inode_of s 1" "i = v_inode a 1" "inode_number i = of_nat 1"
      "small_file s i 0" "i_size i = 0" "1 \<le> card (v_free a)" "v_slots a = 7"
    by (rule demo_empty)
  show ?thesis
    using nbtrfs_write_extends [OF G(1-3) file_mode(1) _ _ G(4-6,8,9), of 0 "[104, 105]" 1 demo_env] G(10-12)
    by (auto simp: file_bytes_def layout)
qed

section \<open>Truncating files\<close>

text \<open>
  C10. \<open>nbtrfs_truncate\<close> to a smaller size, of a file of at most twelve pages: it returns 0, the attributes show the new
  size and are otherwise as before, and reading returns the first bytes of the old contents. The pages behind the new end,
  and no other blocks, become free; the other inodes, the entries of the root directory and all other data blocks are as
  before. The last page keeps its old bytes behind the new end, so that they come back when the file grows again.
\<close>

theorem nbtrfs_truncate_shrinks:
  assumes "models s M r a" and "(path_hash c, l) \<in> set (v_names a)" and "v_leaf a l = (of_nat n, ty)" and "ty \<noteq> FILE_TYPE_DIRECTORY"
    and "n < M" and "0 < n" and "component c" and "length (join [c]) < PATH_MAX" and "i = inode_of s n" and "inode_number i = of_nat n"
    and "small_file s i k" and "k = pages_for (unat (i_size i))" and "0 < sz" and "sz < unat (i_size i)" and "0 < v_slots a"
    and "C = (\<lambda>m. direct_blocks i ! m) ` {pages_for sz..<k}"
  shows "\<exists>s1 s2 s3 i'. nbtrfs_truncate env s (join [c]) (of_nat sz) = Some (0, s1) \<and>
    nbtrfs_getattr s1 (join [c]) = Some (Some (stat_of i' (of_nat n)), s2) \<and> i_size i' = of_nat sz \<and>
    i' = i\<lparr>direct_blocks := direct_blocks i', i_size := of_nat sz\<rparr> \<and>
    nbtrfs_read s1 (join [c]) (i_size i) 0 = Some (int sz, file_bytes s i 0 sz, s3) \<and>
    file_bytes s1 i' 0 (pages_for sz * USABLE_BLOCK_SIZE) = file_bytes s i 0 (pages_for sz * USABLE_BLOCK_SIZE) \<and>
    sound s1 M \<and> free_set s1 = free_set s \<union> unat ` C \<and> inode_of s1 n = i' \<and>
    (\<forall>m < M. inode_used s1 m = inode_used s m \<and> (m \<noteq> n \<longrightarrow> inode_of s1 m = inode_of s m)) \<and>
    (\<forall>b. used s b \<longrightarrow> btype (view s b) = BLOCK_TYPE_DATA \<longrightarrow> b \<notin> C \<longrightarrow> used s1 b \<and> view s1 b = view s b)"
proof -
  note S = assms(1)
  have i: "i = v_inode a n" using modelsD(6) [OF S assms(5)] assms(9) by simp
  obtain y where y: "v_slots a = Suc y" using assms(15) by (cases "v_slots a") auto
  let ?i = "(cut (pages_for sz) k i)\<lparr>i_size := of_nat sz\<rparr>"
  let ?a = "a\<lparr>v_inode := (v_inode a)(n := ?i), v_free := v_free a \<union> unat ` C, v_slots := y\<rparr>"
  obtain s1 where s1: "nbtrfs_truncate env s (join [c]) (of_nat sz) = Some (0, s1)" "models s1 M r ?a" "frees C {} s s1"
      "small_file s1 ?i (pages_for sz)"
      "\<And>off. off \<le> pages_for sz * USABLE_BLOCK_SIZE \<Longrightarrow> file_bytes s1 ?i 0 off = file_bytes s i 0 off"
    by (rule nbtrfs_truncate_step [OF assms(1-8) i assms(10-12,14) y, of env]) (rule that, simp_all only: assms(16))
  have "(path_hash c, l) \<in> set (v_names ?a)" "v_leaf ?a l = (of_nat n, ty)" using assms(2,3) by simp_all
  note FA = models_file_at [OF s1(2) this assms(4-8)]
  have ii: "inode_of s1 n = ?i" using FA(2) by simp
  obtain s2 where s2: "nbtrfs_getattr s1 (join [c]) = Some (Some (stat_of ?i (of_nat n)), s2)"
    using nbtrfs_getattr_ok [OF FA(1)] unfolding ii by blast
  have lt: "unat (i_size i) < 2 ^ 64" using unsigned_less [of "i_size i"] by simp
  have u: "unat (i_size ?i) = sz" using assms(14) lt by (simp add: unat_of_nat_small)
  have le: "sz \<le> pages_for sz * USABLE_BLOCK_SIZE" by (rule pages_for_covers)
  obtain s3 where s3: "nbtrfs_read s1 (join [c]) (of_nat (unat (i_size i))) (of_nat 0) =
      Some (int (min (unat (i_size i)) (unat (i_size ?i) - 0)), file_bytes s1 ?i 0 (min (unat (i_size i)) (unat (i_size ?i) - 0)), s3)"
    by (rule nbtrfs_read_ok [OF FA(1) ii [symmetric] small_fileD(3) [OF s1(4)], of 0 "unat (i_size i)"]) (use u le assms(13) lt in simp_all)
  then have rd: "nbtrfs_read s1 (join [c]) (i_size i) 0 = Some (int sz, file_bytes s i 0 sz, s3)"
    using assms(14) s1(5) [OF le] unfolding u by (simp add: min_absorb2)
  have V: "used s1 b \<and> view s1 b = view s b" if "used s b" "btype (view s b) = BLOCK_TYPE_DATA" "b \<notin> C" for b
    using freesD(2,4) [OF s1(3)] that by blast
  have I: "inode_used s1 m = inode_used s m" "m \<noteq> n \<Longrightarrow> inode_of s1 m = inode_of s m" if "m < M" for m
    using modelsD(6,7) [OF s1(2) that] modelsD(6,7) [OF S that] by simp_all
  have "free_set s1 = free_set s \<union> unat ` C" using modelsD(5) [OF s1(2)] modelsD(5) [OF S] by simp
  moreover have "?i = i\<lparr>direct_blocks := direct_blocks ?i, i_size := of_nat sz\<rparr>" "i_size ?i = of_nat sz" by (simp_all add: cut_def)
  ultimately show ?thesis using s1(1) s2 rd s1(5) [OF order.refl] modelsD(2) [OF s1(2)] ii I V by (intro exI conjI) blast+
qed

text \<open>Two bytes written to a new file, and one of them cut off.\<close>

theorem nbtrfs_truncate_shrinks_witness:
  "\<exists>s i s1 s2. unat (i_size i) = 2 \<and> file_bytes s i 0 2 = [104, 105] \<and> nbtrfs_truncate demo_env s ''/g'' 1 = Some (0, s1) \<and>
    nbtrfs_read s1 ''/g'' 2 0 = Some (1, [104], s2)"
proof -
  obtain s0 a f i0 where G: "models s0 22 0 a" "(path_hash ''g'', f) \<in> set (v_names a)" "v_leaf a f = (of_nat 1, (S_IFREG OR 0x1A4) AND S_IFMT)"
      "component ''g''" "length (join [''g'']) < PATH_MAX" "i0 = inode_of s0 1" "i0 = v_inode a 1" "inode_number i0 = of_nat 1"
      "small_file s0 i0 0" "i_size i0 = 0" "1 \<le> card (v_free a)" "v_slots a = 7"
    by (rule demo_empty)
  obtain s i F y where W: "models s 22 0 (a\<lparr>v_inode := (v_inode a)(1 := i), v_free := F, v_slots := y\<rparr>)"
      "written_to s0 s i0 i 0 0 [104, 105]" "7 \<le> y + 1"
    by (rule write_step [OF G(1-3) file_mode(1) _ _ G(4,5,7,8,9), of 0 "[104, 105]" 1 demo_env]) (use G(11,12) in \<open>simp_all add: layout\<close>)
  let ?a = "a\<lparr>v_inode := (v_inode a)(1 := i), v_free := F, v_slots := y\<rparr>"
  have A: "(path_hash ''g'', f) \<in> set (v_names ?a)" "v_leaf ?a f = (of_nat 1, (S_IFREG OR 0x1A4) AND S_IFMT)" using G(2,3) by simp_all
  have ii: "i = inode_of s 1" "i = v_inode ?a 1" using modelsD(6) [OF W(1), of 1] by simp_all
  obtain k where k: "small_file s i k" "0 + length [104, 105 :: u8] \<le> k * USABLE_BLOCK_SIZE"
      "k = 0 \<or> (k - 1) * USABLE_BLOCK_SIZE < 0 + length [104, 105 :: u8]"
    using W(2) unfolding written_to_def by blast
  have sh: "i = i0\<lparr>direct_blocks := direct_blocks i, i_size := max (i_size i0) (of_nat (0 + length [104, 105 :: u8]))\<rparr>"
    and "file_bytes s i 0 (0 + length [104, 105 :: u8]) = file_bytes s0 i0 0 0 @ [104, 105]"
    using W(2) unfolding written_to_def by blast+
  then have fb: "file_bytes s i 0 2 = [104, 105]" by (simp add: file_bytes_def numeral_2_eq_2)
  have k1: "k = 1" using k(2,3) by (cases k) (auto simp: layout)
  have num: "inode_number i = of_nat 1" by (subst sh) (simp add: G(8))
  have i2: "i_size i = 2" by (subst sh) (simp add: G(10))
  have p: "k = pages_for (unat (i_size i))" using k1 i2 by (simp add: pages_for_def layout)
  have y: "0 < v_slots ?a" using W(3) by simp
  obtain s1 s2 where "nbtrfs_truncate demo_env s (join [''g'']) (of_nat 1) = Some (0, s1)"
      "nbtrfs_read s1 (join [''g'']) (i_size i) 0 = Some (int 1, file_bytes s i 0 1, s2)"
    using nbtrfs_truncate_shrinks [OF W(1) A file_mode(1) _ _ G(4,5) ii(1) num k(1) p _ _ y refl, of 1 demo_env] i2 by auto
  moreover have "file_bytes s i 0 1 = take 1 (file_bytes s i 0 2)" by (simp add: file_bytes_def take_map)
  ultimately show ?thesis using fb i2 by (intro exI [of _ s] exI [of _ i] exI [of _ s1] exI [of _ s2]) simp
qed

section \<open>Removing files\<close>

lemma models_getattr_missing:
  assumes S: "models s M r a" and c: "component c" "length (join [c]) < PATH_MAX" and new: "path_hash c \<notin> fst ` set (v_names a)"
  obtains s' where "nbtrfs_getattr s (join [c]) = Some (None, s')"
proof -
  have d: "dir_entry s (block_number (root_node s)) c None" using models_missing [OF S new] models_rooted(2) [OF S] by simp
  obtain s' where "item_search s (join ([] @ c # [])) = Some (no_pair, s')"
    by (rule item_search_missing [OF models_rooted(1) [OF S] _ d, of "[]" "[]"]) (use c in simp_all)
  then show thesis by (intro that [of s']) (simp add: nbtrfs_getattr_def no_pair_def)
qed

lemma models_leaf: "models s M r a \<Longrightarrow> (h, l) \<in> set (v_names a) \<Longrightarrow> leaf_says s l = v_leaf a l"
  by (force simp: models_def)

lemma models_listing:
  assumes S: "models s M r a" and "dir_data s r m" and "direct_blocks (v_inode a r) ! 1 = 0"
  obtains s' where "directory_list s ''/'' = Some (Some (listing (view s (first_block s r)) m), s')"
  by (rule directory_list_ok [OF modelsD(1) [OF S] assms(2)]) (use modelsD(6) [OF S modelsD(9) [OF S]] assms(3) that in simp_all)

text \<open>
  C11. \<open>nbtrfs_unlink\<close> removes a file whose only link is an entry of the root directory: it returns 0, the path no
  longer leads anywhere, the directory lists the other entries in their order, the inode is cleared and
  free, and every other inode, name and data block is as before. Exactly one block is freed, the leaf of the
  name: the pages of the file stay in use.
\<close>

theorem nbtrfs_unlink_removes_file:
  assumes "can_remove s M r a c n l ps qs us e vs" and "v_slots a = Suc k" and "length (join [c]) < PATH_MAX"
  shows "\<exists>s1 s2 s3. nbtrfs_unlink env s (join [c]) = Some (0, s1) \<and> nbtrfs_getattr s1 (join [c]) = Some (None, s2) \<and>
    directory_list s1 ''/'' = Some (Some (us @ vs), s3) \<and> sound s1 M \<and> \<not> inode_used s1 n \<and> inode_of s1 n = zero_inode \<and>
    (\<forall>m < M. m \<noteq> n \<longrightarrow> inode_of s1 m = inode_of s m \<and> inode_used s1 m = inode_used s m) \<and>
    (\<forall>c' l'. (path_hash c', l') \<in> set (ps @ qs) \<longrightarrow> dir_entry s1 (btree_root (sb_of s1)) c' (Some l') \<and> leaf_says s1 l' = leaf_says s l') \<and>
    free_set s1 = insert (unat l) (free_set s) \<and>
    (\<forall>b. used s b \<longrightarrow> btype (view s b) = BLOCK_TYPE_DATA \<longrightarrow> b \<noteq> first_block s r \<longrightarrow> used s1 b \<and> view s1 b = view s b)"
proof -
  let ?a = "removed n l (ps @ qs) (a\<lparr>v_slots := k\<rparr>)"
  have S: "models s M r a" and n: "n < M" "n \<noteq> r" and c: "component c" and names: "v_names a = ps @ (path_hash c, l) # qs"
      and one: "direct_blocks (v_inode a r) ! 1 = 0"
    using assms(1) unfolding can_remove_def named_file_def by blast+
  obtain s1 m where s1: "nbtrfs_unlink env s (join [c]) = Some (0, s1)" "models s1 M r ?a" "frees {l} {first_block s r} s s1" "dir_data s1 r m"
      "listing (view s1 (first_block s1 r)) m = us @ vs"
    by (rule nbtrfs_unlink_step [OF assms, of env])
  have sel: "v_names ?a = ps @ qs" "v_leaf ?a = v_leaf a" "v_inode ?a = (v_inode a)(n := zero_inode)" "v_taken ?a = (v_taken a)(n := False)"
      "v_free ?a = insert (unat l) (v_free a)"
    by (simp_all add: removed_def)
  have so: "sorted_wrt (<) (map fst (v_names a))" using modelsD(8) [OF S] by (simp add: flat_at_def)
  have new: "path_hash c \<notin> fst ` set (v_names ?a)" using so unfolding names sel by (auto simp: sorted_wrt_append)
  obtain s2 where s2: "nbtrfs_getattr s1 (join [c]) = Some (None, s2)" by (rule models_getattr_missing [OF s1(2) c assms(3) new])
  have "direct_blocks (v_inode ?a r) ! 1 = 0" using one n(2) by (simp add: sel)
  then obtain s3 where s3: "directory_list s1 ''/'' = Some (Some (us @ vs), s3)" using models_listing [OF s1(2,4)] unfolding s1(5) by blast
  have I: "inode_of s1 j = (if j = n then zero_inode else inode_of s j)" "inode_used s1 j = (j \<noteq> n \<and> inode_used s j)" if "j < M" for j
    using modelsD(6,7) [OF s1(2) that] modelsD(6,7) [OF S that] by (simp_all add: sel)
  have N: "dir_entry s1 (btree_root (sb_of s1)) c' (Some l') \<and> leaf_says s1 l' = leaf_says s l'" if q: "(path_hash c', l') \<in> set (ps @ qs)" for c' l'
  proof
    show "dir_entry s1 (btree_root (sb_of s1)) c' (Some l')" by (rule models_entry [OF s1(2)]) (use q sel in simp)
    have "(path_hash c', l') \<in> set (v_names a)" using q names by auto
    then show "leaf_says s1 l' = leaf_says s l'"
      using models_leaf [OF S] models_leaf [OF s1(2)] q sel(1,2) by simp
  qed
  have nl: "is_node s l" using flat_at_blocks(1) [OF modelsD(8) [OF S], of l] names by simp
  have V: "used s1 b \<and> view s1 b = view s b" if "used s b" "btype (view s b) = BLOCK_TYPE_DATA" "b \<noteq> first_block s r" for b
  proof -
    have "b \<noteq> l" using that(2) nl by (auto simp: is_node_def block_types)
    then show ?thesis using freesD(2,4) [OF s1(3) that(1)] that by simp
  qed
  have "free_set s1 = insert (unat l) (free_set s)" using modelsD(5) [OF s1(2)] modelsD(5) [OF S] by (simp add: sel)
  moreover have "\<not> inode_used s1 n" "inode_of s1 n = zero_inode" using I [OF n(1)] by simp_all
  moreover have "\<forall>m < M. m \<noteq> n \<longrightarrow> inode_of s1 m = inode_of s m \<and> inode_used s1 m = inode_used s m" using I by simp
  ultimately show ?thesis using s1(1) s2 s3 modelsD(2) [OF s1(2)] N V by (intro exI conjI) blast+
qed

text \<open>A file just made can be removed.\<close>

lemma made_can_remove:
  assumes G: "can_make s M r a c md n es" and S1: "models s1 M r (made env c md r n now d f F k a)" and L: "lists_new s1 r es c n"
    and len: "length (v_names a) + 1 < MAX_KEYS" and one: "direct_blocks (v_inode a r) ! 1 = 0"
    and others: "\<forall>e \<in> set es. entry_name e \<noteq> None \<and> entry_name e \<noteq> Some c"
  obtains ps qs us e vs where "can_remove s1 M r (made env c md r n now d f F k a) c n f ps qs us e vs" and "v_names a = ps @ qs" and "es = us @ vs"
proof -
  let ?a = "made env c md r n now d f F k a"
  let ?ps = "takeWhile (\<lambda>q. fst q < path_hash c) (v_names a)" and ?qs = "dropWhile (\<lambda>q. fst q < path_hash c) (v_names a)"
  have n: "n < M" "n \<noteq> r" and c: "component c" "CHR 0x00 \<notin> set c" using G by (auto simp: can_make_def)
  obtain m us vs e where e: "dir_data s1 r m" "listing (view s1 (first_block s1 r)) m = us @ e # vs" "es = us @ vs"
      "in_slot (view s1 (first_block s1 r)) us e" "de_inode e = of_nat n" "entry_name e = Some c"
    using L unfolding lists_new_def by blast
  have names: "v_names ?a = ?ps @ (path_hash c, f) # ?qs" by (simp add: made_def with_leaf_def)
  have "length (v_names ?a) = length (v_names a) + 1" by (simp add: made_def with_leaf_length)
  then have len': "length (v_names ?a) < MAX_KEYS" using len by (simp only:)
  have "reference_count (v_inode ?a n) = 1" "direct_blocks (v_inode ?a r) ! 1 = 0"
    using n(2) one by (simp_all add: made_def made_inode_def fresh_inode_def with_block_def)
  moreover have "named_first us e c" using others e(3,6) by (simp add: named_first_def)
  moreover have "lists_file s1 r us e vs" using e(1,2,4) unfolding lists_file_def by blast
  ultimately have "can_remove s1 M r ?a c n f ?ps ?qs us e vs" using S1 names len' n c e(5) unfolding can_remove_def named_file_def by blast
  then show thesis using e(3) by (rule that [OF _ takeWhile_dropWhile_id [symmetric]])
qed

text \<open>A file made on the demonstration volume.\<close>

lemma demo_made:
  obtains s1 a f ps qs us e vs where "can_remove s1 22 0 a ''g'' 1 f ps qs us e vs" and "v_slots a = Suc 6"
proof -
  obtain s0 where N: "new_image s0 demo_env 1000" by (rule demo_image)
  note V = new_image_can_make [OF N g_can_be file_mode]
  have sl: "v_slots (new_vol s0) = extra s0 0 + Suc 7" using V(2,3) by simp
  obtain s now d f F jb where s: "models s 22 0 (made demo_env ''g'' (S_IFREG OR 0x1A4) 0 1 now d f F 7 (new_vol s0))" "lists_new s 0 [] ''g'' 1"
    by (rule nbtrfs_mknod_step [OF V(1) sl V(7), of demo_env]) (rule that)
  have len: "length (v_names (new_vol s0)) + 1 < MAX_KEYS" by (simp add: new_vol_def layout)
  have one: "direct_blocks (v_inode (new_vol s0) 0) ! 1 = 0" using V(5) by (simp add: new_vol_def)
  obtain ps qs us e vs where "can_remove s 22 0 (made demo_env ''g'' (S_IFREG OR 0x1A4) 0 1 now d f F 7 (new_vol s0)) ''g'' 1 f ps qs us e vs"
    by (rule made_can_remove [OF V(1) s len one]) (simp, rule that)
  then show thesis by (rule that) (simp add: made_def)
qed

theorem nbtrfs_unlink_removes_file_witness:
  "\<exists>s1 a f ps qs us e vs s2 s3. can_remove s1 22 0 a ''g'' 1 f ps qs us e vs \<and> nbtrfs_unlink demo_env s1 ''/g'' = Some (0, s2) \<and>
    nbtrfs_getattr s2 ''/g'' = Some (None, s3) \<and> \<not> inode_used s2 1"
proof -
  obtain s1 a f ps qs us e vs where G: "can_remove s1 22 0 a ''g'' 1 f ps qs us e vs" "v_slots a = Suc 6" by (rule demo_made)
  have "length (join [''g'']) < PATH_MAX" by (simp add: PATH_MAX_def)
  then obtain s2 s3 where "nbtrfs_unlink demo_env s1 ''/g'' = Some (0, s2)" "nbtrfs_getattr s2 ''/g'' = Some (None, s3)" "\<not> inode_used s2 1"
    using nbtrfs_unlink_removes_file [OF G, of demo_env] by auto
  with G(1) show ?thesis by blast
qed

text \<open>
  C14. Making a file and removing it again: \<open>nbtrfs_mknod\<close> followed by \<open>nbtrfs_unlink\<close> of the same path leaves the root
  directory with the entries it had, the path leads nowhere, the inode is free, and the inodes of all other files are
  unchanged. The number of free blocks is what it was, but for the block of a directory that had none.
\<close>

theorem mknod_unlink_roundtrip:
  assumes "can_make s M r a c md n es" and "v_slots a = extra s r + Suc (Suc k)" and "length (join [c]) < PATH_MAX"
    and "length (v_names a) + 1 < MAX_KEYS" and "direct_blocks (v_inode a r) ! 1 = 0"
    and "\<forall>e \<in> set es. entry_name e \<noteq> None \<and> entry_name e \<noteq> Some c"
  shows "\<exists>s1 s2 s3 s4. nbtrfs_mknod env s (join [c]) md = Some (0, s1) \<and> nbtrfs_unlink env' s1 (join [c]) = Some (0, s2) \<and>
    nbtrfs_getattr s2 (join [c]) = Some (None, s3) \<and> directory_list s2 ''/'' = Some (Some es, s4) \<and> sound s2 M \<and>
    (\<forall>m < M. inode_used s2 m = inode_used s m \<and> (m \<noteq> n \<longrightarrow> m \<noteq> r \<longrightarrow> inode_of s2 m = inode_of s m)) \<and>
    card (free_set s2) + extra s r = card (free_set s)"
proof -
  have S: "models s M r a" and tr: "v_taken a r" "\<not> v_taken a n" and n: "n < M" and c: "component c" and new: "path_hash c \<notin> fst ` set (v_names a)"
    using assms(1) by (simp_all add: can_make_def)
  have sl: "v_slots a = extra s r + Suc (Suc k)" by (rule assms(2))
  obtain s1 now d f F jb where s1: "nbtrfs_mknod env s (join [c]) md = Some (0, s1)"
      "models s1 M r (made env c md r n now d f F (Suc k) a)" "F \<subseteq> v_free a" "card F + extra s r + 1 = card (v_free a)" "lists_new s1 r es c n"
    by (rule nbtrfs_mknod_step [OF assms(1) sl assms(3), of env]) (rule that)
  let ?a1 = "made env c md r n now d f F (Suc k) a"
  obtain ps qs us e vs where G: "can_remove s1 M r ?a1 c n f ps qs us e vs" "v_names a = ps @ qs" "es = us @ vs"
    by (rule made_can_remove [OF assms(1) s1(2,5) assms(4-6)])
  have sl1: "v_slots ?a1 = Suc k" by (simp add: made_def)
  let ?a2 = "removed n f (ps @ qs) (?a1\<lparr>v_slots := k\<rparr>)"
  obtain s2 m where s2: "nbtrfs_unlink env' s1 (join [c]) = Some (0, s2)" "models s2 M r ?a2" "dir_data s2 r m"
      "listing (view s2 (first_block s2 r)) m = us @ vs"
    by (rule nbtrfs_unlink_step [OF G(1) sl1 assms(3), of env']) (rule that)
  have sel: "v_names ?a2 = v_names a" "v_inode ?a2 = (v_inode a)(n := zero_inode, r := with_block 0 d (v_inode a r))"
      "v_taken ?a2 = v_taken a" "v_free ?a2 = insert (unat f) F"
    using tr by (auto simp: removed_def made_def G(2) fun_eq_iff)
  obtain s3 where s3: "nbtrfs_getattr s2 (join [c]) = Some (None, s3)"
    by (rule models_getattr_missing [OF s2(2) c assms(3)]) (use new sel(1) in simp_all)
  have "direct_blocks (v_inode ?a2 r) ! 1 = 0" using assms(5) by (simp add: sel with_block_def)
  then obtain s4 where s4: "directory_list s2 ''/'' = Some (Some es, s4)" using models_listing [OF s2(2,3)] unfolding s2(4) G(3) by blast
  have I: "inode_used s2 j = inode_used s j" "j \<noteq> n \<Longrightarrow> j \<noteq> r \<Longrightarrow> inode_of s2 j = inode_of s j" if "j < M" for j
    using modelsD(6,7) [OF s2(2) that] modelsD(6,7) [OF S that] by (simp_all add: sel)
  have "f \<in> snd ` set (v_names ?a1)" using G(1) by (auto simp: can_remove_def named_file_def)
  then have "block_used s1 (unat f)" using flat_at_blocks(2) [OF modelsD(8) [OF s1(2)], of f] by blast
  moreover have "F = free_set s1" using modelsD(5) [OF s1(2)] by (simp add: made_def)
  ultimately have "unat f \<notin> F" "finite F" by (simp_all add: free_set_def)
  then have "card (free_set s2) + extra s r = card (free_set s)" using modelsD(5) [OF s2(2)] modelsD(5) [OF S] s1(4) by (simp add: sel)
  then show ?thesis using s1(1) s2(1) s3 s4 modelsD(2) [OF s2(2)] I by blast
qed

theorem mknod_unlink_roundtrip_witness:
  "\<exists>s s1 s2 s3 s4. nbtrfs_mknod demo_env s ''/g'' (S_IFREG OR 0x1A4) = Some (0, s1) \<and> nbtrfs_unlink demo_env s1 ''/g'' = Some (0, s2) \<and>
    nbtrfs_getattr s2 ''/g'' = Some (None, s3) \<and> directory_list s2 ''/'' = Some (Some [], s4)"
proof -
  obtain s0 where N: "new_image s0 demo_env 1000" by (rule demo_image)
  note V = new_image_can_make [OF N g_can_be file_mode]
  have sl: "v_slots (new_vol s0) = extra s0 0 + Suc (Suc 6)" using V(2,3) by simp
  have len: "length (v_names (new_vol s0)) + 1 < MAX_KEYS" by (simp add: new_vol_def layout)
  have one: "direct_blocks (v_inode (new_vol s0) 0) ! 1 = 0" using V(5) by (simp add: new_vol_def)
  show ?thesis using mknod_unlink_roundtrip [OF V(1) sl V(7) len one, of demo_env demo_env] by auto
qed

end
