(* ===== verification/Links.thy ===== *)
theory Links
  imports Removal
begin

text \<open>
  Files with more than one name in the root directory: \<open>nbtrfs_link\<close> enters a new name and counts it in the inode, and
  \<open>nbtrfs_rename\<close> is a link followed by an unlink of the old name, as steps on the abstract volume of theory \<open>Create\<close>.
\<close>

section \<open>Adding a link\<close>

text \<open>The volume with the name \<open>c\<close> for inode \<open>n\<close>, in the leaf \<open>f\<close>; \<open>F\<close> are the blocks left.\<close>

definition linked :: "string \<Rightarrow> nat \<Rightarrow> u64 \<Rightarrow> nat set \<Rightarrow> vol \<Rightarrow> vol" where
  "linked c n f F a = a\<lparr>
     v_inode := (v_inode a)(n := (v_inode a n)\<lparr>reference_count := reference_count (v_inode a n) + 1\<rparr>), v_free := F,
     v_names := with_leaf (v_names a) (path_hash c) f, v_leaf := (v_leaf a)(f := (of_nat n, mode (v_inode a n) AND S_IFMT))\<rparr>"

text \<open>What has to be given: a file with a name, a place for another entry, a free block for the leaf, and a name that is not there.\<close>

definition can_link ::
  "fs \<Rightarrow> nat \<Rightarrow> nat \<Rightarrow> vol \<Rightarrow> string \<Rightarrow> nat \<Rightarrow> u64 \<Rightarrow> DirEntry list \<Rightarrow> DirEntry \<Rightarrow> DirEntry list \<Rightarrow> string \<Rightarrow> bool"
where
  "can_link s M r a c n l us e vs c2 \<longleftrightarrow>
     (\<exists>ps qs ty. named_file s M r a c n l ps qs us e vs \<and> v_leaf a l = (of_nat n, ty) \<and> ty \<noteq> FILE_TYPE_DIRECTORY) \<and>
     0 < n \<and> inode_number (v_inode a n) = of_nat n \<and> mode (v_inode a n) AND S_IFMT \<noteq> FILE_TYPE_DIRECTORY \<and>
     path_hash c2 \<notin> fst ` set (v_names a) \<and> component c2 \<and> length c2 < NAME_MAX \<and> CHR 0x00 \<notin> set c2 \<and>
     length (us @ e # vs) < SCAN \<and> (\<forall>x \<in> set (us @ e # vs). entry_name x \<noteq> Some c2) \<and>
     (\<exists>m. dir_data s r m \<and> listing (view s (first_block s r)) m = us @ e # vs \<and> clean_at (view s (first_block s r)) m) \<and>
     length (v_names a) + 1 < MAX_KEYS \<and> v_free a \<noteq> {} \<and> length (join [c]) < PATH_MAX"

lemma can_link_kept:
  assumes G: "can_link s M r a c n l us e vs c2" and S': "models s' M r a'" and K: "kept {} s s'"
    and a': "v_inode a' = v_inode a" "v_names a' = v_names a" "v_leaf a' = v_leaf a" "v_free a' = v_free a"
  shows "can_link s' M r a' c n l us e vs c2" and "first_block s' r = first_block s r"
proof -
  obtain ps qs ty where N: "named_file s M r a c n l ps qs us e vs" "v_leaf a l = (of_nat n, ty)" "ty \<noteq> FILE_TYPE_DIRECTORY"
    using G unfolding can_link_def by blast
  note N' = named_file_kept [OF N(1) S' K a'(1,2)]
  show "first_block s' r = first_block s r" by (rule N'(2))
  obtain m where m: "dir_data s r m" "listing (view s (first_block s r)) m = us @ e # vs" "clean_at (view s (first_block s r)) m"
    using G unfolding can_link_def by blast
  note D = dir_data_kept [OF K N'(2) m(1)]
  have "\<exists>m. dir_data s' r m \<and> listing (view s' (first_block s' r)) m = us @ e # vs \<and> clean_at (view s' (first_block s' r)) m"
    using D(1) m(2,3) unfolding D(2) by blast
  then show "can_link s' M r a' c n l us e vs c2" using G N'(1) N(2,3) unfolding can_link_def a' by blast
qed

text \<open>An entry in front of the first free slot stays where it is.\<close>

lemma entry_before_free:
  assumes e: "in_slot b us e" "de_active e \<noteq> 0" "\<And>u. u \<in> set us \<Longrightarrow> de_active u \<noteq> 0" and l: "us @ e # vs = us' @ vs'"
    and x: "entry_shape x" and i: "in_slot b us' y" and fr: "us' = us @ e # vs \<or> de_active (dir_slot b (length us')) = 0"
  obtains ws where "us' = us @ e # ws" and "vs = ws @ vs'" and "in_slot (with_entry x (length us') b) us e"
proof -
  have lt: "length us < length us'"
  proof (rule ccontr)
    assume n: "\<not> length us < length us'"
    then have "de_active (dir_slot b (length us')) = 0" using fr by auto
    moreover have "de_active (dir_slot b (length us')) \<noteq> 0"
    proof (cases "length us' = length us")
      case True
      then show ?thesis using in_slotD(2) [OF e(1)] e(2) by simp
    next
      case False
      then have "length us' < length us" using n by simp
      then show ?thesis using in_slotD(1) [OF e(1)] e(3) nth_mem by simp
    qed
    ultimately show False by simp
  qed
  obtain ws where ws: "us' = us @ e # ws" "vs = ws @ vs'"
  proof -
    obtain zs where "us @ zs = us' \<and> e # vs = zs @ vs' \<or> us = us' @ zs \<and> zs @ e # vs = vs'" using l unfolding append_eq_append_conv2 by blast
    then have "us @ zs = us'" "e # vs = zs @ vs'" using lt by auto
    moreover from this have "zs \<noteq> []" using lt by auto
    ultimately show thesis using that by (cases zs) auto
  qed
  have "map (dir_slot (with_entry x (length us') b)) [0..<Suc (length us)] = map (dir_slot b) [0..<Suc (length us)]"
    using lt by (intro map_cong) (auto simp: dir_slot_with [OF x])
  then have "in_slot (with_entry x (length us') b) us e" using e(1) by (simp only: in_slot_def)
  with ws show thesis by (rule that)
qed

lemma link_step:
  assumes G: "can_link s M r a c n l us e vs c2"
  obtains s' f F ps qs vs1 x vs2 where "metadata_link (initialize_journal_entry env) env s (join [c]) (join [c2]) wt = Some (0, s')"
    and "named_file s' M r (linked c2 n f F a) c n l ps qs us e (vs1 @ x # vs2)" and "vs = vs1 @ vs2"
    and "entry_name x = Some c2" and "de_inode x = of_nat n"
    and "F \<subseteq> v_free a" and "card F + 1 = card (v_free a)" and "kept {first_block s r} s s'" and "first_block s' r = first_block s r"
proof -
  obtain ps qs ty where N: "named_file s M r a c n l ps qs us e vs" "v_leaf a l = (of_nat n, ty)" "ty \<noteq> FILE_TYPE_DIRECTORY"
    using G unfolding can_link_def by blast
  have n0: "0 < n" and num: "inode_number (v_inode a n) = of_nat n" and ty: "mode (v_inode a n) AND S_IFMT \<noteq> FILE_TYPE_DIRECTORY"
      and new: "path_hash c2 \<notin> fst ` set (v_names a)" and c2: "component c2" "length c2 < NAME_MAX" "CHR 0x00 \<notin> set c2"
      and les: "length (us @ e # vs) < SCAN" and nm: "\<And>x. x \<in> set (us @ e # vs) \<Longrightarrow> entry_name x \<noteq> Some c2"
      and len: "length (v_names a) + 1 < MAX_KEYS" and fr: "v_free a \<noteq> {}" and pl: "length (join [c]) < PATH_MAX"
    using G unfolding can_link_def by blast+
  have S: "models s M r a" and c: "component c" "CHR 0x00 \<notin> set c" and names: "v_names a = ps @ (path_hash c, l) # qs" and n: "n < M" "n \<noteq> r"
      and one: "direct_blocks (v_inode a r) ! 1 = 0" and nf: "named_first us e c" and en: "de_inode e = of_nat n"
    using N(1) unfolding named_file_def by blast+
  have q: "(path_hash c, l) \<in> set (v_names a)" using names by simp
  note FA = models_file_at [OF S q N(2,3) n(1) n0 c(1) pl]
  note r = modelsD(9) [OF S]
  obtain s1 where s1: "item_search s (join [c]) = Some (\<lparr>ip_inode = of_nat n, ip_btree = 0\<rparr>, s1)" "st.silent s s1"
    by (rule file_at_search [OF FA(1)])
  note m1 = models_silent [OF S s1(2,2)]
  obtain s2 where s2: "inode_read s1 (of_nat n) = Some (Some (v_inode a n), s2)" "st.silent s1 s2"
    using inode_read_ok [OF sound_inode(1) [OF modelsD(2) [OF m1(1)] n(1)]] modelsD(6) [OF m1(1) n(1)] by metis
  note S2 = st.silent_trans [OF s1(2) s2(2)]
  note m2 = models_silent [OF S S2 S2]
  note G2 = can_link_kept [OF G m2 refl refl refl refl]
  obtain m where m: "dir_data s2 r m" "listing (view s2 (first_block s2 r)) m = us @ e # vs" "clean_at (view s2 (first_block s2 r)) m"
    using G2(1) unfolding can_link_def by blast
  have one2: "direct_blocks (inode_of s2 r) ! 1 = 0" using modelsD(6) [OF m2(1) r] one by simp
  have fn: "find (\<lambda>e. entry_name e = Some c2) (us @ e # vs) = None" using nm by (auto simp: find_None_iff)
  obtain s3 where s3: "directory_exists_entry s2 ''/'' c2 = Some (None, s3)" "st.silent s2 s3"
    using directory_exists_ok [OF modelsD(1) [OF m2(1)] m(1) one2 m(3) c2(3)] unfolding m(2) fn by blast
  note S3 = st.silent_trans [OF S2 s3(2)]
  note m3 = models_silent [OF S S3 S3]
  note N3 = named_file_kept [OF N(1) m3 refl refl] and G3 = can_link_kept [OF G m3 refl refl refl refl]
  let ?d = "first_block s3 r"
  obtain k where k: "dir_data s3 r k" "listing (view s3 ?d) k = us @ e # vs" "in_slot (view s3 ?d) us e"
    using N3(1) by (auto simp: named_file_def lists_file_def)
  have d0: "?d \<noteq> 0" using k(1) by (simp add: dir_data_def)
  have room: "room_for s3 r (us @ e # vs)" using les k(1,2) d0 unfolding room_for_def by auto
  have x0: "extra s3 r = 0" using d0 by (simp add: extra_def)
  have fin: "finite (v_free a)" using modelsD(5) [OF S] free_set_finite [of s] by simp
  have fc: "extra s3 r < card (v_free a)" using x0 fr fin by (simp add: card_gt_0_iff)
  have sl: "v_slots a = extra s3 r + v_slots a" using x0 by simp
  have len': "length (v_names a) < MAX_KEYS" using len by simp
  obtain s4 d f F m4 us' vs' x where A: "directory_add_entry (initialize_journal_entry env) env s3 ''/'' c2 (of_nat n) (mode (v_inode a n) AND S_IFMT) wt = Some (0, s4)"
      "models s4 M r (a\<lparr>v_inode := (v_inode a)(r := with_block 0 d (v_inode a r)), v_free := F, v_names := with_leaf (v_names a) (path_hash c2) f,
        v_leaf := (v_leaf a)(f := (of_nat n, mode (v_inode a n) AND S_IFMT)), v_slots := v_slots a\<rparr>)"
      "F \<subseteq> v_free a" "card F + extra s3 r + 1 = card (v_free a)" "kept {?d} s3 s4" "dir_data s4 r m4" "listing (view s4 d) m4 = us' @ x # vs'"
      "us @ e # vs = us' @ vs'" "de_inode x = of_nat n" "entry_name x = Some c2" "first_block s4 r = d" "in_slot (view s4 d) us' x"
      "?d \<noteq> 0 \<longrightarrow> d = ?d \<and> entry_shape x \<and> view s4 d = with_entry x (length us') (view s3 d) \<and>
        in_slot (view s3 d) us' (dir_slot (view s3 d) (length us')) \<and> (us' = us @ e # vs \<or> de_active (dir_slot (view s3 d) (length us')) = 0)"
    by (rule directory_add_step [OF m3(1) room sl fc len' new c2(2,3) ty, of env "of_nat n" wt]) (rule that)
  have X: "d = ?d" "entry_shape x" "view s4 d = with_entry x (length us') (view s3 d)" "in_slot (view s3 d) us' (dir_slot (view s3 d) (length us'))"
      "us' = us @ e # vs \<or> de_active (dir_slot (view s3 d) (length us')) = 0"
    using A(13) d0 by blast+
  have "z \<in> set (us @ e # vs) \<Longrightarrow> de_active z \<noteq> 0" for z unfolding k(2) [symmetric] by (simp add: listing_def)
  then have act: "de_active e \<noteq> 0" "\<And>u. u \<in> set us \<Longrightarrow> de_active u \<noteq> 0" by simp_all
  obtain ws where ws: "us' = us @ e # ws" "vs = ws @ vs'" "in_slot (view s4 d) us e"
    unfolding X(3) by (rule entry_before_free [OF k(3) [folded X(1)] act A(8) X(2,4,5)])
  have d3: "d = direct_blocks (v_inode a r) ! 0" using modelsD(6) [OF m3(1) r] X(1) by simp
  let ?a4 = "a\<lparr>v_free := F, v_names := with_leaf (v_names a) (path_hash c2) f, v_leaf := (v_leaf a)(f := (of_nat n, mode (v_inode a n) AND S_IFMT))\<rparr>"
  have eq4: "a\<lparr>v_inode := (v_inode a)(r := with_block 0 d (v_inode a r)), v_free := F, v_names := with_leaf (v_names a) (path_hash c2) f,
        v_leaf := (v_leaf a)(f := (of_nat n, mode (v_inode a n) AND S_IFMT)), v_slots := v_slots a\<rparr> = ?a4"
    unfolding d3 by simp
  let ?i = "(v_inode a n)\<lparr>reference_count := reference_count (v_inode a n) + 1\<rparr>"
  have i: "inode_number ?i = of_nat n" "length (direct_blocks ?i) = 12" using num models_inode(2) [OF S n(1)] by simp_all
  obtain s5 where s5: "inode_write s4 ?i wt = Some (0, s5)" "models s5 M r (?a4\<lparr>v_inode := (v_inode ?a4)(n := ?i)\<rparr>)" "kept {} s4 s5"
    by (rule inode_write_step [OF A(2) [unfolded eq4] n(1) i, of wt]) (rule that)
  let ?a5 = "linked c2 n f F a"
  have "?a4\<lparr>v_inode := (v_inode ?a4)(n := ?i)\<rparr> = ?a5" by (simp add: linked_def)
  note m5 = s5(2) [unfolded this]
  have run: "metadata_link (initialize_journal_entry env) env s (join [c]) (join [c2]) wt = Some (0, s5)"
    using s1(1) s2(1) s3(1) A(1) s5(1) top_path [OF c2(1)] unfolding metadata_link_def by (simp del: join.simps)
  have fb: "first_block s5 r = d" using modelsD(6) [OF m5 r] n(2) d3 by (simp add: linked_def)
  have fb4: "first_block s5 r = first_block s4 r" using fb A(11) by simp
  note D5 = dir_data_kept [OF s5(3) fb4 A(6)]
  have lf: "lists_file s5 r us e (ws @ x # vs')"
    unfolding lists_file_def D5(2) A(11) using D5(1) A(7) ws(1,3) by auto
  have set: "set (v_names ?a5) = insert (path_hash c2, f) (set (v_names a))" by (simp add: linked_def)
  obtain ps' qs' where sp: "v_names ?a5 = ps' @ (path_hash c, l) # qs'" using q set by (metis insertCI split_list)
  have "length (v_names ?a5) < MAX_KEYS" using len by (simp add: linked_def with_leaf_length)
  moreover have "direct_blocks (v_inode ?a5 r) ! 1 = 0" using one n(2) by (simp add: linked_def)
  ultimately have "named_file s5 M r ?a5 c n l ps' qs' us e (ws @ x # vs')"
    using m5 sp n lf nf en c unfolding named_file_def by blast
  moreover have "kept {first_block s r} s s5" using kept_trans [OF kept_trans [OF m3(2) A(5)] s5(3)] G3(2) by simp
  moreover have "card F + 1 = card (v_free a)" using A(4) x0 by simp
  moreover have "first_block s5 r = first_block s r" using fb X(1) G3(2) by simp
  ultimately show thesis using run ws(2) A(3,9,10) by (intro that)
qed

text \<open>The callback journals the change first, with both paths.\<close>

lemma two_path_entry:
  assumes "length from < PATH_MAX" and "length to < PATH_MAX" and "ty \<noteq> MKNOD"
  obtains y z where "new_entry_for env s ty from = Some y" and "strcpy PATH_MAX to y JE_TO = Some z" and "prepare_entry s z = Some (z, s)"
proof -
  obtain y where y: "new_entry_for env s ty from = Some y" using assms(1) by (simp add: new_entry_for_def strcpy_def)
  obtain z where z: "strcpy PATH_MAX to y JE_TO = Some z" using assms(2) by (simp add: strcpy_def)
  have "je_type y = ty"
    using y assms(1) by (auto simp: new_entry_for_def strcpy_def layout split: if_splits)
  then have "je_type z = ty" using z assms(2) by (auto simp: strcpy_def layout split: if_splits)
  then have "prepare_entry s z = Some (z, s)" using assms(3) by (simp add: prepare_entry_def)
  with y z show thesis by (rule that)
qed

lemma nbtrfs_link_step:
  assumes G: "can_link s M r a c n l us e vs c2" and sl: "v_slots a = Suc k" and len: "length (join [c2]) < PATH_MAX"
  obtains s' f F ps qs vs1 x vs2 where "nbtrfs_link env s (join [c]) (join [c2]) = Some (0, s')"
    and "named_file s' M r (linked c2 n f F (a\<lparr>v_slots := k\<rparr>)) c n l ps qs us e (vs1 @ x # vs2)" and "vs = vs1 @ vs2"
    and "entry_name x = Some c2" and "de_inode x = of_nat n"
    and "F \<subseteq> v_free a" and "card F + 1 = card (v_free a)" and "kept {first_block s r} s s'"
proof -
  have S: "models s M r a" and pl: "length (join [c]) < PATH_MAX" using G unfolding can_link_def named_file_def by blast+
  obtain y z where yz: "new_entry_for env s LINK (join [c]) = Some y" "strcpy PATH_MAX (join [c2]) y JE_TO = Some z" "prepare_entry s z = Some (z, s)"
    by (rule two_path_entry [OF pl len, of LINK env s]) (simp_all add: block_types)
  obtain s1 where s1: "initialize_journal_entry env s z = Some s1" "models s1 M r (a\<lparr>v_slots := k\<rparr>)" "kept {} s s1"
    by (rule journal_step [OF S sl yz(3), of env]) (rule that)
  note G1 = can_link_kept [OF G s1(2,3)]
  have G1': "can_link s1 M r (a\<lparr>v_slots := k\<rparr>) c n l us e vs c2" "first_block s1 r = first_block s r" by (rule G1; simp)+
  obtain s' f F ps qs vs1 x vs2 where L: "metadata_link (initialize_journal_entry env) env s1 (join [c]) (join [c2]) False = Some (0, s')"
      "named_file s' M r (linked c2 n f F (a\<lparr>v_slots := k\<rparr>)) c n l ps qs us e (vs1 @ x # vs2)" "vs = vs1 @ vs2"
      "entry_name x = Some c2" "de_inode x = of_nat n" "F \<subseteq> v_free (a\<lparr>v_slots := k\<rparr>)" "card F + 1 = card (v_free (a\<lparr>v_slots := k\<rparr>))"
      "kept {first_block s1 r} s1 s'"
    by (rule link_step [OF G1'(1), of env False])
  have "nbtrfs_link env s (join [c]) (join [c2]) = Some (0, s')" using yz(1,2) s1(1) L(1) unfolding nbtrfs_link_def by simp
  moreover have "kept {first_block s r} s s'" using kept_trans [OF s1(3) L(8)] G1'(2) by simp
  moreover have "F \<subseteq> v_free a" "card F + 1 = card (v_free a)" using L(6,7) by simp_all
  ultimately show thesis using L(2-5) by (intro that)
qed

section \<open>Renaming\<close>

text \<open>A link, and the removal of the old name.\<close>

lemma rename_step:
  assumes G: "can_link s M r a c n l us e vs c2" and cnt: "reference_count (v_inode a n) \<noteq> 0"
  obtains s' f F ps qs m vs1 x vs2 where "metadata_rename (initialize_journal_entry env) env s (join [c]) (join [c2]) False = Some (0, s')"
    and "models s' M r ((linked c2 n f F a)\<lparr>v_free := insert (unat l) F, v_names := ps @ qs\<rparr>)"
    and "set (ps @ qs) = insert (path_hash c2, f) (set (v_names a) - {(path_hash c, l)})"
    and "dir_data s' r m" and "listing (view s' (first_block s' r)) m = us @ vs1 @ x # vs2" and "vs = vs1 @ vs2"
    and "entry_name x = Some c2" and "de_inode x = of_nat n"
    and "card (insert (unat l) F) = card (v_free a)" and "frees {l} {first_block s r} s s'"
proof -
  have S: "models s M r a" and c2: "component c2" and new: "path_hash c2 \<notin> fst ` set (v_names a)" and q: "(path_hash c, l) \<in> set (v_names a)"
    using G unfolding can_link_def named_file_def by auto
  obtain s1 where s1: "item_search s ''/'' = Some (root_pair s r, s1)" "st.silent s s1" by (rule search_root [OF modelsD(1) [OF S]])
  note m1 = models_silent [OF S s1(2,2)]
  have b1: "btree_root (sb_of s1) = btree_root (sb_of s)" by (rule kept_root [OF m1(2)])
  obtain s2 where s2: "btree_search s1 (btree_root (sb_of s)) (path_hash c2) = Some (0, s2)" "st.silent s1 s2"
    using dir_search [OF modelsD(3) [OF m1(1)] models_missing [OF m1(1) new]] unfolding b1 by (metis option.simps(4))
  note S2 = st.silent_trans [OF s1(2) s2(2)]
  note m2 = models_silent [OF S S2 S2]
  note G2 = can_link_kept [OF G m2 refl refl refl refl]
  obtain s3 f F ps qs vs1 x vs2 where L: "metadata_link (initialize_journal_entry env) env s2 (join [c]) (join [c2]) False = Some (0, s3)"
      "named_file s3 M r (linked c2 n f F a) c n l ps qs us e (vs1 @ x # vs2)" "vs = vs1 @ vs2" "entry_name x = Some c2" "de_inode x = of_nat n"
      "F \<subseteq> v_free a" "card F + 1 = card (v_free a)" "kept {first_block s2 r} s2 s3" "first_block s3 r = first_block s2 r"
    by (rule link_step [OF G2(1)])
  have "reference_count (v_inode (linked c2 n f F a) n) \<noteq> 1" using cnt by (simp add: linked_def)
  then obtain s4 m where U: "metadata_unlink s3 (join [c]) False = Some (0, s4)"
      "models s4 M r ((linked c2 n f F a)\<lparr>v_free := insert (unat l) (v_free (linked c2 n f F a)), v_names := ps @ qs\<rparr>)"
      "frees {l} {first_block s3 r} s3 s4" "dir_data s4 r m" "listing (view s4 (first_block s4 r)) m = us @ vs1 @ x # vs2"
    by (rule unlink_linked_step [OF L(2)])
  have run: "metadata_rename (initialize_journal_entry env) env s (join [c]) (join [c2]) False = Some (0, s4)"
    using s1(1) s2(1) L(1) U(1) top_path [OF c2] unfolding metadata_rename_def by (simp del: join.simps)
  have S3: "models s3 M r (linked c2 n f F a)" and names: "v_names (linked c2 n f F a) = ps @ (path_hash c, l) # qs"
    using L(2) by (simp_all add: named_file_def)
  have so: "sorted_wrt (<) (map fst (v_names (linked c2 n f F a)))" using modelsD(8) [OF S3] by (simp add: flat_at_def)
  have out: "(path_hash c, l) \<notin> set (ps @ qs)" using so unfolding names by (force simp: sorted_wrt_append)
  have "set (v_names (linked c2 n f F a)) = insert (path_hash c2, f) (set (v_names a))" by (simp add: linked_def)
  then have "insert (path_hash c, l) (set (ps @ qs)) = insert (path_hash c2, f) (set (v_names a))" unfolding names by simp
  moreover have "path_hash c2 \<noteq> path_hash c" using new q by force
  ultimately have st: "set (ps @ qs) = insert (path_hash c2, f) (set (v_names a) - {(path_hash c, l)})" using out by blast
  have lu: "block_used s3 (unat l)" using flat_at_blocks(2) [OF modelsD(8) [OF S3], of l] names by simp
  have "F = free_set s3" using modelsD(5) [OF S3] by (simp add: linked_def)
  then have "unat l \<notin> F" "finite F" using lu by (simp_all add: free_set_def)
  then have "card (insert (unat l) F) = card (v_free a)" using L(7) by simp
  moreover have "frees {l} {first_block s r} s s4" using frees_kept [OF kept_trans [OF m2(2) L(8)] U(3)] L(9) G2(2) by simp
  moreover have "v_free (linked c2 n f F a) = F" by (simp add: linked_def)
  moreover note fF = calculation(3)
  ultimately show thesis using run U(2) [unfolded fF] U(4,5) st L(3-5) by (intro that)
qed

lemma nbtrfs_rename_step:
  assumes G: "can_link s M r a c n l us e vs c2" and cnt: "reference_count (v_inode a n) \<noteq> 0" and sl: "v_slots a = Suc k"
    and len: "length (join [c2]) < PATH_MAX"
  obtains s' f F ps qs m vs1 x vs2 where "nbtrfs_rename env s (join [c]) (join [c2]) = Some (0, s')"
    and "models s' M r ((linked c2 n f F (a\<lparr>v_slots := k\<rparr>))\<lparr>v_free := insert (unat l) F, v_names := ps @ qs\<rparr>)"
    and "set (ps @ qs) = insert (path_hash c2, f) (set (v_names a) - {(path_hash c, l)})"
    and "dir_data s' r m" and "listing (view s' (first_block s' r)) m = us @ vs1 @ x # vs2" and "vs = vs1 @ vs2"
    and "entry_name x = Some c2" and "de_inode x = of_nat n"
    and "card (insert (unat l) F) = card (v_free a)" and "frees {l} {first_block s r} s s'"
proof -
  have S: "models s M r a" and pl: "length (join [c]) < PATH_MAX" using G unfolding can_link_def named_file_def by blast+
  obtain y z where yz: "new_entry_for env s RENAME (join [c]) = Some y" "strcpy PATH_MAX (join [c2]) y JE_TO = Some z" "prepare_entry s z = Some (z, s)"
    by (rule two_path_entry [OF pl len, of RENAME env s]) (simp_all add: block_types)
  obtain s1 where s1: "initialize_journal_entry env s z = Some s1" "models s1 M r (a\<lparr>v_slots := k\<rparr>)" "kept {} s s1"
    by (rule journal_step [OF S sl yz(3), of env]) (rule that)
  note G1 = can_link_kept [OF G s1(2,3)]
  have G1': "can_link s1 M r (a\<lparr>v_slots := k\<rparr>) c n l us e vs c2" "first_block s1 r = first_block s r" by (rule G1; simp)+
  have cnt': "reference_count (v_inode (a\<lparr>v_slots := k\<rparr>) n) \<noteq> 0" using cnt by simp
  obtain s' f F ps qs m vs1 x vs2 where R: "metadata_rename (initialize_journal_entry env) env s1 (join [c]) (join [c2]) False = Some (0, s')"
      "models s' M r ((linked c2 n f F (a\<lparr>v_slots := k\<rparr>))\<lparr>v_free := insert (unat l) F, v_names := ps @ qs\<rparr>)"
      "set (ps @ qs) = insert (path_hash c2, f) (set (v_names (a\<lparr>v_slots := k\<rparr>)) - {(path_hash c, l)})"
      "dir_data s' r m" "listing (view s' (first_block s' r)) m = us @ vs1 @ x # vs2" "vs = vs1 @ vs2" "entry_name x = Some c2" "de_inode x = of_nat n"
      "card (insert (unat l) F) = card (v_free (a\<lparr>v_slots := k\<rparr>))" "frees {l} {first_block s1 r} s1 s'"
    by (rule rename_step [OF G1'(1) cnt', of env])
  have "nbtrfs_rename env s (join [c]) (join [c2]) = Some (0, s')" using yz(1,2) s1(1) R(1) unfolding nbtrfs_rename_def by simp
  moreover have "frees {l} {first_block s r} s s'" using frees_kept [OF s1(3) R(10)] G1'(2) by simp
  moreover have "set (ps @ qs) = insert (path_hash c2, f) (set (v_names a) - {(path_hash c, l)})" "card (insert (unat l) F) = card (v_free a)"
    using R(3,9) by simp_all
  ultimately show thesis using R(2,4-8) by (intro that)
qed

end
