(* ===== verification/Naming.thy ===== *)
theory Naming
  imports Creation Links
begin

text \<open>
  What \<open>nbtrfs_link\<close> and \<open>nbtrfs_rename\<close> come to, for files with names in the root directory.
\<close>

lemma can_linkD:
  assumes "can_link s M r a c n l us e vs c2"
  shows "models s M r a" and "n < M" and "n \<noteq> r" and "0 < n" and "component c" and "component c2" and "length (join [c]) < PATH_MAX"
    and "(path_hash c, l) \<in> set (v_names a)" and "path_hash c2 \<notin> fst ` set (v_names a)" and "mode (v_inode a n) AND S_IFMT \<noteq> FILE_TYPE_DIRECTORY"
    and "direct_blocks (v_inode a r) ! 1 = 0" and "btype (view s l) = BLOCK_TYPE_BTREE_NODE"
    and "\<exists>ty. v_leaf a l = (of_nat n, ty) \<and> ty \<noteq> FILE_TYPE_DIRECTORY"
proof -
  obtain ps qs ty where N: "named_file s M r a c n l ps qs us e vs" "v_leaf a l = (of_nat n, ty)" "ty \<noteq> FILE_TYPE_DIRECTORY"
    using assms unfolding can_link_def by blast
  show S: "models s M r a" and "n < M" and "n \<noteq> r" and "component c" and "direct_blocks (v_inode a r) ! 1 = 0"
    using N(1) unfolding named_file_def by blast+
  show q: "(path_hash c, l) \<in> set (v_names a)" using N(1) by (simp add: named_file_def)
  show "0 < n" and "component c2" and "length (join [c]) < PATH_MAX" and "path_hash c2 \<notin> fst ` set (v_names a)"
    and "mode (v_inode a n) AND S_IFMT \<noteq> FILE_TYPE_DIRECTORY"
    using assms unfolding can_link_def by blast+
  have "is_node s l" using flat_at_blocks(1) [OF modelsD(8) [OF S], of l] q by force
  then show "btype (view s l) = BLOCK_TYPE_BTREE_NODE" by (simp add: is_node_def)
  show "\<exists>ty. v_leaf a l = (of_nat n, ty) \<and> ty \<noteq> FILE_TYPE_DIRECTORY" using N(2,3) by blast
qed

text \<open>A name that stays keeps its leaf, since the leaf of another name has another key.\<close>

lemma names_stay:
  assumes S: "models s M r a" and S': "models s' M r a'" and q: "(path_hash c, l) \<in> set (v_names a)" "(path_hash c, l) \<in> set (v_names a')"
    and f: "(path_hash d, f) \<in> set (v_names a')" "path_hash d \<noteq> path_hash c" and a': "v_leaf a' = (v_leaf a)(f := x)"
  shows "dir_entry s' (btree_root (sb_of s')) c (Some l) \<and> leaf_says s' l = leaf_says s l"
proof -
  have "leaf_at s' (btree_root (sb_of s')) (path_hash c, l)" "leaf_at s' (btree_root (sb_of s')) (path_hash d, f)"
    using modelsD(8) [OF S'] q(2) f(1) unfolding flat_at_def by blast+
  then have "l \<noteq> f" using f(2) by (auto simp: leaf_at_def)
  then show ?thesis using models_entry [OF S' q(2)] models_leaf [OF S q(1)] models_leaf [OF S' q(2)] a' by simp
qed

section \<open>A directory with one file\<close>

text \<open>
  The volume of theory \<open>Creation\<close> with one file, for the witnesses. Its directory block is written over with one that has nothing
  behind the entry of the file: what a new block held before is not known.
\<close>

definition one_entry :: "DirEntry \<Rightarrow> block" where
  "one_entry e = with_entry e 0 (set_btype BLOCK_TYPE_DATA zero_block)"

lemma dir_slot_blank: "dir_slot (set_btype BLOCK_TYPE_DATA zero_block) i = dir_slot zero_block i"
  unfolding dir_slot_def by (rule de_load_cong) (simp add: store_le_def)

lemma one_entry_ok:
  assumes e: "entry_shape e" "de_active e \<noteq> 0" "entry_name e \<noteq> None"
  shows "btype (one_entry e) = BLOCK_TYPE_DATA" and "dir_at (one_entry e) 1" and "listing (one_entry e) 1 = [e]" and "in_slot (one_entry e) [] e"
    and "clean_at (one_entry e) 1"
proof -
  let ?b = "set_btype BLOCK_TYPE_DATA zero_block"
  show "btype (one_entry e) = BLOCK_TYPE_DATA" using btype_de_store [OF e(1), of ?b 0] by (simp add: one_entry_def with_entry_def)
  have l0: "listing b 0 = []" for b by (simp add: listing_def)
  have "entry_count zero_block = 0" by (simp add: load_zero)
  then have b0: "dir_at ?b 0" by (simp add: dir_at_def l0 load_store_other)
  show "dir_at (one_entry e) 1" using dir_at_with [OF b0 e(1,2), of 0] by (simp add: one_entry_def scan)
  show "in_slot (one_entry e) [] e" using in_slot_with [OF e(1), of 0 ?b] by (simp add: one_entry_def l0)
  show "listing (one_entry e) 1 = [e]" using dir_slot_with [OF e(1), of 0 ?b 0] e(2) by (simp add: listing_def one_entry_def)
  have "entry_name (dir_slot zero_block i) \<noteq> None" "de_active (dir_slot zero_block i) = 0" for i
    by (auto simp: entry_name_def dir_slot_def de_load_def str_of_bytes_def load_bytes_def zero_block_def layout image_iff intro: exI [of _ "0 :: nat"])
  then show "clean_at (one_entry e) 1"
    using e(3) by (simp add: clean_at_def one_entry_def dir_slot_with [OF e(1)] dir_slot_blank)
qed

lemma demo_can_link:
  obtains s a l e where "can_link s 22 0 a ''g'' 1 l [] e [] ''h''" and "v_slots a = 7" and "reference_count (inode_of s 1) = 1"
proof -
  obtain s0 where N: "new_image s0 demo_env 1000" by (rule demo_image)
  note V = new_image_can_make [OF N g_can_be file_mode]
  have sl: "v_slots (new_vol s0) = extra s0 0 + Suc 7" using V(2,3) by simp
  obtain s now d f F jb where s: "models s 22 0 (made demo_env ''g'' (S_IFREG OR 0x1A4) 0 1 now d f F 7 (new_vol s0))" "lists_new s 0 [] ''g'' 1"
      "card F + extra s0 0 + 1 = card (v_free (new_vol s0))"
    by (rule nbtrfs_mknod_step [OF V(1) sl V(7), of demo_env]) (rule that)
  let ?a = "made demo_env ''g'' (S_IFREG OR 0x1A4) 0 1 now d f F 7 (new_vol s0)" and ?d = "first_block s 0"
  obtain m e where e: "dir_data s 0 m" "in_slot (view s ?d) [] e" "de_active e \<noteq> 0" "de_inode e = of_nat 1" "entry_name e = Some ''g''"
    using s(2) unfolding lists_new_def by auto
  have sh: "entry_shape e" using in_slotD(2) [OF e(2)] by (auto simp: dir_slot_def de_load_def entry_shape_def)
  note O = one_entry_ok [OF sh e(3)]
  have d: "?d \<noteq> 0" "used s ?d" "btype (view s ?d) = BLOCK_TYPE_DATA" using e(1) by (simp_all add: dir_data_def)
  have lim: "unat ?d < nblocks s" using d(2) by (simp add: used_def)
  obtain p s1 where s1: "st.silent s s1" "points s1 p ?d" using st.get_silent [OF modelsD(3) [OF s(1)] lim] by blast
  note m1 = models_silent [OF s(1) s1(1,1)]
  obtain s2 where s2: "st.changes s1 s2 ?d (one_entry e)" using st.store_changes [OF modelsD(3) [OF m1(1)] s1(2)] by blast
  note C = st.changesD [OF s2]
  have d1: "used s1 ?d" "btype (view s1 ?d) = BLOCK_TYPE_DATA" using keptD(2,3) [OF m1(2) d(2)] d(3) by simp_all
  note m2 = data_step [OF m1(1) d1 C(1,2)]
  have S: "models s2 22 0 ?a" using m2(1) O(1) e(5) by simp
  have fb: "first_block s2 0 = ?d" using modelsD(6) [OF S, of 0] modelsD(6) [OF s(1), of 0] by simp
  have v: "view s2 ?d = one_entry e" by (simp add: C(2))
  have dd: "dir_data s2 0 1" using d(1) keptD(2) [OF m2(2) d1(1)] O(1,2) e(5) by (simp add: dir_data_def fb v)
  have ls: "listing (view s2 (first_block s2 0)) 1 = [e]" "in_slot (view s2 (first_block s2 0)) [] e" "clean_at (view s2 (first_block s2 0)) 1"
    unfolding fb v using O(3-5) e(5) by simp_all
  have vn: "v_names ?a = [(path_hash ''g'', f)]" by (simp add: made_def new_vol_def with_leaf_def)
  have lf: "v_leaf ?a f = (of_nat 1, (S_IFREG OR 0x1A4) AND S_IFMT)" "v_free ?a = F" "v_slots ?a = 7" by (simp_all add: made_def)
  have i: "inode_number (v_inode ?a 1) = of_nat 1" "mode (v_inode ?a 1) = S_IFREG OR 0x1A4" "reference_count (v_inode ?a 1) = 1"
    by (simp_all add: made_def made_inode_def fresh_inode_def)
  have one: "direct_blocks (v_inode ?a 0) ! 1 = 0" using V(5) by (simp add: made_def with_block_def new_vol_def)
  have "1 \<le> card F" using s(3) V(2,4) geometry_room [of 1 1000] by simp
  then have F: "F \<noteq> {}" by auto
  have "lists_file s2 0 [] e []" unfolding lists_file_def using dd ls by auto
  moreover have g: "component ''g''" "CHR 0x00 \<notin> set ''g''" "component ''h''" by (simp_all add: component_def)
  moreover have len: "length (v_names ?a) + 1 < MAX_KEYS" unfolding vn by (simp add: layout)
  ultimately have "named_file s2 22 0 ?a ''g'' 1 f [] [] [] e []"
    using S vn one e(4,5) unfolding named_file_def by (simp add: named_first_def)
  moreover have "path_hash ''h'' \<notin> fst ` set (v_names ?a)" unfolding vn by (simp add: path_hash_def)
  ultimately have "can_link s2 22 0 ?a ''g'' 1 f [] e [] ''h''"
    unfolding can_link_def using lf i file_mode(1) g len F V(7) dd ls e(5) by (auto simp: layout)
  moreover have "reference_count (inode_of s2 1) = 1" using modelsD(6) [OF S, of 1] i(3) by (metis one_less_numeral_iff semiring_norm(76))
  ultimately show thesis using lf(3) by (intro that)
qed

section \<open>Links\<close>

text \<open>
  C13. \<open>nbtrfs_link\<close> gives a file of the root directory a second name: it returns 0, both paths lead to the same inode with
  one more link counted, the directory lists the new entry among the others, every other name, inode and data
  block is as before, and one free block is used, for the leaf of the new name.
\<close>

theorem nbtrfs_link_adds_name:
  assumes "can_link s M r a c n l us e vs c2" and "0 < v_slots a" and "length (join [c2]) < PATH_MAX"
    and "i = (inode_of s n)\<lparr>reference_count := reference_count (inode_of s n) + 1\<rparr>"
  shows "\<exists>s1 s2 s3 s4 x vs1 vs2. nbtrfs_link env s (join [c]) (join [c2]) = Some (0, s1) \<and>
    nbtrfs_getattr s1 (join [c]) = Some (Some (stat_of i (of_nat n)), s2) \<and>
    nbtrfs_getattr s1 (join [c2]) = Some (Some (stat_of i (of_nat n)), s3) \<and>
    directory_list s1 ''/'' = Some (Some (us @ e # vs1 @ x # vs2), s4) \<and> vs = vs1 @ vs2 \<and> entry_name x = Some c2 \<and> de_inode x = of_nat n \<and>
    sound s1 M \<and> card (free_set s1) + 1 = card (free_set s) \<and> inode_of s1 n = i \<and>
    (\<forall>m < M. inode_used s1 m = inode_used s m \<and> (m \<noteq> n \<longrightarrow> inode_of s1 m = inode_of s m)) \<and>
    (\<forall>c' l'. (path_hash c', l') \<in> set (v_names a) \<longrightarrow> dir_entry s1 (btree_root (sb_of s1)) c' (Some l') \<and> leaf_says s1 l' = leaf_says s l') \<and>
    kept {first_block s r} s s1"
proof -
  note L = can_linkD [OF assms(1)] and S = can_linkD(1) [OF assms(1)]
  obtain y where y: "v_slots a = Suc y" using assms(2) by (cases "v_slots a") auto
  obtain s1 f F ps qs vs1 x vs2 where s1: "nbtrfs_link env s (join [c]) (join [c2]) = Some (0, s1)"
      "named_file s1 M r (linked c2 n f F (a\<lparr>v_slots := y\<rparr>)) c n l ps qs us e (vs1 @ x # vs2)" "vs = vs1 @ vs2"
      "entry_name x = Some c2" "de_inode x = of_nat n" "F \<subseteq> v_free a" "card F + 1 = card (v_free a)" "kept {first_block s r} s s1"
    by (rule nbtrfs_link_step [OF assms(1) y assms(3), of env])
  let ?b = "linked c2 n f F (a\<lparr>v_slots := y\<rparr>)"
  have S1: "models s1 M r ?b" and lf: "lists_file s1 r us e (vs1 @ x # vs2)" and one: "direct_blocks (v_inode ?b r) ! 1 = 0"
    using s1(2) unfolding named_file_def by blast+
  have i: "i = v_inode ?b n" using modelsD(6) [OF S L(2)] assms(4) by (simp add: linked_def)
  have sel: "set (v_names ?b) = insert (path_hash c2, f) (set (v_names a))" "v_leaf ?b = (v_leaf a)(f := (of_nat n, mode (v_inode a n) AND S_IFMT))"
      "v_free ?b = F" "v_taken ?b = v_taken a" "m \<noteq> n \<Longrightarrow> v_inode ?b m = v_inode a m" for m
    by (simp_all add: linked_def)
  have N: "dir_entry s1 (btree_root (sb_of s1)) c' (Some l') \<and> leaf_says s1 l' = leaf_says s l'" if q: "(path_hash c', l') \<in> set (v_names a)" for c' l'
  proof (rule names_stay [OF S S1 q])
    show "path_hash c2 \<noteq> path_hash c'" using q L(9) by force
  qed (use q sel(1,2) in auto)
  have q2: "(path_hash c2, f) \<in> set (v_names ?b)" "v_leaf ?b f = (of_nat n, mode (v_inode a n) AND S_IFMT)" using sel(1,2) by simp_all
  note F2 = models_file_at [OF S1 q2 L(10) L(2,4,6) assms(3)]
  have q1: "(path_hash c, l) \<in> set (v_names ?b)" using L(8) sel(1) by simp
  obtain ty where ty: "v_leaf a l = (of_nat n, ty)" "ty \<noteq> FILE_TYPE_DIRECTORY" using L(13) by blast
  have "leaf_says s1 l = leaf_says s l" using N L(8) by blast
  then have "v_leaf ?b l = (of_nat n, ty)" using models_leaf [OF S1 q1] models_leaf [OF S L(8)] ty(1) by simp
  note F1 = models_file_at [OF S1 q1 this ty(2) L(2,4,5,7)]
  have ii: "inode_of s1 n = i" using F1(2) i by simp
  obtain s2 s3 where s2: "nbtrfs_getattr s1 (join [c]) = Some (Some (stat_of i (of_nat n)), s2)"
      "nbtrfs_getattr s1 (join [c2]) = Some (Some (stat_of i (of_nat n)), s3)"
    using nbtrfs_getattr_ok [OF F1(1)] nbtrfs_getattr_ok [OF F2(1)] unfolding ii by metis
  obtain m where m: "dir_data s1 r m" "listing (view s1 (first_block s1 r)) m = us @ e # vs1 @ x # vs2" using lf unfolding lists_file_def by blast
  obtain s4 where s4: "directory_list s1 ''/'' = Some (Some (us @ e # vs1 @ x # vs2), s4)"
    using models_listing [OF S1 m(1) one] unfolding m(2) by blast
  have I: "inode_used s1 j = inode_used s j" "j \<noteq> n \<Longrightarrow> inode_of s1 j = inode_of s j" if "j < M" for j
    using modelsD(6,7) [OF S1 that] modelsD(6,7) [OF S that] sel(4,5) by simp_all
  have "card (free_set s1) + 1 = card (free_set s)" using s1(7) modelsD(5) [OF S1] modelsD(5) [OF S] sel(3) by simp
  then show ?thesis using s1(1,3,4,5,8) s2 s4 modelsD(2) [OF S1] ii I N by (intro exI conjI) blast+
qed

theorem nbtrfs_link_adds_name_witness:
  "\<exists>s a l e s1 i s2 s3. can_link s 22 0 a ''g'' 1 l [] e [] ''h'' \<and> nbtrfs_link demo_env s ''/g'' ''/h'' = Some (0, s1) \<and>
    nbtrfs_getattr s1 ''/g'' = Some (Some (stat_of i 1), s2) \<and> nbtrfs_getattr s1 ''/h'' = Some (Some (stat_of i 1), s3) \<and> reference_count i = 2"
proof -
  obtain s a l e where G: "can_link s 22 0 a ''g'' 1 l [] e [] ''h''" "v_slots a = 7" "reference_count (inode_of s 1) = 1" by (rule demo_can_link)
  have len: "length (join [''h'']) < PATH_MAX" by (simp add: PATH_MAX_def)
  let ?i = "(inode_of s 1)\<lparr>reference_count := reference_count (inode_of s 1) + 1\<rparr>"
  obtain s1 s2 s3 where "nbtrfs_link demo_env s ''/g'' ''/h'' = Some (0, s1)" "nbtrfs_getattr s1 ''/g'' = Some (Some (stat_of ?i 1), s2)"
      "nbtrfs_getattr s1 ''/h'' = Some (Some (stat_of ?i 1), s3)"
    using nbtrfs_link_adds_name [OF G(1) _ len refl, of demo_env] G(2) by auto
  moreover have "reference_count ?i = 2" using G(3) by simp
  ultimately show ?thesis using G(1) by blast
qed

text \<open>
  C12. \<open>nbtrfs_rename\<close> moves the name of a file in the root directory: it returns 0, the old path leads nowhere, the new one
  to the inode of the file, the directory lists the new entry in place of the old one, every other name, inode and data block is
  as before, and as many blocks are free. But the link added on the way stays counted in the inode.
\<close>

theorem nbtrfs_rename_moves_name:
  assumes "can_link s M r a c n l us e vs c2" and "0 < v_slots a" and "length (join [c2]) < PATH_MAX"
    and "reference_count (inode_of s n) \<noteq> 0"
    and "i = (inode_of s n)\<lparr>reference_count := reference_count (inode_of s n) + 1\<rparr>"
  shows "\<exists>s1 s2 s3 s4 x vs1 vs2. nbtrfs_rename env s (join [c]) (join [c2]) = Some (0, s1) \<and>
    nbtrfs_getattr s1 (join [c]) = Some (None, s2) \<and>
    nbtrfs_getattr s1 (join [c2]) = Some (Some (stat_of i (of_nat n)), s3) \<and>
    directory_list s1 ''/'' = Some (Some (us @ vs1 @ x # vs2), s4) \<and> vs = vs1 @ vs2 \<and> entry_name x = Some c2 \<and> de_inode x = of_nat n \<and>
    sound s1 M \<and> card (free_set s1) = card (free_set s) \<and> inode_of s1 n = i \<and>
    (\<forall>m < M. inode_used s1 m = inode_used s m \<and> (m \<noteq> n \<longrightarrow> inode_of s1 m = inode_of s m)) \<and>
    (\<forall>c' l'. (path_hash c', l') \<in> set (v_names a) \<longrightarrow> path_hash c' \<noteq> path_hash c \<longrightarrow>
      dir_entry s1 (btree_root (sb_of s1)) c' (Some l') \<and> leaf_says s1 l' = leaf_says s l') \<and>
    (\<forall>b. used s b \<longrightarrow> btype (view s b) = BLOCK_TYPE_DATA \<longrightarrow> b \<noteq> first_block s r \<longrightarrow> used s1 b \<and> view s1 b = view s b)"
proof -
  note L = can_linkD [OF assms(1)] and S = can_linkD(1) [OF assms(1)]
  obtain y where y: "v_slots a = Suc y" using assms(2) by (cases "v_slots a") auto
  have cnt: "reference_count (v_inode a n) \<noteq> 0" using assms(4) modelsD(6) [OF S L(2)] by simp
  obtain s1 f F ps qs m vs1 x vs2 where s1: "nbtrfs_rename env s (join [c]) (join [c2]) = Some (0, s1)"
      "models s1 M r ((linked c2 n f F (a\<lparr>v_slots := y\<rparr>))\<lparr>v_free := insert (unat l) F, v_names := ps @ qs\<rparr>)"
      "set (ps @ qs) = insert (path_hash c2, f) (set (v_names a) - {(path_hash c, l)})"
      "dir_data s1 r m" "listing (view s1 (first_block s1 r)) m = us @ vs1 @ x # vs2" "vs = vs1 @ vs2" "entry_name x = Some c2" "de_inode x = of_nat n"
      "card (insert (unat l) F) = card (v_free a)" "frees {l} {first_block s r} s s1"
    by (rule nbtrfs_rename_step [OF assms(1) cnt y assms(3), of env])
  let ?b = "(linked c2 n f F (a\<lparr>v_slots := y\<rparr>))\<lparr>v_free := insert (unat l) F, v_names := ps @ qs\<rparr>"
  note S1 = s1(2)
  have i: "i = v_inode ?b n" using modelsD(6) [OF S L(2)] assms(5) by (simp add: linked_def)
  have sel: "v_names ?b = ps @ qs" "v_leaf ?b = (v_leaf a)(f := (of_nat n, mode (v_inode a n) AND S_IFMT))"
      "v_free ?b = insert (unat l) F" "v_taken ?b = v_taken a" "m \<noteq> n \<Longrightarrow> v_inode ?b m = v_inode a m" for m
    by (simp_all add: linked_def)
  have q2: "(path_hash c2, f) \<in> set (v_names ?b)" "v_leaf ?b f = (of_nat n, mode (v_inode a n) AND S_IFMT)" using s1(3) sel(1,2) by simp_all
  note F2 = models_file_at [OF S1 q2 L(10) L(2,4,6) assms(3)]
  have ii: "inode_of s1 n = i" using F2(2) i by simp
  obtain s3 where s3: "nbtrfs_getattr s1 (join [c2]) = Some (Some (stat_of i (of_nat n)), s3)"
    using nbtrfs_getattr_ok [OF F2(1)] unfolding ii by metis
  have hn: "path_hash c2 \<noteq> path_hash c" using L(8,9) by force
  have so: "sorted_wrt (<) (map fst (v_names a))" using modelsD(8) [OF S] by (simp add: flat_at_def)
  have uniq: "l' = l" if "(path_hash c, l') \<in> set (v_names a)" for l'
    using that L(8) so eq_key_imp_eq_value [of "v_names a"] by (auto simp: strict_sorted_iff)
  have new: "path_hash c \<notin> fst ` set (v_names ?b)" using s1(3) sel(1) uniq hn by auto
  obtain s2 where s2: "nbtrfs_getattr s1 (join [c]) = Some (None, s2)" by (rule models_getattr_missing [OF S1 L(5,7) new])
  have one: "direct_blocks (v_inode ?b r) ! 1 = 0" using L(3,11) sel(5) by metis
  obtain s4 where s4: "directory_list s1 ''/'' = Some (Some (us @ vs1 @ x # vs2), s4)"
    using models_listing [OF S1 s1(4) one] unfolding s1(5) by blast
  have N: "dir_entry s1 (btree_root (sb_of s1)) c' (Some l') \<and> leaf_says s1 l' = leaf_says s l'"
    if q: "(path_hash c', l') \<in> set (v_names a)" "path_hash c' \<noteq> path_hash c" for c' l'
  proof (rule names_stay [OF S S1 q(1) _ q2(1) _ sel(2)])
    show "path_hash c2 \<noteq> path_hash c'" using q(1) L(9) by force
    show "(path_hash c', l') \<in> set (v_names ?b)" using q s1(3) sel(1) by simp
  qed
  have V: "used s1 b \<and> view s1 b = view s b" if "used s b" "btype (view s b) = BLOCK_TYPE_DATA" "b \<noteq> first_block s r" for b
  proof -
    have "b \<noteq> l" using that(2) L(12) by (auto simp: block_types)
    then show ?thesis using freesD(2,4) [OF s1(10) that(1)] that by simp
  qed
  have I: "inode_used s1 j = inode_used s j" "j \<noteq> n \<Longrightarrow> inode_of s1 j = inode_of s j" if "j < M" for j
    using modelsD(6,7) [OF S1 that] modelsD(6,7) [OF S that] sel(4,5) by simp_all
  have "card (free_set s1) = card (free_set s)" using s1(9) modelsD(5) [OF S1] modelsD(5) [OF S] sel(3) by simp
  then show ?thesis using s1(1,6,7,8) s2 s3 s4 modelsD(2) [OF S1] ii I N V by (intro exI conjI) blast+
qed

theorem nbtrfs_rename_moves_name_witness:
  "\<exists>s a l e s1 i s2 s3. can_link s 22 0 a ''g'' 1 l [] e [] ''h'' \<and> nbtrfs_rename demo_env s ''/g'' ''/h'' = Some (0, s1) \<and>
    nbtrfs_getattr s1 ''/g'' = Some (None, s2) \<and> nbtrfs_getattr s1 ''/h'' = Some (Some (stat_of i 1), s3) \<and> reference_count i = 2"
proof -
  obtain s a l e where G: "can_link s 22 0 a ''g'' 1 l [] e [] ''h''" "v_slots a = 7" "reference_count (inode_of s 1) = 1" by (rule demo_can_link)
  have len: "length (join [''h'']) < PATH_MAX" by (simp add: PATH_MAX_def)
  let ?i = "(inode_of s 1)\<lparr>reference_count := reference_count (inode_of s 1) + 1\<rparr>"
  obtain s1 s2 s3 where "nbtrfs_rename demo_env s ''/g'' ''/h'' = Some (0, s1)" "nbtrfs_getattr s1 ''/g'' = Some (None, s2)"
      "nbtrfs_getattr s1 ''/h'' = Some (Some (stat_of ?i 1), s3)"
    using nbtrfs_rename_moves_name [OF G(1) _ len _ refl, of demo_env] G(2,3) by auto
  moreover have "reference_count ?i = 2" using G(3) by simp
  ultimately show ?thesis using G(1) by blast
qed

end
