(* ===== verification/Recovery.thy ===== *)
theory Recovery
  imports Programs
begin

text \<open>
  Recovery after the process was killed: the pass over the journal at the start of the program replays an entry
  that was still to be synced. Worked out for the change of a mode.
\<close>

section \<open>The pass up to an entry\<close>

lemma journal_pass_prefix:
  assumes "ring_ok s" and "\<And>j. j < r \<Longrightarrow> settled (view s (slot s ((unat (journal_head (sb_of s)) + j) mod ring_size (sb_of s))))"
  shows "\<exists>s'. (\<forall>f k. journal_pass f (r + k) s (sb_of s) = journal_pass f k s' (sb_of s')) \<and> ring_ok s' \<and> st.keeps s s' \<and>
    sb_of s' = (next_head ^^ r) (sb_of s) \<and> (\<forall>b. b \<noteq> 0 \<longrightarrow> view s' b = view s b)"
  using assms
proof (induction r arbitrary: s)
  case 0
  have "store_ok s" using 0 by (simp add: ring_ok_def super_ok_def)
  then have "st.keeps s s" by (rule st.silentD(1) [OF st.silent_refl])
  with 0 show ?case by auto
next
  case (Suc r)
  let ?N = "ring_size (sb_of s)" and ?h = "unat (journal_head (sb_of s))"
  have pos: "0 < ?N" and hd: "?h < ?N" using Suc.prems(1) by (simp_all add: ring_ok_def)
  have se: "settled (view s (head_block s))" using Suc.prems(2) [of 0] hd by simp
  obtain s1 where s1: "ring_ok s1" "sb_of s1 = next_head (sb_of s)" "st.keeps s s1"
      "view s1 = (view s)(head_block s := marked_at s, 0 := sb_store (next_head (sb_of s)) (view s 0))"
      "\<forall>f r. journal_pass f (Suc r) s (sb_of s) = journal_pass f r s1 (sb_of s1)"
    by (rule journal_pass_step [OF Suc.prems(1), of r]) (use se in blast)
  have v1: "view s1 b = view s b" if "b \<noteq> 0" for b using se that by (simp add: s1(4) as_synced_def)
  have "settled (view s1 (slot s1 ((unat (journal_head (sb_of s1)) + j) mod ring_size (sb_of s1))))" if "j < r" for j
  proof -
    have "((?h + 1) mod ?N + j) mod ?N = (?h + Suc j) mod ?N" by (simp add: mod_simps)
    moreover have "slot s ((?h + Suc j) mod ?N) \<noteq> 0" by (rule ring_slot(3) [OF Suc.prems(1)]) (use pos in simp)
    ultimately show ?thesis using Suc.prems(2) [of "Suc j"] that v1 by (simp add: s1(2) next_head_mod [OF pos hd])
  qed
  then obtain s2 where s2: "\<forall>f k. journal_pass f (r + k) s1 (sb_of s1) = journal_pass f k s2 (sb_of s2)" "ring_ok s2" "st.keeps s1 s2"
      "sb_of s2 = (next_head ^^ r) (sb_of s1)" "\<forall>b. b \<noteq> 0 \<longrightarrow> view s2 b = view s1 b"
    using Suc.IH [OF s1(1)] by blast
  have "(next_head ^^ Suc r) (sb_of s) = (next_head ^^ r) (sb_of s1)" unfolding s1(2) by (simp add: funpow_swap1)
  with s1(5) s2 v1 st.keeps_trans [OF s1(3) s2(3)] show ?case by (intro exI [of _ s2]) (simp del: journal_pass.simps)
qed

section \<open>Replaying a change of mode\<close>

definition chmod_pending :: "block \<Rightarrow> u64 \<Rightarrow> string \<Rightarrow> u32 \<Rightarrow> bool" where
  "chmod_pending b jb path md \<longleftrightarrow> btype b = BLOCK_TYPE_JOURNAL \<and> je_type b = CHMOD \<and> je_block b = jb \<and> \<not> je_synced b \<and>
     load32 b JE_MODE = md \<and> read_str PATH_MAX b JE_PATH = Some path"

lemma replay_chmod:
  assumes R: "ring_ok s" and P: "chmod_pending (view s (head_block s)) (head_block s) (join cs) md" and f: "file_at s cs ino"
    and num: "inode_number (inode_of s ino) = of_nat ino"
  obtains s' where "journal_pass (sync_entry J env) (Suc 0) s (sb_of s) = Some s'" and "nodes_kept s s'" and "inode_ok s' ino"
    and "inode_of s' ino = (inode_of s ino)\<lparr>mode := md\<rparr>" and "settled (view s' (head_block s))"
    and "\<And>b. b \<noteq> 0 \<Longrightarrow> b \<noteq> head_block s \<Longrightarrow> b \<noteq> inode_home s ino \<Longrightarrow> view s' b = view s b" and "sb_of s' = next_head (sb_of s)"
    and "disk_image s' (unat (inode_home s ino)) = view s' (inode_home s ino)"
proof -
  let ?jb = "head_block s" and ?h = "inode_home s ino"
  have sok: "super_ok s" and ok: "store_ok s" and hd: "unat (journal_head (sb_of s)) < ring_size (sb_of s)"
    using R by (simp_all add: ring_ok_def super_ok_def)
  note H = ring_slot [OF R hd, simplified]
  have io: "inode_ok s ino" using f by (simp add: file_at_def)
  have hj: "?h \<noteq> ?jb" and h0: "?h \<noteq> 0" using io H(4) inode_home_not_super [OF io] by (auto simp: inode_ok_def block_types)
  obtain p s1 where s1: "get_block s 0 ?jb = Some (p, s1)" "deref s1 p = Some (view s ?jb)" "st.silent s s1" "points s1 p ?jb"
    by (rule st.get_load [OF ok H(2)])
  note I1 = inode_silent [OF s1(3)] and v1 = st.silentD(2) [OF s1(3)]
  have f1: "file_at s1 cs ino" by (rule file_at_kept [OF f nodes_kept_silent [OF s1(3)] I1(6) [OF io]])
  obtain s2 where s2: "item_search s1 (join cs) = Some (\<lparr>ip_inode = of_nat ino, ip_btree = 0\<rparr>, s2)" "st.silent s1 s2"
    by (rule file_at_search [OF f1])
  have hm: "inode_home s1 ino = ?h" by (rule nodes_kept_home [OF nodes_kept_silent [OF s1(3)]])
  obtain s3 where s3: "metadata_chmod s1 (join cs) md True = Some (0, s3)" "nodes_kept s1 s3" "inode_ok s3 ino"
      "inode_of s3 ino = (inode_of s1 ino)\<lparr>mode := md\<rparr>" "\<And>b. b \<noteq> inode_home s1 ino \<Longrightarrow> view s3 b = view s1 b"
      "st.keeps s1 s3" "disk_image s3 (unat (inode_home s1 ino)) = view s3 (inode_home s1 ino)"
    by (rule metadata_chmod_ok [OF s2, of ino md True]) (use I1(5) I1(6) [OF io] num that in auto)
  have vj: "view s3 ?jb = view s ?jb" using s3(5) hj v1 by (simp add: hm)
  have p3: "points s3 p ?jb" by (rule st.keepsD(4) [OF s3(6) s1(4)])
  obtain a s4 where s4: "modify s3 p (\<lambda>x. Some (set_je_synced True x)) = Some a" "locked_write a ?jb p = Some s4"
      "st.updates s3 s4 ?jb (set_je_synced True (view s3 ?jb))" "deref a p = Some (set_je_synced True (view s3 ?jb))"
    by (rule modify_through [OF st.keepsD(1) [OF s3(6)] p3, of "set_je_synced True"])
  note U4 = st.updatesD [OF s4(3)] and E = P [unfolded chmod_pending_def]
  have mk: "mark_entry_synced s3 p = Some s4" using s4(1,2,4) E by (simp add: mark_entry_synced_def vj)
  have entry: "sync_entry J env s1 p = Some s4" using s1(2) E s3(1) mk by (simp add: sync_entry_def block_types layout)
  have k4: "st.keeps s s4" by (rule st.keeps_trans [OF st.keeps_trans [OF st.silentD(1) [OF s1(3)] s3(6)] U4(1)])
  have v4: "view s4 b = view s b" if "b \<noteq> ?jb" "b \<noteq> ?h" for b using that s3(5) v1 by (simp add: U4(2) hm)
  have v40: "view s4 0 = view s 0" using v4 H(3) h0 by simp
  have sb4: "sb_of s4 = sb_of s" by (simp add: sb_of_def v40)
  have "super_ok s4" using sok st.keepsD(1,2) [OF k4] v40 by (simp add: super_ok_def)
  then obtain s5 where s5: "superblock_write s4 (next_head (sb_of s)) True = Some (0, s5)"
      "st.updates s4 s5 0 (sb_store (next_head (sb_of s)) (view s4 0))" "super_ok s5" "sb_of s5 = next_head (sb_of s)"
    by (rule head_write [of s4 "next_head (sb_of s)"]) simp_all
  note U5 = st.updatesD [OF s5(2)]
  have v5: "view s5 b = view s4 b" if "b \<noteq> 0" for b using that by (simp add: U5(2))
  have k5: "st.keeps s s5" by (rule st.keeps_trans [OF k4 U5(1)])
  have nk: "nodes_kept s s5"
  proof -
    have "view s5 b = view s b" if "is_node s b" for b
    proof -
      have "b \<noteq> 0" "b \<noteq> ?jb" "b \<noteq> ?h" using that sok H(4) io by (auto simp: is_node_def super_ok_def inode_ok_def block_types)
      then show ?thesis using v5 v4 by simp
    qed
    moreover have "btype (view s5 0) = btype (view s 0)" using s5(3) sok by (simp add: super_ok_def)
    moreover have "geometry s5 = geometry s" by (simp add: geometry_def s5(4))
    ultimately show ?thesis using st.keepsD(1,2) [OF k5] by (simp add: nodes_kept_def)
  qed
  have h5: "inode_home s5 ino = ?h" and h3: "inode_home s3 ino = ?h"
    using nodes_kept_home [OF nk] nodes_kept_home [OF s3(2), of ino] hm by simp_all
  have vh: "view s5 ?h = view s3 ?h" using v5 [OF h0] hj by (simp add: U4(2))
  have "inode_ok s5 ino" using s3(3) s5(3) st.keepsD(2) [OF k5] st.keepsD(2) [OF st.silentD(1) [OF s1(3)]] st.keepsD(2) [OF s3(6)]
    by (simp add: inode_ok_def super_ok_def h5 h3 vh)
  moreover have "inode_of s5 ino = (inode_of s ino)\<lparr>mode := md\<rparr>"
  proof -
    have "inode_of s5 ino = inode_of s3 ino" by (simp add: inode_of_def h5 h3 vh)
    then show ?thesis using s3(4) I1(5) by simp
  qed
  moreover have "settled (view s5 ?jb)" using v5 [OF H(3)] by (simp add: U4(2) settled_def)
  moreover have "disk_image s5 (unat ?h) = view s5 ?h"
  proof -
    have "unat ?h \<noteq> unat (0 :: u64)" "unat ?h \<noteq> unat ?jb" using h0 hj by (metis word_unat_eq_iff)+
    then show ?thesis using s3(7) vh by (simp add: U5(3) U4(3) hm)
  qed
  moreover have "journal_pass (sync_entry J env) (Suc 0) s (sb_of s) = Some s5"
    using s1(1,2) E entry s5(1) by (simp add: block_types layout)
  ultimately show thesis using nk v5 v4 s5(4) by (intro that [of s5]) simp_all
qed

text \<open>The whole pass, when only the entry in front of the head is still to be synced.\<close>

lemma recover_chmod:
  assumes R: "ring_ok s" and N: "N = ring_size (sb_of s)" and h: "h = unat (journal_head (sb_of s))"
    and S: "\<And>j. j < N - 1 \<Longrightarrow> settled (view s (slot s ((h + j) mod N)))" and l: "l = (h + (N - 1)) mod N"
    and P: "chmod_pending (view s (slot s l)) (slot s l) (join cs) md" and f: "file_at s cs ino" and num: "inode_number (inode_of s ino) = of_nat ino"
  obtains s' where "sync_journal env s = Some s'" and "file_at s' cs ino" and "inode_of s' ino = (inode_of s ino)\<lparr>mode := md\<rparr>"
    and "all_settled s'" and "disk_image s' (unat (inode_home s' ino)) = view s' (inode_home s' ino)"
proof -
  have pos: "0 < N" and hd: "h < N" and o: "store_ok s" "0 < nblocks s" "btype (view s 0) = BLOCK_TYPE_SUPER"
    using R by (simp_all add: ring_ok_def super_ok_def N h)
  have io: "inode_ok s ino" using f by (simp add: file_at_def)
  obtain s1 where s1: "superblock_read s = Some (Some (sb_of s), s1)" "st.silent s s1" by (rule superblock_read_valid [OF o])
  note v1 = st.silentD(2) [OF s1(2)] and k1 = st.silentD(1) [OF s1(2)] and I1 = inode_silent [OF s1(2)]
  have sb1: "sb_of s1 = sb_of s" by (simp add: sb_of_def v1)
  have R1: "ring_ok s1" using R st.keepsD(1,2) [OF k1] by (simp add: ring_ok_def super_ok_def v1 sb1)
  have S1: "settled (view s1 (slot s1 ((unat (journal_head (sb_of s1)) + j) mod ring_size (sb_of s1))))" if "j < N - 1" for j
    using S [OF that] by (simp add: sb1 v1 N h)
  obtain s2 where s2: "\<forall>f k. journal_pass f ((N - 1) + k) s1 (sb_of s1) = journal_pass f k s2 (sb_of s2)" "ring_ok s2" "st.keeps s1 s2"
      "sb_of s2 = (next_head ^^ (N - 1)) (sb_of s)" "\<forall>b. b \<noteq> 0 \<longrightarrow> view s2 b = view s b"
    using journal_pass_prefix [OF R1 S1] unfolding sb1 v1 by blast
  note Hr = head_round [of "sb_of s" "N - 1", folded N h, OF pos hd]
  have hb: "unat (journal_head (sb_of s2)) = l" using Hr(1) by (simp add: s2(4) l)
  have sb2: "sb_of s2 = (sb_of s)\<lparr>journal_head := journal_head (sb_of s2)\<rparr>" using Hr(3) by (simp add: s2(4))
  have js: "journal_start (sb_of s2) = journal_start (sb_of s)" by (subst sb2) simp
  have "journal_head (sb_of s2) = of_nat l" using arg_cong [OF hb, of "of_nat :: nat \<Rightarrow> u64"] by simp
  then have hs: "head_block s2 = slot s l" by (simp add: js)
  have lN: "l < N" using pos by (simp add: l)
  have slot0: "slot s x \<noteq> 0" if "x < N" for x using ring_slot(3) [OF R] that by (simp add: N)
  have nk2: "nodes_kept s s2"
  proof -
    have "geometry s2 = geometry s" unfolding geometry_def by (subst (1 2 3) sb2) simp
    moreover have "btype (view s2 0) = btype (view s 0)" using s2(2) o by (simp add: ring_ok_def super_ok_def)
    moreover have "view s2 b = view s b" if "is_node s b" for b using that o(3) s2(5) by (cases "b = 0") (auto simp: is_node_def block_types)
    ultimately show ?thesis using st.keepsD(1,2) [OF s2(3)] st.keepsD(2) [OF k1] by (simp add: nodes_kept_def)
  qed
  have h2: "inode_home s2 ino = inode_home s ino" by (rule nodes_kept_home [OF nk2])
  have vh: "view s2 (inode_home s ino) = view s (inode_home s ino)" using s2(5) inode_home_not_super [OF io] by simp
  have io2: "inode_ok s2 ino" using io s2(2) st.keepsD(2) [OF s2(3)] st.keepsD(2) [OF k1] by (simp add: inode_ok_def ring_ok_def super_ok_def h2 vh)
  have i2: "inode_of s2 ino = inode_of s ino" by (simp add: inode_of_def h2 vh)
  have f2: "file_at s2 cs ino" by (rule file_at_kept [OF f nk2 io2])
  have P2: "chmod_pending (view s2 (head_block s2)) (head_block s2) (join cs) md" using P s2(5) slot0 [OF lN] by (simp add: hs)
  obtain s3 where s3: "journal_pass (sync_entry (initialize_journal_entry env) env) (Suc 0) s2 (sb_of s2) = Some s3" "nodes_kept s2 s3" "inode_ok s3 ino"
      "inode_of s3 ino = (inode_of s2 ino)\<lparr>mode := md\<rparr>" "settled (view s3 (head_block s2))"
      "\<And>b. b \<noteq> 0 \<Longrightarrow> b \<noteq> head_block s2 \<Longrightarrow> b \<noteq> inode_home s2 ino \<Longrightarrow> view s3 b = view s2 b" "sb_of s3 = next_head (sb_of s2)"
      "disk_image s3 (unat (inode_home s2 ino)) = view s3 (inode_home s2 ino)"
    by (rule replay_chmod [OF s2(2) P2 f2, of "initialize_journal_entry env" env]) (use num i2 in simp_all)
  have N1: "(N - 1) + Suc 0 = N" using pos by simp
  have "sync_journal env s = Some s3"
    using s1(1) s3(1) s2(1) [rule_format, of _ "Suc 0", unfolded N1 sb1] by (simp add: sync_journal_def N ring_size_def del: journal_pass.simps)
  moreover have "all_settled s3"
    unfolding all_settled_def
  proof (intro allI impI)
    fix x assume "x < ring_size (sb_of s3)"
    then have x: "x < N" using Hr(2) by (simp add: s3(7) s2(4))
    have sl: "slot s3 x = slot s x" by (simp add: s3(7) js)
    show "settled (view s3 (slot s3 x))"
    proof (cases "x = l")
      case True
      then show ?thesis unfolding sl using s3(5) by (simp add: hs)
    next
      case False
      define j where "j = (x + (N - h)) mod N"
      have "(h + j) mod N = (h + (x + (N - h))) mod N" by (simp add: j_def mod_simps)
      also have "\<dots> = x" using x hd by simp
      finally have j: "(h + j) mod N = x" .
      have "j < N" using pos by (simp add: j_def)
      moreover have "j \<noteq> N - 1" using False j by (auto simp: l)
      ultimately have "settled (view s (slot s x))" using S [of j] j by simp
      moreover have "slot s x \<noteq> slot s l" using ring_slot_inj [OF R, of x l] x lN False by (simp add: N)
      moreover have "slot s x \<noteq> inode_home s ino" using ring_slot(4) [OF R, of x] x io by (auto simp: N inode_ok_def block_types)
      ultimately show ?thesis unfolding sl using s3(6) s2(5) slot0 [OF x] by (simp add: hs h2)
    qed
  qed
  moreover have "inode_home s3 ino = inode_home s2 ino" by (rule nodes_kept_home [OF s3(2)])
  ultimately show thesis using file_at_kept [OF f2 s3(2,3)] s3(4,8) i2 by (intro that [of s3]) simp_all
qed

section \<open>Killing the process\<close>

text \<open>
  What can be in the file of the disk when the process is killed after an operation on inode \<open>n\<close> took \<open>s\<close> to \<open>s1\<close>:
  every store made into the mapping, and of the table block of the inode, which waits in the cache until something
  writes it, the old or the new version. The file is mapped with \<^verbatim>\<open>MAP_SHARED\<close>, so stores into the mapping belong to the
  file when the process dies. Nothing is said about a loss of power: \<^verbatim>\<open>src/disk.c\<close> never calls \<^verbatim>\<open>msync\<close>.
\<close>

definition killed :: "fs \<Rightarrow> fs \<Rightarrow> nat \<Rightarrow> DiskInterface \<Rightarrow> bool" where
  "killed s s1 n d \<longleftrightarrow> total_blocks d = total_blocks (disk s1) \<and>
     (\<forall>b. b \<noteq> unat (inode_home s n) \<longrightarrow> disk_base d b = disk_base (disk s1) b) \<and>
     disk_base d (unat (inode_home s n)) \<in> {view s (inode_home s n), view s1 (inode_home s n)}"

definition flushed :: "fs \<Rightarrow> bool" where
  "flushed s \<longleftrightarrow> (\<forall>b. disk_base (disk s) (unat b) = view s b)"

lemma chmod_crash:
  assumes R: "ring_ok s" and S: "all_settled s" and fl: "flushed s" and c: "\<not> cache_disabled s" and f: "file_at s cs ino"
    and num: "inode_number (inode_of s ino) = of_nat ino" and j: "journal_free s" and nul: "CHR 0x00 \<notin> set (join cs)"
    and k: "nblocks s \<le> k" "k < 2 ^ 31"
  obtains s1 where "nbtrfs_chmod env s (join cs) md = Some (0, s1)" and "killed s s1 ino (disk s1)" and "nblocks s1 = nblocks s"
    and "\<And>d env'. killed s s1 ino d \<Longrightarrow> \<exists>s2. sync_journal env' (mounted d (new_cache k)) = Some s2 \<and> file_at s2 cs ino \<and>
      inode_of s2 ino = (inode_of s ino)\<lparr>mode := md\<rparr> \<and> all_settled s2 \<and> disk_image s2 (unat (inode_home s2 ino)) = view s2 (inode_home s2 ino)"
proof -
  let ?jb = "head_block s" and ?H = "inode_home s ino" and ?N = "ring_size (sb_of s)" and ?h = "unat (journal_head (sb_of s))"
  have io: "inode_ok s ino" using f by (simp add: file_at_def)
  have ok: "store_ok s" "0 < nblocks s" "btype (view s 0) = BLOCK_TYPE_SUPER" and pos: "0 < ?N" and hd: "?h < ?N"
    using R by (simp_all add: ring_ok_def super_ok_def)
  note H = ring_slot [OF R hd, simplified]
  have hj: "?H \<noteq> ?jb" and h0: "?H \<noteq> 0" using io H(4) inode_home_not_super [OF io] by (auto simp: inode_ok_def block_types)
  obtain s1 where s1: "nbtrfs_chmod env s (join cs) md = Some (0, s1)" "inode_of s1 ino = (inode_of s ino)\<lparr>mode := md\<rparr>"
      "je_type (disk_image s1 (unat ?jb)) = CHMOD" "je_block (disk_image s1 (unat ?jb)) = ?jb" "load32 (disk_image s1 (unat ?jb)) JE_MODE = md"
      "read_str PATH_MAX (disk_image s1 (unat ?jb)) JE_PATH = Some (join cs)" "\<not> je_synced (disk_image s1 (unat ?jb))"
      "btype (disk_image s1 (unat ?jb)) = BLOCK_TYPE_JOURNAL" "disk_image s1 0 = sb_store (next_head (sb_of s)) (view s 0)"
      "\<And>b. b \<noteq> 0 \<Longrightarrow> b \<noteq> unat ?jb \<Longrightarrow> b \<noteq> unat ?H \<Longrightarrow> disk_image s1 b = disk_image s b"
      "\<not> cache_disabled s \<Longrightarrow> disk_image s1 (unat ?H) = disk_image s (unat ?H)" "st.keeps s s1" "inode_home s1 ino = ?H"
      "btype (view s1 ?H) = BLOCK_TYPE_INODE"
    by (rule nbtrfs_chmod_ok [OF f num j nul, of env md]) (rule that)
  have n1: "nblocks s1 = nblocks s" by (rule st.keepsD(2) [OF s1(12)])
  have le: "nblocks s \<le> 2 ^ 19" using ok(1) by (simp add: store_ok_def addressable_def)
  have "killed s s1 ino (disk s1)" using s1(11) c fl by (simp add: killed_def flushed_def disk_image_def)
  moreover have "\<exists>s2. sync_journal env' (mounted d (new_cache k)) = Some s2 \<and> file_at s2 cs ino \<and>
      inode_of s2 ino = (inode_of s ino)\<lparr>mode := md\<rparr> \<and> all_settled s2 \<and> disk_image s2 (unat (inode_home s2 ino)) = view s2 (inode_home s2 ino)"
    if d: "killed s s1 ino d" for d env'
  proof -
    let ?m = "mounted d (new_cache k)"
    have nd: "unat (total_blocks d) = nblocks s" using d n1 by (simp add: killed_def nblocks_def)
    have M: "store_ok ?m" "view ?m b = disk_base d (unat b)" for b using mounted_ok [of d k] nd k le by simp_all
    have nm: "nblocks ?m = nblocks s" using nd by (simp add: mounted_def nblocks_def)
    have vm: "view ?m b = disk_image s1 (unat b)" if "b \<noteq> ?H" for b
    proof -
      have "unat b \<noteq> unat ?H" using that by (metis word_unat_eq_iff)
      then show ?thesis using d by (simp add: M(2) killed_def disk_image_def)
    qed
    have same: "view ?m b = view s b" if "b \<noteq> 0" "b \<noteq> ?jb" "b \<noteq> ?H" for b
    proof -
      have "unat b \<noteq> 0" "unat b \<noteq> unat ?jb" "unat b \<noteq> unat ?H" using that by (metis unat_0 word_unat_eq_iff)+
      then show ?thesis using vm [OF that(3)] s1(10) fl by (simp add: flushed_def disk_image_def)
    qed
    have v0: "view ?m 0 = sb_store (next_head (sb_of s)) (view s 0)" using vm [of 0] h0 s1(9) by simp
    have sbm: "sb_of ?m = next_head (sb_of s)" by (simp add: sb_of_def [of ?m] v0 sb_load_store)
    have t0: "btype (view ?m 0) = BLOCK_TYPE_SUPER" using ok(3) by (simp add: v0 sb_store_def Let_def layout)
    have vh: "view ?m ?H = view s ?H \<or> view ?m ?H = view s1 ?H" using d by (simp add: killed_def M(2))
    have th: "btype (view ?m ?H) = BLOCK_TYPE_INODE" using vh s1(14) io by (auto simp: inode_ok_def)
    have nk: "nodes_kept s ?m"
    proof -
      have "view ?m b = view s b" if "is_node s b" for b
        using that ok(3) H(4) io by (intro same) (auto simp: is_node_def inode_ok_def block_types)
      then show ?thesis using M(1) nm t0 ok(3) by (simp add: nodes_kept_def geometry_def sbm)
    qed
    have hm: "inode_home ?m ino = ?H" by (rule nodes_kept_home [OF nk])
    have iom: "inode_ok ?m ino" using io M(1) nm t0 th by (simp add: inode_ok_def hm)
    have im: "inode_of ?m ino \<in> {inode_of s ino, (inode_of s ino)\<lparr>mode := md\<rparr>}"
      using vh s1(2) by (auto simp: inode_of_def hm s1(13))
    have sl: "slot ?m x = slot s x" for x by (simp add: sbm)
    have vj: "view ?m ?jb = disk_image s1 (unat ?jb)" using vm hj by metis
    have P: "chmod_pending (view ?m ?jb) ?jb (join cs) md" using s1(3-8) by (simp add: chmod_pending_def vj)
    have other: "view ?m (slot s x) = view s (slot s x) \<and> settled (view s (slot s x))" if "x < ?N" "x \<noteq> ?h" for x
    proof -
      note X = ring_slot [OF R that(1)]
      have "slot s x \<noteq> ?jb" using ring_slot_inj [OF R that(1) hd] that(2) by simp
      moreover have "slot s x \<noteq> ?H" using X(4) io by (auto simp: inode_ok_def block_types)
      ultimately show ?thesis using same X(3) S that(1) by (simp add: all_settled_def)
    qed
    have "super_ok ?m" using M(1) nm ok(2) t0 by (simp add: super_ok_def)
    moreover have "btype (view ?m (slot ?m x)) = BLOCK_TYPE_JOURNAL \<and> (settled (view ?m (slot ?m x)) \<or> je_block (view ?m (slot ?m x)) = slot ?m x)"
      if "x < ?N" for x
      using other [OF that] ring_slot(4) [OF R that] P unfolding sl by (cases "x = ?h") (auto simp: chmod_pending_def)
    ultimately have Rm: "ring_ok ?m" using R pos nm next_head_mod [OF pos hd] by (simp add: ring_ok_def sbm)
    have hm': "unat (journal_head (sb_of ?m)) = (?h + 1) mod ?N" using next_head_mod [OF pos hd] by (simp add: sbm)
    have last: "((?h + 1) mod ?N + (?N - 1)) mod ?N = ?h"
    proof -
      have "((?h + 1) mod ?N + (?N - 1)) mod ?N = (?h + 1 + (?N - 1)) mod ?N" by (rule mod_add_left_eq)
      also have "?h + 1 + (?N - 1) = ?h + ?N" using pos by simp
      finally show ?thesis using hd by simp
    qed
    have notlast: "((?h + 1) mod ?N + x) mod ?N \<noteq> ?h" if "x < ?N - 1" for x
    proof
      assume a: "((?h + 1) mod ?N + x) mod ?N = ?h"
      have "(?h + 1 + x) mod ?N = ?h" using a by (simp add: mod_simps)
      then have "(?h + (1 + x)) mod ?N = ?h mod ?N" using hd by (simp add: add.assoc)
      then have "?N dvd 1 + x" using mod_eq_dvd_iff_nat [of ?h "?h + (1 + x)" ?N] by simp
      then show False using that by (auto dest: dvd_imp_le)
    qed
    obtain s2 where s2: "sync_journal env' ?m = Some s2" "file_at s2 cs ino" "inode_of s2 ino = (inode_of ?m ino)\<lparr>mode := md\<rparr>" "all_settled s2"
        "disk_image s2 (unat (inode_home s2 ino)) = view s2 (inode_home s2 ino)"
    proof (rule recover_chmod [OF Rm refl refl _ refl, of cs md ino env'])
      show "settled (view ?m (slot ?m ((unat (journal_head (sb_of ?m)) + x) mod ring_size (sb_of ?m))))" if "x < ring_size (sb_of ?m) - 1" for x
        using that other [OF _ notlast [of x]] pos unfolding sl hm' by (simp add: sbm)
      show "chmod_pending (view ?m (slot ?m ((unat (journal_head (sb_of ?m)) + (ring_size (sb_of ?m) - 1)) mod ring_size (sb_of ?m))))
          (slot ?m ((unat (journal_head (sb_of ?m)) + (ring_size (sb_of ?m) - 1)) mod ring_size (sb_of ?m))) (join cs) md"
        using P last unfolding sl hm' by (simp add: sbm)
      show "file_at ?m cs ino" by (rule file_at_kept [OF f nk iom])
      show "inode_number (inode_of ?m ino) = of_nat ino" using im num by auto
    qed (rule that)
    moreover have "(inode_of ?m ino)\<lparr>mode := md\<rparr> = (inode_of s ino)\<lparr>mode := md\<rparr>" using im by auto
    ultimately show ?thesis by auto
  qed
  ultimately show thesis using s1(1) n1 by (intro that)
qed

end
