(* ===== verification/Crashes.thy ===== *)
theory Crashes
  imports Recovery Examples
begin

text \<open>
  A change of a mode survives the death of the process, from the callback \<open>nbtrfs_chmod\<close> to the next start of the
  file system.
\<close>

section \<open>A volume with no pending entry\<close>

definition calm_disk :: DiskInterface where
  "calm_disk = demo_disk\<lparr>disk_base := (disk_base demo_disk)(9 := demo_entry 9 CHMOD True)\<rparr>"

definition calm :: fs where
  "calm = mounted calm_disk (new_cache 512)"

lemma calm_view: "view calm b = (if b = 9 then demo_entry 9 CHMOD True else view demo b)"
proof -
  have "view calm b = disk_base calm_disk (unat b)"
    unfolding calm_def by (rule mounted_ok(3)) (simp_all add: calm_disk_def demo_disk_def)
  moreover have "unat b = 9 \<longleftrightarrow> b = 9" using word_unat_eq_iff [of b 9] by simp
  ultimately show ?thesis by (simp add: calm_disk_def demo_view)
qed

lemma calm_state: "store_ok calm" "nblocks calm = 300" "\<not> cache_disabled calm" "disk calm = calm_disk"
proof -
  show "store_ok calm" unfolding calm_def by (rule mounted_ok) (simp_all add: calm_disk_def demo_disk_def)
  show "nblocks calm = 300" "\<not> cache_disabled calm" "disk calm = calm_disk"
    by (simp_all add: calm_def mounted_def nblocks_def calm_disk_def demo_disk_def)
qed

lemma calm_sb: "sb_of calm = demo_sb"
  using demo_sb_of by (simp add: sb_of_def calm_view)

lemma calm_flushed: "flushed calm"
proof -
  have "view calm b = disk_base calm_disk (unat b)" for b
    unfolding calm_def by (rule mounted_ok(3)) (simp_all add: calm_disk_def demo_disk_def)
  then show ?thesis by (simp add: flushed_def calm_state)
qed

lemma calm_kept: "nodes_kept demo calm"
  using calm_state demo_journal demo_ok
  by (auto simp: nodes_kept_def calm_view is_node_def geometry_def calm_sb demo_sb_of demo_entry_fields block_types)

lemma calm_inode: "inode_ok calm 1" "inode_of calm 1 = demo_file"
proof -
  have h: "inode_home demo 1 = 3" "inode_home calm 1 = 3"
    using demo_inode_table by (simp_all add: inode_home_def demo_sb_of calm_sb per_page)
  show "inode_ok calm 1" using demo_inode_ok [of 1] calm_state by (simp add: inode_ok_def h [simplified] calm_view)
  show "inode_of calm 1 = demo_file" using demo_inode_of by (simp add: inode_of_def h [simplified] calm_view)
qed

lemma calm_file_at: "file_at calm [''f''] 1"
  by (rule file_at_kept [OF demo_file_at calm_kept calm_inode(1)])

lemma calm_ring: "ring_ok calm" "all_settled calm" "journal_free calm"
proof -
  have js: "journal_start demo_sb = 8" "journal_head demo_sb = 0" by (simp_all add: demo_sb_def)
  have v: "view calm 8 = demo_entry 8 CHMOD True" "view calm 9 = demo_entry 9 CHMOD True"
    by (simp_all add: calm_view demo_journal)
  have "super_ok calm" using demo_rooted calm_state by (simp add: rooted_def super_ok_def calm_view)
  moreover have s: "btype (view calm (8 + of_nat h)) = BLOCK_TYPE_JOURNAL \<and> settled (view calm (8 + of_nat h))" if "h < 2" for h
    using that by (auto simp: less_2_cases_iff v demo_entry_def settled_def)
  ultimately show "ring_ok calm" by (simp add: ring_ok_def calm_sb demo_journal_size js calm_state)
  show "all_settled calm" using s by (simp add: all_settled_def calm_sb demo_journal_size js)
  show "journal_free calm" by (simp add: journal_free_def open_slot_def calm_sb js v demo_entry_fields calm_state)
qed

section \<open>The change of mode\<close>

text \<open>
  C5. A change of a mode survives the death of the process (\<^verbatim>\<open>kill -9\<close>): when \<open>nbtrfs_chmod\<close> has returned 0 on a
  volume whose blocks are all in the mapped image and whose journal has no pending entry and takes one, the process may be killed, whether
  or not the cache has written the table block of the inode. Each image that can be left is one on which
  the next start of the file system replays the entry: the attributes of the path are the old ones with the new
  mode, the new mode is in the image, and no journal entry is left to sync. The host has to stay up: stores into the
  mapping are in the file once they are made, but nothing in the code forces them to the medium.
\<close>

theorem chmod_survives_kill:
  assumes "ring_ok s" and "all_settled s" and "flushed s" and "\<not> cache_disabled s" and "file_at s cs ino"
    and "inode_number (inode_of s ino) = of_nat ino" and "journal_free s" and "CHR 0x00 \<notin> set (join cs)"
    and "nblocks s \<le> 16384" and "nblocks s = bytes div BLOCK_SIZE" and "unat physical_memory < 2 ^ 61"
  shows "\<exists>s1. nbtrfs_chmod env s (join cs) md = Some (0, s1) \<and> killed s s1 ino (disk s1) \<and>
    (\<forall>d. killed s s1 ino d \<longrightarrow>
      (\<exists>s2 s3. nbtrfs_start env' (files(f := Image (disk_base d) bytes)) (args @ [f]) physical_memory = Some s2 \<and>
        nbtrfs_getattr s2 (join cs) = Some (Some (stat_of ((inode_of s ino)\<lparr>mode := md\<rparr>) (of_nat ino)), s3) \<and>
        inode_load (disk_image s2 (unat (inode_home s2 ino))) (ino mod inode_per_page) = (inode_of s ino)\<lparr>mode := md\<rparr> \<and>
        all_settled s2))"
proof -
  let ?k = "unat (alloc_cache_size physical_memory)"
  obtain s1 where s1: "nbtrfs_chmod env s (join cs) md = Some (0, s1)" "killed s s1 ino (disk s1)" "nblocks s1 = nblocks s"
      "\<And>d env'. killed s s1 ino d \<Longrightarrow> \<exists>s2. sync_journal env' (mounted d (new_cache ?k)) = Some s2 \<and> file_at s2 cs ino \<and>
        inode_of s2 ino = (inode_of s ino)\<lparr>mode := md\<rparr> \<and> all_settled s2 \<and> disk_image s2 (unat (inode_home s2 ino)) = view s2 (inode_home s2 ino)"
    by (rule chmod_crash [OF assms(1-8) le_trans [OF order_refl new_cache_room(1) [OF assms(9,11)]] new_cache_room(2) [OF assms(9,11)], of env md])
      (rule that)
  have "\<exists>s2 s3. nbtrfs_start env' (files(f := Image (disk_base d) bytes)) (args @ [f]) physical_memory = Some s2 \<and>
        nbtrfs_getattr s2 (join cs) = Some (Some (stat_of ((inode_of s ino)\<lparr>mode := md\<rparr>) (of_nat ino)), s3) \<and>
        inode_load (disk_image s2 (unat (inode_home s2 ino))) (ino mod inode_per_page) = (inode_of s ino)\<lparr>mode := md\<rparr> \<and> all_settled s2"
    if d: "killed s s1 ino d" for d
  proof -
    obtain s2 where s2: "sync_journal env' (mounted d (new_cache ?k)) = Some s2" "file_at s2 cs ino"
        "inode_of s2 ino = (inode_of s ino)\<lparr>mode := md\<rparr>" "all_settled s2" "disk_image s2 (unat (inode_home s2 ino)) = view s2 (inode_home s2 ino)"
      using s1(4) [OF d] by blast
    have "unat (total_blocks d) = bytes div BLOCK_SIZE" using d s1(3) assms(10) by (simp add: killed_def nblocks_def)
    then have "nbtrfs_start env' (files(f := Image (disk_base d) bytes)) (args @ [f]) physical_memory = Some s2"
      using start_mounts [of "args @ [f]" "files(f := Image (disk_base d) bytes)" d bytes env' physical_memory] s2(1) by simp
    moreover obtain s3 where "nbtrfs_getattr s2 (join cs) = Some (Some (stat_of (inode_of s2 ino) (of_nat ino)), s3)"
      by (rule nbtrfs_getattr_ok [OF s2(2)])
    moreover have "inode_load (disk_image s2 (unat (inode_home s2 ino))) (ino mod inode_per_page) = inode_of s2 ino"
      unfolding inode_of_def s2(5) ..
    ultimately show ?thesis using s2(4) unfolding s2(3) by blast
  qed
  with s1(1,2) show ?thesis by blast
qed

theorem chmod_survives_kill_witness:
  "\<exists>s1. nbtrfs_chmod demo_env calm ''/f'' 0x81C0 = Some (0, s1) \<and>
    (\<forall>d. killed calm s1 1 d \<longrightarrow>
      (\<exists>s2 s3. nbtrfs_start demo_env ((\<lambda>_. Absent)(''img'' := Image (disk_base d) (300 * 4096))) ([''fuse''] @ [''img'']) (2 ^ 33) = Some s2 \<and>
        nbtrfs_getattr s2 ''/f'' = Some (Some (stat_of (demo_file\<lparr>mode := 0x81C0\<rparr>) 1), s3)))"
proof -
  have "unat (2 ^ 33 :: u64) < 2 ^ 61" by simp
  moreover have "inode_number (inode_of calm 1) = of_nat 1" unfolding calm_inode(2) by (simp add: demo_file_def)
  ultimately show ?thesis
    using chmod_survives_kill [OF calm_ring(1,2) calm_flushed calm_state(3) calm_file_at _ calm_ring(3), of "300 * 4096" "2 ^ 33" demo_env "0x81C0"
        demo_env "\<lambda>_. Absent" "''img''" "[''fuse'']"] calm_state(2)
    unfolding calm_inode(2) by (force simp: layout)
qed

end
