(* ===== verification/Spec2Isabelle.thy ===== *)
theory Spec2Isabelle
  imports Naming Crashes
begin

text \<open>
  Verification of \<^verbatim>\<open>nbtrfs\<close>, a user-space file system that keeps its directories in B+trees, behind a
  write-back block cache, with a journal of metadata changes.

  \<^bold>\<open>The program.\<close> The FUSE callbacks (\<^verbatim>\<open>src/fuse.c\<close>) resolve paths (\<^verbatim>\<open>src/hash.c\<close>, \<^verbatim>\<open>src/string.c\<close>)
  through the B+trees of directories (\<^verbatim>\<open>src/btr.c\<close>), call the metadata operations
  (\<^verbatim>\<open>src/metadata-api.c\<close>), which work on inodes (\<^verbatim>\<open>src/inode.c\<close>) and directory blocks
  (\<^verbatim>\<open>src/directory.c\<close>), and write journal entries (\<^verbatim>\<open>src/journal.c\<close>), which \<^verbatim>\<open>sync_entry\<close> replays through
  the same metadata operations. All of them take blocks from the allocator and the superblock
  (\<^verbatim>\<open>src/disk.c\<close>, \<^verbatim>\<open>src/superblock.c\<close>, \<^verbatim>\<open>src/bitmap.c\<close>) and read and write them through the cache
  (\<^verbatim>\<open>src/cache.c\<close>), which is built from a recency list (\<^verbatim>\<open>src/lru.c\<close>), a global dirty list (\<^verbatim>\<open>src/gdl.c\<close>),
  a free list (\<^verbatim>\<open>src/fl.c\<close>), a hash index (\<^verbatim>\<open>src/pci.c\<close>) and per-inode dirty lists (\<^verbatim>\<open>src/dl.c\<close>).

  \<^bold>\<open>The state\<close> is one record \<open>fs\<close> (theory \<open>State\<close>): the disk as a function from block numbers to bytes,
  the cache with its lists on explicit node heaps, the heap of cached pages, and the global lock as
  a flag. A block is a function from offsets to bytes; the structures that lie in blocks
  (superblock, inode, tree node, directory entry, journal entry) are loaded from and stored to
  their byte offsets, padding included. Operations take the state and return an option: \<open>None\<close> is
  undefined behaviour (a stale or null pointer, an index outside an array, an uninitialised local),
  a lock taken twice or a loop that never ends; the error codes of the code are values. Integers are
  words of the width the code declares. Printing and the overwriting of dead memory with random
  bytes have no effect on the state and are left out. A copy of a node onto itself is taken to do
  nothing. What an operation takes from outside, the caller's ids, the clock and what happens to be
  on the stack, is an argument of type \<open>env\<close>, about which nothing is assumed.

  \<^bold>\<open>The disk\<close> is the memory that \<open>disk_open\<close> maps with \<^verbatim>\<open>MAP_SHARED\<close>: on disk means stored there. Such a store is in the
  file of the disk even if the process is killed; the code never calls \<^verbatim>\<open>msync\<close>, so nothing is said about what is left when
  the host loses power. File offsets and the new size of a truncation are signed, as \<^verbatim>\<open>off_t\<close> is, and undefined where they overflow.

  \<^bold>\<open>The theories and the code.\<close>
  \<^item> \<open>Prelude\<close>: little-endian loads and stores, C strings, loops, monotonicity of the combinators.
  \<^item> \<open>Ring\<close>, \<open>Lists\<close>: circular lists; \<open>lru_push\<close>, \<open>lru_pop\<close>, \<open>gdl_push\<close>, \<open>gdl_pop\<close>, \<open>fl_push\<close>, \<open>fl_pop\<close>. The
    locale \<open>slot_list\<close> states a list of cache slots and is interpreted on both lists.
  \<^item> \<open>Index\<close>: \<^verbatim>\<open>pci.c\<close> as a finite map (locale \<open>block_index\<close>). \<open>Dirty\<close>: \<^verbatim>\<open>dl.c\<close> as sets of blocks per inode
    (locale \<open>dirty_index\<close>). \<open>Bitmap\<close>: \<^verbatim>\<open>bitmap.c\<close> as an array of bits (locale \<open>bit_map\<close>).
  \<^item> \<open>Cache\<close>, \<open>Cache_Inv\<close>, \<open>Cache_View\<close>, \<open>Sync\<close>, \<open>Cache_Init\<close>, \<open>Evict\<close>: \<^verbatim>\<open>cache.c\<close>, its invariant, the contents
    it shows (\<open>view\<close>), \<open>cache_sync\<close>, \<open>alloc_cache\<close>, and eviction.
  \<^item> \<open>Store\<close>, \<open>Fsync\<close>: the contract the layers above rely on: locales \<open>block_view\<close> and \<open>block_store\<close>, an array of
    blocks with a durable image, and \<open>fsync_store\<close>, which adds \<open>cache_fsync\<close>, interpreted on the cache. Every
    later proof rests on its facts: which steps keep the contents, which blocks are dirty, in the dirty
    list of an inode (\<open>queued\<close>), or out of date with nothing to write them (\<open>stale\<close>).
  \<^item> \<open>Sessions\<close>: the cache as a state machine, with an inductive step relation, and the abstract disk it refines.
  \<^item> \<open>Superblocks\<close>, \<open>Alloc\<close>, \<open>Inodes\<close>: \<^verbatim>\<open>superblock.c\<close>, \<open>alloc_page\<close> and \<open>free_page\<close>, \<^verbatim>\<open>inode.c\<close>.
  \<^item> \<open>Btree\<close>, \<open>Btree_Ops\<close>: all of \<^verbatim>\<open>btr.c\<close>; \<open>Btree_Flat\<close>: insertion and deletion in a root over leaves;
    \<open>Btree_Limits\<close>: where the code leaves its arrays.
  \<^item> \<open>Paths\<close>, \<open>Lookup\<close>: \<^verbatim>\<open>string.c\<close> and \<^verbatim>\<open>hash.c\<close>. \<open>Journal_Entry\<close>: the layout of \<^verbatim>\<open>journal.h\<close>.
  \<^item> \<open>Directories\<close>, \<open>Metadata\<close>, \<open>Journal\<close>, \<open>Journal_Ring\<close>, \<open>Format\<close>, \<open>Fuse\<close>: \<^verbatim>\<open>directory.c\<close>, \<^verbatim>\<open>metadata-api.c\<close>
    (\<open>metadata_mknod\<close> is \<^verbatim>\<open>_mknod\<close>, and so on), \<^verbatim>\<open>journal.c\<close>, \<open>disk_format\<close>, and the callbacks.
  \<^item> \<open>Files\<close>: a file as a sequence of bytes, and reading, writing and synchronising it.
  \<^item> \<open>Formatted\<close>: the volume \<open>disk_format\<close> makes and mounting it; \<open>Remount\<close>: \<open>nbtrfs_destroy\<close> and what is there when
    the disk is mounted again; \<open>Programs\<close>: \<open>disk_open\<close>, \<^verbatim>\<open>main\<close> of \<^verbatim>\<open>mkfs.c\<close> (\<open>mkfs\<close>) and \<^verbatim>\<open>main\<close> of \<^verbatim>\<open>fuse.c\<close> up
    to the call of FUSE (\<open>nbtrfs_start\<close>). The files of the host are a map from paths to images.
  \<^item> \<open>Volume\<close>: a volume in operation (\<open>sound\<close>), and steps that keep it (\<open>moves\<close>); \<open>Btree_Walk\<close>, \<open>Dir_Blocks\<close>: writing out a
    tree, and directory blocks as lists of entries; \<open>Create\<close>: making a file, as steps on an abstract volume of inodes,
    names, free blocks and journal slots (\<open>vol\<close>, \<open>models\<close>); \<open>New_Files\<close>: writes that allocate pages; \<open>Removal\<close>: unlinking
    a file; \<open>Truncation\<close>: freeing the last pages of a file; \<open>Links\<close>: files with more than one name; \<open>New_Volume\<close>: a volume from \<^verbatim>\<open>mkfs\<close> as such an abstract
    volume; \<open>Creation\<close>, \<open>Naming\<close>: the properties of making, extending, truncating and
    removing files, and of links and renames.
  \<^item> \<open>Recovery\<close>, \<open>Crashes\<close>: what can be in the mapped image when the process is killed (\<open>killed\<close>), and the replay of a journal
    entry at the next start, for the change of a mode.
  \<^item> \<open>Examples\<close>: the volume \<open>demo\<close> of 300 blocks on which the properties are exercised.

  \<^bold>\<open>What is proved.\<close> The cache shows every block as last written, through hits, loads and clean
  evictions, \<open>cache_fsync\<close> writes the blocks queued for an inode and \<open>cache_sync\<close> makes the disk agree; at any
  point the disk holds values the abstract disk allows; formatting, mounting, unmounting and mounting
  again compose: a new volume is sound, and files read after a restart as before it; the allocator is first fit and durable;
  inodes, superblock and tree nodes survive their encodings; block lists of inodes behave as arrays,
  direct and indirect; searching an ordered tree of any height is exact, and insertion and deletion
  refine the sorted list of leaves of a one-level tree; path resolution follows the directory trees;
  a file reads back as written, growing by the pages it needs, and truncating it gives back exactly the pages behind the
  new end; making a file gives it an inode, a leaf in the tree, an
  entry in the directory and a journal entry, and keeps the type of every block in use; unlinking it takes all of these away
  and keeps everything else; a link adds a name for the same inode, and a rename moves it; a journal entry is on disk before its operation runs, the
  journal ring is walked completely, and a change of a mode survives the death of the process, by the replay at the next start. Where the code has undefined behaviour or does something other
  than its purpose, a theorem states the exact behaviour instead.

  \<^bold>\<open>Bounds and regimes.\<close> The layers above the cache are verified for a disk that fits the cache
  (\<open>store_ok\<close>), so that no eviction happens: a dirty eviction is undefined in the code
  (\<open>get_block_dirty_eviction_undefined\<close>). A disk has fewer than \<open>2 ^ 19\<close> blocks, since
  \<open>disk_get_block\<close> multiplies in \<^verbatim>\<open>int\<close>. Files have at most 511 pages, where \<open>inode_get_block\<close> and
  \<open>inode_set_block\<close> agree. Insertion and deletion are verified for trees of one level, where the root
  has room: beyond that the code leaves its arrays. Loops with a
  bound known on entry count it down; those that descend through blocks or run until nothing is left
  (\<open>btree_search\<close> and the other descents, the loops of the callbacks, the search for a victim, the
  recursion of the journal) are partial functions without fuel, where not returning is \<open>None\<close>, and
  the theorems about them show that they return.

  \<^bold>\<open>Not modelled.\<close> The FUSE library and the table of callbacks handed to it, the system calls behind
  \<open>disk_open\<close> (what they find at a path is data), the printing of bitmaps and pairs, and the per-entry
  mutexes of the cache: one thread runs at a time, as under the global lock.

  Making, truncating, linking, renaming and removing files and writes that allocate are verified for names in the root directory, whose entries are in
  its first block, for files of at most twelve pages, and while the journal has open slots; the number of
  slots needed is part of each theorem, so that no entry has to be replayed to make room. A link and a rename also need a
  directory block without leftovers (\<open>clean_at\<close>), since the search for the new name compares every slot of the block.

  \<^bold>\<open>Plan.\<close> Directories of more than one block; the
  replay of the journal entries other than the change of a mode; insertion with splits into deeper trees as far as the
  code is defined.
\<close>

section \<open>The block cache\<close>

text \<open>
  C19. The cache is transparent: on a disk that fits it, \<open>get_block\<close> returns, for any block of the
  disk, a pointer to the current contents of that block, and changes neither the contents of any
  block nor the disk image. This covers hits, loads and the uncached build.
\<close>

theorem get_block_transparent:
  assumes "store_ok s" and "unat b < nblocks s"
  shows "\<exists>p s'. get_block s inum b = Some (p, s') \<and> deref s' p = Some (view s b) \<and>
    view s' = view s \<and> disk_image s' = disk_image s \<and> store_ok s'"
  using st.get_load [OF assms, of inum] by (metis st.keepsD(1) st.silentD)

theorem get_block_transparent_witness:
  "store_ok demo \<and> unat (4 :: u64) < nblocks demo \<and>
   (\<exists>p s'. get_block demo 0 4 = Some (p, s') \<and> deref s' p = Some (view demo 4) \<and>
     view s' = view demo \<and> disk_image s' = disk_image demo \<and> store_ok s')"
  using get_block_transparent [OF demo_ok, of 4 0] demo_ok by simp

text \<open>
  Read your writes: a block fetched, overwritten through its pointer and handed to \<open>write_block\<close>
  is what every later \<open>get_block\<close> of it returns, under whatever inode it is fetched, and every
  other block still reads as before.
\<close>

theorem write_block_read_back:
  assumes "store_ok s" and "unat b < nblocks s" and "unat d < nblocks s"
  shows "\<exists>p s1 s2 s3 q s4. get_block s inum b = Some (p, s1) \<and> assign s1 p x = Some s2 \<and>
    write_block s2 p inum b = Some s3 \<and> get_block s3 inum' d = Some (q, s4) \<and>
    deref s4 q = Some (if d = b then x else view s d)"
proof -
  obtain p s1 where g: "get_block s inum b = Some (p, s1)" "st.silent s s1" "points s1 p b"
    using st.get_silent [OF assms(1,2)] by blast
  note k1 = st.keepsD [OF st.silentD(1) [OF g(2)]]
  obtain s2 s3 s3' where w: "assign s1 p x = Some s2" "write_block s2 p inum b = Some s3" "st.changes s1 s3 b x"
    by (rule st.store_put_pin [OF k1(1) g(3), of x inum inum]) (rule that)
  note c = st.silent_changes [OF g(2) w(3)]
  note k3 = st.keepsD [OF st.changesD(1) [OF c]]
  obtain q s4 where "get_block s3 inum' d = Some (q, s4)" "deref s4 q = Some (view s3 d)"
    by (rule st.get_load [OF k3(1), of d inum']) (use assms k3(2) in auto)
  with g w st.changesD(2) [OF c] show ?thesis by (intro exI conjI) auto
qed

theorem write_block_read_back_witness:
  "\<exists>p s1 s2 s3 q s4. get_block demo 0 4 = Some (p, s1) \<and> assign s1 p zero_block = Some s2 \<and>
    write_block s2 p 0 4 = Some s3 \<and> get_block s3 7 1 = Some (q, s4) \<and> deref s4 q = Some (view demo 1)"
  using write_block_read_back [OF demo_ok, of 4 1 0 zero_block 7] by simp

text \<open>
  C20. \<open>cache_sync\<close> ends and makes the disk current: afterwards the image of every block is its
  contents, nothing is dirty any more, and no block reads differently than before.
\<close>

theorem cache_sync_durable:
  assumes "store_ok s" and "coherent s"
  shows "\<exists>s'. cache_sync s = Some s' \<and> (\<forall>b. disk_image s' (unat b) = view s b) \<and> view s' = view s \<and>
    store_ok s' \<and> coherent s' \<and>
    (\<forall>i. \<not> cache_disabled s \<longrightarrow> in_use (cache_s s') i \<longrightarrow> \<not> dirty_bit (entries (cache_s s') ! i))"
  by (rule cache_sync_ok [OF assms]) blast

theorem cache_sync_durable_witness:
  "store_ok demo \<and> coherent demo \<and>
   (\<exists>s'. cache_sync demo = Some s' \<and> (\<forall>b. disk_image s' (unat b) = view demo b) \<and> view s' = view demo)"
  using cache_sync_durable [OF demo_ok demo_coherent] demo_ok demo_coherent by blast

text \<open>
  A hit makes its entry the most recently used: fetching a cached block moves its slot to the
  front of the recency order, and the order of all other slots is kept.
\<close>

theorem cache_hit_moves_to_front:
  assumes "\<not> cache_disabled s" and "cinv (cache_s s) L G" and "pci_map (pci (cache_s s)) b = Some i"
  shows "\<exists>p s' L'. get_block s inum b = Some (p, s') \<and> cinv (cache_s s') L' G \<and>
    lru.order (cache_s s') L' = int i # remove1 (int i) (lru.order (cache_s s) L)"
proof -
  have u: "in_use (cache_s s) i" using cinvD(10) [OF assms(2,3)] by blast
  obtain c' a n where t: "touch_block s (int i) = Some (PagePtr (page_of (cache_s s) i), s\<lparr>cache_s := c'\<rparr>)"
      "cinv c' (n # remove1 a L) G" "lru_pos (entries (cache_s s) ! i) = Some a" "a \<in> set L"
      "lru.order c' (n # remove1 a L) = int i # lru.order (cache_s s) (remove1 a L)"
    by (rule touch_block_ok [OF assms(2) u]) (rule that)
  have "get_block s inum b = Some (PagePtr (page_of (cache_s s) i), s\<lparr>cache_s := c'\<rparr>)"
    using assms(1,3) t(1) pci.lookup_assoc [OF cinvD(5) [OF assms(2)], of b] by (simp add: get_block_def)
  moreover have "lru.order (cache_s s) (remove1 a L) = remove1 (int i) (lru.order (cache_s s) L)"
    by (rule lru_order_remove [OF assms(2) u t(3)])
  ultimately show ?thesis
    using t(2,5) by (intro exI [of _ "PagePtr (page_of (cache_s s) i)"] exI [of _ "s\<lparr>cache_s := c'\<rparr>"] exI [of _ "n # remove1 a L"]) simp
qed

theorem cache_hit_moves_to_front_witness:
  "lru.order tight_cache [3, 1] = [0, 1] \<and>
   (\<exists>p s' L'. get_block tight 0 1 = Some (p, s') \<and> cinv (cache_s s') L' [] \<and> lru.order (cache_s s') L' = [1, 0])"
proof -
  have o: "lru.order tight_cache [3, 1] = [0, 1]" by (simp add: lru.order_def tight_cache_def idx_of_def)
  show ?thesis
    using cache_hit_moves_to_front [of tight "[3, 1]" "[]" 1 1 0] tight_inv o by (simp add: tight_state(1,2) tight_index)
qed

text \<open>
  C33. The victim search is exact: from the tail of the recency list it finds the least recently
  used entry that is not pinned, and it never returns when every entry is pinned.
\<close>

theorem lru_victim_exact:
  assumes "cinv c L G" and "L \<noteq> []"
  shows "lru_victim c (last L) = victim c L \<and>
    (lru_victim c (last L) = None \<longleftrightarrow> (\<forall>a \<in> set L. pin_count (entries c ! slot_of c a) \<noteq> 0))"
  using lru_victim_ok [OF assms] by (auto simp: victim_def find_None_iff unpinned_def)

theorem lru_victim_exact_witness: "lru_victim tight_cache 1 = Some 1"
  using lru_victim_exact [OF tight_inv] tight_state(7) by simp

text \<open>
  C31. Fetching a block into a full cache: when the victim is clean, no leftover node of the global
  dirty list stands for its slot and it is not first in its hash chain, the call returns the
  block's contents, no block reads differently, the invariant holds again, and exactly the victim
  has left the index and the block entered it.
\<close>

theorem get_block_evicts_clean:
  assumes "cinv (cache_s s) L G" and "\<not> cache_disabled s" and "coherent s" and "free_list (cache_s s) = []"
    and "pci_map (pci (cache_s s)) b = None" and "addressable s" and "unat b < nblocks s"
    and "victim (cache_s s) L = Some a" and "i = slot_of (cache_s s) a" and "d = ce_block_number (entries (cache_s s) ! i)"
    and "\<not> dirty_bit (entries (cache_s s) ! i)" and "\<forall>g \<in> set G. idx_of (gdl_heap (cache_s s)) g \<noteq> Some (int i)"
    and "pl_block_number (hd (pci (cache_s s) ! hash_bucket d)) \<noteq> d"
  shows "\<exists>p s' n. get_block s inum b = Some (p, s') \<and> deref s' p = Some (view s b) \<and> view s' = view s \<and>
    disk_image s' = disk_image s \<and> cinv (cache_s s') (n # remove1 a L) G \<and>
    pci_map (pci (cache_s s')) = (pci_map (pci (cache_s s)))(d := None, b \<mapsto> i)"
  by (rule get_block_evict [OF assms(1-9,11) _ assms(13,10), of inum]) (use assms(12) in blast)+

theorem get_block_evicts_clean_witness:
  "\<exists>p s'. get_block tight 0 2 = Some (p, s') \<and> deref s' p = Some (view demo 2) \<and>
    pci_map (pci (cache_s s')) = [33 \<mapsto> 0, 2 \<mapsto> 1]"
proof -
  have "hash_bucket 1 = 1" by (simp add: hash_bucket_def layout)
  then have t: "ce_block_number (entries tight_cache ! 1) = 1" "\<not> dirty_bit (entries tight_cache ! 1)" "free_list tight_cache = []"
      "pl_block_number (hd (pci tight_cache ! hash_bucket 1)) \<noteq> 1"
    by (simp_all add: tight_cache_def tight_entry_def layout)
  have m: "(pci_map (pci tight_cache))(1 := None, 2 \<mapsto> 1) = [33 \<mapsto> 0, 2 \<mapsto> 1]" by (simp add: tight_index fun_eq_iff)
  show ?thesis
    using get_block_evicts_clean [of tight "[3, 1]" "[]" 2 1 1 1 0] tight_inv t tight_state m
    by (auto simp: tight_index)
qed

text \<open>
  C32. A dirty victim makes the call undefined: its page is freed before its type tag is read, so
  every \<open>get_block\<close> that has to evict a modified block uses freed memory.
\<close>

theorem get_block_dirty_eviction_undefined:
  assumes "cinv (cache_s s) L G" and "\<not> cache_disabled s" and "free_list (cache_s s) = []"
    and "pci_map (pci (cache_s s)) b = None" and "victim (cache_s s) L = Some a"
    and "dirty_bit (entries (cache_s s) ! slot_of (cache_s s) a)"
  shows "get_block s inum b = None"
  using assms(2-4) evict_dirty [OF assms(1,5,6)] pci.lookup_assoc [OF cinvD(5) [OF assms(1)], of b]
  by (simp add: get_block_def)

theorem get_block_dirty_eviction_undefined_witness: "get_block (mounted demo_disk tight_dirty_cache) 0 2 = None"
  using get_block_dirty_eviction_undefined [of "mounted demo_disk tight_dirty_cache" "[3, 1]" "[4]" 2 1 0] tight_dirty
  by (simp add: mounted_def tight_index)

text \<open>
  C34. A new cache is sound: \<open>alloc_cache\<close> builds at least 16384 entries (64 MiB) and, below \<open>2 ^ 61\<close>
  bytes of memory, at most \<open>2 ^ 21\<close>, that is 8 GiB; every entry is free, nothing is cached or dirty,
  and the invariant of the cache holds.
\<close>

theorem alloc_cache_sound:
  assumes "unat m < 2 ^ 61"
  shows "16384 \<le> cache_size (alloc_cache m) \<and> cache_size (alloc_cache m) \<le> 2 ^ 21 \<and>
    cinv (alloc_cache m) [] [] \<and> length (free_list (alloc_cache m)) = cache_size (alloc_cache m) \<and>
    pci_map (pci (alloc_cache m)) = Map.empty \<and> (\<forall>ino. dl_blocks (dirty_list (alloc_cache m)) ino = [])"
proof -
  have "unat (alloc_cache_size m) < 2 ^ 31" using alloc_cache_size_upper [OF assms] by simp
  from new_cache_inv [OF this] show ?thesis
    using alloc_cache_size_lower [OF assms] alloc_cache_size_upper [OF assms] new_cache_free [of "unat (alloc_cache_size m)"]
    by (auto simp: alloc_cache_def) (auto simp: new_cache_def)
qed

theorem alloc_cache_sound_witness: "16384 \<le> cache_size (alloc_cache (8 * 2 ^ 30)) \<and> cache_size (alloc_cache (8 * 2 ^ 30)) \<le> 2 ^ 21"
  using alloc_cache_sound [of "8 * 2 ^ 30"] by simp

text \<open>
  C7. Every request of a session is answered: from every state a session reaches, any access to a block
  of the disk and any synchronisation of an inode returns, and leads to another such state.
\<close>

theorem session_never_stuck:
  assumes "session s\<^sub>0 rs s" and "session_ok s\<^sub>0" and "in_range s\<^sub>0 r"
  shows "\<exists>s'. serve r s = Some s' \<and> session s\<^sub>0 (rs @ [r]) s'"
proof -
  have R: "refines (nblocks s\<^sub>0) s (spec_run s\<^sub>0 rs)" by (rule session_refines [OF assms(1,2)])
  then have "in_range s r" using assms(3) by (cases r) (simp_all add: refines_def)
  with serve_refines [OF R] session.step [OF assms(1)] show ?thesis by blast
qed

theorem session_never_stuck_witness:
  "\<exists>s s'. session demo [Write 1 5 zero_block, Sync_inode 1] s \<and> serve (Read 5) s = Some s' \<and>
    session demo [Write 1 5 zero_block, Sync_inode 1, Read 5] s'"
proof -
  obtain s where "session demo [Write 1 5 zero_block, Sync_inode 1] s"
    using session_exists [OF demo_session, of "[Write 1 5 zero_block, Sync_inode 1]"] by auto
  then show ?thesis using session_never_stuck [OF _ demo_session, of "[Write 1 5 zero_block, Sync_inode 1]" s "Read 5"] by auto
qed

text \<open>
  C6. The cache refines the abstract disk: after any session every block reads as the abstract machine
  says, what is in the image for it, should the process stop now, is a value the abstract machine allows
  (one written no earlier than the last write-through or synchronisation that covered it), and a final
  \<open>cache_sync\<close> makes it the current value.
\<close>

theorem session_crash_safe:
  assumes "session s\<^sub>0 rs s" and "session_ok s\<^sub>0"
  shows "view s = contents (spec_run s\<^sub>0 rs) \<and> (\<forall>b. disk_image s (unat b) \<in> allowed (spec_run s\<^sub>0 rs) b) \<and>
    (\<exists>s'. cache_sync s = Some s' \<and> (\<forall>b. disk_image s' (unat b) = contents (spec_run s\<^sub>0 rs) b))"
proof -
  have R: "refines (nblocks s\<^sub>0) s (spec_run s\<^sub>0 rs)" by (rule session_refines [OF assms])
  then have "store_ok s" "coherent s" by (simp_all add: refines_def session_ok_def)
  then obtain s' where "cache_sync s = Some s'" "\<forall>b. disk_image s' (unat b) = view s b" by (rule cache_sync_ok) blast
  with R show ?thesis by (auto simp: refines_def)
qed

theorem session_crash_safe_witness:
  "\<exists>s. session demo [Write 1 5 (set_btype BLOCK_TYPE_DATA zero_block), Sync_inode 1] s \<and>
    disk_image s 5 = set_btype BLOCK_TYPE_DATA zero_block"
proof -
  obtain s where s: "session demo [Write 1 5 (set_btype BLOCK_TYPE_DATA zero_block), Sync_inode 1] s"
    using session_exists [OF demo_session, of "[Write 1 5 (set_btype BLOCK_TYPE_DATA zero_block), Sync_inode 1]"] by auto
  then have "disk_image s (unat (5 :: u64)) \<in> allowed (spec_run demo [Write 1 5 (set_btype BLOCK_TYPE_DATA zero_block), Sync_inode 1]) 5"
    using session_crash_safe [OF s demo_session] by blast
  then show ?thesis using s by (auto simp: spec_run_def spec_start_def)
qed

section \<open>The index and the lists of the cache\<close>

text \<open>
  C38. The primary index as a finite map: a block entered is found under its slot, and other lookups are
  unaffected. A deletion is undefined exactly when the block is absent or stands first in its hash chain, where the code
  uses \<^verbatim>\<open>prev\<close> or \<^verbatim>\<open>curr\<close> without a value; otherwise it takes place, and removes its block and no other.
\<close>

theorem pci_insert_lookup_delete:
  assumes "pci_wf hm" and "pci_lookup hm b = -1" and "unat i < 2 ^ 31"
  shows "pci_wf (pci_insert hm b i) \<and> pci_lookup (pci_insert hm b i) d = (if d = b then int (unat i) else pci_lookup hm d) \<and>
    (case pci_delete hm d of
       None \<Rightarrow> pci_lookup hm d = -1 \<or> pl_block_number (hd (hm ! hash_bucket d)) = d
     | Some hm' \<Rightarrow> pci_lookup hm d \<noteq> -1 \<and> pl_block_number (hd (hm ! hash_bucket d)) \<noteq> d \<and> pci_wf hm' \<and>
         (\<forall>e. pci_lookup hm' e = (if e = d then -1 else pci_lookup hm e)))"
proof -
  have n: "pci_map hm b = None" using assms(1,2) by (auto simp: pci.lookup_assoc split: option.splits)
  have m: "pci_lookup hm d = -1 \<longleftrightarrow> pci_map hm d = None" using assms(1) by (auto simp: pci.lookup_assoc split: option.splits)
  have "case pci_delete hm d of
       None \<Rightarrow> pci_lookup hm d = -1 \<or> pl_block_number (hd (hm ! hash_bucket d)) = d
     | Some hm' \<Rightarrow> pci_lookup hm d \<noteq> -1 \<and> pl_block_number (hd (hm ! hash_bucket d)) \<noteq> d \<and> pci_wf hm' \<and>
         (\<forall>e. pci_lookup hm' e = (if e = d then -1 else pci_lookup hm e))"
  proof (cases "pci_delete hm d")
    case None
    then have "pci_lookup hm d = -1 \<or> pl_block_number (hd (hm ! hash_bucket d)) = d"
      unfolding m using pci_delete_ok [OF assms(1), of d] by fastforce
    then show ?thesis using None by simp
  next
    case (Some hm')
    then show ?thesis
      using pci_delete_defined [OF assms(1) Some] pci.lookup_delete [OF assms(1) Some] pci.delete_assoc [OF assms(1) Some] m by simp
  qed
  then show ?thesis
    by (intro conjI pci.lookup_insert [OF assms(1) n assms(3)] pci.insert_inv [OF assms(1) n assms(3)])
qed

theorem pci_insert_lookup_delete_witness:
  "pci_lookup (pci_insert (pci tight_cache) 65 7) 65 = 7 \<and> pci_lookup (pci_insert (pci tight_cache) 65 7) 33 = 0 \<and>
   (\<exists>hm'. pci_delete (pci tight_cache) 1 = Some hm' \<and> pci_lookup hm' 1 = -1 \<and> pci_lookup hm' 33 = 0)"
proof -
  have l: "pci_lookup (pci tight_cache) 65 = -1" "pci_lookup (pci tight_cache) 33 = 0" "pci_lookup (pci tight_cache) 1 = 1"
    using pci.lookup_assoc [OF tight_index(1)] by (simp_all add: tight_index)
  note T = pci_insert_lookup_delete [OF tight_index(1) l(1), of 7]
  have "hash_bucket 1 = 1" by (simp add: hash_bucket_def layout)
  then have "pl_block_number (hd (pci tight_cache ! hash_bucket 1)) \<noteq> 1" by (simp add: tight_cache_def layout)
  then obtain hm' where "pci_delete (pci tight_cache) 1 = Some hm'" "\<forall>e. pci_lookup hm' e = (if e = 1 then -1 else pci_lookup (pci tight_cache) e)"
    using T [of 1] l(3) by (auto split: option.splits)
  then show ?thesis using T [of 65] T [of 33] l(2) by auto
qed

text \<open>
  Deleting the block that was entered last into its hash chain, and so stands first in it, is
  undefined: \<^verbatim>\<open>prev\<close> has not been assigned when it is tested. The same holds for an empty index.
\<close>

theorem pci_delete_head_undefined:
  assumes "pci_wf hm" and "pci_lookup hm b = -1" and "unat i < 2 ^ 31"
  shows "pci_delete (pci_insert hm b i) b = None \<and> pci_delete (replicate HASHMAP_SIZE []) b = None"
  using assms(1) by (simp add: pci_delete_def pci_insert_def pci_wf_def)

theorem pci_delete_head_undefined_witness: "pci_delete (pci_insert (pci tight_cache) 65 7) 65 = None"
  using pci_delete_head_undefined [OF tight_index(1), of 65 7] pci.lookup_assoc [OF tight_index(1), of 65]
  by (simp add: tight_index)

text \<open>
  The per-inode dirty lists are sets of blocks per inode: a block entered is in its inode's list,
  once, entering it again changes nothing, removing it takes out that block alone, and no operation
  touches another inode.
\<close>

theorem dl_insert_remove:
  assumes "dl_wf hm" and "dl_room hm ino"
  shows "dl_wf (dl_insert hm ino b) \<and> distinct (dl_blocks (dl_insert hm ino b) j) \<and>
    set (dl_blocks (dl_insert hm ino b) j) = (if j = ino then insert b (set (dl_blocks hm ino)) else set (dl_blocks hm j)) \<and>
    dl_insert (dl_insert hm ino b) ino b = dl_insert hm ino b \<and>
    dl_wf (dl_remove_block (dl_insert hm ino b) ino b) \<and>
    set (dl_blocks (dl_remove_block (dl_insert hm ino b) ino b) j) =
      (if j = ino then set (dl_blocks hm ino) - {b} else set (dl_blocks hm j))"
proof -
  have w: "dl_wf (dl_insert hm ino b)" by (rule dl.insert_inv [OF assms])
  have "set (dl_blocks (dl_insert hm ino b) ino) = insert b (set (dl_blocks hm ino))"
    using dl.insert_blocks [OF assms(1), of ino b ino] by simp
  then have "dl_insert (dl_insert hm ino b) ino b = dl_insert hm ino b" by (intro dl_insert_present) simp
  then show ?thesis
    using w dl_blocks_distinct [OF w, of j] dl.insert_blocks [OF assms(1), of ino b j]
      dl.remove_inv [OF w] dl.remove_blocks [OF w, of ino b j] dl.insert_blocks [OF assms(1), of ino b ino] by auto
qed

theorem dl_insert_remove_witness:
  "set (dl_blocks (dl_insert (replicate HASHMAP_SIZE []) 3 9) 3) = {9}"
proof -
  have "dl_room (replicate HASHMAP_SIZE []) 3" by (simp add: dl_room_def dl_lookup_def)
  from dl_insert_remove [OF dl_wf_empty this, of 9 3] show ?thesis by simp
qed

section \<open>Bitmaps\<close>

text \<open>
  A bitmap block is an array of 32704 bits: \<open>bitmap_get\<close> reads what \<open>bitmap_put\<close> stored at the
  same index and is unaffected at every other one, and both report -1 on a block of another type.
\<close>

theorem bitmap_put_get:
  assumes "btype bm = BLOCK_TYPE_BITMAP" and "i < 32704" and "j < 32704"
  shows "\<exists>bm'. bitmap_put bm (int i) v = Some (0, bm') \<and> btype bm' = BLOCK_TYPE_BITMAP \<and>
    bitmap_get bm' (int j) = (if j = i then Some (of_bool (v \<noteq> 0)) else bitmap_get bm (int j))"
proof -
  have w: "is_bitmap bm" using assms(1) by (simp add: is_bitmap_def)
  obtain bm' where p: "bitmap_put bm (int i) v = Some (0, bm')" using bm.put_total [OF w assms(2)] by blast
  show ?thesis
    using p bm.put_wf [OF w assms(2) p] bm.get_put_same [OF w assms(2) p] bm.get_put_other [OF w assms(2) p assms(3)]
    by (auto simp: is_bitmap_def)
qed

theorem bitmap_put_get_witness:
  "\<exists>bm'. bitmap_put (view demo 1) 70 1 = Some (0, bm') \<and> bitmap_get bm' 70 = Some 1"
  using bitmap_put_get [of "view demo 1" 70 70 1] by (auto simp: demo_view demo_disk_def)

section \<open>Block allocation\<close>

text \<open>
  C21. \<open>alloc_page\<close> is first fit: on a formatted volume it returns the lowest block that is not in
  use, marks exactly that block, durably, and touches no block but the superblock and the bitmap
  block; when every block is in use it returns 0 and changes nothing.
\<close>

theorem alloc_page_first_fit:
  assumes "volume_ok s"
  shows "\<exists>s'. case first_free s of
      None \<Rightarrow> alloc_page s = Some (0, s') \<and> view s' = view s \<and> disk_image s' = disk_image s
    | Some i \<Rightarrow> alloc_page s = Some (of_nat i, s') \<and> marked s s' i True"
  using alloc_page_ok [OF assms] st.silentD(2,3) by (force split: option.splits)

theorem alloc_page_first_fit_witness:
  "volume_ok demo \<and> (\<exists>s'. alloc_page demo = Some (11, s') \<and> marked demo s' 11 True)"
  using alloc_page_first_fit [OF demo_volume] demo_volume by (simp add: demo_first_free)

text \<open>
  C35. Freeing what was allocated restores the set of used blocks; the count of free blocks does not
  return to its old value but ends two lower, since \<open>free_page\<close> decrements it as well.
\<close>

theorem alloc_free_roundtrip:
  assumes "volume_ok s" and "first_free s = Some i"
  shows "\<exists>s' s''. alloc_page s = Some (of_nat i, s') \<and> free_page s' (int i) = Some s'' \<and>
    (\<forall>j < nblocks s. block_used s'' j = block_used s j) \<and>
    free_blocks (sb_of s'') = free_blocks (sb_of s) - 2"
proof -
  have i: "i < nblocks s" "\<not> block_used s i"
    using assms(2) by (auto simp: first_free_def find_Some_iff)
  obtain s' where a: "alloc_page s = Some (of_nat i, s')" "marked s s' i True"
    using alloc_page_ok [OF assms(1)] assms(2) by auto
  have n: "nblocks s' = nblocks s" "volume_ok s'"
    using a(2) st.keepsD(2) by (auto simp: marked_def)
  obtain s'' where f: "free_page s' (int i) = Some s''" "marked s' s'' i False"
    by (rule free_page_ok [OF n(2), of i]) (use i n in auto)
  with a i n show ?thesis by (intro exI conjI) (auto simp: marked_def split: if_splits)
qed

theorem alloc_free_roundtrip_witness:
  "\<exists>s' s''. alloc_page demo = Some (11, s') \<and> free_page s' 11 = Some s'' \<and>
    (\<forall>j < 300. block_used s'' j = block_used demo j)"
  using alloc_free_roundtrip [OF demo_volume demo_first_free] by auto

section \<open>The superblock\<close>

text \<open>
  What \<open>superblock_write\<close> stores \<open>superblock_read\<close> returns, no other block changes, and the write
  is on disk at once when it is written through.
\<close>

theorem superblock_write_read:
  assumes "store_ok s" and "0 < nblocks s" and "btype (view s 0) = BLOCK_TYPE_SUPER" and "length (volume_name sb) = NAME_SIZE"
  shows "\<exists>s' s''. superblock_write s sb wt = Some (0, s') \<and> superblock_read s' = Some (Some sb, s'') \<and>
    (\<forall>b. b \<noteq> 0 \<longrightarrow> view s'' b = view s b) \<and> (wt \<longrightarrow> disk_image s'' 0 = view s'' 0)"
proof -
  let ?x = "sb_store sb (view s 0)"
  obtain s1 where w: "superblock_write s sb wt = Some (0, s1)" "if wt then st.updates s s1 0 ?x else st.changes s s1 0 ?x"
    by (rule superblock_write_ok [OF assms(1-3)])
  have k: "st.keeps s s1" and v: "view s1 = (view s)(0 := ?x)" and d: "wt \<Longrightarrow> disk_image s1 0 = ?x"
    using w(2) st.updatesD [of s s1] st.changesD [of s s1] by (auto split: if_splits)
  have "0 < nblocks s1" "btype (view s1 0) = BLOCK_TYPE_SUPER" using assms st.keepsD(2) [OF k] v by simp_all
  then obtain s2 where r: "superblock_read s1 = Some (Some (sb_of s1), s2)" "st.silent s1 s2"
    by (rule superblock_read_valid [OF st.keepsD(1) [OF k]])
  have "sb_of s1 = sb" using sb_load_store [OF assms(4)] by (simp add: sb_of_def v)
  with w r v d st.silentD(2,3) [OF r(2)] show ?thesis by (intro exI conjI) auto
qed

theorem superblock_write_read_witness:
  "\<exists>s' s''. superblock_write demo (demo_sb\<lparr>free_blocks := 7\<rparr>) True = Some (0, s') \<and>
    superblock_read s' = Some (Some (demo_sb\<lparr>free_blocks := 7\<rparr>), s'') \<and> disk_image s'' 0 = view s'' 0"
  using superblock_write_read [OF demo_ok, of "demo_sb\<lparr>free_blocks := 7\<rparr>" True] demo_volume
  by (auto simp: volume_ok_def demo_sb_def layout)

text \<open>
  A freshly initialised superblock describes the disk it lies on: the magic number, the block
  size and the sizes are set, and the block bitmap, which starts at block 1 and ends before
  \<^verbatim>\<open>inode_bitmap\<close>, has room for exactly the blocks of the disk, rounded up to whole bitmap blocks.
\<close>

theorem superblock_initialize_geometry:
  assumes "store_ok s" and "0 < nblocks s" and "length name \<le> 31"
  shows "\<exists>s'. superblock_initialize s name now = Some (0, s') \<and> btype (view s' 0) = BLOCK_TYPE_SUPER \<and>
    magic_number (sb_of s') = 0x53465452424e \<and> block_size (sb_of s') = 4096 \<and>
    unat (sb_total_blocks (sb_of s')) = nblocks s \<and> free_blocks (sb_of s') = sb_total_blocks (sb_of s') \<and>
    unat (inode_bitmap (sb_of s')) = 1 + (nblocks s + 4091) div 4092 \<and>
    take (length name + 1) (volume_name (sb_of s')) = name @ [0] \<and>
    (\<forall>b. b \<noteq> 0 \<longrightarrow> view s' b = view s b)"
proof -
  obtain s' x where i: "superblock_initialize s name now = Some (0, s')" "st.changes s s' 0 x" "btype x = BLOCK_TYPE_SUPER"
      "sb_load x = sb_initial name (total_blocks (disk s)) now (sb_of s)"
    by (rule superblock_initialize_ok [OF assms])
  have v: "view s' = (view s)(0 := x)" by (rule st.changesD(2) [OF i(2)])
  have le: "nblocks s \<le> 2 ^ 19" using assms(1) by (simp add: store_ok_def addressable_def)
  then have u: "unat (block_bitmap_space (total_blocks (disk s))) = (nblocks s + 4091) div 4092"
    using block_bitmap_space_nat by (simp add: nblocks_def)
  then have lt: "unat (block_bitmap_space (total_blocks (disk s))) < 200" using le by simp
  have "unat (ucast (1 + block_bitmap_space (total_blocks (disk s))) :: u64) = 1 + (nblocks s + 4091) div 4092"
    using lt u by (simp add: unsigned_ucast_eq take_bit_nat_eq_self unat_word_ariths(1))
  with i v show ?thesis by (intro exI [of _ s']) (simp add: sb_of_def sb_initial_def nblocks_def layout)
qed

theorem superblock_initialize_geometry_witness:
  "\<exists>s'. superblock_initialize demo [65, 66] 9 = Some (0, s') \<and> unat (inode_bitmap (sb_of s')) = 2"
  using superblock_initialize_geometry [OF demo_ok, of "[65, 66]" 9] by auto

section \<open>Inodes\<close>

text \<open>
  C23. Writing an inode and reading it back: \<open>inode_read\<close> returns what \<open>inode_write\<close> stored, and every
  other inode of the table reads as before, in both write modes.
\<close>

theorem inode_write_read:
  assumes "inode_ok s n" and "inode_number i = of_nat n" and "length (direct_blocks i) = 12" and "inode_ok s m"
  shows "\<exists>s' s''. inode_write s i wt = Some (0, s') \<and>
    inode_read s' (of_nat m) = Some (Some (if m = n then i else inode_of s m), s'')"
proof -
  let ?x = "inode_store i (view s (inode_home s n)) (n mod inode_per_page)"
  obtain s1 where w: "inode_write s i wt = Some (0, s1)"
      "if wt then st.updates s s1 (inode_home s n) ?x else st.changes s s1 (inode_home s n) ?x"
    by (rule inode_write_ok [OF assms(1,2)])
  have k: "st.keeps s s1" and v: "view s1 = (view s)(inode_home s n := ?x)"
    using w(2) st.updatesD [of s s1] st.changesD [of s s1] by (auto split: if_splits)
  note e = inode_write_effect(3,4) [OF assms(1,3) k v, of m]
  obtain s2 where "inode_read s1 (of_nat m) = Some (Some (inode_of s1 m), s2)"
    by (rule inode_read_ok [OF e(1) [OF assms(4)]]) (rule that)
  with w e(2) assms(4) show ?thesis by (auto simp: inode_ok_def)
qed

theorem inode_write_read_witness:
  "\<exists>s' s''. inode_write demo (demo_inode\<lparr>inode_number := 3\<rparr>) False = Some (0, s') \<and>
    inode_read s' 3 = Some (Some (demo_inode\<lparr>inode_number := 3\<rparr>), s'')"
  using inode_write_read [OF demo_inode_ok, of 3 "demo_inode\<lparr>inode_number := 3\<rparr>" 3 False] demo_inode_ok [of 3]
  by (simp add: demo_inode_def)

text \<open>
  C29. \<open>inode_allocate\<close> takes the first free inode: it sets that bit of the inode bitmap and no
  other, initialises the inode's number, mode, owner, group and reference count, keeps its other
  fields, and touches no block but the bitmap block and the table block; with write-through both
  are on disk when it returns.
\<close>

theorem inode_allocate_first_free:
  assumes "inode_ok s n" and "inode_map_ok s n" and "\<not> inode_used s n" and "\<forall>m < n. inode_used s m"
  shows "\<exists>s'. inode_allocate s uid gid md wt = Some (int n, s') \<and>
    inode_of s' n = (inode_of s n)\<lparr>inode_number := of_nat n, mode := md, owner_id := uid, group_id := gid, reference_count := 1\<rparr> \<and>
    (\<forall>m \<le> n. inode_used s' m) \<and>
    (\<forall>b. b \<noteq> inode_bit_block s n \<longrightarrow> b \<noteq> inode_home s n \<longrightarrow> view s' b = view s b) \<and>
    (wt \<longrightarrow> disk_image s' (unat (inode_home s n)) = view s' (inode_home s n) \<and>
           disk_image s' (unat (inode_bit_block s n)) = view s' (inode_bit_block s n))"
  by (rule inode_allocate_ok [OF assms(1-3), of uid gid md wt])
    (use assms(4) in \<open>auto simp: inode_claimed_def fresh_inode_def\<close>)

theorem inode_allocate_first_free_witness:
  "\<exists>s'. inode_allocate demo 1000 1000 493 True = Some (2, s') \<and> mode (inode_of s' 2) = 493"
  using inode_allocate_first_free [OF demo_inode_ok demo_inode_map, of 1000 1000 493 True] demo_inode_used
  by auto

section \<open>File blocks\<close>

text \<open>
  A block entered in one of the twelve direct slots is found again, the inode on disk carries
  it, and the other direct slots keep theirs; looking up an empty slot fails with -1.
\<close>

theorem inode_direct_roundtrip:
  assumes "inode_ok s n" and "inode_number i = of_nat n" and "length (direct_blocks i) = 12" and "unat idx < 12" and "unat j < 12"
  shows "\<exists>i' s'. inode_set_block s i idx pb = Some (0, i', s') \<and> inode_of s' n = i' \<and>
    (let v = if j = idx then pb else direct_blocks i ! unat j
     in inode_get_block s' i' j = Some (if v \<noteq> 0 then 0 else -1, Some v, s'))"
proof -
  let ?i = "i\<lparr>direct_blocks := (direct_blocks i)[unat idx := pb]\<rparr>"
  let ?x = "inode_store ?i (view s (inode_home s n)) (n mod inode_per_page)"
  have num: "inode_number ?i = of_nat n" and len: "length (direct_blocks ?i) = 12" using assms by simp_all
  obtain s1 where w: "inode_write s ?i True = Some (0, s1)"
      "if True then st.updates s s1 (inode_home s n) ?x else st.changes s s1 (inode_home s n) ?x"
    by (rule inode_write_ok [OF assms(1) num])
  have k: "st.keeps s s1" and v: "view s1 = (view s)(inode_home s n := ?x)"
    using w(2) st.updatesD [of s s1] by simp_all
  have n: "n < 2 ^ 63" using assms(1) by (simp add: inode_ok_def)
  have "inode_of s1 n = ?i" using inode_write_effect(4) [OF assms(1) len k v n] by simp
  moreover have "inode_set_block s i idx pb = Some (0, ?i, s1)"
    using assms(4) w(1) by (simp add: inode_set_block_def set_direct_def word_less_nat_alt)
  moreover have dj: "direct_blocks ?i ! unat j = (if j = idx then pb else direct_blocks i ! unat j)"
    using assms(3-5) by (simp add: nth_list_update word_unat_eq_iff)
  have "j < 12" using assms(5) by (simp add: word_less_nat_alt)
  then have "inode_get_block s1 ?i j =
      Some (if direct_blocks ?i ! unat j \<noteq> 0 then 0 else -1, Some (direct_blocks ?i ! unat j), s1)"
    by (simp add: inode_get_block_def Let_def)
  ultimately show ?thesis
    unfolding dj Let_def by blast
qed

theorem inode_direct_roundtrip_witness:
  "\<exists>i' s'. inode_set_block demo (demo_inode\<lparr>inode_number := 3\<rparr>) 2 9 = Some (0, i', s') \<and>
    inode_get_block s' i' 2 = Some (0, Some 9, s')"
  using inode_direct_roundtrip [OF demo_inode_ok, of 3 "demo_inode\<lparr>inode_number := 3\<rparr>" 2 2 9]
  by (auto simp: demo_inode_def)

text \<open>
  C30. A block entered behind an existing indirect block, at any index from 12 to 510, is found
  again and is tagged as file data, and the other indices behind that block keep their entries.
\<close>

theorem inode_indirect_roundtrip:
  assumes "store_ok s" and "indirect_block i \<noteq> 0" and "unat (indirect_block i) < nblocks s"
    and "btype (view s (indirect_block i)) = BLOCK_TYPE_DATA"
    and "pb \<noteq> 0" and "pb \<noteq> indirect_block i" and "unat pb < nblocks s"
    and "12 \<le> unat idx" and "unat idx < 511" and "12 \<le> unat j" and "unat j < 511"
  shows "\<exists>s' s''. inode_set_block s i idx pb = Some (0, i, s') \<and> btype (view s' pb) = BLOCK_TYPE_DATA \<and>
    inode_get_block s' i j =
      Some (0, Some (if j = idx then pb else load64 (view s (indirect_block i)) (4 + 8 * (unat j - 12))), s'')"
proof -
  let ?ind = "indirect_block i"
  obtain s' x where w: "inode_set_block s i idx pb = Some (0, i, s')" "st.keeps s s'"
      "x = store64 pb (view s ?ind) (4 + 8 * (unat idx - 12))"
      "view s' = (view s)(?ind := x, pb := set_btype BLOCK_TYPE_DATA (((view s)(?ind := x)) pb))"
    by (rule set_indirect_ok [OF assms(1-3,7,8)]) (use assms in auto)
  have vi: "view s' ?ind = x" using assms(6) w(4) by simp
  have ty: "btype (view s' ?ind) = BLOCK_TYPE_DATA" using assms(4) by (simp add: vi w(3))
  obtain s'' where "inode_get_block s' i j = Some (0, Some (load64 (view s' ?ind) (4 + 8 * (unat j - 12))), s'')"
    by (rule get_indirect_ok [OF st.keepsD(1) [OF w(2)] assms(2) _ assms(10,11) ty])
      (use assms(3) st.keepsD(2) [OF w(2)] in auto)
  moreover have "load64 x (4 + 8 * (unat j - 12)) = (if j = idx then pb else load64 (view s ?ind) (4 + 8 * (unat j - 12)))"
  proof (cases "j = idx")
    case False
    then have "unat j \<noteq> unat idx" by (simp add: word_unat_eq_iff)
    then have "4 + 8 * (unat j - 12) + 8 \<le> 4 + 8 * (unat idx - 12) \<or> 4 + 8 * (unat idx - 12) + 8 \<le> 4 + 8 * (unat j - 12)"
      using assms(8,10) by linarith
    with False show ?thesis unfolding w(3) by (subst load_store_other) simp_all
  qed (simp add: w(3))
  ultimately show ?thesis using w(1,4) by (auto simp: vi)
qed

theorem inode_indirect_roundtrip_witness:
  "\<exists>s' s''. inode_set_block demo demo_inode 100 9 = Some (0, demo_inode, s') \<and>
    inode_get_block s' demo_inode 100 = Some (0, Some 9, s'')"
  using inode_indirect_roundtrip [OF demo_ok, of demo_inode 9 100 100]
  by (auto simp: demo_inode_def demo_view demo_disk_def)

text \<open>
  Clearing an entry behind the indirect block destroys the superblock: entering block 0, as
  \<^verbatim>\<open>_truncate\<close> does for every block it frees, tags block 0 as file data, and the superblock cannot be
  read any more.
\<close>

theorem inode_clear_destroys_superblock:
  assumes "store_ok s" and "indirect_block i \<noteq> 0" and "unat (indirect_block i) < nblocks s"
    and "12 < unat idx" and "unat idx < 511"
  shows "\<exists>s' s''. inode_set_block s i idx 0 = Some (0, i, s') \<and> btype (view s' 0) = BLOCK_TYPE_DATA \<and>
    superblock_read s' = Some (None, s'')"
proof -
  have n: "0 < nblocks s" using assms(3) by simp
  have i12: "idx \<noteq> 12" using assms(4) by auto
  obtain s' x where w: "inode_set_block s i idx 0 = Some (0, i, s')" "st.keeps s s'"
      "view s' = (view s)(indirect_block i := x, 0 := set_btype BLOCK_TYPE_DATA (((view s)(indirect_block i := x)) 0))"
    by (rule set_indirect_ok [OF assms(1-3), of 0 idx]) (use assms n i12 in auto)
  have ty: "btype (view s' 0) = BLOCK_TYPE_DATA" using w(3) by simp
  have "0 < nblocks s'" using n st.keepsD(2) [OF w(2)] by simp
  then obtain s'' where "superblock_read s' = Some (None, s'')"
    by (rule superblock_read_ok [OF st.keepsD(1) [OF w(2)]]) (use ty in \<open>simp add: block_types\<close>)
  with w(1) ty show ?thesis by blast
qed

theorem inode_clear_destroys_superblock_witness:
  "\<exists>s' s''. inode_set_block demo demo_inode 20 0 = Some (0, demo_inode, s') \<and> superblock_read s' = Some (None, s'')"
  using inode_clear_destroys_superblock [OF demo_ok, of demo_inode 20] by (auto simp: demo_inode_def)

text \<open>
  The two directions disagree on where the indirect block ends: \<open>inode_set_block\<close> stores indices
  511 to 522 in the indirect block and reports success, and \<open>inode_get_block\<close> then looks for them
  behind the double indirect block and fails when there is none.
\<close>

theorem inode_boundary_mismatch:
  assumes "store_ok s" and "indirect_block i \<noteq> 0" and "unat (indirect_block i) < nblocks s"
    and "double_indirect_block i = 0" and "unat pb < nblocks s" and "511 \<le> unat idx" and "unat idx < 523"
  shows "\<exists>s'. inode_set_block s i idx pb = Some (0, i, s') \<and> inode_get_block s' i idx = Some (-1, None, s')"
proof -
  obtain s' where w: "inode_set_block s i idx pb = Some (0, i, s')"
    by (rule set_indirect_ok [OF assms(1-3,5), of idx]) (use assms in auto)
  have "\<not> idx < 12" "\<not> idx < of_nat PTRS" using assms(6) by (simp_all add: word_less_nat_alt layout)
  with assms(4) have "inode_get_block s' i idx = Some (-1, None, s')" by (simp add: inode_get_block_def)
  with w show ?thesis by blast
qed

theorem inode_boundary_mismatch_witness:
  "\<exists>s'. inode_set_block demo demo_inode 515 9 = Some (0, demo_inode, s') \<and>
    inode_get_block s' demo_inode 515 = Some (-1, None, s')"
  using inode_boundary_mismatch [OF demo_ok, of demo_inode 9 515]
  by (simp add: demo_inode_def inode_load_def load_zero Let_def)

section \<open>B+trees\<close>

text \<open>
  \<open>btree_node_read\<close> returns the node that \<open>btree_node_write\<close> stored, every other block reads as the
  node it was, and no block becomes or stops being a node.
\<close>

theorem btree_node_write_read:
  assumes "store_ok s" and "is_node s (block_number n)" and "node_shape n" and "unat c < nblocks s"
  shows "\<exists>s' s''. btree_node_write s n = Some (0, s') \<and>
    btree_node_read s' c =
      Some (if c = block_number n then Some n else if is_node s c then Some (node_at s c) else None, s'')"
proof -
  obtain s' where w: "btree_node_write s n = Some (0, s')"
      "st.changes s s' (block_number n) (node_store n (view s (block_number n)))"
    by (rule btree_node_write_ok [OF assms(1-3)])
  note k = st.keepsD [OF st.changesD(1) [OF w(2)]] and e = node_write_effect [OF w(2) assms(3)]
  obtain s'' where "btree_node_read s' c = Some (if is_node s' c then Some (node_at s' c) else None, s'')"
    by (rule btree_node_read_ok [OF k(1), of c]) (use assms(4) k(2) in auto)
  with w(1) assms(2) show ?thesis by (auto simp: e)
qed

theorem btree_node_write_read_witness:
  "\<exists>s' s''. btree_node_write demo (demo_leaf 6 15 31) = Some (0, s') \<and>
    btree_node_read s' 6 = Some (Some (demo_leaf 6 15 31), s'')"
  using btree_node_write_read [OF demo_ok, of "demo_leaf 6 15 31" 6] demo_nodes(2) demo_shapes(2)
  by (simp add: demo_leaf_def demo_node_def init_node_def)

text \<open>
  C22. \<open>btree_search\<close> is correct: on blocks that hold an ordered tree it returns the block of the leaf
  with the key, and 0 when the tree does not have the key; it returns, and changes no contents. The comment in
  \<^verbatim>\<open>btr.h\<close> has -1 for a missing key; the code returns 0, and its callers test for 0.
\<close>

theorem btree_search_correct:
  assumes "store_ok s" and "tree_at s t" and "ordered t"
  shows "\<exists>b s'. btree_search s (root_block t) k = Some (b, s') \<and> view s' = view s \<and> disk_image s' = disk_image s \<and>
    (if k \<in> tree_keys t then b \<noteq> 0 \<and> (k, b) \<in> set (leaves t) \<and> is_leaf (node_at s b) \<and> key (node_at s b) = k
     else b = 0)"
proof -
  obtain s' where "btree_search s (root_block t) k = Some (find_leaf t k, s')" "st.silent s s'"
    using btree_search_ok [OF assms, of k] by blast
  then show ?thesis
    using find_leaf_spec [OF assms(2), of k] st.silentD(2,3) by (intro exI [of _ "find_leaf t k"] exI [of _ s']) auto
qed

theorem btree_search_correct_witness:
  "tree_at demo demo_tree \<and> ordered demo_tree \<and>
   (\<exists>s'. btree_search demo 4 f_hash = Some (7, s')) \<and> (\<exists>s'. btree_search demo 4 15 = Some (0, s'))"
  using btree_search_correct [OF demo_ok demo_tree_at demo_tree_ordered, of f_hash]
    btree_search_correct [OF demo_ok demo_tree_at demo_tree_ordered, of 15] demo_tree_at demo_tree_ordered f_hash_facts
  by (auto simp: demo_tree_def)

text \<open>
  \<open>btree_find_maximum\<close> returns the largest key of the tree, whether or not the last child has a
  key of its own.
\<close>

theorem btree_find_maximum_correct:
  assumes "store_ok s" and "tree_at s t" and "ordered t"
  shows "\<exists>m s'. btree_find_maximum s (root_block t) = Some (m, s') \<and> view s' = view s \<and>
    m \<in> tree_keys t \<and> (\<forall>k \<in> tree_keys t. k \<le> m)"
  using btree_find_maximum_ok [OF assms] max_leaf_max [OF assms(3)] st.silentD(2) by metis

theorem btree_find_maximum_correct_witness:
  "\<exists>m s'. btree_find_maximum demo 4 = Some (m, s') \<and> m \<in> {10, f_hash} \<and> (\<forall>k \<in> {10, f_hash}. k \<le> m)"
  using btree_find_maximum_correct [OF demo_ok demo_tree_at demo_tree_ordered] f_hash_facts by (auto simp: demo_tree_def)

text \<open>
  \<open>btree_find_minimum\<close> returns the smallest key of a tree with an inner root, as an \<^verbatim>\<open>int\<close>: the key
  itself when it is below \<open>2 ^ 31\<close>, and a wrapped value otherwise.
\<close>

theorem btree_find_minimum_correct:
  assumes "store_ok s" and "tree_at s t" and "ordered t" and "\<not> is_leaf (node_at s (root_block t))"
  shows "\<exists>m s'. btree_find_minimum s (root_block t) = Some (int_of_u64 m, s') \<and> view s' = view s \<and>
    m \<in> tree_keys t \<and> (\<forall>k \<in> tree_keys t. m \<le> k) \<and> (unat m < 2 ^ 31 \<longrightarrow> int_of_u64 m = int (unat m))"
proof -
  obtain b ks ts where t: "t = TNode b ks ts" using assms(2,4) by (cases t) auto
  obtain s' where "btree_find_minimum s (root_block t) = Some (int_of_u64 (min_leaf t), s')" "st.silent s s'"
    using btree_find_minimum_ok [OF assms(1-3) t] by blast
  then show ?thesis
    using min_leaf_min [OF assms(3)] st.silentD(2) int_of_u64_small [of "min_leaf t"] by blast
qed

theorem btree_find_minimum_correct_witness:
  "\<exists>m s'. btree_find_minimum demo 4 = Some (int_of_u64 m, s') \<and> m \<in> {10, f_hash} \<and> (\<forall>k \<in> {10, f_hash}. m \<le> k)"
  using btree_find_minimum_correct [OF demo_ok demo_tree_at demo_tree_ordered] f_hash_facts
  by (auto simp: demo_tree_def demo_nodes) (auto simp: demo_root_def demo_node_def init_node_def is_leaf_def)

text \<open>
  Depth and height agree: \<open>btree_find_depth\<close> and \<open>btree_find_height\<close> both end, and both return the
  number of edges of the leftmost path.
\<close>

theorem btree_depth_is_height:
  assumes "store_ok s" and "tree_at s t" and "ordered t" and "left_depth t < 2 ^ 31"
  shows "\<exists>s' s''. btree_find_depth s (root_block t) = Some (int (left_depth t), s') \<and>
    btree_find_height s (root_block t) = Some (int (left_depth t), s'') \<and> view s' = view s \<and> view s'' = view s"
  using btree_find_depth_ok [OF assms] btree_find_height_ok [OF assms] st.silentD(2) by metis

theorem btree_depth_is_height_witness:
  "\<exists>s' s''. btree_find_depth demo 4 = Some (1, s') \<and> btree_find_height demo 4 = Some (1, s'')"
  using btree_depth_is_height [OF demo_ok demo_tree_at demo_tree_ordered] by (auto simp: demo_tree_def)

text \<open>
  C24. \<open>btree_insert\<close> implements insertion into a map: on a one-level tree with room for another leaf and
  a volume with a free block, inserting a new key returns 0 and gives the tree with one more leaf,
  in key order, in the first free block, with the value and the type. Every other node and every
  other mark of the block bitmap is kept. The tree may be empty.
\<close>

theorem btree_insert_one_level:
  assumes "tree_volume s" and "first_free s = Some i" and "flat_at s b ps" and "length ps < MAX_KEYS" and "k \<notin> fst ` set ps"
  shows "\<exists>s'. btree_insert s b k v ty = Some (0, s') \<and> tree_volume s' \<and> flat_at s' b (with_leaf ps k (of_nat i)) \<and>
    n_value (node_at s' (of_nat i)) = v \<and> file_type (node_at s' (of_nat i)) = ty \<and>
    (\<forall>c. c \<noteq> b \<and> c \<noteq> of_nat i \<and> is_node s c \<longrightarrow> is_node s' c \<and> node_at s' c = node_at s c) \<and>
    (\<forall>j. j < nblocks s \<longrightarrow> block_used s' j = (j = i \<or> block_used s j))"
  by (rule btree_insert_flat [OF assms, of v ty]) blast

theorem btree_insert_one_level_witness:
  "\<exists>s'. btree_insert demo 4 15 33 0 = Some (0, s') \<and> flat_at s' 4 [(10, 6), (15, 11), (f_hash, 7)] \<and> n_value (node_at s' 11) = 33"
  using btree_insert_one_level [OF demo_tree_volume demo_first_free demo_flat, of 15 33 0] f_hash_facts by (auto simp: with_leaf_def layout)

text \<open>
  Searching after an insertion: \<open>btree_search\<close> finds the new key at its new leaf and every other key as
  before the insertion.
\<close>

theorem btree_insert_search:
  assumes "tree_volume s" and "first_free s = Some i" and "flat_at s b ps" and "length ps < MAX_KEYS" and "k \<notin> fst ` set ps"
  shows "\<exists>s1 s2. btree_insert s b k v ty = Some (0, s1) \<and>
    btree_search s1 b k' = Some (if k' = k then of_nat i else case map_of ps k' of None \<Rightarrow> 0 | Some c \<Rightarrow> c, s2) \<and>
    view s2 = view s1"
proof -
  obtain s1 where i: "btree_insert s b k v ty = Some (0, s1)" "tree_volume s1" "flat_at s1 b (with_leaf ps k (of_nat i))"
    by (rule btree_insert_flat [OF assms, of v ty])
  have "store_ok s1" using i(2) by (simp add: tree_volume_def volume_ok_def)
  moreover have "with_leaf ps k (of_nat i) \<noteq> []" by (simp add: with_leaf_def)
  ultimately obtain s2 where
      "btree_search s1 b k' = Some (case map_of (with_leaf ps k (of_nat i)) k' of None \<Rightarrow> 0 | Some c \<Rightarrow> c, s2)" "st.silent s1 s2"
    using btree_search_flat [OF _ i(3), of k'] by blast
  with i(1) st.silentD(2) show ?thesis by (auto simp: with_leaf_map [OF assms(5)])
qed

theorem btree_insert_search_witness:
  "\<exists>s1 s2. btree_insert demo 4 15 33 0 = Some (0, s1) \<and> btree_search s1 4 15 = Some (11, s2)"
  using btree_insert_search [OF demo_tree_volume demo_first_free demo_flat, of 15 33 0 15] f_hash_facts by (auto simp: layout)

text \<open>
  C25. \<open>btree_delete\<close> implements deletion from a map: on a one-level tree that is not full, deleting a key
  returns the block of its leaf, leaves the tree without that leaf and in order, and frees exactly
  that block.
\<close>

theorem btree_delete_one_level:
  assumes "tree_volume s" and "flat_at s b (us @ (k, c) # vs)" and "length us + length vs + 1 < MAX_KEYS"
  shows "\<exists>s'. btree_delete s b k = Some (c, s') \<and> tree_volume s' \<and> flat_at s' b (us @ vs) \<and>
    (\<forall>j. j < nblocks s \<longrightarrow> block_used s' j = (j \<noteq> unat c \<and> block_used s j))"
  by (rule btree_delete_flat [OF assms]) blast

theorem btree_delete_one_level_witness:
  "\<exists>s'. btree_delete demo 4 10 = Some (6, s') \<and> flat_at s' 4 [(f_hash, 7)] \<and> \<not> block_used s' 6"
  using btree_delete_one_level [OF demo_tree_volume, of 4 "[]" 10 6 "[(f_hash, 7)]"] demo_flat by (auto simp: layout)

text \<open>
  Deletion undoes insertion: inserting a new key and deleting it gives the old tree back, with the
  same blocks in use.
\<close>

theorem btree_insert_delete:
  assumes "tree_volume s" and "first_free s = Some i" and "flat_at s b ps" and "length ps + 1 < MAX_KEYS" and "k \<notin> fst ` set ps"
  shows "\<exists>s1 s2. btree_insert s b k v ty = Some (0, s1) \<and> btree_delete s1 b k = Some (of_nat i, s2) \<and>
    flat_at s2 b ps \<and> (\<forall>j. j < nblocks s \<longrightarrow> block_used s2 j = block_used s j)"
proof -
  let ?us = "takeWhile (\<lambda>q. fst q < k) ps" and ?vs = "dropWhile (\<lambda>q. fst q < k) ps"
  have lp: "length ps < MAX_KEYS" using assms(4) by simp
  obtain s1 where s1: "btree_insert s b k v ty = Some (0, s1)" "tree_volume s1" "flat_at s1 b (?us @ (k, of_nat i) # ?vs)"
      "\<And>j. j < nblocks s \<Longrightarrow> block_used s1 j = (j = i \<or> block_used s j)" "nblocks s1 = nblocks s"
    by (rule btree_insert_flat [OF assms(1-3) lp assms(5), of v ty]) (use that in \<open>simp add: with_leaf_def\<close>)
  have "length ?us + length ?vs = length ps" by (metis length_append takeWhile_dropWhile_id)
  with assms(4) have len: "length ?us + length ?vs + 1 < MAX_KEYS" by simp
  obtain s2 where s2: "btree_delete s1 b k = Some (of_nat i, s2)" "flat_at s2 b (?us @ ?vs)"
      "\<And>j. j < nblocks s1 \<Longrightarrow> block_used s2 j = (j \<noteq> unat (of_nat i :: u64) \<and> block_used s1 j)"
    by (rule btree_delete_flat [OF s1(2,3) len]) (rule that)
  have i: "\<not> block_used s i" "i < nblocks s" using assms(2) by (auto simp: first_free_def find_Some_iff)
  moreover have "nblocks s \<le> 2 ^ 19" using assms(1) by (simp add: tree_volume_def volume_ok_def store_ok_def addressable_def)
  ultimately have "unat (of_nat i :: u64) = i" by (intro unat_of_nat_small) simp
  with i s1 s2 show ?thesis by (intro exI conjI) (auto simp: takeWhile_dropWhile_id)
qed

theorem btree_insert_delete_witness:
  "\<exists>s1 s2. btree_insert demo 4 15 33 0 = Some (0, s1) \<and> btree_delete s1 4 15 = Some (11, s2) \<and> flat_at s2 4 [(10, 6), (f_hash, 7)]"
  using btree_insert_delete [OF demo_tree_volume demo_first_free demo_flat, of 15 33 0] f_hash_facts by (auto simp: layout)

text \<open>
  C36. Inserting into a full node leaves its array: whatever the new child, \<open>btree_insert_nonfull\<close> on an
  inner node with \<open>MAX_KEYS\<close> keys writes \<^verbatim>\<open>children[MAX_KEYS + 1]\<close>.
\<close>

theorem btree_insert_full_undefined:
  assumes "node_shape root" and "\<not> is_leaf root" and "unat (num_keys root) = MAX_KEYS"
  shows "btree_insert_nonfull s root p = None"
  using insert_nonfull_full [OF assms(1,2)] assms(3) by simp

theorem btree_insert_full_undefined_witness: "btree_insert_nonfull demo (demo_root\<lparr>num_keys := 250\<rparr>) (PagePtr 0) = None"
proof (rule btree_insert_full_undefined)
  show "node_shape (demo_root\<lparr>num_keys := 250\<rparr>)" using demo_shapes(1) by (simp add: node_shape_def)
qed (simp_all add: demo_root_def demo_node_def init_node_def is_leaf_def layout)

text \<open>
  C37. No merge ever completes: when a node has the two children to merge, \<open>btree_merge_children\<close> copies
  the children of the right one into the keys of the left one and writes \<^verbatim>\<open>keys[MAX_KEYS]\<close>.
\<close>

theorem btree_merge_undefined:
  assumes "store_ok s" and "i < MAX_KEYS" and "node_shape p" and "children p ! i \<noteq> 0" and "children p ! Suc i \<noteq> 0"
    and "is_node s (children p ! i)"
  shows "btree_merge_children s p i = None"
proof -
  obtain s1 where "read_node s (children p ! i) = Some (node_at s (children p ! i), s1)"
    by (rule read_node_ok [OF assms(1,6)])
  with assms show ?thesis
    by (intro merge_children_fails [where j = i and ca = "children p ! i" and cb = "children p ! Suc i" and a = "node_at s (children p ! i)"])
      (auto simp: aget_def node_shape_def [of p])
qed

theorem btree_merge_undefined_witness: "btree_merge_children demo demo_root 0 = None"
  using btree_merge_undefined [OF demo_ok, of 0 demo_root] demo_shapes(1) demo_nodes(2) by (simp add: demo_root_def layout)

section \<open>Paths and files\<close>

text \<open>
  C18. \<open>item_search\<close> resolves a path: when the components lead, directory by directory, to a node, it
  returns the inode of that node, and the block of its tree if it is a directory; when a component
  is missing from its directory, it returns neither. It always returns and changes no contents.
\<close>

theorem item_search_resolves:
  assumes "rooted s" and "resolves s (root_node s) cs m" and "list_all component (cs @ es)" and "length (join (cs @ es)) < PATH_MAX"
    and "cs @ es \<noteq> []" and "es \<noteq> [] \<longrightarrow> dir_entry s (block_number m) (hd es) None"
  shows "\<exists>s'. item_search s (join (cs @ es)) =
      Some (if es = [] then \<lparr>ip_inode = n_value m, ip_btree = if file_type m = FILE_TYPE_DIRECTORY then block_number m else 0\<rparr>
            else \<lparr>ip_inode = 0, ip_btree = 0\<rparr>, s') \<and>
    view s' = view s \<and> disk_image s' = disk_image s"
proof (cases es)
  case Nil
  then obtain s' where "item_search s (join cs) = Some (pair_of m, s')" "st.silent s s'"
    using item_search_found [OF assms(1,2)] assms(3-5) by auto
  with Nil st.silentD(2,3) show ?thesis by (auto simp: pair_of_def)
next
  case (Cons c ds)
  then obtain s' where "item_search s (join (cs @ c # ds)) = Some (no_pair, s')" "st.silent s s'"
    using item_search_missing [OF assms(1,2), of c ds] assms(3-6) by auto
  with Cons st.silentD(2,3) show ?thesis by (auto simp: no_pair_def)
qed

theorem item_search_resolves_witness:
  "\<exists>s'. item_search demo ''/f'' = Some (\<lparr>ip_inode = 1, ip_btree = 0\<rparr>, s') \<and> view s' = view demo"
proof -
  have "n_value (demo_leaf 7 f_hash 1) = 1" "file_type (demo_leaf 7 f_hash 1) \<noteq> FILE_TYPE_DIRECTORY"
    by (simp_all add: demo_leaf_def demo_node_def init_node_def node_load_def load_zero S_IFDIR_def)
  then show ?thesis
    using item_search_resolves [OF demo_rooted demo_resolves, of "[]"] by (auto simp: component_def PATH_MAX_def)
qed

text \<open>
  C17. \<open>nbtrfs_read\<close> returns the file: on a file whose pages have blocks, reading \<open>len\<close> bytes from an offset
  inside the file returns as many bytes as there are up to the end of the file, and they are those of
  the file, across page and indirect block boundaries. Reading changes nothing.
\<close>

theorem nbtrfs_read_contents:
  assumes "file_at s cs ino" and "file_ok s (inode_of s ino) n" and "unat (i_size (inode_of s ino)) \<le> n * USABLE_BLOCK_SIZE"
    and "off < unat (i_size (inode_of s ino))" and "off + len < 2 ^ 64"
  shows "\<exists>s'. (let k = min len (unat (i_size (inode_of s ino)) - off) in
    nbtrfs_read s (join cs) (of_nat len) (of_nat off) = Some (int k, file_bytes s (inode_of s ino) off k, s')) \<and>
    view s' = view s \<and> disk_image s' = disk_image s"
proof -
  obtain s' where "nbtrfs_read s (join cs) (of_nat len) (of_nat off) =
      Some (int (min len (unat (i_size (inode_of s ino)) - off)),
        file_bytes s (inode_of s ino) off (min len (unat (i_size (inode_of s ino)) - off)), s')" "st.silent s s'"
    by (rule nbtrfs_read_ok [OF assms(1) refl assms(2-5)])
  with st.silentD(2,3) show ?thesis by (auto simp: Let_def)
qed

theorem nbtrfs_read_contents_witness: "\<exists>s'. nbtrfs_read demo ''/f'' 100 0 = Some (2, [104, 105], s')"
proof -
  have "i_size demo_file = 2" by (simp add: demo_file_def)
  then show ?thesis
    using nbtrfs_read_contents [OF demo_file_at, of 1 0 100] demo_file_ok demo_inode_of demo_file_bytes by (auto simp: layout Let_def)
qed

text \<open>
  C16. Writing and reading back: \<open>nbtrfs_write\<close> of a buffer to allocated pages of a file writes all of it, and
  \<open>nbtrfs_read\<close> from the same offset returns it. The size is the larger of the old one and the end of
  the write, and every other byte of those pages is kept.
\<close>

theorem nbtrfs_write_read:
  assumes "file_at s cs ino" and "inode_number (inode_of s ino) = of_nat ino" and "file_ok s (inode_of s ino) n"
    and "unat (i_size (inode_of s ino)) \<le> n * USABLE_BLOCK_SIZE" and "off + length buf \<le> n * USABLE_BLOCK_SIZE" and "buf \<noteq> []"
  shows "\<exists>s' s''. nbtrfs_write env s (join cs) buf (of_nat off) = Some (int (length buf), s') \<and>
    nbtrfs_read s' (join cs) (of_nat (length buf)) (of_nat off) = Some (int (length buf), buf, s'') \<and>
    unat (i_size (inode_of s' ino)) = max (unat (i_size (inode_of s ino))) (off + length buf) \<and>
    (\<forall>j. j < n * USABLE_BLOCK_SIZE \<and> (j < off \<or> off + length buf \<le> j) \<longrightarrow>
       file_byte s' (inode_of s' ino) j = file_byte s (inode_of s ino) j)"
proof -
  let ?i = "inode_of s ino"
  obtain s' where w: "nbtrfs_write env s (join cs) buf (of_nat off) = Some (int (length buf), s')" "file_at s' cs ino"
      "inode_of s' ino = ?i\<lparr>i_size := max (i_size ?i) (of_nat (off + length buf))\<rparr>" "file_ok s' (inode_of s' ino) n"
      "\<And>j. j < n * USABLE_BLOCK_SIZE \<Longrightarrow> file_byte s' (inode_of s' ino) j =
        (if off \<le> j \<and> j < off + length buf then buf ! (j - off) else file_byte s ?i j)"
    by (rule nbtrfs_write_ok [OF assms(1) refl assms(2,3,5) refl, of env]) (use that in metis)
  have "n * USABLE_BLOCK_SIZE \<le> 511 * USABLE_BLOCK_SIZE" using file_okD(2) [OF assms(3)] by (rule mult_le_mono1)
  then have small: "off + length buf < 2 ^ 64" using assms(5) by (simp add: layout)
  then have u: "unat (of_nat (off + length buf) :: u64) = off + length buf" by (rule unat_of_nat_small)
  have sz: "unat (i_size (inode_of s' ino)) = max (unat (i_size ?i)) (off + length buf)"
    using u by (simp add: w(3) max_def word_le_nat_alt)
  have fit: "unat (i_size (inode_of s' ino)) \<le> n * USABLE_BLOCK_SIZE" using sz assms(4,5) by simp
  have inside: "off < unat (i_size (inode_of s' ino))" using sz assms(6) by (cases buf) auto
  have k: "min (length buf) (unat (i_size (inode_of s' ino)) - off) = length buf" using sz by simp
  obtain s'' where r: "nbtrfs_read s' (join cs) (of_nat (length buf)) (of_nat off) =
      Some (int (length buf), file_bytes s' (inode_of s' ino) off (length buf), s'')"
    using nbtrfs_read_ok [OF w(2) refl w(4) fit inside small] unfolding k by blast
  have "file_bytes s' (inode_of s' ino) off (length buf) = buf"
    using assms(5) by (intro nth_equalityI) (simp_all add: file_bytes_def w(5))
  with w(1,5) r sz show ?thesis by (intro exI [of _ s'] exI [of _ s'']) auto
qed

theorem nbtrfs_write_read_witness:
  "\<exists>s' s''. nbtrfs_write demo_env demo ''/f'' [1, 2, 3] 1 = Some (3, s') \<and> nbtrfs_read s' ''/f'' 3 1 = Some (3, [1, 2, 3], s'')"
proof -
  have "i_size demo_file = 2" "inode_number demo_file = 1" by (simp_all add: demo_file_def)
  then show ?thesis
    using nbtrfs_write_read [OF demo_file_at, of 1 1 "[1, 2, 3]" demo_env] demo_file_ok demo_inode_of by (auto simp: layout)
qed

text \<open>
  C4. What was written is on the disk once the file is synchronised: after \<open>nbtrfs_write\<close> of bytes within
  the pages of a file and \<open>nbtrfs_fsync\<close>, both of which return, the image of the disk has the bytes
  written in the blocks of the file, and \<open>nbtrfs_fsync\<close> changed the contents of no block.
\<close>

theorem nbtrfs_write_fsync_durable:
  assumes "file_at s cs ino" and "inode_number (inode_of s ino) = of_nat ino" and "file_ok s (inode_of s ino) n"
    and "off + length buf \<le> n * USABLE_BLOCK_SIZE" and "\<not> cache_disabled s" and "lists_ok s"
  shows "\<exists>s1 s2. nbtrfs_write env s (join cs) buf (of_nat off) = Some (int (length buf), s1) \<and>
    nbtrfs_fsync s1 (join cs) = Some s2 \<and> view s2 = view s1 \<and>
    (\<forall>k < length buf. disk_image s2 (unat (page_at s2 (inode_of s2 ino) ((off + k) div USABLE_BLOCK_SIZE)))
       (4 + (off + k) mod USABLE_BLOCK_SIZE) = buf ! k)"
proof -
  let ?i = "inode_of s ino"
  define i' where "i' = ?i\<lparr>i_size := max (i_size ?i) (of_nat (off + length buf))\<rparr>"
  obtain s1 where s1: "nbtrfs_write env s (join cs) buf (of_nat off) = Some (int (length buf), s1)" "file_at s1 cs ino"
      "inode_of s1 ino = i'" "file_ok s1 i' n"
      "\<And>j. j < n * USABLE_BLOCK_SIZE \<Longrightarrow> file_byte s1 i' j = (if off \<le> j \<and> j < off + length buf then buf ! (j - off) else file_byte s ?i j)"
      "st.keeps s s1"
      "\<And>j. \<not> cache_disabled s \<Longrightarrow> lists_ok s \<Longrightarrow> off \<le> j \<Longrightarrow> j < off + length buf \<Longrightarrow>
        queued s1 (of_nat ino) (page_at s1 i' (j div USABLE_BLOCK_SIZE))"
    by (rule nbtrfs_write_ok [OF assms(1) refl assms(2-4) i'_def, of env]) (rule that)
  have l1: "lists_ok s1" using st.keepsD(6) [OF s1(6) assms(6)] .
  obtain s2 where s2: "nbtrfs_fsync s1 (join cs) = Some s2" "view s2 = view s1"
      "\<And>b. queued s1 (of_nat ino) b \<Longrightarrow> disk_image s2 (unat b) = view s1 b"
    by (rule nbtrfs_fsync_ok [OF s1(2) l1]) (rule that)
  have i2: "inode_of s2 ino = i'" using s1(3) by (simp add: inode_of_def inode_home_def sb_of_def s2(2))
  have p2: "page_at s2 = page_at s1" unfolding page_at_def [abs_def] s2(2) ..
  have "disk_image s2 (unat (page_at s2 i' ((off + k) div USABLE_BLOCK_SIZE))) (4 + (off + k) mod USABLE_BLOCK_SIZE) = buf ! k"
    if k: "k < length buf" for k
  proof -
    have "queued s1 (of_nat ino) (page_at s1 i' ((off + k) div USABLE_BLOCK_SIZE))" using s1(7) assms(5,6) k by simp
    from s2(3) [OF this] have "disk_image s2 (unat (page_at s1 i' ((off + k) div USABLE_BLOCK_SIZE))) (4 + (off + k) mod USABLE_BLOCK_SIZE) =
        file_byte s1 i' (off + k)" by (simp add: file_byte_def)
    also have "\<dots> = buf ! k" using s1(5) [of "off + k"] k assms(4) by simp
    finally show ?thesis by (simp only: p2)
  qed
  with s1(1) s2(1,2) i2 show ?thesis by auto
qed

theorem nbtrfs_write_fsync_durable_witness:
  "\<exists>s1 s2. nbtrfs_write demo_env demo ''/f'' [72, 73] 0 = Some (2, s1) \<and> nbtrfs_fsync s1 ''/f'' = Some s2 \<and>
    disk_image s2 (unat (page_at s2 (inode_of s2 1) 0)) 4 = 72"
proof -
  have n: "inode_number (inode_of demo 1) = of_nat 1" unfolding demo_inode_of by (simp add: demo_file_def)
  have ok: "file_ok demo (inode_of demo 1) 1" using demo_file_ok demo_inode_of by simp
  obtain s1 s2 where "nbtrfs_write demo_env demo (join [''f'']) [72, 73] (of_nat 0) = Some (int 2, s1)" "nbtrfs_fsync s1 (join [''f'']) = Some s2"
      "\<forall>k < 2. disk_image s2 (unat (page_at s2 (inode_of s2 1) ((0 + k) div USABLE_BLOCK_SIZE)))
        (4 + (0 + k) mod USABLE_BLOCK_SIZE) = [72, 73] ! k"
    using nbtrfs_write_fsync_durable [OF demo_file_at n ok, of 0 "[72, 73]" demo_env] demo_cached demo_lists by (auto simp: layout)
  then show ?thesis by (intro exI conjI) (auto elim!: allE [of _ 0])
qed

text \<open>
  C28. \<open>nbtrfs_chmod\<close> on a file: the entry with the path and the mode is in the journal on disk, at the head
  of the ring, the call returns 0, and \<open>nbtrfs_getattr\<close> then shows the new mode and otherwise the
  attributes the file had.
\<close>

theorem nbtrfs_chmod_getattr:
  assumes "file_at s cs ino" and "inode_number (inode_of s ino) = of_nat ino" and "journal_free s" and "CHR 0x00 \<notin> set (join cs)"
  shows "\<exists>s' s''. nbtrfs_chmod env s (join cs) md = Some (0, s') \<and>
    nbtrfs_getattr s' (join cs) = Some (Some ((stat_of (inode_of s ino) (of_nat ino))\<lparr>st_mode := md\<rparr>), s'') \<and>
    (let e = disk_image s' (unat (head_block s)) in
     je_type e = CHMOD \<and> je_block e = head_block s \<and> load32 e JE_MODE = md \<and> read_str PATH_MAX e JE_PATH = Some (join cs))"
proof -
  obtain s' where s': "nbtrfs_chmod env s (join cs) md = Some (0, s')" "file_at s' cs ino"
      "inode_of s' ino = (inode_of s ino)\<lparr>mode := md\<rparr>" "je_type (disk_image s' (unat (head_block s))) = CHMOD"
      "je_block (disk_image s' (unat (head_block s))) = head_block s" "load32 (disk_image s' (unat (head_block s))) JE_MODE = md"
      "read_str PATH_MAX (disk_image s' (unat (head_block s))) JE_PATH = Some (join cs)"
    by (rule nbtrfs_chmod_ok [OF assms, of env md]) (rule that)
  obtain s'' where "nbtrfs_getattr s' (join cs) = Some (Some (stat_of (inode_of s' ino) (of_nat ino)), s'')"
    by (rule nbtrfs_getattr_ok [OF s'(2)])
  with s' show ?thesis by (auto simp: stat_of_def Let_def)
qed

theorem nbtrfs_chmod_getattr_witness:
  "\<exists>s' s'' st. nbtrfs_chmod demo_env demo ''/f'' 420 = Some (0, s') \<and> nbtrfs_getattr s' ''/f'' = Some (Some st, s'') \<and>
    st_mode st = 420 \<and> st_size st = 2"
proof -
  have "inode_number demo_file = 1" "i_size demo_file = 2" by (simp_all add: demo_file_def)
  then show ?thesis
    using nbtrfs_chmod_getattr [OF demo_file_at, of demo_env 420] demo_inode_of demo_journal_free by (fastforce simp: stat_of_def)
qed

text \<open>
  C39. Changing the mode of a path that does not exist reports success and changes inode 0, the inode of
  the root directory of a formatted volume.
\<close>

theorem chmod_missing_changes_root:
  assumes "rooted s" and "resolves s (root_node s) cs m" and "dir_entry s (block_number m) c None"
    and "list_all component (cs @ c # es)" and "length (join (cs @ c # es)) < PATH_MAX"
    and "inode_ok s 0" and "inode_number (inode_of s 0) = 0"
  shows "\<exists>s'. metadata_chmod s (join (cs @ c # es)) md wt = Some (0, s') \<and> inode_of s' 0 = (inode_of s 0)\<lparr>mode := md\<rparr>"
proof -
  obtain s1 where "item_search s (join (cs @ c # es)) = Some (no_pair, s1)" "st.silent s s1"
    by (rule item_search_missing [OF assms(1-5)])
  then show ?thesis
    by (rule metadata_chmod_ok [where n = 0 and md = md and wt = wt]) (use assms(6,7) in \<open>auto simp: no_pair_def\<close>)
qed

theorem chmod_missing_changes_root_witness:
  "\<exists>s'. metadata_chmod demo ''/g'' 0 True = Some (0, s') \<and> mode (inode_of s' 0) = 0"
proof -
  have g: "path_hash ''g'' \<noteq> 10" "path_hash ''g'' \<noteq> f_hash" by code_simp+
  have "dir_entry demo 4 ''g'' None"
    unfolding dir_entry_def by (intro disjI1 exI [of _ demo_tree]) (use g in \<open>simp add: demo_tree_at demo_tree_ordered, simp add: demo_tree_def\<close>)
  moreover have "block_number (root_node demo) = 4"
    using demo_nodes(4) by (simp add: demo_sb_of demo_sb_def) (simp add: demo_root_def demo_node_def init_node_def)
  moreover have "inode_number (inode_of demo 0) = 0"
  proof -
    have "inode_home demo 0 = 3" by (simp add: inode_home_def demo_sb_of demo_inode_table)
    then have "inode_of demo 0 = inode_load (inode_store demo_file (set_btype BLOCK_TYPE_INODE zero_block) 1) 0"
      by (simp add: inode_of_def demo_view demo_disk_def)
    also have "\<dots> = inode_load (set_btype BLOCK_TYPE_INODE zero_block) 0"
      by (rule inode_load_store_other) (simp_all add: demo_file_def)
    finally show ?thesis by (simp add: inode_load_def inode_off_def Let_def load_zero)
  qed
  ultimately show ?thesis
    using chmod_missing_changes_root [OF demo_rooted, of "[]" "root_node demo" "''g''" "[]" 0 True] demo_inode_ok [of 0]
    by (auto simp: component_def PATH_MAX_def)
qed

section \<open>The journal\<close>

text \<open>
  C26. Writing a journal entry over an open slot, one that is synced or, with the cache on, was never used: the entry is in
  the block at the head, in the cache and on disk, with that block's number in it, the superblock on disk has the head one
  further around the ring, and no other block changes. The entry may be any but one that makes a directory, for which
  \<open>initialize_journal_entry\<close> first looks up and truncates the path; an entry that makes a file is written with its tree block cleared.
\<close>

theorem journal_entry_durable:
  assumes "ring_ok s" and "open_slot s (head_block s)"
    and "\<not> (je_type e = MKNOD \<and> load32 e JE_MODE AND S_IFMT = FILE_TYPE_DIRECTORY)"
  shows "\<exists>s'. initialize_journal_entry env s e = Some s' \<and>
    je_block (disk_image s' (unat (head_block s))) = head_block s \<and>
    (\<forall>k. 4 \<le> k \<and> k < 4 + JOURNAL_ENTRY_SIZE \<and> (k < 12 \<or> 20 \<le> k) \<longrightarrow>
      disk_image s' (unat (head_block s)) k = (if je_type e = MKNOD then store64 0 e JE_BTREE else e) k) \<and>
    view s' (head_block s) = disk_image s' (unat (head_block s)) \<and>
    sb_load (disk_image s' 0) = sb_of s' \<and>
    unat (journal_head (sb_of s')) = (unat (journal_head (sb_of s)) + 1) mod ring_size (sb_of s) \<and>
    (\<forall>b. b \<noteq> 0 \<and> b \<noteq> head_block s \<longrightarrow> view s' b = view s b \<and> disk_image s' (unat b) = disk_image s (unat b))"
proof -
  let ?jb = "head_block s"
  define e' where "e' = (if je_type e = MKNOD then store64 0 e JE_BTREE else e)"
  have R: "super_ok s" "0 < ring_size (sb_of s)" "unat (journal_head (sb_of s)) < ring_size (sb_of s)"
    using assms(1) by (simp_all add: ring_ok_def)
  note H = ring_slot [OF assms(1) R(3), simplified]
  have prep: "prepare_entry s e = Some (e', s)" using assms(3) by (simp add: prepare_entry_def e'_def layout)
  let ?x = "copy_entry (set_je_block ?jb e') (view s ?jb)" and ?b0 = "sb_store (next_head (sb_of s)) (view s 0)"
  obtain s' where s': "initialize_journal_entry env s e = Some s'" "st.keeps s s'"
      "view s' = (view s)(0 := ?b0, ?jb := ?x)" "disk_image s' = (disk_image s)(0 := ?b0, unat ?jb := ?x)"
    by (rule initialize_journal_entry_ok [OF R(1) prep H(2) assms(2), of env]) (rule that)
  have "unat ?jb \<noteq> 0" using H(3) by (simp add: unat_eq_zero)
  then have d: "disk_image s' (unat ?jb) = ?x" "disk_image s' 0 = ?b0" "view s' ?jb = ?x" by (simp_all add: s'(3,4))
  have sb: "sb_of s' = next_head (sb_of s)" using H(3) by (simp add: sb_of_def [of s'] s'(3) sb_load_store)
  have "?x k = e' k" if "4 \<le> k" "k < 4 + JOURNAL_ENTRY_SIZE" "k < 12 \<or> 20 \<le> k" for k
    using that by (auto simp: copy_entry_byte store_le_def)
  moreover have "sb_load ?b0 = sb_of s'" by (simp add: sb sb_load_store)
  moreover have "view s' b = view s b \<and> disk_image s' (unat b) = disk_image s (unat b)" if "b \<noteq> 0" "b \<noteq> ?jb" for b
    using that by (simp add: s'(3,4) word_unat_eq_iff)
  moreover have "je_block ?x = ?jb" by (simp add: copy_entry_field layout)
  ultimately show ?thesis
    using s'(1) next_head_mod [OF R(2,3)] unfolding e'_def [symmetric] d sb [symmetric] by (intro exI [of _ s']) (simp add: d sb)
qed

theorem journal_entry_durable_witness:
  "\<exists>s'. initialize_journal_entry demo_env demo (demo_entry 0 UNLINK False) = Some s' \<and> unat (journal_head (sb_of s')) = 1"
proof -
  have "je_type (demo_entry 0 UNLINK False) \<noteq> MKNOD" by (simp add: demo_entry_fields block_types)
  then show ?thesis
    using journal_entry_durable [OF demo_ring, of "demo_entry 0 UNLINK False" demo_env]
    by (auto simp: open_slot_def demo_head [unfolded demo_sb_of] demo_journal demo_entry_fields demo_sb_of demo_journal_size) (auto simp: demo_sb_def)
qed

text \<open>
  C27. The pass at unmount covers the ring, which is every block of the journal but the last: \<open>mark_journal_synced\<close> returns,
  every slot of the ring that held an entry still to be synced is marked as synced and otherwise as it was, and the mark is on
  disk; every other slot, among them those never used, is as it was, so that no slot is left to be replayed; the superblock
  has the fields it had, the head where it was; and no other block outside the ring has changed.
\<close>

theorem mark_journal_complete:
  assumes "ring_ok s"
  shows "\<exists>s'. mark_journal_synced s = Some s' \<and> sb_of s' = sb_of s \<and>
    (\<forall>h < ring_size (sb_of s). view s' (slot s h) =
      (if settled (view s (slot s h)) then view s (slot s h) else set_je_synced True (view s (slot s h)))) \<and>
    (\<forall>h < ring_size (sb_of s). settled (view s' (slot s h))) \<and>
    (\<forall>h < ring_size (sb_of s). \<not> settled (view s (slot s h)) \<longrightarrow> disk_image s' (unat (slot s h)) = view s' (slot s h)) \<and>
    (\<forall>b. b \<noteq> 0 \<and> (\<forall>h < ring_size (sb_of s). b \<noteq> slot s h) \<longrightarrow> view s' b = view s b)"
proof -
  obtain s' where s': "mark_journal_synced s = Some s'" "sb_of s' = sb_of s"
      "\<And>h. h < ring_size (sb_of s) \<Longrightarrow> view s' (slot s h) = as_synced (view s (slot s h))"
      "\<And>b. b \<noteq> 0 \<Longrightarrow> \<forall>h < ring_size (sb_of s). b \<noteq> slot s h \<Longrightarrow> view s' b = view s b"
      "\<And>h. h < ring_size (sb_of s) \<Longrightarrow> \<not> settled (view s (slot s h)) \<Longrightarrow> st.durable s' (slot s h)"
    by (rule mark_journal_synced_ok [OF assms]) (rule that)
  have "\<forall>h < ring_size (sb_of s). settled (view s' (slot s h))" using s'(3) as_synced_settled by simp
  then show ?thesis
    using s' unfolding as_synced_def st.durable_def by (intro exI [of _ s']) blast
qed

theorem mark_journal_complete_witness:
  "\<not> settled (view demo 9) \<and>
   (\<exists>s'. mark_journal_synced demo = Some s' \<and> view s' 9 = set_je_synced True (view demo 9) \<and> disk_image s' 9 = view s' 9)"
proof -
  have n: "\<not> settled (view demo 9)" by (simp add: settled_def demo_journal demo_entry_fields block_types)
  have s: "slot demo 1 = 9" "1 < ring_size (sb_of demo)" by (simp_all add: demo_sb_of demo_journal_size) (simp add: demo_sb_def)
  obtain s' where "mark_journal_synced demo = Some s'"
      "view s' (slot demo 1) = (if settled (view demo (slot demo 1)) then view demo (slot demo 1) else set_je_synced True (view demo (slot demo 1)))"
      "\<not> settled (view demo (slot demo 1)) \<longrightarrow> disk_image s' (unat (slot demo 1)) = view s' (slot demo 1)"
    using mark_journal_complete [OF demo_ring] s(2) by blast
  then show ?thesis using n unfolding s(1) by (auto simp: n)
qed

text \<open>
  C40. Replaying a slot that was never used overwrites the superblock on disk: its type is
  \<^verbatim>\<open>UNINITIALIZED\<close> and its block number 0, so the journal block is written to block 0.
\<close>

theorem sync_unused_overwrites_superblock:
  assumes "store_ok s" and "points s p b" and "0 < nblocks s" and "btype (view s b) = BLOCK_TYPE_JOURNAL"
    and "je_type (view s b) = UNINITIALIZED" and "je_block (view s b) = 0"
  shows "\<exists>s'. sync_entry J env s p = Some s' \<and> btype (disk_image s' 0) = BLOCK_TYPE_JOURNAL"
  by (rule sync_uninitialized [OF assms(1-3,5,6), of J env]) (use assms(4) in auto)

theorem sync_unused_overwrites_superblock_witness:
  "\<exists>p s s'. get_block demo 0 10 = Some (p, s) \<and> sync_entry (initialize_journal_entry demo_env) demo_env s p = Some s' \<and>
    btype (disk_image s' 0) = BLOCK_TYPE_JOURNAL"
proof -
  obtain p s where g: "get_block demo 0 10 = Some (p, s)" "st.silent demo s" "points s p 10"
    using st.get_silent [OF demo_ok, of 10 0] by auto
  have "view s 10 = demo_entry 0 UNINITIALIZED False" using st.silentD(2) [OF g(2)] demo_journal(3) by simp
  then show ?thesis
    using sync_unused_overwrites_superblock [of s p 10 "initialize_journal_entry demo_env" demo_env] g st.keepsD(1,2) [OF st.silentD(1) [OF g(2)]]
    by (auto simp: demo_entry_fields)
qed

section \<open>The programs\<close>

text \<open>
  C2. Formatting and mounting: \<^verbatim>\<open>mkfs\<close> with a label, run on an image of zeros of 200 to 16384 blocks,
  succeeds, and the file system started on the file it leaves is sound: the volume has the label,
  the root directory belongs to the user and has no entries, exactly the blocks up to the root node
  are in use, every block of the journal is one that was never used, the journal takes an entry, and the image of every block
  is what the cache shows.
\<close>

theorem mkfs_then_start:
  assumes "files f = Image (\<lambda>_. zero_block) bytes" and "n = bytes div BLOCK_SIZE" and "200 \<le> n" and "n \<le> 16384"
    and "length name \<le> 31" and "CHR 0x00 \<notin> set name" and "unat physical_memory < 2 ^ 61"
  shows "\<exists>image s. mkfs env files [p, ''-l'', name, f] = Some (0, Some image) \<and>
    nbtrfs_start env' (files(f := image)) (args @ [f]) physical_memory = Some s \<and>
    store_ok s \<and> coherent s \<and> ring_ok s \<and> journal_free s \<and>
    nblocks s = n \<and> str_of_bytes (volume_name (sb_of s)) = Some name \<and>
    rooted s \<and> (\<forall>c. dir_entry s (btree_root (sb_of s)) c None) \<and>
    inode_used s 0 \<and> mode (inode_of s 0) = S_IFDIR OR 0x1ED \<and> owner_id (inode_of s 0) = e_uid env \<and>
    (\<forall>j < n. block_used s j = (j \<le> root_at_block n)) \<and> unat (journal_start (sb_of s)) = journal_at n \<and>
    (\<forall>b. journal_at n \<le> unat b \<and> unat b < journal_at n + n div 100 \<longrightarrow>
      btype (view s b) = BLOCK_TYPE_JOURNAL \<and> je_type (view s b) = UNINITIALIZED) \<and>
    (\<forall>b. disk_image s (unat b) = view s b)"
proof -
  let ?sb = "sb_initial (bytes_of name) (of_nat n) (clock env (mapped \<lparr>disk_base = \<lambda>_. zero_block, total_blocks = of_nat n\<rparr>)) (sb_load zero_block)"
  obtain s1 where s1: "mkfs env files [p, ''-l'', name, f] = Some (0, Some (Image (disk_base (disk s1)) bytes))" "store_ok s1" "cache_disabled s1"
      "nblocks s1 = n" "formatted s1 ?sb"
      "inode_of s1 0 = fresh_inode (e_uid env) (e_gid env) (S_IFDIR OR 0x1ED) 0 (inode_load (set_btype BLOCK_TYPE_INODE zero_block) 0)"
    by (rule mkfs_ok [of files "[p, ''-l'', name, f]" bytes name n env])
      (use assms volume_label_ok [OF assms(5,6)] that in simp_all)
  obtain s where s: "nbtrfs_start env' (files(f := Image (disk_base (disk s1)) bytes)) (args @ [f]) physical_memory = Some s" "store_ok s"
      "\<not> cache_disabled s" "coherent s" "nblocks s = nblocks s1" "formatted s ?sb" "inode_of s 0 = inode_of s1 0"
      "\<And>b. disk_image s (unat b) = view s b"
    by (rule start_ok [OF s1(5,2,3), of "args @ [f]" "files(f := Image (disk_base (disk s1)) bytes)" bytes physical_memory env'])
      (use assms s1(4) that in simp_all)
  have n: "200 \<le> nblocks s" using s(5) s1(4) assms(3) by simp
  note R = formatted_ring(1) [OF s(6,2) n] and J = formatted_journal(2) [OF s(6,2) n s(3)] and D = formatted_rooted [OF s(6,2)]
  have h: "unat (journal_head (sb_of s)) < ring_size (sb_of s)" using R by (simp add: ring_ok_def)
  then have jf: "journal_free s" using ring_slot(2) [OF R h] J [OF h] by (simp add: journal_free_def)
  have vn: "str_of_bytes (volume_name (sb_of s)) = Some name"
    using s(6) str_of_bytes_of [OF assms(6)] by (simp add: formatted_def Let_def sb_initial_def)
  have u: "inode_used s 0" "\<forall>j < n. block_used s j = (j \<le> root_at_block n)"
    using s(5,6) s1(4) by (simp_all add: formatted_def Let_def filled_def less_Suc_eq_le)
  have i: "mode (inode_of s 0) = S_IFDIR OR 0x1ED" "owner_id (inode_of s 0) = e_uid env"
    by (simp_all add: s(7) s1(6) fresh_inode_def)
  have "journal_start (sb_of s) = of_nat (journal_at n)" using s(6) s(5) s1(4) by (simp add: formatted_def Let_def)
  moreover have "journal_at n < nblocks s" using geometry_bounds [OF assms(3)] s(5) s1(4) by simp
  ultimately have js: "unat (journal_start (sb_of s)) = journal_at n" using small_unat [OF s(2)] by simp
  have je: "btype (view s b) = BLOCK_TYPE_JOURNAL \<and> je_type (view s b) = UNINITIALIZED"
    if "journal_at n \<le> unat b \<and> unat b < journal_at n + n div 100" for b
    using that s(5,6) s1(4) by (simp add: formatted_def Let_def root_at_block_def)
  show ?thesis
    using s1(1,4) s(1,2,4,5,8) R jf vn D(1,2) u i js je by blast
qed

theorem mkfs_then_start_witness:
  "\<exists>image s. mkfs demo_env (\<lambda>_. Image (\<lambda>_. zero_block) (300 * 4096)) [''mkfs'', ''-l'', ''vol'', ''my.img''] = Some (0, Some image) \<and>
    nbtrfs_start demo_env ((\<lambda>_. Image (\<lambda>_. zero_block) (300 * 4096))(''my.img'' := image)) ([''fuse''] @ [''my.img'']) (2 ^ 33) = Some s \<and>
    rooted s \<and> str_of_bytes (volume_name (sb_of s)) = Some ''vol'' \<and> (\<forall>b. disk_image s (unat b) = view s b)"
proof -
  have "unat (2 ^ 33 :: u64) < 2 ^ 61" by simp
  then show ?thesis
    using mkfs_then_start [of "\<lambda>_. Image (\<lambda>_. zero_block) (300 * 4096)" "''my.img''" "300 * 4096" 300 "''vol''" "2 ^ 33" demo_env "''mkfs''" demo_env "[''fuse'']"]
    by (auto simp: layout)
qed

text \<open>
  A label of 32 bytes or more is copied without a terminator, and \<^verbatim>\<open>mkfs\<close> then reads past the array.
\<close>

theorem mkfs_long_label_undefined:
  assumes "files f = Image base bytes" and "32 \<le> length name" and "CHR 0x00 \<notin> set name"
  shows "mkfs env files [p, ''-l'', name, f] = None"
  using volume_label_overrun [OF assms(2,3), of p f] by (simp add: mkfs_def assms(1))

theorem mkfs_long_label_undefined_witness:
  "mkfs demo_env (\<lambda>_. Image (\<lambda>_. zero_block) (300 * 4096)) [''mkfs'', ''-l'', replicate 32 CHR ''x'', ''my.img''] = None"
  using mkfs_long_label_undefined [of "\<lambda>_. Image (\<lambda>_. zero_block) (300 * 4096)" "''my.img''" "\<lambda>_. zero_block" "300 * 4096"
    "replicate 32 CHR ''x''" demo_env "''mkfs''"] by simp

text \<open>
  C3. Files survive unmounting: \<^verbatim>\<open>destroy\<close> returns, starting the program again on the image succeeds, and a
  file then reads as it did before, with the same attributes, while the journal has nothing left to replay.
\<close>

theorem restart_reads_back:
  assumes "ring_ok s" and "coherent s" and "\<not> cache_disabled s" and "nblocks s \<le> 16384" and "nblocks s = bytes div BLOCK_SIZE"
    and "unat physical_memory < 2 ^ 61" and "file_at s cs ino" and "file_ok s (inode_of s ino) n"
    and "unat (i_size (inode_of s ino)) \<le> n * USABLE_BLOCK_SIZE" and "off < unat (i_size (inode_of s ino))" and "off + len < 2 ^ 64"
  shows "\<exists>s1 s2 s3 s4 s5. nbtrfs_destroy s = Some s1 \<and>
    nbtrfs_start env (files(f := Image (disk_base (disk s1)) bytes)) (args @ [f]) physical_memory = Some s2 \<and> all_settled s2 \<and>
    nbtrfs_getattr s2 (join cs) = Some (Some (stat_of (inode_of s ino) (of_nat ino)), s3) \<and>
    (let k = min len (unat (i_size (inode_of s ino)) - off) in
     nbtrfs_read s (join cs) (of_nat len) (of_nat off) = Some (int k, file_bytes s (inode_of s ino) off k, s4) \<and>
     nbtrfs_read s2 (join cs) (of_nat len) (of_nat off) = Some (int k, file_bytes s (inode_of s ino) off k, s5))"
proof -
  let ?i = "inode_of s ino" and ?k = "min len (unat (i_size (inode_of s ino)) - off)"
  obtain s1 s2 where s: "nbtrfs_destroy s = Some s1"
      "nbtrfs_start env (files(f := Image (disk_base (disk s1)) bytes)) (args @ [f]) physical_memory = Some s2" "remounted s s2"
    by (rule restart_ok [OF assms(1-6)]) (rule that)
  have t: "btype (view s 0) = BLOCK_TYPE_SUPER" using assms(1) by (simp add: ring_ok_def super_ok_def)
  have io: "inode_ok s ino" using assms(7) by (simp add: file_at_def)
  note I = remounted_inode [OF s(3) io] and F = remounted_file [OF s(3) assms(8)]
  have fa: "file_at s2 cs ino" by (rule file_at_kept [OF assms(7) remounted_nodes [OF s(3) t] I(1)])
  have "off + ?k \<le> n * USABLE_BLOCK_SIZE" using assms(9,10) by simp
  then have fb: "file_bytes s2 ?i off ?k = file_bytes s ?i off ?k" unfolding file_bytes_def using F(2) by (intro map_cong) auto
  obtain s3 where s3: "nbtrfs_getattr s2 (join cs) = Some (Some (stat_of ?i (of_nat ino)), s3)"
    by (rule nbtrfs_getattr_ok [OF fa]) (simp add: I(2))
  obtain s4 where s4: "nbtrfs_read s (join cs) (of_nat len) (of_nat off) = Some (int ?k, file_bytes s ?i off ?k, s4)"
    by (rule nbtrfs_read_ok [OF assms(7) refl assms(8-11)])
  obtain s5 where s5: "nbtrfs_read s2 (join cs) (of_nat len) (of_nat off) = Some (int ?k, file_bytes s2 ?i off ?k, s5)"
    by (rule nbtrfs_read_ok [OF fa I(2) [symmetric] F(1) assms(9-11)])
  have "all_settled s2" using s(3) by (simp add: remounted_def)
  with s(1,2) s3 s4 s5 fb show ?thesis by (auto simp: Let_def)
qed

theorem restart_reads_back_witness:
  "\<exists>s1 s2 s3. nbtrfs_destroy demo = Some s1 \<and>
    nbtrfs_start demo_env ((\<lambda>_. Absent)(''my.img'' := Image (disk_base (disk s1)) (300 * 4096))) ([''fuse''] @ [''my.img'']) (2 ^ 33) = Some s2 \<and>
    nbtrfs_read s2 ''/f'' 100 0 = Some (2, [104, 105], s3)"
proof -
  have "unat (2 ^ 33 :: u64) < 2 ^ 61" "i_size demo_file = 2" "\<not> cache_disabled demo"
    by (simp_all add: demo_file_def) (simp add: demo_def mounted_def)
  then show ?thesis
    using restart_reads_back [OF demo_ring demo_coherent, of "300 * 4096" "2 ^ 33" "[''f'']" 1 1 0 100 demo_env "\<lambda>_. Absent" "''my.img''" "[''fuse'']"]
      demo_file_at demo_file_ok demo_inode_of demo_file_bytes
    by (auto simp: layout Let_def)
qed

end
